(* ===== verification/Prelude.thy ===== *)
theory Prelude
  imports Main "HOL-Library.Word" "HOL-Library.Monad_Syntax" "HOL-Library.Sublist"
begin

text \<open>
  The vocabulary the component theories share.

  \<^item> The C types the sources use, as words of their x86-64 width, and \<open>NULL\<close>-able pointers.
  \<^item> A flat, bounded byte memory (\<open>mem\<close>).  A pointer is an index into it; every read and every
    write is checked, and an access outside the memory is the value \<open>None\<close> of the whole
    computation.  So a theorem \<open>f m p = Some \<dots>\<close> also says that \<open>f\<close> touches only mapped memory.
    Two regions may overlap, so aliasing is visible.
  \<^item> \<open>cstr m p bs\<close>: at \<open>p\<close> stands the NUL-terminated string \<open>bs\<close>; \<open>bytes_at m p bs\<close>: the bytes
    \<open>bs\<close>; \<open>wr m p bs\<close>: the memory after the bytes \<open>bs\<close> have been stored at \<open>p\<close>.
  \<^item> The facts on lists and words that several components need, in the collections
    \<open>mem_simps\<close> (checked memory) and \<open>word_to_nat\<close> (words read as numbers).
\<close>

unbundle bit_operations_syntax

section \<open>C types\<close>

type_synonym byte = "8 word"
type_synonym u16 = "16 word"
type_synonym u32 = "32 word"
type_synonym u64 = "64 word"
type_synonym ptr = "nat option"
type_synonym mem = "byte list"

abbreviation NULL :: ptr where "NULL \<equiv> None"

named_theorems mem_simps \<open>checked reads and writes of the flat memory\<close>
named_theorems word_to_nat \<open>words read as natural numbers or integers\<close>

section \<open>Checked memory\<close>

definition ld :: "mem \<Rightarrow> nat \<Rightarrow> byte option" where
  "ld m a = (if a < length m then Some (m ! a) else None)"

definition st :: "mem \<Rightarrow> nat \<Rightarrow> byte \<Rightarrow> mem option" where
  "st m a v = (if a < length m then Some (m[a := v]) else None)"

fun cstr :: "mem \<Rightarrow> nat \<Rightarrow> byte list \<Rightarrow> bool" where
  "cstr m p [] = (ld m p = Some 0)"
| "cstr m p (b # bs) = (b \<noteq> 0 \<and> ld m p = Some b \<and> cstr m (Suc p) bs)"

fun bytes_at :: "mem \<Rightarrow> nat \<Rightarrow> byte list \<Rightarrow> bool" where
  "bytes_at m p [] = True"
| "bytes_at m p (b # bs) = (ld m p = Some b \<and> bytes_at m (Suc p) bs)"

fun wr :: "mem \<Rightarrow> nat \<Rightarrow> byte list \<Rightarrow> mem" where
  "wr m p [] = m"
| "wr m p (b # bs) = wr (m[p := b]) (Suc p) bs"

lemma ld_SomeD [dest]: "ld m a = Some v \<Longrightarrow> a < length m \<and> m ! a = v"
  by (auto simp: ld_def split: if_splits)

lemma ld_in [simp]: "a < length m \<Longrightarrow> ld m a = Some (m ! a)"
  by (simp add: ld_def)

lemma st_in [simp]: "a < length m \<Longrightarrow> st m a v = Some (m[a := v])"
  by (simp add: st_def)

lemma st_SomeD [dest]: "st m a v = Some m' \<Longrightarrow> a < length m \<and> m' = m[a := v]"
  by (auto simp: st_def split: if_splits)

lemma ld_update [mem_simps]: "ld (m[a := v]) b = (if a = b \<and> a < length m then Some v else ld m b)"
  by (auto simp: ld_def)

lemma ld_fault [mem_simps]: "(ld m a = None) = (length m \<le> a)"
  by (auto simp: ld_def)

lemma length_wr [simp]: "length (wr m p bs) = length m"
  by (induction m p bs rule: wr.induct) auto

lemma nth_wr [mem_simps]:
  "p + length bs \<le> length m \<Longrightarrow>
   wr m p bs ! i = (if p \<le> i \<and> i < p + length bs then bs ! (i - p) else m ! i)"
proof (induction m p bs rule: wr.induct)
  case (2 m p b bs)
  show ?case
  proof (cases "i = p")
    case True
    with "2" show ?thesis by simp
  next
    case False
    with "2" show ?thesis by (auto simp: nth_Cons' Suc_diff_le)
  qed
qed auto

lemma wr_outside: "i < p \<Longrightarrow> wr m p bs ! i = m ! i"
  by (induction m p bs rule: wr.induct) auto

lemma wr_append: "wr m p (xs @ ys) = wr (wr m p xs) (p + length xs) ys"
  by (induction m p xs rule: wr.induct) auto

lemma wr_conv:
  assumes "p + length bs \<le> length m"
  shows "wr m p bs = take p m @ bs @ drop (p + length bs) m"
proof (rule nth_equalityI)
  fix i assume "i < length (wr m p bs)"
  then show "wr m p bs ! i = (take p m @ bs @ drop (p + length bs) m) ! i"
    using assms by (auto simp: nth_wr nth_append)
qed (use assms in simp)

lemma bytes_at_nth: "bytes_at m p bs \<longleftrightarrow> (\<forall>i < length bs. ld m (p + i) = Some (bs ! i))"
proof (induction m p bs rule: bytes_at.induct)
  case (2 m p b bs)
  show ?case by (auto simp: "2" less_Suc_eq_0_disj)
qed simp

lemma bytes_at_length: "bytes_at m p bs \<Longrightarrow> bs \<noteq> [] \<Longrightarrow> p + length bs \<le> length m"
proof (induction m p bs rule: bytes_at.induct)
  case (2 m p b bs)
  then show ?case by (cases bs) auto
qed simp

lemma bytes_at_conv:
  "p + length bs \<le> length m \<Longrightarrow> bytes_at m p bs \<longleftrightarrow> take (length bs) (drop p m) = bs"
  by (auto simp: bytes_at_nth list_eq_iff_nth_eq)

lemma bytes_at_wr [mem_simps]: "p + length bs \<le> length m \<Longrightarrow> bytes_at (wr m p bs) p bs"
  by (auto simp: bytes_at_nth nth_wr)

lemma bytes_at_wr_disjoint [mem_simps]:
  assumes "bytes_at m q cs" "q + length cs \<le> p \<or> p + length bs \<le> q" "p + length bs \<le> length m"
  shows "bytes_at (wr m p bs) q cs"
  using assms by (auto simp: bytes_at_nth nth_wr ld_def split: if_splits)

lemma wr_same: "bytes_at m p bs \<Longrightarrow> wr m p bs = m"
  by (induction m p bs rule: bytes_at.induct) (auto dest!: ld_SomeD)

lemma bytes_at_append: "bytes_at m p (xs @ ys) \<longleftrightarrow> bytes_at m p xs \<and> bytes_at m (p + length xs) ys"
  by (induction m p xs rule: bytes_at.induct) auto

lemma cstr_conv: "cstr m p bs \<longleftrightarrow> 0 \<notin> set bs \<and> bytes_at m p (bs @ [0])"
  by (induction m p bs rule: cstr.induct) auto

lemma cstr_length: "cstr m p bs \<Longrightarrow> p + length bs < length m"
  using bytes_at_length [of m p "bs @ [0]"] by (simp add: cstr_conv)

lemma cstr_nth: "cstr m p bs \<Longrightarrow> i < length bs \<Longrightarrow> m ! (p + i) = bs ! i"
  by (auto simp: cstr_conv bytes_at_nth nth_append dest!: spec [where x = i])

lemma cstr_end: "cstr m p bs \<Longrightarrow> m ! (p + length bs) = 0"
  by (auto simp: cstr_conv bytes_at_nth nth_append dest!: spec [where x = "length bs"])

lemma cstr_drop: "cstr m p bs \<Longrightarrow> i \<le> length bs \<Longrightarrow> cstr m (p + i) (drop i bs)"
proof (induction m p bs arbitrary: i rule: cstr.induct)
  case (2 m p b bs)
  then show ?case by (cases i) auto
qed auto

lemma cstr_unique: "cstr m p bs \<Longrightarrow> cstr m p cs \<Longrightarrow> bs = cs"
proof (induction m p bs arbitrary: cs rule: cstr.induct)
  case (1 m p)
  then show ?case by (cases cs) auto
next
  case (2 m p b bs)
  then show ?case by (cases cs) auto
qed

lemma cstr_frame:
  assumes "cstr m p bs" "a < p \<or> p + length bs < a"
  shows "cstr (m[a := v]) p bs"
  using assms by (induction m p bs rule: cstr.induct) (auto simp: ld_update)

lemma cstr_wr:
  assumes "cstr m q cs" "q + length cs < p \<or> p + length bs \<le> q" "p + length bs \<le> length m"
  shows "cstr (wr m p bs) q cs"
  using assms by (auto simp: cstr_conv intro!: bytes_at_wr_disjoint)

lemma cstr_wr_same: "p + length bs < length m \<Longrightarrow> 0 \<notin> set bs \<Longrightarrow> cstr (wr m p (bs @ [0])) p bs"
  by (simp add: cstr_conv bytes_at_wr)

section \<open>Lists\<close>

lemma length_takeWhile_lt: "\<exists>x \<in> set xs. \<not> P x \<Longrightarrow> length (takeWhile P xs) < length xs"
  by (induction xs) auto

text \<open>The first position at which a list occurs in another.\<close>

fun first_occ :: "'a list \<Rightarrow> 'a list \<Rightarrow> nat option" where
  "first_occ n [] = (if n = [] then Some 0 else None)"
| "first_occ n (h # hs) = (if prefix n (h # hs) then Some 0 else map_option Suc (first_occ n hs))"

lemma first_occ_Some:
  "first_occ n hs = Some i \<Longrightarrow> prefix n (drop i hs) \<and> i \<le> length hs \<and> (\<forall>j < i. \<not> prefix n (drop j hs))"
proof (induction hs arbitrary: i)
  case (Cons h hs)
  show ?case
  proof (cases "prefix n (h # hs)")
    case False
    with Cons.prems obtain k where k: "first_occ n hs = Some k" "i = Suc k" by auto
    with Cons.IH [of k] False show ?thesis by (auto simp: less_Suc_eq_0_disj)
  qed (use Cons.prems in auto)
qed (auto split: if_splits)

lemma first_occ_None: "first_occ n hs = None \<longleftrightarrow> (\<forall>i \<le> length hs. \<not> prefix n (drop i hs))"
proof (induction hs)
  case (Cons h hs)
  have "(\<forall>i \<le> length (h # hs). \<not> prefix n (drop i (h # hs))) \<longleftrightarrow>
    \<not> prefix n (h # hs) \<and> (\<forall>i \<le> length hs. \<not> prefix n (drop i hs))"
    unfolding less_Suc_eq_le [symmetric] length_Cons by (subst All_less_Suc2) simp
  with Cons.IH show ?case by simp
qed auto

section \<open>Words as numbers\<close>

lemma unat_lt_len [word_to_nat]: "unat (w :: 'a::len word) < 2 ^ LENGTH('a)"
  by (rule unsigned_less)

lemma bit_or_one_push [simp]:
  "n < LENGTH('a) \<Longrightarrow> bit (w OR push_bit n 1 :: 'a::len word) k \<longleftrightarrow> bit w k \<or> k = n"
  by (auto simp: bit_or_iff bit_push_bit_iff bit_1_iff simp del: push_bit_of_1)

lemma and_one_push [simp]:
  "n < LENGTH('a) \<Longrightarrow> (w AND push_bit n 1 :: 'a::len word) \<noteq> 0 \<longleftrightarrow> bit w n"
  by (simp add: bit_iff_and_push_bit_not_eq_0)

lemma byte_div_less: "256 = d * k \<Longrightarrow> unat (c :: byte) div d < k"
  using unat_lt_len [of c] by (intro less_mult_imp_div_less) (simp add: mult.commute)

lemma word_eq_divmod: "v = w \<longleftrightarrow> unat v div k = unat w div k \<and> unat v mod k = unat (w :: 'a::len word) mod k"
  by (metis div_mult_mod_eq word_unat_eq_iff)

lemma unat_ucast_up [word_to_nat]:
  "LENGTH('a) \<le> LENGTH('b) \<Longrightarrow> unat (ucast (x :: 'a::len word) :: 'b::len word) = unat x"
  using order.strict_trans2 [OF unat_lt_len [of x] power_increasing [of "LENGTH('a)" "LENGTH('b)" "2 :: nat"]]
  by (simp add: unsigned_ucast_eq take_bit_nat_eq_self_iff)

lemma ucast_up_eq_0:
  "LENGTH('a) \<le> LENGTH('b) \<Longrightarrow> (ucast (x :: 'a::len word) :: 'b::len word) = 0 \<longleftrightarrow> x = 0"
  by (metis unat_eq_0 unat_ucast_up)

lemma unat_or_less:
  assumes "unat (a :: 'a::len word) < 2 ^ k" "unat b < 2 ^ k"
  shows "unat (a OR b) < 2 ^ k"
proof -
  have "take_bit k (unat a OR unat b) = unat a OR unat b"
    using assms by (simp add: take_bit_or take_bit_nat_eq_self)
  then show ?thesis by (metis take_bit_nat_less_exp unsigned_or_eq)
qed

lemma byte_less [simp]: "unat (b :: byte) < 256"
  using unat_lt_len [of b] by simp

lemma unat_push_bit [word_to_nat]:
  "unat (push_bit n w :: 'a::len word) = unat w * 2 ^ n mod 2 ^ LENGTH('a)"
  unfolding unsigned_push_bit_eq unfolding push_bit_eq_mult take_bit_eq_mod ..

lemma unat_drop_bit [word_to_nat]: "unat (drop_bit n w :: 'a::len word) = unat w div 2 ^ n"
  unfolding unat_drop_bit_eq unfolding drop_bit_eq_div ..

lemma unat_and_mask [word_to_nat]: "unat (w AND mask n :: 'a::len word) = unat w mod 2 ^ n"
  unfolding take_bit_eq_mask [symmetric] unsigned_take_bit_eq unfolding take_bit_eq_mod ..

text \<open>The order \<open>strcmp\<close> and \<open>memcmp\<close> realise: lexicographic in the unsigned bytes.\<close>

abbreviation byte_lex :: "byte list \<Rightarrow> byte list \<Rightarrow> bool" where
  "byte_lex xs ys \<equiv> (xs, ys) \<in> lexord {(a, b). a < b}"

lemma uint_diff_sign [word_to_nat]:
  "uint (a :: byte) - uint b < 0 \<longleftrightarrow> a < b" "uint a - uint b = 0 \<longleftrightarrow> a = b"
  by (simp_all add: word_less_def word_uint_eq_iff)

lemma byte_lex_total:
  "byte_lex bs as \<longleftrightarrow> \<not> byte_lex as bs \<and> as \<noteq> bs"
  using lexord_linear [of "{(a, b). a < b}" as bs] lexord_irreflexive [of "{(a, b). a < b}" as]
    lexord_asymmetric [of "{(a :: byte, b). a < b}" as bs] less_linear [where 'a = byte]
  by (force simp: asym_iff)

lemma take_drop_Suc: "p < length m \<Longrightarrow> take (Suc n) (drop p m) = m ! p # take n (drop (Suc p) m)"
  by (simp add: Cons_nth_drop_Suc [symmetric])

lemma take_drop_add: "take (a + b) (drop p m) = take a (drop p m) @ take b (drop (p + a) m)"
  by (simp add: take_add add.commute)

end
