(* ===== verification/Cstring.thy ===== *)
theory Cstring
  imports Prelude
begin

text \<open>
  The NUL-terminated strings of \<^verbatim>\<open>src/libc/string\<close>: length, search, comparison, copy and
  concatenation.  Each C function is one definition over the checked memory; a loop of the source
  is a recursive function of the same name with a suffix.  \<open>size_t\<close> counts are natural numbers:
  every decrement in these sources is guarded by a test against zero, and the sums they return
  are at most the size of the memory.
\<close>

section \<open>Scanning\<close>

function strlen_loop :: "mem \<Rightarrow> nat \<Rightarrow> nat option" where
  "strlen_loop m s = do { c \<leftarrow> ld m s; if c \<noteq> 0 then strlen_loop m (s + 1) else Some s }"
  by pat_completeness auto
termination
  by (relation "measure (\<lambda>(m, s). length m - s)") (auto split: if_splits)

declare strlen_loop.simps [simp del]

definition strlen :: "mem \<Rightarrow> nat \<Rightarrow> nat option" where
  "strlen m str = do { s \<leftarrow> strlen_loop m str; Some (s - str) }"

function strnlen_loop :: "mem \<Rightarrow> nat \<Rightarrow> nat \<Rightarrow> nat \<Rightarrow> nat option" where
  "strnlen_loop m s len maxlen =
     (if len < maxlen then do { c \<leftarrow> ld m s;
        if c = 0 then Some len else strnlen_loop m (s + 1) (len + 1) maxlen }
      else Some len)"
  by pat_completeness auto
termination
  by (relation "measure (\<lambda>(m, s, len, maxlen). maxlen - len)") auto

declare strnlen_loop.simps [simp del]

definition strnlen :: "mem \<Rightarrow> nat \<Rightarrow> nat \<Rightarrow> nat option" where
  "strnlen m s maxlen = strnlen_loop m s 0 maxlen"

function strchr :: "mem \<Rightarrow> nat \<Rightarrow> byte \<Rightarrow> ptr option" where
  "strchr m p cmp = do { c \<leftarrow> ld m p;
     if c = cmp then Some (Some p)
     else if c = 0 then Some NULL
     else strchr m (p + 1) cmp }"
  by pat_completeness auto
termination
  by (relation "measure (\<lambda>(m, p, cmp). length m - p)") (auto split: if_splits)

declare strchr.simps [simp del]

function strrchr_loop :: "mem \<Rightarrow> nat \<Rightarrow> byte \<Rightarrow> ptr \<Rightarrow> ptr option" where
  "strrchr_loop m p ch save = do { c \<leftarrow> ld m p;
     let save = (if c = ch then Some p else save) in
     if c = 0 then Some save else strrchr_loop m (p + 1) ch save }"
  by pat_completeness auto
termination
  by (relation "measure (\<lambda>(m, p, ch, save). length m - p)") (auto split: if_splits)

declare strrchr_loop.simps [simp del]

definition strrchr :: "mem \<Rightarrow> nat \<Rightarrow> byte \<Rightarrow> ptr option" where
  "strrchr m p ch = strrchr_loop m p ch NULL"

function strchrnul :: "mem \<Rightarrow> nat \<Rightarrow> byte \<Rightarrow> nat option" where
  "strchrnul m p cmp = do { c \<leftarrow> ld m p;
     if c = cmp \<or> c = 0 then Some p else strchrnul m (p + 1) cmp }"
  by pat_completeness auto
termination
  by (relation "measure (\<lambda>(m, p, cmp). length m - p)") (auto split: if_splits)

declare strchrnul.simps [simp del]

section \<open>Comparison and substring search\<close>

function strcmp :: "mem \<Rightarrow> nat \<Rightarrow> nat \<Rightarrow> int option" where
  "strcmp m s1 s2 = do { a \<leftarrow> ld m s1; b \<leftarrow> ld m s2;
     if a = b then (if a = 0 then Some 0 else strcmp m (s1 + 1) (s2 + 1))
     else Some (uint a - uint b) }"
  by pat_completeness auto
termination
  by (relation "measure (\<lambda>(m, s1, s2). length m - s1)") (auto split: if_splits)

declare strcmp.simps [simp del]

function strncmp_loop :: "mem \<Rightarrow> nat \<Rightarrow> nat \<Rightarrow> nat \<Rightarrow> int option" where
  "strncmp_loop m s1 s2 n = do { a \<leftarrow> ld m s1; b \<leftarrow> ld m s2;
     if a \<noteq> b then Some (uint a - uint b)
     else if a = 0 then Some 0
     else if n - 1 \<noteq> 0 then strncmp_loop m (s1 + 1) (s2 + 1) (n - 1)
     else Some 0 }"
  by pat_completeness auto
termination
  by (relation "measure (\<lambda>(m, s1, s2, n). n)") auto

declare strncmp_loop.simps [simp del]

definition strncmp :: "mem \<Rightarrow> nat \<Rightarrow> nat \<Rightarrow> nat \<Rightarrow> int option" where
  "strncmp m s1 s2 n = (if n = 0 then Some 0 else strncmp_loop m s1 s2 n)"

text \<open>The inner \<^verbatim>\<open>do ... while (sc != c)\<close> of \<open>strstr\<close>: the address after the next \<open>c\<close>, or \<open>NULL\<close> at the NUL.\<close>

function strstr_scan :: "mem \<Rightarrow> nat \<Rightarrow> byte \<Rightarrow> ptr option" where
  "strstr_scan m s c = do { sc \<leftarrow> ld m s;
     if sc = 0 then Some NULL
     else if sc \<noteq> c then strstr_scan m (s + 1) c
     else Some (Some (s + 1)) }"
  by pat_completeness auto
termination
  by (relation "measure (\<lambda>(m, s, c). length m - s)") (auto split: if_splits)

declare strstr_scan.simps [simp del]

lemma strstr_scan_progress: "strstr_scan m s c = Some (Some t) \<Longrightarrow> s < t \<and> t \<le> length m"
proof (induction m s c rule: strstr_scan.induct)
  case (1 m s c)
  from "1.prems" obtain sc where sc: "ld m s = Some sc" "sc \<noteq> 0"
    by (subst (asm) strstr_scan.simps) (auto split: if_splits bind_splits)
  show ?case
  proof (cases "sc = c")
    case True
    with sc "1.prems" show ?thesis by (subst (asm) strstr_scan.simps) auto
  next
    case False
    with sc "1.prems" have "strstr_scan m (s + 1) c = Some (Some t)"
      by (subst (asm) strstr_scan.simps) auto
    with "1.IH" sc False show ?thesis by fastforce
  qed
qed

function strstr_loop :: "mem \<Rightarrow> nat \<Rightarrow> byte \<Rightarrow> nat \<Rightarrow> nat \<Rightarrow> ptr option" where
  "strstr_loop m s c fnd len = do { r \<leftarrow> strstr_scan m s c;
     case r of None \<Rightarrow> Some NULL
     | Some s' \<Rightarrow> do { d \<leftarrow> strncmp m s' fnd len;
         if d \<noteq> 0 then strstr_loop m s' c fnd len else Some (Some (s' - 1)) } }"
  by pat_completeness auto
termination
  by (relation "measure (\<lambda>(m, s, c, fnd, len). length m - s)")
     (auto dest!: strstr_scan_progress)

declare strstr_loop.simps [simp del]

definition strstr :: "mem \<Rightarrow> nat \<Rightarrow> nat \<Rightarrow> ptr option" where
  "strstr m s fnd = do { c \<leftarrow> ld m fnd;
     if c \<noteq> 0 then do { len \<leftarrow> strlen m (fnd + 1); strstr_loop m s c (fnd + 1) len }
     else Some (Some s) }"

section \<open>Copying and concatenation\<close>

function stpcpy :: "mem \<Rightarrow> nat \<Rightarrow> nat \<Rightarrow> (nat \<times> mem) option" where
  "stpcpy m to frm = do { c \<leftarrow> ld m frm; m' \<leftarrow> st m to c;
     if c \<noteq> 0 then stpcpy m' (to + 1) (frm + 1) else Some (to, m') }"
  by pat_completeness auto
termination
  by (relation "measure (\<lambda>(m, to, frm). length m - frm)") (auto dest!: st_SomeD ld_SomeD)

declare stpcpy.simps [simp del]

text \<open>\<open>strcpy\<close> has the same loop and returns the address it was given.\<close>

definition strcpy :: "mem \<Rightarrow> nat \<Rightarrow> nat \<Rightarrow> (nat \<times> mem) option" where
  "strcpy m to frm = do { (_, m') \<leftarrow> stpcpy m to frm; Some (to, m') }"

definition strcat :: "mem \<Rightarrow> nat \<Rightarrow> nat \<Rightarrow> (nat \<times> mem) option" where
  "strcat m s app = do { t \<leftarrow> strlen_loop m s; (_, m') \<leftarrow> stpcpy m t app; Some (s, m') }"

text \<open>\<^verbatim>\<open>while (--n != 0) *d++ = 0\<close> of \<open>strncpy\<close>, with \<open>n\<close> the number of bytes still to clear.\<close>

fun zero_fill :: "mem \<Rightarrow> nat \<Rightarrow> nat \<Rightarrow> mem option" where
  "zero_fill m d 0 = Some m"
| "zero_fill m d (Suc n) = do { m' \<leftarrow> st m d 0; zero_fill m' (d + 1) n }"

function strncpy_loop :: "mem \<Rightarrow> nat \<Rightarrow> nat \<Rightarrow> nat \<Rightarrow> mem option" where
  "strncpy_loop m d s n = do { c \<leftarrow> ld m s; m' \<leftarrow> st m d c;
     if c = 0 then zero_fill m' (d + 1) (n - 1)
     else if n - 1 \<noteq> 0 then strncpy_loop m' (d + 1) (s + 1) (n - 1)
     else Some m' }"
  by pat_completeness auto
termination
  by (relation "measure (\<lambda>(m, d, s, n). n)") auto

declare strncpy_loop.simps [simp del]

definition strncpy :: "mem \<Rightarrow> nat \<Rightarrow> nat \<Rightarrow> nat \<Rightarrow> (nat \<times> mem) option" where
  "strncpy m dst src n =
     (if n \<noteq> 0 then do { m' \<leftarrow> strncpy_loop m dst src n; Some (dst, m') } else Some (dst, m))"

function strncat_loop :: "mem \<Rightarrow> nat \<Rightarrow> nat \<Rightarrow> nat \<Rightarrow> (nat \<times> mem) option" where
  "strncat_loop m d s n = do { c \<leftarrow> ld m s; m' \<leftarrow> st m d c;
     if c = 0 then Some (d, m')
     else if n - 1 \<noteq> 0 then strncat_loop m' (d + 1) (s + 1) (n - 1)
     else Some (d + 1, m') }"
  by pat_completeness auto
termination
  by (relation "measure (\<lambda>(m, d, s, n). n)") auto

declare strncat_loop.simps [simp del]

definition strncat :: "mem \<Rightarrow> nat \<Rightarrow> nat \<Rightarrow> nat \<Rightarrow> (nat \<times> mem) option" where
  "strncat m dst src n =
     (if n \<noteq> 0 then do {
        d \<leftarrow> strlen_loop m dst;
        (d', m') \<leftarrow> strncat_loop m d src n;
        m'' \<leftarrow> st m' d' 0;
        Some (dst, m'') }
      else Some (dst, m))"

function strlcpy_loop :: "mem \<Rightarrow> nat \<Rightarrow> nat \<Rightarrow> nat \<Rightarrow> (mem \<times> nat \<times> nat \<times> nat) option" where
  "strlcpy_loop m d s n = do { c \<leftarrow> ld m s; m' \<leftarrow> st m d c;
     if c = 0 then Some (m', d + 1, s + 1, n)
     else if n - 1 \<noteq> 0 then strlcpy_loop m' (d + 1) (s + 1) (n - 1)
     else Some (m', d + 1, s + 1, 0) }"
  by pat_completeness auto
termination
  by (relation "measure (\<lambda>(m, d, s, n). n)") auto

declare strlcpy_loop.simps [simp del]

text \<open>\<^verbatim>\<open>while (*s++);\<close> leaves \<open>s\<close> one past the NUL.\<close>

definition strlcpy_skip :: "mem \<Rightarrow> nat \<Rightarrow> nat option" where
  "strlcpy_skip m s = do { e \<leftarrow> strlen_loop m s; Some (e + 1) }"

definition strlcpy :: "mem \<Rightarrow> nat \<Rightarrow> nat \<Rightarrow> nat \<Rightarrow> (nat \<times> mem) option" where
  "strlcpy m dst src siz = do {
     (m1, d, s, n) \<leftarrow> (if siz \<noteq> 0 \<and> siz - 1 \<noteq> 0 then strlcpy_loop m dst src (siz - 1)
                       else Some (m, dst, src, siz - 1));
     if n = 0 then do {
       m2 \<leftarrow> (if siz \<noteq> 0 then st m1 d 0 else Some m1);
       s' \<leftarrow> strlcpy_skip m2 s;
       Some (s' - src - 1, m2) }
     else Some (s - src - 1, m1) }"

fun strlcat_end :: "mem \<Rightarrow> nat \<Rightarrow> nat \<Rightarrow> nat option" where
  "strlcat_end m d 0 = Some d"
| "strlcat_end m d (Suc n) = do { c \<leftarrow> ld m d; if c \<noteq> 0 then strlcat_end m (d + 1) n else Some d }"

function strlcat_loop :: "mem \<Rightarrow> nat \<Rightarrow> nat \<Rightarrow> nat \<Rightarrow> (mem \<times> nat \<times> nat) option" where
  "strlcat_loop m d s n = do { c \<leftarrow> ld m s;
     if c \<noteq> 0 then
       (if n \<noteq> 1 then do { m' \<leftarrow> st m d c; strlcat_loop m' (d + 1) (s + 1) (n - 1) }
        else strlcat_loop m d (s + 1) n)
     else Some (m, d, s) }"
  by pat_completeness auto
termination
  by (relation "measure (\<lambda>(m, d, s, n). length m - s)") (auto dest!: st_SomeD ld_SomeD)

declare strlcat_loop.simps [simp del]

definition strlcat :: "mem \<Rightarrow> nat \<Rightarrow> nat \<Rightarrow> nat \<Rightarrow> (nat \<times> mem) option" where
  "strlcat m dst src siz = do {
     d \<leftarrow> strlcat_end m dst siz;
     let dlen = d - dst; n = siz - dlen in
     if n = 0 then do { l \<leftarrow> strlen m src; Some (dlen + l, m) }
     else do {
       (m', d', s) \<leftarrow> strlcat_loop m d src n;
       m'' \<leftarrow> st m' d' 0;
       Some (dlen + (s - src), m'') } }"

section \<open>Correctness of the scans\<close>

lemma strlen_loop_cstr: "cstr m p bs \<Longrightarrow> strlen_loop m p = Some (p + length bs)"
  by (induction m p bs rule: cstr.induct) (auto simp: strlen_loop.simps)

lemma strlen_cstr: "cstr m p bs \<Longrightarrow> strlen m p = Some (length bs)"
  by (simp add: strlen_def strlen_loop_cstr)

lemma strlen_loop_SomeD: "strlen_loop m p = Some e \<Longrightarrow> \<exists>bs. cstr m p bs \<and> e = p + length bs"
proof (induction m p rule: strlen_loop.induct)
  case (1 m s)
  from "1.prems" obtain c where c: "ld m s = Some c"
    by (subst (asm) strlen_loop.simps) (auto split: bind_splits)
  show ?case
  proof (cases "c = 0")
    case True
    with c "1.prems" have "cstr m s []" "e = s"
      by (auto simp: strlen_loop.simps)
    then show ?thesis by fastforce
  next
    case False
    with c "1.prems" have "strlen_loop m (s + 1) = Some e"
      by (auto simp: strlen_loop.simps)
    with "1.IH" c False obtain bs where "cstr m (s + 1) bs" "e = s + 1 + length bs" by blast
    with c False have "cstr m s (c # bs)" "e = s + length (c # bs)" by auto
    then show ?thesis by blast
  qed
qed

lemma strnlen_loop_cstr:
  "cstr m p bs \<Longrightarrow> strnlen_loop m p len maxlen = Some (if len < maxlen then min maxlen (len + length bs) else len)"
  by (induction m p bs arbitrary: len rule: cstr.induct) (auto simp: strnlen_loop.simps)

lemma strnlen_cstr: "cstr m p bs \<Longrightarrow> strnlen m p maxlen = Some (min maxlen (length bs))"
  by (auto simp: strnlen_def strnlen_loop_cstr)

lemma strchr_cstr:
  "cstr m p bs \<Longrightarrow> c \<noteq> 0 \<Longrightarrow>
   strchr m p c = Some (if c \<in> set bs then Some (p + length (takeWhile (\<lambda>b. b \<noteq> c) bs)) else NULL)"
  by (induction m p bs rule: cstr.induct) (auto simp: strchr.simps)

lemma strchr_nul: "cstr m p bs \<Longrightarrow> strchr m p 0 = Some (Some (p + length bs))"
  by (induction m p bs rule: cstr.induct) (auto simp: strchr.simps)

lemma strchrnul_cstr:
  "cstr m p bs \<Longrightarrow> strchrnul m p c = Some (p + length (takeWhile (\<lambda>b. b \<noteq> c) bs))"
  by (induction m p bs rule: cstr.induct) (auto simp: strchrnul.simps)

lemma strrchr_loop_cstr:
  "cstr m p bs \<Longrightarrow> c \<noteq> 0 \<Longrightarrow>
   strrchr_loop m p c save = Some (if c \<in> set bs
     then Some (p + length bs - 1 - length (takeWhile (\<lambda>b. b \<noteq> c) (rev bs))) else save)"
proof (induction m p bs arbitrary: save rule: cstr.induct)
  case (2 m p b bs)
  have "length (takeWhile (\<lambda>b. b \<noteq> c) (rev bs)) < length bs" if "c \<in> set bs"
    using that length_takeWhile_lt [of "rev bs" "\<lambda>b. b \<noteq> c"] by auto
  with "2" show ?case
    by (auto simp: strrchr_loop.simps [of m p] takeWhile_append Let_def)
qed (auto simp: strrchr_loop.simps)

lemma strrchr_cstr:
  "cstr m p bs \<Longrightarrow> c \<noteq> 0 \<Longrightarrow> strrchr m p c = Some (if c \<in> set bs
     then Some (p + length bs - 1 - length (takeWhile (\<lambda>b. b \<noteq> c) (rev bs))) else NULL)"
  by (simp add: strrchr_def strrchr_loop_cstr)

section \<open>Correctness of the comparisons\<close>

lemma strcmp_cstr:
  assumes "cstr m p as" "cstr m q bs"
  shows "\<exists>r. strcmp m p q = Some r \<and> (r < 0 \<longleftrightarrow> byte_lex as bs) \<and> (r = 0 \<longleftrightarrow> as = bs)"
  using assms
proof (induction as arbitrary: bs p q)
  case Nil
  then show ?case by (cases bs) (auto simp: strcmp.simps word_less_def word_neq_0_conv)
next
  case (Cons a as)
  show ?case
  proof (cases bs)
    case Nil
    with Cons.prems show ?thesis by (auto simp: strcmp.simps word_less_def uint_0_iff)
  next
    case (Cons b bs')
    then show ?thesis
      using Cons.prems Cons.IH [of "p + 1" "q + 1" bs'] uint_diff_sign [of a b]
      by (auto simp: strcmp.simps [of m p q])
  qed
qed

lemma strncmp_loop_cstr:
  assumes "cstr m p as" "cstr m q bs" "0 < n"
  shows "\<exists>r. strncmp_loop m p q n = Some r \<and>
    (r < 0 \<longleftrightarrow> byte_lex (take n as) (take n bs)) \<and> (r = 0 \<longleftrightarrow> take n as = take n bs)"
  using assms
proof (induction as arbitrary: bs p q n)
  case Nil
  then show ?case
    by (cases bs) (auto simp: strncmp_loop.simps word_less_def word_neq_0_conv take_Cons')
next
  case (Cons a as)
  show ?case
  proof (cases bs)
    case Nil
    with Cons.prems show ?thesis by (auto simp: strncmp_loop.simps word_less_def uint_0_iff)
  next
    case (Cons b bs')
    then show ?thesis
      using Cons.prems Cons.IH [of "p + 1" "q + 1" bs' "n - 1"] uint_diff_sign [of a b]
      by (cases "n - 1 = 0") (auto simp: strncmp_loop.simps [of m p q n] take_Cons')
  qed
qed

lemma strncmp_cstr:
  assumes "cstr m p as" "cstr m q bs"
  shows "\<exists>r. strncmp m p q n = Some r \<and>
    (r < 0 \<longleftrightarrow> byte_lex (take n as) (take n bs)) \<and> (r = 0 \<longleftrightarrow> take n as = take n bs)"
  using strncmp_loop_cstr [OF assms, of n] by (cases "n = 0") (auto simp: strncmp_def)

section \<open>Correctness of the substring search\<close>

lemma strstr_loop_cstr:
  assumes "cstr m s hs" "cstr m f ns" "c \<noteq> 0"
  shows "strstr_loop m s c f (length ns) = Some (map_option (\<lambda>i. s + i) (first_occ (c # ns) hs))"
  using assms(1)
proof (induction hs arbitrary: s)
  case Nil
  then show ?case by (simp add: strstr_loop.simps strstr_scan.simps)
next
  case (Cons h hs)
  then have h: "ld m s = Some h" "h \<noteq> 0" and rest: "cstr m (s + 1) hs" by auto
  note IH = Cons.IH [OF rest]
  show ?case
  proof (cases "h = c")
    case False
    with h have "strstr_scan m s c = strstr_scan m (s + 1) c"
      by (simp add: strstr_scan.simps [of m s])
    then have "strstr_loop m s c f (length ns) = strstr_loop m (s + 1) c f (length ns)"
      using strstr_loop.simps [of m s c f "length ns"] strstr_loop.simps [of m "s + 1" c f "length ns"]
      by simp
    with IH False show ?thesis by (simp add: option.map_comp comp_def)
  next
    case True
    with h have scan: "strstr_scan m s c = Some (Some (s + 1))"
      by (simp add: strstr_scan.simps)
    obtain r where r: "strncmp m (s + 1) f (length ns) = Some r"
      "r = 0 \<longleftrightarrow> take (length ns) hs = take (length ns) ns"
      using strncmp_cstr [OF rest assms(2)] by blast
    have "r = 0 \<longleftrightarrow> prefix ns hs"
      using r(2) by (auto simp: prefix_def) (metis append_take_drop_id)
    with r(1) scan True IH show ?thesis
      by (auto simp: strstr_loop.simps [of m s] option.map_comp comp_def)
  qed
qed

lemma strstr_cstr:
  assumes "cstr m s hs" "cstr m f ns"
  shows "strstr m s f = Some (map_option (\<lambda>i. s + i) (first_occ ns hs))"
proof (cases ns)
  case Nil
  with assms show ?thesis by (cases hs) (auto simp: strstr_def)
next
  case (Cons c ns')
  with assms(2) have "ld m f = Some c" "c \<noteq> 0" "cstr m (f + 1) ns'" by auto
  with strstr_loop_cstr [OF assms(1)] show ?thesis
    by (simp add: strstr_def strlen_cstr Cons)
qed

section \<open>Correctness of the copies\<close>

lemma stpcpy_cstr:
  assumes "cstr m frm bs" "to + length bs < length m" "to \<le> frm \<or> frm + length bs < to"
  shows "stpcpy m to frm = Some (to + length bs, wr m to (bs @ [0]))"
  using assms
proof (induction bs arbitrary: m to frm)
  case Nil
  then show ?case by (simp add: stpcpy.simps)
next
  case (Cons b bs)
  then have b: "ld m frm = Some b" "b \<noteq> 0" "to < length m" by auto
  have "cstr (m[to := b]) (frm + 1) bs"
    using Cons.prems by (intro cstr_frame) auto
  with Cons.prems b Cons.IH [of "m[to := b]" "frm + 1" "to + 1"] show ?case
    by (subst stpcpy.simps) auto
qed

lemma zero_fill_wr: "d + n \<le> length m \<Longrightarrow> zero_fill m d n = Some (wr m d (replicate n 0))"
  by (induction m d n rule: zero_fill.induct) auto

lemma strncpy_loop_cstr:
  assumes "cstr m s bs" "0 < n" "d + n \<le> length m" "d \<le> s \<or> s + length bs < d"
  shows "strncpy_loop m d s n = Some (wr m d (take n (bs @ replicate n 0)))"
  using assms
proof (induction bs arbitrary: m d s n)
  case Nil
  then obtain k where "n = Suc k" by (cases n) auto
  with Nil show ?case by (auto simp: strncpy_loop.simps zero_fill_wr)
next
  case (Cons b bs)
  then have b: "ld m s = Some b" "b \<noteq> 0" "d < length m" by auto
  show ?case
  proof (cases "n = 1")
    case True
    with b show ?thesis by (simp add: strncpy_loop.simps)
  next
    case False
    have "cstr (m[d := b]) (s + 1) bs" using Cons.prems by (intro cstr_frame) auto
    with False Cons.prems b Cons.IH [of "m[d := b]" "s + 1" "n - 1" "d + 1"]
    show ?thesis by (cases n) (auto simp: strncpy_loop.simps [of m d] replicate_append_same [symmetric])
  qed
qed

lemma strlcpy_loop_cstr:
  assumes "cstr m s bs" "0 < n" "d + min n (length bs + 1) \<le> length m"
    "d + min n (length bs + 1) \<le> s \<or> s + length bs < d"
  shows "strlcpy_loop m d s n = Some
    (if length bs < n then (wr m d (bs @ [0]), d + length bs + 1, s + length bs + 1, n - length bs)
     else (wr m d (take n bs), d + n, s + n, 0))"
  using assms
proof (induction bs arbitrary: m d s n)
  case Nil
  then show ?case by (auto simp: strlcpy_loop.simps)
next
  case (Cons b bs)
  then have b: "ld m s = Some b" "b \<noteq> 0" "d < length m" by auto
  show ?case
  proof (cases "n = 1")
    case True
    with b show ?thesis by (simp add: strlcpy_loop.simps)
  next
    case False
    have "cstr (m[d := b]) (s + 1) bs" using Cons.prems by (intro cstr_frame) auto
    with False Cons.prems b Cons.IH [of "m[d := b]" "s + 1" "n - 1" "d + 1"]
    show ?thesis by (cases n) (auto simp: strlcpy_loop.simps [of m d])
  qed
qed

lemma strlcat_end_cstr: "cstr m d ds \<Longrightarrow> strlcat_end m d n = Some (d + min n (length ds))"
proof (induction ds arbitrary: d n)
  case Nil
  then show ?case by (cases n) auto
next
  case (Cons b ds)
  then show ?case by (cases n) auto
qed

lemma strlcat_loop_cstr:
  assumes "cstr m s bs" "0 < n" "d + min n (length bs + 1) \<le> length m"
    "d + min n (length bs + 1) \<le> s \<or> s + length bs < d"
  shows "strlcat_loop m d s n = Some (wr m d (take (n - 1) bs), d + min (n - 1) (length bs), s + length bs)"
  using assms
proof (induction bs arbitrary: m d s n)
  case Nil
  then show ?case by (auto simp: strlcat_loop.simps)
next
  case (Cons b bs)
  then have b: "ld m s = Some b" "b \<noteq> 0" "d < length m" by auto
  show ?case
  proof (cases "n = 1")
    case True
    with Cons.prems b Cons.IH [of m "s + 1" n d] show ?thesis
      by (auto simp: strlcat_loop.simps [of m d s])
  next
    case False
    have "cstr (m[d := b]) (s + 1) bs" using Cons.prems by (intro cstr_frame) auto
    obtain k where "n = Suc (Suc k)" using False Cons.prems(2) by (cases n; cases "n - 1") auto
    with False Cons.prems b \<open>cstr (m[d := b]) (s + 1) bs\<close> Cons.IH [of "m[d := b]" "s + 1" "n - 1" "d + 1"]
    show ?thesis by (auto simp: strlcat_loop.simps [of m d])
  qed
qed

lemma strncat_loop_cstr:
  assumes "cstr m s bs" "0 < n" "d + min n (length bs) < length m"
    "d + min n (length bs) < s \<or> s + length bs < d"
  shows "\<exists>m'. strncat_loop m d s n = Some (d + min n (length bs), m') \<and>
    m'[d + min n (length bs) := 0] = wr m d (take n bs @ [0])"
  using assms
proof (induction bs arbitrary: m d s n)
  case Nil
  then show ?case by (auto simp: strncat_loop.simps)
next
  case (Cons b bs)
  then have b: "ld m s = Some b" "b \<noteq> 0" "d < length m" by auto
  show ?case
  proof (cases "n = 1")
    case True
    with Cons.prems b show ?thesis by (auto simp: strncat_loop.simps)
  next
    case False
    have "cstr (m[d := b]) (s + 1) bs" using Cons.prems by (intro cstr_frame) auto
    with False Cons.prems b Cons.IH [of "m[d := b]" "s + 1" "n - 1" "d + 1"]
    show ?thesis by (cases n) (auto simp: strncat_loop.simps [of m d])
  qed
qed

lemma strlcpy_wr:
  assumes src: "cstr m src bs"
    and room: "dst + min siz (length bs + 1) \<le> length m"
    and sep: "dst + min siz (length bs + 1) \<le> src \<or> src + length bs < dst"
  shows "strlcpy m dst src siz =
    Some (length bs, if siz = 0 then m else wr m dst (take (siz - 1) bs @ [0]))"
proof (cases "siz - 1 = 0")
  case True
  have "strlcpy_skip (m[dst := 0]) src = Some (src + length bs + 1)" if "siz = 1"
    using that sep room strlen_loop_cstr [OF cstr_frame [OF src, of dst 0]]
    by (auto simp: strlcpy_skip_def)
  moreover have "strlcpy_skip m src = Some (src + length bs + 1)"
    by (simp add: strlcpy_skip_def strlen_loop_cstr [OF src])
  ultimately show ?thesis
    using True assms by (cases siz) (auto simp: strlcpy_def)
next
  case False
  let ?n = "siz - 1"
  have loop: "strlcpy_loop m dst src ?n = Some
    (if length bs < ?n then (wr m dst (bs @ [0]), dst + length bs + 1, src + length bs + 1, ?n - length bs)
     else (wr m dst (take ?n bs), dst + ?n, src + ?n, 0))"
    using assms False by (intro strlcpy_loop_cstr) auto
  show ?thesis
  proof (cases "length bs < ?n")
    case True
    with loop False show ?thesis by (auto simp: strlcpy_def)
  next
    case long: False
    have "cstr (wr m dst (take ?n bs @ [0])) (src + ?n) (drop ?n bs)"
      using assms long False by (intro cstr_wr cstr_drop) auto
    then have "strlcpy_skip (wr m dst (take ?n bs @ [0])) (src + ?n) = Some (src + length bs + 1)"
      using long by (simp add: strlcpy_skip_def strlen_loop_cstr)
    with loop False long room show ?thesis by (simp add: strlcpy_def wr_append)
  qed
qed

section \<open>Properties\<close>

text \<open>
  C4. \<open>strlcpy\<close> on a NUL-terminated source and a destination it does not overlap: it never
  leaves the mapped memory, it writes nothing outside the first \<open>siz\<close> bytes of the destination,
  it stores the longest prefix of the source that fits together with a NUL (nothing at all when
  \<open>siz\<close> is zero), and it returns the length of the source, so truncation is visible as
  \<open>siz \<le> result\<close>.
\<close>

theorem strlcpy_correct:
  assumes src: "cstr m src bs"
    and room: "dst + min siz (length bs + 1) \<le> length m"
    and sep: "dst + min siz (length bs + 1) \<le> src \<or> src + length bs < dst"
  shows "strlcpy m dst src siz =
    Some (length bs, if siz = 0 then m else wr m dst (take (siz - 1) bs @ [0]))"
  by (rule strlcpy_wr [OF assms])

theorem strlcpy_correct_witness:
  "strlcpy [104, 105, 106, 0, 9, 9, 9] 4 0 3 = Some (3, [104, 105, 106, 0, 104, 105, 0])"
  using strlcpy_correct [of "[104, 105, 106, 0, 9, 9, 9]" 0 "[104, 105, 106]" 4 3] by simp

text \<open>
  \<open>strlcat\<close> appends to the string in a buffer of \<open>siz\<close> bytes: the buffer then holds the
  longest prefix of the concatenation that fits together with its NUL, nothing beyond \<open>siz\<close>
  bytes is written, and the result is \<open>strlen(src) + MIN(siz, strlen(dst))\<close> as the comment
  above the function states.  A buffer whose string already fills all \<open>siz\<close> bytes is left alone.
\<close>

theorem strlcat_correct:
  assumes dst: "cstr m dst ds" and src: "cstr m src bs"
    and room: "dst + min siz (length ds + length bs + 1) \<le> length m"
    and sep: "dst + min siz (length ds + length bs + 1) \<le> src \<or> src + length bs < dst"
  shows "strlcat m dst src siz = Some (min siz (length ds) + length bs,
    if siz \<le> length ds then m else wr m dst (take (siz - 1) (ds @ bs) @ [0]))"
proof (cases "siz \<le> length ds")
  case True
  with strlcat_end_cstr [OF dst] strlen_cstr [OF src] show ?thesis
    by (simp add: strlcat_def)
next
  case False
  let ?n = "siz - length ds" and ?d = "dst + length ds"
  have loop: "strlcat_loop m ?d src ?n =
    Some (wr m ?d (take (?n - 1) bs), ?d + min (?n - 1) (length bs), src + length bs)"
    using assms False by (intro strlcat_loop_cstr) auto
  have same: "wr m dst ds = m"
    using dst by (auto simp: cstr_conv bytes_at_append intro: wr_same)
  have "wr m dst (take (siz - 1) (ds @ bs) @ [0]) = wr m ?d (take (?n - 1) bs @ [0])"
    using False same by (simp add: wr_append diff_right_commute)
  moreover have "?d + min (?n - 1) (length bs) < length m"
    using room False cstr_length [OF dst] by (auto simp: min_def split: if_splits)
  ultimately show ?thesis
    using False loop by (simp add: strlcat_def strlcat_end_cstr [OF dst] wr_append min.commute Let_def)
qed

text \<open>
  \<open>strncpy\<close> always fills exactly \<open>n\<close> bytes: the source string cut to \<open>n\<close> bytes, then NULs.
  It is safe for every \<open>n\<close> that fits the destination, also when the destination starts below
  the source and overlaps it.
\<close>

theorem strncpy_pads:
  assumes "cstr m src bs" and "dst + n \<le> length m" and "dst \<le> src \<or> src + length bs < dst"
  shows "strncpy m dst src n = Some (dst, wr m dst (take n (bs @ replicate n 0)))"
  using assms by (auto simp: strncpy_def strncpy_loop_cstr)

text \<open>
  \<open>strncat\<close> appends at most \<open>n\<close> bytes and always a NUL: it writes at most \<open>n + 1\<close> bytes past
  the end of the destination string, and the destination then holds its old contents followed
  by the first \<open>n\<close> bytes of the source.
\<close>

theorem strncat_appends:
  assumes dst: "cstr m dst ds" and src: "cstr m src bs"
    and room: "dst + length ds + min n (length bs) < length m"
    and sep: "dst + length ds + min n (length bs) < src \<or> src + length bs < dst + length ds"
  shows "strncat m dst src n = Some (dst, wr m dst (ds @ take n bs @ [0]))"
proof -
  let ?d = "dst + length ds"
  have same: "wr m dst (ds @ take n bs @ [0]) = wr m ?d (take n bs @ [0])"
    using dst by (auto simp: wr_append cstr_conv bytes_at_append wr_same)
  show ?thesis
  proof (cases "n = 0")
    case True
    have "m[?d := 0] = m" using cstr_end [OF dst] by (metis list_update_id)
    with True same show ?thesis by (simp add: strncat_def)
  next
    case False
    then obtain m' where "strncat_loop m ?d src n = Some (?d + min n (length bs), m')"
      and m': "m'[?d + min n (length bs) := 0] = wr m ?d (take n bs @ [0])"
      using strncat_loop_cstr [OF src _ room sep] by blast
    moreover from m' have "length m' = length m"
      by (metis length_list_update length_wr)
    ultimately show ?thesis
      using False same room by (simp add: strncat_def strlen_loop_cstr [OF dst])
  qed
qed

text \<open>
  \<open>strcmp\<close> compares as \<^verbatim>\<open>unsigned char\<close>: its result is negative, zero or positive exactly as
  the first string is before, equal to or after the second in the lexicographic order of the
  unsigned bytes (a proper prefix comes first); it reads nothing past either NUL.
\<close>

theorem strcmp_order:
  assumes "cstr m p as" and "cstr m q bs"
  shows "\<exists>r. strcmp m p q = Some r \<and> (r < 0 \<longleftrightarrow> byte_lex as bs) \<and> (r = 0 \<longleftrightarrow> as = bs) \<and>
    (r > 0 \<longleftrightarrow> byte_lex bs as)"
proof -
  note * = byte_lex_total [of bs as]
  from strcmp_cstr [OF assms] obtain r where
    "strcmp m p q = Some r" "r < 0 \<longleftrightarrow> byte_lex as bs" "r = 0 \<longleftrightarrow> as = bs" by blast
  with * show ?thesis by (intro exI [of _ r]) auto
qed

text \<open>
  \<open>strstr\<close> returns the first occurrence: a match at the returned address, none before it,
  and \<open>NULL\<close> exactly when the needle occurs nowhere; the empty needle matches at once.
\<close>

theorem strstr_first:
  assumes "cstr m s hs" and "cstr m f ns"
  shows "\<exists>r. strstr m s f = Some r \<and>
    (case r of None \<Rightarrow> \<forall>i \<le> length hs. \<not> prefix ns (drop i hs)
     | Some q \<Rightarrow> \<exists>i \<le> length hs. q = s + i \<and> prefix ns (drop i hs) \<and> (\<forall>j < i. \<not> prefix ns (drop j hs)))"
  using strstr_cstr [OF assms] first_occ_Some [of ns hs] first_occ_None [of ns hs]
  by (cases "first_occ ns hs") auto

end
