(* ===== verification/Cset.thy ===== *)
theory Cset
  imports Cstring
begin

text \<open>
  Byte sets and the span functions built on them: \<open>strspn\<close>, \<open>strcspn\<close> and \<open>strpbrk\<close> of
  \<^verbatim>\<open>src/libc/string\<close>.  The sources use three representations of a set of bytes:
  \<^item> four 64-bit registers (\<open>strspn_x\<close>, the 64-bit branch of \<^verbatim>\<open>strspn.c\<close>),
  \<^item> a 256-bit map in 32 bytes (the other branch of \<^verbatim>\<open>strspn.c\<close> and \<^verbatim>\<open>strcspn.c\<close>),
  \<^item> a sparse set of two arrays that are never initialised (\<open>FAST_STRPBRK\<close> in \<^verbatim>\<open>strpbrk.c\<close>).
  The locale \<open>byte_set\<close> is their common contract; each representation interprets it, and the
  correctness of the callers rests on the contract alone.
\<close>

section \<open>The interface: a set of bytes\<close>

locale byte_set =
  fixes empty :: 's
    and add :: "'s \<Rightarrow> byte \<Rightarrow> 's"
    and test :: "'s \<Rightarrow> byte \<Rightarrow> bool"
    and rep :: "'s \<Rightarrow> byte set \<Rightarrow> bool"
  assumes rep_empty: "rep empty {}"
    and rep_add: "rep s A \<Longrightarrow> c \<noteq> 0 \<Longrightarrow> rep (add s c) (insert c A)"
    and rep_test: "rep s A \<Longrightarrow> c \<noteq> 0 \<Longrightarrow> test s c \<longleftrightarrow> c \<in> A"
begin

lemma rep_fold: "rep s A \<Longrightarrow> 0 \<notin> set cs \<Longrightarrow> rep (fold (\<lambda>c s. add s c) cs s) (A \<union> set cs)"
proof (induction cs arbitrary: s A)
  case (Cons c cs)
  then have "rep (add s c) (insert c A)" by (auto intro: rep_add)
  from Cons.IH [OF this] Cons.prems show ?case by simp
qed simp

lemma test_fold:
  assumes "0 \<notin> set cs" "c \<noteq> 0"
  shows "test (fold (\<lambda>c s. add s c) cs empty) c \<longleftrightarrow> c \<in> set cs"
  using rep_test [OF rep_fold [OF rep_empty assms(1)] assms(2)] by simp

lemma takeWhile_fold:
  assumes "0 \<notin> set cs" "0 \<notin> set bs"
  shows "takeWhile (\<lambda>c. P (test (fold (\<lambda>c s. add s c) cs empty) c)) bs = takeWhile (\<lambda>c. P (c \<in> set cs)) bs"
proof (intro takeWhile_cong refl)
  fix x assume "x \<in> set bs"
  with assms(2) have "x \<noteq> 0" by auto
  with test_fold [OF assms(1)] show "P (test (fold (\<lambda>c s. add s c) cs empty) x) = P (x \<in> set cs)" by simp
qed

end

section \<open>Four registers: strspn_x\<close>

record bitmask =
  m_0 :: u64
  m_4 :: u64
  m_8 :: u64
  m_c :: u64

definition bm_zero :: bitmask where
  "bm_zero = \<lparr>m_0 = 0, m_4 = 0, m_8 = 0, m_c = 0\<rparr>"

definition bm_add :: "bitmask \<Rightarrow> byte \<Rightarrow> bitmask" where
  "bm_add b ch =
     (let bt = push_bit (unat (ch AND 0x3f)) (1 :: u64) in
      if ch < 0x80 then
        (if ch < 0x40 then b\<lparr>m_0 := m_0 b OR bt\<rparr> else b\<lparr>m_4 := m_4 b OR bt\<rparr>)
      else
        (if ch < 0xc0 then b\<lparr>m_8 := m_8 b OR bt\<rparr> else b\<lparr>m_c := m_c b OR bt\<rparr>))"

definition bm_xor :: "bitmask \<Rightarrow> u64 \<Rightarrow> bitmask" where
  "bm_xor b invert = \<lparr>m_0 = m_0 b XOR invert, m_4 = m_4 b XOR invert,
     m_8 = m_8 b XOR invert, m_c = m_c b XOR invert\<rparr>"

definition bm_check :: "bitmask \<Rightarrow> byte \<Rightarrow> bool" where
  "bm_check b ch =
     (let check = (if ch < 0x80 then (if ch \<ge> 0x40 then m_4 b else m_0 b)
                   else (if ch \<ge> 0xc0 then m_c b else m_8 b))
      in drop_bit (unat (ch AND 0x3f)) check AND 1 \<noteq> 0)"

function bm_build :: "mem \<Rightarrow> nat \<Rightarrow> byte \<Rightarrow> bitmask \<Rightarrow> bitmask option" where
  "bm_build m charset ch b =
     (if ch = 0 then Some b
      else do { next_ch \<leftarrow> ld m (charset + 1); bm_build m (charset + 1) next_ch (bm_add b ch) })"
  by pat_completeness auto
termination
  by (relation "measure (\<lambda>(m, p, ch, b). length m - p)") (auto dest!: ld_SomeD)

declare bm_build.simps [simp del]

function spn_loop :: "mem \<Rightarrow> nat \<Rightarrow> bitmask \<Rightarrow> byte \<Rightarrow> nat \<Rightarrow> nat option" where
  "spn_loop m s b ch count =
     (if ch = 0 then Some count
      else do { next_ch \<leftarrow> ld m (s + count);
        if \<not> bm_check b ch then Some count else spn_loop m s b next_ch (count + 1) })"
  by pat_completeness auto
termination
  by (relation "measure (\<lambda>(m, s, b, ch, count). length m - (s + count))") (auto dest!: ld_SomeD)

declare spn_loop.simps [simp del]

definition strspn_x :: "mem \<Rightarrow> nat \<Rightarrow> nat \<Rightarrow> u64 \<Rightarrow> nat option" where
  "strspn_x m s charset invert = do {
     ch0 \<leftarrow> ld m charset;
     b \<leftarrow> bm_build m charset ch0 bm_zero;
     let b = bm_xor b invert in do {
     ch \<leftarrow> ld m s;
     spn_loop m (s + 1) b ch 0 } }"

definition strspn :: "mem \<Rightarrow> nat \<Rightarrow> nat \<Rightarrow> nat option" where
  "strspn m s charset = strspn_x m s charset 0"

definition strcspn :: "mem \<Rightarrow> nat \<Rightarrow> nat \<Rightarrow> nat option" where
  "strcspn m s charset = strspn_x m s charset (NOT 0)"

section \<open>The 256-bit map: the other branch of strspn.c and strcspn.c\<close>

definition idx8 :: "byte list" where
  "idx8 = [1, 2, 4, 8, 16, 32, 64, 128]"

definition bits_zero :: "byte list" where
  "bits_zero = replicate 32 0"

definition bits_add :: "byte list \<Rightarrow> byte \<Rightarrow> byte list" where
  "bits_add tab c =
     (let i = unat c div 8 in tab[i := tab ! i OR idx8 ! (unat c mod 8)])"

definition bits_test :: "byte list \<Rightarrow> byte \<Rightarrow> bool" where
  "bits_test tab c = (tab ! (unat c div 8) AND idx8 ! (unat c mod 8) \<noteq> 0)"

text \<open>\<^verbatim>\<open>for (; *charset != 0; ++charset)\<close> and \<^verbatim>\<open>for (t = s; *t != 0; ++t) if (stop) break;\<close>.\<close>

function bits_build :: "mem \<Rightarrow> nat \<Rightarrow> byte list \<Rightarrow> byte list option" where
  "bits_build m charset tab = do { c \<leftarrow> ld m charset;
     if c \<noteq> 0 then bits_build m (charset + 1) (bits_add tab c) else Some tab }"
  by pat_completeness auto
termination
  by (relation "measure (\<lambda>(m, p, tab). length m - p)") (auto dest!: ld_SomeD)

declare bits_build.simps [simp del]

function scan_until :: "mem \<Rightarrow> nat \<Rightarrow> (byte \<Rightarrow> bool) \<Rightarrow> nat option" where
  "scan_until m t stop = do { c \<leftarrow> ld m t;
     if c \<noteq> 0 then (if stop c then Some t else scan_until m (t + 1) stop) else Some t }"
  by pat_completeness auto
termination
  by (relation "measure (\<lambda>(m, t, stop). length m - t)") (auto dest!: ld_SomeD)

declare scan_until.simps [simp del]

definition strspn32 :: "mem \<Rightarrow> nat \<Rightarrow> nat \<Rightarrow> nat option" where
  "strspn32 m s charset = do { c0 \<leftarrow> ld m charset;
     if c0 = 0 then Some 0
     else do { c1 \<leftarrow> ld m (charset + 1);
       if c1 = 0 then do { t \<leftarrow> scan_until m s (\<lambda>c. c \<noteq> c0); Some (t - s) }
       else do { tab \<leftarrow> bits_build m charset bits_zero;
                 t \<leftarrow> scan_until m s (\<lambda>c. \<not> bits_test tab c);
                 Some (t - s) } } }"

definition strcspn32 :: "mem \<Rightarrow> nat \<Rightarrow> nat \<Rightarrow> nat option" where
  "strcspn32 m s charset = do { c0 \<leftarrow> ld m charset;
     if c0 = 0 then strlen m s
     else do { c1 \<leftarrow> ld m (charset + 1);
       if c1 = 0 then do { t \<leftarrow> scan_until m s (\<lambda>c. c = c0); Some (t - s) }
       else do { tab \<leftarrow> bits_build m charset bits_zero;
                 t \<leftarrow> scan_until m s (\<lambda>c. bits_test tab c);
                 Some (t - s) } } }"

section \<open>The sparse set: strpbrk\<close>

text \<open>
  \<^verbatim>\<open>uint8_t set[256], inv[256], idx = 0\<close>: only \<open>idx\<close> is initialised; the contents of the two
  arrays on entry are arbitrary and are parameters of the model.
\<close>

record sparse =
  sp_set :: "byte list"
  sp_inv :: "byte list"
  sp_idx :: byte

definition sp_new :: "byte list \<Rightarrow> byte list \<Rightarrow> sparse" where
  "sp_new set0 inv0 = \<lparr>sp_set = set0, sp_inv = inv0, sp_idx = 0\<rparr>"

definition is_in_set :: "sparse \<Rightarrow> byte \<Rightarrow> bool" where
  "is_in_set s i \<longleftrightarrow> sp_inv s ! unat i < sp_idx s \<and> sp_set s ! unat (sp_inv s ! unat i) = i"

definition add_new_to_set :: "sparse \<Rightarrow> byte \<Rightarrow> sparse" where
  "add_new_to_set s i =
     \<lparr>sp_set = (sp_set s)[unat (sp_idx s) := i],
      sp_inv = (sp_inv s)[unat i := sp_idx s],
      sp_idx = sp_idx s + 1\<rparr>"

definition add_to_set :: "sparse \<Rightarrow> byte \<Rightarrow> sparse" where
  "add_to_set s i = (if is_in_set s i then s else add_new_to_set s i)"

function sp_build :: "mem \<Rightarrow> nat \<Rightarrow> sparse \<Rightarrow> sparse option" where
  "sp_build m charset sp = do { c \<leftarrow> ld m charset;
     if c \<noteq> 0 then sp_build m (charset + 1) (add_to_set sp c) else Some sp }"
  by pat_completeness auto
termination
  by (relation "measure (\<lambda>(m, p, sp). length m - p)") (auto dest!: ld_SomeD)

declare sp_build.simps [simp del]

function sp_scan :: "mem \<Rightarrow> nat \<Rightarrow> sparse \<Rightarrow> ptr option" where
  "sp_scan m s sp = do { c \<leftarrow> ld m s;
     if c \<noteq> 0 then (if is_in_set sp c then Some (Some s) else sp_scan m (s + 1) sp)
     else Some NULL }"
  by pat_completeness auto
termination
  by (relation "measure (\<lambda>(m, s, sp). length m - s)") (auto dest!: ld_SomeD)

declare sp_scan.simps [simp del]

definition strpbrk :: "byte list \<Rightarrow> byte list \<Rightarrow> mem \<Rightarrow> nat \<Rightarrow> nat \<Rightarrow> ptr option" where
  "strpbrk set0 inv0 m s charset = do { c0 \<leftarrow> ld m charset;
     if c0 = 0 then Some NULL
     else do { c1 \<leftarrow> ld m (charset + 1);
       if c1 = 0 then strchr m s c0
       else do { sp \<leftarrow> sp_build m charset (sp_new set0 inv0); sp_scan m s sp } } }"

section \<open>Each representation meets the contract\<close>

subsection \<open>Four registers\<close>

lemma and_0x3f [word_to_nat]: "unat (c AND 0x3f :: byte) = unat c mod 64"
proof -
  have "c AND 0x3f = take_bit 6 c" by (simp add: take_bit_eq_mask mask_eq_exp_minus_1)
  then show ?thesis by (simp add: unsigned_take_bit_eq flip: take_bit_eq_mod) (simp add: take_bit_eq_mod)
qed

text \<open>The register a byte belongs to, by its two top bits.\<close>

definition bm_reg :: "bitmask \<Rightarrow> nat \<Rightarrow> u64" where
  "bm_reg b q = (if q = 0 then m_0 b else if q = 1 then m_4 b else if q = 2 then m_8 b else m_c b)"

lemma bm_check_bit: "bm_check b c \<longleftrightarrow> bit (bm_reg b (unat c div 64)) (unat c mod 64)"
proof -
  have "unat c < 256" by simp
  then show ?thesis
    by (auto simp: bm_check_def bm_reg_def Let_def and_0x3f word_less_nat_alt word_le_nat_alt
        and_one_eq bit_iff_odd_drop_bit odd_iff_mod_2_eq_one)
qed

lemma bm_reg_add:
  "bm_reg (bm_add b c) q =
     (if q = unat c div 64 \<or> (3 \<le> q \<and> 3 \<le> unat c div 64)
      then bm_reg b q OR push_bit (unat c mod 64) 1 else bm_reg b q)"
proof -
  have "unat c < 256" by simp
  then show ?thesis
    by (auto simp: bm_add_def bm_reg_def Let_def and_0x3f word_less_nat_alt)
qed

lemma bm_check_add: "bm_check (bm_add b c) d \<longleftrightarrow> d = c \<or> bm_check b d"
proof -
  have "unat c div 64 < 4" "unat d div 64 < 4" "unat c mod 64 < 64" by (auto simp: byte_div_less)
  then show ?thesis
    using word_eq_divmod [of d c 64]
    by (auto simp: bm_check_bit bm_reg_add simp del: push_bit_of_1)
qed

lemma bm_xor_0: "bm_xor b 0 = b"
  by (simp add: bm_xor_def)

lemma bm_check_xor: "bm_check (bm_xor b (- 1)) = (\<lambda>c. \<not> bm_check b c)"
proof
  fix c :: byte
  have "unat c mod 64 < 64" by simp
  then show "bm_check (bm_xor b (- 1)) c = (\<not> bm_check b c)"
    by (auto simp: bm_check_bit bm_xor_def bm_reg_def bit_not_iff)
qed

lemma bm_check_zero: "\<not> bm_check bm_zero c"
  by (simp add: bm_check_bit bm_zero_def bm_reg_def)

interpretation regs: byte_set bm_zero bm_add bm_check "\<lambda>b A. \<forall>c. bm_check b c \<longleftrightarrow> c \<in> A"
  by unfold_locales (auto simp: bm_check_add bm_check_zero)

subsection \<open>The bit map\<close>

lemma idx8_nth: "i < 8 \<Longrightarrow> idx8 ! i = push_bit i 1"
  by (auto simp: idx8_def less_Suc_eq numeral_eq_Suc)

lemma bits_test_bit:
  "bits_test tab c \<longleftrightarrow> bit (tab ! (unat c div 8)) (unat c mod 8)"
  by (simp add: bits_test_def idx8_nth del: push_bit_of_1)

lemma bits_test_add:
  assumes "length tab = 32"
  shows "bits_test (bits_add tab c) d \<longleftrightarrow> d = c \<or> bits_test tab d"
proof -
  have "unat c div 8 < 32" "unat d div 8 < 32" by (auto simp: byte_div_less)
  then show ?thesis
    using assms word_eq_divmod [of d c 8]
    by (auto simp: bits_test_bit bits_add_def Let_def idx8_nth nth_list_update simp del: push_bit_of_1)
qed

interpretation bits: byte_set bits_zero bits_add bits_test
  "\<lambda>tab A. length tab = 32 \<and> (\<forall>c. bits_test tab c \<longleftrightarrow> c \<in> A)"
proof unfold_locales
  have "unat c div 8 < 32" for c :: byte by (simp add: byte_div_less)
  then show "length bits_zero = 32 \<and> (\<forall>c. bits_test bits_zero c \<longleftrightarrow> c \<in> {})"
    by (simp add: bits_zero_def bits_test_bit)
qed (auto simp: bits_test_add, simp add: bits_add_def Let_def)

subsection \<open>The sparse set\<close>

definition sp_rep :: "sparse \<Rightarrow> byte set \<Rightarrow> bool" where
  "sp_rep s A \<longleftrightarrow> length (sp_set s) = 256 \<and> length (sp_inv s) = 256 \<and> 0 \<notin> A \<and>
     A = (\<lambda>k. sp_set s ! k) ` {..<unat (sp_idx s)} \<and>
     (\<forall>k < unat (sp_idx s). unat (sp_inv s ! unat (sp_set s ! k)) = k)"

lemma sp_rep_new: "length set0 = 256 \<Longrightarrow> length inv0 = 256 \<Longrightarrow> sp_rep (sp_new set0 inv0) {}"
  by (simp add: sp_rep_def sp_new_def)

lemma sp_rep_test: "sp_rep s A \<Longrightarrow> is_in_set s c \<longleftrightarrow> c \<in> A"
  by (auto simp: sp_rep_def is_in_set_def word_less_nat_alt image_iff)
     (metis lessThan_iff)

lemma sp_rep_room:
  assumes "sp_rep s A" "c \<noteq> 0" "c \<notin> A"
  shows "unat (sp_idx s) < 255"
proof -
  have inj: "inj_on (\<lambda>k. sp_set s ! k) {..<unat (sp_idx s)}"
    using assms(1) by (auto simp: sp_rep_def inj_on_def) metis
  have "card (UNIV :: byte set) = 256" by (simp add: card_word)
  moreover have "A \<subseteq> UNIV - {0, c}" using assms by (auto simp: sp_rep_def)
  then have "card A \<le> card (UNIV - {0, c})" by (rule card_mono [rotated]) simp
  moreover have "card A = unat (sp_idx s)"
    using assms(1) card_image [OF inj] by (simp add: sp_rep_def)
  ultimately show ?thesis using assms(2) by (simp add: card_Diff_subset)
qed

lemma sp_rep_add:
  assumes "sp_rep s A" "c \<noteq> 0"
  shows "sp_rep (add_to_set s c) (insert c A)"
proof (cases "is_in_set s c")
  case True
  with assms sp_rep_test [OF assms(1)] show ?thesis by (simp add: add_to_set_def insert_absorb)
next
  case False
  then have c: "c \<notin> A" using sp_rep_test [OF assms(1)] by simp
  let ?n = "unat (sp_idx s)"
  have n: "?n < 255" by (rule sp_rep_room [OF assms c])
  then have n': "unat (sp_idx s + 1) = Suc ?n" by (simp add: unat_word_ariths)
  have neq: "k < ?n \<Longrightarrow> sp_set s ! k \<noteq> c" for k
    using assms(1) c by (auto simp: sp_rep_def)
  have "(\<lambda>k. (sp_set s)[?n := c] ! k) ` {..<Suc ?n} = insert c ((\<lambda>k. sp_set s ! k) ` {..<?n})"
    using assms(1) n by (auto simp: sp_rep_def lessThan_Suc nth_list_update image_iff)
  moreover have "unat (((sp_inv s)[unat c := sp_idx s]) ! unat ((sp_set s)[?n := c] ! k)) = k"
    if "k < Suc ?n" for k
  proof (cases "k = ?n")
    case True
    with assms(1) n show ?thesis by (simp add: sp_rep_def)
  next
    case less: False
    with that have "k < ?n" by simp
    moreover from this neq have "unat (sp_set s ! k) \<noteq> unat c" by (simp add: word_unat_eq_iff [symmetric])
    ultimately show ?thesis using assms(1) by (simp add: sp_rep_def)
  qed
  ultimately show ?thesis
    using assms False n' unfolding sp_rep_def add_to_set_def add_new_to_set_def by auto
qed

text \<open>
  The contract holds whatever the two arrays hold on entry; the interpretation takes zeroed
  ones, the lemma \<open>sp_build_rep\<close> below needs no assumption on their contents.
\<close>

interpretation sparse: byte_set "sp_new (replicate 256 0) (replicate 256 0)" add_to_set is_in_set sp_rep
  by unfold_locales (auto simp: sp_rep_new sp_rep_add sp_rep_test)

section \<open>The loops over the strings\<close>

lemma bm_build_cstr:
  "cstr m p cs \<Longrightarrow> ld m p = Some c \<Longrightarrow> bm_build m p c b = Some (fold (\<lambda>c b. bm_add b c) cs b)"
proof (induction m p cs arbitrary: c b rule: cstr.induct)
  case (2 m p d cs)
  then obtain e where "ld m (Suc p) = Some e" by (cases cs) auto
  with "2" show ?case by (auto simp: bm_build.simps)
qed (auto simp: bm_build.simps)

lemma spn_loop_cstr:
  assumes "cstr m p bs" "ld m p = Some c" "p + 1 = s + count"
  shows "spn_loop m s b c count = Some (count + length (takeWhile (bm_check b) bs))"
  using assms
proof (induction m p bs arbitrary: c count rule: cstr.induct)
  case (2 m p d bs)
  then obtain e where "ld m (Suc p) = Some e" by (cases bs) auto
  moreover from "2.prems" have "s + count = Suc p" by simp
  ultimately show ?case
    using "2.prems" "2.IH" [of e "count + 1"] by (auto simp: spn_loop.simps [of m s b d count])
qed (auto simp: spn_loop.simps)

lemma strspn_x_cstr:
  assumes "cstr m s bs" "cstr m p cs"
  shows "strspn_x m s p invert =
    Some (length (takeWhile (bm_check (bm_xor (fold (\<lambda>c b. bm_add b c) cs bm_zero) invert)) bs))"
proof -
  obtain c d where "ld m p = Some c" "ld m s = Some d" using assms by (cases cs; cases bs) auto
  with bm_build_cstr [OF assms(2)] spn_loop_cstr [OF assms(1)] show ?thesis
    by (simp add: strspn_x_def Let_def)
qed

lemma bits_build_cstr:
  "cstr m p cs \<Longrightarrow> bits_build m p tab = Some (fold (\<lambda>c t. bits_add t c) cs tab)"
  by (induction m p cs arbitrary: tab rule: cstr.induct) (auto simp: bits_build.simps)

lemma scan_until_cstr:
  "cstr m p bs \<Longrightarrow> scan_until m p stop = Some (p + length (takeWhile (\<lambda>c. \<not> stop c) bs))"
  by (induction m p bs rule: cstr.induct) (auto simp: scan_until.simps)

lemma sp_build_rep:
  assumes "cstr m p cs" "sp_rep sp A"
  shows "\<exists>sp'. sp_build m p sp = Some sp' \<and> sp_rep sp' (A \<union> set cs)"
  using assms
proof (induction m p cs arbitrary: sp A rule: cstr.induct)
  case (2 m p c cs)
  then have "sp_rep (add_to_set sp c) (insert c A)" by (auto intro: sp_rep_add)
  with "2.prems" "2.IH" [of "add_to_set sp c" "insert c A"] show ?case
    by (auto simp: sp_build.simps [of m p])
qed (auto simp: sp_build.simps)

lemma sp_scan_cstr:
  assumes "cstr m p bs" "sp_rep sp A"
  shows "sp_scan m p sp =
    Some (if set bs \<inter> A = {} then NULL else Some (p + length (takeWhile (\<lambda>c. c \<notin> A) bs)))"
  using assms
  by (induction m p bs rule: cstr.induct) (auto simp: sp_scan.simps sp_rep_test)

lemma strspn_cstr:
  assumes "cstr m s bs" "cstr m p cs"
  shows "strspn m s p = Some (length (takeWhile (\<lambda>c. c \<in> set cs) bs))"
  using assms strspn_x_cstr [OF assms, of 0] regs.takeWhile_fold [of cs bs "\<lambda>b. b"]
  by (simp add: strspn_def bm_xor_0 cstr_conv)

lemma strcspn_cstr:
  assumes "cstr m s bs" "cstr m p cs"
  shows "strcspn m s p = Some (length (takeWhile (\<lambda>c. c \<notin> set cs) bs))"
  using assms strspn_x_cstr [OF assms, of "NOT 0"] regs.takeWhile_fold [of cs bs Not]
  by (simp add: strcspn_def bm_check_xor cstr_conv)

section \<open>Properties\<close>

text \<open>
  The register-based \<open>strspn\<close> returns the length of the longest prefix made of bytes of the
  set, and \<open>strcspn\<close>, the same code with the four registers inverted, the length of the longest
  prefix free of them; both for every string and every set string, reading no byte past either
  NUL.
\<close>

theorem strspn_strcspn_correct:
  assumes "cstr m s bs" and "cstr m p cs"
  shows "strspn m s p = Some (length (takeWhile (\<lambda>c. c \<in> set cs) bs)) \<and>
    strcspn m s p = Some (length (takeWhile (\<lambda>c. c \<notin> set cs) bs))"
  using strspn_cstr [OF assms] strcspn_cstr [OF assms] by simp

text \<open>
  The two branches of \<^verbatim>\<open>strspn.c\<close> and \<^verbatim>\<open>strcspn.c\<close> (the bit map for other word sizes, the four
  registers for 64-bit longs) compute the same values on all strings.
\<close>

theorem strspn_branches_agree:
  assumes "cstr m s bs" and "cstr m p cs"
  shows "strspn32 m s p = strspn m s p \<and> strcspn32 m s p = strcspn m s p"
proof -
  let ?tab = "fold (\<lambda>c t. bits_add t c) cs bits_zero"
  have test: "takeWhile (\<lambda>c. P (bits_test ?tab c)) bs = takeWhile (\<lambda>c. P (c \<in> set cs)) bs" for P
    using assms by (intro bits.takeWhile_fold) (auto simp: cstr_conv)
  show ?thesis
  proof (cases cs)
    case Nil
    with assms have "ld m p = Some 0" by simp
    with Nil strspn_cstr [OF assms] strcspn_cstr [OF assms] strlen_cstr [OF assms(1)] show ?thesis
      by (cases bs) (auto simp: strspn32_def strcspn32_def takeWhile_eq_all_conv [THEN iffD2])
  next
    case (Cons c cs')
    with assms obtain d where "ld m p = Some c" "c \<noteq> 0" "ld m (p + 1) = Some d" "d = 0 \<longleftrightarrow> cs' = []"
      by (cases cs') auto
    with Cons assms test [of "\<lambda>b. b"] test [of Not] strspn_cstr [OF assms] strcspn_cstr [OF assms]
    show ?thesis
      by (auto simp: strspn32_def strcspn32_def scan_until_cstr [OF assms(1)] bits_build_cstr [OF assms(2)])
  qed
qed

text \<open>
  C9. \<open>strpbrk\<close> finds the first byte of the string that is in the set and returns \<open>NULL\<close> exactly
  when there is none, whatever the two uninitialised 256-byte arrays on its stack contain; in
  particular the 8-bit index never wraps.
\<close>

theorem strpbrk_correct:
  assumes "cstr m s bs" and "cstr m p cs" and "length set0 = 256" and "length inv0 = 256"
  shows "strpbrk set0 inv0 m s p =
    Some (if set bs \<inter> set cs = {} then NULL
          else Some (s + length (takeWhile (\<lambda>c. c \<notin> set cs) bs)))"
proof -
  obtain sp where sp: "sp_build m p (sp_new set0 inv0) = Some sp" "sp_rep sp (set cs)"
    using sp_build_rep [OF assms(2) sp_rep_new [OF assms(3,4)]] by auto
  show ?thesis
  proof (cases cs)
    case Nil
    with assms show ?thesis by (simp add: strpbrk_def)
  next
    case (Cons c cs')
    with assms obtain d where "ld m p = Some c" "c \<noteq> 0" "ld m (p + 1) = Some d" "d = 0 \<longleftrightarrow> cs' = []"
      by (cases cs') auto
    with Cons assms sp show ?thesis
      by (auto simp: strpbrk_def strchr_cstr sp_scan_cstr [OF assms(1) sp(2)])
  qed
qed

theorem strpbrk_correct_witness:
  "strpbrk (replicate 256 7) (replicate 256 3) [97, 98, 200, 99, 0, 99, 200, 0] 0 5 = Some (Some 2)"
  using strpbrk_correct [of "[97, 98, 200, 99, 0, 99, 200, 0]" 0 "[97, 98, 200, 99]" 5 "[99, 200]"
      "replicate 256 7" "replicate 256 3"] by simp

end
