(* ===== verification/Ctoken.thy ===== *)
theory Ctoken
  imports Cset
begin

text \<open>
  The tokenizers of \<^verbatim>\<open>src/libc/string\<close>: \<open>strsep\<close> and \<open>strtok_r\<close>.  Both write NULs into the string
  they cut up and keep their position in a pointer cell of the caller (\<open>*stringp\<close>, \<open>*lasts\<close>); the
  model passes the value of that cell in and out.  A result is the token pointer, the new value
  of the cell and the new memory.
\<close>

section \<open>strsep.c\<close>

text \<open>The inner \<^verbatim>\<open>do ... while (sc != 0)\<close>: does \<open>c\<close> occur in \<open>delim\<close>, its NUL included?\<close>

function span_match :: "mem \<Rightarrow> nat \<Rightarrow> byte \<Rightarrow> bool option" where
  "span_match m spanp c = do { sc \<leftarrow> ld m spanp;
     if sc = c then Some True
     else if sc \<noteq> 0 then span_match m (spanp + 1) c
     else Some False }"
  by pat_completeness auto
termination
  by (relation "measure (\<lambda>(m, p, c). length m - p)") (auto dest!: ld_SomeD)

declare span_match.simps [simp del]

function token_scan :: "mem \<Rightarrow> nat \<Rightarrow> nat \<Rightarrow> nat \<Rightarrow> (ptr \<times> ptr \<times> mem) option" where
  "token_scan m tok s delim = do { c \<leftarrow> ld m s; b \<leftarrow> span_match m delim c;
     if b then (if c = 0 then Some (Some tok, NULL, m)
                else do { m' \<leftarrow> st m s 0; Some (Some tok, Some (s + 1), m') })
     else token_scan m tok (s + 1) delim }"
  by pat_completeness auto
termination
  by (relation "measure (\<lambda>(m, tok, s, delim). length m - s)") (auto dest!: ld_SomeD)

declare token_scan.simps [simp del]

definition strsep :: "mem \<Rightarrow> ptr \<Rightarrow> nat \<Rightarrow> (ptr \<times> ptr \<times> mem) option" where
  "strsep m stringp delim =
     (case stringp of None \<Rightarrow> Some (NULL, NULL, m) | Some s \<Rightarrow> token_scan m s s delim)"

section \<open>strtok_r.c\<close>

text \<open>\<^verbatim>\<open>for (spanp = delim; (sc = *spanp++) != 0;) if (c == sc) goto cont;\<close>\<close>

function skip_match :: "mem \<Rightarrow> nat \<Rightarrow> byte \<Rightarrow> bool option" where
  "skip_match m spanp c = do { sc \<leftarrow> ld m spanp;
     if sc \<noteq> 0 then (if c = sc then Some True else skip_match m (spanp + 1) c)
     else Some False }"
  by pat_completeness auto
termination
  by (relation "measure (\<lambda>(m, p, c). length m - p)") (auto dest!: ld_SomeD)

declare skip_match.simps [simp del]

function strtok_skip :: "mem \<Rightarrow> nat \<Rightarrow> nat \<Rightarrow> (nat \<times> byte) option" where
  "strtok_skip m s delim = do { c \<leftarrow> ld m s; b \<leftarrow> skip_match m delim c;
     if b then strtok_skip m (s + 1) delim else Some (s + 1, c) }"
  by pat_completeness auto
termination
  by (relation "measure (\<lambda>(m, s, delim). length m - s)") (auto dest!: ld_SomeD)

declare strtok_skip.simps [simp del]

text \<open>The second loop of \<open>strtok_r\<close> is the loop of \<open>strsep\<close>, started after the first token byte.\<close>

definition strtok_r :: "mem \<Rightarrow> ptr \<Rightarrow> nat \<Rightarrow> ptr \<Rightarrow> (ptr \<times> ptr \<times> mem) option" where
  "strtok_r m s0 delim lasts =
     (case (case s0 of None \<Rightarrow> lasts | Some s \<Rightarrow> Some s) of
        None \<Rightarrow> Some (NULL, lasts, m)
      | Some s \<Rightarrow> do { (s', c) \<leftarrow> strtok_skip m s delim;
          if c = 0 then Some (NULL, NULL, m)
          else token_scan m (s' - 1) s' delim })"

section \<open>One call\<close>

lemma span_match_cstr: "cstr m d ds \<Longrightarrow> span_match m d c = Some (c = 0 \<or> c \<in> set ds)"
  by (induction m d ds rule: cstr.induct) (auto simp: span_match.simps)

lemma skip_match_cstr: "cstr m d ds \<Longrightarrow> skip_match m d c = Some (c \<in> set ds)"
proof (induction m d ds rule: cstr.induct)
  case (2 m p b bs)
  then show ?case by (auto simp: skip_match.simps [of m p])
qed (auto simp: skip_match.simps)

lemma token_scan_cstr:
  assumes "cstr m s bs" "cstr m d ds"
  shows "token_scan m tok s d =
    (let k = length (takeWhile (\<lambda>c. c \<notin> set ds) bs) in
     Some (Some tok, if k = length bs then (NULL, m) else (Some (s + k + 1), m[s + k := 0])))"
  using assms
proof (induction bs arbitrary: s)
  case (Cons b bs)
  then show ?case
    by (auto simp: token_scan.simps [of m tok s] span_match_cstr Let_def dest: ld_SomeD)
qed (auto simp: token_scan.simps span_match_cstr)

lemma strtok_skip_cstr:
  assumes "cstr m s bs" "cstr m d ds"
  shows "strtok_skip m s d =
    (let k = length (takeWhile (\<lambda>c. c \<in> set ds) bs) in
     Some (s + k + 1, if k = length bs then 0 else bs ! k))"
  using assms
proof (induction bs arbitrary: s)
  case Nil
  then have "0 \<notin> set ds" by (simp add: cstr_conv)
  with Nil show ?case by (auto simp: strtok_skip.simps skip_match_cstr)
next
  case (Cons b bs)
  then show ?case
    by (auto simp: strtok_skip.simps [of m s] skip_match_cstr Let_def)
qed

lemma cstr_cut:
  assumes "cstr m s bs" "k < length bs"
  shows "cstr (m[s + k := 0]) s (take k bs)" "cstr (m[s + k := 0]) (s + k + 1) (drop (k + 1) bs)"
proof -
  show "cstr (m[s + k := 0]) s (take k bs)"
    using assms cstr_length [OF assms(1)] cstr_nth [OF assms(1)]
    by (auto simp: cstr_conv bytes_at_nth nth_append nth_list_update dest: in_set_takeD)
  show "cstr (m[s + k := 0]) (s + k + 1) (drop (k + 1) bs)"
    using assms cstr_drop [OF assms(1), of "k + 1"] by (intro cstr_frame) auto
qed

section \<open>A whole string\<close>

text \<open>Calling \<open>strsep\<close> until the cell is \<open>NULL\<close>: the list of token addresses, with fuel.\<close>

fun strsep_all :: "nat \<Rightarrow> mem \<Rightarrow> ptr \<Rightarrow> nat \<Rightarrow> (nat list \<times> mem) option" where
  "strsep_all 0 m sp delim = None"
| "strsep_all (Suc fuel) m sp delim =
     do { (tok, sp', m') \<leftarrow> strsep m sp delim;
          case tok of None \<Rightarrow> Some ([], m')
          | Some t \<Rightarrow> do { (ts, m'') \<leftarrow> strsep_all fuel m' sp' delim; Some (t # ts, m'') } }"

text \<open>The fields of a string at a set of separators, empty ones included.\<close>

function fields :: "byte set \<Rightarrow> byte list \<Rightarrow> byte list list" where
  "fields D bs =
     (let k = length (takeWhile (\<lambda>c. c \<notin> D) bs) in
      if k = length bs then [bs] else take k bs # fields D (drop (k + 1) bs))"
  by pat_completeness auto
termination
  by (relation "measure (\<lambda>(D, bs). length bs)") (auto simp: Let_def intro!: diff_less)

declare fields.simps [simp del]

lemma cstr_agree:
  assumes "cstr m p bs" "length m' = length m" "\<And>i. p \<le> i \<Longrightarrow> i \<le> p + length bs \<Longrightarrow> m' ! i = m ! i"
  shows "cstr m' p bs"
  using assms by (auto simp: cstr_conv bytes_at_nth ld_def split: if_splits)

lemma strsep_all_run:
  assumes "cstr m s bs" "cstr m d ds" "d + length ds < s \<or> s + length bs < d" "length bs + 2 \<le> fuel"
  shows "\<exists>ts m'. strsep_all fuel m (Some s) d = Some (ts, m') \<and>
    list_all2 (cstr m') ts (fields (set ds) bs) \<and> length m' = length m \<and>
    (\<forall>i. i < s \<or> s + length bs \<le> i \<longrightarrow> m' ! i = m ! i)"
  using assms
proof (induction fuel arbitrary: m s bs)
  case (Suc fuel)
  define k where "k = length (takeWhile (\<lambda>c. c \<notin> set ds) bs)"
  have scan: "token_scan m s s d =
     Some (Some s, if k = length bs then (NULL, m) else (Some (s + k + 1), m[s + k := 0]))"
    using token_scan_cstr [OF Suc.prems(1,2), of s] by (simp add: k_def Let_def)
  have le: "k \<le> length bs" by (simp add: k_def length_takeWhile_le)
  show ?case
  proof (cases "k = length bs")
    case True
    obtain f where "fuel = Suc f" using Suc.prems(4) by (cases fuel) auto
    with True scan Suc.prems(1) show ?thesis
      by (simp add: strsep_def fields.simps [of _ bs] Let_def flip: k_def)
  next
    case False
    let ?m = "m[s + k := 0]"
    have k: "k < length bs" using False le by simp
    note cut = cstr_cut [OF Suc.prems(1) k]
    have d: "cstr ?m d ds" using Suc.prems k by (intro cstr_frame) auto
    have end_eq: "s + k + 1 + length (drop (k + 1) bs) = s + length bs" using k by simp
    have pre: "d + length ds < s + k + 1 \<or> s + k + 1 + length (drop (k + 1) bs) < d"
      "length (drop (k + 1) bs) + 2 \<le> fuel"
      using Suc.prems(3,4) k unfolding end_eq by auto
    obtain ts m' where rec: "strsep_all fuel ?m (Some (s + k + 1)) d = Some (ts, m')"
      "list_all2 (cstr m') ts (fields (set ds) (drop (k + 1) bs))" "length m' = length ?m"
      and frame: "\<And>i. i < s + k + 1 \<or> s + length bs \<le> i \<Longrightarrow> m' ! i = ?m ! i"
      using Suc.IH [OF cut(2) d pre] unfolding end_eq by blast
    have "cstr m' s (take k bs)"
    proof (rule cstr_agree [OF cut(1) rec(3)])
      fix i assume "i \<le> s + length (take k bs)"
      then show "m' ! i = ?m ! i" using k by (intro frame) simp
    qed
    moreover have "strsep_all (Suc fuel) m (Some s) d = Some (s # ts, m')"
      using rec(1) scan False by (simp add: strsep_def)
    moreover have "fields (set ds) bs = take k bs # fields (set ds) (drop (k + 1) bs)"
      using False by (subst fields.simps) (simp add: Let_def flip: k_def)
    moreover have "m' ! i = m ! i" if "i < s \<or> s + length bs \<le> i" for i
      using that frame [of i] k by auto
    ultimately show ?thesis using rec(2,3) by (intro exI [of _ "s # ts"] exI [of _ m']) simp
  qed
qed simp

section \<open>Properties\<close>

text \<open>
  C8. Calling \<open>strsep\<close> on a string until the cell is \<open>NULL\<close> delivers exactly the fields of the
  string, in order and empty ones included: each returned address holds its field as a
  NUL-terminated string in the final memory, the calls stop, and no byte outside the string
  changes.
\<close>

theorem strsep_fields:
  assumes "cstr m s bs" and "cstr m d ds" and "d + length ds < s \<or> s + length bs < d"
    and "length bs + 2 \<le> fuel"
  shows "\<exists>ts m'. strsep_all fuel m (Some s) d = Some (ts, m') \<and>
    list_all2 (cstr m') ts (fields (set ds) bs) \<and> length m' = length m \<and>
    (\<forall>i. i < s \<or> s + length bs \<le> i \<longrightarrow> m' ! i = m ! i)"
  by (rule strsep_all_run [OF assms])

theorem strsep_fields_witness:
  "\<exists>ts m'. strsep_all 6 [97, 44, 44, 98, 0, 44, 0] (Some 0) 5 = Some (ts, m') \<and>
    list_all2 (cstr m') ts (fields (set [44]) [97, 44, 44, 98]) \<and>
    length m' = length [97, 44, 44, 98, 0, 44, 0 :: byte] \<and>
    (\<forall>i. i < 0 \<or> 0 + length [97, 44, 44, 98 :: byte] \<le> i \<longrightarrow> m' ! i = [97, 44, 44, 98, 0, 44, 0] ! i)"
  by (rule strsep_fields) simp_all

text \<open>
  \<open>strtok_r\<close> skips leading separators and cuts out the next non-empty token: with only
  separators left it returns \<open>NULL\<close> and clears the cell; otherwise the token is the longest run
  free of separators, it stands NUL-terminated at the returned address, and the cell holds the
  rest of the string (\<open>NULL\<close> when the token ran to the end).
\<close>

theorem strtok_r_token:
  assumes "cstr m s bs" and "cstr m d ds"
  defines "rest \<equiv> dropWhile (\<lambda>c. c \<in> set ds) bs"
  defines "tok \<equiv> takeWhile (\<lambda>c. c \<notin> set ds) rest"
  shows "if rest = [] then strtok_r m (Some s) d lasts = Some (NULL, NULL, m)
    else \<exists>t m' lasts'. strtok_r m (Some s) d lasts = Some (Some t, lasts', m') \<and>
      t = s + (length bs - length rest) \<and> tok \<noteq> [] \<and> cstr m' t tok \<and>
      (case lasts' of None \<Rightarrow> tok = rest
       | Some q \<Rightarrow> tok \<noteq> rest \<and> cstr m' q (drop (length tok + 1) rest))"
proof -
  define j where "j = length (takeWhile (\<lambda>c. c \<in> set ds) bs)"
  have rest: "rest = drop j bs" by (simp add: rest_def j_def dropWhile_eq_drop)
  have j: "j \<le> length bs" by (simp add: j_def length_takeWhile_le)
  have skip: "strtok_skip m s d = Some (s + j + 1, if j = length bs then 0 else bs ! j)"
    using strtok_skip_cstr [OF assms(1,2)] by (simp add: j_def Let_def)
  show ?thesis
  proof (cases "rest = []")
    case True
    with rest j skip show ?thesis by (simp add: strtok_r_def)
  next
    case False
    with rest j have jl: "j < length bs" by simp
    then have bj: "bs ! j \<noteq> 0" using assms(1) by (metis cstr_conv nth_mem)
    have nd: "bs ! j \<notin> set ds" using nth_length_takeWhile [of "\<lambda>c. c \<in> set ds" bs] jl by (simp add: j_def)
    have r: "rest = bs ! j # drop (j + 1) bs" using jl by (simp add: rest Cons_nth_drop_Suc)
    have tok: "tok = bs ! j # takeWhile (\<lambda>c. c \<notin> set ds) (drop (j + 1) bs)" using nd by (simp add: tok_def r)
    let ?k = "length (takeWhile (\<lambda>c. c \<notin> set ds) (drop (j + 1) bs))"
    have c1: "cstr m (s + j) rest" using cstr_drop [OF assms(1), of j] jl by (simp add: rest)
    have "cstr m (s + j + 1) (drop (j + 1) bs)" using cstr_drop [OF assms(1), of "j + 1"] jl by simp
    from token_scan_cstr [OF this assms(2), of "s + j"] jl bj skip
    have run: "strtok_r m (Some s) d lasts = Some (Some (s + j),
        if ?k = length (drop (j + 1) bs) then (NULL, m)
        else (Some (s + j + 1 + ?k + 1), m[s + j + 1 + ?k := 0]))"
      by (simp add: strtok_r_def Let_def)
    have tk: "tok = take (length tok) rest" unfolding tok_def by (metis takeWhile_eq_take)
    show ?thesis
    proof (cases "?k = length (drop (j + 1) bs)")
      case True
      then have "tok = rest" using tk r tok by (metis length_Cons take_all_iff order_refl)
      with run True c1 False tok show ?thesis by (auto simp: rest jl)
    next
      case more: False
      then have kl: "length tok < length rest"
        using length_takeWhile_le [of "\<lambda>c. c \<notin> set ds" "drop (j + 1) bs"] by (simp add: tok r)
      from cstr_cut [OF c1 kl] have "cstr (m[s + j + length tok := 0]) (s + j) tok"
        "cstr (m[s + j + length tok := 0]) (s + j + length tok + 1) (drop (length tok + 1) rest)"
        using tk by auto
      moreover from kl have "tok \<noteq> rest" by auto
      ultimately show ?thesis using run more False tok by (auto simp: rest jl)
    qed
  qed
qed

end
