(* ===== verification/Cmem.thy ===== *)
theory Cmem
  imports Prelude
begin

text \<open>
  The raw-memory functions of \<^verbatim>\<open>src/libc/string\<close>: \<open>memmove\<close> and \<open>memcpy\<close> (one body in
  \<^verbatim>\<open>bcopy.c\<close>), \<open>memset\<close>, \<open>memcmp\<close>, \<open>memchr\<close>, \<open>memrchr\<close>, \<open>memccpy\<close>, \<open>swab\<close> and
  \<open>consttime_memequal\<close>.  The copying and filling loops work on machine words after an alignment
  prologue; a word access in the model fails unless its address is aligned, so the theorems also
  show that no unaligned word access is made.  The address of byte \<open>i\<close> of the memory is congruent
  to \<open>i\<close> modulo the word size.
\<close>

section \<open>Word accesses\<close>

definition ldw :: "nat \<Rightarrow> mem \<Rightarrow> nat \<Rightarrow> byte list option" where
  "ldw k m a = (if a mod k = 0 \<and> a + k \<le> length m then Some (take k (drop a m)) else None)"

definition stw :: "nat \<Rightarrow> mem \<Rightarrow> nat \<Rightarrow> byte list \<Rightarrow> mem option" where
  "stw k m a ws = (if a mod k = 0 \<and> a + k \<le> length m then Some (wr m a ws) else None)"

section \<open>bcopy.c: memmove, memcpy, bcopy\<close>

abbreviation wsize :: nat where "wsize \<equiv> 8"
abbreviation wmask :: nat where "wmask \<equiv> 7"

text \<open>\<^verbatim>\<open>TLOOP1(*dst++ = *src++)\<close> and its word-wide and descending variants, \<open>t\<close> times.\<close>

fun fwd_bytes :: "mem \<Rightarrow> nat \<Rightarrow> nat \<Rightarrow> nat \<Rightarrow> mem option" where
  "fwd_bytes m d s 0 = Some m"
| "fwd_bytes m d s (Suc t) = do { c \<leftarrow> ld m s; m' \<leftarrow> st m d c; fwd_bytes m' (d + 1) (s + 1) t }"

fun fwd_words :: "mem \<Rightarrow> nat \<Rightarrow> nat \<Rightarrow> nat \<Rightarrow> mem option" where
  "fwd_words m d s 0 = Some m"
| "fwd_words m d s (Suc t) =
     do { w \<leftarrow> ldw wsize m s; m' \<leftarrow> stw wsize m d w; fwd_words m' (d + wsize) (s + wsize) t }"

fun bwd_bytes :: "mem \<Rightarrow> nat \<Rightarrow> nat \<Rightarrow> nat \<Rightarrow> mem option" where
  "bwd_bytes m d s 0 = Some m"
| "bwd_bytes m d s (Suc t) =
     (if d < 1 \<or> s < 1 then None
      else do { c \<leftarrow> ld m (s - 1); m' \<leftarrow> st m (d - 1) c; bwd_bytes m' (d - 1) (s - 1) t })"

fun bwd_words :: "mem \<Rightarrow> nat \<Rightarrow> nat \<Rightarrow> nat \<Rightarrow> mem option" where
  "bwd_words m d s 0 = Some m"
| "bwd_words m d s (Suc t) =
     (if d < wsize \<or> s < wsize then None
      else do { w \<leftarrow> ldw wsize m (s - wsize); m' \<leftarrow> stw wsize m (d - wsize) w;
                bwd_words m' (d - wsize) (s - wsize) t })"

definition copy_forward :: "mem \<Rightarrow> nat \<Rightarrow> nat \<Rightarrow> nat \<Rightarrow> mem option" where
  "copy_forward m dst src len =
     (let t0 = (if (src OR dst) AND wmask \<noteq> 0 then
                  (if (src XOR dst) AND wmask \<noteq> 0 \<or> len < wsize then len
                   else wsize - (src AND wmask))
                else 0);
          len = len - t0 in do {
      m1 \<leftarrow> fwd_bytes m dst src t0;
      let dst = dst + t0; src = src + t0; t1 = len div wsize in do {
      m2 \<leftarrow> fwd_words m1 dst src t1;
      let dst = dst + t1 * wsize; src = src + t1 * wsize in
      fwd_bytes m2 dst src (len AND wmask) } })"

definition copy_backward :: "mem \<Rightarrow> nat \<Rightarrow> nat \<Rightarrow> nat \<Rightarrow> mem option" where
  "copy_backward m dst src len =
     (let src = src + len; dst = dst + len;
          t0 = (if (src OR dst) AND wmask \<noteq> 0 then
                  (if (src XOR dst) AND wmask \<noteq> 0 \<or> len \<le> wsize then len
                   else src AND wmask)
                else 0);
          len = len - t0 in do {
      m1 \<leftarrow> bwd_bytes m dst src t0;
      let dst = dst - t0; src = src - t0; t1 = len div wsize in do {
      m2 \<leftarrow> bwd_words m1 dst src t1;
      let dst = dst - t1 * wsize; src = src - t1 * wsize in
      bwd_bytes m2 dst src (len AND wmask) } })"

definition memmove :: "mem \<Rightarrow> nat \<Rightarrow> nat \<Rightarrow> nat \<Rightarrow> (nat \<times> mem) option" where
  "memmove m dst0 src0 len =
     (if len = 0 \<or> dst0 = src0 then Some (dst0, m)
      else if dst0 < src0 then do { m' \<leftarrow> copy_forward m dst0 src0 len; Some (dst0, m') }
      else do { m' \<leftarrow> copy_backward m dst0 src0 len; Some (dst0, m') })"

text \<open>\<open>memcpy\<close> and \<open>bcopy\<close> are the same body under another name (and argument order).\<close>

definition memcpy :: "mem \<Rightarrow> nat \<Rightarrow> nat \<Rightarrow> nat \<Rightarrow> (nat \<times> mem) option" where
  "memcpy = memmove"

definition mempcpy :: "mem \<Rightarrow> nat \<Rightarrow> nat \<Rightarrow> nat \<Rightarrow> (nat \<times> mem) option" where
  "mempcpy m dst src len = do { (d, m') \<leftarrow> memcpy m dst src len; Some (d + len, m') }"

section \<open>memset.c\<close>

fun set_bytes :: "mem \<Rightarrow> nat \<Rightarrow> byte \<Rightarrow> nat \<Rightarrow> mem option" where
  "set_bytes m dst v 0 = Some m"
| "set_bytes m dst v (Suc t) = do { m' \<leftarrow> st m dst v; set_bytes m' (dst + 1) v t }"

text \<open>The bytes of a 32-bit word in memory, least significant first.\<close>

definition le_bytes32 :: "u32 \<Rightarrow> byte list" where
  "le_bytes32 w = [ucast w, ucast (drop_bit 8 w), ucast (drop_bit 16 w), ucast (drop_bit 24 w)]"

fun set_words :: "mem \<Rightarrow> nat \<Rightarrow> u32 \<Rightarrow> nat \<Rightarrow> mem option" where
  "set_words m dst c 0 = Some m"
| "set_words m dst c (Suc t) = do { m' \<leftarrow> stw 4 m dst (le_bytes32 c); set_words m' (dst + 4) c t }"

definition memset :: "mem \<Rightarrow> nat \<Rightarrow> u32 \<Rightarrow> nat \<Rightarrow> (nat \<times> mem) option" where
  "memset m dst0 c0 len =
     (let val = (ucast c0 :: byte) in
      if len < 3 * 4 then do { m' \<leftarrow> set_bytes m dst0 val len; Some (dst0, m') }
      else
        let c = (ucast val :: u32);
            c = (if c \<noteq> 0 then
                   let c = push_bit 8 c OR c in push_bit 16 c OR c
                 else c);
            t0 = (if dst0 AND 3 \<noteq> 0 then 4 - (dst0 AND 3) else 0);
            len = len - t0 in do {
        m1 \<leftarrow> set_bytes m dst0 val t0;
        let dst = dst0 + t0; t1 = len div 4 in do {
        m2 \<leftarrow> set_words m1 dst c t1;
        m3 \<leftarrow> set_bytes m2 (dst + 4 * t1) val (len AND 3);
        Some (dst0, m3) } })"

section \<open>Searching and comparing\<close>

function memchr_loop :: "mem \<Rightarrow> nat \<Rightarrow> byte \<Rightarrow> nat \<Rightarrow> ptr option" where
  "memchr_loop m p cmp n = do { c \<leftarrow> ld m p;
     if c = cmp then Some (Some p)
     else if n - 1 \<noteq> 0 then memchr_loop m (p + 1) cmp (n - 1)
     else Some NULL }"
  by pat_completeness auto
termination
  by (relation "measure (\<lambda>(m, p, cmp, n). n)") auto

declare memchr_loop.simps [simp del]

definition memchr :: "mem \<Rightarrow> nat \<Rightarrow> u32 \<Rightarrow> nat \<Rightarrow> ptr option" where
  "memchr m s c n = (if n \<noteq> 0 then memchr_loop m s (ucast c) n else Some NULL)"

function memrchr_loop :: "mem \<Rightarrow> nat \<Rightarrow> byte \<Rightarrow> nat \<Rightarrow> ptr option" where
  "memrchr_loop m p cmp n =
     (if p < 1 then None
      else do { c \<leftarrow> ld m (p - 1);
        if c = cmp then Some (Some (p - 1))
        else if n - 1 \<noteq> 0 then memrchr_loop m (p - 1) cmp (n - 1)
        else Some NULL })"
  by pat_completeness auto
termination
  by (relation "measure (\<lambda>(m, p, cmp, n). n)") auto

declare memrchr_loop.simps [simp del]

definition memrchr :: "mem \<Rightarrow> nat \<Rightarrow> u32 \<Rightarrow> nat \<Rightarrow> ptr option" where
  "memrchr m s c n = (if n \<noteq> 0 then memrchr_loop m (s + n) (ucast c) n else Some NULL)"

text \<open>
  The word-at-a-time part of \<open>memcmp\<close>: \<^verbatim>\<open>__NO_STRICT_ALIGNMENT\<close> is defined for this machine, so
  the words are read at any address.  The result is the pair of addresses and the count left.
\<close>

definition ldw_any :: "nat \<Rightarrow> mem \<Rightarrow> nat \<Rightarrow> byte list option" where
  "ldw_any k m a = (if a + k \<le> length m then Some (take k (drop a m)) else None)"

function memcmp_words :: "mem \<Rightarrow> nat \<Rightarrow> nat \<Rightarrow> nat \<Rightarrow> (nat \<times> nat \<times> nat) option" where
  "memcmp_words m b1 b2 n =
     (if n \<ge> 8 then do {
        w1 \<leftarrow> ldw_any 8 m b1; w2 \<leftarrow> ldw_any 8 m b2;
        if w1 \<noteq> w2 then Some (b1, b2, n)
        else memcmp_words m (b1 + 8) (b2 + 8) (n - 8) }
      else Some (b1, b2, n))"
  by pat_completeness auto
termination
  by (relation "measure (\<lambda>(m, b1, b2, n). n)") auto

declare memcmp_words.simps [simp del]

function memcmp_bytes :: "mem \<Rightarrow> nat \<Rightarrow> nat \<Rightarrow> nat \<Rightarrow> int option" where
  "memcmp_bytes m c1 c2 n = do { a \<leftarrow> ld m c1; b \<leftarrow> ld m c2;
     if a \<noteq> b then Some (uint a - uint b)
     else if n - 1 \<noteq> 0 then memcmp_bytes m (c1 + 1) (c2 + 1) (n - 1)
     else Some 0 }"
  by pat_completeness auto
termination
  by (relation "measure (\<lambda>(m, c1, c2, n). n)") auto

declare memcmp_bytes.simps [simp del]

definition memcmp :: "mem \<Rightarrow> nat \<Rightarrow> nat \<Rightarrow> nat \<Rightarrow> int option" where
  "memcmp m s1 s2 n = do { (c1, c2, n') \<leftarrow> memcmp_words m s1 s2 n;
     if n' \<noteq> 0 then memcmp_bytes m c1 c2 n' else Some 0 }"

function memccpy_loop :: "mem \<Rightarrow> nat \<Rightarrow> nat \<Rightarrow> byte \<Rightarrow> nat \<Rightarrow> (ptr \<times> mem) option" where
  "memccpy_loop m tp fp uc n = do { c \<leftarrow> ld m fp; m' \<leftarrow> st m tp c;
     if c = uc then Some (Some (tp + 1), m')
     else if n - 1 \<noteq> 0 then memccpy_loop m' (tp + 1) (fp + 1) uc (n - 1)
     else Some (NULL, m') }"
  by pat_completeness auto
termination
  by (relation "measure (\<lambda>(m, tp, fp, uc, n). n)") auto

declare memccpy_loop.simps [simp del]

definition memccpy :: "mem \<Rightarrow> nat \<Rightarrow> nat \<Rightarrow> u32 \<Rightarrow> nat \<Rightarrow> (ptr \<times> mem) option" where
  "memccpy m t f c n = (if n \<noteq> 0 then memccpy_loop m t f (ucast c) n else Some (NULL, m))"

section \<open>swab.c, consttime_memequal.c\<close>

fun swab_loop :: "mem \<Rightarrow> nat \<Rightarrow> nat \<Rightarrow> nat \<Rightarrow> mem option" where
  "swab_loop m p q 0 = Some m"
| "swab_loop m p q (Suc n) = do {
     p0 \<leftarrow> ld m p; p1 \<leftarrow> ld m (p + 1);
     m1 \<leftarrow> st m q p1; m2 \<leftarrow> st m1 (q + 1) p0;
     swab_loop m2 (p + 2) (q + 2) n }"

definition swab :: "mem \<Rightarrow> nat \<Rightarrow> nat \<Rightarrow> int \<Rightarrow> mem option" where
  "swab m src dst nbytes =
     (if nbytes \<le> 1 then Some m else swab_loop m src dst (nat (nbytes div 2)))"

text \<open>\<open>res\<close> collects the XOR of all byte pairs; the last line maps 0 to 1 and 1..255 to 0.\<close>

fun consttime_loop :: "mem \<Rightarrow> nat \<Rightarrow> nat \<Rightarrow> nat \<Rightarrow> u32 \<Rightarrow> u32 option" where
  "consttime_loop m c1 c2 0 res = Some res"
| "consttime_loop m c1 c2 (Suc n) res = do { a \<leftarrow> ld m c1; b \<leftarrow> ld m c2;
     consttime_loop m (c1 + 1) (c2 + 1) n (res OR (ucast a XOR ucast b)) }"

definition consttime_memequal :: "mem \<Rightarrow> nat \<Rightarrow> nat \<Rightarrow> nat \<Rightarrow> u32 option" where
  "consttime_memequal m b1 b2 len = do { res \<leftarrow> consttime_loop m b1 b2 len 0;
     Some (1 AND drop_bit 8 (res - 1)) }"

section \<open>Copying is one block move\<close>

text \<open>The effect of a copy done through a temporary buffer.\<close>

definition blit :: "mem \<Rightarrow> nat \<Rightarrow> nat \<Rightarrow> nat \<Rightarrow> mem" where
  "blit m d s n = wr m d (take n (drop s m))"

lemma length_blit [simp]: "length (blit m d s n) = length m"
  by (simp add: blit_def)

lemma blit_0 [simp]: "blit m d s 0 = m"
  by (simp add: blit_def)

lemma nth_blit:
  "d + n \<le> length m \<Longrightarrow> s + n \<le> length m \<Longrightarrow>
   blit m d s n ! i = (if d \<le> i \<and> i < d + n then m ! (s + (i - d)) else m ! i)"
  by (auto simp: blit_def nth_wr)

lemma blit_up:
  assumes "d \<le> s" "d + a + b \<le> length m" "s + a + b \<le> length m"
  shows "blit (blit m d s a) (d + a) (s + a) b = blit m d s (a + b)"
  using assms by (intro nth_equalityI) (auto simp: nth_blit)

lemma blit_down:
  assumes "s \<le> d" "d + a + b \<le> length m" "s + a + b \<le> length m"
  shows "blit (blit m (d + b) (s + b) a) d s b = blit m d s (a + b)"
  using assms by (intro nth_equalityI) (auto simp: nth_blit)

lemma blit_1: "s < length m \<Longrightarrow> m[d := m ! s] = blit m d s 1"
  by (simp add: blit_def take_Suc hd_drop_conv_nth)

lemma fwd_bytes_blit:
  "d \<le> s \<Longrightarrow> d + t \<le> length m \<Longrightarrow> s + t \<le> length m \<Longrightarrow> fwd_bytes m d s t = Some (blit m d s t)"
proof (induction m d s t rule: fwd_bytes.induct)
  case (2 m d s t)
  then show ?case using blit_up [of d s 1 t m] by (simp add: blit_1)
qed simp

lemma fwd_words_blit:
  "d \<le> s \<Longrightarrow> d + t * wsize \<le> length m \<Longrightarrow> s + t * wsize \<le> length m \<Longrightarrow>
   t = 0 \<or> d mod wsize = 0 \<and> s mod wsize = 0 \<Longrightarrow>
   fwd_words m d s t = Some (blit m d s (t * wsize))"
proof (induction m d s t rule: fwd_words.induct)
  case (2 m d s t)
  have "ldw wsize m s = Some (take wsize (drop s m))" "s + 8 \<le> length m" "d + 8 \<le> length m"
    using "2.prems" by (auto simp: ldw_def)
  moreover from this have "stw wsize m d (take wsize (drop s m)) = Some (blit m d s wsize)"
    using "2.prems" by (simp add: stw_def blit_def)
  moreover have "fwd_words (blit m d s wsize) (d + wsize) (s + wsize) t =
      Some (blit (blit m d s wsize) (d + wsize) (s + wsize) (t * wsize))"
    using "2.prems" calculation by (intro "2.IH") auto
  ultimately show ?case using "2.prems" blit_up [of d s wsize "t * wsize" m] by simp
qed simp

lemma bwd_bytes_blit:
  "s \<le> d \<Longrightarrow> d + t \<le> length m \<Longrightarrow> s + t \<le> length m \<Longrightarrow>
   bwd_bytes m (d + t) (s + t) t = Some (blit m d s t)"
proof (induction t arbitrary: m)
  case (Suc t)
  have "m[d + t := m ! (s + t)] = blit m (d + t) (s + t) 1"
    using Suc.prems by (intro blit_1) simp
  moreover have "blit (blit m (d + t) (s + t) 1) d s t = blit m d s (Suc t)"
    using Suc.prems blit_down [of s d 1 t m] by simp
  ultimately show ?case using Suc.prems Suc.IH [of "blit m (d + t) (s + t) 1"] by simp
qed simp

lemma bwd_words_blit:
  "s \<le> d \<Longrightarrow> d + t * wsize \<le> length m \<Longrightarrow> s + t * wsize \<le> length m \<Longrightarrow>
   t = 0 \<or> d mod wsize = 0 \<and> s mod wsize = 0 \<Longrightarrow>
   bwd_words m (d + t * wsize) (s + t * wsize) t = Some (blit m d s (t * wsize))"
proof (induction t arbitrary: m)
  case (Suc t)
  let ?d = "d + t * wsize" and ?s = "s + t * wsize"
  have step: "ldw wsize m ?s = Some (take wsize (drop ?s m))"
    "stw wsize m ?d (take wsize (drop ?s m)) = Some (blit m ?d ?s wsize)"
    using Suc.prems by (auto simp: ldw_def stw_def blit_def)
  moreover have "bwd_words (blit m ?d ?s wsize) ?d ?s t = Some (blit (blit m ?d ?s wsize) d s (t * wsize))"
    using Suc.prems by (intro Suc.IH) auto
  moreover have "blit (blit m ?d ?s wsize) d s (t * wsize) = blit m d s (Suc t * wsize)"
    using Suc.prems blit_down [of s d wsize "t * wsize" m] by simp
  ultimately show ?case by simp
qed simp

lemma and_wmask [simp]: "(a :: nat) AND wmask = a mod wsize"
  using take_bit_eq_mask [of 3 a] by (simp add: take_bit_eq_mod mask_eq_exp_minus_1)

lemma and_3 [simp]: "(a :: nat) AND 3 = a mod 4"
  using take_bit_eq_mask [of 2 a] by (simp add: take_bit_eq_mod mask_eq_exp_minus_1)

lemma or_mod8: "(a OR b :: nat) mod wsize = 0 \<longleftrightarrow> a mod wsize = 0 \<and> b mod wsize = 0"
  using take_bit_or [of 3 a b] by (simp add: take_bit_eq_mod or_eq_0_iff)

lemma xor_mod8: "(a XOR b :: nat) mod wsize = 0 \<longleftrightarrow> a mod wsize = b mod wsize"
proof -
  have "x XOR y = 0 \<longleftrightarrow> x = y" for x y :: nat
    by (auto simp: bit_eq_iff bit_xor_iff)
  then show ?thesis using take_bit_xor [of 3 a b] by (simp add: take_bit_eq_mod)
qed

lemma mod8_up: "b mod wsize = a mod wsize \<Longrightarrow> (b + (wsize - a mod wsize)) mod wsize = 0"
  by (metis add_diff_inverse_nat dvd_imp_mod_0 dvd_triv_left mod_add_left_eq mod_less_divisor
      mod_self not_less_iff_gr_or_eq zero_less_numeral)

lemma mod8_down: "b mod wsize = a mod wsize \<Longrightarrow> (b - a mod wsize) mod wsize = 0"
  by (metis minus_mod_eq_mult_div mod_mult_self1_is_0)

lemma copy_forward_blit:
  assumes "d \<le> s" "d + n \<le> length m" "s + n \<le> length m"
  shows "copy_forward m d s n = Some (blit m d s n)"
proof -
  define t0 where "t0 = (if (s OR d) AND wmask \<noteq> 0 then
      (if (s XOR d) AND wmask \<noteq> 0 \<or> n < wsize then n else wsize - (s AND wmask)) else 0)"
  define t1 where "t1 = (n - t0) div wsize"
  let ?r = "(n - t0) mod wsize"
  have t0: "t0 \<le> n" by (auto simp: t0_def)
  then have n: "n = t0 + (t1 * wsize + ?r)" by (simp add: t1_def)
  have al: "t1 = 0 \<or> (d + t0) mod wsize = 0 \<and> (s + t0) mod wsize = 0"
  proof (cases "t0 = n")
    case False
    then consider "t0 = 0" "s mod wsize = 0" "d mod wsize = 0"
      | "t0 = wsize - s mod wsize" "d mod wsize = s mod wsize"
      unfolding t0_def and_wmask or_mod8 xor_mod8 by metis
    then show ?thesis by cases (simp_all only: mod8_up simp_thms add_0_right)
  qed (simp add: t1_def)
  have "fwd_bytes m d s t0 = Some (blit m d s t0)"
    using assms t0 by (intro fwd_bytes_blit) auto
  moreover have "fwd_words (blit m d s t0) (d + t0) (s + t0) t1 =
      Some (blit (blit m d s t0) (d + t0) (s + t0) (t1 * wsize))"
    using assms n al by (intro fwd_words_blit) auto
  moreover have "blit (blit m d s t0) (d + t0) (s + t0) (t1 * wsize) = blit m d s (t0 + t1 * wsize)"
    using assms n by (intro blit_up) auto
  moreover have "fwd_bytes (blit m d s (t0 + t1 * wsize)) (d + t0 + t1 * wsize) (s + t0 + t1 * wsize) ?r =
      Some (blit (blit m d s (t0 + t1 * wsize)) (d + t0 + t1 * wsize) (s + t0 + t1 * wsize) ?r)"
    using assms n by (intro fwd_bytes_blit) auto
  moreover have "blit (blit m d s (t0 + t1 * wsize)) (d + t0 + t1 * wsize) (s + t0 + t1 * wsize) ?r =
      blit m d s n"
    using assms n blit_up [of d s "t0 + t1 * wsize" ?r m] by (simp add: add.assoc)
  ultimately show ?thesis
    unfolding copy_forward_def Let_def t0_def [symmetric] by (simp add: t1_def)
qed

lemma copy_backward_blit:
  assumes "s \<le> d" "d + n \<le> length m" "s + n \<le> length m"
  shows "copy_backward m d s n = Some (blit m d s n)"
proof -
  define S D where "S = s + n" and "D = d + n"
  define t0 where "t0 = (if (S OR D) AND wmask \<noteq> 0 then
      (if (S XOR D) AND wmask \<noteq> 0 \<or> n \<le> wsize then n else S AND wmask) else 0)"
  define t1 where "t1 = (n - t0) div wsize"
  let ?r = "(n - t0) mod wsize"
  have t0: "t0 \<le> n" by (auto simp: t0_def intro: order_trans [OF mod_le_divisor])
  then have n: "n = t0 + (t1 * wsize + ?r)" by (simp add: t1_def)
  have al: "t1 = 0 \<or> (D - t0) mod wsize = 0 \<and> (S - t0) mod wsize = 0"
  proof (cases "t0 = n")
    case False
    then consider "t0 = 0" "S mod wsize = 0" "D mod wsize = 0"
      | "t0 = S mod wsize" "D mod wsize = S mod wsize"
      unfolding t0_def and_wmask or_mod8 xor_mod8 by metis
    then show ?thesis by cases (simp_all only: mod8_down simp_thms diff_zero)
  qed (simp add: t1_def)
  define r where "r = (n - t0) mod wsize"
  let ?q = "t1 * wsize"
  have n': "n = t0 + ?q + r" using n by (simp add: r_def)
  have DS: "D = d + r + ?q + t0" "S = s + r + ?q + t0" using n' by (simp_all add: D_def S_def)
  have al': "t1 = 0 \<or> (d + r) mod wsize = 0 \<and> (s + r) mod wsize = 0"
    using al unfolding DS by simp
  have "bwd_bytes m D S t0 = Some (blit m (d + r + ?q) (s + r + ?q) t0)"
    unfolding DS using assms n' by (intro bwd_bytes_blit) auto
  moreover have "bwd_words (blit m (d + r + ?q) (s + r + ?q) t0) (d + r + ?q) (s + r + ?q) t1 =
      Some (blit (blit m (d + r + ?q) (s + r + ?q) t0) (d + r) (s + r) ?q)"
    using assms n' al' by (intro bwd_words_blit) auto
  moreover have "blit (blit m (d + r + ?q) (s + r + ?q) t0) (d + r) (s + r) ?q = blit m (d + r) (s + r) (t0 + ?q)"
    using assms n' by (intro blit_down) auto
  moreover have "bwd_bytes (blit m (d + r) (s + r) (t0 + ?q)) (d + r) (s + r) r =
      Some (blit (blit m (d + r) (s + r) (t0 + ?q)) d s r)"
    using assms n' by (intro bwd_bytes_blit) auto
  moreover have "blit (blit m (d + r) (s + r) (t0 + ?q)) d s r = blit m d s n"
    using assms n' blit_down [of s d "t0 + ?q" r m] by simp
  moreover have "D - t0 = d + r + ?q" "S - t0 = s + r + ?q" by (simp_all add: DS)
  ultimately show ?thesis
    unfolding copy_backward_def Let_def S_def [symmetric] D_def [symmetric]
    unfolding t0_def [symmetric] unfolding t1_def [symmetric] and_wmask unfolding r_def [symmetric]
    by simp
qed

lemma memmove_blit:
  assumes "src + n \<le> length m" "dst + n \<le> length m"
  shows "memmove m dst src n = Some (dst, blit m dst src n)"
proof (cases "n = 0 \<or> dst = src")
  case True
  have "blit m dst dst n = m" if "dst + n \<le> length m"
    using that by (intro nth_equalityI) (auto simp: nth_blit)
  with True assms show ?thesis by (auto simp: memmove_def)
next
  case False
  with assms show ?thesis
    by (simp add: memmove_def copy_forward_blit copy_backward_blit)
qed

section \<open>Filling\<close>

lemma set_bytes_wr: "d + t \<le> length m \<Longrightarrow> set_bytes m d v t = Some (wr m d (replicate t v))"
  by (induction m d v t rule: set_bytes.induct) auto

lemma le_bytes32_spread:
  fixes v :: byte
  defines "c \<equiv> (ucast v :: u32)"
  shows "le_bytes32 (if c \<noteq> 0 then let c = push_bit 8 c OR c in push_bit 16 c OR c else c) = replicate 4 v"
proof -
  have four: "replicate 4 v = [v, v, v, v]" by (simp add: numeral_eq_Suc)
  show ?thesis
  proof (cases "c = 0")
    case True
    then have "v = 0" by (simp add: c_def ucast_up_eq_0)
    with True four show ?thesis by (simp add: le_bytes32_def)
  next
    case False
    define w where "w = push_bit 16 (push_bit 8 c OR c) OR (push_bit 8 c OR c)"
    have bits: "bit w n \<longleftrightarrow> n < 32 \<and> bit v (n mod 8)" for n
      using bit_imp_le_length [of v] unfolding w_def
      by (cases "n < 8"; cases "n < 16"; cases "n < 24"; cases "n < 32")
         (auto simp: c_def bit_simps le_mod_geq dest: bit_imp_le_length)
    have mods: "(16 + n) mod 8 = n mod 8" "(24 + n) mod 8 = n mod 8" for n :: nat by (simp_all add: mod_add_eq [symmetric])
    have "ucast w = v" "ucast (drop_bit 8 w) = v" "ucast (drop_bit 16 w) = v" "ucast (drop_bit 24 w) = v"
      by (rule bit_word_eqI; simp add: bit_ucast_iff bit_drop_bit_eq bits mods)+
    with False show ?thesis unfolding Let_def w_def [symmetric] by (simp add: le_bytes32_def four)
  qed
qed

lemma set_words_wr:
  assumes "d + 4 * t \<le> length m" "t = 0 \<or> d mod 4 = 0" "le_bytes32 c = replicate 4 v"
  shows "set_words m d c t = Some (wr m d (replicate (4 * t) v))"
  using assms
proof (induction m d c t rule: set_words.induct)
  case (2 m d c t)
  then have "stw 4 m d (le_bytes32 c) = Some (wr m d (replicate 4 v))" by (simp add: stw_def)
  with "2" show ?case by (simp add: replicate_add wr_append)
qed simp

lemma memset_wr:
  assumes "dst + n \<le> length m"
  shows "memset m dst c n = Some (dst, wr m dst (replicate n (ucast c)))"
proof (cases "n < 12")
  case True
  with assms show ?thesis by (simp add: memset_def set_bytes_wr)
next
  case False
  let ?v = "ucast c :: byte"
  define t0 where "t0 = (if dst AND 3 \<noteq> 0 then 4 - (dst AND 3) else 0)"
  define t1 r where "t1 = (n - t0) div 4" and "r = (n - t0) mod 4"
  define w where "w = (if (ucast ?v :: u32) \<noteq> 0
    then push_bit 16 (push_bit 8 (ucast ?v) OR ucast ?v) OR (push_bit 8 (ucast ?v) OR ucast ?v)
    else ucast ?v :: u32)"
  have w: "le_bytes32 w = replicate 4 ?v" unfolding w_def by (rule le_bytes32_spread [unfolded Let_def])
  have t0: "t0 \<le> 4" by (simp add: t0_def)
  with False have n: "n = t0 + 4 * t1 + r" by (simp add: t1_def r_def)
  have al: "(dst + t0) mod 4 = 0" unfolding t0_def and_3 by presburger
  have "set_bytes m dst ?v t0 = Some (wr m dst (replicate t0 ?v))"
    using assms n by (intro set_bytes_wr) simp
  moreover have "set_words (wr m dst (replicate t0 ?v)) (dst + t0) w t1 =
      Some (wr m dst (replicate (t0 + 4 * t1) ?v))"
    using assms n al w by (subst set_words_wr) (auto simp: replicate_add wr_append)
  moreover have "set_bytes (wr m dst (replicate (t0 + 4 * t1) ?v)) (dst + t0 + 4 * t1) ?v r =
      Some (wr m dst (replicate n ?v))"
    using assms n by (subst set_bytes_wr) (auto simp: replicate_add wr_append)
  ultimately show ?thesis
    using False unfolding memset_def Let_def unfolding t0_def [symmetric] w_def [symmetric]
    unfolding t1_def [symmetric] and_3 unfolding r_def [symmetric] by simp
qed

section \<open>Comparing and searching\<close>

lemma memcmp_words_prefix:
  "b1 + n \<le> length m \<Longrightarrow> b2 + n \<le> length m \<Longrightarrow>
   \<exists>k \<le> n. memcmp_words m b1 b2 n = Some (b1 + k, b2 + k, n - k) \<and>
     take k (drop b1 m) = take k (drop b2 m)"
proof (induction m b1 b2 n rule: memcmp_words.induct)
  case (1 m b1 b2 n)
  show ?case
  proof (cases "n \<ge> 8 \<and> take 8 (drop b1 m) = take 8 (drop b2 m)")
    case True
    have "ldw_any 8 m b1 = Some (take 8 (drop b1 m))" "ldw_any 8 m b2 = Some (take 8 (drop b2 m))"
      using True "1.prems" by (auto simp: ldw_any_def)
    moreover from this True "1.prems" obtain k where "k \<le> n - 8"
      "memcmp_words m (b1 + 8) (b2 + 8) (n - 8) = Some (b1 + 8 + k, b2 + 8 + k, n - 8 - k)"
      "take k (drop (b1 + 8) m) = take k (drop (b2 + 8) m)"
      using "1.IH" by fastforce
    ultimately show ?thesis
      using True by (intro exI [of _ "8 + k"]) (auto simp: memcmp_words.simps [of m b1] take_drop_add add.assoc)
  next
    case False
    with "1.prems" have "memcmp_words m b1 b2 n = Some (b1, b2, n)"
      by (auto simp: memcmp_words.simps ldw_any_def)
    then show ?thesis by (intro exI [of _ 0]) simp
  qed
qed

lemma memcmp_bytes_order:
  "0 < n \<Longrightarrow> p + n \<le> length m \<Longrightarrow> q + n \<le> length m \<Longrightarrow>
   \<exists>r. memcmp_bytes m p q n = Some r \<and>
     (r < 0 \<longleftrightarrow> byte_lex (take n (drop p m)) (take n (drop q m))) \<and>
     (r = 0 \<longleftrightarrow> take n (drop p m) = take n (drop q m))"
proof (induction n arbitrary: p q)
  case (Suc n)
  have pq: "p < length m" "q < length m" using Suc.prems by auto
  show ?case
  proof (cases "n = 0 \<or> m ! p \<noteq> m ! q")
    case True
    then show ?thesis
      using pq uint_diff_sign [of "m ! p" "m ! q"] by (auto simp: memcmp_bytes.simps take_drop_Suc)
  next
    case False
    with Suc.prems Suc.IH [of "p + 1" "q + 1"] pq show ?thesis
      by (auto simp: memcmp_bytes.simps [of m p] take_drop_Suc)
  qed
qed simp

lemma consttime_loop_equal:
  "p + n \<le> length m \<Longrightarrow> q + n \<le> length m \<Longrightarrow> unat res < 256 \<Longrightarrow>
   \<exists>r. consttime_loop m p q n res = Some r \<and> unat r < 256 \<and>
     (r = 0 \<longleftrightarrow> res = 0 \<and> take n (drop p m) = take n (drop q m))"
proof (induction n arbitrary: p q res)
  case (Suc n)
  have pq: "p < length m" "q < length m" using Suc.prems by auto
  let ?x = "ucast (m ! p) XOR ucast (m ! q) :: u32"
  have "?x = ucast (m ! p XOR m ! q)" by (simp add: unsigned_xor_eq)
  have "x XOR y = 0 \<longleftrightarrow> x = y" for x y :: byte by (metis xor.right_neutral xor_self_eq xor.assoc)
  with \<open>?x = ucast (m ! p XOR m ! q)\<close> have x0: "?x = 0 \<longleftrightarrow> m ! p = m ! q" by (simp add: ucast_up_eq_0)
  have "unat ?x < 256"
    unfolding \<open>?x = ucast (m ! p XOR m ! q)\<close> by (subst unat_ucast_up) auto
  with Suc.prems(3) have "unat (res OR ?x) < 256" using unat_or_less [of res 8 ?x] by simp
  moreover have "res OR ?x = 0 \<longleftrightarrow> res = 0 \<and> m ! p = m ! q" by (simp add: or_eq_0_iff x0)
  ultimately show ?case
    using Suc.prems Suc.IH [of "p + 1" "q + 1" "res OR ?x"] pq by (auto simp: take_drop_Suc)
qed simp

section \<open>Properties\<close>

text \<open>
  C2. \<open>memmove\<close> copies as if through a temporary buffer, for every alignment and every overlap of
  source and destination: the destination gets the old contents of the source, no other byte
  changes, no access leaves the memory and no word access is unaligned.
\<close>

theorem memmove_correct:
  assumes "src + n \<le> length m" and "dst + n \<le> length m"
  shows "memmove m dst src n = Some (dst, wr m dst (take n (drop src m)))"
  using memmove_blit [OF assms] by (simp add: blit_def)

theorem memmove_correct_witness:
  "memmove [1, 2, 3, 4, 5, 6, 7, 8, 9, 10, 11, 12, 13] 2 0 11 =
     Some (2, [1, 2, 1, 2, 3, 4, 5, 6, 7, 8, 9, 10, 11])"
  using memmove_correct [of 0 11 "[1, 2, 3, 4, 5, 6, 7, 8, 9, 10, 11, 12, 13]" 2] by simp

text \<open>
  \<open>memset\<close> stores the low byte of its argument in exactly the \<open>n\<close> bytes it is given, for
  every length and alignment: the byte prologue, the 32-bit stores of the spread value and the
  byte epilogue together cover the region once.
\<close>

theorem memset_correct:
  assumes "dst + n \<le> length m"
  shows "memset m dst c n = Some (dst, wr m dst (replicate n (ucast c)))"
  by (rule memset_wr [OF assms])

text \<open>
  \<open>memcmp\<close>, eight bytes at a time and then byte by byte, decides the lexicographic order of
  the two regions as unsigned bytes; zero exactly when they are equal.
\<close>

theorem memcmp_order:
  assumes "p + n \<le> length m" and "q + n \<le> length m"
  shows "\<exists>r. memcmp m p q n = Some r \<and>
    (r < 0 \<longleftrightarrow> byte_lex (take n (drop p m)) (take n (drop q m))) \<and>
    (r = 0 \<longleftrightarrow> take n (drop p m) = take n (drop q m))"
proof -
  obtain k where k: "k \<le> n" "memcmp_words m p q n = Some (p + k, q + k, n - k)"
    "take k (drop p m) = take k (drop q m)"
    using memcmp_words_prefix [OF assms] by blast
  have split: "take n (drop a m) = take k (drop a m) @ take (n - k) (drop (a + k) m)" for a
    using take_drop_add [of k "n - k" a m] k(1) by simp
  show ?thesis
  proof (cases "n - k = 0")
    case True
    with k split [of p] split [of q] show ?thesis
      by (simp add: memcmp_def lexord_irreflexive)
  next
    case False
    with assms k(1) memcmp_bytes_order [of "n - k" "p + k" m "q + k"] k(2,3) split [of p] split [of q]
    show ?thesis by (auto simp: memcmp_def lexord_same_pref_iff)
  qed
qed

text \<open>
  \<open>consttime_memequal\<close> returns 1 when the two regions are equal and 0 otherwise: the
  branch-free \<^verbatim>\<open>1 & ((res - 1) >> 8)\<close> is the equality test it replaces.
\<close>

theorem consttime_memequal_correct:
  assumes "p + n \<le> length m" and "q + n \<le> length m"
  shows "consttime_memequal m p q n = Some (if take n (drop p m) = take n (drop q m) then 1 else 0)"
proof -
  obtain r where r: "consttime_loop m p q n 0 = Some r" "unat r < 256"
    "r = 0 \<longleftrightarrow> take n (drop p m) = take n (drop q m)"
    using consttime_loop_equal [OF assms, of 0] by auto
  have "drop_bit 8 (r - 1) = 0" if "r \<noteq> 0"
  proof -
    have "unat (r - 1) = unat r - 1" using that by (simp add: unat_minus_one)
    with r(2) have "unat (r - 1) div 256 = 0" by simp
    then show ?thesis by (simp add: drop_bit_eq_div word_unat_eq_iff unat_div_distrib)
  qed
  moreover have "1 AND drop_bit 8 (0 - 1 :: u32) = 1" by (simp add: mask_eq_exp_minus_1)
  ultimately show ?thesis using r by (auto simp: consttime_memequal_def)
qed

end
