(* ===== verification/Cescape.thy ===== *)
theory Cescape
  imports Ctoken Cmem
begin

text \<open>
  \<^verbatim>\<open>src/libc/string/stresep.c\<close>: \<open>strsep\<close> with an escape character.  An escape character is taken out of the string by
  moving the rest of it down over it (\<open>memmove\<close> of \<open>Cmem\<close>), and the byte that follows it is part of the token whatever it is.  A \<^verbatim>\<open>char\<close> is
  signed where it is compared with the \<^verbatim>\<open>int\<close> \<open>esc\<close>.
\<close>

section \<open>The program\<close>

text \<open>\<^verbatim>\<open>while (esc != '\0' && c == esc)\<close>\<close>

partial_function (option) stresep_esc :: "int \<Rightarrow> mem \<Rightarrow> nat \<Rightarrow> byte \<Rightarrow> nat \<Rightarrow> (mem \<times> nat \<times> byte \<times> nat) option" where
  "stresep_esc esc m s c l =
     (if esc \<noteq> 0 \<and> sint c = esc then do {
        (_, m) \<leftarrow> memmove m (s - 1) s l;
        c \<leftarrow> ld m s;
        stresep_esc esc m (s + 1) c (l - 1) }
      else Some (m, s, c, l))"

partial_function (option) stresep_scan :: "nat \<Rightarrow> int \<Rightarrow> mem \<Rightarrow> nat \<Rightarrow> nat \<Rightarrow> nat \<Rightarrow> (ptr \<times> ptr \<times> mem) option" where
  "stresep_scan delim esc m tok s l = do {
     c \<leftarrow> ld m s;
     (m, s, c, l) \<leftarrow> stresep_esc esc m (s + 1) c (l - 1);
     b \<leftarrow> span_match m delim c;
     if b then (if c = 0 then Some (Some tok, NULL, m)
                else do { m \<leftarrow> st m (s - 1) 0; Some (Some tok, Some s, m) })
     else stresep_scan delim esc m tok s l }"

definition stresep :: "mem \<Rightarrow> ptr \<Rightarrow> nat \<Rightarrow> int \<Rightarrow> (ptr \<times> ptr \<times> mem) option" where
  "stresep m stringp delim esc = (case stringp of
     None \<Rightarrow> Some (NULL, NULL, m)
   | Some s \<Rightarrow> do { n \<leftarrow> strlen m s; stresep_scan delim esc m s s (n + 1) })"

section \<open>One token\<close>

text \<open>The token at the front of a list of bytes, without its escapes, and the rest after the separator.\<close>

fun esc_token :: "int \<Rightarrow> byte set \<Rightarrow> byte list \<Rightarrow> byte list \<times> byte list option" where
  "esc_token e D [] = ([], None)"
| "esc_token e D (b # bs) =
     (if e \<noteq> 0 \<and> sint b = e then
        (case bs of [] \<Rightarrow> ([], None) | x # bs' \<Rightarrow> let (t, r) = esc_token e D bs' in (x # t, r))
      else if b \<in> D then ([], Some bs)
      else let (t, r) = esc_token e D bs in (b # t, r))"

lemma stresep_scan_step:
  "stresep_scan d e m tok s l = do {
     c \<leftarrow> ld m s;
     if e \<noteq> 0 \<and> sint c = e then do { (_, m) \<leftarrow> memmove m s (s + 1) (l - 1); stresep_scan d e m tok (s + 1) (l - 1) }
     else do { b \<leftarrow> span_match m d c;
       if b then (if c = 0 then Some (Some tok, NULL, m) else do { m \<leftarrow> st m s 0; Some (Some tok, Some (s + 1), m) })
       else stresep_scan d e m tok (s + 1) (l - 1) } }"
proof (cases "ld m s")
  case None
  then show ?thesis by (subst stresep_scan.simps) simp
next
  case (Some c)
  show ?thesis
  proof (cases "e \<noteq> 0 \<and> sint c = e")
    case True
    have "stresep_esc e m (s + 1) c (l - 1) = do { (_, m) \<leftarrow> memmove m s (s + 1) (l - 1); c \<leftarrow> ld m (s + 1); stresep_esc e m (s + 1 + 1) c (l - 1 - 1) }"
      using True by (subst stresep_esc.simps) simp
    then show ?thesis using Some True
      by (cases "memmove m s (s + 1) (l - 1)") (subst (1 2) stresep_scan.simps, auto)+
  next
    case False
    have "stresep_esc e m (s + 1) c (l - 1) = Some (m, s + 1, c, l - 1)" using False by (subst stresep_esc.simps) (simp only: if_False)
    then show ?thesis using Some False by (cases "span_match m d c"; subst stresep_scan.simps; auto)
  qed
qed

text \<open>Bytes of a string that has lost \<open>k\<close> bytes: \<open>k\<close> more NULs follow it.\<close>

definition tail_at :: "mem \<Rightarrow> nat \<Rightarrow> byte list \<Rightarrow> nat \<Rightarrow> bool" where
  "tail_at m s bs k \<longleftrightarrow> 0 \<notin> set bs \<and> bytes_at m s (bs @ replicate (Suc k) 0)"

lemma tail_cstr: "tail_at m s bs k \<Longrightarrow> cstr m s bs"
  by (auto simp: tail_at_def cstr_conv bytes_at_append)

lemma tail_step: "tail_at m s (b # bs) k \<Longrightarrow> tail_at m (s + 1) bs k"
  and tail_ld: "tail_at m s (b # bs) k \<Longrightarrow> ld m s = Some b" "tail_at m s [] k \<Longrightarrow> ld m s = Some 0"
  by (auto simp: tail_at_def)

lemma tail_length: "tail_at m s bs k \<Longrightarrow> s + length bs + k < length m"
  using bytes_at_length [of m s "bs @ replicate (Suc k) 0"] by (auto simp: tail_at_def)

lemma tail_move:
  assumes "tail_at m s (b # bs) k"
  shows "\<exists>m'. memmove m s (s + 1) (length bs + k + 1) = Some (s, m') \<and> tail_at m' s bs (k + 1) \<and> length m' = length m \<and>
    (\<forall>i. i < s \<or> s + length bs + k + 1 \<le> i \<longrightarrow> m' ! i = m ! i)"
proof -
  note l = tail_length [OF assms]
  define m' where "m' = blit m s (s + 1) (length bs + k + 1)"
  have mv: "memmove m s (s + 1) (length bs + k + 1) = Some (s, m')" using memmove_blit [of "s + 1" "length bs + k + 1" m s] l by (simp add: m'_def)
  have n: "m' ! i = (if s \<le> i \<and> i < s + length bs + k + 1 then m ! (s + 1 + (i - s)) else m ! i)" for i
    using nth_blit [of s "length bs + k + 1" m "s + 1" i] l by (simp add: m'_def)
  have b: "ld m (s + 1 + i) = Some ((bs @ replicate (Suc k) 0) ! i)" if "i < length bs + k + 1" for i
    using tail_step [OF assms] that by (simp add: tail_at_def bytes_at_nth del: replicate_Suc)
  have "ld m' (s + i) = Some ((bs @ replicate (k + 2) 0) ! i)" if i: "i < length bs + k + 2" for i
  proof (cases "i < length bs + k + 1")
    case True
    then show ?thesis using b [of i] n [of "s + i"] l by (auto simp: ld_def m'_def nth_append simp del: replicate_Suc split: if_splits)
  next
    case False
    then have "i = length bs + k + 1" using i by simp
    then show ?thesis using b [of "length bs + k"] n [of "s + i"] l by (auto simp: ld_def m'_def nth_append simp del: replicate_Suc split: if_splits)
  qed
  then have "bytes_at m' s (bs @ replicate (k + 2) 0)" by (simp add: bytes_at_nth)
  then have "tail_at m' s bs (k + 1)" using assms by (simp add: tail_at_def)
  moreover have "\<forall>i. i < s \<or> s + length bs + k + 1 \<le> i \<longrightarrow> m' ! i = m ! i"
    using n by auto
  moreover have "length m' = length m" by (simp add: m'_def)
  ultimately show ?thesis using mv by blast
qed

text \<open>What a call leaves behind: the token and the rest stand in the new memory, which differs from the old one in the \<open>n\<close> bytes of the string only.\<close>

definition token_cut :: "mem \<Rightarrow> nat \<Rightarrow> nat \<Rightarrow> byte list \<times> byte list option \<Rightarrow> ptr \<Rightarrow> mem \<Rightarrow> bool" where
  "token_cut m s n r cell m' \<longleftrightarrow> cell = map_option (\<lambda>_. s + length (fst r) + 1) (snd r) \<and> cstr m' s (fst r) \<and>
    (\<forall>rest. snd r = Some rest \<longrightarrow> cstr m' (s + length (fst r) + 1) rest) \<and> length m' = length m \<and> (\<forall>i. i < s \<or> s + n \<le> i \<longrightarrow> m' ! i = m ! i)"

lemma token_cut_Cons:
  assumes "token_cut m1 (s + 1) n r cell m'" "ld m1 s = Some x" "x \<noteq> 0" "length m1 = length m" "\<And>i. i < s \<or> s + n + 1 \<le> i \<Longrightarrow> m1 ! i = m ! i" "n' = n + 1"
  shows "token_cut m s n' (x # fst r, snd r) cell m'"
proof -
  have "ld m' s = Some x" using assms(1,2) by (auto simp: token_cut_def ld_def split: if_splits)
  then show ?thesis using assms by (auto simp: token_cut_def)
qed

lemma stresep_scan_token:
  assumes "tail_at m s bs k" "cstr m d ds" "d + length ds < s \<or> s + length bs + k < d" "l = length bs + k + 1"
  shows "\<exists>cell m'. stresep_scan d e m tok s l = Some (Some tok, cell, m') \<and> token_cut m s (length bs + k) (esc_token e (set ds) bs) cell m'"
  using assms
proof (induction "length bs" arbitrary: bs m s k l rule: less_induct)
  case less
  show ?case
  proof (cases bs)
    case Nil
    then show ?thesis using span_match_cstr [OF less.prems(2), of 0] tail_ld(2) [of m s k] less.prems(1)
      by (subst stresep_scan_step) (auto simp: token_cut_def)
  next
    case (Cons b bs1)
    note tail = less.prems(1) [unfolded Cons]
    note ld = tail_ld(1) [OF tail] and len = tail_length [OF tail]
    have l: "l - 1 = length bs1 + k + 1" using less.prems(4) Cons by simp
    show ?thesis
    proof (cases "e \<noteq> 0 \<and> sint b = e")
      case True
      obtain m1 where m1: "memmove m s (s + 1) (l - 1) = Some (s, m1)" "tail_at m1 s bs1 (k + 1)" "length m1 = length m"
        "\<And>i. i < s \<or> s + length bs1 + k + 1 \<le> i \<Longrightarrow> m1 ! i = m ! i" using tail_move [OF tail] unfolding l by blast
      have d: "cstr m1 d ds" using cstr_agree [OF less.prems(2) m1(3)] m1(4) less.prems(3) Cons by auto
      have step: "stresep_scan d e m tok s l = stresep_scan d e m1 tok (s + 1) (l - 1)" using ld True m1(1) by (subst stresep_scan_step) simp
      show ?thesis
      proof (cases bs1)
        case Nil
        have z: "ld m1 (s + 1) = Some 0" using m1(2) Nil by (simp add: tail_at_def)
        have "stresep_scan d e m1 tok (s + 1) (l - 1) = Some (Some tok, NULL, m1)" using z span_match_cstr [OF d, of 0] True by (subst stresep_scan_step) auto
        then show ?thesis using step True m1 tail_cstr [OF m1(2)] Nil Cons by (auto simp: token_cut_def)
      next
        case x: (Cons x bs2)
        note t1 = m1(2) [unfolded x]
        obtain cell m' where IH: "stresep_scan d e m1 tok (s + 1) (l - 1) = Some (Some tok, cell, m')"
          "token_cut m1 (s + 1) (length bs2 + (k + 1)) (esc_token e (set ds) bs2) cell m'"
          using less.hyps [OF _ tail_step [OF t1] d, of "l - 1"] less.prems(3) l x Cons by auto
        have "token_cut m s (length bs + k) (x # fst (esc_token e (set ds) bs2), snd (esc_token e (set ds) bs2)) cell m'"
          by (rule token_cut_Cons [OF IH(2) tail_ld(1) [OF t1]]) (use t1 m1(3,4) x Cons in \<open>auto simp: tail_at_def\<close>)
        then show ?thesis using step IH(1) True Cons x by (auto simp: case_prod_beta)
      qed
    next
      case F: False
      show ?thesis
      proof (cases "b \<in> set ds")
        case True
        have b: "b \<noteq> 0" using tail by (simp add: tail_at_def)
        have "st m s 0 = Some (m[s := 0])" using len by (simp add: st_def)
        then have "stresep_scan d e m tok s l = Some (Some tok, Some (s + 1), m[s := 0])"
          using F ld b span_match_cstr [OF less.prems(2), of b] True by (subst stresep_scan_step) auto
        moreover have "token_cut m s (length bs + k) ([], Some bs1) (Some (s + 1)) (m[s := 0])"
          using cstr_cut [OF tail_cstr [OF tail], of 0] Cons by (auto simp: token_cut_def)
        moreover have "esc_token e (set ds) bs = ([], Some bs1)" using F True Cons by auto
        ultimately show ?thesis by auto
      next
        case False
        have b: "b \<noteq> 0" using tail by (simp add: tail_at_def)
        have step: "stresep_scan d e m tok s l = stresep_scan d e m tok (s + 1) (l - 1)"
          using F ld b span_match_cstr [OF less.prems(2), of b] False by (subst stresep_scan_step) auto
        obtain cell m' where IH: "stresep_scan d e m tok (s + 1) (l - 1) = Some (Some tok, cell, m')"
          "token_cut m (s + 1) (length bs1 + k) (esc_token e (set ds) bs1) cell m'"
          using less.hyps [OF _ tail_step [OF tail] less.prems(2), of "l - 1"] less.prems(3) l Cons by auto
        have "token_cut m s (length bs + k) (b # fst (esc_token e (set ds) bs1), snd (esc_token e (set ds) bs1)) cell m'"
          by (rule token_cut_Cons [OF IH(2) ld b]) (use Cons in auto)
        moreover have "esc_token e (set ds) bs = (b # fst (esc_token e (set ds) bs1), snd (esc_token e (set ds) bs1))"
          using F False Cons by (auto simp: case_prod_beta)
        ultimately show ?thesis using step IH(1) by auto
      qed
    qed
  qed
qed

section \<open>Properties\<close>

text \<open>
  \<open>stresep\<close> cuts out the first token of a string: up to the first separator that is not escaped, with the escape characters
  removed and the bytes after them kept as they are.  The token stands NUL-terminated at the returned address, the cell
  points to the rest of the string or is \<open>NULL\<close> when there is none, and no byte outside the string changes, although the
  code moves the string while it scans it.  With no escape character it is \<open>strsep\<close>.
\<close>

theorem stresep_token:
  assumes "cstr m s bs" "cstr m d ds" "d + length ds < s \<or> s + length bs < d"
  shows "(\<exists>cell m'. stresep m (Some s) d e = Some (Some s, cell, m') \<and> token_cut m s (length bs) (esc_token e (set ds) bs) cell m') \<and>
    stresep m (Some s) d 0 = strsep m (Some s) d"
proof
  have t: "tail_at m s bs 0" using assms(1) by (simp add: tail_at_def cstr_conv)
  show "\<exists>cell m'. stresep m (Some s) d e = Some (Some s, cell, m') \<and> token_cut m s (length bs) (esc_token e (set ds) bs) cell m'"
    using stresep_scan_token [OF t assms(2), of "length bs + 1" e s] assms(3) strlen_cstr [OF assms(1)] by (simp add: stresep_def)
  have "stresep_scan d 0 m tok p l = token_scan m tok p d" if "cstr m p cs" for tok p l cs
    using that
  proof (induction cs arbitrary: p l)
    case Nil
    then show ?case using span_match_cstr [OF assms(2), of 0] by (subst stresep_scan_step, subst token_scan.simps) simp
  next
    case (Cons c cs)
    then show ?case using span_match_cstr [OF assms(2), of c] by (subst stresep_scan_step, subst token_scan.simps) auto
  qed
  then show "stresep m (Some s) d 0 = strsep m (Some s) d" using assms(1) strlen_cstr [OF assms(1)] by (simp add: stresep_def strsep_def)
qed

end
