(* ===== verification/Fnmatch.thy ===== *)
theory Fnmatch
  imports Cstring
begin

text \<open>
  Matching of file names, \<^verbatim>\<open>src/libc/gen/fnmatch.c\<close>.  The pattern and the string are objects of their own, with checked reads.  A value of type \<^verbatim>\<open>char\<close> is signed, as
  on the x86 family; character classes are those of the C locale.  The recursion for an asterisk is limited by the code itself, so that \<open>fnmatchx\<close> is recursive in its
  last argument; its loops advance in the pattern or in the string.
\<close>

section \<open>The program\<close>

definition FNM_NOMATCH :: int where "FNM_NOMATCH = 1"
definition FNM_NORES :: int where "FNM_NORES = 3"
definition FNM_NOESCAPE :: u32 where "FNM_NOESCAPE = 0x01"
definition FNM_PATHNAME :: u32 where "FNM_PATHNAME = 0x02"
definition FNM_PERIOD :: u32 where "FNM_PERIOD = 0x04"
definition FNM_CASEFOLD :: u32 where "FNM_CASEFOLD = 0x08"
definition FNM_LEADING_DIR :: u32 where "FNM_LEADING_DIR = 0x10"

abbreviation flag :: "u32 \<Rightarrow> u32 \<Rightarrow> bool" where "flag flags f \<equiv> flags AND f \<noteq> 0"

definition foldcase :: "byte \<Rightarrow> u32 \<Rightarrow> byte" where
  "foldcase c flags = (if flag flags FNM_CASEFOLD \<and> 0x41 \<le> c \<and> c \<le> 0x5a then c + 0x20 else c)"

text \<open>The results of \<open>rangematch\<close>: NULL, \<^verbatim>\<open>(void *)-1\<close>, and a pointer into the pattern.\<close>

datatype range_result = No_match | Slash | At nat

text \<open>\<^verbatim>\<open>c = FOLDCASE(*pattern++, flags)\<close> after a backslash, unless backslashes are ordinary.\<close>

definition unescape :: "mem \<Rightarrow> byte \<Rightarrow> nat \<Rightarrow> u32 \<Rightarrow> (byte \<times> nat) option" where
  "unescape pat c p flags =
     (if c = 0x5c \<and> \<not> flag flags FNM_NOESCAPE then do { x \<leftarrow> ld pat p; Some (foldcase x flags, p + 1) } else Some (c, p))"

text \<open>The end \<open>c2\<close> of a range, if there is one after \<open>c\<close>.\<close>

definition range_end :: "mem \<Rightarrow> nat \<Rightarrow> u32 \<Rightarrow> byte option option" where
  "range_end pat p flags = do {
     d \<leftarrow> ld pat p;
     if d = 0x2d then do {
       y \<leftarrow> ld pat (p + 1);
       Some (if foldcase y flags \<noteq> 0 \<and> foldcase y flags \<noteq> 0x5d then Some (foldcase y flags) else None) }
     else Some None }"

lemma unescape_le: "unescape pat c p flags = Some (c', p') \<Longrightarrow> p \<le> p'"
  by (auto simp: unescape_def split: if_splits bind_splits)

function range_loop :: "mem \<Rightarrow> nat \<Rightarrow> int \<Rightarrow> u32 \<Rightarrow> bool \<Rightarrow> bool \<Rightarrow> bool \<Rightarrow> range_result option" where
  "range_loop pat p test flags negate need ok = do {
     x \<leftarrow> ld pat p;
     let c = foldcase x flags;
     if c = 0x5d \<and> \<not> need then Some (if ok = negate then No_match else At (p + 1))
     else if c = 0x2f then Some Slash
     else do {
       (c, p') \<leftarrow> unescape pat c (p + 1) flags;
       if c = 0 then Some No_match
       else do {
         r \<leftarrow> range_end pat p' flags;
         case r of
           Some c2 \<Rightarrow> do {
             (c2, p'') \<leftarrow> unescape pat c2 (p' + 2) flags;
             if c2 = 0 then Some No_match
             else range_loop pat p'' test flags negate False (ok \<or> sint c \<le> test \<and> test \<le> sint c2) }
         | None \<Rightarrow> range_loop pat p' test flags negate False (ok \<or> sint c = test) } } }"
  by pat_completeness auto
termination
  by (relation "measure (\<lambda>(pat, p, _). length pat - p)") (auto dest!: unescape_le)

declare range_loop.simps [simp del]

definition rangematch :: "mem \<Rightarrow> nat \<Rightarrow> int \<Rightarrow> u32 \<Rightarrow> range_result option" where
  "rangematch pat p test flags = do {
     x \<leftarrow> ld pat p;
     let negate = (x = 0x21 \<or> x = 0x5e);
     range_loop pat (if negate then p + 1 else p) test flags negate True False }"

text \<open>Skipping of further asterisks; the result is the next character and where it is.\<close>

function skip_stars :: "mem \<Rightarrow> nat \<Rightarrow> u32 \<Rightarrow> (byte \<times> nat) option" where
  "skip_stars pat p flags = do {
     x \<leftarrow> ld pat p;
     if foldcase x flags = 0x2a then skip_stars pat (p + 1) flags else Some (foldcase x flags, p) }"
  by pat_completeness auto
termination
  by (relation "measure (\<lambda>(pat, p, _). length pat - p)") auto

declare skip_stars.simps [simp del]

text \<open>The test for a period that only a period may match.\<close>

definition protected :: "mem \<Rightarrow> nat \<Rightarrow> nat \<Rightarrow> u32 \<Rightarrow> bool option" where
  "protected str s stringstart flags = do {
     x \<leftarrow> ld str s;
     if x = 0x2e \<and> flag flags FNM_PERIOD then
       if s = stringstart then Some True
       else if flag flags FNM_PATHNAME then do { y \<leftarrow> ld str (s - 1); Some (y = 0x2f) }
       else Some False
     else Some False }"

text \<open>The loop that tries the rest of the pattern at every place; \<open>f\<close> is the recursive call.\<close>

function star_loop :: "(nat \<Rightarrow> int option) \<Rightarrow> mem \<Rightarrow> nat \<Rightarrow> u32 \<Rightarrow> int option" where
  "star_loop f str s flags = do {
     x \<leftarrow> ld str s;
     let test = foldcase x flags;
     if test = 0 then Some FNM_NOMATCH
     else do {
       e \<leftarrow> f s;
       if e \<noteq> FNM_NOMATCH then Some e
       else if test = 0x2f \<and> flag flags FNM_PATHNAME then Some FNM_NOMATCH
       else star_loop f str (s + 1) flags } }"
  by pat_completeness auto
termination
  by (relation "measure (\<lambda>(f, str, s, _). length str - s)") auto

declare star_loop.simps [simp del]

text \<open>The main loop; \<open>f\<close> is the recursive call for the rest of the pattern and of the string.\<close>

lemma skip_stars_le: "skip_stars pat p flags = Some (c, p') \<Longrightarrow> p \<le> p'"
  by (induction pat p flags rule: skip_stars.induct) (subst (asm) (2) skip_stars.simps, auto split: if_splits bind_splits)

lemma range_loop_le: "range_loop pat p test flags negate need ok = Some (At p') \<Longrightarrow> p < p'"
proof (induction pat p test flags negate need ok rule: range_loop.induct)
  case (1 pat p test flags negate need ok)
  note U = "1.prems" [unfolded range_loop.simps [of pat p]]
  obtain x where x: "ld pat p = Some x" using U by (cases "ld pat p") auto
  show ?case
  proof (cases "foldcase x flags = 0x5d \<and> \<not> need \<or> foldcase x flags = 0x2f")
    case True
    then show ?thesis using U x by (auto split: if_splits)
  next
    case False
    then obtain c q where c: "unescape pat (foldcase x flags) (p + 1) flags = Some (c, q)" "c \<noteq> 0"
      using U x by (cases "unescape pat (foldcase x flags) (p + 1) flags") (auto split: if_splits)
    have q: "p < q" using unescape_le [OF c(1)] by simp
    obtain r where r: "range_end pat q flags = Some r" using U x False c by (cases "range_end pat q flags") auto
    show ?thesis
    proof (cases r)
      case None
      then have "range_loop pat q test flags negate False (ok \<or> sint c = test) = Some (At p')" using U x False c r by auto
      then show ?thesis using "1.IH"(1) [OF x refl _ _ c(1) refl _ r None] False c(2) q by auto
    next
      case (Some c2)
      then obtain d q2 where d: "unescape pat c2 (q + 2) flags = Some (d, q2)" "d \<noteq> 0"
        using U x False c r by (cases "unescape pat c2 (q + 2) flags") (auto split: if_splits)
      have "range_loop pat q2 test flags negate False (ok \<or> sint c \<le> test \<and> test \<le> sint d) = Some (At p')" using U x False c r Some d by auto
      then show ?thesis using "1.IH"(2) [OF x refl _ _ c(1) refl _ r Some d(1) refl] False c(2) d(2) q unescape_le [OF d(1)] by auto
    qed
  qed
qed

lemma rangematch_le: "rangematch pat p test flags = Some (At p') \<Longrightarrow> p < p'"
  by (auto simp: rangematch_def Let_def split: bind_splits if_splits dest!: range_loop_le)

function fnm_loop :: "(nat \<Rightarrow> nat \<Rightarrow> int option) \<Rightarrow> mem \<Rightarrow> nat \<Rightarrow> mem \<Rightarrow> nat \<Rightarrow> nat \<Rightarrow> u32 \<Rightarrow> int option" where
  "fnm_loop f pat p str s stringstart flags = do {
     x \<leftarrow> ld pat p;
     let c = foldcase x flags;
     if c = 0 then do {
       y \<leftarrow> ld str s;
       Some (if flag flags FNM_LEADING_DIR \<and> y = 0x2f then 0 else if y = 0 then 0 else FNM_NOMATCH) }
     else if c = 0x3f then do {
       y \<leftarrow> ld str s;
       if y = 0 \<or> y = 0x2f \<and> flag flags FNM_PATHNAME then Some FNM_NOMATCH
       else do {
         b \<leftarrow> protected str s stringstart flags;
         if b then Some FNM_NOMATCH else fnm_loop f pat (p + 1) str (s + 1) stringstart flags } }
     else if c = 0x2a then do {
       (c, p') \<leftarrow> skip_stars pat (p + 1) flags;
       b \<leftarrow> protected str s stringstart flags;
       if b then Some FNM_NOMATCH
       else if c = 0 then
         (if flag flags FNM_PATHNAME then
            if flag flags FNM_LEADING_DIR then Some 0
            else do { r \<leftarrow> strchr str s 0x2f; Some (if r = NULL then 0 else FNM_NOMATCH) }
          else Some 0)
       else if c = 0x2f \<and> flag flags FNM_PATHNAME then do {
         r \<leftarrow> strchr str s 0x2f;
         case r of None \<Rightarrow> Some FNM_NOMATCH | Some s' \<Rightarrow> fnm_loop f pat p' str s' stringstart flags }
       else star_loop (f p') str s flags }
     else if c = 0x5b then do {
       y \<leftarrow> ld str s;
       if y = 0 \<or> y = 0x2f \<and> flag flags FNM_PATHNAME then Some FNM_NOMATCH
       else do {
         r \<leftarrow> rangematch pat (p + 1) (uint (foldcase y flags)) flags;
         case r of
           No_match \<Rightarrow> Some FNM_NOMATCH
         | Slash \<Rightarrow> if y \<noteq> 0x5b then Some FNM_NOMATCH else fnm_loop f pat (p + 1) str (s + 1) stringstart flags
         | At p' \<Rightarrow> fnm_loop f pat p' str (s + 1) stringstart flags } }
     else do {
       (c, p') \<leftarrow> (if c = 0x5c \<and> \<not> flag flags FNM_NOESCAPE then do {
           z \<leftarrow> ld pat (p + 1);
           Some (if foldcase z flags = 0 then (0, p + 1) else (foldcase z flags, p + 2)) }
         else Some (c, p + 1));
       y \<leftarrow> ld str s;
       if sint c \<noteq> uint (foldcase y flags) then Some FNM_NOMATCH else fnm_loop f pat p' str (s + 1) stringstart flags } }"
  by pat_completeness auto
termination
  by (relation "measure (\<lambda>(f, pat, p, _). length pat - p)")
    (auto dest!: skip_stars_le rangematch_le split: if_splits bind_splits)

declare fnm_loop.simps [simp del]

primrec fnmatchx :: "nat \<Rightarrow> mem \<Rightarrow> nat \<Rightarrow> mem \<Rightarrow> nat \<Rightarrow> u32 \<Rightarrow> int option" where
  "fnmatchx 0 pat p str s flags = Some FNM_NORES"
| "fnmatchx (Suc recursion) pat p str s flags =
     fnm_loop (\<lambda>p' s'. fnmatchx recursion pat p' str s' (flags AND NOT FNM_PERIOD)) pat p str s s flags"

definition fnmatch :: "mem \<Rightarrow> nat \<Rightarrow> mem \<Rightarrow> nat \<Rightarrow> u32 \<Rightarrow> int option" where
  "fnmatch pat p str s flags = fnmatchx 64 pat p str s flags"

section \<open>Patterns and what they match\<close>

text \<open>
  What the code matches: a pattern is read into elements once, independently of the string, and an asterisk stands for any run of bytes, without a slash if \<^verbatim>\<open>FNM_PATHNAME\<close> is set.
  The language that the manual describes follows further below.
  \<open>TOpen\<close> is a bracket that is an ordinary character because a slash follows before it is closed, \<open>TNever\<close> one that is never closed, and \<open>TBad\<close> a backslash at the end.
\<close>

datatype elem = TAny | TStar | TLit byte | TEsc byte | TSet bool "(int \<times> int) list" | TOpen | TNever | TBad

datatype set_result = Never | Has_slash | Items "(int \<times> int) list" "byte list"

fun add_item :: "int \<times> int \<Rightarrow> set_result \<Rightarrow> set_result" where
  "add_item i (Items is rest) = Items (i # is) rest"
| "add_item i r = r"

definition escaped :: "u32 \<Rightarrow> byte \<Rightarrow> byte list \<Rightarrow> (byte \<times> byte list) option" where
  "escaped flags c xs = (if c = 0x5c \<and> \<not> flag flags FNM_NOESCAPE then case xs of [] \<Rightarrow> None | y # ys \<Rightarrow> Some (foldcase y flags, ys) else Some (c, xs))"

definition upper :: "u32 \<Rightarrow> byte list \<Rightarrow> (byte \<times> byte list) option" where
  "upper flags xs = (case xs of d # y # ys \<Rightarrow> if d = 0x2d \<and> foldcase y flags \<noteq> 0x5d then Some (foldcase y flags, ys) else None | _ \<Rightarrow> None)"

lemma escaped_suffix: "escaped flags c xs = Some (c', ys) \<Longrightarrow> suffix ys xs"
  by (auto simp: escaped_def suffix_Cons split: if_splits list.splits)

lemma upper_suffix: "upper flags xs = Some (c', ys) \<Longrightarrow> strict_suffix ys xs"
  by (auto simp: upper_def strict_suffix_def suffix_Cons split: if_splits list.splits)

function set_items :: "u32 \<Rightarrow> bool \<Rightarrow> byte list \<Rightarrow> set_result" where
  "set_items flags need [] = Never"
| "set_items flags need (x # xs) =
     (if foldcase x flags = 0x5d \<and> \<not> need then Items [] xs
      else if foldcase x flags = 0x2f then Has_slash
      else case escaped flags (foldcase x flags) xs of
        None \<Rightarrow> Never
      | Some (c, ys) \<Rightarrow> (case upper flags ys of
          None \<Rightarrow> add_item (sint c, sint c) (set_items flags False ys)
        | Some (c2, zs) \<Rightarrow> (case escaped flags c2 zs of
            None \<Rightarrow> Never
          | Some (c2, zs) \<Rightarrow> add_item (sint c, sint c2) (set_items flags False zs))))"
  by pat_completeness auto
termination
  by (relation "measure (\<lambda>(flags, need, xs). length xs)") (auto dest!: escaped_suffix upper_suffix suffix_length_le suffix_length_less)

lemma add_item_iff: "add_item i r = Items is rest \<longleftrightarrow> (\<exists>js. r = Items js rest \<and> is = i # js)"
  by (cases r) auto

lemma set_items_suffix: "set_items flags need xs = Items is rest \<Longrightarrow> strict_suffix rest xs"
proof (induction flags need xs arbitrary: "is" rule: set_items.induct)
  case (2 flags need x xs)
  show ?case
  proof (cases "foldcase x flags = 0x5d \<and> \<not> need \<or> foldcase x flags = 0x2f")
    case True
    then show ?thesis using "2.prems" by (auto split: if_splits simp: strict_suffix_def suffix_Cons)
  next
    case False
    then obtain c ys where c: "escaped flags (foldcase x flags) xs = Some (c, ys)" using "2.prems" by (auto split: option.splits)
    have ys: "strict_suffix ys (x # xs)" using escaped_suffix [OF c] suffix_length_le by (fastforce simp: strict_suffix_def suffix_Cons)
    show ?thesis
    proof (cases "upper flags ys")
      case None
      then obtain js where "set_items flags False ys = Items js rest" using "2.prems" False c by (auto simp: add_item_iff)
      then have "strict_suffix rest ys" using "2.IH"(1) [OF _ _ c refl None] False by auto
      then show ?thesis using ys by (rule suffix_order.less_trans)
    next
      case (Some u)
      obtain c2 zs where u: "u = (c2, zs)" by (cases u)
      obtain d ws where d: "escaped flags c2 zs = Some (d, ws)" using "2.prems" False c Some u by (auto split: option.splits)
      then obtain js where "set_items flags False ws = Items js rest" using "2.prems" False c Some u by (auto simp: add_item_iff)
      then have "strict_suffix rest ws" using "2.IH"(2) [OF _ _ c refl Some u [symmetric] d refl] False by auto
      with escaped_suffix [OF d] upper_suffix [OF Some [unfolded u]] ys show ?thesis
        by (meson suffix_order.less_le_trans suffix_order.less_trans)
    qed
  qed
qed simp

fun negated :: "byte list \<Rightarrow> bool" where
  "negated (y # ys) = (y = 0x21 \<or> y = 0x5e)"
| "negated [] = False"

function elems :: "u32 \<Rightarrow> byte list \<Rightarrow> elem list" where
  "elems flags [] = []"
| "elems flags (x # xs) =
     (let c = foldcase x flags in
      if c = 0x3f then TAny # elems flags xs
      else if c = 0x2a then TStar # elems flags (dropWhile (\<lambda>x. x = 0x2a) xs)
      else if c = 0x5b then (case set_items flags True (if negated xs then tl xs else xs) of
          Never \<Rightarrow> [TNever]
        | Has_slash \<Rightarrow> TOpen # elems flags xs
        | Items is rest \<Rightarrow> TSet (negated xs) is # elems flags rest)
      else if c = 0x5c \<and> \<not> flag flags FNM_NOESCAPE then (case xs of [] \<Rightarrow> [TBad] | y # ys \<Rightarrow> TEsc (foldcase y flags) # elems flags ys)
      else TLit c # elems flags xs)"
  by pat_completeness auto
termination
  by (relation "measure (\<lambda>(flags, xs). length xs)") (auto dest!: set_items_suffix suffix_length_less split: if_splits simp: le_imp_less_Suc length_dropWhile_le)

text \<open>Whether an element matches the byte \<open>b\<close>; \<open>lead\<close> says that a period here is a leading one.\<close>

fun fits :: "u32 \<Rightarrow> bool \<Rightarrow> elem \<Rightarrow> byte \<Rightarrow> bool" where
  "fits flags lead TAny b \<longleftrightarrow> \<not> (b = 0x2f \<and> flag flags FNM_PATHNAME) \<and> \<not> (b = 0x2e \<and> flag flags FNM_PERIOD \<and> lead)"
| "fits flags lead (TLit c) b \<longleftrightarrow> sint c = uint (foldcase b flags)"
| "fits flags lead (TEsc c) b \<longleftrightarrow> sint c = uint (foldcase b flags)"
| "fits flags lead (TSet neg is) b \<longleftrightarrow> \<not> (b = 0x2f \<and> flag flags FNM_PATHNAME) \<and>
     list_ex (\<lambda>(lo, hi). lo \<le> uint (foldcase b flags) \<and> uint (foldcase b flags) \<le> hi) is \<noteq> neg"
| "fits flags lead TOpen b \<longleftrightarrow> b = 0x5b"
| "fits flags lead _ b \<longleftrightarrow> False"

text \<open>After an asterisk leading periods are no longer protected, unless the next element is a slash of its own.\<close>

definition after_star :: "u32 \<Rightarrow> elem list \<Rightarrow> u32" where
  "after_star flags ts = (if flag flags FNM_PATHNAME \<and> ts \<noteq> [] \<and> hd ts = TLit 0x2f then flags else flags AND NOT FNM_PERIOD)"

primrec glob :: "elem list \<Rightarrow> u32 \<Rightarrow> bool \<Rightarrow> byte list \<Rightarrow> bool" where
  "glob [] flags lead s \<longleftrightarrow> s = [] \<or> flag flags FNM_LEADING_DIR \<and> hd s = 0x2f"
| "glob (t # ts) flags lead s \<longleftrightarrow>
     (if t = TStar then
        \<not> (s \<noteq> [] \<and> hd s = 0x2e \<and> flag flags FNM_PERIOD \<and> lead) \<and>
        (\<exists>k \<in> {..length s}. (flag flags FNM_PATHNAME \<longrightarrow> 0x2f \<notin> set (take k s)) \<and> glob ts (after_star flags ts) False (drop k s))
      else s \<noteq> [] \<and> fits flags lead t (hd s) \<and> glob ts flags (flag flags FNM_PATHNAME \<and> hd s = 0x2f) (tl s))"

section \<open>Case folding and flags\<close>

lemma upper_case_shift: "0x41 \<le> c \<Longrightarrow> c \<le> 0x5a \<Longrightarrow> 0x61 \<le> c + 0x20 \<and> c + 0x20 \<le> (0x7a :: byte)"
  by (simp add: word_le_nat_alt unat_word_ariths)

lemma foldcase_eq:
  assumes "\<not> (0x41 \<le> k \<and> k \<le> 0x5a)" "\<not> (0x61 \<le> k \<and> k \<le> 0x7a)"
  shows "foldcase c flags = k \<longleftrightarrow> c = k"
  using assms upper_case_shift [of c] by (auto simp: foldcase_def)

lemma foldcase_special [simp]:
  "foldcase c flags = 0 \<longleftrightarrow> c = 0" "foldcase c flags = 0x2a \<longleftrightarrow> c = 0x2a" "foldcase c flags = 0x2f \<longleftrightarrow> c = 0x2f"
  "foldcase c flags = 0x3f \<longleftrightarrow> c = 0x3f" "foldcase c flags = 0x5b \<longleftrightarrow> c = 0x5b" "foldcase c flags = 0x5c \<longleftrightarrow> c = 0x5c"
  "foldcase c flags = 0x5d \<longleftrightarrow> c = 0x5d"
  by (rule foldcase_eq; simp)+

lemma foldcase_NUL [simp]: "foldcase 0 flags = 0"
  by (subst foldcase_special) simp

lemma flag_no_period [simp]:
  "(flags AND NOT FNM_PERIOD) AND FNM_CASEFOLD = flags AND FNM_CASEFOLD"
  "(flags AND NOT FNM_PERIOD) AND FNM_NOESCAPE = flags AND FNM_NOESCAPE"
  "(flags AND NOT FNM_PERIOD) AND FNM_PATHNAME = flags AND FNM_PATHNAME"
  "(flags AND NOT FNM_PERIOD) AND FNM_LEADING_DIR = flags AND FNM_LEADING_DIR"
  "(flags AND NOT FNM_PERIOD) AND FNM_PERIOD = 0"
  by (simp_all add: FNM_CASEFOLD_def FNM_NOESCAPE_def FNM_PATHNAME_def FNM_LEADING_DIR_def FNM_PERIOD_def and.assoc)

lemma foldcase_no_period [simp]: "foldcase c (flags AND NOT FNM_PERIOD) = foldcase c flags"
  by (simp add: foldcase_def)

lemma escaped_no_period [simp]: "escaped (flags AND NOT FNM_PERIOD) c xs = escaped flags c xs"
  by (simp add: escaped_def split: list.split)

lemma upper_no_period [simp]: "upper (flags AND NOT FNM_PERIOD) xs = upper flags xs"
  by (simp add: upper_def split: list.split)

lemma set_items_no_period [simp]: "set_items (flags AND NOT FNM_PERIOD) need xs = set_items flags need xs"
  by (induction flags need xs rule: set_items.induct) (auto split: option.splits)

lemma elems_no_period [simp]: "elems (flags AND NOT FNM_PERIOD) xs = elems flags xs"
  by (induction flags xs rule: elems.induct) (auto simp: Let_def split: set_result.splits list.splits)

lemma after_star_no_period [simp]: "after_star (flags AND NOT FNM_PERIOD) ts = flags AND NOT FNM_PERIOD"
  by (simp add: after_star_def)

section \<open>Bracket expressions\<close>

lemma cstr_suffix: "suffix rest bs \<Longrightarrow> cstr m p bs \<Longrightarrow> cstr m (p + length bs - length rest) rest"
  using cstr_drop [of m p bs "length bs - length rest"] by (auto simp: suffix_def)

lemma unescape_end: "cstr pat p xs \<Longrightarrow> escaped flags c xs = None \<Longrightarrow> unescape pat c p flags = Some (0, p + 1)"
  by (auto simp: escaped_def unescape_def split: if_splits list.splits)

lemma unescape_cstr:
  assumes "cstr pat p xs" "c \<noteq> 0" "escaped flags c xs = Some (c', ys)"
  obtains q where "unescape pat c p flags = Some (c', q)" "cstr pat q ys" "q + length ys = p + length xs" "c' \<noteq> 0"
  using assms by (auto simp: escaped_def unescape_def split: if_splits list.splits)

lemma range_end_cstr: "cstr pat p xs \<Longrightarrow> range_end pat p flags = Some (map_option fst (upper flags xs))"
  by (auto simp: upper_def range_end_def split: if_splits list.splits)

lemma upper_cstr: "cstr pat p xs \<Longrightarrow> upper flags xs = Some (c, ys) \<Longrightarrow> c \<noteq> 0 \<and> length xs = length ys + 2 \<and> cstr pat (p + 2) ys"
  by (auto simp: upper_def split: if_splits list.splits)

definition range_outcome :: "int \<Rightarrow> bool \<Rightarrow> bool \<Rightarrow> nat \<Rightarrow> set_result \<Rightarrow> range_result" where
  "range_outcome test negate ok e r = (case r of Never \<Rightarrow> No_match | Has_slash \<Rightarrow> Slash
     | Items is rest \<Rightarrow> if (ok \<or> list_ex (\<lambda>(lo, hi). lo \<le> test \<and> test \<le> hi) is) = negate then No_match else At (e - length rest))"

lemma range_outcome_simps [simp]:
  "range_outcome test negate ok e Never = No_match"
  "range_outcome test negate ok e Has_slash = Slash"
  "range_outcome test negate ok e (Items [] rest) = (if ok = negate then No_match else At (e - length rest))"
  "range_outcome test negate ok e (add_item (lo, hi) r) = range_outcome test negate (ok \<or> lo \<le> test \<and> test \<le> hi) e r"
  by (cases r; simp add: range_outcome_def disj_assoc)+

lemma range_loop_cstr:
  "cstr pat p xs \<Longrightarrow>
   range_loop pat p test flags negate need ok = Some (range_outcome test negate ok (p + length xs) (set_items flags need xs))"
proof (induction flags need xs arbitrary: p ok rule: set_items.induct)
  case (1 flags need)
  then show ?case by (simp add: range_loop.simps [of pat p] unescape_def)
next
  case (2 flags need x xs)
  have x: "ld pat p = Some x" "x \<noteq> 0" and xs: "cstr pat (Suc p) xs" using "2.prems" by auto
  note step = range_loop.simps [of pat p test flags negate need ok, unfolded Let_def]
  show ?case
  proof (cases "x = 0x5d \<and> \<not> need \<or> x = 0x2f")
    case True
    then show ?thesis using x by (auto simp: step)
  next
    case False
    show ?thesis
    proof (cases "escaped flags (foldcase x flags) xs")
      case None
      then show ?thesis using False x unescape_end [OF xs] by (auto simp: step)
    next
      case (Some u)
      then obtain c ys where c: "escaped flags (foldcase x flags) xs = Some (c, ys)" by (cases u) auto
      then obtain q where q: "unescape pat (foldcase x flags) (Suc p) flags = Some (c, q)" "c \<noteq> 0" "cstr pat q ys" "q + length ys = p + length (x # xs)"
        using unescape_cstr [OF xs _ c] x by auto
      note q = q range_end_cstr [OF q(3), of flags]
      show ?thesis
      proof (cases "upper flags ys")
        case None
        have one: "sint c \<le> test \<and> test \<le> sint c \<longleftrightarrow> sint c = test" by auto
        have "range_loop pat q test flags negate False (ok \<or> sint c = test) =
            Some (range_outcome test negate (ok \<or> sint c = test) (p + length (x # xs)) (set_items flags False ys))"
          using "2.IH"(1) [OF _ _ c refl None q(3)] False q(4) by auto
        then show ?thesis using False x c q None by (auto simp: step one)
      next
        case (Some v)
        then obtain c2 zs where v: "upper flags ys = Some (c2, zs)" by (cases v) auto
        note w = upper_cstr [OF q(3) v]
        show ?thesis
        proof (cases "escaped flags c2 zs")
          case None
          then show ?thesis using False x c q v w unescape_end [OF _ None, of pat "q + 2"] by (auto simp: step)
        next
          case (Some e)
          then obtain d ws where d: "escaped flags c2 zs = Some (d, ws)" by (cases e) auto
          then obtain r where r: "unescape pat c2 (q + 2) flags = Some (d, r)" "d \<noteq> 0" "cstr pat r ws" "r + length ws = p + length (x # xs)"
            using unescape_cstr [OF _ _ d, of pat "q + 2"] w q(4) by auto
          have "range_loop pat r test flags negate False (ok \<or> sint c \<le> test \<and> test \<le> sint d) =
              Some (range_outcome test negate (ok \<or> sint c \<le> test \<and> test \<le> sint d) (p + length (x # xs)) (set_items flags False ws))"
            using "2.IH"(2) [OF _ _ c refl v refl d refl r(3)] False r(4) by auto
          then show ?thesis using False x c q v d r w by (auto simp: step)
        qed
      qed
    qed
  qed
qed

lemma rangematch_cstr:
  assumes "cstr pat p xs"
  shows "rangematch pat p test flags =
    Some (range_outcome test (negated xs) False (p + length xs) (set_items flags True (if negated xs then tl xs else xs)))"
proof (cases "negated xs")
  case True
  then show ?thesis using assms by (cases xs) (auto simp: rangematch_def Let_def range_loop_cstr)
next
  case False
  then show ?thesis using assms range_loop_cstr [OF assms] by (cases xs) (auto simp: rangematch_def Let_def)
qed

section \<open>Asterisks\<close>

lemma skip_stars_cstr:
  "cstr pat p xs \<Longrightarrow> skip_stars pat p flags = Some (case dropWhile (\<lambda>x. x = 0x2a) xs of [] \<Rightarrow> 0 | x # _ \<Rightarrow> foldcase x flags,
     p + length (takeWhile (\<lambda>x. x = 0x2a) xs))"
  by (induction pat p xs rule: cstr.induct) (auto simp: skip_stars.simps)

lemma cstr_dropWhile: "cstr pat p xs \<Longrightarrow> cstr pat (p + length (takeWhile P xs)) (dropWhile P xs)"
  using cstr_drop [of pat p xs "length (takeWhile P xs)"] by (simp add: dropWhile_eq_drop length_takeWhile_le)

text \<open>The loop finds a place where \<open>f\<close> matches, before the end and not beyond a slash.\<close>

lemma star_loop_cstr:
  assumes "cstr str s sbs" "\<And>k. k < length sbs \<Longrightarrow> f (s + k) = Some (if P (drop k sbs) then 0 else FNM_NOMATCH)" "\<not> P []"
  shows "star_loop f str s flags = Some (if \<exists>k \<le> length sbs. (flag flags FNM_PATHNAME \<longrightarrow> 0x2f \<notin> set (take k sbs)) \<and> P (drop k sbs)
    then 0 else FNM_NOMATCH)"
  using assms
proof (induction str s sbs rule: cstr.induct)
  case (1 str s)
  then show ?case by (auto simp: star_loop.simps)
next
  case (2 str s b bs)
  have b: "ld str s = Some b" "b \<noteq> 0" using "2.prems"(1) by auto
  have f0: "f s = Some (if P (b # bs) then 0 else FNM_NOMATCH)" using "2.prems"(2) [of 0] by simp
  have "f (Suc s + k) = Some (if P (drop k bs) then 0 else FNM_NOMATCH)" if "k < length bs" for k
    using "2.prems"(2) [of "Suc k"] that by simp
  then have IH: "star_loop f str (Suc s) flags = Some (if \<exists>k \<le> length bs. (flag flags FNM_PATHNAME \<longrightarrow> 0x2f \<notin> set (take k bs)) \<and> P (drop k bs)
    then 0 else FNM_NOMATCH)" using "2.IH" "2.prems" by simp
  have split: "(\<exists>k \<le> length (b # bs). (flag flags FNM_PATHNAME \<longrightarrow> 0x2f \<notin> set (take k (b # bs))) \<and> P (drop k (b # bs))) \<longleftrightarrow>
      P (b # bs) \<or> \<not> (b = 0x2f \<and> flag flags FNM_PATHNAME) \<and> (\<exists>k \<le> length bs. (flag flags FNM_PATHNAME \<longrightarrow> 0x2f \<notin> set (take k bs)) \<and> P (drop k bs))"
    (is "?L \<longleftrightarrow> ?R")
  proof
    assume ?L
    then obtain k where k: "k \<le> Suc (length bs)" "flag flags FNM_PATHNAME \<longrightarrow> 0x2f \<notin> set (take k (b # bs))" "P (drop k (b # bs))" by auto
    then show ?R by (cases k) auto
  next
    assume R: ?R
    show ?L
    proof (cases "P (b # bs)")
      case True
      then show ?thesis by (intro exI [of _ 0]) simp
    next
      case False
      with R obtain k where "\<not> (b = 0x2f \<and> flag flags FNM_PATHNAME)" "k \<le> length bs" "flag flags FNM_PATHNAME \<longrightarrow> 0x2f \<notin> set (take k bs)" "P (drop k bs)"
        by blast
      then show ?thesis by (intro exI [of _ "Suc k"]) auto
    qed
  qed
  show ?case unfolding split using b f0 IH by (auto simp: star_loop.simps [of f str s] FNM_NOMATCH_def)
qed

section \<open>Facts of the reference\<close>

abbreviation verdict :: "bool \<Rightarrow> int option" where "verdict b \<equiv> Some (if b then 0 else FNM_NOMATCH)"

abbreviation hidden :: "u32 \<Rightarrow> bool \<Rightarrow> byte list \<Rightarrow> bool" where
  "hidden flags lead ss \<equiv> ss \<noteq> [] \<and> hd ss = 0x2e \<and> flag flags FNM_PERIOD \<and> lead"

lemma uint_slash: "uint (foldcase b flags) = 0x2f \<longleftrightarrow> b = 0x2f"
proof -
  have "uint (foldcase b flags) = 0x2f \<longleftrightarrow> foldcase b flags = 0x2f" unfolding word_uint_eq_iff by simp
  then show ?thesis by simp
qed

lemma sint_zero [simp]: "sint c = 0 \<longleftrightarrow> c = 0" for c :: byte
  by (metis signed_eq_0_iff)

lemma glob_lead: "flags AND FNM_PERIOD = 0 \<Longrightarrow> glob ts flags lead ss = glob ts flags lead' ss"
  by (cases ts; cases "hd ts") auto

lemma glob_empty: "ts \<noteq> [] \<Longrightarrow> hd ts \<noteq> TStar \<Longrightarrow> \<not> glob ts flags lead []"
  by (cases ts) auto

lemma glob_star_end:
  "glob [TStar] flags lead ss \<longleftrightarrow> \<not> hidden flags lead ss \<and> (flag flags FNM_PATHNAME \<longrightarrow> flag flags FNM_LEADING_DIR \<or> 0x2f \<notin> set ss)"
  (is "?L \<longleftrightarrow> \<not> ?h \<and> ?R")
proof -
  have "(\<exists>k \<in> {..length ss}. (flag flags FNM_PATHNAME \<longrightarrow> 0x2f \<notin> set (take k ss)) \<and> glob [] (after_star flags []) False (drop k ss)) \<longleftrightarrow> ?R"
    (is "?E \<longleftrightarrow> ?R")
  proof
    assume ?E
    then show ?R by (auto simp: after_star_def)
  next
    assume R: ?R
    show ?E
    proof (cases "flag flags FNM_PATHNAME \<and> 0x2f \<in> set ss")
      case True
      let ?k = "length (takeWhile (\<lambda>b. b \<noteq> 0x2f) ss)"
      have "take ?k ss = takeWhile (\<lambda>b. b \<noteq> 0x2f) ss" "drop ?k ss = dropWhile (\<lambda>b. b \<noteq> 0x2f) ss"
        by (simp_all add: takeWhile_eq_take [symmetric] dropWhile_eq_drop [symmetric])
      moreover have "hd (dropWhile (\<lambda>b. b \<noteq> 0x2f) ss) = 0x2f" using True hd_dropWhile [of "\<lambda>b. b \<noteq> 0x2f" ss] by (auto simp: dropWhile_eq_Nil_conv)
      ultimately show ?thesis using R True by (intro bexI [of _ ?k]) (auto simp: after_star_def length_takeWhile_le dest: set_takeWhileD)
    next
      case False
      then show ?thesis by (intro bexI [of _ "length ss"]) auto
    qed
  qed
  then show ?thesis by simp
qed

lemma glob_slash: "glob (TLit 0x2f # ts) flags lead ss \<longleftrightarrow> ss \<noteq> [] \<and> hd ss = 0x2f \<and> glob ts flags (flag flags FNM_PATHNAME) (tl ss)"
  by (auto simp: uint_slash)

lemma glob_star_slash:
  assumes "flag flags FNM_PATHNAME"
  shows "glob (TStar # TLit 0x2f # ts) flags lead ss \<longleftrightarrow>
    \<not> hidden flags lead ss \<and> 0x2f \<in> set ss \<and> glob (TLit 0x2f # ts) flags lead' (dropWhile (\<lambda>b. b \<noteq> 0x2f) ss)"
proof -
  have "(\<exists>k \<le> length ss. 0x2f \<notin> set (take k ss) \<and> glob (TLit 0x2f # ts) flags False (drop k ss)) \<longleftrightarrow>
      0x2f \<in> set ss \<and> glob (TLit 0x2f # ts) flags lead' (dropWhile (\<lambda>b. b \<noteq> 0x2f) ss)" (is "?E \<longleftrightarrow> ?R")
  proof
    assume ?E
    then obtain k where k: "0x2f \<notin> set (take k ss)" "drop k ss \<noteq> []" "hd (drop k ss) = 0x2f" "glob ts flags (flag flags FNM_PATHNAME) (tl (drop k ss))"
      unfolding glob_slash by blast
    have "dropWhile (\<lambda>b. b \<noteq> 0x2f) (take k ss @ drop k ss) = drop k ss"
      using k(1-3) by (subst dropWhile_append2) (auto, cases "drop k ss", auto)
    moreover have "0x2f \<in> set ss" using k(2,3) by (metis hd_in_set in_set_dropD)
    ultimately show ?R using k unfolding glob_slash by simp
  next
    assume R: ?R
    let ?k = "length (takeWhile (\<lambda>b. b \<noteq> 0x2f) ss)"
    have "take ?k ss = takeWhile (\<lambda>b. b \<noteq> 0x2f) ss" "drop ?k ss = dropWhile (\<lambda>b. b \<noteq> 0x2f) ss"
      by (simp_all add: takeWhile_eq_take [symmetric] dropWhile_eq_drop [symmetric])
    then show ?E using R unfolding glob_slash by (intro exI [of _ ?k]) (auto simp: length_takeWhile_le dest: set_takeWhileD)
  qed
  then show ?thesis using assms by (auto simp: after_star_def Bex_def)
qed

section \<open>The main loop\<close>

text \<open>A period at \<open>s\<close> is a leading one.\<close>

definition leading :: "mem \<Rightarrow> nat \<Rightarrow> nat \<Rightarrow> u32 \<Rightarrow> bool" where
  "leading str s start flags \<longleftrightarrow> s = start \<or> flag flags FNM_PATHNAME \<and> str ! (s - 1) = 0x2f"

lemma leading_Suc: "cstr str s (y # ss) \<Longrightarrow> start \<le> s \<Longrightarrow> leading str (Suc s) start flags \<longleftrightarrow> flag flags FNM_PATHNAME \<and> y = 0x2f"
  by (auto simp: leading_def)

lemma protected_cstr:
  "cstr str s ss \<Longrightarrow> start \<le> s \<Longrightarrow> protected str s start flags = Some (hidden flags (leading str s start flags) ss)"
  by (cases ss) (auto simp: protected_def leading_def)

lemma cstr_head: "cstr m p bs \<Longrightarrow> ld m p = Some (case bs of [] \<Rightarrow> 0 | b # _ \<Rightarrow> b)"
  by (cases bs) auto

lemma elems_hd:
  assumes "x \<noteq> 0x2a"
  shows "elems flags (x # xs) \<noteq> []" "hd (elems flags (x # xs)) \<noteq> TStar"
  using assms by (auto simp: Let_def split: set_result.splits list.splits)

lemma elems_hd_slash: "hd (elems flags (x # xs)) = TLit 0x2f \<longleftrightarrow> x = 0x2f"
  by (auto simp: Let_def split: set_result.splits list.splits)

text \<open>The recursive calls are right for patterns with fewer than \<open>n\<close> asterisks.\<close>

definition calls_ok :: "(nat \<Rightarrow> nat \<Rightarrow> int option) \<Rightarrow> nat \<Rightarrow> mem \<Rightarrow> mem \<Rightarrow> u32 \<Rightarrow> bool" where
  "calls_ok f n pat str flags \<longleftrightarrow> (\<forall>p xs s ss. cstr pat p xs \<longrightarrow> cstr str s ss \<longrightarrow> TBad \<notin> set (elems flags xs) \<longrightarrow>
     count_list (elems flags xs) TStar < n \<longrightarrow> f p s = verdict (glob (elems flags xs) (flags AND NOT FNM_PERIOD) True ss))"

text \<open>One round at an asterisk, given what the loop does after it.\<close>

lemma fnm_loop_star:
  assumes f: "calls_ok f n pat str flags"
    and pat: "cstr pat p (0x2a # xs)" and str: "cstr str s ss" and start: "start \<le> s"
    and ok: "TBad \<notin> set (elems flags (0x2a # xs))" "count_list (elems flags (0x2a # xs)) TStar \<le> n"
    and IH: "\<And>p s ss. cstr pat p (dropWhile (\<lambda>x. x = 0x2a) xs) \<Longrightarrow> cstr str s ss \<Longrightarrow> start \<le> s \<Longrightarrow>
      fnm_loop f pat p str s start flags = verdict (glob (elems flags (dropWhile (\<lambda>x. x = 0x2a) xs)) flags (leading str s start flags) ss)"
  shows "fnm_loop f pat p str s start flags = verdict (glob (elems flags (0x2a # xs)) flags (leading str s start flags) ss)"
proof -
  define ys where "ys = dropWhile (\<lambda>x. x = 0x2a) xs"
  define q where "q = Suc p + length (takeWhile (\<lambda>x. x = 0x2a) xs)"
  have el: "elems flags (0x2a # xs) = TStar # elems flags ys" by (simp add: ys_def Let_def)
  have p: "ld pat p = Some 0x2a" and q: "cstr pat q ys" "skip_stars pat (Suc p) flags = Some (case ys of [] \<Rightarrow> 0 | x # _ \<Rightarrow> foldcase x flags, q)"
    using pat cstr_dropWhile [of pat "Suc p" xs "\<lambda>x. x = 0x2a"] by (auto simp: ys_def q_def skip_stars_cstr)
  note step = fnm_loop.simps [of f pat p str s start flags, unfolded Let_def] p q(2) protected_cstr [OF str start]
  let ?l = "leading str s start flags"
  show ?thesis
  proof (cases ys)
    case Nil
    then show ?thesis unfolding el using strchr_cstr [OF str, of "0x2f"] by (auto simp: step glob_star_end simp del: glob.simps)
  next
    case (Cons y zs)
    then have y: "y \<noteq> 0" "y \<noteq> 0x2a" using q(1) hd_dropWhile [of "\<lambda>x. x = 0x2a" xs] by (auto simp: ys_def)
    show ?thesis
    proof (cases "y = 0x2f \<and> flag flags FNM_PATHNAME")
      case True
      let ?t = "s + length (takeWhile (\<lambda>b. b \<noteq> 0x2f) ss)"
      have ts: "elems flags ys = TLit 0x2f # elems flags zs" using True Cons by (simp add: Let_def)
      have "fnm_loop f pat q str ?t start flags = verdict (glob (elems flags ys) flags (leading str ?t start flags) (dropWhile (\<lambda>b. b \<noteq> 0x2f) ss))"
        using IH [OF q(1) [unfolded ys_def] cstr_dropWhile [OF str]] start by (simp add: ys_def)
      then show ?thesis unfolding el ts using True Cons strchr_cstr [OF str, of "0x2f"]
        glob_star_slash [of flags "elems flags zs" ?l ss "leading str ?t start flags"] by (auto simp: step simp del: glob.simps)
    next
      case False
      let ?P = "glob (elems flags ys) (flags AND NOT FNM_PERIOD) True"
      have "f q (s + k) = verdict (?P (drop k ss))" if "k < length ss" for k
        using f q(1) cstr_drop [OF str, of k] that ok unfolding calls_ok_def el by simp
      moreover have "\<not> ?P []" using glob_empty elems_hd [OF y(2)] Cons by simp
      ultimately have "star_loop (f q) str s flags =
          verdict (\<exists>k \<le> length ss. (flag flags FNM_PATHNAME \<longrightarrow> 0x2f \<notin> set (take k ss)) \<and> ?P (drop k ss))" by (rule star_loop_cstr [OF str])
      moreover have "after_star flags (elems flags ys) = flags AND NOT FNM_PERIOD" using False Cons elems_hd_slash [of flags y zs] by (auto simp: after_star_def)
      ultimately show ?thesis unfolding el using False Cons y glob_lead [where flags = "flags AND NOT FNM_PERIOD" and lead = True and lead' = False]
        by (auto simp: step Bex_def)
    qed
  qed
qed


text \<open>The bracket case, given what the loop does after it.\<close>

lemma fnm_loop_bracket:
  assumes pat: "cstr pat p (0x5b # xs)" and str: "cstr str s ss" and start: "start \<le> s"
    and IH: "\<And>p ys s ss. cstr pat p ys \<Longrightarrow> length ys \<le> length xs \<Longrightarrow> cstr str s ss \<Longrightarrow> start \<le> s \<Longrightarrow> set (elems flags ys) \<subseteq> set (elems flags (0x5b # xs)) \<Longrightarrow>
      count_list (elems flags ys) TStar \<le> count_list (elems flags (0x5b # xs)) TStar \<Longrightarrow>
      fnm_loop f pat p str s start flags = verdict (glob (elems flags ys) flags (leading str s start flags) ss)"
  shows "fnm_loop f pat p str s start flags = verdict (glob (elems flags (0x5b # xs)) flags (leading str s start flags) ss)"
proof (cases ss)
  case Nil
  have "elems flags (0x5b # xs) \<noteq> []" "hd (elems flags (0x5b # xs)) \<noteq> TStar" by (simp_all add: elems_hd del: elems.simps)
  then show ?thesis using Nil pat str glob_empty by (simp add: fnm_loop.simps [of f pat p] del: elems.simps)
next
  case (Cons y ss')
  let ?r = "set_items flags True (if negated xs then tl xs else xs)"
  have x: "ld pat p = Some 0x5b" "cstr pat (Suc p) xs" and y: "ld str s = Some y" "y \<noteq> 0" "cstr str (Suc s) ss'" using pat str Cons by auto
  note lead = leading_Suc [OF str [unfolded Cons] start]
  note step = fnm_loop.simps [of f pat p str s start flags, unfolded Let_def] x(1) y(1,2) rangematch_cstr [OF x(2)]
  show ?thesis
  proof (cases ?r)
    case Never
    then show ?thesis using Cons by (simp add: step Let_def)
  next
    case Has_slash
    have "fnm_loop f pat (Suc p) str (Suc s) start flags = verdict (glob (elems flags xs) flags (leading str (Suc s) start flags) ss')"
      using Has_slash by (intro IH x(2) y(3)) (use start in auto)
    then show ?thesis using Cons Has_slash lead by (auto simp: step Let_def)
  next
    case (Items "is" rest)
    have suf: "suffix rest xs" using set_items_suffix [OF Items] by (cases xs) (auto simp: strict_suffix_def suffix_Cons split: if_splits)
    let ?q = "Suc p + length xs - length rest"
    have "fnm_loop f pat ?q str (Suc s) start flags = verdict (glob (elems flags rest) flags (leading str (Suc s) start flags) ss')"
      using Items by (intro IH y(3) cstr_suffix [OF suf x(2)] suffix_length_le [OF suf]) (use start in auto)
    then show ?thesis using Cons Items lead by (auto simp: step Let_def range_outcome_def)
  qed
qed

lemma fnm_loop_correct:
  assumes f: "calls_ok f n pat str flags"
    and "cstr pat p xs" "cstr str s ss" "start \<le> s" "TBad \<notin> set (elems flags xs)" "count_list (elems flags xs) TStar \<le> n"
  shows "fnm_loop f pat p str s start flags = verdict (glob (elems flags xs) flags (leading str s start flags) ss)"
  using assms(2-)
proof (induction "length xs" arbitrary: p xs s ss rule: less_induct)
  case less
  note str = less.prems(2) and start = less.prems(3)
  show ?case
  proof (cases xs)
    case Nil
    then show ?thesis using less.prems by (auto simp: fnm_loop.simps [of f pat p] cstr_head split: list.splits)
  next
    case (Cons x xs')
    have x: "ld pat p = Some x" "x \<noteq> 0" "cstr pat (Suc p) xs'" using less.prems(1) Cons by auto
    note step = fnm_loop.simps [of f pat p str s start flags, unfolded Let_def] x(1,2) cstr_head [OF str]
    note next_byte = leading_Suc [OF _ start, of str]
    consider "x = 0x2a" | "x = 0x5b" | "x = 0x3f" | "x = 0x5c" "\<not> flag flags FNM_NOESCAPE" | "x \<notin> {0x2a, 0x5b, 0x3f}" "x = 0x5c \<longrightarrow> flag flags FNM_NOESCAPE"
      by blast
    then show ?thesis
    proof cases
      case 1
      show ?thesis unfolding Cons 1
        by (rule fnm_loop_star [OF f]) (use less Cons 1 in \<open>auto simp: Let_def le_imp_less_Suc length_dropWhile_le intro!: less.hyps\<close>)
    next
      case 2
      show ?thesis unfolding Cons 2
      proof (rule fnm_loop_bracket)
        fix p ys s ss
        assume "cstr pat p ys" "length ys \<le> length xs'" "cstr str s ss" "start \<le> s" "set (elems flags ys) \<subseteq> set (elems flags (0x5b # xs'))"
          "count_list (elems flags ys) TStar \<le> count_list (elems flags (0x5b # xs')) TStar"
        then show "fnm_loop f pat p str s start flags = verdict (glob (elems flags ys) flags (leading str s start flags) ss)"
          by (intro less.hyps) (use less.prems(4,5) Cons 2 in \<open>auto simp del: elems.simps\<close>)
      qed (use less.prems Cons 2 in auto)
    next
      case 3
      have el: "elems flags xs = TAny # elems flags xs'" using Cons 3 by (simp add: Let_def)
      show ?thesis
      proof (cases ss)
        case (Cons y ss')
        have "fnm_loop f pat (Suc p) str (Suc s) start flags = verdict (glob (elems flags xs') flags (leading str (Suc s) start flags) ss')"
          using less.hyps [of xs' "Suc p" "Suc s" ss'] less.prems el x \<open>xs = x # xs'\<close> Cons by simp
        then show ?thesis using Cons 3 el str next_byte protected_cstr [OF str start] by (auto simp: step)
      qed (use 3 el in \<open>auto simp: step\<close>)
    next
      case 4
      then obtain z zs where z: "xs' = z # zs" using less.prems Cons by (cases xs') (auto simp: Let_def)
      have el: "elems flags xs = TEsc (foldcase z flags) # elems flags zs" using Cons 4 z by (simp add: Let_def)
      have "ld pat (Suc p) = Some z" "z \<noteq> 0" "cstr pat (Suc (Suc p)) zs" using x(3) z by auto
      note step = step this(1,2)
      show ?thesis
      proof (cases ss)
        case (Cons y ss')
        have "fnm_loop f pat (Suc (Suc p)) str (Suc s) start flags = verdict (glob (elems flags zs) flags (leading str (Suc s) start flags) ss')"
          using less.hyps [of zs "Suc (Suc p)" "Suc s" ss'] less.prems el x z \<open>xs = x # xs'\<close> Cons by simp
        then show ?thesis using Cons 4 el str next_byte by (auto simp: step)
      qed (use 4 el in \<open>auto simp: step\<close>)
    next
      case 5
      have el: "elems flags xs = TLit (foldcase x flags) # elems flags xs'" using Cons 5 by (auto simp: Let_def)
      show ?thesis
      proof (cases ss)
        case (Cons y ss')
        have "fnm_loop f pat (Suc p) str (Suc s) start flags = verdict (glob (elems flags xs') flags (leading str (Suc s) start flags) ss')"
          using less.hyps [of xs' "Suc p" "Suc s" ss'] less.prems el x \<open>xs = x # xs'\<close> Cons by simp
        then show ?thesis using Cons 5 el str next_byte by (auto simp: step)
      qed (use 5 el in \<open>auto simp: step\<close>)
    qed
  qed
qed


lemma fnmatchx_correct:
  "cstr pat p xs \<Longrightarrow> cstr str s ss \<Longrightarrow> TBad \<notin> set (elems flags xs) \<Longrightarrow> count_list (elems flags xs) TStar < n \<Longrightarrow>
   fnmatchx n pat p str s flags = verdict (glob (elems flags xs) flags True ss)"
proof (induction n arbitrary: p xs s ss flags)
  case (Suc n)
  have "calls_ok (\<lambda>p' s'. fnmatchx n pat p' str s' (flags AND NOT FNM_PERIOD)) n pat str flags"
    unfolding calls_ok_def using Suc.IH [where flags = "flags AND NOT FNM_PERIOD"] by simp
  from fnm_loop_correct [OF this Suc.prems(1,2), of s] show ?case using Suc.prems by (simp add: leading_def)
qed simp

text \<open>What the code matches, with its peculiarities.\<close>

theorem fnmatch_decides:
  assumes "cstr pat p xs" "cstr str s ss" "TBad \<notin> set (elems flags xs)" "count_list (elems flags xs) TStar < 64"
  shows "fnmatch pat p str s flags = Some (if glob (elems flags xs) flags True ss then 0 else FNM_NOMATCH)"
  unfolding fnmatch_def by (rule fnmatchx_correct [OF assms])

section \<open>The documented language\<close>

text \<open>
  The language that \<^verbatim>\<open>fnmatch.3\<close> describes: a byte of the pattern matches the same byte, and with \<^verbatim>\<open>FNM_PERIOD\<close> a leading period is matched by a literal period only, wherever it is.
\<close>

definition admits :: "u32 \<Rightarrow> bool \<Rightarrow> (int \<times> int) list \<Rightarrow> byte \<Rightarrow> bool" where
  "admits flags neg is b \<longleftrightarrow> list_ex (\<lambda>(lo, hi). lo \<le> uint (foldcase b flags) \<and> uint (foldcase b flags) \<le> hi) is \<noteq> neg"











lemma admits_no_period [simp]: "admits (flags AND NOT FNM_PERIOD) neg is b = admits flags neg is b"
  by (simp add: admits_def)





lemmas fnmatch_flags = FNM_NOMATCH_def FNM_NOESCAPE_def FNM_PATHNAME_def FNM_PERIOD_def FNM_CASEFOLD_def FNM_LEADING_DIR_def


lemma fnmatch_step: "fnmatch pat p str s flags = fnm_loop (\<lambda>p' s'. fnmatchx 63 pat p' str s' (flags AND NOT FNM_PERIOD)) pat p str s s flags"
proof -
  have "(64 :: nat) = Suc 63" by simp
  then show ?thesis unfolding fnmatch_def by (simp only: fnmatchx.simps)
qed

text \<open>A lone backslash at the end of the pattern matches the end of the string, and the next round reads past it.\<close>

theorem fnmatch_backslash_overrun: "fnmatch [0x5c, 0] 0 [0] 0 0 = None"
  by (simp add: fnmatch_step fnm_loop.simps ld_def fnmatch_flags)

text \<open>A byte from 0x80 on does not match itself: it is compared as a negative \<^verbatim>\<open>char\<close> with a number from 0 to 255.\<close>

theorem fnmatch_high_byte: "fnmatch [0xe9, 0] 0 [0xe9, 0] 0 0 = Some FNM_NOMATCH"
  by (subst fnmatch_step, subst fnm_loop.simps) (simp add: ld_def foldcase_def fnmatch_flags)

text \<open>A bracket expression matches a leading period, and after an asterisk a question mark matches a period that follows a slash (the pattern \<^verbatim>\<open>*x/?\<close>).\<close>

theorem fnmatch_bracket_period: "fnmatch [0x5b, 0x2e, 0x5d, 0] 0 [0x2e, 0] 0 FNM_PERIOD = Some 0"
proof -
  have el: "elems FNM_PERIOD [0x5b, 0x2e, 0x5d] = [TSet False [(0x2e, 0x2e)]]" by (simp add: escaped_def upper_def foldcase_def fnmatch_flags)
  have "glob [TSet False [(0x2e, 0x2e)]] FNM_PERIOD True [0x2e]" by (simp add: foldcase_def fnmatch_flags)
  then show ?thesis using fnmatch_decides [of "[0x5b, 0x2e, 0x5d, 0]" 0 "[0x5b, 0x2e, 0x5d]" "[0x2e, 0]" 0 "[0x2e]" FNM_PERIOD] el
    by (simp del: elems.simps glob.simps)
qed

theorem fnmatch_star_period: "fnmatch [0x2a, 0x78, 0x2f, 0x3f, 0] 0 [0x78, 0x2f, 0x2e, 0] 0 (FNM_PERIOD OR FNM_PATHNAME) = Some 0"
proof -
  have el: "elems (FNM_PERIOD OR FNM_PATHNAME) [0x2a, 0x78, 0x2f, 0x3f] = [TStar, TLit 0x78, TLit 0x2f, TAny]"
    by (simp add: foldcase_def fnmatch_flags)
  have "glob [TStar, TLit 0x78, TLit 0x2f, TAny] (FNM_PERIOD OR FNM_PATHNAME) True [0x78, 0x2f, 0x2e]"
    by (auto simp: after_star_def foldcase_def fnmatch_flags intro!: bexI [of _ 0])
  then show ?thesis using fnmatch_decides [of "[0x2a, 0x78, 0x2f, 0x3f, 0]" 0 "[0x2a, 0x78, 0x2f, 0x3f]" "[0x78, 0x2f, 0x2e, 0]" 0 "[0x78, 0x2f, 0x2e]"
      "FNM_PERIOD OR FNM_PATHNAME"] el by (simp del: elems.simps glob.simps)
qed

end
