(* ===== verification/Cnumber.thy ===== *)
theory Cnumber
  imports Prelude "HOL-Library.Signed_Division"
begin

text \<open>
  Strings to integers: the templates \<^verbatim>\<open>_strtol.h\<close>, \<^verbatim>\<open>_strtoul.h\<close> and \<^verbatim>\<open>_strtoi.h\<close> of
  \<^verbatim>\<open>src/libc/common/lib/libc/stdlib\<close> and \<^verbatim>\<open>src/libc/stdlib/strtonum.c\<close>.  The template's integer type is the
  width \<open>w\<close> of its instance; signed arithmetic that leaves the type is undefined in C and is \<open>None\<close> here,
  unsigned arithmetic is reduced modulo \<open>2 ^ w\<close>.  \<open>errno\<close> is a value that is passed in and returned
  (\<open>None\<close> is 0), and the pointer stored through \<open>endptr\<close> is part of the result.  The locale's
  \<^verbatim>\<open>isspace_l\<close> is a parameter \<open>sp\<close>.
\<close>

section \<open>The program\<close>

datatype errno = EINVAL | ERANGE | ECANCELED | ENOTSUP

record strto =
  acc :: int
  any :: int
  errno :: "errno option"

definition INT_MIN :: "nat \<Rightarrow> int" where "INT_MIN w = - (2 ^ (w - 1))"
definition INT_MAX :: "nat \<Rightarrow> int" where "INT_MAX w = 2 ^ (w - 1) - 1"
definition UINT_MAX :: "nat \<Rightarrow> int" where "UINT_MAX w = 2 ^ w - 1"

text \<open>A signed result, if it is in the type.\<close>

definition signed :: "nat \<Rightarrow> int \<Rightarrow> int option" where
  "signed w x = (if INT_MIN w \<le> x \<and> x \<le> INT_MAX w then Some x else None)"

definition bad_base :: "int \<Rightarrow> bool" where
  "bad_base base \<longleftrightarrow> base \<noteq> 0 \<and> (base < 2 \<or> base > 36)"

text \<open>\<^verbatim>\<open>do c = *s++; while (isspace_l(c, loc));\<close>\<close>

function skip_space :: "(byte \<Rightarrow> bool) \<Rightarrow> mem \<Rightarrow> nat \<Rightarrow> (byte \<times> nat) option" where
  "skip_space sp m s = do { c \<leftarrow> ld m s; if sp c then skip_space sp m (s + 1) else Some (c, s + 1) }"
  by pat_completeness auto
termination
  by (relation "measure (\<lambda>(sp, m, s). length m - s)") (auto split: if_splits)

declare skip_space.simps [simp del]

definition take_sign :: "mem \<Rightarrow> byte \<times> nat \<Rightarrow> (bool \<times> byte \<times> nat) option" where
  "take_sign m = (\<lambda>(c, s).
     if c = 45 then do { c \<leftarrow> ld m s; Some (True, c, s + 1) }
     else if c = 43 then do { c \<leftarrow> ld m s; Some (False, c, s + 1) }
     else Some (False, c, s))"

definition is_xdigit :: "byte \<Rightarrow> bool" where
  "is_xdigit c \<longleftrightarrow> 48 \<le> c \<and> c \<le> 57 \<or> 97 \<le> c \<and> c \<le> 102 \<or> 65 \<le> c \<and> c \<le> 70"

definition take_prefix :: "mem \<Rightarrow> int \<Rightarrow> byte \<Rightarrow> nat \<Rightarrow> (int \<times> byte \<times> nat) option" where
  "take_prefix m base c s = do {
     hex \<leftarrow> (if (base = 0 \<or> base = 16) \<and> c = 48 then do {
         x \<leftarrow> ld m s;
         if x = 120 \<or> x = 88 then do { y \<leftarrow> ld m (s + 1); Some (is_xdigit y) } else Some False }
       else Some False);
     if hex then do { c \<leftarrow> ld m (s + 1); Some (16, c, s + 2) }
     else if base = 0 then Some (if c = 48 then 8 else 10, c, s)
     else Some (base, c, s) }"

definition digit :: "byte \<Rightarrow> int option" where
  "digit c = (if 48 \<le> c \<and> c \<le> 57 then Some (uint c - 48)
     else if 97 \<le> c \<and> c \<le> 122 then Some (uint c - 97 + 10)
     else if 65 \<le> c \<and> c \<le> 90 then Some (uint c - 65 + 10)
     else None)"

text \<open>The loop of both templates, with what it does for one digit as \<open>step\<close>.\<close>

function digit_loop :: "(int \<Rightarrow> strto \<Rightarrow> strto option) \<Rightarrow> int \<Rightarrow> mem \<Rightarrow> byte \<Rightarrow> nat \<Rightarrow> strto \<Rightarrow> (strto \<times> nat) option" where
  "digit_loop step base m c s z = (case digit c of
     None \<Rightarrow> Some (z, s)
   | Some i \<Rightarrow> if i \<ge> base then Some (z, s) else do {
       z \<leftarrow> step i z;
       c \<leftarrow> ld m s;
       digit_loop step base m c (s + 1) z })"
  by pat_completeness auto
termination
  by (relation "measure (\<lambda>(step, base, m, c, s, z). length m - s)") (auto split: if_splits)

declare digit_loop.simps [simp del]

text \<open>\<^verbatim>\<open>cutoff\<close> and \<^verbatim>\<open>cutlim\<close>; division and remainder truncate.\<close>

definition strtol_cut :: "nat \<Rightarrow> bool \<Rightarrow> int \<Rightarrow> int \<times> int" where
  "strtol_cut w neg base = (let
     cutoff = (if neg then INT_MIN w else INT_MAX w);
     cutlim = cutoff smod base;
     cutoff = cutoff sdiv base
   in if neg then let
       (cutoff, cutlim) = (if cutlim > 0 then (cutoff + 1, cutlim - base) else (cutoff, cutlim))
     in (cutoff, - cutlim)
   else (cutoff, cutlim))"

definition strtol_step :: "nat \<Rightarrow> bool \<Rightarrow> int \<Rightarrow> int \<Rightarrow> strto \<Rightarrow> strto option" where
  "strtol_step w neg base i z = (let (cutoff, cutlim) = strtol_cut w neg base in
     if any z < 0 then Some z
     else if neg then
       (if acc z < cutoff \<or> acc z = cutoff \<and> i > cutlim
        then Some (z\<lparr>acc := INT_MIN w, any := - 1, errno := Some ERANGE\<rparr>)
        else do { a \<leftarrow> signed w (acc z * base); a \<leftarrow> signed w (a - i); Some (z\<lparr>acc := a, any := 1\<rparr>) })
     else
       (if acc z > cutoff \<or> acc z = cutoff \<and> i > cutlim
        then Some (z\<lparr>acc := INT_MAX w, any := - 1, errno := Some ERANGE\<rparr>)
        else do { a \<leftarrow> signed w (acc z * base); a \<leftarrow> signed w (a + i); Some (z\<lparr>acc := a, any := 1\<rparr>) }))"

text \<open>The result: the value, the pointer stored through \<^verbatim>\<open>endptr\<close>, and \<open>errno\<close>.\<close>

definition strtol :: "nat \<Rightarrow> (byte \<Rightarrow> bool) \<Rightarrow> mem \<Rightarrow> nat \<Rightarrow> int \<Rightarrow> errno option \<Rightarrow> (int \<times> nat \<times> errno option) option" where
  "strtol w sp m nptr base er = (if bad_base base then Some (0, nptr, Some EINVAL) else do {
     cs \<leftarrow> skip_space sp m nptr;
     (neg, c, s) \<leftarrow> take_sign m cs;
     (base, c, s) \<leftarrow> take_prefix m base c s;
     (z, s) \<leftarrow> digit_loop (strtol_step w neg base) base m c s \<lparr>acc = 0, any = 0, errno = er\<rparr>;
     Some (acc z, if any z \<noteq> 0 then s - 1 else nptr, errno z) })"

definition strtoul_step :: "nat \<Rightarrow> int \<Rightarrow> int \<Rightarrow> strto \<Rightarrow> strto option" where
  "strtoul_step w base i z = (let cutoff = UINT_MAX w div base; cutlim = UINT_MAX w mod base in
     if any z < 0 then Some z
     else if acc z > cutoff \<or> acc z = cutoff \<and> i > cutlim
     then Some (z\<lparr>acc := UINT_MAX w, any := - 1, errno := Some ERANGE\<rparr>)
     else Some (z\<lparr>acc := (acc z * base mod 2 ^ w + i) mod 2 ^ w, any := 1\<rparr>))"

definition strtoul :: "nat \<Rightarrow> (byte \<Rightarrow> bool) \<Rightarrow> mem \<Rightarrow> nat \<Rightarrow> int \<Rightarrow> errno option \<Rightarrow> (int \<times> nat \<times> errno option) option" where
  "strtoul w sp m nptr base er = (if bad_base base then Some (0, nptr, Some EINVAL) else do {
     cs \<leftarrow> skip_space sp m nptr;
     (neg, c, s) \<leftarrow> take_sign m cs;
     (base, c, s) \<leftarrow> take_prefix m base c s;
     (z, s) \<leftarrow> digit_loop (strtoul_step w base) base m c s \<lparr>acc = 0, any = 0, errno = er\<rparr>;
     let a = (if neg \<and> any z > 0 then (- acc z) mod 2 ^ w else acc z);
     Some (a, if any z \<noteq> 0 then s - 1 else nptr, errno z) })"

text \<open>
  \<^verbatim>\<open>_strtoi.h\<close>, with \<^verbatim>\<open>strtoimax\<close> or \<^verbatim>\<open>strtoumax\<close> as \<open>wrapped\<close>: the value, \<^verbatim>\<open>*endptr\<close>, \<^verbatim>\<open>*rstatus\<close> and
  \<open>errno\<close>, which is saved and restored.
\<close>

definition strtoi_with ::
  "(mem \<Rightarrow> nat \<Rightarrow> int \<Rightarrow> errno option \<Rightarrow> (int \<times> nat \<times> errno option) option) \<Rightarrow>
   mem \<Rightarrow> nat \<Rightarrow> int \<Rightarrow> int \<Rightarrow> int \<Rightarrow> errno option \<Rightarrow> (int \<times> nat \<times> errno option \<times> errno option) option" where
  "strtoi_with wrapped m nptr base lo hi er = (
     if base \<noteq> 0 \<and> (base < 2 \<or> base > 36) then Some (0, nptr, Some EINVAL, er)
     else do {
       let serrno = er;
       (im, ep, er) \<leftarrow> wrapped m nptr base None;
       let rstatus = (if er \<noteq> Some EINVAL then er else None);
       let er = serrno;
       let rstatus = (if rstatus = None \<and> nptr = ep then Some ECANCELED else rstatus);
       if im < lo then Some (lo, ep, if rstatus = None then Some ERANGE else rstatus, er)
       else if im > hi then Some (hi, ep, if rstatus = None then Some ERANGE else rstatus, er)
       else if rstatus = None then do {
         c \<leftarrow> ld m ep;
         Some (im, ep, if c \<noteq> 0 then Some ENOTSUP else rstatus, er) }
       else Some (im, ep, rstatus, er) })"

definition strtoi :: "(byte \<Rightarrow> bool) \<Rightarrow> mem \<Rightarrow> nat \<Rightarrow> int \<Rightarrow> int \<Rightarrow> int \<Rightarrow> errno option \<Rightarrow> (int \<times> nat \<times> errno option \<times> errno option) option" where
  "strtoi sp = strtoi_with (strtol 64 sp)"

definition strtou :: "(byte \<Rightarrow> bool) \<Rightarrow> mem \<Rightarrow> nat \<Rightarrow> int \<Rightarrow> int \<Rightarrow> int \<Rightarrow> errno option \<Rightarrow> (int \<times> nat \<times> errno option \<times> errno option) option" where
  "strtou sp = strtoi_with (strtoul 64 sp)"

text \<open>\<^verbatim>\<open>strtonum\<close>: the value and the error string; the outer \<open>None\<close> includes the \<^verbatim>\<open>abort\<close>.\<close>

datatype errstr = Invalid | Too_large | Too_small

definition strtonum :: "(byte \<Rightarrow> bool) \<Rightarrow> mem \<Rightarrow> nat \<Rightarrow> int \<Rightarrow> int \<Rightarrow> errno option \<Rightarrow> (int \<times> errstr option) option" where
  "strtonum sp m nptr minval maxval er = (if minval > maxval then Some (0, Some Invalid) else do {
     (rv, eptr, e, _) \<leftarrow> strtoi sp m nptr 10 minval maxval er;
     case e of
       None \<Rightarrow> Some (rv, None)
     | Some ECANCELED \<Rightarrow> Some (0, Some Invalid)
     | Some ENOTSUP \<Rightarrow> Some (0, Some Invalid)
     | Some ERANGE \<Rightarrow> do {
         c \<leftarrow> ld m eptr;
         if c \<noteq> 0 then Some (0, Some Invalid)
         else Some (0, Some (if rv = maxval then Too_large else Too_small)) }
     | Some EINVAL \<Rightarrow> None })"

section \<open>Specification\<close>

text \<open>What a conversion reads: the sign, the base in force, the digits, and how many bytes come before their end.\<close>

definition valid_digit :: "int \<Rightarrow> byte \<Rightarrow> bool" where
  "valid_digit base c \<longleftrightarrow> (case digit c of None \<Rightarrow> False | Some i \<Rightarrow> i < base)"

definition number :: "int \<Rightarrow> byte list \<Rightarrow> int" where
  "number base ds = foldl (\<lambda>v c. v * base + the (digit c)) 0 ds"

fun split_sign :: "byte list \<Rightarrow> bool \<times> byte list" where
  "split_sign [] = (False, [])"
| "split_sign (c # cs) = (if c = 45 then (True, cs) else if c = 43 then (False, cs) else (False, c # cs))"

fun hex_prefix :: "byte list \<Rightarrow> bool" where
  "hex_prefix (c # x # y # cs) \<longleftrightarrow> c = 48 \<and> (x = 120 \<or> x = 88) \<and> is_xdigit y"
| "hex_prefix cs \<longleftrightarrow> False"

definition split_base :: "int \<Rightarrow> byte list \<Rightarrow> int \<times> byte list" where
  "split_base base cs = (if (base = 0 \<or> base = 16) \<and> hex_prefix cs then (16, drop 2 cs)
     else if base = 0 then (if cs \<noteq> [] \<and> hd cs = 48 then 8 else 10, cs)
     else (base, cs))"

definition subject :: "(byte \<Rightarrow> bool) \<Rightarrow> int \<Rightarrow> byte list \<Rightarrow> bool \<times> int \<times> byte list \<times> nat" where
  "subject sp base bs = (let
     (neg, cs) = split_sign (dropWhile sp bs);
     (base, cs) = split_base base cs;
     ds = takeWhile (valid_digit base) cs
   in (neg, base, ds, length bs - length cs + length ds))"

section \<open>Digits\<close>

lemma digit_bounds: "digit c = Some i \<Longrightarrow> 0 \<le> i \<and> i < 36"
  by (auto simp: digit_def word_le_def split: if_splits)

lemma valid_digit_NUL: "\<not> valid_digit base 0"
  by (simp add: valid_digit_def digit_def)

lemma number_snoc: "number base (ds @ [c]) = number base ds * base + the (digit c)"
  by (simp add: number_def)

lemma number_nonneg: "0 \<le> base \<Longrightarrow> list_all (valid_digit base) ds \<Longrightarrow> 0 \<le> number base ds"
proof (induction ds rule: rev_induct)
  case (snoc c ds)
  then show ?case by (auto simp: number_snoc valid_digit_def split: option.splits dest: digit_bounds)
qed (simp add: number_def)

text \<open>The overflow test of the templates, without overflow.\<close>

lemma cut_test:
  fixes L b i v :: int
  assumes "0 < b" "0 \<le> i" "i < b"
  shows "v > L div b \<or> v = L div b \<and> i > L mod b \<longleftrightarrow> L < v * b + i"
proof -
  have L: "L = L div b * b + L mod b" "0 \<le> L mod b" "L mod b < b" using assms by simp_all
  consider "v < L div b" | "v = L div b" | "v > L div b" by linarith
  then show ?thesis
  proof cases
    case 1
    then have "(v + 1) * b \<le> L div b * b" using assms by (intro mult_right_mono) simp_all
    then have "v * b + i < L" using L assms unfolding distrib_right by linarith
    with 1 show ?thesis by simp
  next
    case 2
    then show ?thesis using L by (metis add_less_cancel_left less_irrefl)
  next
    case 3
    then have "(L div b + 1) * b \<le> v * b" using assms by (intro mult_right_mono) simp_all
    then have "L < v * b + i" using L assms unfolding distrib_right by linarith
    with 3 show ?thesis by simp
  qed
qed

section \<open>Reading the number\<close>

text \<open>
  The accumulator of a conversion: after \<open>n\<close> digits of value \<open>v\<close> it is in the state that \<open>rel n v\<close> describes,
  and one more digit keeps it so.
\<close>

locale accumulator =
  fixes step :: "int \<Rightarrow> int \<Rightarrow> strto \<Rightarrow> strto option" and rel :: "nat \<Rightarrow> int \<Rightarrow> strto \<Rightarrow> bool"
  assumes step_ok: "2 \<le> base \<Longrightarrow> base \<le> 36 \<Longrightarrow> 0 \<le> v \<Longrightarrow> 0 \<le> i \<Longrightarrow> i < base \<Longrightarrow> rel n v z \<Longrightarrow>
    \<exists>z'. step base i z = Some z' \<and> rel (Suc n) (v * base + i) z'"
begin

lemma loop_ok:
  assumes "2 \<le> base" "base \<le> 36"
  shows "cstr m s cs \<Longrightarrow> list_all (valid_digit base) ds \<Longrightarrow> rel (length ds) (number base ds) z \<Longrightarrow>
    \<exists>z'. digit_loop (step base) base m (hd (cs @ [0])) (Suc s) z = Some (z', Suc s + length (takeWhile (valid_digit base) cs)) \<and>
      rel (length (ds @ takeWhile (valid_digit base) cs)) (number base (ds @ takeWhile (valid_digit base) cs)) z'"
proof (induction cs arbitrary: s ds z)
  case Nil
  then show ?case by (subst digit_loop.simps) (simp add: digit_def)
next
  case (Cons c cs)
  show ?case
  proof (cases "valid_digit base c")
    case False
    with Cons.prems show ?thesis
      by (subst digit_loop.simps) (auto simp: valid_digit_def split: option.splits)
  next
    case True
    then obtain i where i: "digit c = Some i" "i < base" "0 \<le> i" by (auto simp: valid_digit_def split: option.splits dest: digit_bounds)
    have "0 \<le> number base ds" using number_nonneg assms Cons.prems(2) by simp
    from step_ok [OF assms this i(3,2) Cons.prems(3)] obtain z1 where
      z1: "step base i z = Some z1" "rel (length (ds @ [c])) (number base (ds @ [c])) z1" by (auto simp: number_snoc i)
    have nx: "ld m (Suc s) = Some (hd (cs @ [0]))" using Cons.prems(1) by (cases cs) auto
    have "\<exists>z'. digit_loop (step base) base m (hd (cs @ [0])) (Suc (Suc s)) z1 = Some (z', Suc (Suc s) + length (takeWhile (valid_digit base) cs)) \<and>
      rel (length ((ds @ [c]) @ takeWhile (valid_digit base) cs)) (number base ((ds @ [c]) @ takeWhile (valid_digit base) cs)) z'"
      using Cons.prems(1,2) True z1(2) by (intro Cons.IH) simp_all
    then show ?thesis using True i z1(1) nx by (subst digit_loop.simps) simp
  qed
qed

end

text \<open>The accumulator holds the value, or the limit with \<open>any = - 1\<close> once the magnitude has passed \<open>L\<close>.\<close>

definition acc_rel :: "int \<Rightarrow> bool \<Rightarrow> errno option \<Rightarrow> nat \<Rightarrow> int \<Rightarrow> strto \<Rightarrow> bool" where
  "acc_rel L neg er n v z \<longleftrightarrow> (
     if n = 0 then v = 0 \<and> acc z = 0 \<and> any z = 0 \<and> errno z = er
     else if v \<le> L then acc z = (if neg then - v else v) \<and> any z = 1 \<and> errno z = er
     else acc z = (if neg then - L else L) \<and> any z = - 1 \<and> errno z = Some ERANGE)"

definition limit :: "nat \<Rightarrow> bool \<Rightarrow> int" where
  "limit w neg = (if neg then - INT_MIN w else INT_MAX w)"

lemma limit_nonneg: "0 \<le> limit w neg" "0 \<le> UINT_MAX w"
  by (simp_all add: limit_def INT_MIN_def INT_MAX_def UINT_MAX_def)

lemma strtol_cut_eq:
  assumes "2 \<le> base"
  shows "strtol_cut w neg base = (if neg then - (limit w neg div base) else limit w neg div base, limit w neg mod base)"
proof -
  have n: "INT_MIN w < 0" by (simp add: INT_MIN_def)
  have m: "\<not> - INT_MIN w mod base < 0" unfolding not_less using assms by (intro pos_mod_sign) simp
  have "sgn (INT_MAX w) * (INT_MAX w div base) = INT_MAX w div base" "sgn (INT_MAX w) * (INT_MAX w mod base) = INT_MAX w mod base" "\<bar>INT_MAX w\<bar> = INT_MAX w"
    using limit_nonneg(1) [of w False] by (auto simp: limit_def sgn_if)
  then show ?thesis using assms n m
    by (simp add: strtol_cut_def limit_def signed_divide_int_def signed_modulo_int_def Let_def del: mult_cancel_right2)
qed

lemma signed_in: "- limit w True \<le> x \<Longrightarrow> x \<le> limit w False \<Longrightarrow> signed w x = Some x"
  by (simp add: signed_def limit_def)

lemma scale_le: "2 \<le> (b :: int) \<Longrightarrow> 0 \<le> v \<Longrightarrow> 0 \<le> i \<Longrightarrow> L < v \<Longrightarrow> L < v * b + i"
  using mult_left_mono [of 1 b v] by simp

lemma strtol_step_eq:
  assumes b: "2 \<le> base" and v: "0 \<le> v" "0 \<le> i" "i < base" and z: "acc z = (if neg then - v else v)" "0 \<le> any z"
  shows "strtol_step w neg base i z = Some (if limit w neg < v * base + i
    then z\<lparr>acc := if neg then - limit w neg else limit w neg, any := - 1, errno := Some ERANGE\<rparr>
    else z\<lparr>acc := if neg then - (v * base) - i else v * base + i, any := 1\<rparr>)"
proof -
  have test: "v > limit w neg div base \<or> v = limit w neg div base \<and> i > limit w neg mod base \<longleftrightarrow> limit w neg < v * base + i"
    using b v by (intro cut_test) simp_all
  have vb: "0 \<le> v * base" using v b by simp
  show ?thesis
  proof (cases neg)
    case True
    have "\<not> limit w True < v * base + i \<Longrightarrow> signed w (- (v * base)) = Some (- (v * base)) \<and> signed w (- (v * base) - i) = Some (- (v * base) - i)"
      using vb v limit_nonneg(1) [of w False] by (intro conjI signed_in) linarith+
    then show ?thesis using True z test b by (auto simp: strtol_step_def strtol_cut_eq limit_def)
  next
    case False
    have "\<not> limit w False < v * base + i \<Longrightarrow> signed w (v * base) = Some (v * base) \<and> signed w (v * base + i) = Some (v * base + i)"
      using vb v limit_nonneg(1) [of w True] by (intro conjI signed_in) linarith+
    then show ?thesis using False z test b by (auto simp: strtol_step_def strtol_cut_eq limit_def)
  qed
qed

interpretation signed_acc: accumulator "strtol_step w neg" "acc_rel (limit w neg) neg er"
proof
  fix base v i :: int and n z
  assume b: "2 \<le> base" "base \<le> 36" and v: "0 \<le> v" "0 \<le> i" "i < base" and rel: "acc_rel (limit w neg) neg er n v z"
  have step: "strtol_step w neg base i z = Some (if limit w neg < v * base + i
      then z\<lparr>acc := if neg then - limit w neg else limit w neg, any := - 1, errno := Some ERANGE\<rparr>
      else z\<lparr>acc := if neg then - (v * base) - i else v * base + i, any := 1\<rparr>)"
    if "acc z = (if neg then - v else v)" "0 \<le> any z" using strtol_step_eq [OF b(1) v that] .
  show "\<exists>z'. strtol_step w neg base i z = Some z' \<and> acc_rel (limit w neg) neg er (Suc n) (v * base + i) z'"
  proof (cases "v \<le> limit w neg")
    case False
    then have "limit w neg < v * base + i" by (intro scale_le b v) simp
    then show ?thesis using rel False limit_nonneg(1) [of w neg] by (auto simp: strtol_step_def acc_rel_def split: if_splits prod.splits)
  next
    case True
    then have z: "acc z = (if neg then - v else v)" "0 \<le> any z" "errno z = er" using rel by (auto simp: acc_rel_def split: if_splits)
    show ?thesis
    proof (cases "limit w neg < v * base + i")
      case True
      then show ?thesis using z step [OF z(1,2)] by (simp add: acc_rel_def)
    next
      case False
      then have "acc_rel (limit w neg) neg er (Suc n) (v * base + i) (z\<lparr>acc := if neg then - (v * base) - i else v * base + i, any := 1\<rparr>)"
        using z by (simp add: acc_rel_def)
      then show ?thesis using step [OF z(1,2)] False by simp
    qed
  qed
qed

interpretation unsigned_acc: accumulator "strtoul_step w" "acc_rel (UINT_MAX w) False er"
proof
  fix base v i :: int and n z
  assume b: "2 \<le> base" "base \<le> 36" and v: "0 \<le> v" "0 \<le> i" "i < base" and rel: "acc_rel (UINT_MAX w) False er n v z"
  note test = cut_test [of base i "UINT_MAX w" v]
  show "\<exists>z'. strtoul_step w base i z = Some z' \<and> acc_rel (UINT_MAX w) False er (Suc n) (v * base + i) z'"
  proof (cases "v \<le> UINT_MAX w")
    case False
    then have "UINT_MAX w < v * base + i" by (intro scale_le b v) simp
    then show ?thesis using rel False limit_nonneg(2) [of w] by (auto simp: strtoul_step_def acc_rel_def split: if_splits)
  next
    case True
    then have z: "acc z = v" "0 \<le> any z" "errno z = er" using rel by (auto simp: acc_rel_def split: if_splits)
    have vb: "0 \<le> v * base" using v b by simp
    have nowrap: "(v * base mod 2 ^ w + i) mod 2 ^ w = v * base + i" if "\<not> UINT_MAX w < v * base + i"
      unfolding mod_add_left_eq using that v vb by (intro mod_pos_pos_trivial) (simp_all add: UINT_MAX_def)
    show ?thesis
    proof (cases "UINT_MAX w < v * base + i")
      case True
      then have "strtoul_step w base i z = Some (z\<lparr>acc := UINT_MAX w, any := - 1, errno := Some ERANGE\<rparr>)"
        unfolding strtoul_step_def Let_def z(1) using z(2) b v test by simp
      then show ?thesis using True by (simp add: acc_rel_def)
    next
      case False
      then have "strtoul_step w base i z = Some (z\<lparr>acc := v * base + i, any := 1\<rparr>)"
        unfolding strtoul_step_def Let_def z(1) nowrap [OF False] using z(2) b v test by auto
      then show ?thesis using False z by (simp add: acc_rel_def)
    qed
  qed
qed

section \<open>The start of the number\<close>

text \<open>
  \<open>reads m e cs (c, s)\<close>: of a string that ends at \<open>e\<close> there is still \<open>cs\<close> to read; \<open>c\<close> is its first byte
  and \<open>s\<close> points behind it.
\<close>

definition reads :: "mem \<Rightarrow> nat \<Rightarrow> byte list \<Rightarrow> byte \<times> nat \<Rightarrow> bool" where
  "reads m e cs r \<longleftrightarrow> length cs \<le> e \<and> cstr m (e - length cs) cs \<and> r = (hd (cs @ [0]), Suc (e - length cs))"

lemma reads_start: "cstr m p bs \<Longrightarrow> reads m (p + length bs) bs (hd (bs @ [0]), Suc p)"
  by (simp add: reads_def)

lemma reads_next: "reads m e (b # cs) (c, s) \<Longrightarrow> ld m s = Some (hd (cs @ [0])) \<and> reads m e cs (hd (cs @ [0]), Suc s)"
proof -
  assume *: "reads m e (b # cs) (c, s)"
  then have e: "e - length cs = Suc (e - length (b # cs))" "s = e - length cs" by (auto simp: reads_def)
  have "cstr m (e - length cs) cs" using * by (simp add: reads_def e(1) del: length_Cons)
  moreover from this have "ld m (e - length cs) = Some (hd (cs @ [0]))" by (cases cs) auto
  ultimately show ?thesis using * e(2) by (simp add: reads_def)
qed

lemma skip_space_reads:
  assumes "\<not> sp 0"
  shows "cstr m p bs \<Longrightarrow> \<exists>r. skip_space sp m p = Some r \<and> reads m (p + length bs) (dropWhile sp bs) r"
proof (induction bs arbitrary: p)
  case Nil
  then show ?case using assms by (subst skip_space.simps) (auto simp: reads_def)
next
  case (Cons b bs)
  show ?case
  proof (cases "sp b")
    case True
    have "\<exists>r. skip_space sp m (Suc p) = Some r \<and> reads m (Suc p + length bs) (dropWhile sp bs) r"
      using Cons.prems by (intro Cons.IH) simp
    with True Cons.prems show ?thesis by (subst skip_space.simps) auto
  next
    case False
    with Cons.prems show ?thesis by (subst skip_space.simps) (auto simp: reads_def)
  qed
qed

lemma split_sign_length: "split_sign xs = (neg, ys) \<Longrightarrow> length ys \<le> length xs"
  by (cases xs) (auto split: if_splits)

lemma take_sign_reads:
  assumes "reads m e cs r" "split_sign cs = (neg, ds)"
  shows "\<exists>c s. take_sign m r = Some (neg, c, s) \<and> reads m e ds (c, s)"
proof (cases cs)
  case Nil
  then show ?thesis using assms by (auto simp: take_sign_def reads_def)
next
  case (Cons b bs)
  obtain s where r: "r = (b, s)" using assms(1) Cons by (auto simp: reads_def)
  then show ?thesis using assms reads_next [of m e b bs b s] Cons
    by (auto simp: take_sign_def split: if_splits)
qed

lemma reads_hex:
  assumes "reads m e cs (c, s)"
  shows "(if B \<and> c = 48 then do { x \<leftarrow> ld m s; if x = 120 \<or> x = 88 then do { y \<leftarrow> ld m (s + 1); Some (is_xdigit y) } else Some False }
    else Some False) = Some (B \<and> hex_prefix cs)"
proof -
  consider "cs = []" | b where "cs = [b]" | b x where "cs = [b, x]" | b x y r where "cs = b # x # y # r"
    by (cases cs rule: hex_prefix.cases) auto
  then show ?thesis
  proof cases
    case (3 b x)
    then show ?thesis using assms reads_next [of m e b "[x]" c s] reads_next [of m e x "[]" x "Suc s"]
      by (auto simp: reads_def is_xdigit_def)
  next
    case (4 b x y r)
    then show ?thesis using assms reads_next [of m e b "x # y # r" c s] reads_next [of m e x "y # r" x "Suc s"]
      by (auto simp: reads_def)
  qed (use assms reads_next in \<open>fastforce simp: reads_def\<close>)+
qed

lemma take_prefix_reads:
  assumes "reads m e cs (c, s)"
  shows "\<exists>c' s'. take_prefix m base c s = Some (fst (split_base base cs), c', s') \<and> reads m e (snd (split_base base cs)) (c', s')"
proof (cases "(base = 0 \<or> base = 16) \<and> hex_prefix cs")
  case True
  then obtain b x y r where cs: "cs = b # x # y # r" by (cases cs rule: hex_prefix.cases) auto
  have "ld m (Suc s) = Some y" "reads m e (y # r) (y, s + 2)"
    using assms reads_next [of m e b "x # y # r" c s] reads_next [of m e x "y # r" x "Suc s"] by (auto simp: cs)
  then show ?thesis using True unfolding take_prefix_def reads_hex [OF assms] by (simp add: split_base_def cs)
next
  case False
  have "c = 48 \<longleftrightarrow> cs \<noteq> [] \<and> hd cs = 48" using assms by (cases cs) (auto simp: reads_def)
  then show ?thesis using False assms unfolding take_prefix_def reads_hex [OF assms] by (auto simp: split_base_def)
qed

lemma split_base_range: "\<not> bad_base base \<Longrightarrow> 2 \<le> fst (split_base base cs) \<and> fst (split_base base cs) \<le> 36"
  by (auto simp: split_base_def bad_base_def)

text \<open>The start and the loop together, for any accumulator.\<close>

context accumulator
begin

lemma scan_ok:
  assumes "cstr m p bs" "\<not> sp 0" "\<not> bad_base base" "subject sp base bs = (neg, b, ds, off)" "rel 0 0 z0"
  shows "\<exists>cs c0 s0 c s z. skip_space sp m p = Some cs \<and> take_sign m cs = Some (neg, c0, s0) \<and> take_prefix m base c0 s0 = Some (b, c, s) \<and>
    digit_loop (step b) b m c s z0 = Some (z, Suc (p + off)) \<and> rel (length ds) (number b ds) z"
proof -
  obtain cs0 where cs0: "split_sign (dropWhile sp bs) = (neg, cs0)"
    using assms(4) by (auto simp: subject_def Let_def split: prod.splits)
  define cs where "cs = snd (split_base base cs0)"
  have b: "b = fst (split_base base cs0)" "ds = takeWhile (valid_digit b) cs" "off = length bs - length cs + length ds"
    using assms(4) by (auto simp: subject_def cs0 cs_def Let_def split: prod.splits)
  obtain r where r: "skip_space sp m p = Some r" "reads m (p + length bs) (dropWhile sp bs) r"
    using skip_space_reads [of sp m p bs] assms(1,2) by blast
  obtain c0 s0 where c0: "take_sign m r = Some (neg, c0, s0)" "reads m (p + length bs) cs0 (c0, s0)"
    using take_sign_reads [OF r(2) cs0] by blast
  obtain c s where c: "take_prefix m base c0 s0 = Some (b, c, s)" "reads m (p + length bs) cs (c, s)"
    using take_prefix_reads [OF c0(2), of base] b(1) by (auto simp: cs_def)
  have len: "length cs \<le> length bs"
  proof -
    have "length cs \<le> length cs0" by (auto simp: cs_def split_base_def)
    also have "\<dots> \<le> length (dropWhile sp bs)" using split_sign_length [OF cs0] .
    also have "\<dots> \<le> length bs" by (rule length_dropWhile_le)
    finally show ?thesis .
  qed
  have range: "2 \<le> b" "b \<le> 36" using split_base_range [OF assms(3)] by (simp_all add: b(1))
  obtain z where "digit_loop (step b) b m c s z0 = Some (z, s + length ds)" "rel (length ds) (number b ds) z"
    using loop_ok [OF range, of m "p + length bs - length cs" cs "[]" z0] c(2) assms(5) b(2) by (auto simp: reads_def number_def)
  moreover have "s + length ds = Suc (p + off)" using c(2) len b(3) by (simp add: reads_def)
  ultimately show ?thesis using r(1) c0(1) c(1) by auto
qed

end

section \<open>The conversions\<close>

definition strtol_spec :: "nat \<Rightarrow> (byte \<Rightarrow> bool) \<Rightarrow> nat \<Rightarrow> byte list \<Rightarrow> int \<Rightarrow> errno option \<Rightarrow> int \<times> nat \<times> errno option" where
  "strtol_spec w sp p bs base er = (if bad_base base then (0, p, Some EINVAL) else let
     (neg, b, ds, off) = subject sp base bs;
     v = (if neg then - number b ds else number b ds)
   in if ds = [] then (0, p, er)
     else if v < INT_MIN w then (INT_MIN w, p + off, Some ERANGE)
     else if v > INT_MAX w then (INT_MAX w, p + off, Some ERANGE)
     else (v, p + off, er))"

definition strtoul_spec :: "nat \<Rightarrow> (byte \<Rightarrow> bool) \<Rightarrow> nat \<Rightarrow> byte list \<Rightarrow> int \<Rightarrow> errno option \<Rightarrow> int \<times> nat \<times> errno option" where
  "strtoul_spec w sp p bs base er = (if bad_base base then (0, p, Some EINVAL) else let
     (neg, b, ds, off) = subject sp base bs; v = number b ds
   in if ds = [] then (0, p, er)
     else if v > UINT_MAX w then (UINT_MAX w, p + off, Some ERANGE)
     else (if neg then (- v) mod 2 ^ w else v, p + off, er))"

lemma subject_number: "\<not> bad_base base \<Longrightarrow> subject sp base bs = (neg, b, ds, off) \<Longrightarrow> 0 \<le> number b ds"
proof -
  assume *: "\<not> bad_base base" "subject sp base bs = (neg, b, ds, off)"
  define cs where "cs = snd (split_sign (dropWhile sp bs))"
  have "b = fst (split_base base cs)" "ds = takeWhile (valid_digit b) (snd (split_base base cs))"
    using *(2) by (auto simp: subject_def cs_def Let_def split_beta)
  moreover from this(2) have "list_all (valid_digit b) ds" by (auto simp: list_all_iff dest: set_takeWhileD)
  ultimately show ?thesis using split_base_range [OF *(1), of cs] by (intro number_nonneg) simp_all
qed

lemma strtol_eq:
  assumes "cstr m p bs" "\<not> sp 0"
  shows "strtol w sp m p base er = Some (strtol_spec w sp p bs base er)"
proof (cases "bad_base base")
  case False
  obtain neg b ds off where sub: "subject sp base bs = (neg, b, ds, off)" by (metis prod_cases4)
  have n: "0 \<le> number b ds" using subject_number [OF False sub] .
  have "acc_rel (limit w neg) neg er 0 0 \<lparr>acc = 0, any = 0, errno = er\<rparr>" by (simp add: acc_rel_def)
  from signed_acc.scan_ok [OF assms False sub this] obtain cs c0 s0 c s z where
    scan: "skip_space sp m p = Some cs" "take_sign m cs = Some (neg, c0, s0)" "take_prefix m base c0 s0 = Some (b, c, s)"
      "digit_loop (strtol_step w neg b) b m c s \<lparr>acc = 0, any = 0, errno = er\<rparr> = Some (z, Suc (p + off))"
      "acc_rel (limit w neg) neg er (length ds) (number b ds) z" by blast
  have "strtol w sp m p base er = Some (acc z, if any z \<noteq> 0 then p + off else p, errno z)"
    using False scan(1-4) by (simp add: strtol_def)
  also have "\<dots> = Some (strtol_spec w sp p bs base er)"
    using scan(5) False sub n limit_nonneg(1) [of w True] limit_nonneg(1) [of w False]
    by (auto simp: strtol_spec_def acc_rel_def limit_def split: if_splits)
  finally show ?thesis .
qed (simp add: strtol_def strtol_spec_def)

lemma strtoul_eq:
  assumes "cstr m p bs" "\<not> sp 0"
  shows "strtoul w sp m p base er = Some (strtoul_spec w sp p bs base er)"
proof (cases "bad_base base")
  case False
  obtain neg b ds off where sub: "subject sp base bs = (neg, b, ds, off)" by (metis prod_cases4)
  have "acc_rel (UINT_MAX w) False er 0 0 \<lparr>acc = 0, any = 0, errno = er\<rparr>" by (simp add: acc_rel_def)
  from unsigned_acc.scan_ok [OF assms False sub this] obtain cs c0 s0 c s z where
    scan: "skip_space sp m p = Some cs" "take_sign m cs = Some (neg, c0, s0)" "take_prefix m base c0 s0 = Some (b, c, s)"
      "digit_loop (strtoul_step w b) b m c s \<lparr>acc = 0, any = 0, errno = er\<rparr> = Some (z, Suc (p + off))"
      "acc_rel (UINT_MAX w) False er (length ds) (number b ds) z" by blast
  have "strtoul w sp m p base er = Some (if neg \<and> any z > 0 then (- acc z) mod 2 ^ w else acc z, if any z \<noteq> 0 then p + off else p, errno z)"
    using False scan(1-4) by (simp add: strtoul_def)
  also have "\<dots> = Some (strtoul_spec w sp p bs base er)"
    using scan(5) False sub by (auto simp: strtoul_spec_def acc_rel_def split: if_splits)
  finally show ?thesis .
qed (simp add: strtoul_def strtoul_spec_def)

lemma subject_off:
  assumes "subject sp base bs = (neg, b, ds, off)"
  shows "off \<le> length bs \<and> (ds \<noteq> [] \<longrightarrow> 0 < off)"
proof -
  define cs0 cs where "cs0 = snd (split_sign (dropWhile sp bs))" and "cs = snd (split_base base cs0)"
  have *: "ds = takeWhile (valid_digit b) cs" "off = length bs - length cs + length ds"
    using assms by (auto simp: subject_def cs0_def cs_def Let_def split_beta)
  have "length cs \<le> length cs0" by (auto simp: cs_def split_base_def)
  also have "\<dots> \<le> length (dropWhile sp bs)" unfolding cs0_def by (metis split_sign_length prod.collapse)
  also have "\<dots> \<le> length bs" by (rule length_dropWhile_le)
  finally have "length cs \<le> length bs" .
  moreover have "length ds \<le> length cs" unfolding *(1) by (rule length_takeWhile_le)
  ultimately show ?thesis using *(2) by (cases ds) auto
qed

lemma cstr_at:
  assumes "cstr m p bs" "i \<le> length bs"
  shows "\<exists>x. ld m (p + i) = Some x \<and> (x \<noteq> 0 \<longleftrightarrow> i < length bs)"
proof (cases "i < length bs")
  case True
  have "bs ! i \<noteq> 0" using assms(1) nth_mem [OF True] unfolding cstr_conv by metis
  then show ?thesis using True cstr_length [OF assms(1)] cstr_nth [OF assms(1) True] by simp
next
  case False
  then show ?thesis using assms(2) cstr_length [OF assms(1)] cstr_end [OF assms(1)] by auto
qed

text \<open>
  What \<open>strtoi\<close> and \<open>strtou\<close> rely on: the conversion they wrap clamps the number that was read to the range of
  its type and reports \<open>ERANGE\<close> when it did.
\<close>

locale clamping =
  fixes wrapped :: "mem \<Rightarrow> nat \<Rightarrow> int \<Rightarrow> errno option \<Rightarrow> (int \<times> nat \<times> errno option) option"
    and sp :: "byte \<Rightarrow> bool" and val :: "bool \<Rightarrow> int \<Rightarrow> int" and lo0 hi0 :: int
  assumes wrapped_ok: "cstr m p bs \<Longrightarrow> \<not> sp 0 \<Longrightarrow> \<not> bad_base base \<Longrightarrow> subject sp base bs = (neg, b, ds, off) \<Longrightarrow>
    wrapped m p base None = Some (if ds = [] then (0, p, None)
      else if val neg (number b ds) < lo0 then (lo0, p + off, Some ERANGE)
      else if val neg (number b ds) > hi0 then (hi0, p + off, Some ERANGE)
      else (val neg (number b ds), p + off, None))"
begin

lemma strtoi_ok:
  assumes c: "cstr m p bs" "\<not> sp 0" "\<not> bad_base base" "subject sp base bs = (neg, b, ds, off)"
    and r: "lo0 \<le> lo" "lo \<le> hi" "hi \<le> hi0"
  shows "strtoi_with wrapped m p base lo hi er = Some (
    if ds = [] then (max lo (min hi 0), p, Some ECANCELED, er)
    else let v = val neg (number b ds) in
      if v < lo then (lo, p + off, Some ERANGE, er)
      else if v > hi then (hi, p + off, Some ERANGE, er)
      else (v, p + off, if off < length bs then Some ENOTSUP else None, er))"
proof -
  have off: "off \<le> length bs" "ds \<noteq> [] \<Longrightarrow> 0 < off" using subject_off [OF c(4)] by simp_all
  have base: "\<not> (base \<noteq> 0 \<and> (base < 2 \<or> base > 36))" using c(3) by (simp add: bad_base_def)
  have "\<exists>x. ld m (p + off) = Some x \<and> (x \<noteq> 0 \<longleftrightarrow> off < length bs)" using cstr_at [OF c(1) off(1)] .
  then obtain x where x: "ld m (p + off) = Some x" "x \<noteq> 0 \<longleftrightarrow> off < length bs" by blast
  show ?thesis unfolding strtoi_with_def if_not_P [OF base] wrapped_ok [OF c]
    using r off x by (auto simp: Let_def)
qed

end

definition uval :: "bool \<Rightarrow> int \<Rightarrow> int" where
  "uval neg v = (if neg \<and> v \<le> UINT_MAX 64 then (- v) mod 2 ^ 64 else v)"

definition sval :: "bool \<Rightarrow> int \<Rightarrow> int" where
  "sval neg v = (if neg then - v else v)"

interpretation imax: clamping "strtol 64 sp" sp sval "INT_MIN 64" "INT_MAX 64"
  by unfold_locales (simp add: strtol_eq strtol_spec_def sval_def)

interpretation umax: clamping "strtoul 64 sp" sp uval 0 "UINT_MAX 64"
proof
  fix m p bs base neg b ds off
  assume c: "cstr m p bs" "\<not> sp 0" "\<not> bad_base base" "subject sp base bs = (neg, b, ds, off)"
  have n: "0 \<le> number b ds" using subject_number [OF c(3,4)] .
  have "(- number b ds) mod 2 ^ 64 < 2 ^ 64" "0 \<le> (- number b ds) mod 2 ^ 64" by simp_all
  then have *: "\<not> uval neg (number b ds) < 0" "uval neg (number b ds) > UINT_MAX 64 \<longleftrightarrow> number b ds > UINT_MAX 64"
    using n by (auto simp: uval_def UINT_MAX_def simp del: zmod_zminus1_eq_if)
  then show "strtoul 64 sp m p base None = Some (if ds = [] then (0, p, None)
      else if uval neg (number b ds) < 0 then (0, p + off, Some ERANGE)
      else if uval neg (number b ds) > UINT_MAX 64 then (UINT_MAX 64, p + off, Some ERANGE)
      else (uval neg (number b ds), p + off, None))"
    using c(3,4) by (simp add: strtoul_eq [of m p bs sp, OF c(1,2)] strtoul_spec_def * uval_def)
qed

section \<open>Properties\<close>

text \<open>
  C7. Signed conversion, for every width of the type, every base and every string.  The value is that of
  the digits after the white space, the sign and the prefix that selects base 16 or 8, clamped to the type
  with \<open>ERANGE\<close>; without a digit the value is 0 and the end pointer is the start; a bad base is
  \<open>EINVAL\<close>.  The accumulator never overflows and no byte behind the NUL is read.
\<close>

theorem strtol_correct:
  assumes "cstr m p bs" "\<not> sp 0"
  shows "strtol w sp m p base er = Some (strtol_spec w sp p bs base er)"
  using assms by (rule strtol_eq)

text \<open>At base 0, \<open>" -0x2Aq"\<close> is -42 and ends at the \<open>q\<close>.\<close>

theorem strtol_correct_witness:
  "cstr [32, 45, 48, 120, 50, 65, 113, 0] 0 [32, 45, 48, 120, 50, 65, 113] \<and>
   strtol 32 (\<lambda>c. c = 32) [32, 45, 48, 120, 50, 65, 113, 0] 0 0 None = Some (- 42, 6, None)"
proof -
  have c: "cstr [32, 45, 48, 120, 50, 65, 113, 0] 0 [32, 45, 48, 120, 50, 65, 113]" by (simp add: ld_def)
  have "strtol_spec 32 (\<lambda>c. c = 32) 0 [32, 45, 48, 120, 50, 65, 113] 0 None = (- 42, 6, None)" by code_simp
  with c strtol_correct [OF c, of "\<lambda>c. c = 32" 32 0 None] show ?thesis by simp
qed

text \<open>
  Unsigned conversion: the value of the digits, \<open>ERANGE\<close> with the largest value when it does not fit,
  and the negation modulo \<open>2 ^ w\<close> when there is a minus sign and it does fit.
\<close>

theorem strtoul_correct:
  assumes "cstr m p bs" "\<not> sp 0"
  shows "strtoul w sp m p base er = Some (strtoul_spec w sp p bs base er)"
  using assms by (rule strtoul_eq)

text \<open>
  C27. The range-checked conversions.  \<open>*rstatus\<close> is \<open>ECANCELED\<close> when there is no digit, \<open>ERANGE\<close> exactly when
  the number (of any length) is outside \<open>[lo, hi]\<close>, \<open>ENOTSUP\<close> when bytes follow it, and 0 otherwise; the
  result is the number clamped to the range, and \<open>errno\<close> is left as it was.
\<close>

theorem strtoi_strtou_correct:
  assumes "cstr m p bs" "\<not> sp 0" "\<not> bad_base base" "subject sp base bs = (neg, b, ds, off)" "lo \<le> hi"
  shows "(INT_MIN 64 \<le> lo \<and> hi \<le> INT_MAX 64 \<longrightarrow> strtoi sp m p base lo hi er = Some (
    if ds = [] then (max lo (min hi 0), p, Some ECANCELED, er)
    else let v = sval neg (number b ds) in
      if v < lo then (lo, p + off, Some ERANGE, er)
      else if v > hi then (hi, p + off, Some ERANGE, er)
      else (v, p + off, if off < length bs then Some ENOTSUP else None, er))) \<and>
    (0 \<le> lo \<and> hi \<le> UINT_MAX 64 \<longrightarrow> strtou sp m p base lo hi er = Some (
    if ds = [] then (max lo (min hi 0), p, Some ECANCELED, er)
    else let v = uval neg (number b ds) in
      if v < lo then (lo, p + off, Some ERANGE, er)
      else if v > hi then (hi, p + off, Some ERANGE, er)
      else (v, p + off, if off < length bs then Some ENOTSUP else None, er)))"
  using assms imax.strtoi_ok [of m p bs sp base neg b ds off lo hi er] umax.strtoi_ok [of m p bs sp base neg b ds off lo hi er]
  by (simp add: strtoi_def strtou_def)

text \<open>300 is clamped to the range of a byte.\<close>

theorem strtoi_strtou_correct_witness:
  "strtoi (\<lambda>c. c = 32) [51, 48, 48, 0] 0 10 (- 128) 127 None = Some (127, 3, Some ERANGE, None) \<and>
   strtou (\<lambda>c. c = 32) [51, 48, 48, 0] 0 10 0 255 None = Some (255, 3, Some ERANGE, None)"
proof -
  have c: "cstr [51, 48, 48, 0] 0 [51, 48, 48]" "\<not> bad_base 10" by (simp_all add: ld_def bad_base_def)
  have s: "subject (\<lambda>c. c = 32) 10 [51, 48, 48] = (False, 10, [51, 48, 48], 3)" by code_simp
  have v: "sval False (number 10 [51, 48, 48]) = 300" "uval False (number 10 [51, 48, 48]) = 300" by code_simp+
  have r: "INT_MIN 64 \<le> - 128" "127 \<le> INT_MAX 64" "255 \<le> UINT_MAX 64" by (simp_all add: INT_MIN_def INT_MAX_def UINT_MAX_def)
  show ?thesis
    using strtoi_strtou_correct [OF c(1) _ c(2) s, of "- 128" 127 None] strtoi_strtou_correct [OF c(1) _ c(2) s, of 0 255 None] v r by simp
qed

text \<open>
  \<open>strtonum\<close>: a string that is a decimal number of the range, and nothing else, converts to that number
  without an error; no digits or trailing bytes are \<open>"invalid"\<close>, and otherwise the error names the side on which
  the number leaves the range.  When the range is one number, a number below it is reported as \<open>"too large"\<close>.
  The \<open>abort\<close> of the switch is never reached.
\<close>

theorem strtonum_correct:
  assumes "cstr m p bs" "\<not> sp 0" "subject sp 10 bs = (neg, b, ds, off)" "INT_MIN 64 \<le> minval" "maxval \<le> INT_MAX 64"
  shows "strtonum sp m p minval maxval er = Some (
    let v = sval neg (number b ds) in
    if minval > maxval \<or> ds = [] \<or> off < length bs then (0, Some Invalid)
    else if v > maxval then (0, Some Too_large)
    else if v < minval then (0, Some (if minval = maxval then Too_large else Too_small))
    else (v, None))"
proof (cases "minval > maxval")
  case False
  have b: "\<not> bad_base 10" by (simp add: bad_base_def)
  have ends: "off \<le> length bs" using subject_off [OF assms(3)] by simp
  note * = imax.strtoi_ok [of m p bs sp 10, OF assms(1,2) b assms(3,4) _ assms(5), of er]
  have "\<exists>x. ld m (p + off) = Some x \<and> (x \<noteq> 0 \<longleftrightarrow> off < length bs)"
    using cstr_at [OF assms(1) ends] .
  then show ?thesis using False * by (auto simp: strtonum_def strtoi_def Let_def)
qed (simp add: strtonum_def)

end
