(* ===== verification/Atomic.thy ===== *)
theory Atomic
  imports Prelude "HOL-Library.Multiset"
begin

text \<open>
  The atomic operations of \<^verbatim>\<open>src/libc/common/lib/libc/atomic\<close> that are loops around a compare-and-swap, run by any
  number of threads on one shared variable.  The compare-and-swap itself (an instruction, \<^verbatim>\<open>arch/x86_64/atomic/atomic.S\<close>)
  is one step; so is the load before it.  A step relation interleaves the threads in every order, and a log of
  the successful swaps, which the program does not have, states the order in which the operations take effect.
\<close>

section \<open>The operations\<close>

definition atomic_cas :: "'a \<Rightarrow> 'a \<Rightarrow> 'a \<Rightarrow> 'a \<times> 'a" where
  "atomic_cas x old new = (x, if x = old then new else x)"

text \<open>What a loop computes from the value it has loaded, and what it returns (\<open>None\<close> for \<open>void\<close>).\<close>

record 'a cas_op =
  upd :: "'a \<Rightarrow> 'a"
  ret :: "'a \<Rightarrow> 'a \<Rightarrow> 'a option"

definition fetch_and_add_1 :: "byte \<Rightarrow> byte cas_op" where
  "fetch_and_add_1 val = \<lparr>upd = \<lambda>old. old + val, ret = \<lambda>old new. Some old\<rparr>"

definition add_and_fetch_1 :: "byte \<Rightarrow> byte cas_op" where
  "add_and_fetch_1 val = \<lparr>upd = \<lambda>old. old + val, ret = \<lambda>old new. Some new\<rparr>"

definition fetch_and_add_2 :: "u16 \<Rightarrow> u16 cas_op" where
  "fetch_and_add_2 val = \<lparr>upd = \<lambda>old. old + val, ret = \<lambda>old new. Some old\<rparr>"

definition add_and_fetch_2 :: "u16 \<Rightarrow> u16 cas_op" where
  "add_and_fetch_2 val = \<lparr>upd = \<lambda>old. old + val, ret = \<lambda>old new. Some new\<rparr>"

definition fetch_and_add_4 :: "u32 \<Rightarrow> u32 cas_op" where
  "fetch_and_add_4 val = \<lparr>upd = \<lambda>old. old + val, ret = \<lambda>old new. Some old\<rparr>"

definition atomic_add_32 :: "u32 \<Rightarrow> u32 cas_op" where
  "atomic_add_32 val = (fetch_and_add_4 val)\<lparr>ret := \<lambda>old new. None\<rparr>"

definition atomic_add_32_nv :: "u32 \<Rightarrow> u32 cas_op" where
  "atomic_add_32_nv val = \<lparr>upd = \<lambda>old. old + val, ret = \<lambda>old new. Some new\<rparr>"

definition fetch_and_add_8 :: "u64 \<Rightarrow> u64 cas_op" where
  "fetch_and_add_8 val = \<lparr>upd = \<lambda>old. old + val, ret = \<lambda>old new. Some old\<rparr>"

definition atomic_add_64 :: "u64 \<Rightarrow> u64 cas_op" where
  "atomic_add_64 val = (fetch_and_add_8 val)\<lparr>ret := \<lambda>old new. None\<rparr>"

definition atomic_add_64_nv :: "u64 \<Rightarrow> u64 cas_op" where
  "atomic_add_64_nv val = \<lparr>upd = \<lambda>old. old + val, ret = \<lambda>old new. Some new\<rparr>"

definition fetch_and_and_1 :: "byte \<Rightarrow> byte cas_op" where
  "fetch_and_and_1 val = \<lparr>upd = \<lambda>old. old AND val, ret = \<lambda>old new. Some old\<rparr>"

definition atomic_and_8_nv :: "byte \<Rightarrow> byte cas_op" where
  "atomic_and_8_nv val = \<lparr>upd = \<lambda>old. old AND val, ret = \<lambda>old new. Some new\<rparr>"

definition fetch_and_and_2 :: "u16 \<Rightarrow> u16 cas_op" where
  "fetch_and_and_2 val = \<lparr>upd = \<lambda>old. old AND val, ret = \<lambda>old new. Some old\<rparr>"

definition atomic_and_16_nv :: "u16 \<Rightarrow> u16 cas_op" where
  "atomic_and_16_nv val = \<lparr>upd = \<lambda>old. old AND val, ret = \<lambda>old new. Some new\<rparr>"

definition fetch_and_and_4 :: "u32 \<Rightarrow> u32 cas_op" where
  "fetch_and_and_4 val = \<lparr>upd = \<lambda>old. old AND val, ret = \<lambda>old new. Some old\<rparr>"

definition atomic_and_32 :: "u32 \<Rightarrow> u32 cas_op" where
  "atomic_and_32 val = (fetch_and_and_4 val)\<lparr>ret := \<lambda>old new. None\<rparr>"

definition atomic_and_32_nv :: "u32 \<Rightarrow> u32 cas_op" where
  "atomic_and_32_nv val = \<lparr>upd = \<lambda>old. old AND val, ret = \<lambda>old new. Some new\<rparr>"

definition fetch_and_and_8 :: "u64 \<Rightarrow> u64 cas_op" where
  "fetch_and_and_8 val = \<lparr>upd = \<lambda>old. old AND val, ret = \<lambda>old new. Some old\<rparr>"

definition atomic_and_64 :: "u64 \<Rightarrow> u64 cas_op" where
  "atomic_and_64 val = (fetch_and_and_8 val)\<lparr>ret := \<lambda>old new. None\<rparr>"

definition atomic_and_64_nv :: "u64 \<Rightarrow> u64 cas_op" where
  "atomic_and_64_nv val = \<lparr>upd = \<lambda>old. old AND val, ret = \<lambda>old new. Some new\<rparr>"

definition atomic_dec_32 :: "u32 cas_op" where
  "atomic_dec_32 = \<lparr>upd = \<lambda>old. old - 1, ret = \<lambda>old new. None\<rparr>"

definition atomic_dec_32_nv :: "u32 cas_op" where
  "atomic_dec_32_nv = \<lparr>upd = \<lambda>old. old - 1, ret = \<lambda>old new. Some new\<rparr>"

definition atomic_dec_64 :: "u64 cas_op" where
  "atomic_dec_64 = \<lparr>upd = \<lambda>old. old - 1, ret = \<lambda>old new. None\<rparr>"

definition atomic_dec_64_nv :: "u64 cas_op" where
  "atomic_dec_64_nv = \<lparr>upd = \<lambda>old. old - 1, ret = \<lambda>old new. Some new\<rparr>"

definition atomic_inc_32 :: "u32 cas_op" where
  "atomic_inc_32 = \<lparr>upd = \<lambda>old. old + 1, ret = \<lambda>old new. None\<rparr>"

definition atomic_inc_32_nv :: "u32 cas_op" where
  "atomic_inc_32_nv = \<lparr>upd = \<lambda>old. old + 1, ret = \<lambda>old new. Some new\<rparr>"

definition atomic_inc_64 :: "u64 cas_op" where
  "atomic_inc_64 = \<lparr>upd = \<lambda>old. old + 1, ret = \<lambda>old new. None\<rparr>"

definition atomic_inc_64_nv :: "u64 cas_op" where
  "atomic_inc_64_nv = \<lparr>upd = \<lambda>old. old + 1, ret = \<lambda>old new. Some new\<rparr>"

definition fetch_and_nand_1 :: "byte \<Rightarrow> byte cas_op" where
  "fetch_and_nand_1 val = \<lparr>upd = \<lambda>old. NOT (old AND val), ret = \<lambda>old new. Some old\<rparr>"

definition nand_and_fetch_1 :: "byte \<Rightarrow> byte cas_op" where
  "nand_and_fetch_1 val = \<lparr>upd = \<lambda>old. NOT (old AND val), ret = \<lambda>old new. Some new\<rparr>"

definition fetch_and_nand_2 :: "u16 \<Rightarrow> u16 cas_op" where
  "fetch_and_nand_2 val = \<lparr>upd = \<lambda>old. NOT (old AND val), ret = \<lambda>old new. Some old\<rparr>"

definition nand_and_fetch_2 :: "u16 \<Rightarrow> u16 cas_op" where
  "nand_and_fetch_2 val = \<lparr>upd = \<lambda>old. NOT (old AND val), ret = \<lambda>old new. Some new\<rparr>"

definition fetch_and_nand_4 :: "u32 \<Rightarrow> u32 cas_op" where
  "fetch_and_nand_4 val = \<lparr>upd = \<lambda>old. NOT (old AND val), ret = \<lambda>old new. Some old\<rparr>"

definition nand_and_fetch_4 :: "u32 \<Rightarrow> u32 cas_op" where
  "nand_and_fetch_4 val = \<lparr>upd = \<lambda>old. NOT (old AND val), ret = \<lambda>old new. Some new\<rparr>"

definition fetch_and_nand_8 :: "u64 \<Rightarrow> u64 cas_op" where
  "fetch_and_nand_8 val = \<lparr>upd = \<lambda>old. NOT (old AND val), ret = \<lambda>old new. Some old\<rparr>"

definition nand_and_fetch_8 :: "u64 \<Rightarrow> u64 cas_op" where
  "nand_and_fetch_8 val = \<lparr>upd = \<lambda>old. NOT (old AND val), ret = \<lambda>old new. Some new\<rparr>"

definition fetch_and_or_1 :: "byte \<Rightarrow> byte cas_op" where
  "fetch_and_or_1 val = \<lparr>upd = \<lambda>old. old OR val, ret = \<lambda>old new. Some old\<rparr>"

definition or_and_fetch_1 :: "byte \<Rightarrow> byte cas_op" where
  "or_and_fetch_1 val = \<lparr>upd = \<lambda>old. old OR val, ret = \<lambda>old new. Some new\<rparr>"

definition fetch_and_or_2 :: "u16 \<Rightarrow> u16 cas_op" where
  "fetch_and_or_2 val = \<lparr>upd = \<lambda>old. old OR val, ret = \<lambda>old new. Some old\<rparr>"

definition or_and_fetch_2 :: "u16 \<Rightarrow> u16 cas_op" where
  "or_and_fetch_2 val = \<lparr>upd = \<lambda>old. old OR val, ret = \<lambda>old new. Some new\<rparr>"

definition fetch_and_or_4 :: "u32 \<Rightarrow> u32 cas_op" where
  "fetch_and_or_4 val = \<lparr>upd = \<lambda>old. old OR val, ret = \<lambda>old new. Some old\<rparr>"

definition atomic_or_32 :: "u32 \<Rightarrow> u32 cas_op" where
  "atomic_or_32 val = (fetch_and_or_4 val)\<lparr>ret := \<lambda>old new. None\<rparr>"

definition atomic_or_32_nv :: "u32 \<Rightarrow> u32 cas_op" where
  "atomic_or_32_nv val = \<lparr>upd = \<lambda>old. old OR val, ret = \<lambda>old new. Some new\<rparr>"

definition fetch_and_or_8 :: "u64 \<Rightarrow> u64 cas_op" where
  "fetch_and_or_8 val = \<lparr>upd = \<lambda>old. old OR val, ret = \<lambda>old new. Some old\<rparr>"

definition atomic_or_64 :: "u64 \<Rightarrow> u64 cas_op" where
  "atomic_or_64 val = (fetch_and_or_8 val)\<lparr>ret := \<lambda>old new. None\<rparr>"

definition atomic_or_64_nv :: "u64 \<Rightarrow> u64 cas_op" where
  "atomic_or_64_nv val = \<lparr>upd = \<lambda>old. old OR val, ret = \<lambda>old new. Some new\<rparr>"

definition fetch_and_sub_1 :: "byte \<Rightarrow> byte cas_op" where
  "fetch_and_sub_1 val = \<lparr>upd = \<lambda>old. old - val, ret = \<lambda>old new. Some old\<rparr>"

definition sub_and_fetch_1 :: "byte \<Rightarrow> byte cas_op" where
  "sub_and_fetch_1 val = \<lparr>upd = \<lambda>old. old - val, ret = \<lambda>old new. Some new\<rparr>"

definition fetch_and_sub_2 :: "u16 \<Rightarrow> u16 cas_op" where
  "fetch_and_sub_2 val = \<lparr>upd = \<lambda>old. old - val, ret = \<lambda>old new. Some old\<rparr>"

definition sub_and_fetch_2 :: "u16 \<Rightarrow> u16 cas_op" where
  "sub_and_fetch_2 val = \<lparr>upd = \<lambda>old. old - val, ret = \<lambda>old new. Some new\<rparr>"

definition fetch_and_sub_4 :: "u32 \<Rightarrow> u32 cas_op" where
  "fetch_and_sub_4 val = \<lparr>upd = \<lambda>old. old - val, ret = \<lambda>old new. Some old\<rparr>"

definition sub_and_fetch_4 :: "u32 \<Rightarrow> u32 cas_op" where
  "sub_and_fetch_4 val = \<lparr>upd = \<lambda>old. old - val, ret = \<lambda>old new. Some new\<rparr>"

definition fetch_and_sub_8 :: "u64 \<Rightarrow> u64 cas_op" where
  "fetch_and_sub_8 val = \<lparr>upd = \<lambda>old. old - val, ret = \<lambda>old new. Some old\<rparr>"

definition sub_and_fetch_8 :: "u64 \<Rightarrow> u64 cas_op" where
  "sub_and_fetch_8 val = \<lparr>upd = \<lambda>old. old - val, ret = \<lambda>old new. Some new\<rparr>"

definition atomic_swap_8 :: "byte \<Rightarrow> byte cas_op" where
  "atomic_swap_8 new = \<lparr>upd = \<lambda>old. new, ret = \<lambda>old new. Some old\<rparr>"

definition atomic_swap_16 :: "u16 \<Rightarrow> u16 cas_op" where
  "atomic_swap_16 new = \<lparr>upd = \<lambda>old. new, ret = \<lambda>old new. Some old\<rparr>"

definition atomic_swap_32 :: "u32 \<Rightarrow> u32 cas_op" where
  "atomic_swap_32 new = \<lparr>upd = \<lambda>old. new, ret = \<lambda>old new. Some old\<rparr>"

definition atomic_swap_64 :: "u64 \<Rightarrow> u64 cas_op" where
  "atomic_swap_64 new = \<lparr>upd = \<lambda>old. new, ret = \<lambda>old new. Some old\<rparr>"

definition fetch_and_xor_1 :: "byte \<Rightarrow> byte cas_op" where
  "fetch_and_xor_1 val = \<lparr>upd = \<lambda>old. old XOR val, ret = \<lambda>old new. Some old\<rparr>"

definition xor_and_fetch_1 :: "byte \<Rightarrow> byte cas_op" where
  "xor_and_fetch_1 val = \<lparr>upd = \<lambda>old. old XOR val, ret = \<lambda>old new. Some new\<rparr>"

definition fetch_and_xor_2 :: "u16 \<Rightarrow> u16 cas_op" where
  "fetch_and_xor_2 val = \<lparr>upd = \<lambda>old. old XOR val, ret = \<lambda>old new. Some old\<rparr>"

definition xor_and_fetch_2 :: "u16 \<Rightarrow> u16 cas_op" where
  "xor_and_fetch_2 val = \<lparr>upd = \<lambda>old. old XOR val, ret = \<lambda>old new. Some new\<rparr>"

definition fetch_and_xor_4 :: "u32 \<Rightarrow> u32 cas_op" where
  "fetch_and_xor_4 val = \<lparr>upd = \<lambda>old. old XOR val, ret = \<lambda>old new. Some old\<rparr>"

definition xor_and_fetch_4 :: "u32 \<Rightarrow> u32 cas_op" where
  "xor_and_fetch_4 val = \<lparr>upd = \<lambda>old. old XOR val, ret = \<lambda>old new. Some new\<rparr>"

definition fetch_and_xor_8 :: "u64 \<Rightarrow> u64 cas_op" where
  "fetch_and_xor_8 val = \<lparr>upd = \<lambda>old. old XOR val, ret = \<lambda>old new. Some old\<rparr>"

definition xor_and_fetch_8 :: "u64 \<Rightarrow> u64 cas_op" where
  "xor_and_fetch_8 val = \<lparr>upd = \<lambda>old. old XOR val, ret = \<lambda>old new. Some new\<rparr>"

section \<open>Threads\<close>

text \<open>\<open>Load\<close> is at \<^verbatim>\<open>old = *addr\<close>; \<open>Cas\<close> is at the test of the loop, with \<open>old\<close> and \<open>new\<close> in registers.\<close>

datatype 'a pc = Load "'a cas_op" | Cas "'a cas_op" 'a 'a

record 'a thread =
  pc :: "'a pc option"
  todo :: "'a cas_op list"
  results :: "'a option list"

definition thread_step :: "'a \<Rightarrow> 'a thread \<Rightarrow> ('a \<times> 'a thread \<times> ('a cas_op \<times> 'a option) option) option" where
  "thread_step x th = (case pc th of
     None \<Rightarrow> (case todo th of
         [] \<Rightarrow> None
       | c # cs \<Rightarrow> Some (x, th\<lparr>pc := Some (Load c), todo := cs\<rparr>, None))
   | Some (Load c) \<Rightarrow> Some (x, th\<lparr>pc := Some (Cas c x (upd c x))\<rparr>, None)
   | Some (Cas c old new) \<Rightarrow> (let (v, x) = atomic_cas x old new in
       if v \<noteq> old then Some (x, th\<lparr>pc := Some (Load c)\<rparr>, None)
       else Some (x, th\<lparr>pc := None, results := results th @ [ret c old new]\<rparr>, Some (c, ret c old new))))"

record 'a system =
  shared :: 'a
  threads :: "'a thread list"
  log :: "(nat \<times> 'a cas_op \<times> 'a option) list"

definition start :: "'a \<Rightarrow> 'a cas_op list list \<Rightarrow> 'a system" where
  "start x progs = \<lparr>shared = x, threads = map (\<lambda>p. \<lparr>pc = None, todo = p, results = []\<rparr>) progs, log = []\<rparr>"

definition commit :: "nat \<Rightarrow> ('a cas_op \<times> 'a option) option \<Rightarrow> (nat \<times> 'a cas_op \<times> 'a option) list" where
  "commit i ev = (case ev of None \<Rightarrow> [] | Some e \<Rightarrow> [(i, e)])"

inductive step :: "'a system \<Rightarrow> 'a system \<Rightarrow> bool" where
  "i < length (threads s) \<Longrightarrow> thread_step (shared s) (threads s ! i) = Some (x, th, ev) \<Longrightarrow>
   step s \<lparr>shared = x, threads = (threads s)[i := th], log = log s @ commit i ev\<rparr>"

inductive_simps step_simps: "step s s'"
inductive_cases stepE: "step s s'"

section \<open>Specification\<close>

text \<open>The operations one after the other.\<close>

fun sequential :: "'a \<Rightarrow> 'a cas_op list \<Rightarrow> 'a \<times> 'a option list" where
  "sequential x [] = (x, [])"
| "sequential x (c # cs) = (let (y, rs) = sequential (upd c x) cs in (y, ret c x (upd c x) # rs))"

lemma sequential_append:
  "sequential x (cs @ ds) = (let (y, rs) = sequential x cs; (z, rs') = sequential y ds in (z, rs @ rs'))"
  by (induction cs arbitrary: x) (auto simp: Let_def split: prod.splits)

definition current :: "'a thread \<Rightarrow> 'a cas_op list" where
  "current th = (case pc th of None \<Rightarrow> [] | Some (Load c) \<Rightarrow> [c] | Some (Cas c _ _) \<Rightarrow> [c])"

definition own :: "nat \<Rightarrow> (nat \<times> 'a cas_op \<times> 'a option) list \<Rightarrow> ('a cas_op \<times> 'a option) list" where
  "own i l = map snd (filter (\<lambda>e. fst e = i) l)"

text \<open>
  The invariant: the shared value and the results are those of the logged operations run one after the other;
  of its program each thread has logged a prefix, in order, and received the results logged for it.
\<close>

definition linear :: "'a \<Rightarrow> 'a cas_op list list \<Rightarrow> 'a system \<Rightarrow> bool" where
  "linear x0 progs s \<longleftrightarrow>
     sequential x0 (map (fst \<circ> snd) (log s)) = (shared s, map (snd \<circ> snd) (log s)) \<and>
     length (threads s) = length progs \<and> (\<forall>e \<in> set (log s). fst e < length progs) \<and>
     (\<forall>i < length progs. map fst (own i (log s)) @ current (threads s ! i) @ todo (threads s ! i) = progs ! i \<and>
       results (threads s ! i) = map snd (own i (log s)))"

text \<open>In the registers of a thread, \<open>new\<close> belongs to \<open>old\<close>.\<close>

definition computed :: "'a thread \<Rightarrow> bool" where
  "computed th \<longleftrightarrow> (case pc th of Some (Cas c old new) \<Rightarrow> new = upd c old | _ \<Rightarrow> True)"

section \<open>Every interleaving is sequential\<close>

lemma thread_step_computed: "thread_step x th = Some (y, th', ev) \<Longrightarrow> computed th \<Longrightarrow> computed th'"
  by (auto simp: thread_step_def computed_def atomic_cas_def Let_def split: option.splits pc.splits list.splits if_splits)

lemma thread_step_ok:
  assumes "thread_step x th = Some (y, th', ev)" "computed th"
  shows "current th @ todo th = map fst (case ev of None \<Rightarrow> [] | Some e \<Rightarrow> [e]) @ current th' @ todo th'"
    and "results th' = results th @ map snd (case ev of None \<Rightarrow> [] | Some e \<Rightarrow> [e])"
    and "case ev of None \<Rightarrow> y = x | Some (c, r) \<Rightarrow> y = upd c x \<and> r = ret c x (upd c x)"
  using assms
  by (auto simp: thread_step_def computed_def current_def atomic_cas_def Let_def
      split: option.splits pc.splits list.splits if_splits)

lemma own_append [simp]: "own i (l @ l') = own i l @ own i l'"
  by (simp add: own_def)

lemma own_commit [simp]: "own i (commit j ev) = (if i = j then (case ev of None \<Rightarrow> [] | Some e \<Rightarrow> [e]) else [])"
  by (auto simp: own_def commit_def split: option.splits)

lemma linear_step:
  assumes "linear x0 progs s" "list_all computed (threads s)" "step s s'"
  shows "linear x0 progs s' \<and> list_all computed (threads s')"
  using assms(3)
proof cases
  case (1 i x th ev)
  then have comp: "computed (threads s ! i)" using assms(2) by (simp add: list_all_length)
  note ok = thread_step_ok [OF 1(3) comp]
  have seq: "sequential x0 (map (fst \<circ> snd) (log s)) = (shared s, map (snd \<circ> snd) (log s))" and len: "length (threads s) = length progs"
    and idx: "\<forall>e \<in> set (log s). fst e < length progs" and own: "\<And>j. j < length progs \<Longrightarrow> map fst (own j (log s)) @ current (threads s ! j) @ todo (threads s ! j) = progs ! j \<and>
       results (threads s ! j) = map snd (own j (log s))"
    using assms(1) by (auto simp: linear_def)
  have "list_all computed (threads s')"
    using 1(1,2) assms(2) thread_step_computed [OF 1(3) comp] by (auto simp: list_all_length nth_list_update)
  moreover have "sequential x0 (map (fst \<circ> snd) (log s')) = (shared s', map (snd \<circ> snd) (log s'))"
    using ok(3) 1(1) seq by (auto simp: sequential_append commit_def split: option.splits)
  moreover have "map fst (own j (log s')) @ current (threads s' ! j) @ todo (threads s' ! j) = progs ! j \<and>
       results (threads s' ! j) = map snd (own j (log s'))" if "j < length progs" for j
    using own [OF that] ok(1,2) 1(1,2) that len by (cases "j = i") auto
  moreover have "\<forall>e \<in> set (log s'). fst e < length progs"
    using idx 1(1,2) len by (auto simp: commit_def split: option.splits)
  ultimately show ?thesis using 1(1) len by (simp add: linear_def)
qed

lemma reachable_linear:
  "step\<^sup>*\<^sup>* (start x0 progs) s \<Longrightarrow> linear x0 progs s \<and> list_all computed (threads s)"
proof (induction rule: rtranclp_induct)
  case base
  show ?case by (auto simp: linear_def start_def own_def current_def computed_def list_all_length)
next
  case (step s s')
  then show ?case using linear_step [of x0 progs s s'] by simp
qed

section \<open>Progress\<close>

definition weight :: "'a \<Rightarrow> 'a thread \<Rightarrow> nat" where
  "weight x th = (case pc th of None \<Rightarrow> 4 | Some (Load c) \<Rightarrow> 2 | Some (Cas c old new) \<Rightarrow> if old = x then 1 else 3)"

definition pending :: "'a thread \<Rightarrow> nat" where
  "pending th = length (current th @ todo th)"

definition work :: "'a system \<Rightarrow> nat \<times> nat" where
  "work s = (sum_list (map pending (threads s)), sum_list (map (weight (shared s)) (threads s)))"

lemma thread_step_work:
  assumes "thread_step x th = Some (y, th', ev)"
  shows "pending th' < pending th \<or> pending th' = pending th \<and> y = x \<and> weight x th' < weight x th"
  using assms
  by (auto simp: thread_step_def pending_def weight_def current_def atomic_cas_def Let_def
      split: option.splits pc.splits list.splits if_splits)

lemma sum_list_upd_less: "i < length xs \<Longrightarrow> f y < f (xs ! i) \<Longrightarrow> sum_list (map f (xs[i := y])) < (sum_list (map f xs) :: nat)"
  by (induction xs arbitrary: i) (auto split: nat.splits)

lemma sum_list_upd_eq: "i < length xs \<Longrightarrow> f y = f (xs ! i) \<Longrightarrow> sum_list (map f (xs[i := y])) = (sum_list (map f xs) :: nat)"
  by (simp add: map_update) (metis list_update_id map_update nth_map)

text \<open>A failed swap costs a reload, but only a successful one makes others fail: no schedule runs forever.\<close>

lemma step_work: "step s s' \<Longrightarrow> (work s', work s) \<in> less_than <*lex*> less_than"
proof (erule stepE)
  fix i x th ev
  assume s': "s' = \<lparr>shared = x, threads = (threads s)[i := th], log = log s @ commit i ev\<rparr>" and i: "i < length (threads s)"
    and st: "thread_step (shared s) (threads s ! i) = Some (x, th, ev)"
  from thread_step_work [OF st] show ?thesis
  proof
    assume "pending th < pending (threads s ! i)"
    then show ?thesis using sum_list_upd_less [OF i, of pending th] by (simp add: s' work_def)
  next
    assume *: "pending th = pending (threads s ! i) \<and> x = shared s \<and> weight (shared s) th < weight (shared s) (threads s ! i)"
    then show ?thesis
      using sum_list_upd_eq [OF i, of pending th] sum_list_upd_less [OF i, of "weight (shared s)" th] by (simp add: s' work_def)
  qed
qed

lemma step_wf: "wfp (\<lambda>s' s. step s s')"
  by (rule wfp_if_convertible_to_wfp [where f = work and S = "\<lambda>a b. (a, b) \<in> less_than <*lex*> less_than"])
    (use step_work in \<open>auto simp: wfp_def\<close>)

definition idle :: "'a thread \<Rightarrow> bool" where
  "idle th \<longleftrightarrow> pc th = None \<and> todo th = []"

lemma thread_step_stuck: "thread_step x th = None \<longleftrightarrow> idle th"
  by (auto simp: thread_step_def idle_def atomic_cas_def Let_def split: option.splits pc.splits list.splits)

lemma step_stuck: "(\<nexists>s'. step s s') \<longleftrightarrow> list_all idle (threads s)"
proof
  assume stuck: "\<nexists>s'. step s s'"
  have "idle (threads s ! i)" if "i < length (threads s)" for i
  proof (rule ccontr)
    assume "\<not> idle (threads s ! i)"
    then obtain x th ev where "thread_step (shared s) (threads s ! i) = Some (x, th, ev)"
      using thread_step_stuck by (metis option.exhaust prod_cases3)
    then show False using step.intros [OF that] stuck by metis
  qed
  then show "list_all idle (threads s)" by (simp add: list_all_length)
next
  assume "list_all idle (threads s)"
  then show "\<nexists>s'. step s s'"
    by (metis list_all_length option.distinct(1) stepE thread_step_stuck)
qed

text \<open>A schedule, as the list of the threads that step, and the run it makes.\<close>

fun run :: "nat list \<Rightarrow> 'a system \<Rightarrow> 'a system option" where
  "run [] s = Some s"
| "run (i # is) s = (if i < length (threads s) then (case thread_step (shared s) (threads s ! i) of
       None \<Rightarrow> None
     | Some (x, th, ev) \<Rightarrow> run is \<lparr>shared = x, threads = (threads s)[i := th], log = log s @ commit i ev\<rparr>)
   else None)"

lemma run_steps: "run is s = Some s' \<Longrightarrow> step\<^sup>*\<^sup>* s s'"
proof (induction "is" s rule: run.induct)
  case (2 i "is" s)
  then obtain x th ev where *: "i < length (threads s)" "thread_step (shared s) (threads s ! i) = Some (x, th, ev)"
      "run is \<lparr>shared = x, threads = (threads s)[i := th], log = log s @ commit i ev\<rparr> = Some s'"
    by (auto split: if_splits option.splits)
  have "step\<^sup>*\<^sup>* \<lparr>shared = x, threads = (threads s)[i := th], log = log s @ commit i ev\<rparr> s'"
    using "2.IH" * by simp
  then show ?case using step.intros [OF *(1,2)] by (rule converse_rtranclp_into_rtranclp [rotated])
qed simp

section \<open>Counting\<close>

lemma sequential_inc: "sequential x (replicate n atomic_inc_32_nv) = (x + of_nat n, map (\<lambda>k. Some (x + of_nat (Suc k))) [0..<n])"
proof (induction n arbitrary: x)
  case (Suc n)
  show ?case unfolding replicate_Suc sequential.simps Suc.IH upt_conv_Cons [OF zero_less_Suc] map_Suc_upt [symmetric]
    by (simp add: atomic_inc_32_nv_def)
qed simp

lemma own_mset: "\<forall>e \<in> set l. fst e < n \<Longrightarrow> mset (concat (map (\<lambda>i. own i l) [0..<n])) = mset (map snd l)"
proof (induction l)
  case Nil
  have "concat (map (\<lambda>i. own i []) [0..<n]) = ([] :: ('b cas_op \<times> 'b option) list)" by (simp add: own_def)
  then show ?case by simp
next
  case (Cons e l)
  have "mset (concat (map (\<lambda>i. own i (e # l)) is)) = (\<Sum>i\<leftarrow>is. if i = fst e then {#snd e#} else {#}) + mset (concat (map (\<lambda>i. own i l) is))" for "is"
    by (induction "is") (auto simp: own_def)
  moreover have "(\<Sum>i\<leftarrow>[0..<n]. if i = fst e then {#snd e#} else {#}) = {#snd e#}"
    using Cons.prems by (simp add: interv_sum_list_conv_sum_set_nat)
  ultimately show ?case using Cons by simp
qed

lemma idle_log:
  assumes "linear x0 progs s" "list_all idle (threads s)"
  shows "mset (map (fst \<circ> snd) (log s)) = mset (concat progs)"
    and "mset (map (snd \<circ> snd) (log s)) = mset (concat (map results (threads s)))"
proof -
  have len: "length (threads s) = length progs" using assms(1) by (simp add: linear_def)
  have own: "map fst (own i (log s)) = progs ! i" "map snd (own i (log s)) = results (threads s ! i)" if "i < length progs" for i
    using assms that len by (auto simp: linear_def list_all_length idle_def current_def)
  have m: "mset (concat (map (\<lambda>i. own i (log s)) [0..<length progs])) = mset (map snd (log s))"
    using assms(1) by (intro own_mset) (simp add: linear_def)
  have "map (\<lambda>i. map fst (own i (log s))) [0..<length progs] = progs"
    using own(1) by (auto intro!: nth_equalityI)
  then have "map fst (concat (map (\<lambda>i. own i (log s)) [0..<length progs])) = concat progs"
    by (simp add: map_concat comp_def)
  then show "mset (map (fst \<circ> snd) (log s)) = mset (concat progs)"
    using arg_cong [OF m, of "image_mset fst"] by (metis map_map mset_map)
  have "map (\<lambda>i. map snd (own i (log s))) [0..<length progs] = map results (threads s)"
    using own(2) len by (auto intro!: nth_equalityI)
  then have "map snd (concat (map (\<lambda>i. own i (log s)) [0..<length progs])) = concat (map results (threads s))"
    by (simp add: map_concat comp_def)
  then show "mset (map (snd \<circ> snd) (log s)) = mset (concat (map results (threads s)))"
    using arg_cong [OF m, of "image_mset snd"] by (metis map_map mset_map)
qed

section \<open>Narrow compare-and-swap on a wider one\<close>

text \<open>
  One turn of the loop of \<^verbatim>\<open>_atomic_cas_16\<close> and \<^verbatim>\<open>_atomic_cas_8\<close> (\<^verbatim>\<open>atomic_cas_by_cas32.c\<close>) on the 32-bit word it has loaded:
  \<open>Inl\<close> is the early return, \<open>Inr\<close> the word to swap in.  \<open>off\<close> is the offset of the byte address in the word.
\<close>

definition cas_16 :: "nat \<Rightarrow> u16 \<Rightarrow> u16 \<Rightarrow> u32 \<Rightarrow> u16 + u32" where
  "cas_16 off old new old32 = (let shift = off * 8; mask = push_bit shift 0xFFFF;
     old32_part = push_bit shift (ucast old); new32_part = push_bit shift (ucast new)
   in if old32 AND mask \<noteq> old32_part then Inl (ucast (drop_bit shift (old32 AND mask)))
     else Inr (old32 AND NOT mask OR new32_part))"

definition cas_8 :: "nat \<Rightarrow> byte \<Rightarrow> byte \<Rightarrow> u32 \<Rightarrow> byte + u32" where
  "cas_8 off old new old32 = (let shift = off * 8; mask = push_bit shift 0xFF;
     old32_part = push_bit shift (ucast old); new32_part = push_bit shift (ucast new)
   in if old32 AND mask \<noteq> old32_part then Inl (ucast (drop_bit shift (old32 AND mask)))
     else Inr (old32 AND NOT mask OR new32_part))"

text \<open>The value at byte offset \<open>off\<close> of a little-endian word.\<close>

definition lane :: "nat \<Rightarrow> u32 \<Rightarrow> 'a::len word" where
  "lane off w = ucast (drop_bit (off * 8) w)"

text \<open>What the loops rely on: the masked comparison is the comparison of the lane, the merge replaces it.\<close>

lemma lane_test:
  fixes old :: "'a::len word" and w :: u32
  assumes "s + LENGTH('a) \<le> 32"
  shows "w AND push_bit s (mask LENGTH('a)) = push_bit s (ucast old) \<longleftrightarrow> ucast (drop_bit s w) = old"
proof
  have A: "bit (w AND push_bit s (mask LENGTH('a))) k \<longleftrightarrow> s \<le> k \<and> k < s + LENGTH('a) \<and> bit (ucast (drop_bit s w) :: 'a word) (k - s)" for k
    using assms by (auto simp: bit_simps bit_mask_iff dest: bit_imp_le_length)
  have B: "bit (push_bit s (ucast old) :: u32) k \<longleftrightarrow> s \<le> k \<and> k < s + LENGTH('a) \<and> bit old (k - s)" for k
    using assms by (auto simp: bit_simps dest: bit_imp_le_length)
  show "ucast (drop_bit s w) = old" if eq: "w AND push_bit s (mask LENGTH('a)) = push_bit s (ucast old)"
  proof (rule bit_word_eqI)
    fix n assume "n < LENGTH('a)"
    then show "bit (ucast (drop_bit s w) :: 'a word) n \<longleftrightarrow> bit old n"
      using A [of "s + n"] B [of "s + n"] eq by simp
  qed
  show "w AND push_bit s (mask LENGTH('a)) = push_bit s (ucast old)" if eq: "ucast (drop_bit s w) = old"
    by (rule bit_word_eqI) (simp only: A B eq)
qed

lemma lane_merge:
  fixes new :: "'a::len word" and w :: u32
  assumes "s + LENGTH('a) \<le> 32"
  defines "w' \<equiv> w AND NOT (push_bit s (mask LENGTH('a))) OR push_bit s (ucast new)"
  shows "ucast (drop_bit s w') = new" and "k < s \<or> s + LENGTH('a) \<le> k \<Longrightarrow> bit w' k \<longleftrightarrow> bit w k"
proof -
  show "ucast (drop_bit s w') = new"
    unfolding w'_def by (rule bit_word_eqI) (use assms(1) in \<open>auto simp: bit_simps bit_mask_iff dest: bit_imp_le_length\<close>)
  show "k < s \<or> s + LENGTH('a) \<le> k \<Longrightarrow> bit w' k \<longleftrightarrow> bit w k"
    unfolding w'_def by (auto simp: bit_simps bit_mask_iff dest: bit_imp_le_length)
qed

lemma lane_masked:
  fixes w :: u32
  assumes "s + LENGTH('a) \<le> 32"
  shows "(ucast (drop_bit s (w AND push_bit s (mask LENGTH('a)))) :: 'a::len word) = ucast (drop_bit s w)"
  by (rule bit_word_eqI) (use assms in \<open>auto simp: bit_simps bit_mask_iff\<close>)

lemma masks: "(0xFFFF :: u32) = mask 16" "(0xFF :: u32) = mask 8"
  by (simp_all add: mask_eq_exp_minus_1)

definition swaps_lane :: "nat \<Rightarrow> 'a::len word \<Rightarrow> 'a word \<Rightarrow> u32 \<Rightarrow> 'a word + u32 \<Rightarrow> bool" where
  "swaps_lane off old new w r \<longleftrightarrow> (case r of
     Inl v \<Rightarrow> v = lane off w \<and> v \<noteq> old
   | Inr w' \<Rightarrow> lane off w = old \<and> lane off w' = new \<and> (\<forall>k. k < off * 8 \<or> off * 8 + LENGTH('a) \<le> k \<longrightarrow> bit w' k = bit w k))"

lemma cas_lanes: "off \<le> 2 \<Longrightarrow> swaps_lane off old new w (cas_16 off old new w)" "off \<le> 3 \<Longrightarrow> swaps_lane off old' new' w (cas_8 off old' new' w)"
proof -
  show "swaps_lane off old new w (cas_16 off old new w)" if "off \<le> 2"
    using lane_test [of "off * 8" w old] lane_merge [where s = "off * 8" and w = w and new = new] lane_masked [of "off * 8" w, where 'a = 16] that
    by (auto simp: cas_16_def swaps_lane_def lane_def masks Let_def)
  show "swaps_lane off old' new' w (cas_8 off old' new' w)" if "off \<le> 3"
    using lane_test [of "off * 8" w old'] lane_merge [where s = "off * 8" and w = w and new = new'] lane_masked [of "off * 8" w, where 'a = 8] that
    by (auto simp: cas_8_def swaps_lane_def lane_def masks Let_def)
qed

section \<open>Properties\<close>

text \<open>
  C13. Linearizability.  Whatever the schedule of the threads, in every reachable state the shared value and
  all results are those of running the operations whose swap succeeded one after the other, in the order of
  the swaps; each thread has completed a prefix of its calls in order and received exactly their results, so
  no update is lost and none is applied twice.
\<close>

theorem cas_loops_linearizable:
  assumes "step\<^sup>*\<^sup>* (start x0 progs) s"
  shows "linear x0 progs s"
  using reachable_linear [OF assms] by simp

text \<open>Two threads load the same value; the swap of the second fails, and it tries again.\<close>

theorem cas_loops_linearizable_witness:
  "\<exists>s. run [0, 1, 0, 1, 0, 1, 1, 1] (start 7 [[atomic_inc_32_nv], [fetch_and_add_4 5]]) = Some s \<and>
     linear 7 [[atomic_inc_32_nv], [fetch_and_add_4 5]] s \<and> shared s = 13 \<and> map results (threads s) = [[Some 8], [Some 8]]"
proof -
  have "map_option (\<lambda>s. (shared s, map results (threads s))) (run [0, 1, 0, 1, 0, 1, 1, 1] (start 7 [[atomic_inc_32_nv], [fetch_and_add_4 5]])) =
    Some (13, [[Some 8], [Some 8]])" by code_simp
  then obtain s where s: "run [0, 1, 0, 1, 0, 1, 1, 1] (start 7 [[atomic_inc_32_nv], [fetch_and_add_4 5]]) = Some s"
    "shared s = 13" "map results (threads s) = [[Some 8], [Some 8]]" by auto
  have "linear 7 [[atomic_inc_32_nv], [fetch_and_add_4 5]] s" by (rule cas_loops_linearizable [OF run_steps [OF s(1)]])
  then show ?thesis using s by (intro exI [of _ s] conjI)
qed

text \<open>
  C28. Progress.  No schedule runs forever, although a loop retries whenever its swap fails: a swap fails only
  because another one has succeeded.  A system that cannot step has finished every call.
\<close>

theorem cas_loops_finish:
  "wfp (\<lambda>s' s. step s s') \<and> ((\<nexists>s'. step s s') \<longleftrightarrow> list_all idle (threads s))"
  using step_wf step_stuck by blast

text \<open>
  Threads that share a counter through \<open>atomic_inc_32_nv\<close>: when all calls are done, the counter has advanced
  by their number (modulo \<open>2 ^ 32\<close>) and the values returned to the threads are together the consecutive
  values of the counter, each once.
\<close>

theorem atomic_inc_counts:
  assumes "step\<^sup>*\<^sup>* (start x0 progs) s" "list_all idle (threads s)" "set (concat progs) \<subseteq> {atomic_inc_32_nv}"
  shows "shared s = x0 + of_nat (length (concat progs)) \<and>
    mset (concat (map results (threads s))) = mset (map (\<lambda>k. Some (x0 + of_nat (Suc k))) [0..<length (concat progs)])"
proof -
  have lin: "linear x0 progs s" using reachable_linear [OF assms(1)] by simp
  note idle = idle_log [OF lin assms(2)]
  have "map (fst \<circ> snd) (log s) = replicate (length (concat progs)) atomic_inc_32_nv"
  proof (rule replicate_eqI)
    show "length (map (fst \<circ> snd) (log s)) = length (concat progs)" using idle(1) by (metis size_mset)
    show "x = atomic_inc_32_nv" if "x \<in> set (map (fst \<circ> snd) (log s))" for x
      using that assms(3) unfolding mset_eq_setD [OF idle(1)] by blast
  qed
  then have "(shared s, map (snd \<circ> snd) (log s)) = sequential x0 (replicate (length (concat progs)) atomic_inc_32_nv)"
    using lin by (simp add: linear_def)
  then show ?thesis using idle(2) by (simp add: sequential_inc)
qed

text \<open>
  The 16-bit and 8-bit compare-and-swap on a 32-bit one: the loop returns early exactly when the lane at
  the address does not hold \<open>old\<close>, with the value of the lane; otherwise the word it swaps in has \<open>new\<close> in that
  lane and the other bytes as they were.
\<close>

theorem narrow_cas_correct:
  "(off \<le> 2 \<longrightarrow> swaps_lane off old new w (cas_16 off old new w)) \<and> (off \<le> 3 \<longrightarrow> swaps_lane off old' new' w (cas_8 off old' new' w))"
  using cas_lanes by blast

end
