(* ===== verification/Utf8.thy ===== *)
theory Utf8
  imports Prelude
begin

text \<open>
  The UTF-8 encoding module, \<^verbatim>\<open>src/libc/citrus/modules/citrus_utf8.c\<close>: the restartable decoder
  \<^verbatim>\<open>_citrus_UTF8_mbrtowc_priv\<close> with its state, and the encoder \<^verbatim>\<open>_citrus_UTF8_wcrtomb_priv\<close>.  \<open>wchar_t\<close> is a
  32-bit word, read as signed where the source compares it.  The two lookup tables are filled by the
  loops of \<^verbatim>\<open>_UTF8_init_count\<close>.
\<close>

section \<open>The program\<close>

datatype mb_err = OK | EILSEQ | E2BIG | EINVAL | ENOMEM | EIO

record UTF8State =
  ch :: "byte list"
  chlen :: nat

text \<open>\<^verbatim>\<open>for (i = lo; i <= hi; i++) a[i] = v;\<close>\<close>

definition fill_range :: "nat \<Rightarrow> nat \<Rightarrow> 'a \<Rightarrow> 'a list \<Rightarrow> 'a list" where
  "fill_range lo hi v a = fold (\<lambda>i a. a[i := v]) [lo..<hi + 1] a"

definition UTF8_count :: "nat list" where
  "UTF8_count = (fill_range 0xf4 0xf4 4 \<circ> fill_range 0xf1 0xf3 4 \<circ> fill_range 0xf0 0xf0 4 \<circ>
     fill_range 0xee 0xef 3 \<circ> fill_range 0xed 0xed 3 \<circ> fill_range 0xe1 0xec 3 \<circ> fill_range 0xe0 0xe0 3 \<circ>
     fill_range 0xc2 0xdf 2 \<circ> fill_range 0 0x7f 1) (replicate 256 0)"

definition UTF8_Byte2 :: "(byte \<times> byte) list" where
  "UTF8_Byte2 = (fill_range 0xf4 0xf4 (0x80, 0x8F) \<circ> fill_range 0xf1 0xf3 (0x80, 0xBF) \<circ> fill_range 0xf0 0xf0 (0x90, 0xBF) \<circ>
     fill_range 0xee 0xef (0x80, 0xBF) \<circ> fill_range 0xed 0xed (0x80, 0x9F) \<circ> fill_range 0xe1 0xec (0x80, 0xBF) \<circ>
     fill_range 0xe0 0xe0 (0xA0, 0xBF) \<circ> fill_range 0xc2 0xdf (0x80, 0xBF)) (replicate 256 (0, 0))"

definition UTF8_range :: "u32 list" where
  "UTF8_range = [0, 0x00000000, 0x00000080, 0x00000800, 0x00010000, 0x00110000]"

fun findlen_loop :: "u32 \<Rightarrow> nat list \<Rightarrow> int" where
  "findlen_loop c [] = - 1"
| "findlen_loop c (i # is) = (if UTF8_range ! i \<le> c \<and> c < UTF8_range ! (i + 1) then int i else findlen_loop c is)"

definition UTF8_findlen :: "u32 \<Rightarrow> int" where
  "UTF8_findlen v = findlen_loop v [1..<5]"

definition UTF8_surrogate :: "u32 \<Rightarrow> bool" where
  "UTF8_surrogate wc \<longleftrightarrow> sint wc \<ge> 0xd800 \<and> sint wc \<le> 0xdfff"

definition init_state :: "UTF8State \<Rightarrow> UTF8State" where
  "init_state ps = ps\<lparr>chlen := 0\<rparr>"

definition push_ch :: "UTF8State \<Rightarrow> byte \<Rightarrow> UTF8State option" where
  "push_ch ps x = do { b \<leftarrow> st (ch ps) (chlen ps) x; Some (ps\<lparr>ch := b, chlen := chlen ps + 1\<rparr>) }"

text \<open>The loop that collects the continuation bytes; the three ways out of it.\<close>

datatype outcome = Full | Ilseq | Restart

fun collect :: "nat \<Rightarrow> mem \<Rightarrow> nat \<Rightarrow> nat \<Rightarrow> UTF8State \<Rightarrow> (outcome \<times> nat \<times> UTF8State) option" where
  "collect c m s0 n ps = (if chlen ps < c then
     (case n of
        0 \<Rightarrow> Some (Restart, s0, ps)
      | Suc n \<Rightarrow> do {
          x \<leftarrow> ld m s0;
          if x AND 0xc0 \<noteq> 0x80 then Some (Ilseq, s0, ps)
          else do { ps \<leftarrow> push_ch ps x; collect c m (s0 + 1) n ps } })
   else Some (Full, s0, ps))"

declare collect.simps [simp del]

fun add_bits :: "byte list \<Rightarrow> u32 \<Rightarrow> u32" where
  "add_bits [] wchar = wchar"
| "add_bits (b # bs) wchar = add_bits bs (push_bit 6 wchar OR ucast (b AND 0x3f))"

definition assemble :: "nat \<Rightarrow> byte list \<Rightarrow> u32" where
  "assemble c bs = add_bits (take (c - 1) (tl bs)) (ucast (hd bs AND drop_bit c 0x7f))"

text \<open>
  The decoder; \<open>mb_continue\<close> is its part for sequences of several bytes.  Its result is the return value, the character stored through \<^verbatim>\<open>pwc\<close>, \<^verbatim>\<open>*nresult\<close>, \<^verbatim>\<open>*s\<close> and the
  state; \<^verbatim>\<open>*s\<close> is unchanged when the sequence is illegal.
\<close>

definition mb_continue :: "mem \<Rightarrow> nat \<Rightarrow> nat \<Rightarrow> nat \<Rightarrow> nat \<Rightarrow> UTF8State \<Rightarrow> (mb_err \<times> u32 option \<times> u64 \<times> ptr \<times> UTF8State) option" where
  "mb_continue m p s0 n c ps = do {
     let b = ch ps ! 0;
     bad \<leftarrow> (if chlen ps = 1 \<and> n \<ge> 1 then do {
         x \<leftarrow> ld m s0; Some (fst (UTF8_Byte2 ! unat b) > x \<or> snd (UTF8_Byte2 ! unat b) < x) }
       else Some False);
     if bad then Some (EILSEQ, None, - 1, Some p, ps)
     else do {
       (r, s0, ps) \<leftarrow> collect c m s0 n ps;
       case r of
         Restart \<Rightarrow> Some (OK, None, - 2, Some s0, ps)
       | Ilseq \<Rightarrow> Some (EILSEQ, None, - 1, Some p, ps)
       | Full \<Rightarrow> let wchar = assemble c (ch ps) in
           Some (OK, Some wchar, if wchar = 0 then 0 else of_nat (s0 - p), Some s0, ps\<lparr>chlen := 0\<rparr>) } }"

definition mbrtowc_priv :: "mem \<Rightarrow> ptr \<Rightarrow> nat \<Rightarrow> UTF8State \<Rightarrow> (mb_err \<times> u32 option \<times> u64 \<times> ptr \<times> UTF8State) option" where
  "mbrtowc_priv m s n ps = (case s of None \<Rightarrow> Some (OK, None, 0, None, init_state ps)
   | Some p \<Rightarrow>
     if chlen ps = 0 \<and> n < 1 then Some (OK, None, - 2, Some p, ps)
     else do {
       (s0, n, ps) \<leftarrow> (if chlen ps = 0 then do {
           x \<leftarrow> ld m p; ps \<leftarrow> push_ch ps x; Some (p + 1, n - 1, ps) }
         else Some (p, n, ps));
       let b = ch ps ! 0;
       let c = UTF8_count ! unat b;
       if c < 1 \<or> c < chlen ps then Some (EILSEQ, None, - 1, Some p, ps)
       else if c = 1 then
         Some (OK, Some (ucast b), if ucast b = (0 :: u32) then 0 else of_nat (s0 - p), Some s0, ps\<lparr>chlen := 0\<rparr>)
       else mb_continue m p s0 n c ps })"

text \<open>The encoder: return value, \<^verbatim>\<open>*nresult\<close> and the memory with the bytes at \<open>s\<close>.\<close>

fun put_cont :: "mem \<Rightarrow> nat \<Rightarrow> nat \<Rightarrow> u32 \<Rightarrow> (mem \<times> u32) option" where
  "put_cont m s 0 c = Some (m, c)"
| "put_cont m s (Suc i) c = do {
     m \<leftarrow> st m (s + Suc i) (0x80 OR ucast (c AND 0x3f));
     put_cont m s i (signed_drop_bit 6 c) }"

definition put_char :: "mem \<Rightarrow> nat \<Rightarrow> nat \<Rightarrow> u32 \<Rightarrow> mem option" where
  "put_char m s cnt c = do {
     (m, c) \<leftarrow> put_cont m s (cnt - 1) c;
     st m s (if cnt = 1 then ucast c AND 0x7f
       else ucast c AND drop_bit cnt 0x7f OR ucast (drop_bit cnt (0xff00 :: u32) AND 0xff)) }"

definition wcrtomb_priv :: "mem \<Rightarrow> ptr \<Rightarrow> nat \<Rightarrow> u32 \<Rightarrow> (mb_err \<times> u64 \<times> mem) option" where
  "wcrtomb_priv m s n wc = (if UTF8_surrogate wc then Some (EILSEQ, - 1, m)
   else let cnt = UTF8_findlen wc in
     if cnt \<le> 0 \<or> cnt > 4 then Some (EILSEQ, - 1, m)
     else if n < nat cnt then Some (E2BIG, - 1, m)
     else do {
       m \<leftarrow> (case s of None \<Rightarrow> Some m
         | Some s \<Rightarrow> put_char m s (nat cnt) wc);
       Some (OK, of_int cnt, m) })"

section \<open>Specification\<close>

text \<open>Unicode scalar values and their encoding form.\<close>

definition scalar :: "nat \<Rightarrow> bool" where
  "scalar v \<longleftrightarrow> v < 0x110000 \<and> \<not> (0xD800 \<le> v \<and> v \<le> 0xDFFF)"

definition utf8_units :: "nat \<Rightarrow> nat list" where
  "utf8_units v = (
     if v < 0x80 then [v]
     else if v < 0x800 then [0xC0 + v div 0x40, 0x80 + v mod 0x40]
     else if v < 0x10000 then [0xE0 + v div 0x1000, 0x80 + v div 0x40 mod 0x40, 0x80 + v mod 0x40]
     else [0xF0 + v div 0x40000, 0x80 + v div 0x1000 mod 0x40, 0x80 + v div 0x40 mod 0x40, 0x80 + v mod 0x40])"

definition utf8 :: "nat \<Rightarrow> byte list" where
  "utf8 v = map word_of_nat (utf8_units v)"

section \<open>The tables\<close>

lemma length_fill_range [simp]: "length (fill_range lo hi v a) = length a"
proof -
  have "length (fold (\<lambda>i a. a[i := v]) is a) = length a" for "is" by (induction "is" arbitrary: a) simp_all
  then show ?thesis by (simp add: fill_range_def)
qed

lemma nth_fill_range: "i < length a \<Longrightarrow> fill_range lo hi v a ! i = (if lo \<le> i \<and> i \<le> hi then v else a ! i)"
proof -
  have "i < length a \<Longrightarrow> fold (\<lambda>i a. a[i := v]) is a ! i = (if i \<in> set is then v else a ! i)" for "is"
    by (induction "is" arbitrary: a) (auto simp: nth_list_update)
  then show "i < length a \<Longrightarrow> ?thesis" by (auto simp: fill_range_def)
qed

definition count :: "byte \<Rightarrow> nat" where "count b = UTF8_count ! unat b"

lemma count_eq: "count b = (if unat b < 0x80 then 1 else if unat b < 0xc2 then 0 else if unat b < 0xe0 then 2
    else if unat b < 0xf0 then 3 else if unat b < 0xf5 then 4 else 0)"
  unfolding count_def UTF8_count_def by (simp add: nth_fill_range)

lemma count_le: "count b \<le> 4"
  by (simp add: count_eq)

definition second :: "byte \<Rightarrow> byte \<Rightarrow> bool" where
  "second b x \<longleftrightarrow> fst (UTF8_Byte2 ! unat b) \<le> x \<and> x \<le> snd (UTF8_Byte2 ! unat b)"

lemma second_eq: "1 < count b \<Longrightarrow> second b x \<longleftrightarrow>
    (if unat b = 0xe0 then 0xa0 else if unat b = 0xf0 then 0x90 else 0x80) \<le> unat x \<and>
    unat x \<le> (if unat b = 0xed then 0x9f else if unat b = 0xf4 then 0x8f else 0xbf)"
  unfolding second_def UTF8_Byte2_def
  by (auto simp: nth_fill_range count_eq word_le_nat_alt split: if_splits)

lemma Byte2_low: "1 < count b \<Longrightarrow> second b (fst (UTF8_Byte2 ! unat b)) \<and> 0x80 \<le> unat (fst (UTF8_Byte2 ! unat b)) \<and> unat (fst (UTF8_Byte2 ! unat b)) < 0xC0"
  unfolding second_def UTF8_Byte2_def by (auto simp: nth_fill_range count_eq word_le_nat_alt split: if_splits)

definition cont :: "byte \<Rightarrow> bool" where "cont x \<longleftrightarrow> x AND 0xc0 = 0x80"

lemma cont_eq: "cont x \<longleftrightarrow> 0x80 \<le> unat x \<and> unat x < 0xc0"
proof -
  have "list_all (\<lambda>i. cont (word_of_nat i) = (0x80 \<le> i \<and> i < 0xc0)) [0..<256]" by code_simp
  then have "cont (word_of_nat (unat x)) = (0x80 \<le> unat x \<and> unat x < 0xc0)" unfolding list_all_iff by (metis atLeast0LessThan byte_less lessThan_iff set_upt)
  then show ?thesis by simp
qed

section \<open>Well-formed sequences\<close>

text \<open>A lead byte and the bytes that may follow it, not necessarily all of them.\<close>

definition good :: "byte list \<Rightarrow> bool" where
  "good p \<longleftrightarrow> p \<noteq> [] \<and> length p \<le> count (hd p) \<and> (1 < length p \<longrightarrow> second (hd p) (p ! 1)) \<and> list_all cont (tl p)"

text \<open>The same on numbers.\<close>

definition count_unit :: "nat \<Rightarrow> nat" where
  "count_unit b = (if b < 0x80 then 1 else if b < 0xc2 then 0 else if b < 0xe0 then 2 else if b < 0xf0 then 3 else if b < 0xf5 then 4 else 0)"

definition second_unit :: "nat \<Rightarrow> nat \<Rightarrow> bool" where
  "second_unit b x \<longleftrightarrow> (if b = 0xe0 then 0xa0 else if b = 0xf0 then 0x90 else 0x80) \<le> x \<and>
    x \<le> (if b = 0xed then 0x9f else if b = 0xf4 then 0x8f else 0xbf)"

definition good_units :: "nat list \<Rightarrow> bool" where
  "good_units p \<longleftrightarrow> p \<noteq> [] \<and> length p \<le> count_unit (hd p) \<and> (1 < length p \<longrightarrow> second_unit (hd p) (p ! 1)) \<and>
     list_all (\<lambda>x. 0x80 \<le> x \<and> x < 0xc0) (tl p)"

lemma good_units: "good p \<longleftrightarrow> good_units (map unat p)"
proof (cases p)
  case (Cons b r)
  have "count b = count_unit (unat b)" by (simp add: count_eq count_unit_def)
  moreover have "1 < count b \<Longrightarrow> second b x = second_unit (unat b) (unat x)" for x
    using second_eq [of b x] by (simp add: second_unit_def)
  ultimately show ?thesis using Cons by (cases r) (auto simp: good_def good_units_def cont_eq list_all_iff)
qed (simp add: good_def good_units_def)

lemma divmod_unit: "y < (k :: nat) \<Longrightarrow> (x * k + y) div k = x" "y < (k :: nat) \<Longrightarrow> (x * k + y) mod k = y"
  by simp_all

lemma div_units: "v div 0x1000 = v div 0x40 div 0x40" "v div 0x40000 = v div 0x40 div 0x40 div (0x40 :: nat)"
  by (simp_all add: div_mult2_eq [symmetric])

text \<open>The three multibyte forms by their digits in base 64.\<close>

lemma utf8_units_2: "y < 64 \<Longrightarrow> 2 \<le> x \<Longrightarrow> x < 32 \<Longrightarrow> utf8_units (x * 64 + y) = [0xC0 + x, 0x80 + y]"
  by (simp add: utf8_units_def divmod_unit)

lemma utf8_units_3:
  assumes "z < 64" "y < 64" "x < 16" "0 < x \<or> 32 \<le> y"
  shows "utf8_units ((x * 64 + y) * 64 + z) = [0xE0 + x, 0x80 + y, 0x80 + z]"
proof -
  have "\<not> (x * 64 + y) * 64 + z < 0x800" "(x * 64 + y) * 64 + z < 0x10000" using assms by auto
  then show ?thesis unfolding utf8_units_def div_units using assms by (simp only: divmod_unit if_False if_True) simp
qed

lemma utf8_units_4:
  assumes "z < 64" "y < 64" "x < 64" "0 < w \<or> 16 \<le> x"
  shows "utf8_units (((w * 64 + x) * 64 + y) * 64 + z) = [0xF0 + w, 0x80 + x, 0x80 + y, 0x80 + z]"
proof -
  have "\<not> ((w * 64 + x) * 64 + y) * 64 + z < 0x10000" using assms by auto
  then show ?thesis unfolding utf8_units_def div_units using assms by (simp only: divmod_unit if_False) simp
qed

lemma base64_digits: "(v :: nat) = v div 64 * 64 + v mod 64"
  by simp

text \<open>Every scalar value is one of them.\<close>

lemma scalar_cases:
  assumes "scalar v"
  obtains "v < 0x80" | x y where "v = x * 64 + y" "y < 64" "2 \<le> x" "x < 32"
  | x y z where "v = (x * 64 + y) * 64 + z" "z < 64" "y < 64" "x < 16" "0 < x \<or> 32 \<le> y" "x = 13 \<longrightarrow> y < 32"
  | w x y z where "v = ((w * 64 + x) * 64 + y) * 64 + z" "z < 64" "y < 64" "x < 64" "0 < w \<or> 16 \<le> x" "w < 4 \<or> w = 4 \<and> x < 16"
proof -
  define z y x w where "z = v mod 64" and "y = v div 64 mod 64" and "x = v div 64 div 64 mod 64" and "w = v div 64 div 64 div 64"
  have v: "v = ((w * 64 + x) * 64 + y) * 64 + z" by (simp add: z_def y_def x_def w_def)
  have l: "z < 64" "y < 64" "x < 64" by (simp_all add: z_def y_def x_def)
  consider "v < 0x80" | "0x80 \<le> v" "v < 0x800" | "0x800 \<le> v" "v < 0x10000" | "0x10000 \<le> v" by linarith
  then show thesis
  proof cases
    case 1
    then show ?thesis by (rule that(1))
  next
    case 2
    then have "w = 0" "x = 0" using v l by auto
    moreover from this have "2 \<le> y" "y < 32" using 2 v l by simp_all
    ultimately show ?thesis using v l by (intro that(2) [of y z]) simp_all
  next
    case 3
    then have "w = 0" using v l by auto
    moreover from this have "x < 16" "0 < x \<or> 32 \<le> y" using 3 v l by simp_all linarith
    moreover from \<open>w = 0\<close> have "x = 13 \<longrightarrow> y < 32" using assms v l by (auto simp: scalar_def)
    ultimately show ?thesis using v l by (intro that(3) [of x y z]) auto
  next
    case 4
    then have "0 < w \<or> 16 \<le> x" using v l by auto
    moreover have "w < 4 \<or> w = 4 \<and> x < 16" using assms v l by (auto simp: scalar_def)
    ultimately show ?thesis using v l by (intro that(4) [of w x y z])
  qed
qed

lemma utf8_units_good: "scalar v \<Longrightarrow> good_units (utf8_units v) \<and> length (utf8_units v) = count_unit (hd (utf8_units v))"
proof (erule scalar_cases)
  assume "v < 0x80"
  then show ?thesis by (simp add: utf8_units_def good_units_def count_unit_def)
next
  fix x y
  assume "v = x * 64 + y" "y < 64" "2 \<le> x" "x < 32"
  then show ?thesis by (simp add: utf8_units_2 good_units_def count_unit_def second_unit_def)
next
  fix x y z
  assume "v = (x * 64 + y) * 64 + z" and *: "z < 64" "y < 64" "x < 16" "0 < x \<or> 32 \<le> y" "x = 13 \<longrightarrow> y < 32"
  then have "utf8_units v = [0xE0 + x, 0x80 + y, 0x80 + z]" by (simp only: utf8_units_3)
  then show ?thesis using * by (auto simp: good_units_def count_unit_def second_unit_def)
next
  fix w x y z
  assume "v = ((w * 64 + x) * 64 + y) * 64 + z" and *: "z < 64" "y < 64" "x < 64" "0 < w \<or> 16 \<le> x" "w < 4 \<or> w = 4 \<and> x < 16"
  then have "utf8_units v = [0xF0 + w, 0x80 + x, 0x80 + y, 0x80 + z]" by (simp only: utf8_units_4)
  then show ?thesis using * by (auto simp: good_units_def count_unit_def second_unit_def)
qed

lemma good_units_utf8:
  assumes "good_units p" "length p = count_unit (hd p)"
  shows "\<exists>v. scalar v \<and> p = utf8_units v"
proof -
  have "count_unit (hd p) \<le> 4" by (simp add: count_unit_def)
  then consider a where "p = [a]" | a b where "p = [a, b]" | a b c where "p = [a, b, c]" | a b c d where "p = [a, b, c, d]"
    using assms by (cases p rule: list.exhaust [case_product list.exhaust]) (auto simp: good_units_def numeral_eq_Suc length_Suc_conv le_Suc_eq)
  then show ?thesis
  proof cases
    case (1 a)
    then have "a < 0x80" using assms by (auto simp: count_unit_def split: if_splits)
    then show ?thesis using 1 by (intro exI [of _ a]) (simp add: utf8_units_def scalar_def)
  next
    case (2 a b)
    then have *: "0xC2 \<le> a" "a < 0xE0" "0x80 \<le> b" "b < 0xC0" using assms by (auto simp: count_unit_def good_units_def split: if_splits)
    then have "utf8_units ((a - 0xC0) * 64 + (b - 0x80)) = p" by (subst utf8_units_2) (auto simp: 2)
    moreover have "scalar ((a - 0xC0) * 64 + (b - 0x80))" using * by (auto simp: scalar_def)
    ultimately show ?thesis by metis
  next
    case (3 a b c)
    then have *: "0xE0 \<le> a" "a < 0xF0" "0x80 \<le> b" "b < 0xC0" "0x80 \<le> c" "c < 0xC0" "a = 0xE0 \<longrightarrow> 0xA0 \<le> b" "a = 0xED \<longrightarrow> b < 0xA0"
      using assms by (auto simp: count_unit_def good_units_def second_unit_def split: if_splits)
    define x y z where "x = a - 0xE0" and "y = b - 0x80" and "z = c - 0x80"
    have l: "z < 64" "y < 64" "x < 16" "0 < x \<or> 32 \<le> y" "x = 13 \<longrightarrow> y < 32" using * by (auto simp: x_def y_def z_def)
    have "utf8_units ((x * 64 + y) * 64 + z) = p" unfolding utf8_units_3 [OF l(1-4)] using * by (simp add: 3 x_def y_def z_def)
    moreover consider "x \<le> 12" | "x = 13" | "14 \<le> x" by linarith
    then have "scalar ((x * 64 + y) * 64 + z)" using l by cases (simp_all add: scalar_def)
    ultimately show ?thesis by metis
  next
    case (4 a b c d)
    then have *: "0xF0 \<le> a" "a < 0xF5" "0x80 \<le> b" "b < 0xC0" "0x80 \<le> c" "c < 0xC0" "0x80 \<le> d" "d < 0xC0" "a = 0xF0 \<longrightarrow> 0x90 \<le> b" "a = 0xF4 \<longrightarrow> b < 0x90"
      using assms by (auto simp: count_unit_def good_units_def second_unit_def split: if_splits)
    define w x y z where "w = a - 0xF0" and "x = b - 0x80" and "y = c - 0x80" and "z = d - 0x80"
    have l: "z < 64" "y < 64" "x < 64" "0 < w \<or> 16 \<le> x" "w < 4 \<or> w = 4 \<and> x < 16" using * by (auto simp: w_def x_def y_def z_def)
    have "utf8_units (((w * 64 + x) * 64 + y) * 64 + z) = p" unfolding utf8_units_4 [OF l(1-4)] using * by (simp add: 4 w_def x_def y_def z_def)
    moreover have "scalar (((w * 64 + x) * 64 + y) * 64 + z)" using l by (auto simp: scalar_def)
    ultimately show ?thesis by metis
  qed
qed

lemma units_of_bytes: "map unat (map word_of_nat ns :: byte list) = ns" if "\<forall>n \<in> set ns. n < 256"
  using that by (induction ns) (simp_all add: unat_of_nat)

lemma good_units_small: "good_units p \<Longrightarrow> n \<in> set p \<Longrightarrow> n < 256"
  by (cases p) (auto simp: good_units_def count_unit_def list_all_iff split: if_splits)

lemma unat_utf8: "scalar v \<Longrightarrow> map unat (utf8 v) = utf8_units v"
  unfolding utf8_def using utf8_units_good good_units_small by (intro units_of_bytes) blast

lemma count_units: "p \<noteq> [] \<Longrightarrow> count_unit (hd (map unat p)) = count (hd p)"
  by (cases p) (simp_all add: count_eq count_unit_def)

text \<open>Table 3-7 of the Unicode standard: the sequences the tables admit are the encodings of the scalar values.\<close>

lemma utf8_iff: "good p \<and> length p = count (hd p) \<longleftrightarrow> (\<exists>v. scalar v \<and> p = utf8 v)"
proof
  assume p: "good p \<and> length p = count (hd p)"
  then have "good_units (map unat p)" "length (map unat p) = count_unit (hd (map unat p))"
    using count_units by (simp_all add: good_units [symmetric] good_def)
  then obtain v where "scalar v" "map unat p = utf8_units v" using good_units_utf8 by blast
  then have "map unat p = map unat (utf8 v)" by (simp add: unat_utf8)
  then have "p = utf8 v" by (rule map_injective) (simp add: inj_on_def word_unat_eq_iff)
  with \<open>scalar v\<close> show "\<exists>v. scalar v \<and> p = utf8 v" by blast
next
  assume "\<exists>v. scalar v \<and> p = utf8 v"
  then obtain v where v: "scalar v" "p = utf8 v" by blast
  have g: "good p" using utf8_units_good [OF v(1)] by (simp add: good_units v unat_utf8)
  moreover have "length p = count (hd p)"
    using utf8_units_good [OF v(1)] g unat_utf8 [OF v(1)] count_units [of p] unfolding v(2) good_def
    by (metis length_map)
  ultimately show "good p \<and> length p = count (hd p)" by simp
qed

lemma utf8_good: "scalar v \<Longrightarrow> good (utf8 v)" and length_utf8: "scalar v \<Longrightarrow> length (utf8 v) = count (hd (utf8 v))"
  using utf8_iff [of "utf8 v"] by blast+

lemma good_prefix: "good p \<Longrightarrow> prefix q p \<Longrightarrow> q \<noteq> [] \<Longrightarrow> good q"
  by (auto simp: good_def prefix_def list_all_iff nth_append tl_append split: list.splits)

text \<open>A good sequence that is too short is the start of an encoding.\<close>

definition fill_up :: "byte list \<Rightarrow> byte list" where
  "fill_up p = p @ (if length p = 1 then fst (UTF8_Byte2 ! unat (hd p)) # replicate (count (hd p) - 2) 0x80
     else replicate (count (hd p) - length p) 0x80)"

lemma good_complete:
  assumes "good p"
  shows "\<exists>v. scalar v \<and> prefix p (utf8 v)"
proof (cases "length p = count (hd p)")
  case True
  then show ?thesis using assms utf8_iff [of p] by auto
next
  case False
  then have l: "p \<noteq> []" "length p < count (hd p)" using assms by (auto simp: good_def)
  have one: "1 < count (hd p)" using l by (cases p) auto
  have sec: "second (hd p) (fst (UTF8_Byte2 ! unat (hd p)))" "cont (fst (UTF8_Byte2 ! unat (hd p)))"
    using Byte2_low [of "hd p"] one by (simp_all add: cont_eq)
  have c80: "cont 0x80" by (simp add: cont_def)
  obtain b r where p: "p = b # r" using l by (cases p) auto
  have "good (fill_up p) \<and> length (fill_up p) = count (hd (fill_up p))"
    using assms l sec c80 by (cases r) (auto simp: p good_def fill_up_def list_all_iff nth_append)
  then obtain v where "scalar v" "fill_up p = utf8 v" using utf8_iff [of "fill_up p"] by blast
  moreover have "prefix p (fill_up p)" by (simp add: fill_up_def)
  ultimately show ?thesis by metis
qed

section \<open>The decoder\<close>

definition holds :: "UTF8State \<Rightarrow> byte list \<Rightarrow> bool" where
  "holds ps p \<longleftrightarrow> length (ch ps) = 6 \<and> chlen ps = length p \<and> take (length p) (ch ps) = p"

lemma holds_push: "holds ps p \<Longrightarrow> length p < 6 \<Longrightarrow> \<exists>ps'. push_ch ps x = Some ps' \<and> holds ps' (p @ [x])"
  by (auto simp: holds_def push_ch_def take_Suc_conv_app_nth)

lemma holds_hd: "holds ps p \<Longrightarrow> p \<noteq> [] \<Longrightarrow> ch ps ! 0 = hd p"
  by (metis holds_def hd_conv_nth length_greater_0_conv nth_take)

lemma holds_clear: "length (ch ps) = 6 \<Longrightarrow> holds (ps\<lparr>chlen := 0\<rparr>) []"
  by (simp add: holds_def)

text \<open>The continuation bytes that are there, at most as many as are missing.\<close>

definition conts :: "nat \<Rightarrow> byte list \<Rightarrow> byte list" where
  "conts k bs = take k (takeWhile cont bs)"

lemma collect_ok:
  "holds ps p \<Longrightarrow> length p \<le> c \<Longrightarrow> c \<le> 4 \<Longrightarrow> s0 + length bs \<le> length m \<Longrightarrow> bytes_at m s0 bs \<Longrightarrow>
   \<exists>ps'. collect c m s0 (length bs) ps = Some (
      if length p + length (conts (c - length p) bs) = c then Full else if conts (c - length p) bs = bs then Restart else Ilseq,
      s0 + length (conts (c - length p) bs), ps') \<and> holds ps' (p @ conts (c - length p) bs)"
proof (induction bs arbitrary: ps p s0)
  case Nil
  then show ?case by (subst collect.simps) (auto simp: conts_def holds_def)
next
  case (Cons x bs)
  show ?case
  proof (cases "length p < c \<and> cont x")
    case True
    obtain ps' where ps': "push_ch ps x = Some ps'" "holds ps' (p @ [x])" using holds_push [of ps p x] Cons.prems True by auto
    obtain k where k: "c - length p = Suc k" "c - length (p @ [x]) = k" using True by (metis Suc_diff_Suc length_append_singleton)
    have "\<exists>ps''. collect c m (Suc s0) (length bs) ps' = Some (
      if length (p @ [x]) + length (conts k bs) = c then Full else if conts k bs = bs then Restart else Ilseq,
      Suc s0 + length (conts k bs), ps'') \<and> holds ps'' ((p @ [x]) @ conts k bs)"
      using Cons.prems ps'(2) True by (intro Cons.IH [of ps' "p @ [x]" "Suc s0", unfolded k(2)]) simp_all
    moreover have "ld m s0 = Some x" "chlen ps = length p" using Cons.prems by (auto simp: holds_def)
    moreover have "conts (Suc k) (x # bs) = x # conts k bs" using True by (simp add: conts_def)
    ultimately show ?thesis using ps'(1) True unfolding k(1) by (subst collect.simps) (auto simp: cont_def)
  next
    case False
    have *: "conts (c - length p) (x # bs) = []" using False by (auto simp: conts_def)
    have "ld m s0 = Some x" "chlen ps = length p" using Cons.prems by (auto simp: holds_def)
    then show ?thesis using False Cons.prems unfolding * by (subst collect.simps) (auto simp: cont_def)
  qed
qed

lemma unat_or_disjoint: "(a :: u32) AND b = 0 \<Longrightarrow> unat a + unat b < 2 ^ 32 \<Longrightarrow> unat (a OR b) = unat a + unat b"
  by (simp add: disjunctive_add_eq_or [symmetric] unat_word_ariths)

lemma unat_or_6:
  fixes w :: u32 and b :: byte
  assumes "unat w < 2 ^ 26"
  shows "unat (push_bit 6 w OR ucast (b AND 0x3f)) = unat w * 64 + unat b mod 64"
proof -
  have m: "(0x3f :: byte) = mask 6" by (simp add: mask_eq_exp_minus_1)
  have p: "unat (push_bit 6 w) = unat w * 64" using assms by (simp add: unat_push_bit)
  have u: "unat (ucast (b AND 0x3f) :: u32) = unat b mod 64" unfolding m using unat_and_mask [of b 6] by (simp add: unat_ucast_up)
  have "push_bit 6 w AND ucast (b AND 0x3f) = 0"
    unfolding m by (rule bit_word_eqI) (auto simp: bit_simps)
  then show ?thesis using assms p u by (subst unat_or_disjoint) simp_all
qed

lemma unat_unit: "n < 256 \<Longrightarrow> unat (word_of_nat n :: byte) = n"
  by (simp add: unat_of_nat)

lemma unit_mods:
  fixes x :: nat
  shows "x < 32 \<Longrightarrow> (0xC0 + x) mod 32 = x" "x < 16 \<Longrightarrow> (0xE0 + x) mod 16 = x" "x < 8 \<Longrightarrow> (0xF0 + x) mod 8 = x" "x < 64 \<Longrightarrow> (0x80 + x) mod 64 = x"
  by (subst mod_add_eq [symmetric], simp)+

text \<open>What the lead byte contributes, and each continuation byte.\<close>

lemma lead_units:
  "x < 32 \<Longrightarrow> unat (ucast (word_of_nat (0xC0 + x) AND 0x1f :: byte) :: u32) = x"
  "x < 16 \<Longrightarrow> unat (ucast (word_of_nat (0xE0 + x) AND 0x0f :: byte) :: u32) = x"
  "x < 8 \<Longrightarrow> unat (ucast (word_of_nat (0xF0 + x) AND 0x07 :: byte) :: u32) = x"
proof -
  have m: "(0x1f :: byte) = mask 5" "(0x0f :: byte) = mask 4" "(0x07 :: byte) = mask 3" by (simp_all add: mask_eq_exp_minus_1)
  show "x < 32 \<Longrightarrow> unat (ucast (word_of_nat (0xC0 + x) AND 0x1f :: byte) :: u32) = x"
    "x < 16 \<Longrightarrow> unat (ucast (word_of_nat (0xE0 + x) AND 0x0f :: byte) :: u32) = x"
    "x < 8 \<Longrightarrow> unat (ucast (word_of_nat (0xF0 + x) AND 0x07 :: byte) :: u32) = x"
    unfolding m by (simp_all add: unat_ucast_up unat_and_mask unat_unit unit_mods del: of_nat_add)
qed

lemma cont_unit:
  assumes "unat w < 2 ^ 26" "y < 64"
  shows "unat (push_bit 6 w OR ucast (word_of_nat (0x80 + y) AND 0x3f :: byte) :: u32) = unat w * 64 + y"
  unfolding unat_or_6 [OF assms(1)] using assms(2) by (simp add: unat_unit unit_mods del: of_nat_add)

lemma assemble_utf8:
  assumes "scalar v" "1 < length (utf8 v)"
  shows "assemble (length (utf8 v)) (utf8 v @ r) = word_of_nat v"
proof -
  have "unat (assemble (length (utf8 v)) (utf8 v @ r)) = v"
    using assms(1)
  proof (cases rule: scalar_cases)
    case 1
    then show ?thesis using assms(2) by (simp add: utf8_def utf8_units_def)
  next
    case (2 x y)
    have "utf8 v = [word_of_nat (0xC0 + x), word_of_nat (0x80 + y)]" unfolding utf8_def 2(1) utf8_units_2 [OF 2(2-4)] by simp
    then show ?thesis using 2 by (simp add: assemble_def cont_unit lead_units del: of_nat_add push_bit_or push_bit_push_bit)
  next
    case (3 x y z)
    have "utf8 v = [word_of_nat (0xE0 + x), word_of_nat (0x80 + y), word_of_nat (0x80 + z)]" unfolding utf8_def 3(1) utf8_units_3 [OF 3(2-5)] by simp
    then show ?thesis using 3 by (simp add: assemble_def cont_unit lead_units del: of_nat_add push_bit_or push_bit_push_bit)
  next
    case (4 w x y z)
    have "utf8 v = [word_of_nat (0xF0 + w), word_of_nat (0x80 + x), word_of_nat (0x80 + y), word_of_nat (0x80 + z)]"
      unfolding utf8_def 4(1) utf8_units_4 [OF 4(2-5)] by simp
    moreover have "w < 8" using 4 by auto
    ultimately show ?thesis using 4 by (simp add: assemble_def cont_unit lead_units del: of_nat_add push_bit_or push_bit_push_bit)
  qed
  moreover have "v < 2 ^ 32" using assms(1) by (simp add: scalar_def)
  ultimately show ?thesis by (simp add: word_unat_eq_iff unat_of_nat)
qed

text \<open>Which of the three outcomes applies depends on the bytes up to the length the lead byte announces.\<close>

lemma take_hd_same: "prefix a b \<Longrightarrow> a \<noteq> [] \<Longrightarrow> hd a = hd b"
  by (auto simp: prefix_def)

lemma complete_iff:
  assumes "w \<noteq> []"
  shows "(\<exists>v. scalar v \<and> prefix (utf8 v) w) \<longleftrightarrow> good (take (count (hd w)) w) \<and> count (hd w) \<le> length w"
proof
  assume "\<exists>v. scalar v \<and> prefix (utf8 v) w"
  then obtain v r where v: "scalar v" "w = utf8 v @ r" by (auto simp: prefix_def)
  have "good (utf8 v)" "length (utf8 v) = count (hd (utf8 v))" using v utf8_iff by blast+
  then show "good (take (count (hd w)) w) \<and> count (hd w) \<le> length w" using v by (auto simp: good_def)
next
  assume *: "good (take (count (hd w)) w) \<and> count (hd w) \<le> length w"
  then have "0 < count (hd w)" by (auto simp: good_def)
  then have "hd (take (count (hd w)) w) = hd w" "length (take (count (hd w)) w) = count (hd w)" using assms * by (auto simp: hd_take)
  then obtain v where "scalar v" "take (count (hd w)) w = utf8 v" using utf8_iff [of "take (count (hd w)) w"] * by auto
  then show "\<exists>v. scalar v \<and> prefix (utf8 v) w" using take_is_prefix by metis
qed

lemma partial_iff:
  assumes "w \<noteq> []"
  shows "(\<exists>v. scalar v \<and> prefix w (utf8 v)) \<longleftrightarrow> good (take (count (hd w)) w) \<and> length w \<le> count (hd w)"
proof
  assume "\<exists>v. scalar v \<and> prefix w (utf8 v)"
  then obtain v where v: "scalar v" "prefix w (utf8 v)" by blast
  have "good (utf8 v)" "length (utf8 v) = count (hd (utf8 v))" using v utf8_iff by blast+
  then show "good (take (count (hd w)) w) \<and> length w \<le> count (hd w)"
    using good_prefix [OF _ v(2) assms] take_hd_same [OF v(2) assms] prefix_length_le [OF v(2)] by simp
next
  assume "good (take (count (hd w)) w) \<and> length w \<le> count (hd w)"
  then show "\<exists>v. scalar v \<and> prefix w (utf8 v)" using good_complete [of w] by auto
qed

lemma good_extend:
  assumes "good p" "length p + length x \<le> count (hd p)"
  shows "good (p @ x) \<longleftrightarrow> (length p = 1 \<and> x \<noteq> [] \<longrightarrow> second (hd p) (hd x)) \<and> list_all cont x"
proof -
  obtain b r where p: "p = b # r" using assms(1) by (cases p) (auto simp: good_def)
  show ?thesis using assms by (cases r; cases x) (auto simp: p good_def)
qed

lemma conts_all: "list_all cont (take k bs) \<longleftrightarrow> conts k bs = take k bs"
  by (induction bs arbitrary: k) (auto simp: conts_def take_Cons split: nat.splits)

lemma conts_prefix: "prefix (conts k bs) bs" "length (conts k bs) \<le> k" "list_all cont (conts k bs)"
  unfolding conts_def list_all_iff
  by (meson prefix_order.trans take_is_prefix takeWhile_is_prefix, simp, meson in_set_takeD set_takeWhileD)

text \<open>
  Between two calls the state holds nothing, the start of an encoding, or (after an illegal sequence) a byte that
  starts none.
\<close>

definition partial :: "byte list \<Rightarrow> bool" where
  "partial p \<longleftrightarrow> good p \<and> length p < count (hd p)"

definition state_inv :: "UTF8State \<Rightarrow> bool" where
  "state_inv ps \<longleftrightarrow> (\<exists>p. holds ps p \<and> (p = [] \<or> partial p \<or> (\<exists>b. p = [b] \<and> count b = 0)))"

text \<open>The three outcomes of a call with \<open>p\<close> in the state and the bytes \<open>bs\<close> at \<open>q\<close>.\<close>

definition decodes :: "byte list \<Rightarrow> byte list \<Rightarrow> nat \<Rightarrow> mb_err \<times> u32 option \<times> u64 \<times> ptr \<times> UTF8State \<Rightarrow> bool" where
  "decodes p bs q = (\<lambda>(e, wc, nr, s, ps).
     if \<exists>v. scalar v \<and> prefix (utf8 v) (p @ bs) then
       (\<exists>v. scalar v \<and> prefix (utf8 v) (p @ bs) \<and> e = OK \<and> wc = Some (word_of_nat v) \<and>
         nr = (if v = 0 then 0 else of_nat (length (utf8 v) - length p)) \<and> s = Some (q + (length (utf8 v) - length p)) \<and> holds ps [])
     else if \<exists>v. scalar v \<and> prefix (p @ bs) (utf8 v) then
       e = OK \<and> wc = None \<and> nr = - 2 \<and> s = Some (q + length bs) \<and> holds ps (p @ bs)
     else e = EILSEQ \<and> wc = None \<and> nr = - 1 \<and> s = Some q \<and> state_inv ps)"

lemma holds_partial: "holds ps p \<Longrightarrow> partial p \<Longrightarrow> state_inv ps"
  by (auto simp: state_inv_def)

lemma scalar_nonzero: "scalar v \<Longrightarrow> 1 < length (utf8 v) \<Longrightarrow> (word_of_nat v :: u32) \<noteq> 0"
proof -
  assume v: "scalar v" "1 < length (utf8 v)"
  then have "0 < v" "v < 2 ^ 32" by (auto simp: scalar_def utf8_def utf8_units_def split: if_splits)
  then show ?thesis by (simp add: word_unat_eq_iff unat_of_nat)
qed

lemma mb_continue_ok:
  assumes h: "holds ps p" and g: "partial p" and b: "bytes_at m s0 bs" "s0 + length bs \<le> length m" and q: "q \<le> s0"
  defines "c \<equiv> count (hd p)"
  shows "\<exists>r. mb_continue m q s0 (length bs) c ps = Some r \<and>
    (if good (take c (p @ bs)) then
       (if c \<le> length (p @ bs) then \<exists>v ps'. scalar v \<and> utf8 v = take c (p @ bs) \<and>
          r = (OK, Some (word_of_nat v), of_nat (s0 + (c - length p) - q), Some (s0 + (c - length p)), ps') \<and> holds ps' []
        else \<exists>ps'. r = (OK, None, - 2, Some (s0 + length bs), ps') \<and> holds ps' (p @ bs))
     else \<exists>ps'. r = (EILSEQ, None, - 1, Some q, ps') \<and> state_inv ps')"
proof -
  define k where "k = c - length p"
  have p: "p \<noteq> []" "good p" "length p + k = c" "0 < k" using g by (auto simp: partial_def good_def k_def c_def)
  have c4: "c \<le> 4" using count_le by (simp add: c_def)
  have st: "chlen ps = length p" "ch ps ! 0 = hd p" using h holds_hd p(1) by (auto simp: holds_def)
  have tk: "take c (p @ bs) = p @ take k bs" using p(3) by auto
  have ext: "good (p @ x) \<longleftrightarrow> (length p = 1 \<and> x \<noteq> [] \<longrightarrow> second (hd p) (hd x)) \<and> list_all cont x" if "length x \<le> k" for x
    using good_extend [OF p(2), of x] that p(3) by (simp add: c_def)
  show ?thesis
  proof (cases "length p = 1 \<and> bs \<noteq> [] \<and> \<not> second (hd p) (hd bs)")
    case True
    then have "hd (take k bs) = hd bs" "take k bs \<noteq> []" using p(4) by (auto simp: hd_take)
    then have ng: "\<not> good (take c (p @ bs))" unfolding tk using ext [of "take k bs"] True by simp
    have "ld m s0 = Some (hd bs)" using b(1) True by (cases bs) auto
    moreover have "fst (UTF8_Byte2 ! unat (hd p)) > hd bs \<or> snd (UTF8_Byte2 ! unat (hd p)) < hd bs"
      using True by (auto simp: second_def not_le)
    ultimately have "mb_continue m q s0 (length bs) c ps = Some (EILSEQ, None, - 1, Some q, ps)"
      unfolding mb_continue_def using True st by (cases bs) auto
    then show ?thesis using ng holds_partial [OF h g] by simp
  next
    case False
    have nobad: "(if chlen ps = 1 \<and> length bs \<ge> 1 then do {
         x \<leftarrow> ld m s0; Some (fst (UTF8_Byte2 ! unat (ch ps ! 0)) > x \<or> snd (UTF8_Byte2 ! unat (ch ps ! 0)) < x) }
       else Some False) = Some False"
      using False b(1) st by (cases bs) (auto simp: second_def not_less)
    define t where "t = conts k bs"
    obtain ps' where ps': "holds ps' (p @ t)" and col: "collect c m s0 (length bs) ps =
        Some (if length p + length t = c then Full else if t = bs then Restart else Ilseq, s0 + length t, ps')"
      using collect_ok [OF h _ c4 b(2,1)] p(3) unfolding t_def k_def by auto
    note run = mb_continue_def [of m q s0 "length bs" c ps, unfolded Let_def nobad col]
    have t: "prefix t bs" "length t \<le> k" using conts_prefix [of k bs] by (simp_all add: t_def)
    have gt: "good (p @ t)" using ext [OF t(2)] conts_prefix(3) [of k bs] False t(1) by (cases t; cases bs) (auto simp: t_def)
    have good: "good (take c (p @ bs)) \<longleftrightarrow> t = take k bs"
      unfolding tk using ext [of "take k bs"] conts_all [of k bs] False by (cases bs) (auto simp: t_def hd_take)
    consider "length p + length t = c" | "length p + length t \<noteq> c" "t = bs" | "length p + length t \<noteq> c" "t \<noteq> bs" by blast
    then show ?thesis
    proof cases
      case 1
      then have "length t = k" using p(3) by simp
      then have tb: "t = take k bs" "k \<le> length bs" using t(1) by (auto simp: prefix_def)
      have "length (p @ t) = count (hd (p @ t))" using 1 p(1) by (simp add: c_def)
      then obtain v where v: "scalar v" "utf8 v = p @ t" using gt utf8_iff [of "p @ t"] by auto
      have len: "1 < length (utf8 v)" "length (utf8 v) = c" using v(2) 1 p(1,4) \<open>length t = k\<close> by (cases p; auto)+
      obtain r where "ch ps' = (p @ t) @ r" using ps' by (metis append_take_drop_id holds_def)
      then have asm: "assemble c (ch ps') = word_of_nat v" using assemble_utf8 [OF v(1) len(1), of r] v(2) len(2) by simp
      show ?thesis
        using 1 run asm scalar_nonzero [OF v(1) len(1)] good tb v tk ps' \<open>length t = k\<close> p(3)
        by (auto simp: holds_def k_def intro!: exI [of _ v])
    next
      case 2
      then have "length bs < k" using t p(3) by auto
      then show ?thesis using 2 run good ps' p(3) by auto
    next
      case 3
      then have "t \<noteq> take k bs" using t p(3) by (auto simp: prefix_def)
      moreover have "partial (p @ t)" using gt 3 t(2) p by (auto simp: partial_def c_def)
      ultimately show ?thesis using 3 run good holds_partial [OF ps'] by auto
    qed
  qed
qed

lemma decodesI:
  assumes "p @ bs \<noteq> []"
  defines "c \<equiv> count (hd (p @ bs))"
  assumes "if good (take c (p @ bs)) then
       (if c \<le> length (p @ bs) then \<exists>v ps'. scalar v \<and> utf8 v = take c (p @ bs) \<and>
          r = (OK, Some (word_of_nat v), if v = 0 then 0 else of_nat (c - length p), Some (q + (c - length p)), ps') \<and> holds ps' []
        else \<exists>ps'. r = (OK, None, - 2, Some (q + length bs), ps') \<and> holds ps' (p @ bs))
     else \<exists>ps'. r = (EILSEQ, None, - 1, Some q, ps') \<and> state_inv ps'"
  shows "decodes p bs q r"
proof -
  note iffs = complete_iff [OF assms(1), folded c_def] partial_iff [OF assms(1), folded c_def]
  show ?thesis
  proof (cases "good (take c (p @ bs)) \<and> c \<le> length (p @ bs)")
    case True
    then obtain v ps' where v: "scalar v" "utf8 v = take c (p @ bs)" "holds ps' []"
      "r = (OK, Some (word_of_nat v), if v = 0 then 0 else of_nat (c - length p), Some (q + (c - length p)), ps')" using assms(3) by auto
    moreover have "prefix (utf8 v) (p @ bs)" unfolding v(2) by (rule take_is_prefix)
    moreover have "length (utf8 v) = c" using True unfolding v(2) length_take by (simp only: min_absorb2)
    ultimately show ?thesis using True iffs(1) by (auto simp: decodes_def intro!: exI [of _ v])
  next
    case False
    then show ?thesis using assms(3) iffs by (auto simp: decodes_def)
  qed
qed

lemma take_1_good: "count x = 1 \<Longrightarrow> good [x] \<and> (\<exists>v. scalar v \<and> utf8 v = [x] \<and> (word_of_nat v :: u32) = ucast x \<and> (v = 0 \<longleftrightarrow> (ucast x :: u32) = 0))"
proof -
  assume "count x = 1"
  then have "unat x < 0x80" by (auto simp: count_eq split: if_splits)
  moreover from this have "utf8 (unat x) = [x]" "scalar (unat x)" by (simp_all add: utf8_def utf8_units_def scalar_def)
  moreover have "(word_of_nat (unat x) :: u32) = ucast x" by (simp add: unsigned_def)
  ultimately show ?thesis using \<open>count x = 1\<close> by (auto simp: good_def ucast_up_eq_0 unat_eq_0)
qed

lemma continue_decodes:
  assumes h: "holds ps p'" and g: "partial p'" and b: "bytes_at m s0 bs'" "s0 + length bs' \<le> length m"
    and eq: "p @ bs = p' @ bs'" "s0 = q + (length p' - length p)" "length p \<le> length p'"
  shows "\<exists>r. mb_continue m q s0 (length bs') (count (hd p')) ps = Some r \<and> decodes p bs q r"
proof -
  define c where "c = count (hd p')"
  have c: "c = count (hd (p @ bs))" "1 < c" "length p' \<le> c" using g unfolding eq(1) c_def by (auto simp: partial_def good_def neq_Nil_conv Suc_lessI)
  have same: "length p + length bs = length p' + length bs'" using arg_cong [OF eq(1), of length] by simp
  have len: "s0 + (c - length p') = q + (c - length p)" "s0 + length bs' = q + length bs" and le: "q \<le> s0"
    using eq(2,3) c(3) same by simp_all
  obtain r where r: "mb_continue m q s0 (length bs') c ps = Some r" and res: "if good (take c (p @ bs)) then
       (if c \<le> length (p @ bs) then \<exists>v ps'. scalar v \<and> utf8 v = take c (p @ bs) \<and>
          r = (OK, Some (word_of_nat v), of_nat (c - length p), Some (q + (c - length p)), ps') \<and> holds ps' []
        else \<exists>ps'. r = (OK, None, - 2, Some (q + length bs), ps') \<and> holds ps' (p @ bs))
     else \<exists>ps'. r = (EILSEQ, None, - 1, Some q, ps') \<and> state_inv ps'"
    using mb_continue_ok [OF h g b le, folded c_def, unfolded len(1,2) add_diff_cancel_left' eq(1) [symmetric]] by blast
  have nz: "v \<noteq> 0" if "utf8 v = take c (p @ bs)" "c \<le> length (p @ bs)" for v
  proof
    assume "v = 0"
    then have "length (take c (p @ bs)) = 1" unfolding that(1) [symmetric] by (simp add: utf8_def utf8_units_def)
    then show False using that(2) c(2) unfolding length_take by (simp only: min_absorb2)
  qed
  have "decodes p bs q r"
  proof (rule decodesI)
    show "p @ bs \<noteq> []" using g unfolding eq(1) by (auto simp: partial_def good_def)
    show "if good (take (count (hd (p @ bs))) (p @ bs)) then
       (if count (hd (p @ bs)) \<le> length (p @ bs) then \<exists>v ps'. scalar v \<and> utf8 v = take (count (hd (p @ bs))) (p @ bs) \<and>
          r = (OK, Some (word_of_nat v), if v = 0 then 0 else of_nat (count (hd (p @ bs)) - length p), Some (q + (count (hd (p @ bs)) - length p)), ps') \<and> holds ps' []
        else \<exists>ps'. r = (OK, None, - 2, Some (q + length bs), ps') \<and> holds ps' (p @ bs))
     else \<exists>ps'. r = (EILSEQ, None, - 1, Some q, ps') \<and> state_inv ps'"
      using res nz unfolding c(1) [symmetric] by (smt (verit))
  qed
  then show ?thesis using r by (simp add: c_def)
qed

lemma mbrtowc_ok:
  assumes h: "holds ps p" and p: "p = [] \<or> partial p" and b: "bytes_at m q bs" "q + length bs \<le> length m"
  shows "\<exists>r. mbrtowc_priv m (Some q) (length bs) ps = Some r \<and> decodes p bs q r"
proof (cases "p = []")
  case False
  then have g: "partial p" using p by simp
  have c: "1 < count (hd p)" "length p < count (hd p)" using g False by (auto simp: partial_def good_def neq_Nil_conv Suc_lessI)
  have st: "chlen ps = length p" "ch ps ! 0 = hd p" using h holds_hd False by (auto simp: holds_def)
  have "mbrtowc_priv m (Some q) (length bs) ps = mb_continue m q q (length bs) (count (hd p)) ps"
    using st c False by (simp add: mbrtowc_priv_def count_def [symmetric])
  then show ?thesis using continue_decodes [OF h g b, of p bs q] by simp
next
  case True
  show ?thesis
  proof (cases bs)
    case Nil
    have "\<not> prefix (utf8 v) []" for v by (simp add: utf8_def utf8_units_def)
    moreover have "scalar 0" by (simp add: scalar_def)
    ultimately have "decodes [] [] q (OK, None, - 2, Some q, ps)" using h True by (auto simp: decodes_def)
    then show ?thesis using h True Nil by (simp add: mbrtowc_priv_def holds_def)
  next
    case (Cons x bs')
    obtain ps1 where ps1: "push_ch ps x = Some ps1" "holds ps1 [x]" using holds_push [OF h] True by auto
    have st: "chlen ps = 0" "chlen ps1 = 1" "ch ps1 ! 0 = x" using h True ps1(2) holds_hd [OF ps1(2)] by (auto simp: holds_def)
    have ld: "ld m q = Some x" using b Cons by simp
    consider "count x = 0" | "count x = 1" | "1 < count x" by linarith
    then show ?thesis
    proof cases
      case 1
      have "decodes p bs q (EILSEQ, None, - 1, Some q, ps1)"
        by (rule decodesI) (use 1 True Cons ps1(2) in \<open>auto simp: good_def state_inv_def\<close>)
      then show ?thesis using st ld ps1(1) 1 Cons by (simp add: mbrtowc_priv_def count_def [symmetric])
    next
      case 2
      obtain v where v: "scalar v" "utf8 v = [x]" "(word_of_nat v :: u32) = ucast x" "v = 0 \<longleftrightarrow> (ucast x :: u32) = 0" and g: "good [x]"
        using take_1_good [OF 2] by blast
      have "decodes p bs q (OK, Some (ucast x), if (ucast x :: u32) = 0 then 0 else of_nat 1, Some (q + 1), ps1\<lparr>chlen := 0\<rparr>)"
        by (rule decodesI) (use 2 True Cons v g ps1(2) holds_clear [of ps1] in \<open>auto simp: holds_def intro!: exI [of _ v]\<close>)
      then show ?thesis using st ld ps1(1) 2 Cons
        by (cases "(ucast x :: u32) = 0") (simp_all add: mbrtowc_priv_def count_def [symmetric])
    next
      case 3
      have g: "partial [x]" using 3 by (simp add: partial_def good_def)
      have "mbrtowc_priv m (Some q) (length bs) ps = mb_continue m q (q + 1) (length bs') (count x) ps1"
        using st ld ps1(1) 3 Cons by (simp add: mbrtowc_priv_def count_def [symmetric])
      then show ?thesis using continue_decodes [OF ps1(2) g, of m "q + 1" bs' p bs q] b Cons True by simp
    qed
  qed
qed

section \<open>The encoder\<close>

lemma findlen_eq: "UTF8_findlen wc = (if unat wc < 0x80 then 1 else if unat wc < 0x800 then 2 else if unat wc < 0x10000 then 3
    else if unat wc < 0x110000 then 4 else - 1)"
proof -
  have "[1..<5] = [1, 2, 3, 4 :: nat]" by (simp add: upt_rec)
  then show ?thesis by (simp add: UTF8_findlen_def UTF8_range_def word_le_nat_alt word_less_nat_alt)
qed


lemma sint_u32: "sint (w :: u32) = (if uint w < 2 ^ 31 then uint w else uint w - 2 ^ 32)"
proof -
  have b: "0 \<le> uint w" "uint w < 2 ^ 32" using uint_bounded [of w] by simp_all
  have "sint w = (uint w + 2 ^ 31) mod 2 ^ 32 - 2 ^ 31"
    unfolding sint_uint signed_take_bit_eq_take_bit_shift take_bit_eq_mod by simp
  moreover have "(uint w + 2 ^ 31) mod 2 ^ 32 = (if uint w < 2 ^ 31 then uint w + 2 ^ 31 else uint w + 2 ^ 31 - 2 ^ 32)"
  proof (cases "uint w < 2 ^ 31")
    case False
    have "(uint w + 2 ^ 31) mod 2 ^ 32 = (uint w + 2 ^ 31 - 2 ^ 32) mod 2 ^ 32" by (simp only: minus_mod_self2)
    also have "\<dots> = uint w + 2 ^ 31 - 2 ^ 32" using False b by (intro mod_pos_pos_trivial) simp_all
    finally show ?thesis using False by simp
  qed (use b in \<open>simp add: mod_pos_pos_trivial\<close>)
  ultimately show ?thesis by simp
qed

lemma le_uint_iff: "numeral k \<le> uint w \<longleftrightarrow> numeral k \<le> unat w" "uint w \<le> numeral k \<longleftrightarrow> unat w \<le> numeral k"
  "uint w < numeral k \<longleftrightarrow> unat w < numeral k"
proof -
  have e: "uint w = int (unat w)" by simp
  show "numeral k \<le> uint w \<longleftrightarrow> numeral k \<le> unat w" unfolding e by (metis of_nat_le_iff of_nat_numeral)
  show "uint w \<le> numeral k \<longleftrightarrow> unat w \<le> numeral k" unfolding e by (metis of_nat_le_iff of_nat_numeral)
  show "uint w < numeral k \<longleftrightarrow> unat w < numeral k" unfolding e by (metis of_nat_less_iff of_nat_numeral)
qed

lemma surrogate_eq: "UTF8_surrogate wc \<longleftrightarrow> 0xD800 \<le> unat wc \<and> unat wc \<le> 0xDFFF"
  using sint_u32 [of wc] uint_lt2p [of wc] by (auto simp: UTF8_surrogate_def le_uint_iff split: if_splits)

lemma scalar_iff: "scalar (unat wc) \<longleftrightarrow> \<not> UTF8_surrogate wc \<and> UTF8_findlen wc \<noteq> - 1"
  by (auto simp: scalar_def surrogate_eq findlen_eq)

lemma length_utf8_findlen: "scalar (unat wc) \<Longrightarrow> UTF8_findlen wc = int (length (utf8 (unat wc)))"
  by (auto simp: utf8_def utf8_units_def findlen_eq scalar_def)

lemma cont_byte: "0x80 OR ucast (c AND 0x3f) = (word_of_nat (0x80 + unat c mod 64) :: byte)" for c :: u32
proof -
  have "list_all (\<lambda>i. 0x80 OR (word_of_nat i :: byte) = word_of_nat (0x80 + i)) [0..<64]" by code_simp
  then have "0x80 OR (word_of_nat (unat c mod 64) :: byte) = word_of_nat (0x80 + unat c mod 64)" unfolding list_all_iff by simp
  moreover have "c AND 0x3f = word_of_nat (unat c mod 64)" 
  proof (rule word_unat_eq_iff [THEN iffD2])
    have "c AND 0x3f = take_bit 6 c" by (simp add: take_bit_eq_mask mask_eq_exp_minus_1)
    then have "unat (c AND 0x3f) = take_bit 6 (unat c)" by (simp only: unsigned_take_bit_eq)
    then have "unat (c AND 0x3f) = unat c mod 64" by (simp only: take_bit_eq_mod) simp
    then show "unat (c AND 0x3f) = unat (word_of_nat (unat c mod 64) :: u32)" by (simp add: unat_of_nat)
  qed
  moreover have "(ucast (word_of_nat (unat c mod 64) :: u32) :: byte) = word_of_nat (unat c mod 64)"
    by (simp add: unsigned_of_nat take_bit_nat_eq_self)
  ultimately show ?thesis by (simp only:)
qed

lemma shift_6: "unat c < 2 ^ 31 \<Longrightarrow> unat (signed_drop_bit 6 c) = unat c div 64" for c :: u32
proof -
  assume "unat c < 2 ^ 31"
  then have s: "sint c = uint c" using sint_u32 [of c] by (simp add: le_uint_iff)
  have "sint (signed_drop_bit 6 c) = uint c div 64" unfolding sint_signed_drop_bit_eq s by (simp add: drop_bit_eq_div)
  then have "int (unat (signed_drop_bit 6 c)) = int (unat c) div 64" 
    using sint_u32 [of "signed_drop_bit 6 c"] div_int_pos_iff [of "uint c" 64] uint_ge_0 [of c] uint_ge_0 [of "signed_drop_bit 6 c"] uint_lt2p [of "signed_drop_bit 6 c"]
    by (auto split: if_splits)
  then show ?thesis by linarith
qed

lemma lead_byte:
  fixes c :: u32
  shows "unat c < 32 \<Longrightarrow> ucast c AND drop_bit 2 0x7f OR ucast (drop_bit 2 (0xff00 :: u32) AND 0xff) = (word_of_nat (0xC0 + unat c) :: byte)"
    and "unat c < 16 \<Longrightarrow> ucast c AND drop_bit 3 0x7f OR ucast (drop_bit 3 (0xff00 :: u32) AND 0xff) = (word_of_nat (0xE0 + unat c) :: byte)"
    and "unat c < 8 \<Longrightarrow> ucast c AND drop_bit 4 0x7f OR ucast (drop_bit 4 (0xff00 :: u32) AND 0xff) = (word_of_nat (0xF0 + unat c) :: byte)"
proof -
  have u: "(ucast c :: byte) = word_of_nat (unat c)" by (simp add: unsigned_def)
  have "list_all (\<lambda>i. word_of_nat i AND drop_bit 2 0x7f OR ucast (drop_bit 2 (0xff00 :: u32) AND 0xff) = (word_of_nat (0xC0 + i) :: byte)) [0..<32]" by code_simp
  then show "unat c < 32 \<Longrightarrow> ucast c AND drop_bit 2 0x7f OR ucast (drop_bit 2 (0xff00 :: u32) AND 0xff) = (word_of_nat (0xC0 + unat c) :: byte)"
    unfolding list_all_iff u by (metis atLeast0LessThan lessThan_iff set_upt)
  have "list_all (\<lambda>i. word_of_nat i AND drop_bit 3 0x7f OR ucast (drop_bit 3 (0xff00 :: u32) AND 0xff) = (word_of_nat (0xE0 + i) :: byte)) [0..<16]" by code_simp
  then show "unat c < 16 \<Longrightarrow> ucast c AND drop_bit 3 0x7f OR ucast (drop_bit 3 (0xff00 :: u32) AND 0xff) = (word_of_nat (0xE0 + unat c) :: byte)"
    unfolding list_all_iff u by (metis atLeast0LessThan lessThan_iff set_upt)
  have "list_all (\<lambda>i. word_of_nat i AND drop_bit 4 0x7f OR ucast (drop_bit 4 (0xff00 :: u32) AND 0xff) = (word_of_nat (0xF0 + i) :: byte)) [0..<8]" by code_simp
  then show "unat c < 8 \<Longrightarrow> ucast c AND drop_bit 4 0x7f OR ucast (drop_bit 4 (0xff00 :: u32) AND 0xff) = (word_of_nat (0xF0 + unat c) :: byte)"
    unfolding list_all_iff u by (metis atLeast0LessThan lessThan_iff set_upt)
qed

text \<open>The continuation units of \<open>v\<close>.\<close>

fun tails_of :: "nat \<Rightarrow> nat \<Rightarrow> nat list" where
  "tails_of 0 v = []"
| "tails_of (Suc k) v = tails_of k (v div 64) @ [0x80 + v mod 64]"

lemma length_tails_of [simp]: "length (tails_of k v) = k"
  by (induction k arbitrary: v) simp_all

lemma wr_update_above: "p + length bs \<le> i \<Longrightarrow> wr (m[i := x]) p bs = (wr m p bs)[i := x]"
  by (induction bs arbitrary: m p) (simp_all add: list_update_swap)

lemma put_cont_ok:
  "s + k < length m \<Longrightarrow> unat c < 2 ^ 31 \<Longrightarrow>
    \<exists>c'. put_cont m s k c = Some (wr m (Suc s) (map word_of_nat (tails_of k (unat c))), c') \<and> unat c' = unat c div 64 ^ k"
proof (induction k arbitrary: m c)
  case (Suc k)
  define c1 where "c1 = signed_drop_bit 6 c"
  have c1: "unat c1 = unat c div 64" unfolding c1_def by (rule shift_6) (use Suc.prems in simp)
  then have "unat c1 < 2 ^ 31" using Suc.prems by linarith
  then obtain c' where c': "put_cont (m[s + Suc k := word_of_nat (0x80 + unat c mod 64)]) s k c1 =
      Some (wr (m[s + Suc k := word_of_nat (0x80 + unat c mod 64)]) (Suc s) (map word_of_nat (tails_of k (unat c1))), c')"
    "unat c' = unat c1 div 64 ^ k" using Suc.IH [of "m[s + Suc k := word_of_nat (0x80 + unat c mod 64)]" c1] Suc.prems by auto
  have "put_cont m s (Suc k) c = put_cont (m[s + Suc k := word_of_nat (0x80 + unat c mod 64)]) s k c1"
    using Suc.prems by (simp add: c1_def cont_byte)
  then show ?case using c' by (simp add: c1 wr_append wr_update_above div_mult2_eq)
qed simp

lemma utf8_units_tails:
  "0x80 \<le> v \<Longrightarrow> v < 0x800 \<Longrightarrow> utf8_units v = (0xC0 + v div 64 ^ 1) # tails_of 1 v"
  "0x800 \<le> v \<Longrightarrow> v < 0x10000 \<Longrightarrow> utf8_units v = (0xE0 + v div 64 ^ 2) # tails_of 2 v"
  "0x10000 \<le> v \<Longrightarrow> utf8_units v = (0xF0 + v div 64 ^ 3) # tails_of 3 v"
  by (simp_all add: utf8_units_def numeral_2_eq_2 numeral_3_eq_3 div_mult2_eq [symmetric])

lemma wr_Cons_late: "(wr m (Suc p) bs)[p := b] = wr m p (b # bs)"
proof (induction bs arbitrary: m rule: rev_induct)
  case (snoc x bs)
  then show ?case using wr_append [of m "Suc p" bs "[x]"] wr_append [of m p "b # bs" "[x]"] by (simp add: list_update_swap)
qed simp

lemma store_utf8:
  assumes wc: "scalar (unat wc)" and room: "s + length (utf8 (unat wc)) \<le> length m"
  shows "put_char m s (length (utf8 (unat wc))) wc = Some (wr m s (utf8 (unat wc)))"
proof -
  define cnt where "cnt = length (utf8 (unat wc))"
  have "unat wc < 2 ^ 31" using wc by (simp add: scalar_def)
  moreover have cnt: "0 < cnt" by (simp add: cnt_def utf8_def utf8_units_def)
  moreover have "s + (cnt - 1) < length m" using room cnt unfolding cnt_def by linarith
  ultimately obtain c where c: "put_cont m s (cnt - 1) wc = Some (wr m (Suc s) (map word_of_nat (tails_of (cnt - 1) (unat wc))), c)"
    "unat c = unat wc div 64 ^ (cnt - 1)" using put_cont_ok by blast
  consider "unat wc < 0x80" | "0x80 \<le> unat wc" "unat wc < 0x800" | "0x800 \<le> unat wc" "unat wc < 0x10000" | "0x10000 \<le> unat wc" "unat wc < 0x110000"
    using wc by (fastforce simp: scalar_def)
  then have "utf8 (unat wc) = (if cnt = 1 then ucast c AND 0x7f else ucast c AND drop_bit cnt 0x7f OR ucast (drop_bit cnt (0xff00 :: u32) AND 0xff))
      # map word_of_nat (tails_of (cnt - 1) (unat wc))"
  proof cases
    case 1
    then have u: "utf8_units (unat wc) = [unat wc]" by (simp add: utf8_units_def)
    then have one: "cnt = 1" by (simp add: cnt_def utf8_def)
    have "list_all (\<lambda>i. word_of_nat i AND 0x7f = (word_of_nat i :: byte)) [0..<128]" by code_simp
    moreover have "(ucast c :: byte) = word_of_nat (unat wc)" using c(2) one by (simp add: unsigned_def)
    ultimately have "ucast c AND 0x7f = (word_of_nat (unat wc) :: byte)"
      using 1 unfolding list_all_iff by (metis atLeast0LessThan lessThan_iff set_upt)
    then show ?thesis using one by (simp add: utf8_def u)
  next
    case 2
    then have "cnt = 2" by (simp add: cnt_def utf8_def utf8_units_tails)
    moreover have "unat c < 32" using c(2) 2 \<open>cnt = 2\<close> by simp
    ultimately show ?thesis using c(2) lead_byte(1) [of c] 2 by (simp add: utf8_def utf8_units_tails)
  next
    case 3
    then have "cnt = 3" by (simp add: cnt_def utf8_def utf8_units_tails)
    moreover have "unat c < 16" using c(2) 3 \<open>cnt = 3\<close> by simp
    ultimately show ?thesis using c(2) lead_byte(2) [of c] 3 by (simp add: utf8_def utf8_units_tails)
  next
    case 4
    then have "cnt = 4" by (simp add: cnt_def utf8_def utf8_units_tails)
    moreover have "unat c < 8" using c(2) 4 \<open>cnt = 4\<close> by simp
    ultimately show ?thesis using c(2) lead_byte(3) [of c] 4 by (simp add: utf8_def utf8_units_tails)
  qed
  then show ?thesis using c(1) room cnt unfolding put_char_def cnt_def [symmetric] by (simp add: wr_Cons_late)
qed

lemma wcrtomb_ok:
  assumes "s + n \<le> length m"
  shows "wcrtomb_priv m (Some s) n wc = Some (
     if \<not> scalar (unat wc) then (EILSEQ, - 1, m)
     else if n < length (utf8 (unat wc)) then (E2BIG, - 1, m)
     else (OK, of_nat (length (utf8 (unat wc))), wr m s (utf8 (unat wc))))"
proof (cases "scalar (unat wc)")
  case False
  then show ?thesis by (auto simp: wcrtomb_priv_def scalar_iff)
next
  case True
  define k where "k = length (utf8 (unat wc))"
  have f: "UTF8_findlen wc = int k" "\<not> UTF8_surrogate wc" "k \<le> 4" "0 < k"
    using True length_utf8_findlen [OF True] scalar_iff [of wc] by (simp_all add: k_def utf8_def utf8_units_def)
  show ?thesis
  proof (cases "n < k")
    case False
    then have "s + k \<le> length m" using assms by simp
    then show ?thesis using store_utf8 [OF True, of s m, folded k_def] f True False
      by (simp add: wcrtomb_priv_def k_def [symmetric])
  qed (use f True in \<open>simp add: wcrtomb_priv_def k_def [symmetric]\<close>)
qed

section \<open>Properties\<close>

text \<open>What a call does with a state in which an illegal lead byte was left.\<close>

lemma mbrtowc_stuck:
  assumes "holds ps [b]" "count b = 0"
  shows "mbrtowc_priv m (Some q) n ps = Some (EILSEQ, None, - 1, Some q, ps)"
proof -
  have "chlen ps = 1" "ch ps ! 0 = b" using assms holds_hd [OF assms(1)] by (simp_all add: holds_def)
  then show ?thesis using assms(2) by (simp add: mbrtowc_priv_def count_def [symmetric])
qed

lemma base64_join: "((v :: nat) div 64 div 64 * 64 + v div 64 mod 64) * 64 + v mod 64 = v"
  "((v div 64 div 64 div 64 * 64 + v div 64 div 64 mod 64) * 64 + v div 64 mod 64) * 64 + v mod 64 = v"
  by (simp_all only: div_mult_mod_eq)

text \<open>The value of a sequence of units.\<close>

fun value_of :: "nat list \<Rightarrow> nat" where
  "value_of [a] = a"
| "value_of [a, b] = (a - 0xC0) * 64 + (b - 0x80)"
| "value_of [a, b, c] = ((a - 0xE0) * 64 + (b - 0x80)) * 64 + (c - 0x80)"
| "value_of [a, b, c, d] = (((a - 0xF0) * 64 + (b - 0x80)) * 64 + (c - 0x80)) * 64 + (d - 0x80)"
| "value_of _ = 0"

lemma value_of_units: "value_of (utf8_units v) = v"
  unfolding utf8_units_def div_units by (simp only: value_of.simps add_diff_cancel_left' base64_join div_mult_mod_eq split: if_split) simp

lemma utf8_units_inj: "utf8_units v = utf8_units w \<Longrightarrow> v = w"
  by (metis value_of_units)

lemma decodes_state_inv:
  assumes "decodes p bs q (e, wc, nr, s, ps)"
  shows "state_inv ps"
proof (cases "(\<exists>v. scalar v \<and> prefix (utf8 v) (p @ bs)) \<or> \<not> (\<exists>v. scalar v \<and> prefix (p @ bs) (utf8 v))")
  case True
  then show ?thesis using assms by (auto simp: decodes_def state_inv_def split: if_splits)
next
  case False
  then obtain v where v: "scalar v" "prefix (p @ bs) (utf8 v)" and n: "\<nexists>v. scalar v \<and> prefix (utf8 v) (p @ bs)" by blast
  have h: "holds ps (p @ bs)" using assms v n by (auto simp: decodes_def split: if_splits)
  show ?thesis
  proof (cases "p @ bs = []")
    case False
    then have g: "good (p @ bs)" using good_prefix [OF utf8_good v(2)] v(1) by simp
    moreover have "length (p @ bs) \<noteq> count (hd (p @ bs))" using utf8_iff [of "p @ bs"] g n by auto
    ultimately have "partial (p @ bs)" unfolding partial_def by (simp add: good_def)
    then show ?thesis using h by (rule holds_partial [rotated])
  qed (use h in \<open>auto simp: state_inv_def\<close>)
qed

lemma decodes_scalar: "decodes p bs q (e, Some w, nr, s, ps) \<Longrightarrow> scalar (unat w)"
  by (auto simp: decodes_def scalar_def unat_of_nat split: if_splits)

lemma state_inv_chlen: "state_inv ps \<Longrightarrow> chlen ps \<le> 3"
proof -
  have "length p \<le> 3" if "partial p" for p using that count_le [of "hd p"] by (simp add: partial_def)
  then show "state_inv ps \<Longrightarrow> chlen ps \<le> 3" by (fastforce simp: state_inv_def holds_def)
qed

lemma utf8_prefix_free:
  assumes "scalar v" "scalar w" "prefix (utf8 v) (utf8 w)"
  shows "v = w"
proof -
  have ne: "utf8 v \<noteq> []" using utf8_good [OF assms(1)] by (simp add: good_def)
  have "length (utf8 v) = length (utf8 w)" using take_hd_same [OF assms(3) ne] by (simp add: length_utf8 assms)
  then have "utf8 v = utf8 w" using assms(3) by (auto simp: prefix_def)
  then have "utf8_units v = utf8_units w" using unat_utf8 assms by metis
  then show ?thesis by (rule utf8_units_inj)
qed

lemma decode_encoded:
  assumes "scalar (unat wc)" "s + length (utf8 (unat wc)) \<le> length m" "holds ps []"
  shows "\<exists>ps'. mbrtowc_priv (wr m s (utf8 (unat wc))) (Some s) (length (utf8 (unat wc))) ps =
      Some (OK, Some wc, if wc = 0 then 0 else of_nat (length (utf8 (unat wc))), Some (s + length (utf8 (unat wc))), ps') \<and> holds ps' []"
proof -
  define bs where "bs = utf8 (unat wc)"
  obtain r where r: "mbrtowc_priv (wr m s bs) (Some s) (length bs) ps = Some r" "decodes [] bs s r"
    using mbrtowc_ok [OF assms(3), of "wr m s bs" s bs] assms(2) by (auto simp: bs_def bytes_at_wr)
  have ex: "\<exists>v. scalar v \<and> prefix (utf8 v) ([] @ bs)" using assms(1) by (auto simp: bs_def)
  have "v = unat wc" if "scalar v" "prefix (utf8 v) ([] @ bs)" for v using utf8_prefix_free assms(1) that by (simp add: bs_def)
  then have "\<exists>ps'. r = (OK, Some (word_of_nat (unat wc)), if unat wc = 0 then 0 else of_nat (length bs), Some (s + length bs), ps') \<and> holds ps' []"
    using r(2) unfolding decodes_def if_P [OF ex] by (cases r) (fastforce simp: bs_def)
  then show ?thesis using r(1) by (auto simp: bs_def unat_eq_0)
qed

text \<open>
  C14. The decoder recognises exactly the encodings of the Unicode scalar values: with the bytes
  \<open>p\<close> of an unfinished character in the state, and \<open>bs\<close> the input, it returns the character
  whose encoding starts \<open>p @ bs\<close>, asks for more input when \<open>p @ bs\<close> is the start of an encoding,
  and reports an illegal sequence otherwise; the count, the input pointer and the state follow.\<close>

theorem mbrtowc_correct:
  assumes "holds ps p" "p = [] \<or> partial p" "bytes_at m q bs" "q + length bs \<le> length m"
  shows "\<exists>r. mbrtowc_priv m (Some q) (length bs) ps = Some r \<and> decodes p bs q r"
  using mbrtowc_ok [OF assms] .

theorem mbrtowc_correct_witness:
  "\<exists>r. mbrtowc_priv [0x82, 0xAC, 0x41] (Some 0) (length [0x82, 0xAC, 0x41 :: byte]) \<lparr>ch = [0xE2, 0, 0, 0, 0, 0], chlen = 1\<rparr> = Some r \<and>
    decodes [0xE2] [0x82, 0xAC, 0x41] 0 r"
  using mbrtowc_correct [of "\<lparr>ch = [0xE2, 0, 0, 0, 0, 0], chlen = 1\<rparr>" "[0xE2]" "[0x82, 0xAC, 0x41]" 0 "[0x82, 0xAC, 0x41]"]
  by (simp add: holds_def partial_def good_def count_eq)

text \<open>
  C29. The state is kept well formed by every call, on every input, the illegal ones included: at
  most three bytes are held, no store leaves the buffer, the call returns and what it delivers is
  never a surrogate or beyond the Unicode range.
\<close>

theorem utf8_state_invariant:
  assumes "state_inv ps" "case s of None \<Rightarrow> True | Some q \<Rightarrow> q + n \<le> length m"
  shows "\<exists>e wc nr s' ps'. mbrtowc_priv m s n ps = Some (e, wc, nr, s', ps') \<and> state_inv ps' \<and> chlen ps' \<le> 3 \<and>
    (\<forall>v. wc = Some v \<longrightarrow> scalar (unat v))"
proof (cases s)
  case None
  moreover have "state_inv (init_state ps)" using assms(1) by (auto simp: state_inv_def init_state_def holds_def)
  ultimately show ?thesis using state_inv_chlen by (auto simp: mbrtowc_priv_def)
next
  case (Some q)
  obtain p where p: "holds ps p" "p = [] \<or> partial p \<or> (\<exists>b. p = [b] \<and> count b = 0)" using assms(1) by (auto simp: state_inv_def)
  show ?thesis
  proof (cases "p = [] \<or> partial p")
    case True
    define bs where "bs = take n (drop q m)"
    have "bytes_at m q bs" "length bs = n" using Some assms(2) by (auto simp: bs_def bytes_at_nth)
    then obtain r where r: "mbrtowc_priv m (Some q) n ps = Some r" "decodes p bs q r"
      using mbrtowc_ok [OF p(1) True, of m q bs] Some assms(2) by auto
    obtain e wc nr s' ps' where "r = (e, wc, nr, s', ps')" by (cases r)
    moreover from this have "state_inv ps'" using r(2) decodes_state_inv by simp
    moreover have "\<forall>v. wc = Some v \<longrightarrow> scalar (unat v)" using r(2) calculation decodes_scalar by auto
    ultimately show ?thesis using r(1) Some state_inv_chlen by auto
  next
    case False
    then obtain b where "holds ps [b]" "count b = 0" using p by auto
    then show ?thesis using mbrtowc_stuck [of ps b m q n] Some assms(1) state_inv_chlen by auto
  qed
qed

theorem utf8_state_invariant_witness:
  "\<exists>e wc nr s' ps'. mbrtowc_priv [0xC0, 0x80] (Some 0) 2 \<lparr>ch = [0, 0, 0, 0, 0, 0], chlen = 0\<rparr> = Some (e, wc, nr, s', ps') \<and>
    state_inv ps' \<and> chlen ps' \<le> 3 \<and> (\<forall>v. wc = Some v \<longrightarrow> scalar (unat v))"
proof -
  have "state_inv \<lparr>ch = [0, 0, 0, 0, 0, 0], chlen = 0\<rparr>" by (auto simp: state_inv_def holds_def)
  then show ?thesis using utf8_state_invariant [of "\<lparr>ch = [0, 0, 0, 0, 0, 0], chlen = 0\<rparr>" 2 "[0xC0, 0x80]" "Some 0"] by simp
qed

text \<open>
  The encoder stores the encoding of a scalar value, and reports the others and the lack of
  room without touching memory; the decoder, started on what was stored, reads the character back.
\<close>

theorem wcrtomb_round_trip:
  assumes "s + n \<le> length m" "holds ps []"
  shows "\<exists>e nr m'. wcrtomb_priv m (Some s) n wc = Some (e, nr, m') \<and>
    (e = EILSEQ \<longleftrightarrow> \<not> scalar (unat wc)) \<and> (e = E2BIG \<longleftrightarrow> scalar (unat wc) \<and> n < length (utf8 (unat wc))) \<and>
    (e \<noteq> OK \<longrightarrow> nr = - 1 \<and> m' = m) \<and>
    (e = OK \<longrightarrow> unat nr = length (utf8 (unat wc)) \<and> m' = wr m s (utf8 (unat wc)) \<and>
      (\<exists>ps'. mbrtowc_priv m' (Some s) (unat nr) ps =
         Some (OK, Some wc, if wc = 0 then 0 else nr, Some (s + unat nr), ps') \<and> holds ps' []))"
proof -
  have "unat (of_nat (length (utf8 (unat wc))) :: u64) = length (utf8 (unat wc))" by (simp add: utf8_def utf8_units_def)
  moreover have "\<exists>ps'. mbrtowc_priv (wr m s (utf8 (unat wc))) (Some s) (length (utf8 (unat wc))) ps =
      Some (OK, Some wc, if wc = 0 then 0 else of_nat (length (utf8 (unat wc))), Some (s + length (utf8 (unat wc))), ps') \<and> holds ps' []"
    if "scalar (unat wc)" "length (utf8 (unat wc)) \<le> n" using decode_encoded [OF that(1) _ assms(2)] that assms(1) by simp
  ultimately show ?thesis unfolding wcrtomb_ok [OF assms(1)] by simp
qed

end
