(* ===== verification/Clocal.thy ===== *)
theory Clocal
  imports Cstring Cmem
begin

text \<open>
  Copies from the local arrays of a function.  A local array is a list of bytes of its own; the copying routines of \<open>Cmem\<close> and
  \<open>Cstring\<close> see it behind the memory, and stores past the end of the destination object fail.
\<close>

text \<open>\<^verbatim>\<open>memcpy\<close> of a local object into \<open>ob\<close>.\<close>

definition copy_out :: "mem \<Rightarrow> nat \<Rightarrow> byte list \<Rightarrow> mem option" where
  "copy_out ob dst bs = (if dst + length bs \<le> length ob then do {
     (_, m) \<leftarrow> memcpy (ob @ bs) dst (length ob) (length bs);
     Some (take (length ob) m) } else None)"

text \<open>\<^verbatim>\<open>strlcpy(dst, tmp, size)\<close> from a local array.\<close>

definition strlcpy_out :: "mem \<Rightarrow> nat \<Rightarrow> mem \<Rightarrow> nat \<Rightarrow> mem option" where
  "strlcpy_out ob dst tmp size' = do {
     n \<leftarrow> strlen tmp 0;
     if dst + min size' (n + 1) \<le> length ob then do {
       (_, m) \<leftarrow> strlcpy (ob @ tmp) dst (length ob) size';
       Some (take (length ob) m) }
     else None }"

lemma take_wr: "dst + length bs \<le> length ob \<Longrightarrow> take (length ob) (wr (ob @ tmp) dst bs) = wr ob dst bs"
  by (rule nth_equalityI) (auto simp: nth_wr nth_append)

lemma copy_out_wr: "dst + length bs \<le> length ob \<Longrightarrow> copy_out ob dst bs = Some (wr ob dst bs)"
  by (simp add: copy_out_def memcpy_def memmove_blit blit_def take_wr)

lemma strlcpy_out_fits:
  assumes "cstr tmp 0 bs" "length bs < n" "dst + length bs < length ob"
  shows "strlcpy_out ob dst tmp n = Some (wr ob dst (bs @ [0]))"
proof -
  have "cstr (ob @ tmp) (length ob) bs" using assms(1) by (auto simp: cstr_conv bytes_at_nth ld_def nth_append split: if_splits)
  then have "strlcpy (ob @ tmp) dst (length ob) n = Some (length bs, wr (ob @ tmp) dst (bs @ [0]))"
    using strlcpy_wr [of "ob @ tmp" "length ob" bs dst n] assms(2,3) by auto
  then show ?thesis using assms strlen_cstr [OF assms(1)] by (simp add: strlcpy_out_def take_wr)
qed

end
