(* ===== verification/Mbstring.thy ===== *)
theory Mbstring
  imports Utf8 Clocal
begin

text \<open>
  String conversion between multibyte and wide characters, the templates of \<^verbatim>\<open>src/libc/citrus/citrus_ctype_template.h\<close>, and the remaining
  hooks of \<^verbatim>\<open>citrus_utf8.c\<close>.  An encoding module supplies the operations \<open>mbrtowc\<close>, \<open>wcrtomb\<close> and \<open>init\<close> on its state; they are arguments of the
  templates, as they are names that the preprocessor fills in.  The wide string is an object of its own, a list of
  \<^verbatim>\<open>wchar_t\<close>, with checked accesses.  Encodings whose output depends on the state, which the template treats under
  \<^verbatim>\<open>_ENCODING_IS_STATE_DEPENDENT\<close>, are left out.  \<^verbatim>\<open>int cnt\<close> does not go past the largest \<^verbatim>\<open>int\<close>: there the model fails.
\<close>

section \<open>The program\<close>

type_synonym wcs = "u32 list"

type_synonym 's mbrtowc = "mem \<Rightarrow> ptr \<Rightarrow> nat \<Rightarrow> 's \<Rightarrow> (mb_err \<times> u32 option \<times> u64 \<times> ptr \<times> 's) option"

type_synonym 's wcrtomb = "mem \<Rightarrow> ptr \<Rightarrow> nat \<Rightarrow> u32 \<Rightarrow> 's \<Rightarrow> (mb_err \<times> u64 \<times> mem \<times> 's) option"

text \<open>\<^verbatim>\<open>*pwc = wc\<close> if there is a \<^verbatim>\<open>pwc\<close> and the module has a character for it.\<close>

definition put_wc :: "wcs \<Rightarrow> ptr \<Rightarrow> u32 option \<Rightarrow> wcs option" where
  "put_wc wcs pwc wc = (case (pwc, wc) of
     (Some q, Some w) \<Rightarrow> if q < length wcs then Some (wcs[q := w]) else None
   | _ \<Rightarrow> Some wcs)"

definition get_wc :: "wcs \<Rightarrow> nat \<Rightarrow> u32 option" where
  "get_wc wcs p = (if p < length wcs then Some (wcs ! p) else None)"

definition INT_INC :: "nat \<Rightarrow> nat \<Rightarrow> nat option" where
  "INT_INC cnt k = (if cnt + k < 2 ^ 31 then Some (cnt + k) else None)"

definition mbtowc_priv :: "'s mbrtowc \<Rightarrow> ('s \<Rightarrow> 's) \<Rightarrow> mem \<Rightarrow> wcs \<Rightarrow> ptr \<Rightarrow> ptr \<Rightarrow> nat \<Rightarrow> 's \<Rightarrow> (mb_err \<times> wcs \<times> int \<times> 's) option" where
  "mbtowc_priv mbrtowc init m wcs pwc s n psenc =
     (if s = NULL then Some (OK, wcs, 0, init psenc)
      else do {
        (err, wc, nr, _, ps) \<leftarrow> mbrtowc m s n psenc;
        wcs \<leftarrow> put_wc wcs pwc wc;
        let err = (if nr = - 2 then EILSEQ else err);
        if err \<noteq> OK then Some (err, wcs, - 1, psenc)
        else Some (OK, wcs, sint (ucast nr :: u32), ps) })"

partial_function (option) mbsrtowcs_loop :: "'s mbrtowc \<Rightarrow> ('s \<Rightarrow> 's) \<Rightarrow> nat \<Rightarrow> mem \<Rightarrow> wcs \<Rightarrow> ptr \<Rightarrow> ptr \<Rightarrow> nat \<Rightarrow> 's \<Rightarrow> nat \<Rightarrow>
    (mb_err \<times> wcs \<times> ptr \<times> u64 \<times> 's) option" where
  "mbsrtowcs_loop mbrtowc init mbcurmax m wcs pwcs s0 n ps cnt =
     (if n > 0 then do {
        (err, wc, siz, s0, ps) \<leftarrow> mbrtowc m s0 mbcurmax ps;
        wcs \<leftarrow> put_wc wcs pwcs wc;
        let err = (if siz = - 2 then EILSEQ else err);
        if err \<noteq> OK then Some (err, wcs, s0, - 1, ps)
        else if siz = 0 then Some (OK, wcs, NULL, of_nat cnt, if pwcs \<noteq> NULL then init ps else ps)
        else do {
          cnt \<leftarrow> INT_INC cnt 1;
          mbsrtowcs_loop mbrtowc init mbcurmax m wcs (map_option Suc pwcs) s0 (if pwcs \<noteq> NULL then n - 1 else n) ps cnt } }
      else Some (OK, wcs, s0, of_nat cnt, ps))"

definition mbsrtowcs_priv :: "'s mbrtowc \<Rightarrow> ('s \<Rightarrow> 's) \<Rightarrow> nat \<Rightarrow> mem \<Rightarrow> wcs \<Rightarrow> ptr \<Rightarrow> ptr \<Rightarrow> nat \<Rightarrow> 's \<Rightarrow> (mb_err \<times> wcs \<times> ptr \<times> u64 \<times> 's) option" where
  "mbsrtowcs_priv mbrtowc init mbcurmax m wcs pwcs s n ps = do {
     let n = (if pwcs = NULL then 1 else n);
     (err, wcs, s0, nresult, ps) \<leftarrow> mbsrtowcs_loop mbrtowc init mbcurmax m wcs pwcs s n ps 0;
     Some (err, wcs, if pwcs \<noteq> NULL then s0 else s, nresult, ps) }"

partial_function (option) mbsnrtowcs_loop :: "'s mbrtowc \<Rightarrow> ('s \<Rightarrow> 's) \<Rightarrow> mem \<Rightarrow> wcs \<Rightarrow> ptr \<Rightarrow> nat \<Rightarrow> nat \<Rightarrow> nat \<Rightarrow> 's \<Rightarrow> nat \<Rightarrow>
    (mb_err \<times> wcs \<times> ptr \<times> u64 \<times> 's) option" where
  "mbsnrtowcs_loop mbrtowc init m wcs pwcs s0 se n ps cnt =
     (if s0 < se \<and> n > 0 then do {
        (err, wc, siz, s0, ps) \<leftarrow> mbrtowc m (Some s0) (se - s0) ps;
        wcs \<leftarrow> put_wc wcs pwcs wc;
        if err \<noteq> OK then Some (err, wcs, s0, - 1, ps)
        else if siz = - 2 then Some (OK, wcs, Some se, of_nat cnt, ps)
        else if siz = 0 then Some (OK, wcs, NULL, of_nat cnt, if pwcs \<noteq> NULL then init ps else ps)
        else do {
          s0 \<leftarrow> s0;
          mbsnrtowcs_loop mbrtowc init m wcs (map_option Suc pwcs) s0 se (if pwcs \<noteq> NULL then n - 1 else n) ps (cnt + 1) } }
      else Some (OK, wcs, Some s0, of_nat cnt, ps))"

definition mbsnrtowcs_priv :: "'s mbrtowc \<Rightarrow> ('s \<Rightarrow> 's) \<Rightarrow> mem \<Rightarrow> wcs \<Rightarrow> ptr \<Rightarrow> nat \<Rightarrow> nat \<Rightarrow> nat \<Rightarrow> 's \<Rightarrow> (mb_err \<times> wcs \<times> ptr \<times> u64 \<times> 's) option" where
  "mbsnrtowcs_priv mbrtowc init m wcs pwcs s in' n ps = do {
     let n = (if pwcs = NULL then 1 else n);
     (err, wcs, s0, nresult, ps) \<leftarrow> mbsnrtowcs_loop mbrtowc init m wcs pwcs s (s + in') n ps 0;
     Some (err, wcs, if pwcs \<noteq> NULL then s0 else Some s, nresult, ps) }"

definition MB_LEN_MAX :: nat where "MB_LEN_MAX = 32"

text \<open>\<^verbatim>\<open>memcpy(s, buf, siz); s += siz; n -= siz;\<close> if there is an output.\<close>

definition emit :: "mem \<Rightarrow> ptr \<Rightarrow> nat \<Rightarrow> mem \<Rightarrow> nat \<Rightarrow> (mem \<times> ptr \<times> nat) option" where
  "emit m s n buf siz = (case s of
     None \<Rightarrow> Some (m, NULL, n)
   | Some p \<Rightarrow> do { m \<leftarrow> copy_out m p (take siz buf); Some (m, Some (p + siz), n - siz) })"

text \<open>
  The loop of the two encoders; \<open>in'\<close> is \<open>None\<close> in \<open>wcsrtombs\<close>.  The result is the return value, the memory, the new \<^verbatim>\<open>pwcs0\<close>, \<^verbatim>\<open>*nresult\<close>, the state and whether
  the function returns from the loop.
\<close>

partial_function (option) wcsrtombs_loop :: "'s wcrtomb \<Rightarrow> ('s \<Rightarrow> 's) \<Rightarrow> mem \<Rightarrow> wcs \<Rightarrow> nat option \<Rightarrow> mem \<Rightarrow> ptr \<Rightarrow> nat \<Rightarrow> nat \<Rightarrow> 's \<Rightarrow> nat \<Rightarrow>
    (mb_err \<times> mem \<times> ptr \<times> u64 \<times> 's \<times> bool) option" where
  "wcsrtombs_loop wcrtomb init buf wcs in' m s pwcs0 n ps cnt =
     (if in' \<noteq> Some 0 \<and> n > 0 then do {
        w \<leftarrow> get_wc wcs pwcs0;
        (err, siz, buf, ps) \<leftarrow> wcrtomb buf (Some 0) MB_LEN_MAX w ps;
        if siz = - 1 then Some (err, m, Some pwcs0, - 1, ps, True)
        else if s \<noteq> NULL \<and> n < unat siz then Some (OK, m, Some pwcs0, of_nat cnt, ps, False)
        else do {
          (m, s, n) \<leftarrow> emit m s n buf (unat siz);
          cnt \<leftarrow> (if in' = None then Some (cnt + unat siz) else INT_INC cnt (unat siz));
          if w = 0 then Some (OK, m, NULL, of_nat (cnt - 1), if s \<noteq> NULL then init ps else ps, False)
          else wcsrtombs_loop wcrtomb init buf wcs (map_option (\<lambda>i. i - 1) in') m s (pwcs0 + 1) n ps cnt } }
      else Some (OK, m, Some pwcs0, of_nat cnt, ps, False))"

definition wcsrtombs_priv :: "'s wcrtomb \<Rightarrow> ('s \<Rightarrow> 's) \<Rightarrow> mem \<Rightarrow> wcs \<Rightarrow> mem \<Rightarrow> ptr \<Rightarrow> nat \<Rightarrow> nat \<Rightarrow> 's \<Rightarrow> (mb_err \<times> mem \<times> ptr \<times> u64 \<times> 's) option" where
  "wcsrtombs_priv wcrtomb init buf wcs m s pwcs n ps = do {
     (err, m, pwcs0, nresult, ps, ret) \<leftarrow> wcsrtombs_loop wcrtomb init buf wcs None m s pwcs (if s = NULL then 1 else n) ps 0;
     Some (err, m, if ret \<or> s \<noteq> NULL then pwcs0 else Some pwcs, nresult, ps) }"

definition wcsnrtombs_priv :: "'s wcrtomb \<Rightarrow> ('s \<Rightarrow> 's) \<Rightarrow> mem \<Rightarrow> wcs \<Rightarrow> mem \<Rightarrow> ptr \<Rightarrow> nat \<Rightarrow> nat \<Rightarrow> nat \<Rightarrow> 's \<Rightarrow> (mb_err \<times> mem \<times> ptr \<times> u64 \<times> 's) option" where
  "wcsnrtombs_priv wcrtomb init buf wcs m s pwcs in' n ps = do {
     (err, m, pwcs0, nresult, ps, ret) \<leftarrow> wcsrtombs_loop wcrtomb init buf wcs (Some in') m s pwcs (if s = NULL then 1 else n) ps 0;
     Some (err, m, if \<not> ret \<and> s \<noteq> NULL then pwcs0 else Some pwcs, nresult, ps) }"

section \<open>The other hooks of the UTF-8 module\<close>

definition UTF8_pack_state :: "UTF8State \<Rightarrow> UTF8State" where "UTF8_pack_state s = s"

definition UTF8_unpack_state :: "UTF8State \<Rightarrow> UTF8State" where "UTF8_unpack_state pspriv = pspriv"

definition UTF8_stdenc_wctocs :: "u32 \<Rightarrow> u32 \<times> u32" where "UTF8_stdenc_wctocs wc = (0, wc)"

definition UTF8_stdenc_cstowc :: "u32 \<Rightarrow> u32 \<Rightarrow> mb_err + u32" where
  "UTF8_stdenc_cstowc csid idx = (if csid \<noteq> 0 then Inl EILSEQ else Inr idx)"

definition STDENC_SDGEN_INITIAL :: int where "STDENC_SDGEN_INITIAL = 1"
definition STDENC_SDGEN_INCOMPLETE_CHAR :: int where "STDENC_SDGEN_INCOMPLETE_CHAR = 3"

definition UTF8_stdenc_get_state_desc_generic :: "UTF8State \<Rightarrow> int" where
  "UTF8_stdenc_get_state_desc_generic psenc = (if chlen psenc = 0 then STDENC_SDGEN_INITIAL else STDENC_SDGEN_INCOMPLETE_CHAR)"

text \<open>The encoder keeps no state.\<close>

definition UTF8_wcrtomb :: "UTF8State wcrtomb" where
  "UTF8_wcrtomb m s n wc ps = do { (err, nresult, m) \<leftarrow> wcrtomb_priv m s n wc; Some (err, nresult, m, ps) }"

definition UTF8_MB_CUR_MAX :: nat where "UTF8_MB_CUR_MAX = 6"

section \<open>The contract of an encoding module\<close>

text \<open>
  \<open>code w\<close> is the encoding of the character \<open>w\<close>; \<open>initial\<close> holds between characters.  The decoder looks at no more bytes than it needs, so it may be given a bound
  beyond the end of the string.
\<close>

locale codec =
  fixes mbrtowc :: "'s mbrtowc" and wcrtomb :: "'s wcrtomb" and init :: "'s \<Rightarrow> 's" and mbcurmax :: nat
    and initial :: "'s \<Rightarrow> bool" and valid :: "u32 \<Rightarrow> bool" and code :: "u32 \<Rightarrow> byte list"
  assumes decode: "initial ps \<Longrightarrow> valid w \<Longrightarrow> bytes_at m q (code w) \<Longrightarrow> length (code w) \<le> n \<Longrightarrow>
      \<exists>ps'. mbrtowc m (Some q) n ps = Some (OK, Some w, if w = 0 then 0 else of_nat (length (code w)), Some (q + length (code w)), ps') \<and> initial ps'"
    and decode_bad: "initial ps \<Longrightarrow> cstr m q bs \<Longrightarrow> (\<And>w. valid w \<Longrightarrow> \<not> prefix (code w) (bs @ [0])) \<Longrightarrow>
      \<exists>ps'. mbrtowc m (Some q) mbcurmax ps = Some (EILSEQ, None, - 1, Some q, ps')"
    and encode: "initial ps \<Longrightarrow> valid w \<Longrightarrow> s + n \<le> length m \<Longrightarrow> length (code w) \<le> n \<Longrightarrow>
      \<exists>ps'. wcrtomb m (Some s) n w ps = Some (OK, of_nat (length (code w)), wr m s (code w), ps') \<and> initial ps'"
    and encode_bad: "\<not> valid w \<Longrightarrow> s + n \<le> length m \<Longrightarrow> wcrtomb m (Some s) n w ps = Some (EILSEQ, - 1, m, ps)"
    and init_initial: "initial ps \<Longrightarrow> initial (init ps)"
    and code_length: "valid w \<Longrightarrow> 0 < length (code w) \<and> length (code w) \<le> mbcurmax" "mbcurmax \<le> MB_LEN_MAX"
    and code_zero: "code 0 = [0]" "valid 0" and code_nonzero: "valid w \<Longrightarrow> w \<noteq> 0 \<Longrightarrow> 0 \<notin> set (code w)"

section \<open>UTF-8 meets the contract\<close>

lemma collect_more:
  "collect c m s0 k ps = Some (r, s, ps') \<Longrightarrow> r \<noteq> Restart \<Longrightarrow> k \<le> n \<Longrightarrow> collect c m s0 n ps = Some (r, s, ps')"
proof (induction c m s0 k ps arbitrary: n rule: collect.induct)
  case (1 c m s0 k ps)
  note U = 1(2) [unfolded collect.simps [of c m s0 k ps]]
  show ?case
  proof (cases "chlen ps < c")
    case True
    then obtain k' where k': "k = Suc k'" using U 1(3) by (cases k) auto
    obtain n' where n': "n = Suc n'" "k' \<le> n'" using 1(4) k' by (cases n) auto
    obtain x where x: "ld m s0 = Some x" using U True k' by (cases "ld m s0") auto
    show ?thesis
    proof (cases "x AND 0xc0 \<noteq> 0x80")
      case b: True
      then show ?thesis using U True k' n' x by (subst collect.simps) simp
    next
      case b: False
      then obtain ps1 where p1: "push_ch ps x = Some ps1" using U True k' x by (cases "push_ch ps x") auto
      have "collect c m (s0 + 1) k' ps1 = Some (r, s, ps')" using U True k' x b p1 by simp
      then have "collect c m (s0 + 1) n' ps1 = Some (r, s, ps')" using 1(1) [OF True k' x b p1] 1(3) n'(2) by blast
      then show ?thesis using True n' x b p1 by (subst collect.simps) simp
    qed
  next
    case False
    then show ?thesis using U by (subst collect.simps) simp
  qed
qed

lemma mb_continue_more:
  assumes "mb_continue m p s0 k c ps = Some (e, w, nr, s, ps')" "nr \<noteq> - 2" "k \<le> n" "chlen ps < c"
  shows "mb_continue m p s0 n c ps = Some (e, w, nr, s, ps')"
proof (cases k)
  case 0
  then have "collect c m s0 k ps = Some (Restart, s0, ps)" using assms(4) by (simp add: collect.simps)
  then show ?thesis using assms(1,2) 0 by (simp add: mb_continue_def)
next
  case (Suc k')
  then have n: "n \<ge> 1" "k \<ge> 1" using assms(3) by simp_all
  obtain bad where bad: "(if chlen ps = 1 \<and> k \<ge> 1 then do { x \<leftarrow> ld m s0; Some (fst (UTF8_Byte2 ! unat (ch ps ! 0)) > x \<or> snd (UTF8_Byte2 ! unat (ch ps ! 0)) < x) } else Some False) = Some bad"
    using assms(1) unfolding mb_continue_def Let_def by (cases "if chlen ps = 1 \<and> k \<ge> 1 then do { x \<leftarrow> ld m s0; Some (fst (UTF8_Byte2 ! unat (ch ps ! 0)) > x \<or> snd (UTF8_Byte2 ! unat (ch ps ! 0)) < x) } else Some False") auto
  show ?thesis
  proof (cases bad)
    case True
    then show ?thesis using assms(1) bad n unfolding mb_continue_def Let_def by simp
  next
    case False
    obtain r s1 ps1 where r: "collect c m s0 k ps = Some (r, s1, ps1)" using assms(1) bad False unfolding mb_continue_def Let_def by (cases "collect c m s0 k ps") auto
    have "r \<noteq> Restart" using assms(1,2) bad False r unfolding mb_continue_def Let_def by auto
    then have "collect c m s0 n ps = Some (r, s1, ps1)" using collect_more [OF r] assms(3) by blast
    then show ?thesis using assms(1) bad False r n unfolding mb_continue_def Let_def by simp
  qed
qed

lemma mbrtowc_more:
  assumes "mbrtowc_priv m (Some q) k ps = Some (e, w, nr, s, ps')" "nr \<noteq> - 2" "k \<le> n" "chlen ps = 0" "0 < k"
  shows "mbrtowc_priv m (Some q) n ps = Some (e, w, nr, s, ps')"
proof -
  obtain x ps1 where x: "ld m q = Some x" "push_ch ps x = Some ps1" using assms(1,4,5) by (auto simp: mbrtowc_priv_def split: bind_splits)
  have c1: "chlen ps1 = 1" using x(2) assms(4) by (auto simp: push_ch_def split: bind_splits)
  have eq: "mbrtowc_priv m (Some q) j ps = (let b = ch ps1 ! 0; c = UTF8_count ! unat b in
      if c < 1 then Some (EILSEQ, None, - 1, Some q, ps1)
      else if c = 1 then Some (OK, Some (ucast b), if ucast b = (0 :: u32) then 0 else of_nat 1, Some (q + 1), ps1\<lparr>chlen := 0\<rparr>)
      else mb_continue m q (q + 1) (j - 1) c ps1)" if "0 < j" for j
    using that x assms(4) c1 by (simp add: mbrtowc_priv_def Let_def)
  have "0 < n" using assms(3,5) by simp
  then show ?thesis using assms(1) mb_continue_more [of m q "q + 1" "k - 1" "UTF8_count ! unat (ch ps1 ! 0)" ps1 e w nr s ps' "n - 1"] assms(2,3) c1
    unfolding eq [OF assms(5)] eq [OF \<open>0 < n\<close>] by (auto simp: Let_def split: if_splits)
qed

definition wide_code :: "u32 \<Rightarrow> byte list" where
  "wide_code w = utf8 (unat w)"

lemma utf8_zero_iff:
  assumes "scalar v"
  shows "0 \<in> set (utf8 v) \<longleftrightarrow> v = 0"
proof -
  have "0 \<in> set (utf8 v) \<longleftrightarrow> 0 \<in> unat ` set (utf8 v)" by (force simp: unat_eq_0 image_iff)
  also have "\<dots> \<longleftrightarrow> 0 \<in> set (utf8_units v)" using unat_utf8 [OF assms] by (metis list.set_map)
  finally show ?thesis by (simp add: utf8_units_def)
qed

lemma utf8_decode:
  assumes "holds ps []" "scalar (unat w)" "bytes_at m q (wide_code w)" "length (wide_code w) \<le> n"
  shows "\<exists>ps'. mbrtowc_priv m (Some q) n ps = Some (OK, Some w, if w = 0 then 0 else of_nat (length (wide_code w)), Some (q + length (wide_code w)), ps') \<and> holds ps' []"
proof -
  have l: "0 < length (wide_code w)" "length (wide_code w) \<le> 4" by (simp_all add: wide_code_def utf8_def utf8_units_def)
  have "q + length (wide_code w) \<le> length m" using bytes_at_length [OF assms(3)] l by auto
  then obtain ps' where d: "mbrtowc_priv m (Some q) (length (wide_code w)) ps =
      Some (OK, Some w, if w = 0 then 0 else of_nat (length (wide_code w)), Some (q + length (wide_code w)), ps')" "holds ps' []"
    using decode_encoded [OF assms(2) _ assms(1), of q m] wr_same [OF assms(3)] by (auto simp: wide_code_def)
  have "length (wide_code w) = 1 \<or> length (wide_code w) = 2 \<or> length (wide_code w) = 3 \<or> length (wide_code w) = 4" using l by presburger
  then have "(if w = 0 then 0 else of_nat (length (wide_code w))) \<noteq> (- 2 :: u64)" by auto
  from mbrtowc_more [OF d(1) this assms(4)] show ?thesis using assms(1) l(1) d(2) by (auto simp: holds_def)
qed

lemma utf8_decode_bad:
  assumes "holds ps []" "cstr m q bs" "\<And>w. scalar (unat w) \<Longrightarrow> \<not> prefix (wide_code w) (bs @ [0])"
  shows "\<exists>ps'. mbrtowc_priv m (Some q) UTF8_MB_CUR_MAX ps = Some (EILSEQ, None, - 1, Some q, ps')"
proof -
  define bs' where "bs' = take 6 (bs @ [0])"
  have nv: "\<not> prefix (utf8 v) (bs @ [0])" if "scalar v" for v
  proof -
    have "unat (word_of_nat v :: u32) = v" using that by (simp add: scalar_def unat_of_nat)
    then show ?thesis using assms(3) [of "word_of_nat v"] that by (simp add: wide_code_def)
  qed
  have p: "prefix bs' (bs @ [0])" unfolding bs'_def by (rule take_is_prefix)
  have "bytes_at m q (bs @ [0])" using assms(2) by (simp add: cstr_conv)
  then have b: "bytes_at m q bs'" using p bytes_at_append by (auto elim!: prefixE simp del: bytes_at.simps)
  have l: "0 < length bs'" "length bs' \<le> 6" by (simp_all add: bs'_def)
  have "q + length bs' \<le> length m" using bytes_at_length [OF b] l(1) by auto
  then obtain r where r: "mbrtowc_priv m (Some q) (length bs') ps = Some r" "decodes [] bs' q r" using mbrtowc_ok [OF assms(1) _ b] by auto
  have 1: "\<not> (\<exists>v. scalar v \<and> prefix (utf8 v) ([] @ bs'))" using nv p prefix_order.trans by (metis append_Nil)
  have 2: "\<not> (\<exists>v. scalar v \<and> prefix ([] @ bs') (utf8 v))"
  proof
    assume "\<exists>v. scalar v \<and> prefix ([] @ bs') (utf8 v)"
    then obtain v where v: "scalar v" "prefix bs' (utf8 v)" by auto
    have "length (utf8 v) \<le> 4" by (simp add: utf8_def utf8_units_def)
    then have "length bs' < 6" using prefix_length_le [OF v(2)] by simp
    then have "bs' = bs @ [0]" by (simp add: bs'_def)
    then have "0 \<in> set (utf8 v)" using set_mono_prefix [OF v(2)] by auto
    then have "v = 0" using utf8_zero_iff [OF v(1)] by simp
    then have "bs' = [0]" using v(2) l(1) by (simp add: utf8_def utf8_units_def prefix_Cons)
    then show False using 1 v(1) \<open>v = 0\<close> by (auto simp: utf8_def utf8_units_def)
  qed
  obtain ps' where e: "mbrtowc_priv m (Some q) (length bs') ps = Some (EILSEQ, None, - 1, Some q, ps')" using r unfolding decodes_def if_not_P [OF 1] if_not_P [OF 2] by auto
  have "(- 1 :: u64) \<noteq> - 2" by simp
  from mbrtowc_more [OF e this l(2)] show ?thesis using assms(1) l(1) by (auto simp: holds_def UTF8_MB_CUR_MAX_def)
qed

interpretation utf8_codec: codec mbrtowc_priv UTF8_wcrtomb init_state UTF8_MB_CUR_MAX "\<lambda>ps. holds ps []" "\<lambda>w. scalar (unat w)" wide_code
proof
  fix ps :: UTF8State and w :: u32 and m :: mem and q s n :: nat and bs
  assume "holds ps []" "scalar (unat w)" "s + n \<le> length m" "length (wide_code w) \<le> n"
  then show "\<exists>ps'. UTF8_wcrtomb m (Some s) n w ps = Some (OK, of_nat (length (wide_code w)), wr m s (wide_code w), ps') \<and> holds ps' []"
    using wcrtomb_ok [of s n m w] by (auto simp: UTF8_wcrtomb_def wide_code_def)
next
  fix w :: u32 and s n :: nat and m :: mem and ps :: UTF8State
  assume "\<not> scalar (unat w)" "s + n \<le> length m"
  then show "UTF8_wcrtomb m (Some s) n w ps = Some (EILSEQ, - 1, m, ps)" using wcrtomb_ok [of s n m w] by (auto simp: UTF8_wcrtomb_def)
next
  fix w :: u32
  assume "scalar (unat w)"
  then show "w \<noteq> 0 \<Longrightarrow> 0 \<notin> set (wide_code w)" using utf8_zero_iff by (simp add: wide_code_def unat_eq_0)
qed (use utf8_decode utf8_decode_bad in \<open>auto simp: init_state_def holds_def wide_code_def utf8_def utf8_units_def UTF8_MB_CUR_MAX_def MB_LEN_MAX_def scalar_def\<close>)

section \<open>The string conversions of an encoding that meets the contract\<close>

fun wput :: "wcs \<Rightarrow> ptr \<Rightarrow> wcs \<Rightarrow> wcs" where
  "wput xs None ws = xs"
| "wput xs (Some p) [] = xs"
| "wput xs (Some p) (w # ws) = wput (xs[p := w]) (Some (Suc p)) ws"

fun room :: "wcs \<Rightarrow> ptr \<Rightarrow> nat \<Rightarrow> bool" where
  "room xs None k = True"
| "room xs (Some p) k = (p + k \<le> length xs)"

lemma wput_Nil [simp]: "wput xs p [] = xs"
  by (cases p) auto

lemma wput_Cons: "room xs p (Suc k) \<Longrightarrow> put_wc xs p (Some w) = Some (wput xs p [w]) \<and> room (wput xs p [w]) (map_option Suc p) k"
  by (cases p) (auto simp: put_wc_def)

lemma wput_append: "wput xs p (ws @ vs) = wput (wput xs p ws) (map_option (\<lambda>i. i + length ws) p) vs"
  by (induction xs p ws rule: wput.induct) (auto simp: option.map_ident)

lemma length_wput [simp]: "length (wput xs p ws) = length xs"
  by (induction xs p ws rule: wput.induct) auto

lemma wput_conv: "p + length ws \<le> length xs \<Longrightarrow> wput xs (Some p) ws = take p xs @ ws @ drop (p + length ws) xs"
proof (induction ws arbitrary: xs p)
  case (Cons w ws)
  then show ?case using Cons.IH [of "Suc p" "xs[p := w]"] by (simp add: take_Suc_conv_app_nth)
qed simp

fun mput :: "mem \<Rightarrow> ptr \<Rightarrow> byte list \<Rightarrow> mem" where
  "mput m None bs = m"
| "mput m (Some d) bs = wr m d bs"

fun space :: "mem \<Rightarrow> ptr \<Rightarrow> nat \<Rightarrow> bool" where
  "space m None k = True"
| "space m (Some d) k = (d + k \<le> length m)"

lemma mput_append: "mput m s (xs @ ys) = mput (mput m s xs) (map_option (\<lambda>i. i + length xs) s) ys"
  by (cases s) (auto simp: wr_append)

lemma mput_Nil [simp]: "mput m s [] = m"
  by (cases s) auto

lemma emit_wr:
  assumes "space m s n" "s \<noteq> NULL \<longrightarrow> length bs \<le> n" "length bs \<le> length buf"
  shows "emit m s n (wr buf 0 bs) (length bs) = Some (mput m s bs, map_option (\<lambda>i. i + length bs) s, if s \<noteq> NULL then n - length bs else n)"
proof -
  have "take (length bs) (wr buf 0 bs) = bs" using assms(3) by (simp add: wr_conv)
  then show ?thesis using assms(1,2) copy_out_wr by (cases s) (auto simp: emit_def)
qed

fun wide_at :: "wcs \<Rightarrow> nat \<Rightarrow> u32 list \<Rightarrow> bool" where
  "wide_at wcs p [] = True"
| "wide_at wcs p (w # ws) = (get_wc wcs p = Some w \<and> wide_at wcs (p + 1) ws)"

lemma wide_at_append: "wide_at wcs p (xs @ ys) \<longleftrightarrow> wide_at wcs p xs \<and> wide_at wcs (p + length xs) ys"
  by (induction wcs p xs rule: wide_at.induct) auto

text \<open>The characters that fit into \<open>n\<close> bytes.\<close>

fun fit :: "('a \<Rightarrow> byte list) \<Rightarrow> nat \<Rightarrow> 'a list \<Rightarrow> 'a list" where
  "fit code n [] = []"
| "fit code n (w # ws) = (if length (code w) \<le> n then w # fit code (n - length (code w)) ws else [])"

lemma fit_split:
  "\<exists>rest. ws = fit code n ws @ rest \<and> length (concat (map code (fit code n ws))) \<le> n \<and>
     (rest \<noteq> [] \<longrightarrow> n - length (concat (map code (fit code n ws))) < length (code (hd rest)))"
proof (induction code n ws rule: fit.induct)
  case (2 code n w ws)
  then show ?case by (cases "length (code w) \<le> n") (auto simp: diff_diff_left)
qed simp

lemma fit_all: "length (concat (map code ws)) \<le> n \<Longrightarrow> fit code n ws = ws"
  by (induction code n ws rule: fit.induct) auto

context codec
begin

abbreviation chars :: "u32 list \<Rightarrow> byte list" where "chars ws \<equiv> concat (map code ws)"

lemma code_short: "valid w \<Longrightarrow> 0 < length (code w) \<and> length (code w) \<le> 32"
  using code_length(1) [of w] code_length(2) by (simp add: MB_LEN_MAX_def)

lemma code_siz:
  assumes "valid w"
  shows "(of_nat (length (code w)) :: u64) \<noteq> 0" "(of_nat (length (code w)) :: u64) \<noteq> - 2" "(of_nat (length (code w)) :: u64) \<noteq> - 1"
    "unat (of_nat (length (code w)) :: u64) = length (code w)"
proof -
  have l: "0 < length (code w)" "length (code w) \<le> 32" using code_short [OF assms] by auto
  then show u: "unat (of_nat (length (code w)) :: u64) = length (code w)" by (simp add: unat_of_nat)
  have "unat (- 2 :: u64) = 2 ^ 64 - 2" "unat (- 1 :: u64) = 2 ^ 64 - 1" by (simp_all add: unsigned_minus_1_eq_mask mask_eq_exp_minus_1)
  then show "(of_nat (length (code w)) :: u64) \<noteq> 0" "(of_nat (length (code w)) :: u64) \<noteq> - 2" "(of_nat (length (code w)) :: u64) \<noteq> - 1"
    using l u by (metis unat_0 less_irrefl, auto dest!: arg_cong [where f = unat])
qed

lemma chars_nonzero: "list_all valid ws \<Longrightarrow> 0 \<notin> set ws \<Longrightarrow> 0 \<notin> set (chars ws)"
  using code_nonzero by (induction ws) auto

text \<open>Every string is a sequence of characters up to the first place where none begins.\<close>

lemma longest: "0 \<notin> set bs \<Longrightarrow> \<exists>ws rest. bs = chars ws @ rest \<and> list_all valid ws \<and> 0 \<notin> set ws \<and> (\<forall>w. valid w \<longrightarrow> \<not> prefix (code w) rest)"
proof (induction "length bs" arbitrary: bs rule: less_induct)
  case less
  show ?case
  proof (cases "\<exists>w. valid w \<and> prefix (code w) bs")
    case True
    then obtain w bs' where w: "valid w" "bs = code w @ bs'" by (auto elim: prefixE)
    have "length bs' < length bs" using w code_length(1) [OF w(1)] by simp
    then obtain ws rest where r: "bs' = chars ws @ rest" "list_all valid ws" "0 \<notin> set ws" "\<forall>w. valid w \<longrightarrow> \<not> prefix (code w) rest"
      using less.hyps [of bs'] less.prems w(2) by auto
    have "w \<noteq> 0" using less.prems w(2) code_zero(1) by auto
    then have "bs = chars (w # ws) @ rest \<and> list_all valid (w # ws) \<and> 0 \<notin> set (w # ws) \<and> (\<forall>w. valid w \<longrightarrow> \<not> prefix (code w) rest)"
      using w r by simp
    then show ?thesis by blast
  next
    case False
    then show ?thesis by (intro exI [of _ "[]"] exI [of _ bs]) auto
  qed
qed

lemma mbs_step:
  assumes "initial ps" "valid w" "w \<noteq> 0" "bytes_at m q (code w)" "0 < n" "room wcs pwcs (Suc k)" "cnt + 1 < 2 ^ 31"
  shows "\<exists>ps'. initial ps' \<and> mbsrtowcs_loop mbrtowc init mbcurmax m wcs pwcs (Some q) n ps cnt =
      mbsrtowcs_loop mbrtowc init mbcurmax m (wput wcs pwcs [w]) (map_option Suc pwcs) (Some (q + length (code w))) (if pwcs \<noteq> NULL then n - 1 else n) ps' (cnt + 1)"
proof -
  obtain ps' where d: "mbrtowc m (Some q) mbcurmax ps = Some (OK, Some w, of_nat (length (code w)), Some (q + length (code w)), ps')" "initial ps'"
    using decode [OF assms(1,2,4), of mbcurmax] code_length(1) [OF assms(2)] assms(3) by auto
  have "put_wc wcs pwcs (Some w) = Some (wput wcs pwcs [w])" using wput_Cons [OF assms(6)] by blast
  then show ?thesis using d assms(5,7) code_siz [OF assms(2)]
    by (subst mbsrtowcs_loop.simps) (auto simp: Let_def INT_INC_def)
qed

lemma mbs_run:
  assumes "initial ps" "list_all valid ws" "0 \<notin> set ws" "bytes_at m q (chars ws)" "pwcs \<noteq> NULL \<Longrightarrow> length ws \<le> n" "0 < n \<or> ws = []"
    "room wcs pwcs (length ws)" "cnt + length ws < 2 ^ 31"
  shows "\<exists>ps'. initial ps' \<and> mbsrtowcs_loop mbrtowc init mbcurmax m wcs pwcs (Some q) n ps cnt =
      mbsrtowcs_loop mbrtowc init mbcurmax m (wput wcs pwcs ws) (map_option (\<lambda>i. i + length ws) pwcs) (Some (q + length (chars ws)))
        (if pwcs \<noteq> NULL then n - length ws else n) ps' (cnt + length ws)"
  using assms
proof (induction ws arbitrary: ps q n wcs pwcs cnt)
  case Nil
  then show ?case by (auto simp: option.map_ident)
next
  case (Cons w ws)
  then have v: "valid w" "w \<noteq> 0" "bytes_at m q (code w)" "bytes_at m (q + length (code w)) (chars ws)" "0 < n" "cnt + 1 < 2 ^ 31"
    by (auto simp: bytes_at_append)
  obtain ps1 where s: "initial ps1" "mbsrtowcs_loop mbrtowc init mbcurmax m wcs pwcs (Some q) n ps cnt =
      mbsrtowcs_loop mbrtowc init mbcurmax m (wput wcs pwcs [w]) (map_option Suc pwcs) (Some (q + length (code w))) (if pwcs \<noteq> NULL then n - 1 else n) ps1 (cnt + 1)"
    using mbs_step [OF Cons.prems(1) v(1,2,3,5) Cons.prems(7) [unfolded list.size add_0_right add_Suc_right] v(6)] by blast
  have r: "room (wput wcs pwcs [w]) (map_option Suc pwcs) (length ws)" using wput_Cons Cons.prems(7) by auto
  have e: "map_option (\<lambda>i. i + length ws) (map_option Suc pwcs) = map_option (\<lambda>i. i + length (w # ws)) pwcs" by (cases pwcs) auto
  have "wput (wput wcs pwcs [w]) (map_option Suc pwcs) ws = wput wcs pwcs (w # ws)" by (cases pwcs) auto
  moreover have n: "map_option Suc pwcs \<noteq> NULL \<Longrightarrow> length ws \<le> (if pwcs \<noteq> NULL then n - 1 else n)" "0 < (if pwcs \<noteq> NULL then n - 1 else n) \<or> ws = []"
    using Cons.prems(5) v(5) by (cases ws; auto)+
  ultimately show ?case using Cons.IH [OF s(1) _ _ v(4) n r, of "cnt + 1"] Cons.prems(2,3,8) s(2) e
    by (auto simp: add.assoc split: if_splits)
qed

text \<open>The ends of the loop: no room left, the terminating NUL, and a place where no character begins.\<close>

lemma mbs_end_full: "mbsrtowcs_loop mbrtowc init mbcurmax m wcs pwcs s 0 ps cnt = Some (OK, wcs, s, of_nat cnt, ps)"
  by (subst mbsrtowcs_loop.simps) simp

lemma mbs_end_nul:
  assumes "initial ps" "ld m q = Some 0" "0 < n" "room wcs pwcs 1"
  shows "\<exists>ps'. initial ps' \<and> mbsrtowcs_loop mbrtowc init mbcurmax m wcs pwcs (Some q) n ps cnt = Some (OK, wput wcs pwcs [0], NULL, of_nat cnt, ps')"
proof -
  have c: "0 < length (code 0)" "length (code 0) \<le> mbcurmax" "bytes_at m q (code 0)" using code_length(1) [of 0] code_zero assms(2) by auto
  obtain ps' where d: "mbrtowc m (Some q) mbcurmax ps = Some (OK, Some 0, 0, Some (q + length (code 0)), ps')" "initial ps'"
    using decode [OF assms(1) code_zero(2) c(3,2)] by auto
  have "put_wc wcs pwcs (Some 0) = Some (wput wcs pwcs [0])" using wput_Cons [of wcs pwcs 0 0] assms(4) by simp
  then show ?thesis using d assms(3) init_initial by (subst mbsrtowcs_loop.simps) (auto simp: Let_def)
qed

lemma mbs_end_bad:
  assumes "initial ps" "cstr m q rest" "rest \<noteq> []" "\<forall>w. valid w \<longrightarrow> \<not> prefix (code w) rest" "0 < n"
  shows "\<exists>ps'. mbsrtowcs_loop mbrtowc init mbcurmax m wcs pwcs (Some q) n ps cnt = Some (EILSEQ, wcs, Some q, - 1, ps')"
proof -
  have z: "0 \<notin> set rest" using assms(2) by (simp add: cstr_conv)
  have "\<not> prefix (code w) (rest @ [0])" if "valid w" for w
  proof
    assume p: "prefix (code w) (rest @ [0])"
    show False
    proof (cases "w = 0")
      case True
      then show False using p assms(3) z code_zero(1) by (cases rest) auto
    next
      case False
      then show False using p assms(4) that code_nonzero [OF that] by (auto simp: prefix_snoc)
    qed
  qed
  from decode_bad [OF assms(1,2) this] obtain ps' where "mbrtowc m (Some q) mbcurmax ps = Some (EILSEQ, None, - 1, Some q, ps')" by blast
  moreover have "put_wc wcs pwcs None = Some wcs" by (cases pwcs) (auto simp: put_wc_def)
  ultimately show ?thesis using assms(5) by (subst mbsrtowcs_loop.simps) (auto simp: Let_def)
qed

text \<open>What a call gives for the string \<open>chars ws @ rest\<close>, where no character begins at \<open>rest\<close>.\<close>

definition converts :: "wcs \<Rightarrow> ptr \<Rightarrow> nat \<Rightarrow> nat \<Rightarrow> u32 list \<Rightarrow> byte list \<Rightarrow> mb_err \<times> wcs \<times> ptr \<times> u64 \<times> 's \<Rightarrow> bool" where
  "converts wcs pwcs q n ws rest r = (case (pwcs, r) of
     (None, (e, xs, s, nr, ps)) \<Rightarrow> xs = wcs \<and> s = Some q \<and> (e, nr) = (if rest = [] then (OK, of_nat (length ws)) else (EILSEQ, - 1))
   | (Some p, (e, xs, s, nr, ps)) \<Rightarrow> (e, xs, s, nr) = (
       if n \<le> length ws then (OK, wput wcs (Some p) (take n ws), Some (q + length (chars (take n ws))), of_nat n)
       else if rest = [] then (OK, wput wcs (Some p) (ws @ [0]), NULL, of_nat (length ws))
       else (EILSEQ, wput wcs (Some p) ws, Some (q + length (chars ws)), - 1)))"

lemma mbsrtowcs_converts:
  assumes "initial ps" "cstr m q (chars ws @ rest)" "list_all valid ws" "0 \<notin> set ws" "\<forall>w. valid w \<longrightarrow> \<not> prefix (code w) rest"
    "room wcs pwcs n" "length ws < 2 ^ 31"
  shows "\<exists>r. mbsrtowcs_priv mbrtowc init mbcurmax m wcs pwcs (Some q) n ps = Some r \<and> converts wcs pwcs q n ws rest r"
proof (cases "pwcs \<noteq> NULL \<and> n \<le> length ws")
  case True
  then obtain p where p: "pwcs = Some p" by auto
  have b: "bytes_at m q (chars (take n ws))" 
    using assms(2) unfolding cstr_conv by (metis append_assoc append_take_drop_id bytes_at_append concat_append map_append)
  have "list_all valid (take n ws)" "0 \<notin> set (take n ws)" using assms(3,4) by (auto simp: list_all_iff dest: in_set_takeD)
  moreover have "0 < n \<or> take n ws = []" by (cases n) auto
  ultimately obtain ps' where
    "mbsrtowcs_loop mbrtowc init mbcurmax m wcs pwcs (Some q) n ps 0 = Some (OK, wput wcs pwcs (take n ws), Some (q + length (chars (take n ws))), of_nat n, ps')"
    using mbs_run [OF assms(1) _ _ b, of pwcs n wcs 0] True assms(6,7) by (auto simp: mbs_end_full p min_absorb2)
  then show ?thesis using True by (simp add: mbsrtowcs_priv_def converts_def p)
next
  case False
  define N where "N = (if pwcs = NULL then 1 else n)"
  have r: "room wcs pwcs (length ws)" "room (wput wcs pwcs ws) (map_option (\<lambda>i. i + length ws) pwcs) 1" using assms(6) False by (cases pwcs; auto)+
  have b: "bytes_at m q (chars ws)" and t: "cstr m (q + length (chars ws)) rest"
    using assms(2) by (auto simp: cstr_conv bytes_at_append)
  have N: "pwcs \<noteq> NULL \<Longrightarrow> length ws \<le> N" "0 < N" using False by (auto simp: N_def)
  from mbs_run [OF assms(1,3,4) b N(1) _ r(1), of 0] obtain ps1 where s: "initial ps1" "mbsrtowcs_loop mbrtowc init mbcurmax m wcs pwcs (Some q) N ps 0 =
      mbsrtowcs_loop mbrtowc init mbcurmax m (wput wcs pwcs ws) (map_option (\<lambda>i. i + length ws) pwcs) (Some (q + length (chars ws)))
        (if pwcs \<noteq> NULL then N - length ws else N) ps1 (length ws)" using N(2) assms(7) by auto
  have l: "0 < (if pwcs \<noteq> NULL then N - length ws else N)" using False by (auto simp: N_def)
  show ?thesis
  proof (cases "rest = []")
    case True
    then have "ld m (q + length (chars ws)) = Some 0" using t by simp
    from mbs_end_nul [OF s(1) this l r(2), of "length ws"] show ?thesis using False True s(2)
      by (cases pwcs) (auto simp: mbsrtowcs_priv_def converts_def N_def wput_append)
  next
    case bad: False
    from mbs_end_bad [OF s(1) t bad assms(5) l, of "wput wcs pwcs ws" "map_option (\<lambda>i. i + length ws) pwcs" "length ws"]
    show ?thesis using False bad s(2) by (cases pwcs) (auto simp: mbsrtowcs_priv_def converts_def N_def)
  qed
qed

text \<open>The encoders.\<close>

lemma wcs_step:
  assumes "initial ps" "valid w" "get_wc wcs p = Some w" "in' \<noteq> Some 0" "0 < n" "length buf = MB_LEN_MAX" "space m s n"
    "s \<noteq> NULL \<longrightarrow> length (code w) \<le> n" "in' \<noteq> None \<longrightarrow> cnt + length (code w) < 2 ^ 31"
  shows "\<exists>ps' buf'. initial ps' \<and> length buf' = MB_LEN_MAX \<and> wcsrtombs_loop wcrtomb init buf wcs in' m s p n ps cnt =
      (if w = 0 then Some (OK, mput m s (code w), NULL, of_nat (cnt + length (code w) - 1), ps', False)
       else wcsrtombs_loop wcrtomb init buf' wcs (map_option (\<lambda>i. i - 1) in') (mput m s (code w)) (map_option (\<lambda>i. i + length (code w)) s) (p + 1)
        (if s \<noteq> NULL then n - length (code w) else n) ps' (cnt + length (code w)))"
proof -
  have l: "length (code w) \<le> length buf" using code_length(1) [OF assms(2)] code_length(2) assms(6) by simp
  obtain ps' where e: "wcrtomb buf (Some 0) MB_LEN_MAX w ps = Some (OK, of_nat (length (code w)), wr buf 0 (code w), ps')" "initial ps'"
    using encode [OF assms(1,2), of 0 MB_LEN_MAX buf] l assms(6) by auto
  define ps2 where "ps2 = (if w = 0 \<and> s \<noteq> NULL then init ps' else ps')"
  have i: "initial ps2" using e(2) init_initial by (simp add: ps2_def)
  note em = emit_wr [OF assms(7,8) l]
  have "(if in' = None then Some (cnt + length (code w)) else INT_INC cnt (length (code w))) = Some (cnt + length (code w))" using assms(9) by (simp add: INT_INC_def)
  then have "wcsrtombs_loop wcrtomb init buf wcs in' m s p n ps cnt =
      (if w = 0 then Some (OK, mput m s (code w), NULL, of_nat (cnt + length (code w) - 1), ps2, False)
       else wcsrtombs_loop wcrtomb init (wr buf 0 (code w)) wcs (map_option (\<lambda>i. i - 1) in') (mput m s (code w)) (map_option (\<lambda>i. i + length (code w)) s) (p + 1)
        (if s \<noteq> NULL then n - length (code w) else n) ps2 (cnt + length (code w)))"
    using assms(3,4,5,8) e(1) em code_siz [OF assms(2)] by (subst wcsrtombs_loop.simps) (auto simp: ps2_def)
  then show ?thesis using i assms(6) by (intro exI [of _ ps2] exI [of _ "wr buf 0 (code w)"]) simp
qed

lemma wcs_run:
  assumes "initial ps" "list_all valid ws" "0 \<notin> set ws" "wide_at wcs p ws" "length buf = MB_LEN_MAX" "space m s n" "0 < n \<or> ws = []"
    "s \<noteq> NULL \<longrightarrow> length (chars ws) \<le> n" "\<And>i. in' = Some i \<Longrightarrow> length ws \<le> i \<and> cnt + length (chars ws) < 2 ^ 31"
  shows "\<exists>ps' buf'. initial ps' \<and> length buf' = MB_LEN_MAX \<and> wcsrtombs_loop wcrtomb init buf wcs in' m s p n ps cnt =
      wcsrtombs_loop wcrtomb init buf' wcs (map_option (\<lambda>i. i - length ws) in') (mput m s (chars ws)) (map_option (\<lambda>i. i + length (chars ws)) s) (p + length ws)
        (if s \<noteq> NULL then n - length (chars ws) else n) ps' (cnt + length (chars ws))"
  using assms
proof (induction ws arbitrary: ps p buf m s n in' cnt)
  case Nil
  then show ?case by (auto simp: option.map_ident)
next
  case (Cons w ws)
  have v: "valid w" "w \<noteq> 0" "list_all valid ws" "0 \<notin> set ws" "get_wc wcs p = Some w" "wide_at wcs (p + 1) ws" "in' \<noteq> Some 0" "0 < n"
    "s \<noteq> NULL \<longrightarrow> length (code w) \<le> n" "in' \<noteq> None \<longrightarrow> cnt + length (code w) < 2 ^ 31"
    using Cons.prems by auto
  obtain ps1 buf1 where s: "initial ps1" "length buf1 = MB_LEN_MAX" "wcsrtombs_loop wcrtomb init buf wcs in' m s p n ps cnt =
      wcsrtombs_loop wcrtomb init buf1 wcs (map_option (\<lambda>i. i - 1) in') (mput m s (code w)) (map_option (\<lambda>i. i + length (code w)) s) (p + 1)
        (if s \<noteq> NULL then n - length (code w) else n) ps1 (cnt + length (code w))"
    using wcs_step [OF Cons.prems(1) v(1,5,7,8) Cons.prems(5,6) v(9,10)] v(2) by auto
  have c1: "space (mput m s (code w)) (map_option (\<lambda>i. i + length (code w)) s) (if s \<noteq> NULL then n - length (code w) else n)"
    using Cons.prems(6) v(9) by (cases s) auto
  have c3: "map_option (\<lambda>i. i + length (code w)) s \<noteq> NULL \<longrightarrow> length (chars ws) \<le> (if s \<noteq> NULL then n - length (code w) else n)"
    using Cons.prems(8) by (cases s) auto
  have "ws \<noteq> [] \<Longrightarrow> 0 < length (chars ws)" using v(3) code_short by (cases ws) auto
  then have c2: "0 < (if s \<noteq> NULL then n - length (code w) else n) \<or> ws = []" using c3 v(8) by (cases s; cases "ws = []") (auto simp del: length_greater_0_conv length_concat)
  have c4: "length ws \<le> i \<and> cnt + length (code w) + length (chars ws) < 2 ^ 31" if "map_option (\<lambda>i. i - 1) in' = Some i" for i
    using that Cons.prems(9) by (cases in') auto
  note c = c1 c2 c3 c4
  show ?case using Cons.IH [where in' = "map_option (\<lambda>i. i - 1) in'", OF s(1) v(3,4,6) s(2) c] s(3)
    by (cases s; cases in') (auto simp: mput_append add.assoc wr_append)
qed

lemma wcs_end_full:
  assumes "initial ps" "valid w" "get_wc wcs p = Some w" "n < length (code w)" "length buf = MB_LEN_MAX"
  shows "\<exists>ps'. wcsrtombs_loop wcrtomb init buf wcs in' m (Some d) p n ps cnt = Some (OK, m, Some p, of_nat cnt, ps', False)"
proof (cases "in' \<noteq> Some 0 \<and> 0 < n")
  case True
  have l: "length (code w) \<le> MB_LEN_MAX" using code_length(1) [OF assms(2)] code_length(2) by simp
  obtain ps' where "wcrtomb buf (Some 0) MB_LEN_MAX w ps = Some (OK, of_nat (length (code w)), wr buf 0 (code w), ps')"
    using encode [OF assms(1,2), of 0 MB_LEN_MAX buf] l assms(5) by auto
  then show ?thesis using True assms(3,4) code_siz [OF assms(2)] by (subst wcsrtombs_loop.simps) auto
qed (subst wcsrtombs_loop.simps, auto)

lemma wcs_end_stop: "in' = Some 0 \<or> n = 0 \<Longrightarrow> wcsrtombs_loop wcrtomb init buf wcs in' m s p n ps cnt = Some (OK, m, Some p, of_nat cnt, ps, False)"
  by (subst wcsrtombs_loop.simps) auto

lemma wcs_end_bad:
  assumes "\<not> valid z" "get_wc wcs p = Some z" "in' \<noteq> Some 0" "0 < n" "length buf = MB_LEN_MAX"
  shows "wcsrtombs_loop wcrtomb init buf wcs in' m s p n ps cnt = Some (EILSEQ, m, Some p, - 1, ps, True)"
  using encode_bad [OF assms(1), of 0 MB_LEN_MAX buf ps] assms by (subst wcsrtombs_loop.simps) auto

text \<open>
  The outcome of an encoder for the characters \<open>ws\<close> followed by \<open>z\<close>, a NUL or no character at all: the output is full, all of the \<open>in'\<close> characters are converted,
  \<open>z\<close> is not a character, or \<open>z\<close> is the end of the string.
\<close>

definition encodes :: "nat option \<Rightarrow> mem \<Rightarrow> ptr \<Rightarrow> nat \<Rightarrow> nat \<Rightarrow> u32 list \<Rightarrow> u32 \<Rightarrow> mb_err \<times> mem \<times> ptr \<times> u64 \<times> bool" where
  "encodes in' m s p n ws z = (
     if s \<noteq> NULL \<and> (fit code n ws \<noteq> ws \<or> length (chars ws) = n)
     then (OK, mput m s (chars (fit code n ws)), Some (p + length (fit code n ws)), of_nat (length (chars (fit code n ws))), False)
     else if in' = Some (length ws) then (OK, mput m s (chars ws), Some (p + length ws), of_nat (length (chars ws)), False)
     else if z \<noteq> 0 then (EILSEQ, mput m s (chars ws), Some (p + length ws), - 1, True)
     else (OK, mput m s (chars (ws @ [0])), NULL, of_nat (length (chars ws)), False))"

lemma wcs_loop_full:
  assumes "initial ps" "list_all valid ws" "0 \<notin> set ws" "wide_at wcs p ws" "length buf = MB_LEN_MAX" "space m s n" "0 < n" "s \<noteq> NULL"
    "\<And>i. in' = Some i \<Longrightarrow> length ws \<le> i \<and> length (chars ws) < 2 ^ 31" "fit code n ws \<noteq> ws \<or> length (chars ws) = n"
  shows "\<exists>ps'. wcsrtombs_loop wcrtomb init buf wcs in' m s p n ps 0 =
    Some (OK, mput m s (chars (fit code n ws)), Some (p + length (fit code n ws)), of_nat (length (chars (fit code n ws))), ps', False)"
proof -
  define pre where "pre = fit code n ws"
  obtain d where d: "s = Some d" using assms(8) by auto
  obtain rest where r: "ws = pre @ rest" "length (chars pre) \<le> n" "rest \<noteq> [] \<Longrightarrow> n - length (chars pre) < length (code (hd rest))"
    using fit_split [of ws code n] unfolding pre_def by auto
  have p: "list_all valid pre" "0 \<notin> set pre" "wide_at wcs p pre" "wide_at wcs (p + length pre) rest" "list_all valid rest"
    using assms(2,3,4) by (simp_all add: r(1) wide_at_append)
  have i: "length pre \<le> i \<and> 0 + length (chars pre) < 2 ^ 31" if "in' = Some i" for i using assms(9) [OF that] by (simp add: r(1))
  obtain ps1 buf1 where s: "initial ps1" "length buf1 = MB_LEN_MAX" "wcsrtombs_loop wcrtomb init buf wcs in' m s p n ps 0 =
      wcsrtombs_loop wcrtomb init buf1 wcs (map_option (\<lambda>i. i - length pre) in') (mput m s (chars pre)) (Some (d + length (chars pre))) (p + length pre)
        (n - length (chars pre)) ps1 (length (chars pre))"
    using wcs_run [where in' = in', OF assms(1) p(1,2,3) assms(5,6) _ _ i] assms(7) r(2) by (auto simp: d)
  show ?thesis unfolding pre_def [symmetric]
  proof (cases rest)
    case Nil
    then have "ws = pre" using r(1) by simp
    then have "length (chars pre) = n" using assms(10) unfolding pre_def [symmetric] by blast
    then have "n - length (chars pre) = 0" by simp
    then show "\<exists>ps'. wcsrtombs_loop wcrtomb init buf wcs in' m s p n ps 0 = Some (OK, mput m s (chars pre), Some (p + length pre), of_nat (length (chars pre)), ps', False)"
      unfolding s(3) using wcs_end_stop by blast
  next
    case (Cons w rest')
    then have "n - length (chars pre) < length (code w)" "valid w" "get_wc wcs (p + length pre) = Some w" using r(3) p(4,5) by auto
    then show "\<exists>ps'. wcsrtombs_loop wcrtomb init buf wcs in' m s p n ps 0 = Some (OK, mput m s (chars pre), Some (p + length pre), of_nat (length (chars pre)), ps', False)"
      unfolding s(3) using wcs_end_full [OF s(1) _ _ _ s(2)] by blast
  qed
qed

lemma wcs_loop_ok:
  assumes "initial ps" "list_all valid ws" "0 \<notin> set ws" "wide_at wcs p ws" "length buf = MB_LEN_MAX" "space m s n" "s = NULL \<longrightarrow> 0 < n"
    "\<And>i. in' = Some i \<Longrightarrow> length ws \<le> i \<and> length (chars ws) + 1 < 2 ^ 31" "in' \<noteq> Some (length ws) \<Longrightarrow> get_wc wcs (p + length ws) = Some z \<and> (z = 0 \<or> \<not> valid z)"
  shows "\<exists>ps'. wcsrtombs_loop wcrtomb init buf wcs in' m s p n ps 0 = (case encodes in' m s p n ws z of (e, m', q, nr, ret) \<Rightarrow> Some (e, m', q, nr, ps', ret))"
proof (cases "s \<noteq> NULL \<and> (fit code n ws \<noteq> ws \<or> length (chars ws) = n)")
  case True
  show ?thesis
  proof (cases "n = 0")
    case 0: True
    then have "fit code n ws = []" using assms(2) code_short by (cases ws) auto
    then show ?thesis using True 0 wcs_end_stop [of in' n] by (auto simp: encodes_def)
  next
    case False
    then show ?thesis using wcs_loop_full [OF assms(1-6), of in'] True assms(8) by (fastforce simp: encodes_def)
  qed
next
  case False
  define N where "N = (if s \<noteq> NULL then n - length (chars ws) else n)"
  have f: "s \<noteq> NULL \<Longrightarrow> length (chars ws) \<le> n" using fit_split [of ws code n] False by auto
  then have N: "0 < N" "0 < n" using False assms(7) by (auto simp: N_def)
  have i: "length ws \<le> i \<and> 0 + length (chars ws) < 2 ^ 31" if "in' = Some i" for i using assms(8) [OF that] by simp
  have sp: "space (mput m s (chars ws)) (map_option (\<lambda>i. i + length (chars ws)) s) N" using assms(6) f by (cases s) (auto simp: N_def)
  obtain ps1 buf1 where s: "initial ps1" "length buf1 = MB_LEN_MAX" "wcsrtombs_loop wcrtomb init buf wcs in' m s p n ps 0 =
      wcsrtombs_loop wcrtomb init buf1 wcs (map_option (\<lambda>i. i - length ws) in') (mput m s (chars ws)) (map_option (\<lambda>i. i + length (chars ws)) s) (p + length ws)
        N ps1 (length (chars ws))"
    using wcs_run [where in' = in', OF assms(1-6) _ _ i] N f by (auto simp: N_def)
  show ?thesis
  proof (cases "in' = Some (length ws)")
    case True
    then show ?thesis using False s(3) wcs_end_stop by (auto simp: encodes_def)
  next
    case more: False
    have j: "map_option (\<lambda>i. i - length ws) in' \<noteq> Some 0" using more i by (cases in') auto
    have z: "get_wc wcs (p + length ws) = Some z" "z = 0 \<or> \<not> valid z" using assms(9) [OF more] by auto
    show ?thesis
    proof (cases "z = 0")
      case True
      have c: "map_option (\<lambda>i. i + length (chars ws)) s \<noteq> NULL \<longrightarrow> length (code 0) \<le> N" 
        "map_option (\<lambda>i. i - length ws) in' \<noteq> None \<longrightarrow> length (chars ws) + length (code 0) < 2 ^ 31" using N code_zero(1) assms(8) by auto
      from wcs_step [OF s(1) code_zero(2) _ j N(1) s(2) sp c] show ?thesis using z(1) True False more s(3)
        by (fastforce simp: encodes_def mput_append code_zero(1))
    next
      case bad: False
      then show ?thesis using wcs_end_bad [OF _ z(1) j N(1) s(2)] z(2) False more s(3) by (auto simp: encodes_def)
    qed
  qed
qed

lemma length_chars: "list_all valid ws \<Longrightarrow> length ws \<le> length (chars ws)"
proof (induction ws)
  case (Cons w ws)
  then have "0 < length (code w)" "length ws \<le> length (chars ws)" using code_short by auto
  then show ?case by (simp del: length_greater_0_conv length_concat)
qed simp

text \<open>The bounded decoder on whole characters: it stops at the end of the input, without a terminator.\<close>

lemma mbsn_run:
  assumes "initial ps" "list_all valid ws" "0 \<notin> set ws" "bytes_at m q (chars ws)" "length ws \<le> n" "p + length ws \<le> length wcs"
  shows "\<exists>ps'. initial ps' \<and> mbsnrtowcs_loop mbrtowc init m wcs (Some p) q (q + length (chars ws)) n ps cnt =
      Some (OK, wput wcs (Some p) ws, Some (q + length (chars ws)), of_nat (cnt + length ws), ps')"
  using assms
proof (induction ws arbitrary: ps q n wcs p cnt)
  case Nil
  then show ?case by (subst mbsnrtowcs_loop.simps) auto
next
  case (Cons w ws)
  then have v: "valid w" "w \<noteq> 0" "bytes_at m q (code w)" "bytes_at m (q + length (code w)) (chars ws)" "0 < n" "0 < length (code w)"
    using code_short by (auto simp: bytes_at_append)
  obtain ps1 where d: "mbrtowc m (Some q) (length (code w) + length (chars ws)) ps = Some (OK, Some w, of_nat (length (code w)), Some (q + length (code w)), ps1)" "initial ps1"
    using decode [OF Cons.prems(1) v(1,3), of "length (code w) + length (chars ws)"] v(2) by auto
  have "put_wc wcs (Some p) (Some w) = Some (wcs[p := w])" using Cons.prems(6) by (simp add: put_wc_def)
  then have "mbsnrtowcs_loop mbrtowc init m wcs (Some p) q (q + length (chars (w # ws))) n ps cnt =
      mbsnrtowcs_loop mbrtowc init m (wcs[p := w]) (Some (Suc p)) (q + length (code w)) (q + length (code w) + length (chars ws)) (n - 1) ps1 (cnt + 1)"
    using d(1) v(5,6) code_siz [OF v(1)] by (subst mbsnrtowcs_loop.simps) (simp add: add.assoc)
  then show ?case using Cons.IH [OF d(2) _ _ v(4), of "n - 1" "Suc p" "wcs[p := w]" "cnt + 1"] Cons.prems(2,3,5,6) by (auto simp: add.assoc)
qed

end

section \<open>UTF-8 strings\<close>

abbreviation wide_chars :: "u32 list \<Rightarrow> bool" where
  "wide_chars ws \<equiv> list_all (\<lambda>w. scalar (unat w)) ws \<and> 0 \<notin> set ws"

definition wide_text :: "u32 list \<Rightarrow> byte list" where
  "wide_text ws = concat (map wide_code ws)"

text \<open>
  C33. \<open>mbsrtowcs\<close> for UTF-8 from the initial state, on any string of less than \<open>2 ^ 31\<close> bytes (beyond, its \<^verbatim>\<open>int\<close> counter can overflow): the string is a sequence of characters \<open>ws\<close> up to a place where no character begins, or up to its
  end.  With an output array of \<open>n\<close> wide characters the call stores the first \<open>n\<close> of them and leaves the pointer after them; if all fit it stores them with their terminator,
  sets the pointer to NULL and gives their number; and at a place where no character begins it gives \<^verbatim>\<open>EILSEQ\<close> and points there.
  Without an output the pointer and the array stay, and the result is the number of characters or the error.
\<close>

theorem mbsrtowcs_correct:
  assumes "holds ps []" "cstr m q bs" "length bs < 2 ^ 31" "p + n \<le> length wcs"
  shows "\<exists>ws rest ps1 ps2. bs = wide_text ws @ rest \<and> wide_chars ws \<and> (\<forall>v. scalar v \<longrightarrow> \<not> prefix (utf8 v) rest) \<and>
    mbsrtowcs_priv mbrtowc_priv init_state UTF8_MB_CUR_MAX m wcs (Some p) (Some q) n ps = Some (
      if n \<le> length ws then (OK, take p wcs @ take n ws @ drop (p + n) wcs, Some (q + length (wide_text (take n ws))), of_nat n, ps1)
      else if rest = [] then (OK, take p wcs @ ws @ [0] @ drop (p + length ws + 1) wcs, NULL, of_nat (length ws), ps1)
      else (EILSEQ, take p wcs @ ws @ drop (p + length ws) wcs, Some (q + length (wide_text ws)), - 1, ps1)) \<and>
    mbsrtowcs_priv mbrtowc_priv init_state UTF8_MB_CUR_MAX m wcs NULL (Some q) n ps = Some (
      if rest = [] then (OK, wcs, Some q, of_nat (length ws), ps2) else (EILSEQ, wcs, Some q, - 1, ps2))"
proof -
  have "0 \<notin> set bs" using assms(2) by (simp add: cstr_conv)
  from utf8_codec.longest [OF this] obtain ws rest where w: "bs = wide_text ws @ rest" "wide_chars ws" "\<forall>w. scalar (unat w) \<longrightarrow> \<not> prefix (wide_code w) rest"
    unfolding wide_text_def by blast
  have r: "\<not> prefix (utf8 v) rest" if "scalar v" for v
  proof -
    have "unat (word_of_nat v :: u32) = v" using that by (simp add: scalar_def unat_of_nat)
    then show ?thesis using w(3) that unfolding wide_code_def by metis
  qed
  have "length ws < 2 ^ 31" using utf8_codec.length_chars [of ws] w(1,2) assms(3) by (simp add: wide_text_def)
  note c = utf8_codec.mbsrtowcs_converts [OF assms(1) assms(2) [unfolded w(1) wide_text_def] _ _ w(3) _ this]
  obtain r1 where 1: "mbsrtowcs_priv mbrtowc_priv init_state UTF8_MB_CUR_MAX m wcs (Some p) (Some q) n ps = Some r1" "utf8_codec.converts wcs (Some p) q n ws rest r1"
    using c [of wcs "Some p" n] w(2) assms(4) by auto
  obtain r2 where 2: "mbsrtowcs_priv mbrtowc_priv init_state UTF8_MB_CUR_MAX m wcs NULL (Some q) n ps = Some r2" "utf8_codec.converts wcs NULL q n ws rest r2"
    using c [of wcs NULL n] w(2) by auto
  note def = utf8_codec.converts_def wide_text_def [symmetric] prod.case option.case
  show ?thesis
  proof (intro exI conjI)
    show "mbsrtowcs_priv mbrtowc_priv init_state UTF8_MB_CUR_MAX m wcs (Some p) (Some q) n ps = Some (
      if n \<le> length ws then (OK, take p wcs @ take n ws @ drop (p + n) wcs, Some (q + length (wide_text (take n ws))), of_nat n, snd (snd (snd (snd r1))))
      else if rest = [] then (OK, take p wcs @ ws @ [0] @ drop (p + length ws + 1) wcs, NULL, of_nat (length ws), snd (snd (snd (snd r1))))
      else (EILSEQ, take p wcs @ ws @ drop (p + length ws) wcs, Some (q + length (wide_text ws)), - 1, snd (snd (snd (snd r1)))))"
      using 1 assms(4) by (cases r1) (auto simp: def wput_conv min_absorb2)
    show "mbsrtowcs_priv mbrtowc_priv init_state UTF8_MB_CUR_MAX m wcs NULL (Some q) n ps = Some (
      if rest = [] then (OK, wcs, Some q, of_nat (length ws), snd (snd (snd (snd r2)))) else (EILSEQ, wcs, Some q, - 1, snd (snd (snd (snd r2)))))"
      using 2 by (cases r2) (auto simp: def)
  qed (use w r in auto)
qed

theorem mbsrtowcs_correct_witness:
  "\<exists>ws rest ps1 ps2. [0xC3, 0xA9, 0xFF] = wide_text ws @ rest \<and> wide_chars ws \<and> (\<forall>v. scalar v \<longrightarrow> \<not> prefix (utf8 v) rest) \<and>
    mbsrtowcs_priv mbrtowc_priv init_state UTF8_MB_CUR_MAX [0xC3, 0xA9, 0xFF, 0] [7, 7, 7, 7] (Some 1) (Some 0) 3 \<lparr>ch = [0, 0, 0, 0, 0, 0], chlen = 0\<rparr> = Some (
      if 3 \<le> length ws then (OK, take 1 [7, 7, 7, 7] @ take 3 ws @ drop (1 + 3) [7, 7, 7, 7], Some (0 + length (wide_text (take 3 ws))), of_nat 3, ps1)
      else if rest = [] then (OK, take 1 [7, 7, 7, 7] @ ws @ [0] @ drop (1 + length ws + 1) [7, 7, 7, 7], NULL, of_nat (length ws), ps1)
      else (EILSEQ, take 1 [7, 7, 7, 7] @ ws @ drop (1 + length ws) [7, 7, 7, 7], Some (0 + length (wide_text ws)), - 1, ps1)) \<and>
    mbsrtowcs_priv mbrtowc_priv init_state UTF8_MB_CUR_MAX [0xC3, 0xA9, 0xFF, 0] [7, 7, 7, 7] NULL (Some 0) 3 \<lparr>ch = [0, 0, 0, 0, 0, 0], chlen = 0\<rparr> = Some (
      if rest = [] then (OK, [7, 7, 7, 7], Some 0, of_nat (length ws), ps2) else (EILSEQ, [7, 7, 7, 7], Some 0, - 1, ps2))"
  by (rule mbsrtowcs_correct) (simp_all add: holds_def)

text \<open>
  C34. \<open>wcsrtombs\<close> for UTF-8: the wide string is the characters \<open>ws\<close> followed by a NUL or by a value \<open>z\<close> that is no character.  With an output of \<open>n\<close> bytes the call stores the
  encodings of the longest run of whole characters that fit and points after them; if there is room left it stores the terminator, sets the pointer to NULL and gives the length
  without it; and \<open>z\<close> gives \<^verbatim>\<open>EILSEQ\<close>, with the pointer at \<open>z\<close>.  Without an output the result is the length or the error, nothing is stored, and the pointer moves
  only in the case of an error.
\<close>

theorem wcsrtombs_correct:
  assumes "holds ps []" "wide_chars ws" "wide_at wcs p (ws @ [z])" "z = 0 \<or> \<not> scalar (unat z)" "length buf = MB_LEN_MAX" "d + n \<le> length m"
  shows "\<exists>ps1 ps2. wcsrtombs_priv UTF8_wcrtomb init_state buf wcs m (Some d) p n ps = Some (
      let pre = fit wide_code n ws in
      if pre \<noteq> ws \<or> length (wide_text ws) = n then (OK, wr m d (wide_text pre), Some (p + length pre), of_nat (length (wide_text pre)), ps1)
      else if z \<noteq> 0 then (EILSEQ, wr m d (wide_text ws), Some (p + length ws), - 1, ps1)
      else (OK, wr m d (wide_text ws @ [0]), NULL, of_nat (length (wide_text ws)), ps1)) \<and>
    wcsrtombs_priv UTF8_wcrtomb init_state buf wcs m NULL p n ps = Some (
      if z \<noteq> 0 then (EILSEQ, m, Some (p + length ws), - 1, ps2) else (OK, m, Some p, of_nat (length (wide_text ws)), ps2))"
proof -
  have w: "wide_at wcs p ws" "get_wc wcs (p + length ws) = Some z" using assms(3) by (auto simp: wide_at_append)
  have z: "wide_code 0 = [0]" by (rule utf8_codec.code_zero)
  note c = utf8_codec.wcs_loop_ok [where in' = None, OF assms(1) _ _ w(1) assms(5)]
  obtain ps1 where 1: "wcsrtombs_loop UTF8_wcrtomb init_state buf wcs None m (Some d) p n ps 0 =
      (case utf8_codec.encodes None m (Some d) p n ws z of (e, m', q, nr, ret) \<Rightarrow> Some (e, m', q, nr, ps1, ret))"
    using c [of m "Some d" n z] assms(2,4,6) w(2) by auto
  obtain ps2 where 2: "wcsrtombs_loop UTF8_wcrtomb init_state buf wcs None m NULL p 1 ps 0 =
      (case utf8_codec.encodes None m NULL p 1 ws z of (e, m', q, nr, ret) \<Rightarrow> Some (e, m', q, nr, ps2, ret))"
    using c [of m NULL 1 z] assms(2,4) w(2) by auto
  note def = wcsrtombs_priv_def utf8_codec.encodes_def wide_text_def [symmetric] Let_def
  show ?thesis
  proof (intro exI conjI)
    show "wcsrtombs_priv UTF8_wcrtomb init_state buf wcs m (Some d) p n ps = Some (
      let pre = fit wide_code n ws in
      if pre \<noteq> ws \<or> length (wide_text ws) = n then (OK, wr m d (wide_text pre), Some (p + length pre), of_nat (length (wide_text pre)), ps1)
      else if z \<noteq> 0 then (EILSEQ, wr m d (wide_text ws), Some (p + length ws), - 1, ps1)
      else (OK, wr m d (wide_text ws @ [0]), NULL, of_nat (length (wide_text ws)), ps1))"
      using 1 unfolding def by (auto simp: wide_text_def z)
    show "wcsrtombs_priv UTF8_wcrtomb init_state buf wcs m NULL p n ps = Some (
      if z \<noteq> 0 then (EILSEQ, m, Some (p + length ws), - 1, ps2) else (OK, m, Some p, of_nat (length (wide_text ws)), ps2))"
      using 2 unfolding def by auto
  qed
qed

theorem wcsrtombs_correct_witness:
  "\<exists>ps1 ps2. wcsrtombs_priv UTF8_wcrtomb init_state (replicate MB_LEN_MAX 0) [0x20AC, 0x41, 0xD800] [9, 9, 9, 9, 9, 9] (Some 1) 0 5 \<lparr>ch = [0, 0, 0, 0, 0, 0], chlen = 0\<rparr> = Some (
      let pre = fit wide_code 5 [0x20AC, 0x41] in
      if pre \<noteq> [0x20AC, 0x41] \<or> length (wide_text [0x20AC, 0x41]) = 5
      then (OK, wr [9, 9, 9, 9, 9, 9] 1 (wide_text pre), Some (0 + length pre), of_nat (length (wide_text pre)), ps1)
      else if (0xD800 :: u32) \<noteq> 0 then (EILSEQ, wr [9, 9, 9, 9, 9, 9] 1 (wide_text [0x20AC, 0x41]), Some (0 + length [0x20AC, 0x41 :: u32]), - 1, ps1)
      else (OK, wr [9, 9, 9, 9, 9, 9] 1 (wide_text [0x20AC, 0x41] @ [0]), NULL, of_nat (length (wide_text [0x20AC, 0x41])), ps1)) \<and>
    wcsrtombs_priv UTF8_wcrtomb init_state (replicate MB_LEN_MAX 0) [0x20AC, 0x41, 0xD800] [9, 9, 9, 9, 9, 9] NULL 0 5 \<lparr>ch = [0, 0, 0, 0, 0, 0], chlen = 0\<rparr> = Some (
      if (0xD800 :: u32) \<noteq> 0 then (EILSEQ, [9, 9, 9, 9, 9, 9], Some (0 + length [0x20AC, 0x41 :: u32]), - 1, ps2)
      else (OK, [9, 9, 9, 9, 9, 9], Some 0, of_nat (length (wide_text [0x20AC, 0x41])), ps2))"
  by (rule wcsrtombs_correct) (simp_all add: holds_def scalar_def get_wc_def)

text \<open>The bounded encoder on the whole of its input: no terminator is stored.\<close>

lemma wcsnrtombs_whole:
  assumes "holds ps []" "wide_chars ws" "wide_at wcs p ws" "length buf = MB_LEN_MAX" "d + n \<le> length m" "length (wide_text ws) \<le> n" "length (wide_text ws) + 1 < 2 ^ 31"
  shows "\<exists>ps'. wcsnrtombs_priv UTF8_wcrtomb init_state buf wcs m (Some d) p (length ws) n ps =
    Some (OK, wr m d (wide_text ws), Some (p + length ws), of_nat (length (wide_text ws)), ps')"
proof -
  have "fit wide_code n ws = ws" using assms(6) by (intro fit_all) (simp add: wide_text_def)
  then show ?thesis using utf8_codec.wcs_loop_ok [where in' = "Some (length ws)" and s = "Some d", OF assms(1) _ _ assms(3,4), of m n 0] assms(2,5,7)
    by (auto simp: wcsnrtombs_priv_def utf8_codec.encodes_def wide_text_def simp del: length_concat)
qed

lemma mbsnrtowcs_whole:
  assumes "holds ps []" "wide_chars ws" "bytes_at m q (wide_text ws)" "length ws \<le> n" "p + length ws \<le> length wcs"
  shows "\<exists>ps'. mbsnrtowcs_priv mbrtowc_priv init_state m wcs (Some p) q (length (wide_text ws)) n ps =
    Some (OK, wput wcs (Some p) ws, Some (q + length (wide_text ws)), of_nat (length ws), ps')"
  using utf8_codec.mbsn_run [OF assms(1) _ _ _ assms(4,5), of m q 0] assms(2,3) by (auto simp: mbsnrtowcs_priv_def wide_text_def)

text \<open>
  C35. Wide strings survive the conversion to UTF-8 and back, from initial states, with room for the result and a byte buffer of less than \<open>2 ^ 31\<close> bytes (beyond,
  the \<^verbatim>\<open>int\<close> counters can overflow).  A terminated string goes through \<open>wcsrtombs\<close> and \<open>mbsrtowcs\<close> with its terminator, and
  both report the end of the string and its length; a run of characters goes through \<open>wcsnrtombs\<close> and \<open>mbsnrtowcs\<close> without one, and both stop right after it.
\<close>

theorem mbs_round_trip:
  assumes "holds ps []" "holds ps' []" "wide_chars ws" "wide_at wcs p (ws @ [0])" "length buf = MB_LEN_MAX"
    "length (wide_text ws) < n" "n < 2 ^ 31" "d + n \<le> length m" "length ws < k" "q + k \<le> length wcs'"
  shows "(\<exists>m' ps1 ps2. wcsrtombs_priv UTF8_wcrtomb init_state buf wcs m (Some d) p n ps = Some (OK, m', NULL, of_nat (length (wide_text ws)), ps1) \<and>
      mbsrtowcs_priv mbrtowc_priv init_state UTF8_MB_CUR_MAX m' wcs' (Some q) (Some d) k ps' =
        Some (OK, take q wcs' @ ws @ [0] @ drop (q + length ws + 1) wcs', NULL, of_nat (length ws), ps2)) \<and>
    (\<exists>m' ps1 ps2. wcsnrtombs_priv UTF8_wcrtomb init_state buf wcs m (Some d) p (length ws) n ps = Some (OK, m', Some (p + length ws), of_nat (length (wide_text ws)), ps1) \<and>
      mbsnrtowcs_priv mbrtowc_priv init_state m' wcs' (Some q) d (length (wide_text ws)) k ps' =
        Some (OK, take q wcs' @ ws @ drop (q + length ws) wcs', Some (d + length (wide_text ws)), of_nat (length ws), ps2))"
proof -
  have w: "wide_at wcs p ws" "get_wc wcs (p + length ws) = Some 0" using assms(4) by (auto simp: wide_at_append)
  have f: "fit wide_code n ws = ws" using assms(6) by (intro fit_all) (simp add: wide_text_def)
  have z: "wide_code 0 = [0]" by (rule utf8_codec.code_zero)
  obtain ps1 where 1: "wcsrtombs_priv UTF8_wcrtomb init_state buf wcs m (Some d) p n ps = Some (OK, wr m d (wide_text ws @ [0]), NULL, of_nat (length (wide_text ws)), ps1)"
    using utf8_codec.wcs_loop_ok [where in' = None and s = "Some d", OF assms(1) _ _ w(1) assms(5), of m n 0] assms(3,6,8) w(2) f
    by (auto simp: wcsrtombs_priv_def utf8_codec.encodes_def wide_text_def z)
  have "0 \<notin> set (wide_text ws)" unfolding wide_text_def using utf8_codec.chars_nonzero assms(3) by blast
  then have c: "cstr (wr m d (wide_text ws @ [0])) d (wide_text ws @ [])" using cstr_wr_same [of d "wide_text ws" m] assms(6,8) by simp
  have np: "\<forall>w. scalar (unat w) \<longrightarrow> \<not> prefix (wide_code w) []" using utf8_codec.code_short by (auto simp: prefix_def)
  have l: "length ws \<le> length (wide_text ws)" unfolding wide_text_def using utf8_codec.length_chars assms(3) by blast
  then have "length ws < 2 ^ 31" using assms(6,7) by linarith
  then obtain r where r: "mbsrtowcs_priv mbrtowc_priv init_state UTF8_MB_CUR_MAX (wr m d (wide_text ws @ [0])) wcs' (Some q) (Some d) k ps' = Some r"
      "utf8_codec.converts wcs' (Some q) d k ws [] r"
    using utf8_codec.mbsrtowcs_converts [OF assms(2) c [unfolded wide_text_def] _ _ np, of wcs' "Some q" k] assms(3,10) unfolding wide_text_def by auto
  then have A: "\<exists>m' ps1 ps2. wcsrtombs_priv UTF8_wcrtomb init_state buf wcs m (Some d) p n ps = Some (OK, m', NULL, of_nat (length (wide_text ws)), ps1) \<and>
      mbsrtowcs_priv mbrtowc_priv init_state UTF8_MB_CUR_MAX m' wcs' (Some q) (Some d) k ps' =
        Some (OK, take q wcs' @ ws @ [0] @ drop (q + length ws + 1) wcs', NULL, of_nat (length ws), ps2)"
    using 1 assms(9,10) by (cases r) (auto simp: utf8_codec.converts_def wput_conv)
  have "bytes_at (wr m d (wide_text ws)) d (wide_text ws)" using assms(6,8) by (intro bytes_at_wr) simp
  then have "\<exists>m' ps1 ps2. wcsnrtombs_priv UTF8_wcrtomb init_state buf wcs m (Some d) p (length ws) n ps = Some (OK, m', Some (p + length ws), of_nat (length (wide_text ws)), ps1) \<and>
      mbsnrtowcs_priv mbrtowc_priv init_state m' wcs' (Some q) d (length (wide_text ws)) k ps' =
        Some (OK, take q wcs' @ ws @ drop (q + length ws) wcs', Some (d + length (wide_text ws)), of_nat (length ws), ps2)"
    using wcsnrtombs_whole [OF assms(1,3) w(1) assms(5,8)] mbsnrtowcs_whole [OF assms(2,3), of "wr m d (wide_text ws)" d k q wcs'] assms(6,7,9,10) wput_conv [of q ws wcs'] by auto
  with A show ?thesis by blast
qed

theorem mbs_round_trip_witness:
  "(\<exists>m' ps1 ps2. wcsrtombs_priv UTF8_wcrtomb init_state (replicate MB_LEN_MAX 0) [0xE9, 0x41, 0] [9, 9, 9, 9, 9] (Some 0) 0 4 \<lparr>ch = [0, 0, 0, 0, 0, 0], chlen = 0\<rparr> =
        Some (OK, m', NULL, of_nat (length (wide_text [0xE9, 0x41])), ps1) \<and>
      mbsrtowcs_priv mbrtowc_priv init_state UTF8_MB_CUR_MAX m' [5, 5, 5, 5] (Some 1) (Some 0) 3 \<lparr>ch = [1, 1, 1, 1, 1, 1], chlen = 0\<rparr> =
        Some (OK, take 1 [5, 5, 5, 5] @ [0xE9, 0x41] @ [0] @ drop (1 + length [0xE9, 0x41 :: u32] + 1) [5, 5, 5, 5], NULL, of_nat (length [0xE9, 0x41 :: u32]), ps2)) \<and>
    (\<exists>m' ps1 ps2. wcsnrtombs_priv UTF8_wcrtomb init_state (replicate MB_LEN_MAX 0) [0xE9, 0x41, 0] [9, 9, 9, 9, 9] (Some 0) 0 (length [0xE9, 0x41 :: u32]) 4
          \<lparr>ch = [0, 0, 0, 0, 0, 0], chlen = 0\<rparr> = Some (OK, m', Some (0 + length [0xE9, 0x41 :: u32]), of_nat (length (wide_text [0xE9, 0x41])), ps1) \<and>
      mbsnrtowcs_priv mbrtowc_priv init_state m' [5, 5, 5, 5] (Some 1) 0 (length (wide_text [0xE9, 0x41])) 3 \<lparr>ch = [1, 1, 1, 1, 1, 1], chlen = 0\<rparr> =
        Some (OK, take 1 [5, 5, 5, 5] @ [0xE9, 0x41] @ drop (1 + length [0xE9, 0x41 :: u32]) [5, 5, 5, 5], Some (0 + length (wide_text [0xE9, 0x41])),
          of_nat (length [0xE9, 0x41 :: u32]), ps2))"
  by (rule mbs_round_trip) (simp_all add: holds_def scalar_def get_wc_def wide_text_def wide_code_def utf8_def utf8_units_def)

end
