(* ===== verification/Mbctype.thy ===== *)
theory Mbctype
  imports Mbstring
begin

text \<open>
  The multibyte functions of the C library in a UTF-8 locale: the public templates of \<^verbatim>\<open>src/libc/citrus/citrus_ctype_template.h\<close> as \<^verbatim>\<open>citrus_utf8.c\<close> includes
  them, where no state needs an explicit initialisation and the encoding has no shift states, and the functions of
  \<^verbatim>\<open>src/libc/locale/multibyte_amd1.c\<close> and \<^verbatim>\<open>multibyte_c90.c\<close> on top of them.  A function that is called without a conversion
  state of the caller uses one of its own, kept in the locale.  Pointers \<^verbatim>\<open>pspriv\<close> and \<^verbatim>\<open>ps\<close> are passed as the object they point to, and the new contents are returned.
\<close>

section \<open>The templates\<close>

datatype ctype_func = F_mblen | F_mbrlen | F_mbrtowc | F_mbtowc | F_mbsrtowcs | F_mbsnrtowcs | F_wcrtomb | F_wcsrtombs | F_wcsnrtombs | F_wctomb

record UTF8CTypeInfo =
  s_mblen :: UTF8State
  s_mbrlen :: UTF8State
  s_mbrtowc :: UTF8State
  s_mbtowc :: UTF8State
  s_mbsrtowcs :: UTF8State
  s_mbsnrtowcs :: UTF8State
  s_wcrtomb :: UTF8State
  s_wcsrtombs :: UTF8State
  s_wcsnrtombs :: UTF8State
  s_wctomb :: UTF8State

text \<open>\<^verbatim>\<open>_CEI_TO_STATE\<close>, read and written.\<close>

fun CEI_TO_STATE :: "ctype_func \<Rightarrow> UTF8CTypeInfo \<Rightarrow> UTF8State" where
  "CEI_TO_STATE F_mblen cei = s_mblen cei"
| "CEI_TO_STATE F_mbrlen cei = s_mbrlen cei"
| "CEI_TO_STATE F_mbrtowc cei = s_mbrtowc cei"
| "CEI_TO_STATE F_mbtowc cei = s_mbtowc cei"
| "CEI_TO_STATE F_mbsrtowcs cei = s_mbsrtowcs cei"
| "CEI_TO_STATE F_mbsnrtowcs cei = s_mbsnrtowcs cei"
| "CEI_TO_STATE F_wcrtomb cei = s_wcrtomb cei"
| "CEI_TO_STATE F_wcsrtombs cei = s_wcsrtombs cei"
| "CEI_TO_STATE F_wcsnrtombs cei = s_wcsnrtombs cei"
| "CEI_TO_STATE F_wctomb cei = s_wctomb cei"

fun put_state :: "ctype_func \<Rightarrow> UTF8State \<Rightarrow> UTF8CTypeInfo \<Rightarrow> UTF8CTypeInfo" where
  "put_state F_mblen ps cei = cei\<lparr>s_mblen := ps\<rparr>"
| "put_state F_mbrlen ps cei = cei\<lparr>s_mbrlen := ps\<rparr>"
| "put_state F_mbrtowc ps cei = cei\<lparr>s_mbrtowc := ps\<rparr>"
| "put_state F_mbtowc ps cei = cei\<lparr>s_mbtowc := ps\<rparr>"
| "put_state F_mbsrtowcs ps cei = cei\<lparr>s_mbsrtowcs := ps\<rparr>"
| "put_state F_mbsnrtowcs ps cei = cei\<lparr>s_mbsnrtowcs := ps\<rparr>"
| "put_state F_wcrtomb ps cei = cei\<lparr>s_wcrtomb := ps\<rparr>"
| "put_state F_wcsrtombs ps cei = cei\<lparr>s_wcsrtombs := ps\<rparr>"
| "put_state F_wcsnrtombs ps cei = cei\<lparr>s_wcsnrtombs := ps\<rparr>"
| "put_state F_wctomb ps cei = cei\<lparr>s_wctomb := ps\<rparr>"

text \<open>\<^verbatim>\<open>_RESTART_BEGIN\<close> and \<^verbatim>\<open>_RESTART_END\<close> around the body of a function.\<close>

definition RESTART :: "ctype_func \<Rightarrow> UTF8CTypeInfo \<Rightarrow> UTF8State option \<Rightarrow> (UTF8State \<Rightarrow> ('r \<times> UTF8State) option) \<Rightarrow>
    ('r \<times> UTF8State option \<times> UTF8CTypeInfo) option" where
  "RESTART f cei pspriv body = (case pspriv of
     None \<Rightarrow> do { (r, pse) \<leftarrow> body (CEI_TO_STATE f cei); Some (r, None, put_state f pse cei) }
   | Some p \<Rightarrow> do { (r, pse) \<leftarrow> body (UTF8_unpack_state p); Some (r, Some (UTF8_pack_state pse), cei) })"

definition UTF8_zero_state :: UTF8State where "UTF8_zero_state = \<lparr>ch = replicate 6 0, chlen = 0\<rparr>"

definition sizeof_UTF8State :: nat where "sizeof_UTF8State = 12"

text \<open>\<open>mem\<close> says whether \<^verbatim>\<open>calloc\<close> succeeds.\<close>

definition ctype_init :: "bool \<Rightarrow> nat \<Rightarrow> mb_err \<times> UTF8CTypeInfo option" where
  "ctype_init calloc lenps =
     (if sizeof_UTF8State > lenps then (EINVAL, None)
      else if \<not> calloc then (ENOMEM, None)
      else (OK, Some \<lparr>s_mblen = UTF8_zero_state, s_mbrlen = UTF8_zero_state, s_mbrtowc = UTF8_zero_state, s_mbtowc = UTF8_zero_state,
        s_mbsrtowcs = UTF8_zero_state, s_mbsnrtowcs = UTF8_zero_state, s_wcrtomb = UTF8_zero_state, s_wcsrtombs = UTF8_zero_state,
        s_wcsnrtombs = UTF8_zero_state, s_wctomb = UTF8_zero_state\<rparr>))"

definition ctype_get_mb_cur_max :: nat where "ctype_get_mb_cur_max = UTF8_MB_CUR_MAX"

definition ctype_mblen :: "UTF8CTypeInfo \<Rightarrow> mem \<Rightarrow> ptr \<Rightarrow> nat \<Rightarrow> ((mb_err \<times> int) \<times> UTF8CTypeInfo) option" where
  "ctype_mblen cl m s n = do {
     (err, _, nresult, psenc) \<leftarrow> mbtowc_priv mbrtowc_priv init_state m [] NULL s n (CEI_TO_STATE F_mblen cl);
     Some ((err, nresult), put_state F_mblen psenc cl) }"

definition ctype_mbrlen :: "UTF8CTypeInfo \<Rightarrow> mem \<Rightarrow> ptr \<Rightarrow> nat \<Rightarrow> UTF8State option \<Rightarrow> ((mb_err \<times> u64) \<times> UTF8State option \<times> UTF8CTypeInfo) option" where
  "ctype_mbrlen cl m s n pspriv = RESTART F_mbrlen cl pspriv (\<lambda>psenc.
     if s = NULL then Some ((OK, 0), init_state psenc)
     else do { (err, _, nresult, _, psenc) \<leftarrow> mbrtowc_priv m s n psenc; Some ((err, nresult), psenc) })"

definition ctype_mbrtowc :: "UTF8CTypeInfo \<Rightarrow> mem \<Rightarrow> wcs \<Rightarrow> ptr \<Rightarrow> ptr \<Rightarrow> nat \<Rightarrow> UTF8State option \<Rightarrow>
    ((mb_err \<times> wcs \<times> u64) \<times> UTF8State option \<times> UTF8CTypeInfo) option" where
  "ctype_mbrtowc cl m wcs pwc s n pspriv = RESTART F_mbrtowc cl pspriv (\<lambda>psenc.
     if s = NULL then Some ((OK, wcs, 0), init_state psenc)
     else do { (err, wc, nresult, _, psenc) \<leftarrow> mbrtowc_priv m s n psenc; wcs \<leftarrow> put_wc wcs pwc wc; Some ((err, wcs, nresult), psenc) })"

definition ctype_mbsinit :: "UTF8State option \<Rightarrow> int" where
  "ctype_mbsinit pspriv = (case pspriv of None \<Rightarrow> 1 | Some p \<Rightarrow> if chlen (UTF8_unpack_state p) = 0 then 1 else 0)"

definition ctype_mbsrtowcs :: "UTF8CTypeInfo \<Rightarrow> mem \<Rightarrow> wcs \<Rightarrow> ptr \<Rightarrow> ptr \<Rightarrow> nat \<Rightarrow> UTF8State option \<Rightarrow>
    ((mb_err \<times> wcs \<times> ptr \<times> u64) \<times> UTF8State option \<times> UTF8CTypeInfo) option" where
  "ctype_mbsrtowcs cl m wcs pwcs s n pspriv = RESTART F_mbsrtowcs cl pspriv (\<lambda>psenc. do {
     (err, wcs, s, nresult, psenc) \<leftarrow> mbsrtowcs_priv mbrtowc_priv init_state UTF8_MB_CUR_MAX m wcs pwcs s n psenc;
     Some ((err, wcs, s, nresult), psenc) })"

definition ctype_mbsnrtowcs :: "UTF8CTypeInfo \<Rightarrow> mem \<Rightarrow> wcs \<Rightarrow> ptr \<Rightarrow> nat \<Rightarrow> nat \<Rightarrow> nat \<Rightarrow> UTF8State option \<Rightarrow>
    ((mb_err \<times> wcs \<times> ptr \<times> u64) \<times> UTF8State option \<times> UTF8CTypeInfo) option" where
  "ctype_mbsnrtowcs cl m wcs pwcs s in' n pspriv = RESTART F_mbsnrtowcs cl pspriv (\<lambda>psenc. do {
     (err, wcs, s, nresult, psenc) \<leftarrow> mbsnrtowcs_priv mbrtowc_priv init_state m wcs pwcs s in' n psenc;
     Some ((err, wcs, s, nresult), psenc) })"

text \<open>\<open>state\<close> is the local variable, uninitialised up to the call of \<^verbatim>\<open>init_state\<close>.\<close>

definition ctype_mbstowcs :: "UTF8State \<Rightarrow> mem \<Rightarrow> wcs \<Rightarrow> ptr \<Rightarrow> ptr \<Rightarrow> nat \<Rightarrow> (mb_err \<times> wcs \<times> u64) option" where
  "ctype_mbstowcs state m wcs pwcs s n = do {
     (err, wcs, _, nresult, _) \<leftarrow> mbsrtowcs_priv mbrtowc_priv init_state UTF8_MB_CUR_MAX m wcs pwcs s n (init_state state);
     Some (if nresult = - 2 then (EILSEQ, wcs, - 1) else (err, wcs, nresult)) }"

definition ctype_mbtowc :: "UTF8CTypeInfo \<Rightarrow> mem \<Rightarrow> wcs \<Rightarrow> ptr \<Rightarrow> ptr \<Rightarrow> nat \<Rightarrow> ((mb_err \<times> wcs \<times> int) \<times> UTF8CTypeInfo) option" where
  "ctype_mbtowc cl m wcs pwc s n = do {
     (err, wcs, nresult, psenc) \<leftarrow> mbtowc_priv mbrtowc_priv init_state m wcs pwc s n (CEI_TO_STATE F_mbtowc cl);
     Some ((err, wcs, nresult), put_state F_mbtowc psenc cl) }"

text \<open>With no \<^verbatim>\<open>s\<close> the character is a NUL and goes into the local array \<open>buf\<close>.\<close>

definition ctype_wcrtomb :: "UTF8CTypeInfo \<Rightarrow> mem \<Rightarrow> mem \<Rightarrow> ptr \<Rightarrow> u32 \<Rightarrow> UTF8State option \<Rightarrow> ((mb_err \<times> mem \<times> u64) \<times> UTF8State option \<times> UTF8CTypeInfo) option" where
  "ctype_wcrtomb cl buf m s wc pspriv = RESTART F_wcrtomb cl pspriv (\<lambda>psenc. do {
     (err, nresult, m', psenc) \<leftarrow> (if s = NULL then UTF8_wcrtomb buf (Some 0) UTF8_MB_CUR_MAX 0 psenc else UTF8_wcrtomb m s UTF8_MB_CUR_MAX wc psenc);
     Some ((if err = E2BIG then EINVAL else err, if s = NULL then m else m', nresult), psenc) })"

definition ctype_wcsrtombs :: "UTF8CTypeInfo \<Rightarrow> mem \<Rightarrow> wcs \<Rightarrow> mem \<Rightarrow> ptr \<Rightarrow> nat \<Rightarrow> nat \<Rightarrow> UTF8State option \<Rightarrow>
    ((mb_err \<times> mem \<times> ptr \<times> u64) \<times> UTF8State option \<times> UTF8CTypeInfo) option" where
  "ctype_wcsrtombs cl buf wcs m s pwcs n pspriv = RESTART F_wcsrtombs cl pspriv (\<lambda>psenc. do {
     (err, m, pwcs, nresult, psenc) \<leftarrow> wcsrtombs_priv UTF8_wcrtomb init_state buf wcs m s pwcs n psenc;
     Some ((err, m, pwcs, nresult), psenc) })"

definition ctype_wcsnrtombs :: "UTF8CTypeInfo \<Rightarrow> mem \<Rightarrow> wcs \<Rightarrow> mem \<Rightarrow> ptr \<Rightarrow> nat \<Rightarrow> nat \<Rightarrow> nat \<Rightarrow> UTF8State option \<Rightarrow>
    ((mb_err \<times> mem \<times> ptr \<times> u64) \<times> UTF8State option \<times> UTF8CTypeInfo) option" where
  "ctype_wcsnrtombs cl buf wcs m s pwcs in' n pspriv = RESTART F_wcsnrtombs cl pspriv (\<lambda>psenc. do {
     (err, m, pwcs, nresult, psenc) \<leftarrow> wcsnrtombs_priv UTF8_wcrtomb init_state buf wcs m s pwcs in' n psenc;
     Some ((err, m, pwcs, nresult), psenc) })"

definition ctype_wcstombs :: "UTF8State \<Rightarrow> mem \<Rightarrow> wcs \<Rightarrow> mem \<Rightarrow> ptr \<Rightarrow> nat \<Rightarrow> nat \<Rightarrow> (mb_err \<times> mem \<times> u64) option" where
  "ctype_wcstombs state buf wcs m s pwcs n = do {
     (err, m, _, nresult, _) \<leftarrow> wcsrtombs_priv UTF8_wcrtomb init_state buf wcs m s pwcs n (init_state state);
     Some (err, m, nresult) }"

text \<open>The error of the encoder is dropped; the result \<open>- 1\<close> stays.\<close>

definition ctype_wctomb :: "UTF8CTypeInfo \<Rightarrow> mem \<Rightarrow> ptr \<Rightarrow> u32 \<Rightarrow> ((mb_err \<times> mem \<times> int) \<times> UTF8CTypeInfo) option" where
  "ctype_wctomb cl m s wc =
     (let psenc = CEI_TO_STATE F_wctomb cl in
      if s = NULL then Some ((OK, m, 0), put_state F_wctomb (init_state psenc) cl)
      else do {
        (_, nr, m, psenc) \<leftarrow> UTF8_wcrtomb m s UTF8_MB_CUR_MAX wc psenc;
        Some ((OK, m, sint (ucast nr :: u32)), put_state F_wctomb psenc cl) })"

definition EOF :: int where "EOF = - 1"
definition WEOF :: u32 where "WEOF = - 1"

definition ctype_btowc :: "UTF8State \<Rightarrow> int \<Rightarrow> u32 option" where
  "ctype_btowc state c =
     (if c = EOF then Some WEOF
      else do {
        (err, wc, nr, _, _) \<leftarrow> mbrtowc_priv [word_of_int c] (Some 0) 1 (init_state state);
        if err = OK \<and> (nr = 0 \<or> nr = 1) then wc else Some WEOF })"

definition ctype_wctob :: "UTF8State \<Rightarrow> mem \<Rightarrow> u32 \<Rightarrow> int option" where
  "ctype_wctob state buf wc =
     (if wc = WEOF then Some EOF
      else do {
        (err, nr, buf, _) \<leftarrow> UTF8_wcrtomb buf (Some 0) UTF8_MB_CUR_MAX wc (init_state state);
        if err = OK \<and> nr = 1 then do { b \<leftarrow> ld buf 0; Some (sint b) } else Some EOF })"

section \<open>The functions of the library\<close>

text \<open>
  \<^verbatim>\<open>mbstate_t\<close>: the locale that the state belongs to and the private part of the encoding.  The locales are numbered; \<open>mb_world\<close> has the closure of each of them and
  \<^verbatim>\<open>errno\<close>.
\<close>

record mbstate =
  rs_runelocale :: "nat option"
  rs_private :: UTF8State

record mb_world =
  rl_citrus_ctype :: "nat \<Rightarrow> UTF8CTypeInfo"
  mb_errno :: mb_err

definition ps_to_ctype :: "mbstate option \<Rightarrow> nat \<Rightarrow> nat option" where
  "ps_to_ctype ps loc = (case ps of None \<Rightarrow> Some loc | Some s \<Rightarrow> rs_runelocale s)"

definition init_ps :: "mb_world \<Rightarrow> nat \<Rightarrow> mbstate \<Rightarrow> mbstate option" where
  "init_ps w rl ps = do {
     (_, priv, _) \<leftarrow> ctype_mbrtowc (rl_citrus_ctype w rl) [] [] NULL NULL 0 (Some (rs_private ps));
     priv \<leftarrow> priv;
     Some \<lparr>rs_runelocale = Some rl, rs_private = priv\<rparr> }"

definition fixup_ps :: "mb_world \<Rightarrow> nat \<Rightarrow> mbstate option \<Rightarrow> bool \<Rightarrow> mbstate option option" where
  "fixup_ps w rl ps forceinit = (case ps of
     None \<Rightarrow> Some None
   | Some s \<Rightarrow> if rs_runelocale s = None \<or> forceinit then do { s \<leftarrow> init_ps w rl s; Some (Some s) } else Some (Some s))"

definition set_errno :: "mb_err \<Rightarrow> mb_world \<Rightarrow> mb_world" where
  "set_errno err0 w = (if err0 \<noteq> OK then w\<lparr>mb_errno := err0\<rparr> else w)"

definition set_ctype :: "nat \<Rightarrow> UTF8CTypeInfo \<Rightarrow> mb_world \<Rightarrow> mb_world" where
  "set_ctype rl cl w = w\<lparr>rl_citrus_ctype := (rl_citrus_ctype w)(rl := cl)\<rparr>"

text \<open>The common text of the restartable functions, around the call of the template \<open>f\<close>.\<close>

definition restartable :: "mb_world \<Rightarrow> nat \<Rightarrow> mbstate option \<Rightarrow> bool \<Rightarrow>
    (UTF8CTypeInfo \<Rightarrow> UTF8State option \<Rightarrow> ((mb_err \<times> 'r) \<times> UTF8State option \<times> UTF8CTypeInfo) option) \<Rightarrow> ('r \<times> mbstate option \<times> mb_world) option" where
  "restartable w loc ps forceinit f = do {
     ps \<leftarrow> fixup_ps w loc ps forceinit;
     rl \<leftarrow> ps_to_ctype ps loc;
     ((err0, ret), priv, cl) \<leftarrow> f (rl_citrus_ctype w rl) (map_option rs_private ps);
     let ps = (case (ps, priv) of (Some s, Some p) \<Rightarrow> Some (s\<lparr>rs_private := p\<rparr>) | _ \<Rightarrow> ps);
     Some (ret, ps, set_errno err0 (set_ctype rl cl w)) }"

definition mbrlen_l :: "mb_world \<Rightarrow> mem \<Rightarrow> ptr \<Rightarrow> nat \<Rightarrow> mbstate option \<Rightarrow> nat \<Rightarrow> (u64 \<times> mbstate option \<times> mb_world) option" where
  "mbrlen_l w m s n ps loc = restartable w loc ps (s = NULL) (\<lambda>cl. ctype_mbrlen cl m s n)"

definition mbrtowc_l :: "mb_world \<Rightarrow> mem \<Rightarrow> wcs \<Rightarrow> ptr \<Rightarrow> ptr \<Rightarrow> nat \<Rightarrow> mbstate option \<Rightarrow> nat \<Rightarrow> ((wcs \<times> u64) \<times> mbstate option \<times> mb_world) option" where
  "mbrtowc_l w m wcs pwc s n ps loc = restartable w loc ps (s = NULL) (\<lambda>cl. ctype_mbrtowc cl m wcs pwc s n)"

text \<open>The pointer to the pointer to the source is never NULL in the four functions on strings; \<open>s\<close> and \<open>pwcs\<close> are what it points to.\<close>

definition mbsrtowcs_l :: "mb_world \<Rightarrow> mem \<Rightarrow> wcs \<Rightarrow> ptr \<Rightarrow> ptr \<Rightarrow> nat \<Rightarrow> mbstate option \<Rightarrow> nat \<Rightarrow> ((wcs \<times> ptr \<times> u64) \<times> mbstate option \<times> mb_world) option" where
  "mbsrtowcs_l w m wcs pwcs s n ps loc = restartable w loc ps False (\<lambda>cl. ctype_mbsrtowcs cl m wcs pwcs s n)"

definition mbsnrtowcs_l :: "mb_world \<Rightarrow> mem \<Rightarrow> wcs \<Rightarrow> ptr \<Rightarrow> nat \<Rightarrow> nat \<Rightarrow> nat \<Rightarrow> mbstate option \<Rightarrow> nat \<Rightarrow> ((wcs \<times> ptr \<times> u64) \<times> mbstate option \<times> mb_world) option" where
  "mbsnrtowcs_l w m wcs pwcs s in' n ps loc = restartable w loc ps False (\<lambda>cl. ctype_mbsnrtowcs cl m wcs pwcs s in' n)"

definition wcrtomb_l :: "mb_world \<Rightarrow> mem \<Rightarrow> mem \<Rightarrow> ptr \<Rightarrow> u32 \<Rightarrow> mbstate option \<Rightarrow> nat \<Rightarrow> ((mem \<times> u64) \<times> mbstate option \<times> mb_world) option" where
  "wcrtomb_l w buf m s wc ps loc = restartable w loc ps (s = NULL) (\<lambda>cl. ctype_wcrtomb cl buf m s wc)"

definition wcsrtombs_l :: "mb_world \<Rightarrow> mem \<Rightarrow> wcs \<Rightarrow> mem \<Rightarrow> ptr \<Rightarrow> nat \<Rightarrow> nat \<Rightarrow> mbstate option \<Rightarrow> nat \<Rightarrow> ((mem \<times> ptr \<times> u64) \<times> mbstate option \<times> mb_world) option" where
  "wcsrtombs_l w buf wcs m s ppwcs n ps loc = restartable w loc ps (s = NULL) (\<lambda>cl. ctype_wcsrtombs cl buf wcs m s ppwcs n)"

definition wcsnrtombs_l :: "mb_world \<Rightarrow> mem \<Rightarrow> wcs \<Rightarrow> mem \<Rightarrow> ptr \<Rightarrow> nat \<Rightarrow> nat \<Rightarrow> nat \<Rightarrow> mbstate option \<Rightarrow> nat \<Rightarrow> ((mem \<times> ptr \<times> u64) \<times> mbstate option \<times> mb_world) option" where
  "wcsnrtombs_l w buf wcs m s ppwcs in' n ps loc = restartable w loc ps (s = NULL) (\<lambda>cl. ctype_wcsnrtombs cl buf wcs m s ppwcs in' n)"

definition mbsinit_l :: "mbstate option \<Rightarrow> nat \<Rightarrow> int" where
  "mbsinit_l ps loc = (case ps of None \<Rightarrow> 1 | Some s \<Rightarrow> ctype_mbsinit (Some (rs_private s)))"

definition mblen_l :: "mb_world \<Rightarrow> mem \<Rightarrow> ptr \<Rightarrow> nat \<Rightarrow> nat \<Rightarrow> (int \<times> mb_world) option" where
  "mblen_l w m s n loc = do {
     ((err0, ret), cl) \<leftarrow> ctype_mblen (rl_citrus_ctype w loc) m s n;
     Some (ret, set_errno err0 (set_ctype loc cl w)) }"

definition mbtowc_l :: "mb_world \<Rightarrow> mem \<Rightarrow> wcs \<Rightarrow> ptr \<Rightarrow> ptr \<Rightarrow> nat \<Rightarrow> nat \<Rightarrow> ((wcs \<times> int) \<times> mb_world) option" where
  "mbtowc_l w m wcs pw s n loc = do {
     ((err0, ret), cl) \<leftarrow> ctype_mbtowc (rl_citrus_ctype w loc) m wcs pw s n;
     Some (ret, set_errno err0 (set_ctype loc cl w)) }"

definition wctomb_l :: "mb_world \<Rightarrow> mem \<Rightarrow> ptr \<Rightarrow> u32 \<Rightarrow> nat \<Rightarrow> ((mem \<times> int) \<times> mb_world) option" where
  "wctomb_l w m s wc loc = do {
     ((err0, ret), cl) \<leftarrow> ctype_wctomb (rl_citrus_ctype w loc) m s wc;
     Some (ret, set_errno err0 (set_ctype loc cl w)) }"

definition mbstowcs_l :: "mb_world \<Rightarrow> UTF8State \<Rightarrow> mem \<Rightarrow> wcs \<Rightarrow> ptr \<Rightarrow> ptr \<Rightarrow> nat \<Rightarrow> ((wcs \<times> u64) \<times> mb_world) option" where
  "mbstowcs_l w state m wcs pwcs s n = do { (err0, ret) \<leftarrow> ctype_mbstowcs state m wcs pwcs s n; Some (ret, set_errno err0 w) }"

definition wcstombs_l :: "mb_world \<Rightarrow> UTF8State \<Rightarrow> mem \<Rightarrow> wcs \<Rightarrow> mem \<Rightarrow> ptr \<Rightarrow> nat \<Rightarrow> nat \<Rightarrow> ((mem \<times> u64) \<times> mb_world) option" where
  "wcstombs_l w state buf wcs m s pwcs n = do { (err0, ret) \<leftarrow> ctype_wcstombs state buf wcs m s pwcs n; Some (ret, set_errno err0 w) }"

definition btowc_l :: "mb_world \<Rightarrow> UTF8State \<Rightarrow> int \<Rightarrow> (u32 \<times> mb_world) option" where
  "btowc_l w state c = do { ret \<leftarrow> ctype_btowc state c; Some (ret, set_errno OK w) }"

definition wctob_l :: "mb_world \<Rightarrow> UTF8State \<Rightarrow> mem \<Rightarrow> u32 \<Rightarrow> (int \<times> mb_world) option" where
  "wctob_l w state buf wc = do { ret \<leftarrow> ctype_wctob state buf wc; Some (ret, set_errno OK w) }"

section \<open>Calls and their owners\<close>

text \<open>
  A call of one of the functions, in the locale \<open>loc\<close>, with the arguments the functions take.  The result is what the call leaves in memory and in the wide array, the pointer it
  assigns, the value it returns and the caller's state.
\<close>

datatype mb_call =
    Mblen mem ptr nat nat
  | Mbtowc mem wcs ptr ptr nat nat
  | Wctomb mem ptr u32 nat
  | Mbrlen mem ptr nat "mbstate option" nat
  | Mbrtowc mem wcs ptr ptr nat "mbstate option" nat
  | Mbsrtowcs mem wcs ptr ptr nat "mbstate option" nat
  | Mbsnrtowcs mem wcs ptr nat nat nat "mbstate option" nat
  | Wcrtomb mem mem ptr u32 "mbstate option" nat
  | Wcsrtombs mem wcs mem ptr nat nat "mbstate option" nat
  | Wcsnrtombs mem wcs mem ptr nat nat nat "mbstate option" nat
  | Mbstowcs UTF8State mem wcs ptr ptr nat
  | Wcstombs UTF8State mem wcs mem ptr nat nat
  | Btowc UTF8State int
  | Wctob UTF8State mem u32

type_synonym mb_result = "mem \<times> wcs \<times> ptr \<times> int \<times> mbstate option"

fun exec :: "mb_call \<Rightarrow> mb_world \<Rightarrow> (mb_result \<times> mb_world) option" where
  "exec (Mblen m s n loc) w = do { (r, w) \<leftarrow> mblen_l w m s n loc; Some (([], [], NULL, r, None), w) }"
| "exec (Mbtowc m wcs pw s n loc) w = do { ((wcs, r), w) \<leftarrow> mbtowc_l w m wcs pw s n loc; Some (([], wcs, NULL, r, None), w) }"
| "exec (Wctomb m s wc loc) w = do { ((m, r), w) \<leftarrow> wctomb_l w m s wc loc; Some ((m, [], NULL, r, None), w) }"
| "exec (Mbrlen m s n ps loc) w = do { (r, ps, w) \<leftarrow> mbrlen_l w m s n ps loc; Some (([], [], NULL, uint r, ps), w) }"
| "exec (Mbrtowc m wcs pwc s n ps loc) w = do { ((wcs, r), ps, w) \<leftarrow> mbrtowc_l w m wcs pwc s n ps loc; Some (([], wcs, NULL, uint r, ps), w) }"
| "exec (Mbsrtowcs m wcs pwcs s n ps loc) w = do { ((wcs, s, r), ps, w) \<leftarrow> mbsrtowcs_l w m wcs pwcs s n ps loc; Some (([], wcs, s, uint r, ps), w) }"
| "exec (Mbsnrtowcs m wcs pwcs s in' n ps loc) w = do { ((wcs, s, r), ps, w) \<leftarrow> mbsnrtowcs_l w m wcs pwcs s in' n ps loc; Some (([], wcs, s, uint r, ps), w) }"
| "exec (Wcrtomb buf m s wc ps loc) w = do { ((m, r), ps, w) \<leftarrow> wcrtomb_l w buf m s wc ps loc; Some ((m, [], NULL, uint r, ps), w) }"
| "exec (Wcsrtombs buf wcs m s p n ps loc) w = do { ((m, p, r), ps, w) \<leftarrow> wcsrtombs_l w buf wcs m s p n ps loc; Some ((m, [], p, uint r, ps), w) }"
| "exec (Wcsnrtombs buf wcs m s p in' n ps loc) w = do { ((m, p, r), ps, w) \<leftarrow> wcsnrtombs_l w buf wcs m s p in' n ps loc; Some ((m, [], p, uint r, ps), w) }"
| "exec (Mbstowcs state m wcs pwcs s n) w = do { ((wcs, r), w) \<leftarrow> mbstowcs_l w state m wcs pwcs s n; Some (([], wcs, NULL, uint r, None), w) }"
| "exec (Wcstombs state buf wcs m s p n) w = do { ((m, r), w) \<leftarrow> wcstombs_l w state buf wcs m s p n; Some ((m, [], NULL, uint r, None), w) }"
| "exec (Btowc state c) w = do { (r, w) \<leftarrow> btowc_l w state c; Some (([], [], NULL, uint r, None), w) }"
| "exec (Wctob state buf wc) w = do { (r, w) \<leftarrow> wctob_l w state buf wc; Some (([], [], NULL, r, None), w) }"

text \<open>The internal state that a call uses: none if the caller supplies one, or if the function needs none.\<close>

fun owner :: "mb_call \<Rightarrow> (ctype_func \<times> nat) option" where
  "owner (Mblen m s n loc) = Some (F_mblen, loc)"
| "owner (Mbtowc m wcs pw s n loc) = Some (F_mbtowc, loc)"
| "owner (Wctomb m s wc loc) = Some (F_wctomb, loc)"
| "owner (Mbrlen m s n ps loc) = (if ps = None then Some (F_mbrlen, loc) else None)"
| "owner (Mbrtowc m wcs pwc s n ps loc) = (if ps = None then Some (F_mbrtowc, loc) else None)"
| "owner (Mbsrtowcs m wcs pwcs s n ps loc) = (if ps = None then Some (F_mbsrtowcs, loc) else None)"
| "owner (Mbsnrtowcs m wcs pwcs s in' n ps loc) = (if ps = None then Some (F_mbsnrtowcs, loc) else None)"
| "owner (Wcrtomb buf m s wc ps loc) = (if ps = None then Some (F_wcrtomb, loc) else None)"
| "owner (Wcsrtombs buf wcs m s p n ps loc) = (if ps = None then Some (F_wcsrtombs, loc) else None)"
| "owner (Wcsnrtombs buf wcs m s p in' n ps loc) = (if ps = None then Some (F_wcsnrtombs, loc) else None)"
| "owner _ = None"

definition internal :: "ctype_func \<times> nat \<Rightarrow> mb_world \<Rightarrow> UTF8State" where
  "internal k w = CEI_TO_STATE (fst k) (rl_citrus_ctype w (snd k))"

section \<open>Operations on states with owners\<close>

text \<open>
  The contract of a system whose operations each use one of several states, or none: an operation changes no other state, and what it does is determined by the state it uses.
\<close>

locale owned_states =
  fixes step :: "'c \<Rightarrow> 'w \<Rightarrow> ('r \<times> 'w) option" and own :: "'c \<Rightarrow> 'k option" and sel :: "'k \<Rightarrow> 'w \<Rightarrow> 's"
  assumes frame: "step c w = Some (r, w') \<Longrightarrow> own c \<noteq> Some k \<Longrightarrow> sel k w' = sel k w"
    and depend: "step c w = Some (r, w') \<Longrightarrow> (\<And>k. own c = Some k \<Longrightarrow> sel k v = sel k w) \<Longrightarrow>
      \<exists>v'. step c v = Some (r, v') \<and> (\<forall>k. own c = Some k \<longrightarrow> sel k v' = sel k w')"

fun run_calls :: "('c \<Rightarrow> 'w \<Rightarrow> ('r \<times> 'w) option) \<Rightarrow> 'c list \<Rightarrow> 'w \<Rightarrow> ('r list \<times> 'w) option" where
  "run_calls step [] w = Some ([], w)"
| "run_calls step (c # cs) w = do { (r, w) \<leftarrow> step c w; (rs, w) \<leftarrow> run_calls step cs w; Some (r # rs, w) }"

context owned_states
begin

text \<open>The results of the calls that use the state \<open>k\<close> are those that they would have without the other calls.\<close>

lemma noninterference:
  "run_calls step cs w = Some (rs, w') \<Longrightarrow> sel k v = sel k w \<Longrightarrow>
   \<exists>v'. run_calls step (filter (\<lambda>c. own c = Some k) cs) v = Some (map snd (filter (\<lambda>(c, r). own c = Some k) (zip cs rs)), v') \<and> sel k v' = sel k w'"
proof (induction cs arbitrary: w v rs)
  case (Cons c cs)
  then obtain r w1 rs1 where s: "step c w = Some (r, w1)" "run_calls step cs w1 = Some (rs1, w')" "rs = r # rs1" by (auto split: bind_splits)
  show ?case
  proof (cases "own c = Some k")
    case True
    then obtain v1 where v1: "step c v = Some (r, v1)" "sel k v1 = sel k w1" using depend [OF s(1), of v] Cons.prems(2) by auto
    from Cons.IH [OF s(2) v1(2)] show ?thesis using True v1(1) s(3) by auto
  next
    case False
    then have "sel k v = sel k w1" using frame [OF s(1)] Cons.prems(2) by simp
    from Cons.IH [OF s(2) this] show ?thesis using False s(3) by auto
  qed
qed simp

lemma stateless:
  assumes "step c w = Some (r, w')" "own c = None"
  shows "\<exists>v'. step c v = Some (r, v')"
  using depend [OF assms(1), of v] assms(2) by auto

end

section \<open>The functions of the library respect the owners\<close>

lemma run_calls_nth:
  "run_calls step cs w = Some (rs, w') \<Longrightarrow> i < length cs \<Longrightarrow> \<exists>v v'. step (cs ! i) v = Some (rs ! i, v')"
proof (induction cs arbitrary: w rs i)
  case (Cons c cs)
  then obtain r w1 rs1 where "step c w = Some (r, w1)" "run_calls step cs w1 = Some (rs1, w')" "rs = r # rs1" by (auto split: bind_splits)
  then show ?case using Cons.IH [of w1 rs1 "i - 1"] Cons.prems(2) by (cases i) auto
qed simp

lemma put_state_same [simp]: "CEI_TO_STATE f (put_state f ps cei) = ps"
  by (cases f) auto

lemma put_state_other [simp]: "f \<noteq> g \<Longrightarrow> CEI_TO_STATE g (put_state f ps cei) = CEI_TO_STATE g cei"
  by (cases f; cases g) auto

lemma internal_set [simp]:
  "internal k (set_errno e w) = internal k w"
  "internal (f, l) (set_ctype l (put_state f ps (rl_citrus_ctype w l)) w) = ps"
  "k \<noteq> (f, l) \<Longrightarrow> internal k (set_ctype l (put_state f ps (rl_citrus_ctype w l)) w) = internal k w"
  by (cases k; auto simp: internal_def set_errno_def set_ctype_def)+

text \<open>A call acts on the state of its owner only, or on none.\<close>

definition acts :: "(ctype_func \<times> nat) option \<Rightarrow> (mb_world \<Rightarrow> ('r \<times> mb_world) option) \<Rightarrow> bool" where
  "acts k X \<longleftrightarrow> (case k of
     None \<Rightarrow> \<exists>act. \<forall>w. X w = (case act of None \<Rightarrow> None | Some (r, e) \<Rightarrow> Some (r, set_errno e w))
   | Some (f, l) \<Rightarrow> \<exists>act. \<forall>w. X w = (case act (internal (f, l) w) of None \<Rightarrow> None
       | Some (r, e, ps) \<Rightarrow> Some (r, set_errno e (set_ctype l (put_state f ps (rl_citrus_ctype w l)) w))))"

lemma acts_frame:
  assumes "acts k X" "X w = Some (r, w')" "k \<noteq> Some j"
  shows "internal j w' = internal j w"
proof (cases k)
  case None
  then obtain a where a: "\<And>w. X w = (case a of None \<Rightarrow> None | Some (r, e) \<Rightarrow> Some (r, set_errno e w))" using assms(1) by (auto simp: acts_def)
  show ?thesis using a [of w] assms(2) by (cases a) auto
next
  case (Some fl)
  obtain f l where j: "fl = (f, l)" by (cases fl)
  then obtain a where a: "\<And>w. X w = (case a (internal (f, l) w) of None \<Rightarrow> None
       | Some (r, e, ps) \<Rightarrow> Some (r, set_errno e (set_ctype l (put_state f ps (rl_citrus_ctype w l)) w)))" using assms(1) Some by (auto simp: acts_def)
  show ?thesis using a [of w] assms(2,3) Some j by (cases "a (internal (f, l) w)") auto
qed

lemma acts_depend:
  assumes "acts k X" "X w = Some (r, w')" "\<And>j. k = Some j \<Longrightarrow> internal j v = internal j w"
  shows "\<exists>v'. X v = Some (r, v') \<and> (\<forall>j. k = Some j \<longrightarrow> internal j v' = internal j w')"
proof (cases k)
  case None
  then obtain a where a: "\<And>w. X w = (case a of None \<Rightarrow> None | Some (r, e) \<Rightarrow> Some (r, set_errno e w))" using assms(1) by (auto simp: acts_def)
  show ?thesis using a [of w] a [of v] None assms(2) by (cases a) auto
next
  case (Some fl)
  obtain f l where j: "fl = (f, l)" by (cases fl)
  then obtain a where a: "\<And>w. X w = (case a (internal (f, l) w) of None \<Rightarrow> None
       | Some (r, e, ps) \<Rightarrow> Some (r, set_errno e (set_ctype l (put_state f ps (rl_citrus_ctype w l)) w)))" using assms(1) Some by (auto simp: acts_def)
  have "internal (f, l) v = internal (f, l) w" using assms(3) Some j by simp
  then show ?thesis using a [of w] a [of v] assms(2) Some j by (cases "a (internal (f, l) w)") auto
qed

lemma set_ctype_same [simp]: "set_ctype l (rl_citrus_ctype w l) w = w"
  by (simp add: set_ctype_def)

lemma init_ps_eq: "init_ps w rl ps = Some \<lparr>rs_runelocale = Some rl, rs_private = init_state (rs_private ps)\<rparr>"
  by (simp add: init_ps_def ctype_mbrtowc_def RESTART_def UTF8_pack_state_def UTF8_unpack_state_def)

definition fixed_up :: "nat \<Rightarrow> mbstate \<Rightarrow> bool \<Rightarrow> mbstate" where
  "fixed_up rl s forceinit = (if rs_runelocale s = None \<or> forceinit then \<lparr>rs_runelocale = Some rl, rs_private = init_state (rs_private s)\<rparr> else s)"

lemma fixup_ps_eq: "fixup_ps w rl ps forceinit = Some (map_option (\<lambda>s. fixed_up rl s forceinit) ps)"
  by (cases ps) (auto simp: fixup_ps_def init_ps_eq fixed_up_def)

lemma fixed_up_locale: "\<exists>l. rs_runelocale (fixed_up rl s b) = Some l"
  by (auto simp: fixed_up_def)

lemma acts_None:
  assumes "\<And>w. X w = (case act of None \<Rightarrow> None | Some (r, e) \<Rightarrow> Some (r, set_errno e w))"
  shows "acts None X"
  using assms by (auto simp: acts_def)

lemma acts_Some:
  assumes "\<And>w. X w = (case act (internal (f, l) w) of None \<Rightarrow> None
    | Some (r, e, ps) \<Rightarrow> Some (r, set_errno e (set_ctype l (put_state f ps (rl_citrus_ctype w l)) w)))"
  shows "acts (Some (f, l)) X"
  using assms by (auto simp: acts_def)

lemma acts_restartable:
  "acts (if ps = None then Some (f, loc) else None)
     (\<lambda>w. do { (r, ps, w) \<leftarrow> restartable w loc ps b (\<lambda>cl p. RESTART f cl p body); Some (g r ps, w) })"
proof (cases ps)
  case None
  have "acts (Some (f, loc)) (\<lambda>w. do { (r, ps, w) \<leftarrow> restartable w loc None b (\<lambda>cl p. RESTART f cl p body); Some (g r ps, w) })"
    by (rule acts_Some [where act = "\<lambda>st. do { ((e, r), st) \<leftarrow> body st; Some (g r None, e, st) }"])
      (auto simp: restartable_def fixup_ps_eq ps_to_ctype_def RESTART_def internal_def split: bind_splits option.splits)
  then show ?thesis using None by simp
next
  case (Some s)
  define s' where "s' = fixed_up loc s b"
  obtain l where l: "rs_runelocale s' = Some l" using fixed_up_locale s'_def by blast
  have "acts None (\<lambda>w. do { (r, ps, w) \<leftarrow> restartable w loc (Some s) b (\<lambda>cl p. RESTART f cl p body); Some (g r ps, w) })"
    by (rule acts_None [where act = "do { ((e, r), st) \<leftarrow> body (rs_private s'); Some (g r (Some (s'\<lparr>rs_private := st\<rparr>)), e) }"])
      (auto simp: restartable_def fixup_ps_eq ps_to_ctype_def RESTART_def s'_def [symmetric] l UTF8_pack_state_def UTF8_unpack_state_def split: bind_splits option.splits)
  then show ?thesis using Some by simp
qed

text \<open>The functions that always use a state of their own.\<close>

lemma acts_plain:
  assumes "\<And>w. X w = do { ((e, r), st) \<leftarrow> body (internal (f, loc) w); Some (g r, set_errno e (set_ctype loc (put_state f st (rl_citrus_ctype w loc)) w)) }"
  shows "acts (Some (f, loc)) X"
  by (rule acts_Some [where act = "\<lambda>st. do { ((e, r), st) \<leftarrow> body st; Some (g r, e, st) }"]) (auto simp: assms split: bind_splits option.splits)

lemma exec_acts: "acts (owner c) (exec c)"
proof (cases c)
  case (Mblen m s n loc)
  then show ?thesis
    by (simp, intro acts_plain [where g = "\<lambda>r. ([], [], NULL, r, None)" and
          body = "\<lambda>st. do { (err, _, nresult, st) \<leftarrow> mbtowc_priv mbrtowc_priv init_state m [] NULL s n st; Some ((err, nresult), st) }"])
      (auto simp: mblen_l_def ctype_mblen_def internal_def split: bind_splits)
next
  case (Mbtowc m wcs pw s n loc)
  then show ?thesis
    by (simp, intro acts_plain [where g = "\<lambda>(wcs, r). ([], wcs, NULL, r, None)" and
          body = "\<lambda>st. do { (err, wcs, nresult, st) \<leftarrow> mbtowc_priv mbrtowc_priv init_state m wcs pw s n st; Some ((err, wcs, nresult), st) }"])
      (auto simp: mbtowc_l_def ctype_mbtowc_def internal_def split: bind_splits)
next
  case (Wctomb m s wc loc)
  then show ?thesis
    by (simp, intro acts_plain [where g = "\<lambda>(m, r). (m, [], NULL, r, None)" and
          body = "\<lambda>st. if s = NULL then Some ((OK, m, 0), init_state st) else do { (_, nr, m, st) \<leftarrow> UTF8_wcrtomb m s UTF8_MB_CUR_MAX wc st; Some ((OK, m, sint (ucast nr :: u32)), st) }"])
      (auto simp: wctomb_l_def ctype_wctomb_def internal_def Let_def split: bind_splits)
next
  case (Mbrlen m s n ps loc)
  show ?thesis unfolding Mbrlen owner.simps exec.simps mbrlen_l_def ctype_mbrlen_def by (rule acts_restartable)
next
  case (Mbrtowc m wcs pwc s n ps loc)
  show ?thesis unfolding Mbrtowc owner.simps exec.simps mbrtowc_l_def ctype_mbrtowc_def case_prod_beta'
    by (rule acts_restartable [where g = "\<lambda>(wcs, r) ps. ([], wcs, NULL, uint r, ps)", unfolded case_prod_beta'])
next
  case (Mbsrtowcs m wcs pwcs s n ps loc)
  show ?thesis unfolding Mbsrtowcs owner.simps exec.simps mbsrtowcs_l_def ctype_mbsrtowcs_def case_prod_beta'
    by (rule acts_restartable [where g = "\<lambda>(wcs, s, r) ps. ([], wcs, s, uint r, ps)", unfolded case_prod_beta'])
next
  case (Mbsnrtowcs m wcs pwcs s in' n ps loc)
  show ?thesis unfolding Mbsnrtowcs owner.simps exec.simps mbsnrtowcs_l_def ctype_mbsnrtowcs_def case_prod_beta'
    by (rule acts_restartable [where g = "\<lambda>(wcs, s, r) ps. ([], wcs, s, uint r, ps)", unfolded case_prod_beta'])
next
  case (Wcrtomb buf m s wc ps loc)
  show ?thesis unfolding Wcrtomb owner.simps exec.simps wcrtomb_l_def ctype_wcrtomb_def case_prod_beta'
    by (rule acts_restartable [where g = "\<lambda>(m, r) ps. (m, [], NULL, uint r, ps)", unfolded case_prod_beta'])
next
  case (Wcsrtombs buf wcs m s p n ps loc)
  show ?thesis unfolding Wcsrtombs owner.simps exec.simps wcsrtombs_l_def ctype_wcsrtombs_def case_prod_beta'
    by (rule acts_restartable [where g = "\<lambda>(m, p, r) ps. (m, [], p, uint r, ps)", unfolded case_prod_beta'])
next
  case (Wcsnrtombs buf wcs m s p in' n ps loc)
  show ?thesis unfolding Wcsnrtombs owner.simps exec.simps wcsnrtombs_l_def ctype_wcsnrtombs_def case_prod_beta'
    by (rule acts_restartable [where g = "\<lambda>(m, p, r) ps. (m, [], p, uint r, ps)", unfolded case_prod_beta'])
next
  case (Mbstowcs state m wcs pwcs s n)
  then show ?thesis by (simp, intro acts_None [where act = "do { (e, wcs, r) \<leftarrow> ctype_mbstowcs state m wcs pwcs s n; Some (([], wcs, NULL, uint r, None), e) }"])
    (auto simp: mbstowcs_l_def split: bind_splits)
next
  case (Wcstombs state buf wcs m s p n)
  then show ?thesis by (simp, intro acts_None [where act = "do { (e, m, r) \<leftarrow> ctype_wcstombs state buf wcs m s p n; Some ((m, [], NULL, uint r, None), e) }"])
    (auto simp: wcstombs_l_def split: bind_splits)
next
  case (Btowc state c)
  then show ?thesis by (simp, intro acts_None [where act = "do { r \<leftarrow> ctype_btowc state c; Some (([], [], NULL, uint r, None), OK) }"])
    (auto simp: btowc_l_def split: bind_splits)
next
  case (Wctob state buf wc)
  then show ?thesis by (simp, intro acts_None [where act = "do { r \<leftarrow> ctype_wctob state buf wc; Some (([], [], NULL, r, None), OK) }"])
    (auto simp: wctob_l_def split: bind_splits)
qed

interpretation mb_calls: owned_states exec owner internal
  by unfold_locales (use acts_frame [OF exec_acts] acts_depend [OF exec_acts] in blast)+

text \<open>
  C36. The internal states of the multibyte functions are separate.  In any sequence of calls of the functions, in any locales, the calls of one function that use its
  internal state in a locale give the results that they give without all other calls, and leave the same internal state; and a call with a state of the caller, or of a function
  that needs none, gives the same result whatever was called before it.
\<close>

theorem mb_noninterference:
  assumes "run_calls exec cs w = Some (rs, w')"
  shows "(\<exists>v'. run_calls exec (filter (\<lambda>c. owner c = Some (f, l)) cs) w = Some (map snd (filter (\<lambda>(c, r). owner c = Some (f, l)) (zip cs rs)), v') \<and>
      CEI_TO_STATE f (rl_citrus_ctype v' l) = CEI_TO_STATE f (rl_citrus_ctype w' l)) \<and>
    (\<forall>i < length cs. owner (cs ! i) = None \<longrightarrow> (\<forall>v. \<exists>v'. exec (cs ! i) v = Some (rs ! i, v')))"
proof
  show "\<exists>v'. run_calls exec (filter (\<lambda>c. owner c = Some (f, l)) cs) w = Some (map snd (filter (\<lambda>(c, r). owner c = Some (f, l)) (zip cs rs)), v') \<and>
      CEI_TO_STATE f (rl_citrus_ctype v' l) = CEI_TO_STATE f (rl_citrus_ctype w' l)"
    using mb_calls.noninterference [OF assms, of "(f, l)" w] by (simp add: internal_def)
  show "\<forall>i < length cs. owner (cs ! i) = None \<longrightarrow> (\<forall>v. \<exists>v'. exec (cs ! i) v = Some (rs ! i, v'))"
    using run_calls_nth [OF assms] mb_calls.stateless by blast
qed

definition demo_calls :: "mb_call list" where
  "demo_calls = [Mbrtowc [0xC3] [0] (Some 0) (Some 0) 1 None 0, Mbrlen [0x41] (Some 0) 1 None 0, Btowc UTF8_zero_state 0x41, Mbrtowc [0xA9] [0] (Some 0) (Some 0) 1 None 0]"

definition demo_world :: mb_world where
  "demo_world = \<lparr>rl_citrus_ctype = (\<lambda>_. the (snd (ctype_init True 128))), mb_errno = OK\<rparr>"

lemma demo_runs: "\<not> Option.is_none (run_calls exec demo_calls demo_world)"
  by code_simp

theorem mb_noninterference_witness:
  "\<exists>rs w'. run_calls exec demo_calls demo_world = Some (rs, w') \<and>
    (\<exists>v'. run_calls exec (filter (\<lambda>c. owner c = Some (F_mbrtowc, 0)) demo_calls) demo_world =
        Some (map snd (filter (\<lambda>(c, r). owner c = Some (F_mbrtowc, 0)) (zip demo_calls rs)), v') \<and>
      CEI_TO_STATE F_mbrtowc (rl_citrus_ctype v' 0) = CEI_TO_STATE F_mbrtowc (rl_citrus_ctype w' 0)) \<and>
    (\<forall>i < length demo_calls. owner (demo_calls ! i) = None \<longrightarrow> (\<forall>v. \<exists>v'. exec (demo_calls ! i) v = Some (rs ! i, v')))"
proof -
  obtain rs w' where r: "run_calls exec demo_calls demo_world = Some (rs, w')"
    using demo_runs by (cases "run_calls exec demo_calls demo_world") (auto simp: Option.is_none_def)
  show ?thesis by (rule exI [of _ rs], rule exI [of _ w'], rule conjI [OF r mb_noninterference [OF r]])
qed

lemma utf8_single: "length (utf8 v) = 1 \<longleftrightarrow> v < 128"
  by (simp add: utf8_def utf8_units_def)

lemma utf8_prefix_single: "prefix (utf8 v) [b] \<longleftrightarrow> v = unat b \<and> v < 128"
proof
  assume p: "prefix (utf8 v) [b]"
  moreover have "utf8 v \<noteq> []" by (simp add: utf8_def utf8_units_def)
  ultimately have e: "utf8 v = [b]" by (cases "utf8 v") auto
  then have v: "v < 128" using utf8_single [of v] by simp
  then have "word_of_nat v = b" using e by (simp add: utf8_def utf8_units_def)
  then show "v = unat b \<and> v < 128" using v by (auto simp: unat_of_nat)
next
  assume "v = unat b \<and> v < 128"
  then show "prefix (utf8 v) [b]" by (simp add: utf8_def utf8_units_def)
qed

text \<open>
  In a UTF-8 locale \<open>btowc\<close> and \<open>wctob\<close> know the ASCII characters only: \<open>btowc\<close> gives the wide character of a byte below 128 and \<^verbatim>\<open>WEOF\<close> for the other bytes and for \<^verbatim>\<open>EOF\<close>,
  and \<open>wctob\<close> gives its byte back and \<^verbatim>\<open>EOF\<close> for every other wide character, whatever their local variables hold before the call.
\<close>

theorem btowc_wctob_ascii:
  assumes "length (ch state) = 6" "UTF8_MB_CUR_MAX \<le> length buf" "- 1 \<le> c" "c < 256"
  shows "ctype_btowc state c = Some (if 0 \<le> c \<and> c < 128 then word_of_int c else WEOF) \<and>
    ctype_wctob state buf wc = Some (if uint wc < 128 then uint wc else EOF)"
proof
  define b where "b = (word_of_int c :: byte)"
  have h: "holds (init_state state) []" using assms(1) by (simp add: holds_def init_state_def)
  show "ctype_btowc state c = Some (if 0 \<le> c \<and> c < 128 then word_of_int c else WEOF)"
  proof (cases "c = EOF")
    case False
    then have c: "0 \<le> c" "uint b = c" using assms(3,4) by (auto simp: EOF_def b_def unsigned_of_int take_bit_int_eq_self)
    obtain e wc nr s ps where r: "mbrtowc_priv [b] (Some 0) 1 (init_state state) = Some (e, wc, nr, s, ps)" "decodes [] [b] 0 (e, wc, nr, s, ps)"
      using mbrtowc_ok [OF h, of "[b]" 0 "[b]"] by (auto simp: b_def)
    show ?thesis
    proof (cases "c < 128")
      case True
      have u: "unat b < 128" using c True by (simp add: unat_eq_nat_uint)
      then have "scalar (unat b)" by (simp add: scalar_def)
      then have x: "\<exists>v. scalar v \<and> prefix (utf8 v) ([] @ [b])" using u by (auto simp: utf8_prefix_single)
      then obtain v where v: "prefix (utf8 v) [b]" "e = OK" "wc = Some (word_of_nat v)" "nr = (if v = 0 then 0 else of_nat (length (utf8 v)))"
        using r(2) unfolding decodes_def prod.case if_P [OF x] by auto
      then have "e = OK" "wc = Some (word_of_nat (unat b))" "nr = 0 \<or> nr = 1" using utf8_single [of v] by (auto simp: utf8_prefix_single)
      moreover have "(word_of_nat (unat b) :: u32) = word_of_int c" using c(2) by (metis of_int_of_nat_eq uint_nat)
      ultimately show ?thesis using r(1) False c(1) True by (simp add: ctype_btowc_def b_def)
    next
      case big: False
      then have "\<not> unat b < 128" using c by (simp add: unat_eq_nat_uint)
      then have x: "\<not> (\<exists>v. scalar v \<and> prefix (utf8 v) ([] @ [b]))" by (auto simp: utf8_prefix_single)
      have "nr = - 2 \<or> e \<noteq> OK"
      proof (cases "\<exists>v. scalar v \<and> prefix ([] @ [b]) (utf8 v)")
        case p: True
        then show ?thesis using r(2) unfolding decodes_def prod.case if_not_P [OF x] if_P [OF p] by blast
      next
        case p: False
        then show ?thesis using r(2) unfolding decodes_def prod.case if_not_P [OF x] if_not_P [OF p] by (metis mb_err.distinct(1))
      qed
      moreover have "(- 2 :: u64) \<noteq> 0" "(- 2 :: u64) \<noteq> 1" by simp_all
      ultimately have "\<not> (e = OK \<and> (nr = 0 \<or> nr = 1))" by metis
      then show ?thesis using r(1) False big by (auto simp: ctype_btowc_def b_def)
    qed
  qed (simp add: ctype_btowc_def EOF_def)
  show "ctype_wctob state buf wc = Some (if uint wc < 128 then uint wc else EOF)"
  proof (cases "scalar (unat wc)")
    case True
    have sm: "uint wc < 128 \<longleftrightarrow> unat wc < 128" unfolding uint_nat by linarith
    define l where "l = length (utf8 (unat wc))"
    have l: "l \<le> 4" by (simp add: l_def utf8_def utf8_units_def)
    have w: "wc \<noteq> WEOF" using True by (auto simp: WEOF_def scalar_def unsigned_minus_1_eq_mask mask_eq_exp_minus_1)
    have e: "UTF8_wcrtomb buf (Some 0) UTF8_MB_CUR_MAX wc (init_state state) = Some (OK, of_nat l, wr buf 0 (utf8 (unat wc)), init_state state)"
      using wcrtomb_ok [of 0 UTF8_MB_CUR_MAX buf wc] True assms(2) l by (simp add: UTF8_wcrtomb_def l_def UTF8_MB_CUR_MAX_def)
    have n: "(of_nat l :: u64) = 1 \<longleftrightarrow> uint wc < 128"
    proof -
      have "(of_nat l :: u64) = 1 \<longleftrightarrow> l = 1" using l by (simp add: word_unat_eq_iff unat_of_nat)
      then show ?thesis using utf8_single [of "unat wc"] sm by (simp add: l_def)
    qed
    show ?thesis
    proof (cases "uint wc < 128")
      case small: True
      define b where "b = (word_of_nat (unat wc) :: byte)"
      have u: "utf8 (unat wc) = [b]" using small sm by (simp add: utf8_def utf8_units_def b_def)
      have "unat b = unat wc" unfolding b_def unat_of_nat using small sm by simp
      then have ub: "uint b = uint wc" unfolding uint_nat by simp
      have sb: "sint b = uint wc" unfolding sint_uint ub using small by (intro signed_take_bit_int_eq_self) (auto intro: order_trans [OF _ uint_ge_0])
      have "ld (wr buf 0 [b]) 0 = Some b" using assms(2) by (cases buf) (auto simp: UTF8_MB_CUR_MAX_def)
      then show ?thesis using w e n small u sb by (simp add: ctype_wctob_def)
    next
      case False
      then show ?thesis using w e n by (simp add: ctype_wctob_def)
    qed
  next
    case False
    then have "\<not> unat wc < 128" by (auto simp: scalar_def)
    then have "\<not> uint wc < 128" unfolding uint_nat by linarith
    then show ?thesis using wcrtomb_ok [of 0 UTF8_MB_CUR_MAX buf wc] False assms(2) by (auto simp: ctype_wctob_def UTF8_wcrtomb_def)
  qed
qed

end
