(* ===== verification/Cuchar.thy ===== *)
theory Cuchar
  imports Mbctype
begin

text \<open>
  The functions of \<^verbatim>\<open>uchar.h\<close> (\<^verbatim>\<open>src/libc/locale/mbrtoc32.c\<close>, \<^verbatim>\<open>c32rtomb.c\<close>, \<^verbatim>\<open>mbrtoc16.c\<close>, \<^verbatim>\<open>c16rtomb.c\<close>, \<^verbatim>\<open>mbrtoc8.c\<close>, \<^verbatim>\<open>c8rtomb.c\<close>): multibyte characters of a UTF-8
  locale to and from the code units of UTF-32, UTF-16 and UTF-8.  A conversion between UTF-32LE and the encoding of the locale is opened with \<^verbatim>\<open>_citrus_iconv_open\<close>,
  which loads it at run time; it is an argument \<open>iconv\<close>, \<open>None\<close> if it cannot be opened, from the input and the room for the output to an error or the output.  The
  conversion state is an argument too; without one a function uses a static object of its own.
\<close>

section \<open>The program\<close>

type_synonym iconv = "(byte list \<Rightarrow> nat \<Rightarrow> mb_err + byte list) option"

text \<open>\<^verbatim>\<open>__BITS\<close>, \<^verbatim>\<open>__SHIFTOUT\<close>, \<^verbatim>\<open>__SHIFTIN\<close> on \<^verbatim>\<open>uintmax_t\<close>.\<close>

definition BITS :: "nat \<Rightarrow> nat \<Rightarrow> u64" where
  "BITS m n = (2 ^ (max m n + 1) - 1) XOR (2 ^ min m n - 1)"

definition LOWEST_SET_BIT :: "u64 \<Rightarrow> u64" where
  "LOWEST_SET_BIT msk = ((msk - 1) AND msk) XOR msk"

definition SHIFTOUT :: "u64 \<Rightarrow> u64 \<Rightarrow> u64" where
  "SHIFTOUT x msk = (x AND msk) div LOWEST_SET_BIT msk"

definition SHIFTIN :: "u64 \<Rightarrow> u64 \<Rightarrow> u64" where
  "SHIFTIN x msk = x * LOWEST_SET_BIT msk"

definition le32enc :: "u32 \<Rightarrow> byte list" where
  "le32enc u = [ucast (u AND 0xff), ucast (drop_bit 8 u AND 0xff), ucast (drop_bit 16 u AND 0xff), ucast (drop_bit 24 u AND 0xff)]"

definition le16dec :: "byte list \<Rightarrow> u16" where
  "le16dec p = push_bit 8 (ucast (p ! 1)) OR ucast (p ! 0)"

text \<open>The array \<^verbatim>\<open>utf32le\<close> holds no more than what was converted.\<close>

definition le32dec :: "byte list \<Rightarrow> u32 option" where
  "le32dec p = (if length p < 4 then None else Some (ucast (le16dec p) OR push_bit 16 (ucast (le16dec (drop 2 p)))))"

definition zero_mbstate :: mbstate where
  "zero_mbstate = \<lparr>rs_runelocale = None, rs_private = UTF8_zero_state\<rparr>"

definition fail_errno :: "mb_err \<Rightarrow> mb_world \<Rightarrow> mb_world" where
  "fail_errno e w = w\<lparr>mb_errno := e\<rparr>"

text \<open>The result has the value stored through \<^verbatim>\<open>pc32\<close>, if any.\<close>

definition mbrtoc32_l :: "iconv \<Rightarrow> mb_world \<Rightarrow> mem \<Rightarrow> mem \<Rightarrow> ptr \<Rightarrow> nat \<Rightarrow> mbstate \<Rightarrow> nat \<Rightarrow> ((u32 option \<times> u64) \<times> mbstate \<times> mb_world) option" where
  "mbrtoc32_l iconv w mb m s n ps loc =
     (let errno_save = mb_errno w;
          pc32 = (s \<noteq> NULL);
          (m, s, n) = (if s = NULL then ([0], Some 0, 1) else (m, s, n)) in
      if n = 0 then Some ((None, - 2), ps, w)
      else case iconv of
        None \<Rightarrow> Some ((None, - 1), ps, fail_errno EIO w)
      | Some convert \<Rightarrow> do {
          ((wcs, len), ps, w) \<leftarrow> mbrtowc_l w m [0] (Some 0) s n (Some ps) loc;
          ps \<leftarrow> ps;
          if len = 0 then Some ((if pc32 then Some 0 else None, 0), ps, w)
          else if len = - 2 \<or> len = - 1 then Some ((None, len), ps, w)
          else do {
            ((mb, mb_len), _, w) \<leftarrow> wcrtomb_l w [] mb (Some 0) (wcs ! 0) (Some zero_mbstate) loc;
            if mb_len = - 1 then Some ((None, - 1), ps, w)
            else case convert (take (unat mb_len) mb) MB_LEN_MAX of
              Inl error \<Rightarrow> Some ((None, - 1), ps, fail_errno error w)
            | Inr utf32le \<Rightarrow> do {
                c32 \<leftarrow> le32dec utf32le;
                if 0xd800 \<le> c32 \<and> c32 \<le> 0xdfff then Some ((None, - 1), ps, fail_errno EILSEQ w)
                else Some ((if pc32 then Some c32 else None, if c32 = 0 then 0 else len), ps, w\<lparr>mb_errno := errno_save\<rparr>) } } })"

text \<open>The local array \<open>buf\<close> takes the output of the conversion, and the encoding if there is no \<^verbatim>\<open>s\<close>.\<close>

definition c32rtomb_l :: "iconv \<Rightarrow> mb_world \<Rightarrow> mem \<Rightarrow> mem \<Rightarrow> ptr \<Rightarrow> u32 \<Rightarrow> mbstate \<Rightarrow> nat \<Rightarrow> ((mem \<times> u64) \<times> mbstate \<times> mb_world) option" where
  "c32rtomb_l iconv w buf m s c32 ps loc =
     (let errno_save = mb_errno w; c32 = (if s = NULL then 0 else c32) in
      if 0xd800 \<le> c32 \<and> c32 \<le> 0xdfff then Some ((m, - 1), ps, fail_errno EILSEQ w)
      else case iconv of
        None \<Rightarrow> Some ((m, - 1), ps, fail_errno EIO w)
      | Some convert \<Rightarrow> (case convert (le32enc c32) UTF8_MB_CUR_MAX of
          Inl error \<Rightarrow> Some ((m, - 1), ps, fail_errno error w)
        | Inr bs \<Rightarrow>
            let len = length bs in
            if len = 0 then Some ((m, - 1), ps, fail_errno EILSEQ w)
            else do {
              buf \<leftarrow> copy_out buf 0 bs;
              ((wcs, wc_len), _, w) \<leftarrow> mbrtowc_l w buf [0] (Some 0) (Some 0) len (Some zero_mbstate) loc;
              if wc_len = - 1 then Some ((m, - 1), ps, w)
              else if wc_len = - 2 then None
              else do {
                let wc = (if wc_len = 0 then 0 else wcs ! 0);
                ((m', len), ps, w) \<leftarrow> (if s = NULL then wcrtomb_l w [] buf (Some 0) wc (Some ps) loc else wcrtomb_l w [] m s wc (Some ps) loc);
                ps \<leftarrow> ps;
                let m = (if s = NULL then m else m');
                if len = - 1 then Some ((m, - 1), ps, w)
                else Some ((m, len), ps, w\<lparr>mb_errno := errno_save\<rparr>) } }))"

record c16rtombstate =
  c16_surrogate :: u16
  c16_mbs :: mbstate

definition c16rtomb_l :: "iconv \<Rightarrow> mb_world \<Rightarrow> mem \<Rightarrow> mem \<Rightarrow> ptr \<Rightarrow> u16 \<Rightarrow> c16rtombstate \<Rightarrow> nat \<Rightarrow> ((mem \<times> u64) \<times> c16rtombstate \<times> mb_world) option" where
  "c16rtomb_l iconv w buf m s c16 S loc =
     (let c16 = (if s = NULL then 0 else c16);
          out = (\<lambda>c32 S. do {
            ((m, r), mbs, w) \<leftarrow> c32rtomb_l iconv w buf m s c32 (c16_mbs S) loc;
            Some ((m, r), S\<lparr>c16_mbs := mbs\<rparr>, w) }) in
      if c16 = 0 then out 0 (S\<lparr>c16_surrogate := 0\<rparr>)
      else if c16_surrogate S \<noteq> 0 then
        (if c16 < 0xdc00 \<or> c16 > 0xdfff then Some ((m, - 1), S, fail_errno EILSEQ w)
         else
           let w1 = c16_surrogate S;
               c32 = (ucast (SHIFTIN (SHIFTOUT (ucast w1) (BITS 9 0)) (BITS 19 10) OR SHIFTIN (SHIFTOUT (ucast c16) (BITS 9 0)) (BITS 9 0)) :: u32)
           in out (c32 + 0x10000) (S\<lparr>c16_surrogate := 0\<rparr>))
      else if 0xd800 \<le> c16 \<and> c16 \<le> 0xdbff then Some ((m, 0), S\<lparr>c16_surrogate := c16\<rparr>, w)
      else if 0xdc00 \<le> c16 \<and> c16 \<le> 0xdfff then Some ((m, - 1), S, fail_errno EILSEQ w)
      else out (ucast c16) S)"

record mbrtoc16state =
  m16_surrogate :: u16
  m16_mbs :: mbstate

text \<open>The result has the value stored if \<^verbatim>\<open>pc16\<close> is not NULL.\<close>

definition mbrtoc16_l :: "iconv \<Rightarrow> mb_world \<Rightarrow> mem \<Rightarrow> mem \<Rightarrow> bool \<Rightarrow> ptr \<Rightarrow> nat \<Rightarrow> mbrtoc16state \<Rightarrow> nat \<Rightarrow> ((u16 option \<times> u64) \<times> mbrtoc16state \<times> mb_world) option" where
  "mbrtoc16_l iconv w mb m pc16 s n S loc =
     (let pc16 = (pc16 \<and> s \<noteq> NULL);
          (m, s, n) = (if s = NULL then ([0], Some 0, 1) else (m, s, n));
          store = (\<lambda>c. if pc16 then Some c else None) in
      if m16_surrogate S \<noteq> 0 then Some ((store (m16_surrogate S), - 3), S\<lparr>m16_surrogate := 0\<rparr>, w)
      else do {
        ((c32, len), mbs, w) \<leftarrow> mbrtoc32_l iconv w mb m s n (m16_mbs S) loc;
        let S = S\<lparr>m16_mbs := mbs\<rparr>;
        if len = 0 then Some ((store 0, 0), S, w)
        else if len = - 2 \<or> len = - 1 then Some ((None, len), S, w)
        else do {
          c32 \<leftarrow> c32;
          if c32 \<le> 0xffff then Some ((store (ucast c32), len), S, w)
          else
            let c32 = c32 - 0x10000;
                w1 = ucast (0xd800 OR SHIFTOUT (ucast c32) (BITS 19 10));
                w2 = ucast (0xdc00 OR SHIFTOUT (ucast c32) (BITS 9 0))
            in Some ((store w1, len), S\<lparr>m16_surrogate := w2\<rparr>, w) } })"

section \<open>UTF-8 code units\<close>

definition UTF8_ACCEPT :: byte where "UTF8_ACCEPT = 0"
definition UTF8_REJECT :: byte where "UTF8_REJECT = 96"

definition utf8_classtab :: "byte list" where
  "utf8_classtab = [
     0, 0, 0, 0, 0, 0, 0, 0, 0, 0, 0, 0, 0, 0, 0, 0, 0, 0, 0, 0, 0, 0, 0, 0, 0, 0, 0, 0, 0, 0, 0, 0,
     0, 0, 0, 0, 0, 0, 0, 0, 0, 0, 0, 0, 0, 0, 0, 0, 0, 0, 0, 0, 0, 0, 0, 0, 0, 0, 0, 0, 0, 0, 0, 0,
     0, 0, 0, 0, 0, 0, 0, 0, 0, 0, 0, 0, 0, 0, 0, 0, 0, 0, 0, 0, 0, 0, 0, 0, 0, 0, 0, 0, 0, 0, 0, 0,
     0, 0, 0, 0, 0, 0, 0, 0, 0, 0, 0, 0, 0, 0, 0, 0, 0, 0, 0, 0, 0, 0, 0, 0, 0, 0, 0, 0, 0, 0, 0, 0,
     8, 8, 8, 8, 8, 8, 8, 8, 8, 8, 8, 8, 8, 8, 8, 8, 9, 9, 9, 9, 9, 9, 9, 9, 9, 9, 9, 9, 9, 9, 9, 9,
     1, 1, 1, 1, 1, 1, 1, 1, 1, 1, 1, 1, 1, 1, 1, 1, 1, 1, 1, 1, 1, 1, 1, 1, 1, 1, 1, 1, 1, 1, 1, 1,
     10, 10, 2, 2, 2, 2, 2, 2, 2, 2, 2, 2, 2, 2, 2, 2, 2, 2, 2, 2, 2, 2, 2, 2, 2, 2, 2, 2, 2, 2, 2, 2,
     11, 3, 3, 3, 3, 3, 3, 3, 3, 3, 3, 3, 3, 4, 3, 3, 7, 6, 6, 6, 5, 10, 10, 10, 10, 10, 10, 10, 10, 10, 10, 10]"

definition utf8_statetab :: "byte list" where
  "utf8_statetab = [
     0, 96, 12, 36, 48, 84, 72, 60, 96, 96, 96, 24, 96, 0, 96, 96, 96, 96, 96, 96, 0, 0, 96, 96,
     96, 12, 96, 96, 96, 96, 96, 96, 96, 96, 96, 96, 96, 12, 96, 96, 96, 96, 96, 96, 12, 12, 96, 96,
     96, 96, 96, 96, 96, 96, 96, 96, 12, 12, 96, 96, 96, 36, 96, 96, 96, 96, 96, 96, 96, 36, 96, 96,
     96, 36, 96, 96, 96, 96, 96, 96, 36, 36, 96, 96, 96, 96, 96, 96, 96, 96, 96, 96, 36, 96, 96, 96,
     96, 96, 96, 96, 96, 96, 96, 96, 96, 96, 96, 96]"

definition utf8_decode_step :: "byte \<Rightarrow> byte \<Rightarrow> u32 \<Rightarrow> (byte \<times> u32) option" where
  "utf8_decode_step state c8 c32 = do {
     class' \<leftarrow> ld utf8_classtab (unat c8);
     state' \<leftarrow> ld utf8_statetab (unat state + unat class');
     Some (state', if state = UTF8_ACCEPT then ucast c8 AND drop_bit (unat class') 0xff else (ucast c8 AND 0x3f) OR push_bit 6 c32) }"

record c8rtombstate =
  state_c32 :: u32
  c8_mbs :: mbstate

definition c8rtomb_l :: "iconv \<Rightarrow> mb_world \<Rightarrow> mem \<Rightarrow> mem \<Rightarrow> ptr \<Rightarrow> byte \<Rightarrow> c8rtombstate \<Rightarrow> nat \<Rightarrow> ((mem \<times> u64) \<times> c8rtombstate \<times> mb_world) option" where
  "c8rtomb_l iconv w buf m s c8 S loc =
     (let c8 = (if s = NULL then 0 else c8);
          accept = (\<lambda>c32. do {
            ((m, r), mbs, w) \<leftarrow> c32rtomb_l iconv w buf m s c32 (c8_mbs S) loc;
            Some ((m, r), \<lparr>state_c32 = 0, c8_mbs = mbs\<rparr>, w) }) in
      if c8 = 0 then accept 0
      else do {
        let state = ucast (SHIFTOUT (ucast (state_c32 S)) (BITS 31 24));
        let c32 = ucast (SHIFTOUT (ucast (state_c32 S)) (BITS 23 0));
        (state, c32) \<leftarrow> utf8_decode_step state c8 c32;
        if state = UTF8_REJECT then Some ((m, - 1), S, fail_errno EILSEQ w)
        else if state = UTF8_ACCEPT then accept c32
        else Some ((m, 0), S\<lparr>state_c32 := ucast (SHIFTIN (ucast state) (BITS 31 24) OR SHIFTIN (ucast c32) (BITS 23 0))\<rparr>, w) })"

record mbrtoc8state =
  nleft :: byte
  m8_buf :: "byte list"
  m8_mbs :: mbstate

definition mbrtoc8_l :: "iconv \<Rightarrow> mb_world \<Rightarrow> mem \<Rightarrow> mem \<Rightarrow> bool \<Rightarrow> ptr \<Rightarrow> nat \<Rightarrow> mbrtoc8state \<Rightarrow> nat \<Rightarrow> ((byte option \<times> u64) \<times> mbrtoc8state \<times> mb_world) option" where
  "mbrtoc8_l iconv w mb m pc8 s n S loc =
     (let pc8 = (pc8 \<and> s \<noteq> NULL);
          (m, s, n) = (if s = NULL then ([0], Some 0, 1) else (m, s, n));
          store = (\<lambda>c. if pc8 then Some c else None) in
      if nleft S \<noteq> 0 then
        (if 3 < unat (nleft S) then None
         else do {
           c \<leftarrow> ld (m8_buf S) (3 - unat (nleft S));
           b \<leftarrow> st (m8_buf S) (3 - unat (nleft S)) 0;
           Some ((store c, - 3), S\<lparr>m8_buf := b, nleft := nleft S - 1\<rparr>, w) })
      else do {
        ((c32, len), mbs, w) \<leftarrow> mbrtoc32_l iconv w mb m s n (m8_mbs S) loc;
        let S = S\<lparr>m8_mbs := mbs\<rparr>;
        if len = 0 then Some ((store 0, 0), S, w)
        else if len = - 2 \<or> len = - 1 then Some ((None, len), S, w)
        else do {
          c32 \<leftarrow> c32;
          let c = (ucast c32 :: u64);
          let cont = (\<lambda>hi lo. ucast (0x80 OR SHIFTOUT c (BITS hi lo)) :: byte);
          if c32 \<le> 0x7f then Some ((store (ucast c32), len), S, w)
          else if c32 \<le> 0x7ff then
            Some ((store (ucast (0xc0 OR SHIFTOUT c (BITS 10 6))), len), S\<lparr>m8_buf := (m8_buf S)[2 := cont 5 0], nleft := 1\<rparr>, w)
          else if c32 \<le> 0xffff then
            Some ((store (ucast (0xe0 OR SHIFTOUT c (BITS 15 12))), len), S\<lparr>m8_buf := (m8_buf S)[1 := cont 11 6, 2 := cont 5 0], nleft := 2\<rparr>, w)
          else if c32 \<le> 0x10ffff then
            Some ((store (ucast (0xf0 OR SHIFTOUT c (BITS 20 18))), len), S\<lparr>m8_buf := (m8_buf S)[0 := cont 17 12, 1 := cont 11 6, 2 := cont 5 0], nleft := 3\<rparr>, w)
          else Some ((None, - 1), S, fail_errno EILSEQ w) } })"

section \<open>Bit fields\<close>

lemma unat_SHIFTOUT:
  assumes "BITS h l = push_bit l (mask k)" "LOWEST_SET_BIT (BITS h l) = 2 ^ l" "l < 64"
  shows "unat (SHIFTOUT x (BITS h l)) = unat x div 2 ^ l mod 2 ^ k"
proof -
  have "SHIFTOUT x (BITS h l) = drop_bit l (x AND push_bit l (mask k))"
    unfolding SHIFTOUT_def assms(2) unfolding assms(1) using assms(3) by (simp add: drop_bit_eq_div)
  also have "\<dots> = take_bit k (drop_bit l x)"
    using assms(3) by (intro bit_word_eqI) (auto simp: bit_simps dest: bit_imp_le_length)
  finally have e: "SHIFTOUT x (BITS h l) = take_bit k (drop_bit l x)" .
  show ?thesis unfolding e unsigned_take_bit_eq unat_drop_bit_eq by (simp add: take_bit_eq_mod drop_bit_eq_div)
qed

lemma BITS_mask:
  "BITS 9 0 = push_bit 0 (mask 10)"
  "BITS 19 10 = push_bit 10 (mask 10)"
  "BITS 31 24 = push_bit 24 (mask 8)"
  "BITS 23 0 = push_bit 0 (mask 24)"
  "BITS 10 6 = push_bit 6 (mask 5)"
  "BITS 5 0 = push_bit 0 (mask 6)"
  "BITS 15 12 = push_bit 12 (mask 4)"
  "BITS 11 6 = push_bit 6 (mask 6)"
  "BITS 20 18 = push_bit 18 (mask 3)"
  "BITS 17 12 = push_bit 12 (mask 6)"
  by code_simp+

lemma BITS_low:
  "LOWEST_SET_BIT (BITS 9 0) = 2 ^ 0"
  "LOWEST_SET_BIT (BITS 19 10) = 2 ^ 10"
  "LOWEST_SET_BIT (BITS 31 24) = 2 ^ 24"
  "LOWEST_SET_BIT (BITS 23 0) = 2 ^ 0"
  "LOWEST_SET_BIT (BITS 10 6) = 2 ^ 6"
  "LOWEST_SET_BIT (BITS 5 0) = 2 ^ 0"
  "LOWEST_SET_BIT (BITS 15 12) = 2 ^ 12"
  "LOWEST_SET_BIT (BITS 11 6) = 2 ^ 6"
  "LOWEST_SET_BIT (BITS 20 18) = 2 ^ 18"
  "LOWEST_SET_BIT (BITS 17 12) = 2 ^ 12"
  by code_simp+

lemmas SHIFTOUT_eqs =
  unat_SHIFTOUT [OF BITS_mask(1) BITS_low(1)]
  unat_SHIFTOUT [OF BITS_mask(2) BITS_low(2)]
  unat_SHIFTOUT [OF BITS_mask(3) BITS_low(3)]
  unat_SHIFTOUT [OF BITS_mask(4) BITS_low(4)]
  unat_SHIFTOUT [OF BITS_mask(5) BITS_low(5)]
  unat_SHIFTOUT [OF BITS_mask(6) BITS_low(6)]
  unat_SHIFTOUT [OF BITS_mask(7) BITS_low(7)]
  unat_SHIFTOUT [OF BITS_mask(8) BITS_low(8)]
  unat_SHIFTOUT [OF BITS_mask(9) BITS_low(9)]
  unat_SHIFTOUT [OF BITS_mask(10) BITS_low(10)]

lemma fields:
  "unat (SHIFTOUT x (BITS 9 0)) = unat x mod 0x400"
  "unat (SHIFTOUT x (BITS 19 10)) = unat x div 0x400 mod 0x400"
  "unat (SHIFTOUT x (BITS 31 24)) = unat x div 0x1000000 mod 0x100"
  "unat (SHIFTOUT x (BITS 23 0)) = unat x mod 0x1000000"
  "unat (SHIFTOUT x (BITS 10 6)) = unat x div 0x40 mod 0x20"
  "unat (SHIFTOUT x (BITS 5 0)) = unat x mod 0x40"
  "unat (SHIFTOUT x (BITS 15 12)) = unat x div 0x1000 mod 0x10"
  "unat (SHIFTOUT x (BITS 11 6)) = unat x div 0x40 mod 0x40"
  "unat (SHIFTOUT x (BITS 20 18)) = unat x div 0x40000 mod 8"
  "unat (SHIFTOUT x (BITS 17 12)) = unat x div 0x1000 mod 0x40"
  by (simp_all add: SHIFTOUT_eqs)

lemma SHIFTIN_fields: "SHIFTIN x (BITS 19 10) = x * 0x400" "SHIFTIN x (BITS 9 0) = x" "SHIFTIN x (BITS 31 24) = x * 0x1000000" "SHIFTIN x (BITS 23 0) = x"
proof -
  have "LOWEST_SET_BIT (BITS 19 10) = 0x400" "LOWEST_SET_BIT (BITS 9 0) = 1" "LOWEST_SET_BIT (BITS 31 24) = 0x1000000" "LOWEST_SET_BIT (BITS 23 0) = 1" by code_simp+
  then show "SHIFTIN x (BITS 19 10) = x * 0x400" "SHIFTIN x (BITS 9 0) = x" "SHIFTIN x (BITS 31 24) = x * 0x1000000" "SHIFTIN x (BITS 23 0) = x"
    by (simp_all add: SHIFTIN_def)
qed

lemma unat_shift_or:
  fixes a b :: u64
  assumes "unat b < 2 ^ k" "unat a * 2 ^ k + unat b < 2 ^ 64"
  shows "unat (a * 2 ^ k OR b) = unat a * 2 ^ k + unat b"
proof -
  have "unat (take_bit k b) = unat b" unfolding unsigned_take_bit_eq using assms(1) by (rule take_bit_nat_eq_self)
  then have b: "take_bit k b = b" by (simp add: word_unat_eq_iff)
  have lb: "bit b n \<Longrightarrow> n < k" for n using arg_cong [OF b, of "\<lambda>x. bit x n"] by (auto simp: bit_simps)
  have "push_bit k a AND b = 0" by (intro bit_word_eqI) (auto simp: bit_simps dest: lb)
  then have "a * 2 ^ k OR b = a * 2 ^ k + b" by (simp add: disjunctive_add_eq_or push_bit_eq_mult)
  moreover have "unat (push_bit k a) = unat a * 2 ^ k" unfolding unat_push_bit using assms(2) by simp
  then have "unat (a * 2 ^ k) = unat a * 2 ^ k" by (simp add: push_bit_eq_mult)
  ultimately show ?thesis using assms(2) by (simp add: unat_word_ariths)
qed

lemma unat_tag:
  assumes "unat x < 2 ^ k" "k < 58" "word_of_nat t * 2 ^ k = y" "t < 64"
  shows "unat (y OR x :: u64) = t * 2 ^ k + unat x"
proof -
  have t: "unat (word_of_nat t :: u64) = t" using assms(4) by (simp add: unat_of_nat)
  have "(t + 1) * 2 ^ k \<le> 64 * (2 :: nat) ^ 57" using assms(2,4) by (intro mult_le_mono power_increasing) auto
  then have "t * 2 ^ k + unat x < 2 ^ 64" using assms(1) by simp
  then show ?thesis using unat_shift_or [OF assms(1), of "word_of_nat t"] unfolding assms(3) t by simp
qed

section \<open>One character in a UTF-8 locale\<close>

definition mb_initial :: "mbstate \<Rightarrow> bool" where
  "mb_initial ps \<longleftrightarrow> holds (rs_private ps) []"

lemma zero_initial [simp]: "mb_initial zero_mbstate"
  by (simp add: mb_initial_def zero_mbstate_def holds_def UTF8_zero_state_def)

lemma fixed_up_initial: "mb_initial s \<Longrightarrow> mb_initial (fixed_up rl s b)"
  by (simp add: mb_initial_def fixed_up_def holds_def init_state_def)

lemma scalar_unat: "scalar v \<Longrightarrow> unat (word_of_nat v :: u32) = v"
  by (simp add: scalar_def unat_of_nat)

lemma mbrtowc_l_char:
  assumes "mb_initial ps" "scalar v" "bytes_at m q (utf8 v)" "length (utf8 v) \<le> n"
  shows "\<exists>ps'. mbrtowc_l w m [x] (Some 0) (Some q) n (Some ps) loc =
    Some (([word_of_nat v], if v = 0 then 0 else of_nat (length (utf8 v))), Some ps', w) \<and> mb_initial ps'"
proof -
  define s where "s = fixed_up loc ps False"
  obtain l where l: "rs_runelocale s = Some l" using fixed_up_locale s_def by blast
  have h: "holds (rs_private s) []" using fixed_up_initial [OF assms(1)] by (simp add: s_def mb_initial_def)
  have v: "unat (word_of_nat v :: u32) = v" using scalar_unat [OF assms(2)] .
  then have z: "(word_of_nat v :: u32) = 0 \<longleftrightarrow> v = 0" by (metis unat_0 unat_eq_zero)
  obtain p where "mbrtowc_priv m (Some q) n (rs_private s) = Some (OK, Some (word_of_nat v), if v = 0 then 0 else of_nat (length (utf8 v)), Some (q + length (utf8 v)), p)" "holds p []"
    using utf8_decode [OF h, of "word_of_nat v" m q n] assms(2-4) v z by (auto simp: wide_code_def)
  then show ?thesis
    by (simp add: mbrtowc_l_def restartable_def fixup_ps_eq s_def [symmetric] ps_to_ctype_def l ctype_mbrtowc_def RESTART_def put_wc_def set_errno_def
        UTF8_pack_state_def UTF8_unpack_state_def mb_initial_def)
qed

lemma wcrtomb_l_char:
  assumes "mb_initial ps" "scalar v" "s + UTF8_MB_CUR_MAX \<le> length m"
  shows "\<exists>ps'. wcrtomb_l w buf m (Some s) (word_of_nat v) (Some ps) loc = Some ((wr m s (utf8 v), of_nat (length (utf8 v))), Some ps', w) \<and> mb_initial ps'"
proof -
  define t where "t = fixed_up loc ps False"
  obtain l where l: "rs_runelocale t = Some l" using fixed_up_locale t_def by blast
  have h: "holds (rs_private t) []" using fixed_up_initial [OF assms(1)] by (simp add: t_def mb_initial_def)
  have "length (utf8 v) \<le> UTF8_MB_CUR_MAX" by (simp add: utf8_def utf8_units_def UTF8_MB_CUR_MAX_def)
  then have "wcrtomb_priv m (Some s) UTF8_MB_CUR_MAX (word_of_nat v) = Some (OK, of_nat (length (utf8 v)), wr m s (utf8 v))"
    using wcrtomb_ok [OF assms(3), of "word_of_nat v"] assms(2) by (simp add: scalar_unat)
  then show ?thesis using h
    by (simp add: wcrtomb_l_def restartable_def fixup_ps_eq t_def [symmetric] ps_to_ctype_def l ctype_wcrtomb_def RESTART_def UTF8_wcrtomb_def set_errno_def
        UTF8_pack_state_def UTF8_unpack_state_def mb_initial_def)
qed

text \<open>What is required of the conversions between the encoding of the locale and UTF-32LE.\<close>

definition utf32_conversions :: "(byte list \<Rightarrow> nat \<Rightarrow> mb_err + byte list) \<Rightarrow> (byte list \<Rightarrow> nat \<Rightarrow> mb_err + byte list) \<Rightarrow> bool" where
  "utf32_conversions to32 from32 \<longleftrightarrow> (\<forall>v. scalar v \<longrightarrow>
     to32 (utf8 v) MB_LEN_MAX = Inr (le32enc (word_of_nat v)) \<and> from32 (le32enc (word_of_nat v)) UTF8_MB_CUR_MAX = Inr (utf8 v))"

lemma bit_le16dec: "bit (le16dec (a # b # r)) n \<longleftrightarrow> (if n < 8 then bit a n else n < 16 \<and> bit b (n - 8))"
  by (auto simp: le16dec_def bit_simps dest: bit_imp_le_length)

lemma bit_octet: "bit (ucast (drop_bit k u AND 0xff :: u32) :: byte) n \<longleftrightarrow> n < 8 \<and> bit u (k + n)"
proof -
  have m: "(0xff :: u32) = mask 8" by (simp add: mask_eq_exp_minus_1)
  show ?thesis unfolding m by (auto simp: bit_simps dest: bit_imp_le_length)
qed

lemma le32_round_trip: "le32dec (le32enc c) = Some c"
proof -
  define a where "a k = (ucast (drop_bit k c AND 0xff) :: byte)" for k
  have e: "le32enc c = [a 0, a 8, a 16, a 24]" by (simp add: le32enc_def a_def)
  have a: "bit (a k) n \<longleftrightarrow> n < 8 \<and> bit c (k + n)" for k n unfolding a_def by (rule bit_octet)
  have "bit (ucast (le16dec (le32enc c)) OR push_bit 16 (ucast (le16dec (drop 2 (le32enc c)))) :: u32) n \<longleftrightarrow> bit c n" if "n < 32" for n
  proof -
    consider "n < 8" | "8 \<le> n \<and> n < 16" | "16 \<le> n \<and> n < 24" | "24 \<le> n" by linarith
    then show ?thesis using that by cases (auto simp: e bit_or_iff bit_push_bit_iff bit_unsigned_iff bit_le16dec a)
  qed
  then have "ucast (le16dec (le32enc c)) OR push_bit 16 (ucast (le16dec (drop 2 (le32enc c)))) = c" by (intro bit_word_eqI) simp
  then show ?thesis by (simp add: le32dec_def le32enc_def)
qed

lemma surrogate_iff: "scalar v \<Longrightarrow> \<not> (0xd800 \<le> (word_of_nat v :: u32) \<and> (word_of_nat v :: u32) \<le> 0xdfff)"
  using scalar_unat [of v] by (auto simp: word_le_nat_alt scalar_def)

lemma mbrtoc32_l_char:
  assumes "utf32_conversions to32 from32" "mb_initial ps" "scalar v" "bytes_at m q (utf8 v)" "length (utf8 v) \<le> n" "UTF8_MB_CUR_MAX \<le> length mb"
  shows "\<exists>ps'. mbrtoc32_l (Some to32) w mb m (Some q) n ps loc = Some ((Some (word_of_nat v), if v = 0 then 0 else of_nat (length (utf8 v))), ps', w) \<and> mb_initial ps'"
proof -
  obtain ps1 where 1: "mbrtowc_l w m [0] (Some 0) (Some q) n (Some ps) loc = Some (([word_of_nat v], if v = 0 then 0 else of_nat (length (utf8 v))), Some ps1, w)" "mb_initial ps1"
    using mbrtowc_l_char [OF assms(2-5), of w 0 loc] by blast
  obtain ps2 where 2: "wcrtomb_l w [] mb (Some 0) (word_of_nat v) (Some zero_mbstate) loc = Some ((wr mb 0 (utf8 v), of_nat (length (utf8 v))), Some ps2, w)"
    using wcrtomb_l_char [OF zero_initial assms(3), of 0 mb w "[]" loc] assms(6) by auto
  note siz = utf8_codec.code_siz [of "word_of_nat v", unfolded wide_code_def scalar_unat [OF assms(3)], OF assms(3)]
  have "take (length (utf8 v)) (wr mb 0 (utf8 v)) = utf8 v"
    using assms(6) by (subst wr_conv) (simp_all add: utf8_def utf8_units_def UTF8_MB_CUR_MAX_def)
  moreover have "to32 (utf8 v) MB_LEN_MAX = Inr (le32enc (word_of_nat v))" using assms(1,3) by (simp add: utf32_conversions_def)
  moreover have "(word_of_nat v :: u32) = 0 \<longleftrightarrow> v = 0" using scalar_unat [OF assms(3)] by (metis unat_0 unat_eq_zero)
  moreover have "n \<noteq> 0" using assms(5) utf8_codec.code_short [of "word_of_nat v"] assms(3) by (cases n) (auto simp: wide_code_def scalar_unat)
  ultimately show ?thesis using 1 2 siz surrogate_iff [OF assms(3)] le32_round_trip
    by (auto simp: mbrtoc32_l_def Let_def)
qed

lemma c32rtomb_l_char:
  assumes "utf32_conversions to32 from32" "mb_initial ps" "scalar v" "s + UTF8_MB_CUR_MAX \<le> length m" "UTF8_MB_CUR_MAX \<le> length buf"
  shows "\<exists>ps'. c32rtomb_l (Some from32) w buf m (Some s) (word_of_nat v) ps loc = Some ((wr m s (utf8 v), of_nat (length (utf8 v))), ps', w) \<and> mb_initial ps'"
proof -
  have l: "0 < length (utf8 v)" "length (utf8 v) \<le> UTF8_MB_CUR_MAX" by (simp_all add: utf8_def utf8_units_def UTF8_MB_CUR_MAX_def)
  have c: "copy_out buf 0 (utf8 v) = Some (wr buf 0 (utf8 v))" using copy_out_wr [of 0 "utf8 v" buf] l(2) assms(5) by simp
  have b: "bytes_at (wr buf 0 (utf8 v)) 0 (utf8 v)" using l(2) assms(5) by (intro bytes_at_wr) simp
  obtain ps1 where 1: "mbrtowc_l w (wr buf 0 (utf8 v)) [0] (Some 0) (Some 0) (length (utf8 v)) (Some zero_mbstate) loc =
      Some (([word_of_nat v], if v = 0 then 0 else of_nat (length (utf8 v))), Some ps1, w)"
    using mbrtowc_l_char [OF zero_initial assms(3) b, of "length (utf8 v)" w 0 loc] by auto
  obtain ps2 where 2: "wcrtomb_l w [] m (Some s) (word_of_nat v) (Some ps) loc = Some ((wr m s (utf8 v), of_nat (length (utf8 v))), Some ps2, w)" "mb_initial ps2"
    using wcrtomb_l_char [OF assms(2,3,4), of w "[]" loc] by blast
  note siz = utf8_codec.code_siz [of "word_of_nat v", unfolded wide_code_def scalar_unat [OF assms(3)], OF assms(3)]
  have f: "from32 (le32enc (word_of_nat v)) UTF8_MB_CUR_MAX = Inr (utf8 v)" using assms(1,3) by (simp add: utf32_conversions_def)
  show ?thesis
  proof (cases "v = 0")
    case True
    then show ?thesis using 1 2 siz f c l by (simp add: c32rtomb_l_def Let_def)
  next
    case False
    then show ?thesis using 1 2 siz f c l surrogate_iff [OF assms(3)] by (auto simp: c32rtomb_l_def Let_def)
  qed
qed

section \<open>Texts in code units\<close>

text \<open>
  Feeding the code units of a text to one of the \<open>rtomb\<close> functions, and asking one of the \<open>mbrto\<close> functions for \<open>k\<close> code units; a result of \<open>- 3\<close> consumes nothing, and \<open>0\<close> the NUL.
\<close>

fun put_units :: "(mem \<Rightarrow> nat \<Rightarrow> 'u \<Rightarrow> 's \<Rightarrow> mb_world \<Rightarrow> ((mem \<times> u64) \<times> 's \<times> mb_world) option) \<Rightarrow> mem \<Rightarrow> nat \<Rightarrow> 'u list \<Rightarrow> 's \<Rightarrow> mb_world \<Rightarrow>
    (mem \<times> nat \<times> 's \<times> mb_world) option" where
  "put_units f m d [] S w = Some (m, d, S, w)"
| "put_units f m d (u # us) S w = do { ((m, r), S, w) \<leftarrow> f m d u S w; if r = - 1 then None else put_units f m (d + unat r) us S w }"

fun get_units :: "(nat \<Rightarrow> 's \<Rightarrow> mb_world \<Rightarrow> (('u option \<times> u64) \<times> 's \<times> mb_world) option) \<Rightarrow> nat \<Rightarrow> nat \<Rightarrow> 's \<Rightarrow> mb_world \<Rightarrow>
    ('u list \<times> nat \<times> 's \<times> mb_world) option" where
  "get_units f 0 q S w = Some ([], q, S, w)"
| "get_units f (Suc k) q S w = do {
     ((u, r), S, w) \<leftarrow> f q S w;
     u \<leftarrow> u;
     (us, q, S, w) \<leftarrow> get_units f k (q + (if r = - 3 then 0 else if r = 0 then 1 else unat r)) S w;
     Some (u # us, q, S, w) }"

lemma put_units_append:
  "put_units f m d (xs @ ys) S w = do { (m, d, S, w) \<leftarrow> put_units f m d xs S w; put_units f m d ys S w }"
  by (induction f m d xs S w rule: put_units.induct) (auto split: bind_splits)

lemma get_units_add:
  "get_units f (i + j) q S w = do { (xs, q, S, w) \<leftarrow> get_units f i q S w; (ys, q, S, w) \<leftarrow> get_units f j q S w; Some (xs @ ys, q, S, w) }"
proof (induction i arbitrary: q S w)
  case 0
  show ?case by (cases "get_units f j q S w") auto
next
  case (Suc i)
  then show ?case by (auto split: bind_splits prod.splits)
qed

text \<open>The contract of a pair of functions for one encoding form, \<open>units\<close>: each character is written and read in its code units, and the states are initial between characters.\<close>

locale unit_codec =
  fixes ready :: bool and put :: "mem \<Rightarrow> nat \<Rightarrow> 'u \<Rightarrow> 's \<Rightarrow> mb_world \<Rightarrow> ((mem \<times> u64) \<times> 's \<times> mb_world) option"
    and get :: "mem \<Rightarrow> nat \<Rightarrow> nat \<Rightarrow> 't \<Rightarrow> mb_world \<Rightarrow> (('u option \<times> u64) \<times> 't \<times> mb_world) option"
    and units :: "nat \<Rightarrow> 'u list" and pinit :: "'s \<Rightarrow> bool" and ginit :: "'t \<Rightarrow> bool"
  assumes put_char: "ready \<Longrightarrow> pinit S \<Longrightarrow> scalar v \<Longrightarrow> d + UTF8_MB_CUR_MAX \<le> length m \<Longrightarrow>
      \<exists>S'. put_units put m d (units v) S w = Some (wr m d (utf8 v), d + length (utf8 v), S', w) \<and> pinit S'"
    and get_char: "ready \<Longrightarrow> ginit T \<Longrightarrow> scalar v \<Longrightarrow> bytes_at m q (utf8 v) \<Longrightarrow> q + length (utf8 v) \<le> e \<Longrightarrow>
      \<exists>T'. get_units (get m e) (length (units v)) q T w = Some (units v, q + length (utf8 v), T', w) \<and> ginit T'"
begin

lemma put_text:
  "ready \<Longrightarrow> pinit S \<Longrightarrow> list_all scalar vs \<Longrightarrow> d + length (concat (map utf8 vs)) + UTF8_MB_CUR_MAX \<le> length m \<Longrightarrow>
   \<exists>S'. put_units put m d (concat (map units vs)) S w = Some (wr m d (concat (map utf8 vs)), d + length (concat (map utf8 vs)), S', w) \<and> pinit S'"
proof (induction vs arbitrary: m d S)
  case (Cons v vs)
  then have "scalar v" "d + UTF8_MB_CUR_MAX \<le> length m" by auto
  then obtain S1 where 1: "put_units put m d (units v) S w = Some (wr m d (utf8 v), d + length (utf8 v), S1, w)" "pinit S1"
    using put_char [OF Cons.prems(1,2)] by blast
  obtain S2 where 2: "put_units put (wr m d (utf8 v)) (d + length (utf8 v)) (concat (map units vs)) S1 w =
      Some (wr (wr m d (utf8 v)) (d + length (utf8 v)) (concat (map utf8 vs)), d + length (utf8 v) + length (concat (map utf8 vs)), S2, w)" "pinit S2"
    using Cons.IH [OF Cons.prems(1) 1(2), of "d + length (utf8 v)" "wr m d (utf8 v)"] Cons.prems(3,4) by auto
  then show ?case using 1(1) by (simp add: put_units_append wr_append add.assoc)
qed simp

lemma get_text:
  "ready \<Longrightarrow> ginit T \<Longrightarrow> list_all scalar vs \<Longrightarrow> bytes_at m q (concat (map utf8 vs)) \<Longrightarrow> q + length (concat (map utf8 vs)) \<le> e \<Longrightarrow>
   \<exists>T'. get_units (get m e) (length (concat (map units vs))) q T w = Some (concat (map units vs), q + length (concat (map utf8 vs)), T', w) \<and> ginit T'"
proof (induction vs arbitrary: q T)
  case (Cons v vs)
  then have v: "scalar v" "bytes_at m q (utf8 v)" "bytes_at m (q + length (utf8 v)) (concat (map utf8 vs))" "q + length (utf8 v) \<le> e"
    by (auto simp: bytes_at_append)
  obtain T1 where 1: "get_units (get m e) (length (units v)) q T w = Some (units v, q + length (utf8 v), T1, w)" "ginit T1"
    using get_char [OF Cons.prems(1,2) v(1,2,4)] by blast
  obtain T2 where "get_units (get m e) (length (concat (map units vs))) (q + length (utf8 v)) T1 w =
      Some (concat (map units vs), q + length (utf8 v) + length (concat (map utf8 vs)), T2, w)" "ginit T2"
    using Cons.IH [OF Cons.prems(1) 1(2) _ v(3)] Cons.prems(3,5) by (auto simp: add.assoc)
  then show ?case using 1(1) by (simp add: get_units_add add.assoc)
qed simp

lemma text_round_trip:
  assumes "ready" "pinit S" "ginit T" "list_all scalar vs" "d + length (concat (map utf8 vs)) + UTF8_MB_CUR_MAX \<le> length m"
  shows "\<exists>m' S' T'. put_units put m d (concat (map units vs)) S w = Some (m', d + length (concat (map utf8 vs)), S', w) \<and>
    m' = wr m d (concat (map utf8 vs)) \<and>
    get_units (get m' (d + length (concat (map utf8 vs)))) (length (concat (map units vs))) d T w =
      Some (concat (map units vs), d + length (concat (map utf8 vs)), T', w)"
proof -
  have "bytes_at (wr m d (concat (map utf8 vs))) d (concat (map utf8 vs))" using assms(5) by (intro bytes_at_wr) simp
  then show ?thesis using put_text [OF assms(1,2,4,5), of w] get_text [OF assms(1,3,4)] by (metis order_refl)
qed

end

section \<open>UTF-16\<close>

definition utf16 :: "nat \<Rightarrow> u16 list" where
  "utf16 v = (if v < 0x10000 then [word_of_nat v]
     else [word_of_nat (0xd800 + (v - 0x10000) div 0x400), word_of_nat (0xdc00 + (v - 0x10000) mod 0x400)])"

definition c16_initial :: "c16rtombstate \<Rightarrow> bool" where
  "c16_initial S \<longleftrightarrow> c16_surrogate S = 0 \<and> mb_initial (c16_mbs S)"

definition m16_initial :: "mbrtoc16state \<Rightarrow> bool" where
  "m16_initial S \<longleftrightarrow> m16_surrogate S = 0 \<and> mb_initial (m16_mbs S)"

lemma unat_of_nat_word: "word_of_nat (unat w) = w"
  by simp

lemma c16_bmp:
  assumes "utf32_conversions to32 from32" "c16_initial S" "scalar v" "v < 0x10000" "d + UTF8_MB_CUR_MAX \<le> length m" "UTF8_MB_CUR_MAX \<le> length buf"
  shows "\<exists>S'. c16rtomb_l (Some from32) w buf m (Some d) (word_of_nat v) S loc = Some ((wr m d (utf8 v), of_nat (length (utf8 v))), S', w) \<and> c16_initial S'"
proof -
  define c where "c = (word_of_nat v :: u16)"
  have u: "unat c = v" using assms(4) by (simp add: c_def unat_of_nat)
  then have "unat (ucast c :: u32) = v" by (simp add: unat_ucast_up)
  then have e: "(ucast c :: u32) = word_of_nat v" by (metis unat_of_nat_word)
  have z: "c = 0 \<longleftrightarrow> v = 0" using u by (metis unat_0 unat_eq_zero)
  have n: "\<not> (0xd800 \<le> c \<and> c \<le> 0xdbff)" "\<not> (0xdc00 \<le> c \<and> c \<le> 0xdfff)" using assms(3) u by (auto simp: word_le_nat_alt scalar_def)
  obtain ps where "c32rtomb_l (Some from32) w buf m (Some d) (word_of_nat v) (c16_mbs S) loc = Some ((wr m d (utf8 v), of_nat (length (utf8 v))), ps, w)" "mb_initial ps"
    using c32rtomb_l_char [OF assms(1) _ assms(3,5,6)] assms(2) unfolding c16_initial_def by blast
  then show ?thesis unfolding c_def [symmetric] using assms(2) z n e by (cases "v = 0") (auto simp: c16rtomb_l_def c16_initial_def Let_def)
qed

lemma pair_units:
  assumes "0x10000 \<le> v" "scalar v"
  defines "h \<equiv> word_of_nat (0xd800 + (v - 0x10000) div 0x400) :: u16" and "l \<equiv> word_of_nat (0xdc00 + (v - 0x10000) mod 0x400) :: u16"
  shows "unat h = 0xd800 + (v - 0x10000) div 0x400" "unat l = 0xdc00 + (v - 0x10000) mod 0x400" "(v - 0x10000) div 0x400 < 0x400"
proof -
  show d: "(v - 0x10000) div 0x400 < 0x400" using assms(2) by (intro less_mult_imp_div_less) (auto simp: scalar_def)
  show "unat h = 0xd800 + (v - 0x10000) div 0x400" unfolding h_def unat_of_nat using d by simp
  have "(v - 0x10000) mod 0x400 < 0x400" by simp
  then show "unat l = 0xdc00 + (v - 0x10000) mod 0x400" unfolding l_def unat_of_nat by simp
qed

lemma pair_combine:
  assumes "0x10000 \<le> v" "scalar v"
  defines "h \<equiv> word_of_nat (0xd800 + (v - 0x10000) div 0x400) :: u16" and "l \<equiv> word_of_nat (0xdc00 + (v - 0x10000) mod 0x400) :: u16"
  shows "(ucast (SHIFTIN (SHIFTOUT (ucast h) (BITS 9 0)) (BITS 19 10) OR SHIFTIN (SHIFTOUT (ucast l) (BITS 9 0)) (BITS 9 0)) :: u32) + 0x10000 = word_of_nat v"
proof -
  note hl = pair_units [OF assms(1,2), folded h_def l_def]
  define a where "a = SHIFTOUT (ucast h) (BITS 9 0)"
  define b where "b = SHIFTOUT (ucast l) (BITS 9 0)"
  have a: "unat a = (v - 0x10000) div 0x400" unfolding a_def fields using hl by (simp add: unat_ucast_up mod_add_left_eq [symmetric])
  have b: "unat b = (v - 0x10000) mod 0x400" unfolding b_def fields using hl by (simp add: unat_ucast_up mod_add_left_eq [symmetric])
  have u: "unat (a * 0x400 OR b) = v - 0x10000" using unat_shift_or [of b 10 a] a b assms(2) hl(3) by (simp add: scalar_def)
  have "unat (ucast (a * 0x400 OR b) :: u32) = v - 0x10000" unfolding unsigned_ucast_eq u using assms(2) by (intro take_bit_nat_eq_self) (auto simp: scalar_def)
  then have "unat ((ucast (a * 0x400 OR b) :: u32) + 0x10000) = v" using assms(1,2) by (simp add: unat_word_ariths scalar_def)
  then show ?thesis unfolding a_def [symmetric] b_def [symmetric] SHIFTIN_fields by (metis unat_of_nat_word)
qed

lemma c16_pair:
  assumes "utf32_conversions to32 from32" "c16_initial S" "scalar v" "0x10000 \<le> v" "d + UTF8_MB_CUR_MAX \<le> length m" "UTF8_MB_CUR_MAX \<le> length buf"
  defines "h \<equiv> word_of_nat (0xd800 + (v - 0x10000) div 0x400) :: u16" and "l \<equiv> word_of_nat (0xdc00 + (v - 0x10000) mod 0x400) :: u16"
  shows "\<exists>S1 S'. c16rtomb_l (Some from32) w buf m (Some d) h S loc = Some ((m, 0), S1, w) \<and>
    c16rtomb_l (Some from32) w buf m (Some d) l S1 loc = Some ((wr m d (utf8 v), of_nat (length (utf8 v))), S', w) \<and> c16_initial S'"
proof -
  note hl = pair_units [OF assms(4,3), folded h_def l_def]
  have h: "h \<noteq> 0" "0xd800 \<le> h" "h \<le> 0xdbff" using hl by (auto simp: word_le_nat_alt)
  have "(v - 0x10000) mod 0x400 < 0x400" by simp
  then have l: "l \<noteq> 0" "0xdc00 \<le> l" "l \<le> 0xdfff" using hl by (auto simp: word_le_nat_alt)
  have 1: "c16rtomb_l (Some from32) w buf m (Some d) h S loc = Some ((m, 0), S\<lparr>c16_surrogate := h\<rparr>, w)"
    using h assms(2) by (simp add: c16rtomb_l_def c16_initial_def Let_def)
  obtain ps where ps: "c32rtomb_l (Some from32) w buf m (Some d) (word_of_nat v) (c16_mbs S) loc = Some ((wr m d (utf8 v), of_nat (length (utf8 v))), ps, w)" "mb_initial ps"
    using c32rtomb_l_char [OF assms(1) _ assms(3,5,6)] assms(2) unfolding c16_initial_def by blast
  have "c16rtomb_l (Some from32) w buf m (Some d) l (S\<lparr>c16_surrogate := h\<rparr>) loc =
      Some ((wr m d (utf8 v), of_nat (length (utf8 v))), S\<lparr>c16_surrogate := 0, c16_mbs := ps\<rparr>, w)"
    using h l(1) l(2,3) [THEN leD] ps(1) pair_combine [OF assms(4,3), folded h_def l_def] by (simp add: c16rtomb_l_def Let_def)
  then show ?thesis using 1 ps(2) by (auto simp: c16_initial_def)
qed

lemma utf8_length_small: "length (utf8 v) \<le> 4" "0 < length (utf8 v)"
  by (simp_all add: utf8_def utf8_units_def)

lemma utf8_sizes:
  "unat (of_nat (length (utf8 v)) :: u64) = length (utf8 v)" "(of_nat (length (utf8 v)) :: u64) \<noteq> - 1" "(of_nat (length (utf8 v)) :: u64) \<noteq> - 2"
  "(of_nat (length (utf8 v)) :: u64) \<noteq> - 3" "(of_nat (length (utf8 v)) :: u64) \<noteq> 0"
proof -
  have "length (utf8 v) = 1 \<or> length (utf8 v) = 2 \<or> length (utf8 v) = 3 \<or> length (utf8 v) = 4" using utf8_length_small [of v] by presburger
  then show "unat (of_nat (length (utf8 v)) :: u64) = length (utf8 v)" "(of_nat (length (utf8 v)) :: u64) \<noteq> - 1" "(of_nat (length (utf8 v)) :: u64) \<noteq> - 2"
    "(of_nat (length (utf8 v)) :: u64) \<noteq> - 3" "(of_nat (length (utf8 v)) :: u64) \<noteq> 0" by auto
qed

lemma c16_put_char:
  assumes "utf32_conversions to32 from32" "c16_initial S" "scalar v" "d + UTF8_MB_CUR_MAX \<le> length m" "UTF8_MB_CUR_MAX \<le> length buf"
  shows "\<exists>S'. put_units (\<lambda>m d c S w. c16rtomb_l (Some from32) w buf m (Some d) c S loc) m d (utf16 v) S w = Some (wr m d (utf8 v), d + length (utf8 v), S', w) \<and> c16_initial S'"
proof (cases "v < 0x10000")
  case True
  then show ?thesis using c16_bmp [OF assms(1-3) True assms(4,5), of w loc] utf8_sizes [of v] by (auto simp: utf16_def)
next
  case False
  then have "0x10000 \<le> v" by simp
  from c16_pair [OF assms(1-3) this assms(4,5), of w loc] show ?thesis using False utf8_sizes [of v] by (auto simp: utf16_def)
qed

lemma m16_bmp:
  assumes "utf32_conversions to32 from32" "m16_initial S" "scalar v" "v < 0x10000" "bytes_at m q (utf8 v)" "length (utf8 v) \<le> n" "UTF8_MB_CUR_MAX \<le> length mb"
  shows "\<exists>S'. mbrtoc16_l (Some to32) w mb m True (Some q) n S loc = Some ((Some (word_of_nat v), if v = 0 then 0 else of_nat (length (utf8 v))), S', w) \<and> m16_initial S'"
proof -
  obtain ps where ps: "mbrtoc32_l (Some to32) w mb m (Some q) n (m16_mbs S) loc = Some ((Some (word_of_nat v), if v = 0 then 0 else of_nat (length (utf8 v))), ps, w)" "mb_initial ps"
    using mbrtoc32_l_char [OF assms(1) _ assms(3,5,6,7)] assms(2) unfolding m16_initial_def by blast
  have u: "unat (word_of_nat v :: u32) = v" by (rule scalar_unat [OF assms(3)])
  then have "(word_of_nat v :: u32) \<le> 0xffff" using assms(4) by (simp add: word_le_nat_alt)
  moreover have "(ucast (word_of_nat v :: u32) :: u16) = word_of_nat v"
    using assms(4) u by (simp add: word_unat_eq_iff unsigned_ucast_eq unat_of_nat take_bit_eq_mod)
  ultimately show ?thesis using ps assms(2) utf8_sizes [of v] by (auto simp: mbrtoc16_l_def m16_initial_def Let_def)
qed

lemma m16_pair:
  assumes "utf32_conversions to32 from32" "m16_initial S" "scalar v" "0x10000 \<le> v" "bytes_at m q (utf8 v)" "length (utf8 v) \<le> n" "UTF8_MB_CUR_MAX \<le> length mb"
  defines "h \<equiv> word_of_nat (0xd800 + (v - 0x10000) div 0x400) :: u16" and "l \<equiv> word_of_nat (0xdc00 + (v - 0x10000) mod 0x400) :: u16"
  shows "\<exists>S1 S'. mbrtoc16_l (Some to32) w mb m True (Some q) n S loc = Some ((Some h, of_nat (length (utf8 v))), S1, w) \<and>
    mbrtoc16_l (Some to32) w mb m True (Some q') n' S1 loc = Some ((Some l, - 3), S', w) \<and> m16_initial S'"
proof -
  note hl = pair_units [OF assms(4,3), folded h_def l_def]
  obtain ps where ps: "mbrtoc32_l (Some to32) w mb m (Some q) n (m16_mbs S) loc = Some ((Some (word_of_nat v), of_nat (length (utf8 v))), ps, w)" "mb_initial ps"
    using mbrtoc32_l_char [OF assms(1) _ assms(3,5,6,7), of "m16_mbs S" w loc] assms(2,4) unfolding m16_initial_def by auto
  define c where "c = (word_of_nat v :: u32) - 0x10000"
  have u: "unat (word_of_nat v :: u32) = v" by (rule scalar_unat [OF assms(3)])
  have big: "\<not> (word_of_nat v :: u32) \<le> 0xffff" using assms(4) u by (simp add: word_le_nat_alt)
  have c: "unat (ucast c :: u64) = v - 0x10000" using u assms(4) by (simp add: c_def unat_ucast_up unat_sub word_le_nat_alt)
  have w1: "ucast (0xd800 OR SHIFTOUT (ucast c) (BITS 19 10)) = h"
    unfolding word_unat_eq_iff using unat_tag [of "SHIFTOUT (ucast c) (BITS 19 10)" 10 54] hl c by (simp add: fields unsigned_ucast_eq take_bit_eq_mod)
  have "(v - 0x10000) mod 0x400 < 0x400" by simp
  then have "0xdc00 + (v - 0x10000) mod 0x400 < 0x10000" by linarith
  then have m4: "(0xdc00 + (v - 0x10000) mod 0x400) mod 0x10000 = 0xdc00 + (v - 0x10000) mod 0x400" by (rule mod_less)
  have w2: "ucast (0xdc00 OR SHIFTOUT (ucast c) (BITS 9 0)) = l"
    unfolding word_unat_eq_iff using unat_tag [of "SHIFTOUT (ucast c) (BITS 9 0)" 10 55] hl c m4 by (simp add: fields unsigned_ucast_eq take_bit_eq_mod)
  have "l \<noteq> 0" using hl by auto
  then show ?thesis using ps assms(2) utf8_sizes [of v] big w1 w2 by (auto simp: mbrtoc16_l_def m16_initial_def Let_def c_def [symmetric])
qed

lemma m16_get_char:
  assumes "utf32_conversions to32 from32" "m16_initial S" "scalar v" "bytes_at m q (utf8 v)" "q + length (utf8 v) \<le> e" "UTF8_MB_CUR_MAX \<le> length mb"
  shows "\<exists>S'. get_units (\<lambda>q S w. mbrtoc16_l (Some to32) w mb m True (Some q) (e - q) S loc) (length (utf16 v)) q S w = Some (utf16 v, q + length (utf8 v), S', w) \<and> m16_initial S'"
proof -
  have le: "length (utf8 v) \<le> e - q" using assms(5) by simp
  show ?thesis
  proof (cases "v < 0x10000")
    case True
    have z: "v = 0 \<Longrightarrow> length (utf8 v) = 1" by (simp add: utf8_def utf8_units_def)
    from m16_bmp [OF assms(1-3) True assms(4) le assms(6), of w loc] show ?thesis using True utf8_sizes [of v] z by (auto simp: utf16_def)
  next
    case False
    then have "0x10000 \<le> v" by simp
    from m16_pair [OF assms(1-3) this assms(4) le assms(6), of w loc "q + length (utf8 v)" "e - (q + length (utf8 v))"] show ?thesis
      using False utf8_sizes [of v] by (auto simp: utf16_def numeral_2_eq_2)
  qed
qed

interpretation utf16_units: unit_codec "utf32_conversions to32 from32 \<and> UTF8_MB_CUR_MAX \<le> length buf \<and> UTF8_MB_CUR_MAX \<le> length mb"
    "\<lambda>m d c S w. c16rtomb_l (Some from32) w buf m (Some d) c S loc" "\<lambda>m e q S w. mbrtoc16_l (Some to32) w mb m True (Some q) (e - q) S loc" utf16 c16_initial m16_initial
  for to32 from32 buf mb loc
  by unfold_locales (use c16_put_char m16_get_char in blast)+

section \<open>The automaton\<close>

text \<open>The class of a byte and the transitions, by ranges.\<close>

definition cls :: "nat \<Rightarrow> nat" where
  "cls n = (if n < 0x80 then 0 else if n < 0x90 then 8 else if n < 0xa0 then 9 else if n < 0xc0 then 1 else if n < 0xc2 then 10 else if n < 0xe0 then 2
     else if n = 0xe0 then 11 else if n = 0xed then 4 else if n < 0xf0 then 3 else if n = 0xf0 then 7 else if n < 0xf4 then 6 else if n = 0xf4 then 5 else 10)"

definition moves :: "nat \<Rightarrow> nat \<Rightarrow> nat" where
  "moves s c = (
     if s = 0 then (if c = 0 then 0 else if c = 2 then 12 else if c = 3 then 36 else if c = 4 then 48 else if c = 5 then 84 else if c = 6 then 72 else if c = 7 then 60 else if c = 11 then 24 else 96)
     else if s = 12 then (if c = 1 \<or> c = 8 \<or> c = 9 then 0 else 96)
     else if s = 24 then (if c = 1 then 12 else 96)
     else if s = 36 then (if c = 1 \<or> c = 8 \<or> c = 9 then 12 else 96)
     else if s = 48 then (if c = 8 \<or> c = 9 then 12 else 96)
     else if s = 60 then (if c = 1 \<or> c = 9 then 36 else 96)
     else if s = 72 then (if c = 1 \<or> c = 8 \<or> c = 9 then 36 else 96)
     else (if c = 8 then 36 else 96))"

definition mid_states :: "nat list" where "mid_states = [0, 12, 24, 36, 48, 60, 72, 84]"

lemma classtab_eq: "ld utf8_classtab (unat (b :: byte)) = Some (word_of_nat (cls (unat b)))"
proof -
  have "list_all (\<lambda>i. utf8_classtab ! i = word_of_nat (cls i)) [0..<256]" "length utf8_classtab = 256" by code_simp+
  moreover have "unat b < 256" by (rule byte_less)
  ultimately show ?thesis by (simp add: list_all_iff ld_def)
qed

lemma cls_less: "cls n < 12"
  by (simp add: cls_def)

lemma statetab_eq:
  assumes "s \<in> set mid_states" "c < 12"
  shows "\<exists>t. ld utf8_statetab (s + c) = Some t \<and> unat t = moves s c"
proof -
  have "list_all (\<lambda>s. list_all (\<lambda>c. s + c < length utf8_statetab \<and> unat (utf8_statetab ! (s + c)) = moves s c) [0..<12]) mid_states" by code_simp
  then show ?thesis using assms by (auto simp: list_all_iff ld_def)
qed

lemma lead_value:
  "ucast b AND drop_bit (cls (unat b)) 0xff = (if count b = 1 then ucast b else (ucast (b AND drop_bit (count b) 0x7f) :: u32))" if "count b \<noteq> 0"
proof -
  have "list_all (\<lambda>i. count_unit i = 0 \<or> ucast (word_of_nat i :: byte) AND drop_bit (cls i) 0xff =
      (if count_unit i = 1 then ucast (word_of_nat i :: byte) else (ucast ((word_of_nat i :: byte) AND drop_bit (count_unit i) 0x7f) :: u32))) [0..<256]" by code_simp
  then have "count_unit (unat b) = 0 \<or> ucast b AND drop_bit (cls (unat b)) 0xff =
      (if count_unit (unat b) = 1 then ucast b else (ucast (b AND drop_bit (count_unit (unat b)) 0x7f) :: u32))"
    unfolding list_all_iff by (metis atLeast0LessThan byte_less lessThan_iff set_upt unat_of_nat_word)
  moreover have "count_unit (unat b) = count b" by (simp add: count_eq count_unit_def)
  ultimately show ?thesis using that by simp
qed

text \<open>The state after the start \<open>p\<close> of an encoding, and the value so far.\<close>

definition state_of :: "byte list \<Rightarrow> nat" where
  "state_of p = (if p = [] then 0 else let n = unat (hd p); k = count (hd p) in
     if length p = 1 then (if k = 2 then 12 else if n = 0xe0 then 24 else if n = 0xed then 48 else if k = 3 then 36 else if n = 0xf0 then 60 else if n = 0xf4 then 84 else 72)
     else if k - length p = 1 then 12 else 36)"

definition partial_value :: "byte list \<Rightarrow> u32" where
  "partial_value p = add_bits (tl p) (ucast (hd p AND drop_bit (count (hd p)) 0x7f))"

lemma state_of_mid: "state_of p \<in> set mid_states"
  by (simp add: state_of_def mid_states_def Let_def)

lemma first_move: "moves 0 (cls (unat b)) = (if count b = 0 then 96 else if count b = 1 then 0 else state_of [b])"
  by (simp add: moves_def cls_def count_eq state_of_def Let_def)

lemma cont_class: "cls (unat x) = 1 \<or> cls (unat x) = 8 \<or> cls (unat x) = 9 \<longleftrightarrow> cont x"
  by (simp add: cls_def cont_eq)

lemma second_move:
  assumes "1 < count b"
  shows "moves (state_of [b]) (cls (unat x)) = (if second b x \<and> cont x then if count b = 2 then 0 else if count b = 3 then 12 else 36 else 96)"
proof -
  have n: "0xc2 \<le> unat b" "unat b < 0xf5" using assms by (auto simp: count_eq split: if_splits)
  consider "unat b < 0xe0" | "unat b = 0xe0" | "unat b = 0xed" | "0xe0 < unat b" "unat b < 0xf0" "unat b \<noteq> 0xed" | "unat b = 0xf0" | "0xf0 < unat b" "unat b < 0xf4" | "unat b = 0xf4"
    using n by linarith
  then show ?thesis using n unfolding second_eq [OF assms] cont_eq
    by cases (simp_all add: state_of_def Let_def count_eq moves_def cls_def)
qed

lemma next_move:
  assumes "partial p"
  shows "moves (state_of p) (cls (unat x)) = (if good (p @ [x]) then if length p + 1 = count (hd p) then 0 else state_of (p @ [x]) else 96)"
proof -
  obtain b r where p: "p = b # r" using assms by (cases p) (auto simp: partial_def good_def)
  have g: "good p" "length p < count b" "count b \<le> 4" using assms count_le by (auto simp: partial_def p)
  have e: "good (p @ [x]) \<longleftrightarrow> (length p = 1 \<longrightarrow> second b x) \<and> cont x" using good_extend [OF g(1), of "[x]"] g(2) by (simp add: p)
  show ?thesis
  proof (cases r)
    case Nil
    have "1 < count b" using g(2) by (simp add: p Nil)
    moreover have "count b = 2 \<or> count b = 3 \<or> count b = 4" using g(2,3) p Nil by auto
    ultimately show ?thesis using second_move [of b x] e by (auto simp: p Nil state_of_def Let_def)
  next
    case (Cons y r')
    have L: "2 \<le> length p" by (simp add: p Cons)
    have "length p = 2 \<or> length p = 3" using g(2,3) L by linarith
    then show ?thesis using e g(2,3) cont_class [of x] by (auto simp: p Cons state_of_def Let_def moves_def)
  qed
qed

text \<open>One step of the automaton, with the value.\<close>

lemma decode_first:
  "\<exists>t c. utf8_decode_step UTF8_ACCEPT b c0 = Some (t, c) \<and> unat t = moves 0 (cls (unat b)) \<and>
     (count b \<noteq> 0 \<longrightarrow> c = (if count b = 1 then ucast b else partial_value [b]))"
proof -
  have u: "unat (word_of_nat (cls (unat b)) :: byte) = cls (unat b)" using cls_less [of "unat b"] by (simp add: unat_of_nat)
  obtain t where t: "ld utf8_statetab (0 + cls (unat b)) = Some t" "unat t = moves 0 (cls (unat b))"
    using statetab_eq [of 0 "cls (unat b)"] cls_less by (auto simp: mid_states_def)
  then show ?thesis using lead_value [of b] by (auto simp: utf8_decode_step_def classtab_eq u UTF8_ACCEPT_def partial_value_def)
qed

lemma add_bits_snoc: "add_bits (bs @ [b]) w = push_bit 6 (add_bits bs w) OR ucast (b AND 0x3f)"
  by (induction bs w rule: add_bits.induct) auto

lemma decode_next:
  assumes "partial p" "unat s = state_of p"
  shows "\<exists>t. utf8_decode_step s x (partial_value p) = Some (t, partial_value (p @ [x])) \<and> unat t = moves (state_of p) (cls (unat x))"
proof -
  have p: "p \<noteq> []" using assms(1) by (auto simp: partial_def good_def)
  have u: "unat (word_of_nat (cls (unat x)) :: byte) = cls (unat x)" using cls_less [of "unat x"] by (simp add: unat_of_nat)
  obtain t where t: "ld utf8_statetab (state_of p + cls (unat x)) = Some t" "unat t = moves (state_of p) (cls (unat x))"
    using statetab_eq [OF state_of_mid [of p], of "cls (unat x)"] cls_less by auto
  have "state_of p \<noteq> 0" using p by (simp add: state_of_def Let_def)
  then have "s \<noteq> UTF8_ACCEPT" using assms(2) by (auto simp: UTF8_ACCEPT_def)
  moreover have "partial_value (p @ [x]) = (ucast x AND 0x3f) OR push_bit 6 (partial_value p)"
    using p by (simp add: partial_value_def add_bits_snoc or.commute unsigned_and_eq)
  ultimately show ?thesis using t assms(2) by (simp add: utf8_decode_step_def classtab_eq u)
qed

text \<open>The encodings of the scalar values are where the automaton stops, and it fails where none goes on.\<close>

lemma partial_strict: "partial p \<longleftrightarrow> p \<noteq> [] \<and> (\<exists>v. scalar v \<and> strict_prefix p (utf8 v))"
proof
  assume p: "partial p"
  then obtain v where v: "scalar v" "prefix p (utf8 v)" using good_complete by (auto simp: partial_def)
  have "hd p = hd (utf8 v)" using p v(2) take_hd_same by (auto simp: partial_def good_def)
  then have "length p < length (utf8 v)" using p length_utf8 [OF v(1)] by (simp add: partial_def)
  then show "p \<noteq> [] \<and> (\<exists>v. scalar v \<and> strict_prefix p (utf8 v))" using p v by (auto simp: partial_def good_def strict_prefix_def)
next
  assume "p \<noteq> [] \<and> (\<exists>v. scalar v \<and> strict_prefix p (utf8 v))"
  then obtain v where v: "p \<noteq> []" "scalar v" "strict_prefix p (utf8 v)" by blast
  then have "prefix p (utf8 v)" "length p < length (utf8 v)" by (auto simp: prefix_length_less strict_prefix_def)
  then show "partial p" using v good_prefix [OF utf8_good] take_hd_same length_utf8 by (metis partial_def)
qed

fun utf8_dfa :: "byte list \<Rightarrow> byte \<times> u32 \<Rightarrow> (byte \<times> u32) option" where
  "utf8_dfa [] s = Some s"
| "utf8_dfa (b # bs) (s, c) = do { s \<leftarrow> utf8_decode_step s b c; utf8_dfa bs s }"

lemma utf8_dfa_snoc: "utf8_dfa (bs @ [b]) s = do { (s, c) \<leftarrow> utf8_dfa bs s; utf8_decode_step s b c }"
  by (induction bs s rule: utf8_dfa.induct) (auto split: bind_splits)

lemma dfa_partial: "partial p \<Longrightarrow> \<exists>t. utf8_dfa p (UTF8_ACCEPT, c0) = Some (t, partial_value p) \<and> unat t = state_of p"
proof (induction p rule: rev_induct)
  case (snoc x p)
  show ?case
  proof (cases "p = []")
    case True
    then have "1 < count x" using snoc.prems by (simp add: partial_def)
    then show ?thesis using decode_first [of x c0] first_move [of x] True by (auto simp: utf8_dfa_snoc)
  next
    case False
    have g: "good (p @ [x])" "length p + 1 < count (hd p)" using snoc.prems False by (auto simp: partial_def)
    then have p: "partial p" using good_prefix [OF g(1), of p] False by (simp add: partial_def)
    obtain t where t: "utf8_dfa p (UTF8_ACCEPT, c0) = Some (t, partial_value p)" "unat t = state_of p" using snoc.IH [OF p] by blast
    then show ?thesis using decode_next [OF p t(2), of x] next_move [OF p, of x] g by (auto simp: utf8_dfa_snoc)
  qed
qed (simp add: partial_def good_def)

lemma value_full:
  assumes "scalar v" "1 < length (utf8 v)"
  shows "partial_value (utf8 v) = word_of_nat v"
  using assemble_utf8 [OF assms, of "[]"] length_utf8 [OF assms(1)] by (simp add: partial_value_def assemble_def)

lemma accept_reject: "s = UTF8_ACCEPT \<longleftrightarrow> unat s = 0" "s = UTF8_REJECT \<longleftrightarrow> unat s = 96"
  by (simp_all add: UTF8_ACCEPT_def UTF8_REJECT_def word_unat_eq_iff)

lemma decode_step_ok:
  assumes "p = [] \<and> s = UTF8_ACCEPT \<or> partial p \<and> unat s = state_of p \<and> c0 = partial_value p"
  shows "\<exists>t c. utf8_decode_step s x c0 = Some (t, c) \<and>
    (if good (p @ [x]) then
       if length (p @ [x]) = count (hd (p @ [x])) then t = UTF8_ACCEPT \<and> c = (if p = [] then ucast x else partial_value (p @ [x]))
       else unat t = state_of (p @ [x]) \<and> c = partial_value (p @ [x])
     else t = UTF8_REJECT)"
proof (cases "p = []")
  case True
  then have s: "s = UTF8_ACCEPT" using assms by (auto simp: partial_def good_def)
  obtain t c where t: "utf8_decode_step UTF8_ACCEPT x c0 = Some (t, c)" "unat t = moves 0 (cls (unat x))" "count x \<noteq> 0 \<longrightarrow> c = (if count x = 1 then ucast x else partial_value [x])"
    using decode_first [of x c0] by blast
  show ?thesis unfolding s using True t first_move [of x] by (intro exI [of _ t] exI [of _ c]) (auto simp: good_def accept_reject)
next
  case False
  then have p: "partial p" "unat s = state_of p" "c0 = partial_value p" "hd (p @ [x]) = hd p" using assms by auto
  obtain t where t: "utf8_decode_step s x (partial_value p) = Some (t, partial_value (p @ [x]))" "unat t = moves (state_of p) (cls (unat x))"
    using decode_next [OF p(1,2)] by blast
  show ?thesis using t next_move [OF p(1), of x] False p(3,4) by (intro exI [of _ t] exI [of _ "partial_value (p @ [x])"]) (auto simp: accept_reject)
qed

lemma dfa_step:
  assumes "p = [] \<or> partial p"
  shows "\<exists>s c. utf8_dfa (p @ [x]) (UTF8_ACCEPT, c0) = Some (s, c) \<and>
    (if good (p @ [x]) then
       if length (p @ [x]) = count (hd (p @ [x])) then s = UTF8_ACCEPT \<and> c = (if p = [] then ucast x else partial_value (p @ [x])) else unat s = state_of (p @ [x])
     else s = UTF8_REJECT)"
proof -
  obtain s c where d: "utf8_dfa p (UTF8_ACCEPT, c0) = Some (s, c)" "p = [] \<and> s = UTF8_ACCEPT \<or> partial p \<and> unat s = state_of p \<and> c = partial_value p"
    using assms dfa_partial [of p c0] by auto
  obtain t c' where t: "utf8_decode_step s x c = Some (t, c')"
    "if good (p @ [x]) then
       if length (p @ [x]) = count (hd (p @ [x])) then t = UTF8_ACCEPT \<and> c' = (if p = [] then ucast x else partial_value (p @ [x]))
       else unat t = state_of (p @ [x]) \<and> c' = partial_value (p @ [x])
     else t = UTF8_REJECT" using decode_step_ok [OF d(2), of x] by blast
  show ?thesis using t(2) by (intro exI [of _ t] exI [of _ c']) (simp add: utf8_dfa_snoc d(1) t(1) split: if_splits)
qed

lemma full_value:
  assumes "scalar v" "p @ [x] = utf8 v"
  shows "unat (if p = [] then ucast x else partial_value (p @ [x])) = v"
proof (cases "p = []")
  case True
  then have "prefix (utf8 v) [x]" using assms(2) by simp
  then show ?thesis using True by (simp add: utf8_prefix_single unat_ucast_up)
next
  case False
  then have "1 < length (utf8 v)" using assms(2) by (metis add_less_cancel_right length_0_conv length_append_singleton less_one not_gr_zero plus_1_eq_Suc add.commute One_nat_def add_0)
  then show ?thesis using value_full [OF assms(1)] scalar_unat [OF assms(1)] False assms(2) by simp
qed

text \<open>
  C37. The table-driven automaton of \<open>c8rtomb\<close> recognises the encodings of the scalar values.  After the start \<open>p\<close> of an encoding, or none, the next byte takes it to the accepting
  state exactly if the bytes are an encoding, whose scalar value is then its value; to a state that is neither accepting nor rejecting if they are the start of an
  encoding; and to the rejecting state if no encoding starts with them.
\<close>

theorem utf8_dfa_correct:
  assumes "p = [] \<or> (\<exists>v. scalar v \<and> strict_prefix p (utf8 v))"
  shows "\<exists>s c. utf8_dfa (p @ [x]) (UTF8_ACCEPT, c0) = Some (s, c) \<and>
    (if \<exists>v. scalar v \<and> p @ [x] = utf8 v then s = UTF8_ACCEPT \<and> scalar (unat c) \<and> p @ [x] = utf8 (unat c)
     else if \<exists>v. scalar v \<and> prefix (p @ [x]) (utf8 v) then s \<noteq> UTF8_ACCEPT \<and> s \<noteq> UTF8_REJECT
     else s = UTF8_REJECT)"
proof -
  have p: "p = [] \<or> partial p" using assms by (auto simp: partial_strict)
  obtain s c where d: "utf8_dfa (p @ [x]) (UTF8_ACCEPT, c0) = Some (s, c)"
      "if good (p @ [x]) then
         if length (p @ [x]) = count (hd (p @ [x])) then s = UTF8_ACCEPT \<and> c = (if p = [] then ucast x else partial_value (p @ [x])) else unat s = state_of (p @ [x])
       else s = UTF8_REJECT"
    using dfa_step [OF p, of x c0] by blast
  have m: "state_of (p @ [x]) \<noteq> 0" "state_of (p @ [x]) \<noteq> 96" by (simp_all add: state_of_def Let_def)
  show ?thesis
  proof (cases "good (p @ [x]) \<and> length (p @ [x]) = count (hd (p @ [x]))")
    case True
    then obtain v where v: "scalar v" "p @ [x] = utf8 v" using utf8_iff [of "p @ [x]"] by blast
    then have "unat c = v" "s = UTF8_ACCEPT" using d(2) True full_value [OF v] by simp_all
    then show ?thesis using d(1) v by auto
  next
    case False
    then have n: "\<not> (\<exists>v. scalar v \<and> p @ [x] = utf8 v)" using utf8_iff [of "p @ [x]"] by blast
    have "(\<exists>v. scalar v \<and> prefix (p @ [x]) (utf8 v)) \<longleftrightarrow> good (p @ [x])" using good_complete good_prefix [OF utf8_good] by blast
    then show ?thesis using d False n m by (auto simp: accept_reject)
  qed
qed

theorem utf8_dfa_correct_witness:
  "\<exists>s c. utf8_dfa ([0xE2, 0x82] @ [0xAC]) (UTF8_ACCEPT, 0) = Some (s, c) \<and>
    (if \<exists>v. scalar v \<and> [0xE2, 0x82] @ [0xAC] = utf8 v then s = UTF8_ACCEPT \<and> scalar (unat c) \<and> [0xE2, 0x82] @ [0xAC] = utf8 (unat c)
     else if \<exists>v. scalar v \<and> prefix ([0xE2, 0x82] @ [0xAC]) (utf8 v) then s \<noteq> UTF8_ACCEPT \<and> s \<noteq> UTF8_REJECT
     else s = UTF8_REJECT)"
proof (rule utf8_dfa_correct)
  have "scalar 0x20AC" "strict_prefix [0xE2, 0x82] (utf8 0x20AC)" by (simp_all add: scalar_def utf8_def utf8_units_def strict_prefix_def)
  then show "[0xE2, 0x82 :: byte] = [] \<or> (\<exists>v. scalar v \<and> strict_prefix [0xE2, 0x82] (utf8 v))" by blast
qed

section \<open>UTF-8 code units to and from a UTF-8 locale\<close>

lemma add_bits_bound: "unat w < 2 ^ k \<Longrightarrow> k + 6 * length bs \<le> 26 \<Longrightarrow> unat (add_bits bs w) < 2 ^ (k + 6 * length bs)"
proof (induction bs w arbitrary: k rule: add_bits.induct)
  case (2 b bs w)
  have "(2 :: nat) ^ k \<le> 2 ^ 26" using 2(3) by (intro power_increasing) auto
  then have "unat w < 2 ^ 26" using 2(2) by linarith
  then have "unat (push_bit 6 w OR ucast (b AND 0x3f)) = unat w * 64 + unat b mod 64" by (rule unat_or_6)
  also have "\<dots> < 2 ^ (k + 6)"
  proof -
    have "unat b mod 64 < 64" by simp
    moreover have "(unat w + 1) * 64 \<le> 2 ^ k * 64" using 2(2) by (intro mult_right_mono) auto
    ultimately show ?thesis by (simp add: power_add)
  qed
  finally show ?case using "2.IH" [of "k + 6"] 2(3) by (simp add: algebra_simps)
qed simp

lemma partial_value_bound:
  assumes "length p \<le> 3"
  shows "unat (partial_value p) < 2 ^ 24"
proof -
  have l: "8 + 6 * length (tl p) \<le> 20" using assms by (cases p) auto
  have "unat (hd p AND drop_bit (count (hd p)) 0x7f) < 2 ^ 8" using byte_less [of "hd p AND drop_bit (count (hd p)) 0x7f"] by simp
  then have "unat (ucast (hd p AND drop_bit (count (hd p)) 0x7f) :: u32) < 2 ^ 8" by (simp add: unat_ucast_up)
  then have "unat (partial_value p) < 2 ^ (8 + 6 * length (tl p))" unfolding partial_value_def using l by (intro add_bits_bound) auto
  also have "\<dots> \<le> 2 ^ 24" using l by (intro power_increasing) auto
  finally show ?thesis .
qed

lemma c8_unpack:
  fixes s :: byte and c :: u32
  assumes "unat c < 2 ^ 24"
  defines "x \<equiv> ucast (SHIFTIN (ucast s) (BITS 31 24) OR SHIFTIN (ucast c) (BITS 23 0)) :: u32"
  shows "ucast (SHIFTOUT (ucast x) (BITS 31 24)) = s" "ucast (SHIFTOUT (ucast x) (BITS 23 0)) = c"
proof -
  define y where "y = (ucast s * 2 ^ 24 OR ucast c :: u64)"
  have sl: "unat s < 256" by (rule byte_less)
  then have "unat s \<le> 255" by linarith
  then have "unat s * 2 ^ 24 \<le> 255 * 2 ^ 24" by (intro mult_right_mono) auto
  then have b: "unat s * 2 ^ 24 + unat c < 2 ^ 32" using assms(1) by simp
  have y: "unat y = unat s * 2 ^ 24 + unat c"
    unfolding y_def using unat_shift_or [of "ucast c" 24 "ucast s"] assms(1) b by (simp add: unat_ucast_up)
  have "x = ucast y" by (simp add: x_def y_def SHIFTIN_fields)
  then have "unat x = unat s * 2 ^ 24 + unat c" using y b by (simp add: unsigned_ucast_eq take_bit_nat_eq_self)
  then have z: "unat (ucast x :: u64) = unat s * 2 ^ 24 + unat c" by (simp add: unat_ucast_up)
  have "unat (SHIFTOUT (ucast x) (BITS 31 24)) = unat s" unfolding fields z using assms(1) by simp
  then show "ucast (SHIFTOUT (ucast x) (BITS 31 24)) = s" by (simp add: word_unat_eq_iff unsigned_ucast_eq take_bit_eq_mod)
  have "unat (SHIFTOUT (ucast x) (BITS 23 0)) = unat c" unfolding fields z using assms(1) by simp
  then show "ucast (SHIFTOUT (ucast x) (BITS 23 0)) = c" using assms(1) by (simp add: word_unat_eq_iff unsigned_ucast_eq take_bit_eq_mod)
qed

text \<open>The bytes \<open>p\<close> of an encoding have been taken in.\<close>

definition c8_holds :: "c8rtombstate \<Rightarrow> byte list \<Rightarrow> bool" where
  "c8_holds S p \<longleftrightarrow> mb_initial (c8_mbs S) \<and> (if p = [] then state_c32 S = 0 else partial p \<and>
     (\<exists>s. unat s = state_of p \<and> state_c32 S = ucast (SHIFTIN (ucast (s :: byte)) (BITS 31 24) OR SHIFTIN (ucast (partial_value p)) (BITS 23 0))))"

lemma c8_holds_state:
  assumes "c8_holds S p"
  defines "s \<equiv> ucast (SHIFTOUT (ucast (state_c32 S)) (BITS 31 24)) :: byte" and "c \<equiv> ucast (SHIFTOUT (ucast (state_c32 S)) (BITS 23 0)) :: u32"
  shows "p = [] \<and> s = UTF8_ACCEPT \<or> partial p \<and> unat s = state_of p \<and> c = partial_value p"
proof (cases "p = []")
  case True
  then have "state_c32 S = 0" using assms(1) by (simp add: c8_holds_def)
  then have "s = 0" by (simp add: s_def SHIFTOUT_def)
  then show ?thesis using True by (simp add: UTF8_ACCEPT_def)
next
  case False
  then obtain t where t: "partial p" "unat t = state_of p" "state_c32 S = ucast (SHIFTIN (ucast (t :: byte)) (BITS 31 24) OR SHIFTIN (ucast (partial_value p)) (BITS 23 0))"
    using assms(1) by (auto simp: c8_holds_def)
  have "length p \<le> 3" using t(1) count_le [of "hd p"] by (simp add: partial_def)
  then show ?thesis using t(1,2) c8_unpack [OF partial_value_bound, of p t, folded t(3)] by (simp add: s_def c_def)
qed

lemma c8_more:
  assumes "c8_holds S p" "partial (p @ [x])" "x \<noteq> 0"
  shows "\<exists>S'. c8rtomb_l iconv w buf m (Some d) x S loc = Some ((m, 0), S', w) \<and> c8_holds S' (p @ [x])"
proof -
  obtain t c where t: "utf8_decode_step (ucast (SHIFTOUT (ucast (state_c32 S)) (BITS 31 24))) x (ucast (SHIFTOUT (ucast (state_c32 S)) (BITS 23 0))) = Some (t, c)"
      "unat t = state_of (p @ [x])" "c = partial_value (p @ [x])"
    using decode_step_ok [OF c8_holds_state [OF assms(1)], of x] assms(2) by (auto simp: partial_def)
  have "state_of (p @ [x]) \<noteq> 0" "state_of (p @ [x]) \<noteq> 96" by (simp_all add: state_of_def Let_def)
  then have "t \<noteq> UTF8_ACCEPT" "t \<noteq> UTF8_REJECT" using t(2) by (simp_all add: accept_reject)
  then show ?thesis using t assms by (auto simp: c8rtomb_l_def Let_def c8_holds_def)
qed

lemma c8_last:
  assumes "utf32_conversions to32 from32" "c8_holds S p" "scalar v" "p @ [x] = utf8 v" "d + UTF8_MB_CUR_MAX \<le> length m" "UTF8_MB_CUR_MAX \<le> length buf"
  shows "\<exists>S'. c8rtomb_l (Some from32) w buf m (Some d) x S loc = Some ((wr m d (utf8 v), of_nat (length (utf8 v))), S', w) \<and> c8_holds S' []"
proof -
  obtain ps where ps: "c32rtomb_l (Some from32) w buf m (Some d) (word_of_nat v) (c8_mbs S) loc = Some ((wr m d (utf8 v), of_nat (length (utf8 v))), ps, w)" "mb_initial ps"
    using c32rtomb_l_char [OF assms(1) _ assms(3,5,6)] assms(2) unfolding c8_holds_def by blast
  show ?thesis
  proof (cases "x = 0")
    case True
    then have "0 \<in> set (utf8 v)" using assms(4) [symmetric] by simp
    then have "v = 0" using utf8_zero_iff [OF assms(3)] by simp
    then show ?thesis using ps True by (auto simp: c8rtomb_l_def Let_def c8_holds_def)
  next
    case False
    have "good (p @ [x])" "length (p @ [x]) = count (hd (p @ [x]))" using assms(3,4) utf8_iff by metis+
    then obtain t c where t: "utf8_decode_step (ucast (SHIFTOUT (ucast (state_c32 S)) (BITS 31 24))) x (ucast (SHIFTOUT (ucast (state_c32 S)) (BITS 23 0))) = Some (t, c)"
        "t = UTF8_ACCEPT" "c = (if p = [] then ucast x else partial_value (p @ [x]))"
      using decode_step_ok [OF c8_holds_state [OF assms(2)], of x] by auto
    have "unat c = v" using full_value [OF assms(3,4)] t(3) by simp
    then have "c = word_of_nat v" by (metis unat_of_nat_word)
    moreover have "UTF8_ACCEPT \<noteq> UTF8_REJECT" by (simp add: UTF8_ACCEPT_def UTF8_REJECT_def)
    ultimately show ?thesis using ps False t(1,2) by (auto simp: c8rtomb_l_def Let_def c8_holds_def)
  qed
qed

lemma c8_put_rest:
  assumes "utf32_conversions to32 from32" "scalar v" "d + UTF8_MB_CUR_MAX \<le> length m" "UTF8_MB_CUR_MAX \<le> length buf"
  shows "c8_holds S p \<Longrightarrow> p @ x # xs = utf8 v \<Longrightarrow> \<exists>S'. put_units (\<lambda>m d c S w. c8rtomb_l (Some from32) w buf m (Some d) c S loc) m d (x # xs) S w =
    Some (wr m d (utf8 v), d + length (utf8 v), S', w) \<and> c8_holds S' []"
proof (induction xs arbitrary: p x S)
  case Nil
  then show ?case using c8_last [OF assms(1) Nil.prems(1) assms(2) Nil.prems(2) assms(3,4), of w loc] utf8_sizes [of v] by auto
next
  case (Cons y ys)
  have "strict_prefix (p @ [x]) (utf8 v)" unfolding Cons.prems(2) [symmetric] by (auto simp: strict_prefix_def)
  then have pp: "partial (p @ [x])" using assms(2) by (auto simp: partial_strict)
  have "x \<noteq> 0"
  proof
    assume "x = 0"
    then have "0 \<in> set (utf8 v)" using Cons.prems(2) [symmetric] by simp
    then have "utf8 v = [0]" using utf8_zero_iff [OF assms(2)] by (simp add: utf8_def utf8_units_def)
    then show False using Cons.prems(2) [symmetric] by (cases p) auto
  qed
  from c8_more [OF Cons.prems(1) pp this, of "Some from32" w buf m d loc] obtain S1
    where "c8rtomb_l (Some from32) w buf m (Some d) x S loc = Some ((m, 0), S1, w)" "c8_holds S1 (p @ [x])" by blast
  then show ?case using Cons.IH [of S1 "p @ [x]" y] Cons.prems(2) by simp
qed

lemma c8_put_char:
  assumes "utf32_conversions to32 from32" "c8_holds S []" "scalar v" "d + UTF8_MB_CUR_MAX \<le> length m" "UTF8_MB_CUR_MAX \<le> length buf"
  shows "\<exists>S'. put_units (\<lambda>m d c S w. c8rtomb_l (Some from32) w buf m (Some d) c S loc) m d (utf8 v) S w = Some (wr m d (utf8 v), d + length (utf8 v), S', w) \<and> c8_holds S' []"
proof -
  obtain x xs where "utf8 v = x # xs" by (cases "utf8 v") (auto simp: utf8_def utf8_units_def split: if_splits)
  then show ?thesis using c8_put_rest [OF assms(1,3,4,5,2), where x = x and xs = xs and w = w and loc = loc] by simp
qed

definition m8_initial :: "mbrtoc8state \<Rightarrow> bool" where
  "m8_initial S \<longleftrightarrow> nleft S = 0 \<and> length (m8_buf S) = 3 \<and> mb_initial (m8_mbs S)"

text \<open>The bytes still to be delivered.\<close>

definition m8_pending :: "mbrtoc8state \<Rightarrow> byte list \<Rightarrow> bool" where
  "m8_pending S bs \<longleftrightarrow> length (m8_buf S) = 3 \<and> mb_initial (m8_mbs S) \<and> length bs \<le> 3 \<and> nleft S = word_of_nat (length bs) \<and> drop (3 - length bs) (m8_buf S) = bs"

lemma m8_pending_Nil: "m8_pending S [] \<longleftrightarrow> m8_initial S"
  by (auto simp: m8_pending_def m8_initial_def)

lemma m8_next:
  assumes "m8_pending S (b # bs)"
  shows "\<exists>S'. mbrtoc8_l iconv w mb m True (Some q) n S loc = Some ((Some b, - 3), S', w) \<and> m8_pending S' bs"
proof -
  have l: "length bs \<le> 2" "nleft S = word_of_nat (Suc (length bs))" using assms by (simp_all add: m8_pending_def)
  have "unat (nleft S) = Suc (length bs)" unfolding l(2) unat_of_nat using l(1) by simp
  with l(1) have n: "unat (nleft S) = Suc (length bs)" "length bs \<le> 2" by simp_all
  then have nz: "nleft S \<noteq> 0" by auto
  have d: "drop (3 - Suc (length bs)) (m8_buf S) = b # bs" "length (m8_buf S) = 3" using assms by (auto simp: m8_pending_def)
  have i: "3 - Suc (length bs) < 3" by simp
  have b: "m8_buf S ! (3 - Suc (length bs)) = b" using d i by (metis hd_drop_conv_nth list.sel(1))
  have "drop (Suc (3 - Suc (length bs))) (m8_buf S) = bs" using d(1) by (metis drop_Suc list.sel(3) tl_drop)
  moreover have "Suc (3 - Suc (length bs)) = 3 - length bs" using n(2) by simp
  ultimately have r: "drop (3 - length bs) ((m8_buf S)[3 - Suc (length bs) := 0]) = bs" using n(2) by (simp add: drop_update_cancel)
  have "nleft S - 1 = word_of_nat (length bs)" using assms by (auto simp: m8_pending_def)
  then show ?thesis using nz n b d(2) i r assms by (simp add: mbrtoc8_l_def Let_def m8_pending_def)
qed

lemma m8_rest:
  "m8_pending S bs \<Longrightarrow> \<exists>S'. get_units (\<lambda>q S w. mbrtoc8_l iconv w mb m True (Some q) (e - q) S loc) (length bs) q S w = Some (bs, q, S', w) \<and> m8_initial S'"
proof (induction bs arbitrary: S)
  case Nil
  then show ?case by (simp add: m8_pending_Nil)
next
  case (Cons b bs)
  obtain S1 where "mbrtoc8_l iconv w mb m True (Some q) (e - q) S loc = Some ((Some b, - 3), S1, w)" "m8_pending S1 bs" using m8_next [OF Cons.prems] by blast
  then show ?case using Cons.IH [of S1] by auto
qed

lemma byte_or:
  assumes "unat x = a" "a < 2 ^ k" "k \<le> 6" "word_of_nat t * 2 ^ k = y" "t < 64" "t * 2 ^ k + a < 256"
  shows "ucast (y OR x :: u64) = (word_of_nat (t * 2 ^ k + a) :: byte)"
proof -
  have "unat (y OR x) = t * 2 ^ k + a" using unat_tag [of x k t y] assms by simp
  then have "unat (ucast (y OR x) :: byte) = t * 2 ^ k + a" using assms(6) by (simp add: unsigned_ucast_eq take_bit_nat_eq_self)
  then show ?thesis by (metis unat_of_nat_word)
qed

lemma m8_bytes:
  assumes "scalar v"
  defines "c \<equiv> ucast (word_of_nat v :: u32) :: u64"
  shows "v < 0x800 \<Longrightarrow> ucast (0xc0 OR SHIFTOUT c (BITS 10 6)) = (word_of_nat (0xC0 + v div 0x40) :: byte)"
    "v < 0x10000 \<Longrightarrow> ucast (0xe0 OR SHIFTOUT c (BITS 15 12)) = (word_of_nat (0xE0 + v div 0x1000) :: byte)"
    "ucast (0xf0 OR SHIFTOUT c (BITS 20 18)) = (word_of_nat (0xF0 + v div 0x40000) :: byte)"
    "ucast (0x80 OR SHIFTOUT c (BITS 5 0)) = (word_of_nat (0x80 + v mod 0x40) :: byte)"
    "ucast (0x80 OR SHIFTOUT c (BITS 11 6)) = (word_of_nat (0x80 + v div 0x40 mod 0x40) :: byte)"
    "ucast (0x80 OR SHIFTOUT c (BITS 17 12)) = (word_of_nat (0x80 + v div 0x1000 mod 0x40) :: byte)"
proof -
  have c: "unat c = v" by (simp add: c_def unat_ucast_up scalar_unat [OF assms(1)])
  show "ucast (0xc0 OR SHIFTOUT c (BITS 10 6)) = (word_of_nat (0xC0 + v div 0x40) :: byte)" if "v < 0x800"
  proof -
    have "v div 0x40 < 0x20" using that by (intro less_mult_imp_div_less) simp
    then show ?thesis using byte_or [of "SHIFTOUT c (BITS 10 6)" "v div 0x40" 6 3 "0xc0"] by (simp add: fields c)
  qed
  show "ucast (0xe0 OR SHIFTOUT c (BITS 15 12)) = (word_of_nat (0xE0 + v div 0x1000) :: byte)" if "v < 0x10000"
  proof -
    have "v div 0x1000 < 0x10" using that by (intro less_mult_imp_div_less) simp
    then show ?thesis using byte_or [of "SHIFTOUT c (BITS 15 12)" "v div 0x1000" 4 14 "0xe0"] by (simp add: fields c)
  qed
  have "v div 0x40000 < 8" using assms(1) by (intro less_mult_imp_div_less) (simp add: scalar_def)
  then show "ucast (0xf0 OR SHIFTOUT c (BITS 20 18)) = (word_of_nat (0xF0 + v div 0x40000) :: byte)"
    using byte_or [of "SHIFTOUT c (BITS 20 18)" "v div 0x40000" 4 15 "0xf0"] by (simp add: fields c)
  show "ucast (0x80 OR SHIFTOUT c (BITS 5 0)) = (word_of_nat (0x80 + v mod 0x40) :: byte)"
    using byte_or [of "SHIFTOUT c (BITS 5 0)" "v mod 0x40" 6 2 "0x80"] by (simp add: fields c)
  show "ucast (0x80 OR SHIFTOUT c (BITS 11 6)) = (word_of_nat (0x80 + v div 0x40 mod 0x40) :: byte)"
    using byte_or [of "SHIFTOUT c (BITS 11 6)" "v div 0x40 mod 0x40" 6 2 "0x80"] by (simp add: fields c)
  show "ucast (0x80 OR SHIFTOUT c (BITS 17 12)) = (word_of_nat (0x80 + v div 0x1000 mod 0x40) :: byte)"
    using byte_or [of "SHIFTOUT c (BITS 17 12)" "v div 0x1000 mod 0x40" 6 2 "0x80"] by (simp add: fields c)
qed

lemma m8_first:
  assumes "utf32_conversions to32 from32" "m8_initial S" "scalar v" "bytes_at m q (utf8 v)" "length (utf8 v) \<le> n" "UTF8_MB_CUR_MAX \<le> length mb"
  shows "\<exists>S'. mbrtoc8_l (Some to32) w mb m True (Some q) n S loc = Some ((Some (hd (utf8 v)), if v = 0 then 0 else of_nat (length (utf8 v))), S', w) \<and> m8_pending S' (tl (utf8 v))"
proof -
  have S: "nleft S = 0" "length (m8_buf S) = 3" "mb_initial (m8_mbs S)" using assms(2) by (simp_all add: m8_initial_def)
  obtain ps where ps: "mbrtoc32_l (Some to32) w mb m (Some q) n (m8_mbs S) loc = Some ((Some (word_of_nat v), if v = 0 then 0 else of_nat (length (utf8 v))), ps, w)" "mb_initial ps"
    using mbrtoc32_l_char [OF assms(1) S(3) assms(3-6)] by blast
  obtain b0 b1 b2 where b: "m8_buf S = [b0, b1, b2]" using S(2) by (auto simp: numeral_3_eq_3 length_Suc_conv)
  have u: "unat (word_of_nat v :: u32) = v" by (rule scalar_unat [OF assms(3)])
  have le: "(word_of_nat v :: u32) \<le> 0x7f \<longleftrightarrow> v < 0x80" "(word_of_nat v :: u32) \<le> 0x7ff \<longleftrightarrow> v < 0x800" "(word_of_nat v :: u32) \<le> 0xffff \<longleftrightarrow> v < 0x10000"
      "(word_of_nat v :: u32) \<le> 0x10ffff" using u assms(3) by (auto simp: word_le_nat_alt scalar_def)
  note m = m8_bytes [OF assms(3)]
  note sz = utf8_sizes [of v]
  consider "v = 0" | "v \<noteq> 0" "v < 0x80" | "0x80 \<le> v" "v < 0x800" | "0x800 \<le> v" "v < 0x10000" | "0x10000 \<le> v" by linarith
  then show ?thesis
  proof cases
    case 1
    then show ?thesis using ps S b by (simp add: mbrtoc8_l_def Let_def m8_pending_def utf8_def utf8_units_def)
  next
    case 2
    have "(ucast (word_of_nat v :: u32) :: byte) = word_of_nat v" using 2 u by (simp add: word_unat_eq_iff unsigned_ucast_eq unat_of_nat take_bit_eq_mod)
    then show ?thesis using 2 ps S b le sz by (simp add: mbrtoc8_l_def Let_def m8_pending_def) (simp add: utf8_def utf8_units_def)
  next
    case 3
    then show ?thesis using ps S b le sz m(1,4) by (simp add: mbrtoc8_l_def Let_def m8_pending_def) (simp add: utf8_def utf8_units_def)
  next
    case 4
    then show ?thesis using ps S b le sz m(2,4,5) by (simp add: mbrtoc8_l_def Let_def m8_pending_def) (simp add: utf8_def utf8_units_def)
  next
    case 5
    then show ?thesis using ps S b le sz m(3,4,5,6) by (simp add: mbrtoc8_l_def Let_def m8_pending_def) (simp add: utf8_def utf8_units_def)
  qed
qed

lemma m8_get_char:
  assumes "utf32_conversions to32 from32" "m8_initial S" "scalar v" "bytes_at m q (utf8 v)" "q + length (utf8 v) \<le> e" "UTF8_MB_CUR_MAX \<le> length mb"
  shows "\<exists>S'. get_units (\<lambda>q S w. mbrtoc8_l (Some to32) w mb m True (Some q) (e - q) S loc) (length (utf8 v)) q S w = Some (utf8 v, q + length (utf8 v), S', w) \<and> m8_initial S'"
proof -
  have "length (utf8 v) \<le> e - q" using assms(5) by simp
  then obtain S1 where 1: "mbrtoc8_l (Some to32) w mb m True (Some q) (e - q) S loc = Some ((Some (hd (utf8 v)), if v = 0 then 0 else of_nat (length (utf8 v))), S1, w)" "m8_pending S1 (tl (utf8 v))"
    using m8_first [OF assms(1-4) _ assms(6)] by blast
  obtain S2 where 2: "get_units (\<lambda>q S w. mbrtoc8_l (Some to32) w mb m True (Some q) (e - q) S loc) (length (tl (utf8 v))) (q + length (utf8 v)) S1 w = Some (tl (utf8 v), q + length (utf8 v), S2, w)" "m8_initial S2"
    using m8_rest [OF 1(2)] by blast
  have z: "v = 0 \<Longrightarrow> length (utf8 v) = 1" by (simp add: utf8_def utf8_units_def)
  have n: "utf8 v = hd (utf8 v) # tl (utf8 v)" using utf8_length_small(2) [of v] by (cases "utf8 v") auto
  then have l: "length (utf8 v) = Suc (length (tl (utf8 v)))" by (metis length_Cons)
  have "get_units (\<lambda>q S w. mbrtoc8_l (Some to32) w mb m True (Some q) (e - q) S loc) (Suc (length (tl (utf8 v)))) q S w = Some (hd (utf8 v) # tl (utf8 v), q + length (utf8 v), S2, w)"
    using 1(1) 2 utf8_sizes [of v] z by (cases "v = 0") auto
  then show ?thesis using 2(2) unfolding l [symmetric] n [symmetric] by blast
qed

interpretation utf8_bytes: unit_codec "utf32_conversions to32 from32 \<and> UTF8_MB_CUR_MAX \<le> length buf \<and> UTF8_MB_CUR_MAX \<le> length mb"
    "\<lambda>m d c S w. c8rtomb_l (Some from32) w buf m (Some d) c S loc" "\<lambda>m e q S w. mbrtoc8_l (Some to32) w mb m True (Some q) (e - q) S loc" utf8 "\<lambda>S. c8_holds S []" m8_initial
  for to32 from32 buf mb loc
  by unfold_locales (use c8_put_char m8_get_char in blast)+

section \<open>Texts survive\<close>

abbreviation text8 :: "nat list \<Rightarrow> byte list" where "text8 vs \<equiv> concat (map utf8 vs)"

abbreviation text16 :: "nat list \<Rightarrow> u16 list" where "text16 vs \<equiv> concat (map utf16 vs)"

text \<open>
  C38. In a UTF-8 locale, if the conversions to and from UTF-32LE are those of the Unicode standard, the UTF-16 code units of any text fed to \<open>c16rtomb\<close> one at a
  time store the UTF-8 encoding of the text, and \<open>mbrtoc16\<close>, called as often, gives the code units back, surrogate pairs included, and consumes exactly these bytes.
\<close>

theorem uchar16_round_trip:
  assumes "utf32_conversions to32 from32" "c16_initial S" "m16_initial T" "list_all scalar vs" "d + length (text8 vs) + UTF8_MB_CUR_MAX \<le> length m"
    "UTF8_MB_CUR_MAX \<le> length buf" "UTF8_MB_CUR_MAX \<le> length mb"
  shows "\<exists>m' S' T'. put_units (\<lambda>m d c S w. c16rtomb_l (Some from32) w buf m (Some d) c S loc) m d (text16 vs) S w = Some (m', d + length (text8 vs), S', w) \<and>
    m' = wr m d (text8 vs) \<and>
    get_units (\<lambda>q S w. mbrtoc16_l (Some to32) w mb m' True (Some q) (d + length (text8 vs) - q) S loc) (length (text16 vs)) d T w =
      Some (text16 vs, d + length (text8 vs), T', w)"
  using utf16_units.text_round_trip [OF _ assms(2-5)] assms(1,6,7) by blast

text \<open>The conversions of the Unicode standard.\<close>

definition iconv_to32 :: "byte list \<Rightarrow> nat \<Rightarrow> mb_err + byte list" where
  "iconv_to32 bs n = Inr (le32enc (if length bs = 1 then ucast (hd bs) else assemble (length bs) bs))"

definition iconv_from32 :: "byte list \<Rightarrow> nat \<Rightarrow> mb_err + byte list" where
  "iconv_from32 bs n = (case le32dec bs of None \<Rightarrow> Inl EINVAL | Some c \<Rightarrow> Inr (utf8 (unat c)))"

lemma iconv_exists: "utf32_conversions iconv_to32 iconv_from32"
proof -
  have "(if length (utf8 v) = 1 then ucast (hd (utf8 v)) else assemble (length (utf8 v)) (utf8 v)) = (word_of_nat v :: u32)" if "scalar v" for v
  proof (cases "length (utf8 v) = 1")
    case True
    then obtain b where b: "utf8 v = [b]" by (auto simp: length_Suc_conv)
    then have "v = unat b" using utf8_prefix_single [of v b] by simp
    then show ?thesis using b by (simp add: word_unat_eq_iff unat_ucast_up)
  next
    case False
    then show ?thesis using assemble_utf8 [OF that, of "[]"] utf8_length_small(2) [of v] by simp
  qed
  then show ?thesis by (simp add: utf32_conversions_def iconv_to32_def iconv_from32_def le32_round_trip scalar_unat)
qed

theorem uchar16_round_trip_witness:
  "\<exists>m' S' T'. put_units (\<lambda>m d c S w. c16rtomb_l (Some iconv_from32) w (replicate MB_LEN_MAX 0) m (Some d) c S 0) (replicate 20 0) 2 (text16 [0x41, 0x1F600])
      \<lparr>c16_surrogate = 0, c16_mbs = zero_mbstate\<rparr> demo_world = Some (m', 2 + length (text8 [0x41, 0x1F600]), S', demo_world) \<and>
    m' = wr (replicate 20 0) 2 (text8 [0x41, 0x1F600]) \<and>
    get_units (\<lambda>q S w. mbrtoc16_l (Some iconv_to32) w (replicate MB_LEN_MAX 0) m' True (Some q) (2 + length (text8 [0x41, 0x1F600]) - q) S 0) (length (text16 [0x41, 0x1F600])) 2
      \<lparr>m16_surrogate = 0, m16_mbs = zero_mbstate\<rparr> demo_world = Some (text16 [0x41, 0x1F600], 2 + length (text8 [0x41, 0x1F600]), T', demo_world)"
  by (rule uchar16_round_trip) (simp_all add: iconv_exists c16_initial_def m16_initial_def scalar_def utf8_def utf8_units_def UTF8_MB_CUR_MAX_def MB_LEN_MAX_def)

text \<open>
  C39. The same for UTF-8 code units: \<open>c8rtomb\<close>, which checks them with its automaton, and \<open>mbrtoc8\<close>, which delivers them from its buffer.
\<close>

theorem uchar8_round_trip:
  assumes "utf32_conversions to32 from32" "c8_holds S []" "m8_initial T" "list_all scalar vs" "d + length (text8 vs) + UTF8_MB_CUR_MAX \<le> length m"
    "UTF8_MB_CUR_MAX \<le> length buf" "UTF8_MB_CUR_MAX \<le> length mb"
  shows "\<exists>m' S' T'. put_units (\<lambda>m d c S w. c8rtomb_l (Some from32) w buf m (Some d) c S loc) m d (text8 vs) S w = Some (m', d + length (text8 vs), S', w) \<and>
    m' = wr m d (text8 vs) \<and>
    get_units (\<lambda>q S w. mbrtoc8_l (Some to32) w mb m' True (Some q) (d + length (text8 vs) - q) S loc) (length (text8 vs)) d T w =
      Some (text8 vs, d + length (text8 vs), T', w)"
  using utf8_bytes.text_round_trip [OF _ assms(2-5)] assms(1,6,7) by blast

theorem uchar8_round_trip_witness:
  "\<exists>m' S' T'. put_units (\<lambda>m d c S w. c8rtomb_l (Some iconv_from32) w (replicate MB_LEN_MAX 0) m (Some d) c S 0) (replicate 20 0) 2 (text8 [0x41, 0x20AC])
      \<lparr>state_c32 = 0, c8_mbs = zero_mbstate\<rparr> demo_world = Some (m', 2 + length (text8 [0x41, 0x20AC]), S', demo_world) \<and>
    m' = wr (replicate 20 0) 2 (text8 [0x41, 0x20AC]) \<and>
    get_units (\<lambda>q S w. mbrtoc8_l (Some iconv_to32) w (replicate MB_LEN_MAX 0) m' True (Some q) (2 + length (text8 [0x41, 0x20AC]) - q) S 0) (length (text8 [0x41, 0x20AC])) 2
      \<lparr>nleft = 0, m8_buf = [0, 0, 0], m8_mbs = zero_mbstate\<rparr> demo_world = Some (text8 [0x41, 0x20AC], 2 + length (text8 [0x41, 0x20AC]), T', demo_world)"
  by (rule uchar8_round_trip) (simp_all add: iconv_exists c8_holds_def m8_initial_def scalar_def utf8_def utf8_units_def UTF8_MB_CUR_MAX_def MB_LEN_MAX_def)

end
