(* ===== verification/Sort_Core.thy ===== *)
theory Sort_Core
  imports Cmem "HOL-Library.Multiset"
begin

text \<open>
  What the sorting and searching routines of \<^verbatim>\<open>src/libc/stdlib\<close> share: an array of \<open>n\<close> objects of \<open>es\<close> bytes in
  memory, and the caller's comparison function.  The comparison function is a parameter; it sees the
  bytes of its two objects (\<open>elt\<close>, a checked read).  The locale \<open>c_order\<close> states what the manual page asks of
  it: the sign is antisymmetric and \<open>\<le> 0\<close> is transitive.  A memory is written as \<open>emb pre xs post\<close> to show
  the array: \<open>xs\<close> lists its objects, and the rest of the memory stays where it is.
\<close>

section \<open>Objects in memory\<close>

definition elt :: "mem \<Rightarrow> nat \<Rightarrow> nat \<Rightarrow> byte list option" where
  "elt m es p = (if p + es \<le> length m then Some (take es (drop p m)) else None)"

type_synonym compar = "byte list \<Rightarrow> byte list \<Rightarrow> int"

definition call_cmp :: "compar \<Rightarrow> mem \<Rightarrow> nat \<Rightarrow> nat \<Rightarrow> nat \<Rightarrow> int option" where
  "call_cmp cmp m es p q = do { x \<leftarrow> elt m es p; y \<leftarrow> elt m es q; Some (cmp x y) }"

definition blocks :: "nat \<Rightarrow> byte list list \<Rightarrow> bool" where
  "blocks es xs \<longleftrightarrow> (\<forall>x \<in> set xs. length x = es)"

text \<open>The objects of the array at \<open>a\<close>.\<close>

definition elts :: "mem \<Rightarrow> nat \<Rightarrow> nat \<Rightarrow> nat \<Rightarrow> byte list list" where
  "elts m a es n = map (\<lambda>i. take es (drop (a + i * es) m)) [0..<n]"

lemma blocks_simps [simp]: "blocks es []" "blocks es (x # xs) \<longleftrightarrow> length x = es \<and> blocks es xs"
  "blocks es (xs @ ys) \<longleftrightarrow> blocks es xs \<and> blocks es ys"
  by (auto simp: blocks_def)

lemma blocks_mset: "mset xs = mset ys \<Longrightarrow> blocks es xs \<longleftrightarrow> blocks es ys"
  unfolding blocks_def by (metis set_mset_mset)

lemma blocks_take_drop: "blocks es xs \<Longrightarrow> blocks es (take k xs)" "blocks es xs \<Longrightarrow> blocks es (drop k xs)"
  by (auto simp: blocks_def dest: in_set_takeD in_set_dropD)

lemma length_concat_blocks: "blocks es xs \<Longrightarrow> length (concat xs) = length xs * es"
  by (induction xs) auto

lemma blocks_elts [simp]: "a + n * es \<le> length m \<Longrightarrow> blocks es (elts m a es n)" and length_elts [simp]: "length (elts m a es n) = n"
proof -
  assume "a + n * es \<le> length m"
  moreover have "i * es + es \<le> n * es" if "i < n" for i using that mult_le_mono1 [of "Suc i" n es] by simp
  ultimately show "blocks es (elts m a es n)" by (fastforce simp: blocks_def elts_def)
qed (simp add: elts_def)

lemma elts_Suc: "elts m a es (Suc n) = take es (drop a m) # elts m (a + es) es n"
  unfolding elts_def by (simp only: upt_conv_Cons zero_less_Suc list.map map_Suc_upt [symmetric] map_map) (simp add: add.assoc)

lemma concat_elts: "a + n * es \<le> length m \<Longrightarrow> concat (elts m a es n) = take (n * es) (drop a m)"
proof (induction n arbitrary: a)
  case (Suc n)
  then show ?case using take_drop_add [of es "n * es" a m] by (simp add: elts_Suc)
qed (simp add: elts_def)

lemma mem_elts: "a + n * es \<le> length m \<Longrightarrow> m = take a m @ concat (elts m a es n) @ drop (a + n * es) m"
proof -
  assume "a + n * es \<le> length m"
  then show ?thesis unfolding concat_elts [OF \<open>a + n * es \<le> length m\<close>]
    by (metis append_take_drop_id drop_drop add.commute)
qed

text \<open>The memory with the objects \<open>xs\<close> after \<open>pre\<close>, and reading the object after \<open>u\<close>.\<close>

definition emb :: "mem \<Rightarrow> byte list list \<Rightarrow> mem \<Rightarrow> mem" where
  "emb pre xs post = pre @ concat xs @ post"

lemma length_emb: "blocks es xs \<Longrightarrow> length (emb pre xs post) = length pre + length xs * es + length post"
  by (simp add: emb_def length_concat_blocks)

lemma elts_emb: "blocks es xs \<Longrightarrow> elts (emb pre xs post) (length pre) es (length xs) = xs"
proof (induction xs arbitrary: pre)
  case (Cons x xs)
  then show ?case using Cons.IH [of "pre @ x"] by (simp add: elts_Suc emb_def)
qed (simp add: elts_def)

lemma emb_elts: "a + n * es \<le> length m \<Longrightarrow> m = emb (take a m) (elts m a es n) (drop (a + n * es) m)"
  unfolding emb_def by (rule mem_elts)

lemma emb_shift: "emb pre (u @ v) post = emb (pre @ concat u) v post" "emb pre (u @ v) post = emb pre u (concat v @ post)"
  by (simp_all add: emb_def)

text \<open>The address of object \<open>i\<close>.\<close>

definition slot :: "mem \<Rightarrow> nat \<Rightarrow> nat \<Rightarrow> nat" where
  "slot pre es i = length pre + i * es"

lemma slot_simps [simp]: "slot pre es 0 = length pre" "slot pre es i + es = slot pre es (Suc i)" "slot pre es (Suc i) - es = slot pre es i"
  by (simp_all add: slot_def)

lemma slot_le: "0 < es \<Longrightarrow> slot pre es i \<le> slot pre es j \<longleftrightarrow> i \<le> j" "0 < es \<Longrightarrow> slot pre es i < slot pre es j \<longleftrightarrow> i < j"
  by (simp_all add: slot_def)

lemma slot_diff: "slot pre es i - slot pre es j = (i - j) * es"
  by (simp add: slot_def diff_mult_distrib)

lemma slot_add: "slot pre es i + j * es = slot pre es (i + j)" "j \<le> i \<Longrightarrow> slot pre es i - j * es = slot pre es (i - j)"
proof -
  show "slot pre es i + j * es = slot pre es (i + j)" by (simp add: slot_def add_mult_distrib)
  assume "j \<le> i"
  then obtain k where "i = j + k" using le_Suc_ex by blast
  then show "slot pre es i - j * es = slot pre es (i - j)" by (simp add: slot_def add_mult_distrib)
qed

lemma elt_emb: "blocks es xs \<Longrightarrow> xs = u @ x # v \<Longrightarrow> elt (emb pre xs post) es (slot pre es (length u)) = Some x"
  by (auto simp: elt_def length_concat_blocks emb_def slot_def)

lemma call_cmp_emb:
  assumes "blocks es xs" "xs = u @ x # v" "xs = u' @ y # v'" "i = length u" "j = length u'"
  shows "call_cmp cmp (emb pre xs post) es (slot pre es i) (slot pre es j) = Some (cmp x y)"
  unfolding call_cmp_def assms(4,5) elt_emb [OF assms(1,2)] elt_emb [OF assms(1,3)] by simp

lemma call_cmp_slots: "blocks es xs \<Longrightarrow> i < length xs \<Longrightarrow> j < length xs \<Longrightarrow>
    call_cmp cmp (emb pre xs post) es (slot pre es i) (slot pre es j) = Some (cmp (xs ! i) (xs ! j))"
  by (rule call_cmp_emb [OF _ id_take_nth_drop id_take_nth_drop]) simp_all

section \<open>The comparison function\<close>

locale c_order =
  fixes cmp :: "byte list \<Rightarrow> byte list \<Rightarrow> int" and es :: nat
  assumes anti: "length x = es \<Longrightarrow> length y = es \<Longrightarrow> sgn (cmp x y) = - sgn (cmp y x)"
    and trans: "length x = es \<Longrightarrow> length y = es \<Longrightarrow> length z = es \<Longrightarrow> cmp x y \<le> 0 \<Longrightarrow> cmp y z \<le> 0 \<Longrightarrow> cmp x z \<le> 0"
begin

lemma flip: "length x = es \<Longrightarrow> length y = es \<Longrightarrow> cmp x y < 0 \<longleftrightarrow> cmp y x > 0"
  "length x = es \<Longrightarrow> length y = es \<Longrightarrow> cmp x y = 0 \<longleftrightarrow> cmp y x = 0"
  "length x = es \<Longrightarrow> length y = es \<Longrightarrow> cmp x y \<le> 0 \<longleftrightarrow> cmp y x \<ge> 0"
  using anti [of x y] by (auto simp: sgn_if split: if_splits)

lemma trans_less: "length x = es \<Longrightarrow> length y = es \<Longrightarrow> length z = es \<Longrightarrow> cmp x y < 0 \<Longrightarrow> cmp y z \<le> 0 \<Longrightarrow> cmp x z < 0"
  using trans [of y z x] flip(1,3) [of x y] flip(3) [of x z] flip(3) [of z x] by (metis linorder_not_less)

lemma total: "length x = es \<Longrightarrow> length y = es \<Longrightarrow> cmp x y \<le> 0 \<or> cmp y x \<le> 0"
  using flip(3) [of x y] by linarith

end

definition in_order :: "(byte list \<Rightarrow> byte list \<Rightarrow> int) \<Rightarrow> byte list list \<Rightarrow> bool" where
  "in_order cmp = sorted_wrt (\<lambda>x y. cmp x y \<le> 0)"

lemma in_order_simps [simp]: "in_order cmp []" "in_order cmp (x # xs) \<longleftrightarrow> (\<forall>y \<in> set xs. cmp x y \<le> 0) \<and> in_order cmp xs"
  "in_order cmp (xs @ ys) \<longleftrightarrow> in_order cmp xs \<and> in_order cmp ys \<and> (\<forall>x \<in> set xs. \<forall>y \<in> set ys. cmp x y \<le> 0)"
  by (simp_all add: in_order_def sorted_wrt_append)

section \<open>\<^verbatim>\<open>memcmp\<close> as comparison function\<close>

definition memcmp_objects :: "byte list \<Rightarrow> byte list \<Rightarrow> int" where
  "memcmp_objects x y = (case memcmp (x @ y) 0 (length x) (length x) of Some r \<Rightarrow> r | None \<Rightarrow> 0)"

lemma memcmp_objects_order:
  assumes "length x = length y"
  shows "(memcmp_objects x y < 0 \<longleftrightarrow> byte_lex x y) \<and> (memcmp_objects x y = 0 \<longleftrightarrow> x = y)"
  using memcmp_order [of 0 "length x" "x @ y" "length x"] assms by (auto simp: memcmp_objects_def)

lemma memcmp_objects_le: "length x = length y \<Longrightarrow> memcmp_objects x y \<le> 0 \<longleftrightarrow> byte_lex x y \<or> x = y"
  using memcmp_objects_order [of x y] by linarith

interpretation memcmp_ord: c_order memcmp_objects es for es
proof
  fix x y :: "byte list"
  assume l: "length x = es" "length y = es"
  consider "byte_lex x y" "\<not> byte_lex y x" "x \<noteq> y" | "x = y" | "byte_lex y x" "\<not> byte_lex x y" "x \<noteq> y" using byte_lex_total by blast
  then show "sgn (memcmp_objects x y) = - sgn (memcmp_objects y x)"
  proof cases
    case 1
    then have "memcmp_objects x y < 0" "memcmp_objects y x > 0" using memcmp_objects_order [of x y] memcmp_objects_order [of y x] l by force+
    then show ?thesis by simp
  next
    case 2
    then show ?thesis using memcmp_objects_order [of x x] by simp
  next
    case 3
    then have "memcmp_objects x y > 0" "memcmp_objects y x < 0" using memcmp_objects_order [of x y] memcmp_objects_order [of y x] l by force+
    then show ?thesis by simp
  qed
next
  fix x y z :: "byte list"
  assume l: "length x = es" "length y = es" "length z = es" and "memcmp_objects x y \<le> 0" "memcmp_objects y z \<le> 0"
  then have "byte_lex x y \<or> x = y" "byte_lex y z \<or> y = z" using memcmp_objects_le by auto
  moreover have "trans {(a, b). a < (b :: byte)}" by (auto intro: transI)
  ultimately have "byte_lex x z \<or> x = z" using lexord_trans by blast
  then show "memcmp_objects x z \<le> 0" using memcmp_objects_le l by auto
qed

end
