(* ===== verification/Qsort.thy ===== *)
theory Qsort
  imports Sort_Core
begin

text \<open>
  \<^verbatim>\<open>src/libc/stdlib/qsort.c\<close>: Bentley and McIlroy's quicksort on an array of objects in memory, with its choice of
  a swap routine by size and alignment, the insertion sort of short arrays, the median of three or nine,
  the partition into less, equal and greater objects, and the recursion into the smaller side.  The loops
  may run forever (with objects of no bytes they do), so they are partial functions: \<open>None\<close> means
  that the call does not return or leaves the memory.
\<close>

section \<open>The program\<close>

text \<open>\<^verbatim>\<open>swapcode\<close>: \<open>i\<close> words of \<open>k\<close> bytes change places.  The body runs before the count is tested, and a count of
  0 would wrap and take the loop out of the memory.\<close>

fun swapcode :: "nat \<Rightarrow> nat \<Rightarrow> mem \<Rightarrow> nat \<Rightarrow> nat \<Rightarrow> mem option" where
  "swapcode k 0 m pi pj = None"
| "swapcode k (Suc i) m pi pj = do {
     t \<leftarrow> ldw k m pi;
     u \<leftarrow> ldw k m pj;
     m \<leftarrow> stw k m pi u;
     m \<leftarrow> stw k m pj t;
     if i > 0 then swapcode k i m (pi + k) (pj + k) else Some m }"

definition swapinit :: "nat \<Rightarrow> nat \<Rightarrow> nat" where
  "swapinit a es = (if a mod 8 \<noteq> 0 \<or> es mod 8 \<noteq> 0 then 2 else if es = 8 then 0 else 1)"

definition swapfunc :: "mem \<Rightarrow> nat \<Rightarrow> nat \<Rightarrow> nat \<Rightarrow> nat \<Rightarrow> mem option" where
  "swapfunc m a b n swaptype = (if swaptype \<le> 1 then swapcode 8 (n div 8) m a b else swapcode 1 (n div 1) m a b)"

definition swap_elt :: "nat \<Rightarrow> nat \<Rightarrow> mem \<Rightarrow> nat \<Rightarrow> nat \<Rightarrow> mem option" where
  "swap_elt swaptype es m a b = (if swaptype = 0 then do {
       t \<leftarrow> ldw 8 m a;
       u \<leftarrow> ldw 8 m b;
       m \<leftarrow> stw 8 m a u;
       stw 8 m b t }
     else swapfunc m a b es swaptype)"

definition vecswap :: "nat \<Rightarrow> mem \<Rightarrow> nat \<Rightarrow> nat \<Rightarrow> nat \<Rightarrow> mem option" where
  "vecswap swaptype m a b n = (if n > 0 then swapfunc m a b n swaptype else Some m)"

definition med3 :: "compar \<Rightarrow> mem \<Rightarrow> nat \<Rightarrow> nat \<Rightarrow> nat \<Rightarrow> nat \<Rightarrow> nat option" where
  "med3 cmp m es a b c = do {
     ab \<leftarrow> call_cmp cmp m es a b;
     bc \<leftarrow> call_cmp cmp m es b c;
     if ab < 0 then
       if bc < 0 then Some b else do { ac \<leftarrow> call_cmp cmp m es a c; Some (if ac < 0 then c else a) }
     else
       if bc > 0 then Some b else do { ac \<leftarrow> call_cmp cmp m es a c; Some (if ac < 0 then a else c) } }"

text \<open>The insertion sort of fewer than seven objects: its inner and its outer loop.\<close>

partial_function (option) ins_inner :: "compar \<Rightarrow> nat \<Rightarrow> nat \<Rightarrow> nat \<Rightarrow> mem \<Rightarrow> nat \<Rightarrow> mem option" where
  "ins_inner cmp a es swaptype m pl = (if pl > a then do {
       r \<leftarrow> call_cmp cmp m es (pl - es) pl;
       if r > 0 then do {
         m \<leftarrow> swap_elt swaptype es m pl (pl - es);
         ins_inner cmp a es swaptype m (pl - es) }
       else Some m }
     else Some m)"

partial_function (option) ins_outer :: "compar \<Rightarrow> nat \<Rightarrow> nat \<Rightarrow> nat \<Rightarrow> nat \<Rightarrow> mem \<Rightarrow> nat \<Rightarrow> mem option" where
  "ins_outer cmp a n es swaptype m pm = (if pm < a + n * es then do {
       m \<leftarrow> ins_inner cmp a es swaptype m pm;
       ins_outer cmp a n es swaptype m (pm + es) }
     else Some m)"

text \<open>The choice of the pivot.\<close>

definition pivot :: "compar \<Rightarrow> mem \<Rightarrow> nat \<Rightarrow> nat \<Rightarrow> nat \<Rightarrow> nat option" where
  "pivot cmp m a n es = (let pm = a + (n div 2) * es in
     if n > 7 then do {
       let pl = a;
       let pn = a + (n - 1) * es;
       (pl, pm, pn) \<leftarrow> (if n > 40 then do {
           let d = (n div 8) * es;
           pl \<leftarrow> med3 cmp m es pl (pl + d) (pl + 2 * d);
           pm \<leftarrow> med3 cmp m es (pm - d) pm (pm + d);
           pn \<leftarrow> med3 cmp m es (pn - 2 * d) (pn - d) pn;
           Some (pl, pm, pn) }
         else Some (pl, pm, pn));
       med3 cmp m es pl pm pn }
     else Some pm)"

text \<open>The two scans of the partition and the loop around them.\<close>

partial_function (option) scan_up :: "compar \<Rightarrow> nat \<Rightarrow> nat \<Rightarrow> nat \<Rightarrow> mem \<Rightarrow> nat \<Rightarrow> nat \<Rightarrow> nat \<Rightarrow> (mem \<times> nat \<times> nat) option" where
  "scan_up cmp a es swaptype m pa pb pc = (if pb \<le> pc then do {
       r \<leftarrow> call_cmp cmp m es pb a;
       if r \<le> 0 then
         if r = 0 then do {
           m \<leftarrow> swap_elt swaptype es m pa pb;
           scan_up cmp a es swaptype m (pa + es) (pb + es) pc }
         else scan_up cmp a es swaptype m pa (pb + es) pc
       else Some (m, pa, pb) }
     else Some (m, pa, pb))"

partial_function (option) scan_down :: "compar \<Rightarrow> nat \<Rightarrow> nat \<Rightarrow> nat \<Rightarrow> mem \<Rightarrow> nat \<Rightarrow> nat \<Rightarrow> nat \<Rightarrow> (mem \<times> nat \<times> nat) option" where
  "scan_down cmp a es swaptype m pb pc pd = (if pb \<le> pc then do {
       r \<leftarrow> call_cmp cmp m es pc a;
       if r \<ge> 0 then
         if r = 0 then do {
           m \<leftarrow> swap_elt swaptype es m pc pd;
           scan_down cmp a es swaptype m pb (pc - es) (pd - es) }
         else scan_down cmp a es swaptype m pb (pc - es) pd
       else Some (m, pc, pd) }
     else Some (m, pc, pd))"

partial_function (option) part_loop :: "compar \<Rightarrow> nat \<Rightarrow> nat \<Rightarrow> nat \<Rightarrow> mem \<Rightarrow> nat \<Rightarrow> nat \<Rightarrow> nat \<Rightarrow> nat \<Rightarrow>
    (mem \<times> nat \<times> nat \<times> nat \<times> nat) option" where
  "part_loop cmp a es swaptype m pa pb pc pd = do {
     (m, pa, pb) \<leftarrow> scan_up cmp a es swaptype m pa pb pc;
     (m, pc, pd) \<leftarrow> scan_down cmp a es swaptype m pb pc pd;
     if pb > pc then Some (m, pa, pb, pc, pd)
     else do {
       m \<leftarrow> swap_elt swaptype es m pb pc;
       part_loop cmp a es swaptype m pa (pb + es) (pc - es) pd } }"

text \<open>Partition around the pivot, and move the equal objects to the middle: the memory, and the bytes
  \<open>r\<close> and \<open>s\<close> of the two sides that are left to sort.\<close>

definition divide :: "compar \<Rightarrow> mem \<Rightarrow> nat \<Rightarrow> nat \<Rightarrow> nat \<Rightarrow> (mem \<times> nat \<times> nat) option" where
  "divide cmp m a n es = do {
     let swaptype = swapinit a es;
     pm \<leftarrow> pivot cmp m a n es;
     m \<leftarrow> swap_elt swaptype es m a pm;
     (m, pa, pb, pc, pd) \<leftarrow> part_loop cmp a es swaptype m (a + es) (a + es) (a + (n - 1) * es) (a + (n - 1) * es);
     let pn = a + n * es;
     let r = (if pa - a < pb - pa then pa - a else pb - pa);
     m \<leftarrow> vecswap swaptype m a (pb - r) r;
     let r = (if pd - pc < pn - pd - es then pd - pc else pn - pd - es);
     m \<leftarrow> vecswap swaptype m pb (pn - r) r;
     Some (m, pb - pa, pd - pc) }"

partial_function (option) qsort_r :: "compar \<Rightarrow> nat \<Rightarrow> mem \<Rightarrow> nat \<Rightarrow> nat \<Rightarrow> mem option" where
  "qsort_r cmp es m a n = (
     if n < 7 then ins_outer cmp a n es (swapinit a es) m (a + es)
     else do {
       (m, r, s) \<leftarrow> divide cmp m a n es;
       let pn = a + n * es;
       if r < s then
         if s > es then do {
           m \<leftarrow> (if r > es then qsort_r cmp es m a (r div es) else Some m);
           qsort_r cmp es m (pn - s) (s div es) }
         else Some m
       else
         if r > es then do {
           m \<leftarrow> (if s > es then qsort_r cmp es m (pn - s) (s div es) else Some m);
           qsort_r cmp es m a (r div es) }
         else Some m })"

section \<open>Swapping\<close>

lemma ldw_seg: "p = length A \<Longrightarrow> length A mod k = 0 \<Longrightarrow> length B = k \<Longrightarrow> ldw k (A @ B @ C) p = Some B"
  by (simp add: ldw_def)

lemma stw_seg: "p = length A \<Longrightarrow> length A mod k = 0 \<Longrightarrow> length B = k \<Longrightarrow> length B' = k \<Longrightarrow> stw k (A @ B @ C) p B' = Some (A @ B' @ C)"
  by (simp add: stw_def wr_conv)

text \<open>The two addresses, in either order.\<close>

definition at_two :: "nat \<Rightarrow> nat \<Rightarrow> nat \<Rightarrow> nat \<Rightarrow> bool" where
  "at_two a b p q \<longleftrightarrow> p = a \<and> q = b \<or> p = b \<and> q = a"

lemma swap_words:
  assumes "length A mod k = 0" "length (A @ B @ C) mod k = 0" "length B = k" "length D = k" "at_two (length A) (length (A @ B @ C)) p q"
  shows "do { t \<leftarrow> ldw k (A @ B @ C @ D @ E) p; u \<leftarrow> ldw k (A @ B @ C @ D @ E) q;
      m \<leftarrow> stw k (A @ B @ C @ D @ E) p u; m \<leftarrow> stw k m q t; f m } = f (A @ D @ C @ B @ E)"
proof -
  have ld: "ldw k (A @ B @ C @ D @ E) (length A) = Some B" "ldw k (A @ B @ C @ D @ E) (length (A @ B @ C)) = Some D"
    using ldw_seg [of "length A" A k B] ldw_seg [of "length (A @ B @ C)" "A @ B @ C" k D E] assms(1-4) by simp_all
  have lo: "stw k (A @ B @ C @ X @ E) (length A) D = Some (A @ D @ C @ X @ E)" for X using assms by (intro stw_seg) simp_all
  have hi: "length X = k \<Longrightarrow> stw k (A @ X @ C @ D @ E) (length (A @ B @ C)) B = Some (A @ X @ C @ B @ E)" for X
    using stw_seg [of "length (A @ B @ C)" "A @ X @ C" k D B E] assms(1-4) by simp
  from assms(5) show ?thesis unfolding at_two_def
  proof (elim disjE conjE)
    assume p: "p = length A" "q = length (A @ B @ C)"
    show ?thesis unfolding p ld by (simp only: bind.bind_lunit lo hi assms(4))
  next
    assume p: "p = length (A @ B @ C)" "q = length A"
    show ?thesis unfolding p ld by (simp only: bind.bind_lunit lo hi assms(3))
  qed
qed

lemma swapcode_segs:
  "0 < i \<Longrightarrow> 0 < k \<Longrightarrow> length A mod k = 0 \<Longrightarrow> length (A @ B @ C) mod k = 0 \<Longrightarrow> length B = i * k \<Longrightarrow> length D = i * k \<Longrightarrow>
    at_two (length A) (length (A @ B @ C)) p q \<Longrightarrow> swapcode k i (A @ B @ C @ D @ E) p q = Some (A @ D @ C @ B @ E)"
proof (induction i arbitrary: A B C D p q)
  case (Suc i)
  define B1 B2 D1 D2 where "B1 = take k B" and "B2 = drop k B" and "D1 = take k D" and "D2 = drop k D"
  have l: "length B1 = k" "length D1 = k" "length B2 = i * k" "length D2 = i * k" "B = B1 @ B2" "D = D1 @ D2"
    using Suc.prems by (simp_all add: B1_def B2_def D1_def D2_def)
  have mod: "length (A @ B1 @ B2 @ C) mod k = 0" using Suc.prems(4) l by simp
  have step: "swapcode k (Suc i) (A @ B1 @ (B2 @ C) @ D1 @ (D2 @ E)) p q =
      (if i > 0 then swapcode k i (A @ D1 @ (B2 @ C) @ B1 @ (D2 @ E)) (p + k) (q + k) else Some (A @ D1 @ (B2 @ C) @ B1 @ (D2 @ E)))"
    unfolding swapcode.simps by (rule swap_words) (use Suc.prems(3,7) mod l in simp_all)
  show ?case
  proof (cases "i = 0")
    case True
    then show ?thesis using step l by simp
  next
    case False
    have "at_two (length (A @ D1)) (length ((A @ D1) @ B2 @ (C @ B1))) (p + k) (q + k)"
      using Suc.prems(7) l by (auto simp: at_two_def)
    then have "swapcode k i ((A @ D1) @ B2 @ (C @ B1) @ D2 @ E) (p + k) (q + k) = Some ((A @ D1) @ D2 @ (C @ B1) @ B2 @ E)"
      by (rule Suc.IH [rotated -1]) (use False Suc.prems l mod in \<open>simp_all add: add.assoc [symmetric]\<close>)
    then show ?thesis using step False l by simp
  qed
qed simp

lemma swapcode_same: "0 < i \<Longrightarrow> p mod k = 0 \<Longrightarrow> p + i * k \<le> length m \<Longrightarrow> swapcode k i m p p = Some m"
proof (induction i arbitrary: p)
  case (Suc i)
  have w: "ldw k m p = Some (take k (drop p m))" "stw k m p (take k (drop p m)) = Some m"
    using Suc.prems by (auto simp: ldw_def stw_def wr_conv) (metis append_take_drop_id drop_drop add.commute)
  show ?case using Suc.IH [of "p + k"] Suc.prems w by (cases "i = 0") (simp_all add: ac_simps)
qed simp

text \<open>What the routine chosen by \<open>swapinit\<close> does to whole objects.\<close>

lemma swapinit_cases:
  "swapinit a es = 2 \<or> (swapinit a es = 1 \<or> swapinit a es = 0 \<and> es = 8) \<and> a mod 8 = 0 \<and> es mod 8 = 0"
  by (simp add: swapinit_def)

lemma aligned: "a mod 8 = 0 \<Longrightarrow> es mod 8 = 0 \<Longrightarrow> (a + j * es) mod (8 :: nat) = 0"
  by (metis add_0 mod_add_eq mod_mult_right_eq mult_0_right mod_0)

lemma swapfunc_emb:
  assumes b: "blocks es (u @ P @ v @ Q @ w)" and l: "length P = r" "length Q = r" "0 < r" "0 < es"
    and pq: "at_two (slot pre es (length u)) (slot pre es (length u + r + length v)) p q"
  shows "swapfunc (emb pre (u @ P @ v @ Q @ w) post) p q (r * es) (swapinit (length pre) es)
    = Some (emb pre (u @ Q @ v @ P @ w) post)"
proof -
  define A where "A = pre @ concat u"
  have lens: "length A = slot pre es (length u)" "length (A @ concat P @ concat v) = slot pre es (length u + r + length v)"
    "length (concat P) = r * es" "length (concat Q) = r * es"
    using b l by (simp_all add: A_def length_concat_blocks [of es] add_mult_distrib slot_def)
  have e: "emb pre (u @ P @ v @ Q @ w) post = A @ concat P @ concat v @ concat Q @ concat w @ post"
    "emb pre (u @ Q @ v @ P @ w) post = A @ concat Q @ concat v @ concat P @ concat w @ post" by (simp_all add: emb_def A_def)
  consider "swapinit (length pre) es = 2" | "swapinit (length pre) es \<le> 1" "length pre mod 8 = 0" "es mod 8 = 0"
    using swapinit_cases [of "length pre" es] by fastforce
  then show ?thesis
  proof cases
    case 1
    then show ?thesis unfolding e using pq [folded lens(1,2)] lens(3,4) l swapcode_segs [of "r * es" 1 A "concat P" "concat v" "concat Q"]
      by (simp add: swapfunc_def)
  next
    case 2
    obtain k where k: "es = k * 8" using 2(3) by (metis dvd_div_mult_self mod_0_imp_dvd)
    then have "r * es div 8 = r * k" "0 < r * k" "r * es = r * k * 8" using l by simp_all
    moreover have "length A mod 8 = 0" "length (A @ concat P @ concat v) mod 8 = 0" unfolding lens slot_def by (rule aligned [OF 2(2,3)])+
    ultimately show ?thesis unfolding e using pq [folded lens(1,2)] lens(3,4) 2(1) swapcode_segs [of "r * k" 8 A "concat P" "concat v" "concat Q"]
      by (simp add: swapfunc_def)
  qed
qed

lemma swap_elt_emb:
  assumes "blocks es (u @ x # v @ y # w)" "0 < es" "at_two (slot pre es (length u)) (slot pre es (length u + 1 + length v)) p q"
  shows "swap_elt (swapinit (length pre) es) es (emb pre (u @ x # v @ y # w) post) p q = Some (emb pre (u @ y # v @ x # w) post)"
proof (cases "swapinit (length pre) es = 0")
  case False
  then show ?thesis using swapfunc_emb [of es u "[x]" v "[y]" w 1 pre p q post] assms by (simp add: swap_elt_def)
next
  case True
  then have al: "length pre mod 8 = 0" "es = 8" using swapinit_cases [of "length pre" es] by simp_all
  define A where "A = pre @ concat u"
  have p: "at_two (length A) (length (A @ x @ concat v)) p q" "length A mod 8 = 0" "length (A @ x @ concat v) mod 8 = 0"
    using assms(1,3) al aligned [of "length pre" 8 "length u"] aligned [of "length pre" 8 "length u + 1 + length v"]
    by (simp_all add: A_def length_concat_blocks [of 8] add_mult_distrib ac_simps slot_def)
  show ?thesis using swap_words [of A 8 x "concat v" y p q "concat w @ post" Some] p assms(1) al True
    by (simp add: swap_elt_def emb_def A_def)
qed

lemma swap_elt_same:
  assumes "blocks es (u @ x # w)" "0 < es" "p = slot pre es (length u)"
  shows "swap_elt (swapinit (length pre) es) es (emb pre (u @ x # w) post) p p = Some (emb pre (u @ x # w) post)"
proof -
  have room: "p + es \<le> length (emb pre (u @ x # w) post)" using assms by (simp add: length_emb [of es] add_mult_distrib slot_def)
  consider "swapinit (length pre) es = 2" | "swapinit (length pre) es = 1" "p mod 8 = 0" "es mod 8 = 0"
    | "swapinit (length pre) es = 0" "es = 8" "p mod 8 = 0"
    using swapinit_cases [of "length pre" es] aligned [of "length pre" es "length u"] assms(3) unfolding slot_def by fastforce
  then show ?thesis
  proof cases
    case 1
    then show ?thesis using swapcode_same [of es p 1] room assms(2) by (simp add: swap_elt_def swapfunc_def)
  next
    case 2
    then have "es = es div 8 * 8" by (metis dvd_div_mult_self mod_0_imp_dvd)
    then show ?thesis using 2 swapcode_same [of "es div 8" p 8] room assms(2) by (cases "es div 8") (simp_all add: swap_elt_def swapfunc_def)
  next
    case 3
    then show ?thesis using swapcode_same [of 1 p 8] room by (simp add: swap_elt_def)
  qed
qed


lemma vecswap_emb:
  assumes "blocks es (u @ P @ v @ Q @ w)" "length P = length Q" "0 < es" "p = slot pre es (length u)"
    "q = slot pre es (length u + length P + length v)" "n = length P * es"
  shows "vecswap (swapinit (length pre) es) (emb pre (u @ P @ v @ Q @ w) post) p q n = Some (emb pre (u @ Q @ v @ P @ w) post)"
proof (cases "P = []")
  case False
  then have pos: "0 < length P" by simp
  then have "0 < n" using assms(3,6) by simp
  moreover have "swapfunc (emb pre (u @ P @ v @ Q @ w) post) p q (length P * es) (swapinit (length pre) es) = Some (emb pre (u @ Q @ v @ P @ w) post)"
    by (rule swapfunc_emb [OF assms(1) refl assms(2) [symmetric] pos assms(3)]) (simp only: at_two_def assms(4,5) simp_thms)
  ultimately show ?thesis unfolding vecswap_def assms(6) by (simp only: if_True)
qed (use assms in \<open>simp add: vecswap_def\<close>)

section \<open>The insertion sort\<close>

context c_order
begin

text \<open>The inner loop moves \<open>y\<close> down to its place among \<open>u\<close>; the objects of \<open>v\<close> have been passed and are greater.\<close>

lemma ins_inner_emb:
  assumes "0 < es" "blocks es (u @ y # v @ w)" "in_order cmp (u @ v)" "\<forall>z \<in> set v. cmp y z < 0"
  shows "\<exists>zs. ins_inner cmp (length pre) es (swapinit (length pre) es) (emb pre (u @ y # v @ w) post) (slot pre es (length u)) =
      Some (emb pre (zs @ w) post) \<and> mset zs = add_mset y (mset (u @ v)) \<and> in_order cmp zs"
  using assms(2-)
proof (induction u arbitrary: v rule: rev_induct)
  case Nil
  have "ins_inner cmp (length pre) es (swapinit (length pre) es) (emb pre (y # v @ w) post) (length pre) = Some (emb pre (y # v @ w) post)"
    by (subst ins_inner.simps) simp
  then show ?case using Nil by (intro exI [of _ "y # v"]) (auto intro: less_imp_le)
next
  case (snoc x u)
  have p: "length pre < slot pre es (length (u @ [x]))" "slot pre es (length (u @ [x])) - es = slot pre es (length u)"
    using assms(1) by (simp_all add: slot_def)
  have c: "call_cmp cmp (emb pre ((u @ [x]) @ y # v @ w) post) es (slot pre es (length u)) (slot pre es (length (u @ [x]))) = Some (cmp x y)"
    by (rule call_cmp_emb [where u = u and v = "y # v @ w" and u' = "u @ [x]" and v' = "v @ w"]) (use snoc.prems in simp_all)
  have lens: "length x = es" "length y = es" "\<And>z. z \<in> set (u @ v) \<Longrightarrow> length z = es" using snoc.prems by (auto simp: blocks_def)
  show ?case
  proof (cases "cmp x y > 0")
    case True
    have "swap_elt (swapinit (length pre) es) es (emb pre (u @ x # [] @ y # v @ w) post) (slot pre es (length (u @ [x]))) (slot pre es (length u)) =
        Some (emb pre (u @ y # x # v @ w) post)"
      using swap_elt_emb [of es u x "[]" y "v @ w" pre _ _ post] snoc.prems(1) assms(1) by (simp add: at_two_def)
    moreover obtain zs where "ins_inner cmp (length pre) es (swapinit (length pre) es) (emb pre (u @ y # (x # v) @ w) post) (slot pre es (length u)) =
      Some (emb pre (zs @ w) post)" "mset zs = add_mset y (mset (u @ x # v))" "in_order cmp zs"
      using snoc.IH [of "x # v"] snoc.prems True lens flip(1) [of y x] by auto
    ultimately show ?thesis using True p c by (subst ins_inner.simps) auto
  next
    case False
    have "ins_inner cmp (length pre) es (swapinit (length pre) es) (emb pre ((u @ [x]) @ y # v @ w) post) (slot pre es (length (u @ [x]))) =
        Some (emb pre ((u @ x # y # v) @ w) post)"
      using False p c by (subst ins_inner.simps) simp
    moreover have "\<forall>z \<in> set u. cmp z y \<le> 0" using snoc.prems(2) False lens trans [of _ x y] by auto
    then have "in_order cmp (u @ x # y # v)" using snoc.prems(2,3) False by (auto dest: less_imp_le)
    ultimately show ?thesis by (intro exI [of _ "u @ x # y # v"]) auto
  qed
qed


lemma ins_outer_emb:
  assumes "0 < es" "blocks es (u @ w)" "in_order cmp u"
  shows "\<exists>zs. ins_outer cmp (length pre) (length (u @ w)) es (swapinit (length pre) es) (emb pre (u @ w) post) (slot pre es (length u)) =
      Some (emb pre zs post) \<and> mset zs = mset (u @ w) \<and> in_order cmp zs"
  using assms(2-)
proof (induction w arbitrary: u)
  case Nil
  then show ?case by (subst ins_outer.simps) (auto simp: slot_def)
next
  case (Cons y w)
  obtain zs where zs: "ins_inner cmp (length pre) es (swapinit (length pre) es) (emb pre (u @ y # w) post) (slot pre es (length u)) = Some (emb pre (zs @ w) post)"
    "mset zs = add_mset y (mset u)" "in_order cmp zs" using ins_inner_emb [of u y "[]" w pre post] assms(1) Cons.prems by auto
  have l: "length zs = Suc (length u)" using arg_cong [OF zs(2), of size] by simp
  have "blocks es (zs @ w)" using blocks_mset [of zs "y # u" es] zs(2) Cons.prems(1) by simp
  then obtain zs' where zs': "ins_outer cmp (length pre) (length (zs @ w)) es (swapinit (length pre) es) (emb pre (zs @ w) post) (slot pre es (length zs)) =
      Some (emb pre zs' post)" "mset zs' = mset (zs @ w)" "in_order cmp zs'" using Cons.IH zs(3) by blast
  have lt: "slot pre es (length u) < length pre + length (u @ y # w) * es" and nxt: "slot pre es (length u) + es = slot pre es (length zs)"
    and len: "length (zs @ w) = length (u @ y # w)" using assms(1) l by (simp_all add: slot_def add_mult_distrib)
  have "ins_outer cmp (length pre) (length (u @ y # w)) es (swapinit (length pre) es) (emb pre (u @ y # w) post) (slot pre es (length u)) =
      ins_outer cmp (length pre) (length (u @ y # w)) es (swapinit (length pre) es) (emb pre (zs @ w) post) (slot pre es (length zs))"
    by (subst ins_outer.simps) (simp only: lt if_True zs(1) bind.bind_lunit nxt)
  then show ?case using zs'(1) zs'(2,3) zs(2) unfolding len by (intro exI [of _ zs']) simp
qed

section \<open>The partition\<close>

text \<open>The array is the pivot \<open>x\<close>, equal objects \<open>e\<close>, smaller ones \<open>l\<close>, the objects \<open>v\<close> not yet looked at, and \<open>w\<close>.\<close>

definition scanned_up :: "mem \<Rightarrow> byte list \<Rightarrow> byte list list \<Rightarrow> mem \<Rightarrow> byte list multiset \<Rightarrow> nat \<Rightarrow> (mem \<times> nat \<times> nat) option \<Rightarrow> bool" where
  "scanned_up pre x w post M k r \<longleftrightarrow> (\<exists>e l v. r = Some (emb pre (x # e @ l @ v @ w) post, slot pre es (Suc (length e)), slot pre es (Suc (length e + length l))) \<and>
    mset (e @ l @ v) = M \<and> (\<forall>z \<in> set e. cmp z x = 0) \<and> (\<forall>z \<in> set l. cmp z x < 0) \<and> (v = [] \<or> cmp (hd v) x > 0) \<and> length v \<le> k)"

lemma scanned_up_mono: "scanned_up pre x w post M k r \<Longrightarrow> k \<le> k' \<Longrightarrow> scanned_up pre x w post M k' r"
  unfolding scanned_up_def by (elim exE conjE, intro exI conjI, assumption+, erule order_trans, assumption)

lemma scan_up_emb:
  assumes "0 < es" "blocks es (x # e @ l @ v @ w)" "\<forall>z \<in> set e. cmp z x = 0" "\<forall>z \<in> set l. cmp z x < 0"
  shows "scanned_up pre x w post (mset (e @ l @ v)) (length v) (scan_up cmp (length pre) es (swapinit (length pre) es) (emb pre (x # e @ l @ v @ w) post)
        (slot pre es (Suc (length e))) (slot pre es (Suc (length e + length l))) (slot pre es (length e + length l + length v)))"
  using assms(2-)
proof (induction v arbitrary: e l)
  case Nil
  have "\<not> slot pre es (Suc (length e + length l)) \<le> slot pre es (length e + length l + length [])" using slot_le(1) [OF assms(1)] by simp
  then show ?case using Nil by (subst scan_up.simps) (auto simp: scanned_up_def)
next
  case (Cons y v)
  define pb pc where "pb = slot pre es (Suc (length e + length l))" and "pc = slot pre es (length e + length l + length (y # v))"
  let ?run = "\<lambda>e l v. scan_up cmp (length pre) es (swapinit (length pre) es) (emb pre (x # e @ l @ v @ w) post)
        (slot pre es (Suc (length e))) (slot pre es (Suc (length e + length l))) (slot pre es (length e + length l + length v))"
  have le: "pb \<le> pc" using slot_le(1) [OF assms(1)] by (simp add: pb_def pc_def)
  have c: "call_cmp cmp (emb pre (x # e @ l @ (y # v) @ w) post) es pb (length pre) = Some (cmp y x)"
    using call_cmp_emb [of es "x # e @ l @ (y # v) @ w" "x # e @ l" y "v @ w" "[]" x "e @ l @ (y # v) @ w" "Suc (length e + length l)" 0] Cons.prems
    by (simp add: pb_def)
  consider "cmp y x > 0" | "cmp y x < 0" | "cmp y x = 0" by linarith
  then show ?case
  proof cases
    case 1
    then have "?run e l (y # v) = Some (emb pre (x # e @ l @ (y # v) @ w) post, slot pre es (Suc (length e)), slot pre es (Suc (length e + length l)))"
      unfolding pb_def [symmetric] pc_def [symmetric] using c le by (subst scan_up.simps) simp
    then show ?thesis using 1 Cons.prems unfolding scanned_up_def by (metis list.sel(1) order_refl)
  next
    case 2
    then have "?run e l (y # v) = ?run e (l @ [y]) v"
      using c le by (subst scan_up.simps) (simp add: pb_def pc_def)
    moreover have "scanned_up pre x w post (mset (e @ (l @ [y]) @ v)) (length v) (?run e (l @ [y]) v)"
      by (rule Cons.IH) (use 2 Cons.prems in auto)
    ultimately show ?thesis by (simp add: scanned_up_mono)
  next
    case 3
    obtain l' where l': "swap_elt (swapinit (length pre) es) es (emb pre (x # e @ l @ (y # v) @ w) post) (slot pre es (Suc (length e))) pb =
        Some (emb pre (x # (e @ [y]) @ l' @ v @ w) post)" "mset l' = mset l"
    proof (cases l)
      case Nil
      then show ?thesis using swap_elt_same [of es "x # e" y "v @ w" pb pre post] Cons.prems(1) assms(1) that [of "[]"] by (simp add: pb_def)
    next
      case (Cons z l1)
      then show ?thesis using swap_elt_emb [of es "x # e" z l1 y "v @ w" pre "slot pre es (Suc (length e))" pb post] Cons.prems(1) assms(1) that [of "l1 @ [z]"]
        by (simp add: pb_def at_two_def)
    qed
    have l: "length l' = length l" "set l' = set l" "blocks es l'" using l'(2) Cons.prems(1) blocks_mset [OF l'(2), of es] by (auto dest: mset_eq_length mset_eq_setD)
    have "?run e l (y # v) = ?run (e @ [y]) l' v"
      using c le 3 l'(1) l(1) by (subst scan_up.simps) (simp add: pb_def pc_def)
    moreover have "scanned_up pre x w post (mset ((e @ [y]) @ l' @ v)) (length v) (?run (e @ [y]) l' v)"
      by (rule Cons.IH) (use 3 l Cons.prems in auto)
    ultimately show ?thesis using l'(2) by (simp add: scanned_up_mono)
  qed
qed

text \<open>Behind \<open>x # u\<close>, the objects \<open>v\<close> not yet looked at, greater ones \<open>g\<close>, and equal objects \<open>f\<close>.\<close>

definition scanned_down :: "mem \<Rightarrow> byte list \<Rightarrow> byte list list \<Rightarrow> mem \<Rightarrow> byte list multiset \<Rightarrow> byte list list \<Rightarrow> (mem \<times> nat \<times> nat) option \<Rightarrow> bool" where
  "scanned_down pre x u post M v0 r \<longleftrightarrow> (\<exists>v g f. r = Some (emb pre (x # u @ v @ g @ f) post, slot pre es (length u + length v), slot pre es (length u + length v + length g)) \<and>
    mset (v @ g @ f) = M \<and> (\<forall>z \<in> set f. cmp z x = 0) \<and> (\<forall>z \<in> set g. cmp z x > 0) \<and> (v = [] \<or> cmp (last v) x < 0) \<and> prefix v v0)"

lemma scanned_down_mono: "scanned_down pre x u post M v r \<Longrightarrow> prefix v v' \<Longrightarrow> scanned_down pre x u post M v' r"
  unfolding scanned_down_def by (elim exE conjE, intro exI conjI, assumption+, erule prefix_order.trans, assumption)

lemma scan_down_emb:
  assumes "0 < es" "blocks es (x # u @ v @ g @ f)" "\<forall>z \<in> set f. cmp z x = 0" "\<forall>z \<in> set g. cmp z x > 0"
  shows "scanned_down pre x u post (mset (v @ g @ f)) v (scan_down cmp (length pre) es (swapinit (length pre) es) (emb pre (x # u @ v @ g @ f) post)
        (slot pre es (Suc (length u))) (slot pre es (length u + length v)) (slot pre es (length u + length v + length g)))"
  using assms(2-)
proof (induction v arbitrary: g f rule: rev_induct)
  case Nil
  have "\<not> slot pre es (Suc (length u)) \<le> slot pre es (length u + length [])" using slot_le(1) [OF assms(1)] by simp
  then show ?case using Nil by (subst scan_down.simps) (auto simp: scanned_down_def)
next
  case (snoc y v)
  define pc where "pc = slot pre es (length u + length (v @ [y]))"
  let ?run = "\<lambda>v g f. scan_down cmp (length pre) es (swapinit (length pre) es) (emb pre (x # u @ v @ g @ f) post)
        (slot pre es (Suc (length u))) (slot pre es (length u + length v)) (slot pre es (length u + length v + length g))"
  have le: "slot pre es (Suc (length u)) \<le> pc" using slot_le(1) [OF assms(1)] by (simp add: pc_def)
  have c: "call_cmp cmp (emb pre (x # u @ (v @ [y]) @ g @ f) post) es pc (length pre) = Some (cmp y x)"
    using call_cmp_emb [of es "x # u @ (v @ [y]) @ g @ f" "x # u @ v" y "g @ f" "[]" x "u @ (v @ [y]) @ g @ f" "length u + length (v @ [y])" 0] snoc.prems
    by (simp add: pc_def)
  consider "cmp y x < 0" | "cmp y x > 0" | "cmp y x = 0" by linarith
  then show ?case
  proof cases
    case 1
    then have "?run (v @ [y]) g f = Some (emb pre (x # u @ (v @ [y]) @ g @ f) post, slot pre es (length u + length (v @ [y])), slot pre es (length u + length (v @ [y]) + length g))"
      unfolding pc_def [symmetric] using c le by (subst scan_down.simps) simp
    then show ?thesis using 1 snoc.prems unfolding scanned_down_def by (metis last_snoc prefix_order.refl)
  next
    case 2
    then have "?run (v @ [y]) g f = ?run v (y # g) f"
      using c le by (subst scan_down.simps) (simp add: pc_def)
    moreover have "scanned_down pre x u post (mset (v @ (y # g) @ f)) v (?run v (y # g) f)"
      by (rule snoc.IH) (use 2 snoc.prems in auto)
    ultimately show ?thesis by (simp add: scanned_down_mono)
  next
    case 3
    obtain g' where g': "swap_elt (swapinit (length pre) es) es (emb pre (x # u @ (v @ [y]) @ g @ f) post) pc (slot pre es (length u + length (v @ [y]) + length g)) =
        Some (emb pre (x # u @ v @ g' @ y # f) post)" "mset g' = mset g"
    proof (cases g rule: rev_cases)
      case Nil
      then show ?thesis using swap_elt_same [of es "x # u @ v" y f pc pre post] snoc.prems(1) assms(1) that [of "[]"] by (simp add: pc_def)
    next
      case (snoc g1 z)
      then show ?thesis using swap_elt_emb [of es "x # u @ v" y g1 z f pre pc "slot pre es (length u + length (v @ [y]) + length g)" post] snoc.prems(1) assms(1)
          that [of "z # g1"] by (simp add: pc_def at_two_def)
    qed
    have g: "length g' = length g" "set g' = set g" "blocks es g'" using g'(2) snoc.prems(1) blocks_mset [OF g'(2), of es] by (auto dest: mset_eq_length mset_eq_setD)
    have "?run (v @ [y]) g f = ?run v g' (y # f)"
      using c le 3 g'(1) g(1) by (subst scan_down.simps) (simp add: pc_def)
    moreover have "scanned_down pre x u post (mset (v @ g' @ y # f)) v (?run v g' (y # f))"
      by (rule snoc.IH) (use 3 g snoc.prems in auto)
    ultimately show ?thesis using g'(2) by (simp add: scanned_down_mono)
  qed
qed

text \<open>The partition is finished.\<close>

definition parted :: "mem \<Rightarrow> byte list \<Rightarrow> mem \<Rightarrow> byte list multiset \<Rightarrow> (mem \<times> nat \<times> nat \<times> nat \<times> nat) option \<Rightarrow> bool" where
  "parted pre x post M r \<longleftrightarrow> (\<exists>e l g f. r = Some (emb pre (x # e @ l @ g @ f) post, slot pre es (Suc (length e)), slot pre es (Suc (length e + length l)),
      slot pre es (length e + length l), slot pre es (length e + length l + length g)) \<and>
    mset (e @ l @ g @ f) = M \<and> (\<forall>z \<in> set e \<union> set f. cmp z x = 0) \<and> (\<forall>z \<in> set l. cmp z x < 0) \<and> (\<forall>z \<in> set g. cmp z x > 0))"

lemma part_loop_emb:
  assumes "0 < es" "blocks es (x # e @ l @ v @ g @ f)" "\<forall>z \<in> set e \<union> set f. cmp z x = 0" "\<forall>z \<in> set l. cmp z x < 0" "\<forall>z \<in> set g. cmp z x > 0"
  shows "parted pre x post (mset (e @ l @ v @ g @ f)) (part_loop cmp (length pre) es (swapinit (length pre) es) (emb pre (x # e @ l @ v @ g @ f) post)
        (slot pre es (Suc (length e))) (slot pre es (Suc (length e + length l))) (slot pre es (length e + length l + length v))
        (slot pre es (length e + length l + length v + length g)))"
  using assms(2-)
proof (induction "length v" arbitrary: e l v g f rule: less_induct)
  case less
  let ?run = "\<lambda>e l v g f. part_loop cmp (length pre) es (swapinit (length pre) es) (emb pre (x # e @ l @ v @ g @ f) post)
        (slot pre es (Suc (length e))) (slot pre es (Suc (length e + length l))) (slot pre es (length e + length l + length v))
        (slot pre es (length e + length l + length v + length g))"
  obtain e1 l1 v1 where up: "scan_up cmp (length pre) es (swapinit (length pre) es) (emb pre (x # e @ l @ v @ g @ f) post)
        (slot pre es (Suc (length e))) (slot pre es (Suc (length e + length l))) (slot pre es (length e + length l + length v)) =
      Some (emb pre (x # e1 @ l1 @ v1 @ g @ f) post, slot pre es (Suc (length e1)), slot pre es (Suc (length e1 + length l1)))"
    "mset (e1 @ l1 @ v1) = mset (e @ l @ v)" "\<forall>z \<in> set e1. cmp z x = 0" "\<forall>z \<in> set l1. cmp z x < 0" "v1 = [] \<or> cmp (hd v1) x > 0" "length v1 \<le> length v"
    using scan_up_emb [of x e l v "g @ f" pre post] assms(1) less.prems unfolding scanned_up_def by auto
  have len1: "length e1 + length l1 + length v1 = length e + length l + length v" using mset_eq_length [OF up(2)] by simp
  have b1: "blocks es (x # e1 @ l1 @ v1 @ g @ f)" using blocks_mset [OF up(2), of es] less.prems(1) by simp
  obtain v2 g2 f2 where dn: "scan_down cmp (length pre) es (swapinit (length pre) es) (emb pre (x # (e1 @ l1) @ v1 @ g @ f) post)
        (slot pre es (Suc (length (e1 @ l1)))) (slot pre es (length (e1 @ l1) + length v1)) (slot pre es (length (e1 @ l1) + length v1 + length g)) =
      Some (emb pre (x # (e1 @ l1) @ v2 @ g2 @ f2) post, slot pre es (length (e1 @ l1) + length v2), slot pre es (length (e1 @ l1) + length v2 + length g2))"
    "mset (v2 @ g2 @ f2) = mset (v1 @ g @ f)" "\<forall>z \<in> set f2. cmp z x = 0" "\<forall>z \<in> set g2. cmp z x > 0" "v2 = [] \<or> cmp (last v2) x < 0" "prefix v2 v1"
    using scan_down_emb [of x "e1 @ l1" v1 g f pre post] assms(1) less.prems b1 unfolding scanned_down_def by auto
  have M: "mset (e1 @ l1 @ v2 @ g2 @ f2) = mset (e @ l @ v @ g @ f)" using up(2) dn(2) by simp
  have b2: "blocks es (x # e1 @ l1 @ v2 @ g2 @ f2)" using blocks_mset [OF dn(2), of es] b1 by simp
  have step: "?run e l v g f = (if slot pre es (Suc (length e1 + length l1)) > slot pre es (length e1 + length l1 + length v2) then
       Some (emb pre (x # e1 @ l1 @ v2 @ g2 @ f2) post, slot pre es (Suc (length e1)), slot pre es (Suc (length e1 + length l1)),
         slot pre es (length e1 + length l1 + length v2), slot pre es (length e1 + length l1 + length v2 + length g2))
     else do {
       m \<leftarrow> swap_elt (swapinit (length pre) es) es (emb pre (x # e1 @ l1 @ v2 @ g2 @ f2) post) (slot pre es (Suc (length e1 + length l1))) (slot pre es (length e1 + length l1 + length v2));
       part_loop cmp (length pre) es (swapinit (length pre) es) m (slot pre es (Suc (length e1))) (slot pre es (Suc (length e1 + length l1)) + es)
         (slot pre es (length e1 + length l1 + length v2) - es) (slot pre es (length e1 + length l1 + length v2 + length g2)) })"
    using up(1) dn(1) len1 by (subst part_loop.simps) simp
  show ?case
  proof (cases "v2 = []")
    case True
    then have "?run e l v g f = Some (emb pre (x # e1 @ l1 @ g2 @ f2) post, slot pre es (Suc (length e1)), slot pre es (Suc (length e1 + length l1)),
         slot pre es (length e1 + length l1), slot pre es (length e1 + length l1 + length g2))"
      unfolding step using slot_le [OF assms(1)] by simp
    moreover have "mset (e1 @ l1 @ g2 @ f2) = mset (e @ l @ v @ g @ f)" using M True by simp
    ultimately show ?thesis using up(3,4) dn(3,4) unfolding parted_def by (intro exI conjI) (assumption | blast)+
  next
    case False
    then obtain y r where v2: "v2 = y # r" by (cases v2) auto
    have "cmp y x > 0" using up(5) dn(6) v2 by (cases v1) auto
    then have "r \<noteq> []" using dn(5) v2 by auto
    then obtain v3 z where v3: "v2 = y # v3 @ [z]" using v2 by (cases r rule: rev_cases) auto
    have z: "cmp z x < 0" using dn(5) v3 by simp
    have sw: "swap_elt (swapinit (length pre) es) es (emb pre (x # e1 @ l1 @ v2 @ g2 @ f2) post) (slot pre es (Suc (length e1 + length l1))) (slot pre es (length e1 + length l1 + length v2)) =
        Some (emb pre (x # e1 @ (l1 @ [z]) @ v3 @ (y # g2) @ f2) post)"
      using swap_elt_emb [of es "x # e1 @ l1" y v3 z "g2 @ f2" pre _ _ post] assms(1) b2 v3 by (simp add: at_two_def)
    have "?run e l v g f = ?run e1 (l1 @ [z]) v3 (y # g2) f2"
      unfolding step using slot_le [OF assms(1)] sw v3 by simp
    moreover have "parted pre x post (mset (e1 @ (l1 @ [z]) @ v3 @ (y # g2) @ f2)) (?run e1 (l1 @ [z]) v3 (y # g2) f2)"
    proof (rule less.hyps)
      show "length v3 < length v" using up(6) dn(6) v3 prefix_length_le [OF dn(6)] by simp
    qed (use b2 v3 up(3,4) dn(3,4) z \<open>cmp y x > 0\<close> in auto)
    moreover have "mset (e1 @ (l1 @ [z]) @ v3 @ (y # g2) @ f2) = mset (e @ l @ v @ g @ f)" using M v3 by (simp add: add_mset_commute)
    ultimately show ?thesis by (simp only:)
  qed
qed

section \<open>The whole sort\<close>

lemma med3_slots:
  assumes "blocks es xs" "i < length xs" "j < length xs" "k < length xs"
  shows "\<exists>l < length xs. med3 cmp (emb pre xs post) es (slot pre es i) (slot pre es j) (slot pre es k) = Some (slot pre es l)"
  using assms(2-) unfolding med3_def call_cmp_slots [OF assms(1-3)] call_cmp_slots [OF assms(1,3,4)] call_cmp_slots [OF assms(1,2,4)]
  by (cases "cmp (xs ! i) (xs ! j) < 0"; cases "cmp (xs ! i) (xs ! k) < 0") auto

lemma pivot_slot:
  assumes "blocks es xs" "7 \<le> length xs"
  shows "\<exists>k < length xs. pivot cmp (emb pre xs post) (length pre) (length xs) es = Some (slot pre es k)"
proof -
  define n where "n = length xs"
  define q where "q = n div 8"
  have a: "length pre = slot pre es 0" "length pre + n div 2 * es = slot pre es (n div 2)" "length pre + (n - 1) * es = slot pre es (n - 1)"
    by (simp_all add: slot_def)
  have b: "n div 2 < n" "n - 1 < n" "0 < n" using assms(2) by (auto simp: n_def)
  consider "n = 7" | "7 < n" "n \<le> 40" | "40 < n" using assms(2) by (fastforce simp: n_def)
  then show ?thesis
  proof cases
    case 1
    then show ?thesis using b unfolding n_def [symmetric] pivot_def Let_def a by (intro exI [of _ "n div 2"]) (simp add: slot_def)
  next
    case 2
    then show ?thesis using med3_slots [OF assms(1), of 0 "n div 2" "n - 1" pre post] b unfolding n_def [symmetric] pivot_def Let_def a(2,3) by simp
  next
    case 3
    have q: "2 * q < n" "q \<le> n div 2" "n div 2 + q < n" "2 * q \<le> n - 1" "q \<le> n - 1" "q < n" "n div 2 - q < n" "n - 1 - 2 * q < n" "n - 1 - q < n" using 3 by (auto simp: q_def)
    note med = med3_slots [OF assms(1), folded n_def]
    have e: "2 * (q * es) = 2 * q * es" by simp
    obtain i where i: "i < n" "med3 cmp (emb pre xs post) es (slot pre es 0) (slot pre es q) (slot pre es (2 * q)) = Some (slot pre es i)"
      using med [of 0 q "2 * q" pre post] b q by blast
    obtain j where j: "j < n" "med3 cmp (emb pre xs post) es (slot pre es (n div 2 - q)) (slot pre es (n div 2)) (slot pre es (n div 2 + q)) = Some (slot pre es j)"
      using med [of "n div 2 - q" "n div 2" "n div 2 + q" pre post] b q by blast
    obtain k where k: "k < n" "med3 cmp (emb pre xs post) es (slot pre es (n - 1 - 2 * q)) (slot pre es (n - 1 - q)) (slot pre es (n - 1)) = Some (slot pre es k)"
      using med [of "n - 1 - 2 * q" "n - 1 - q" "n - 1" pre post] b q by blast
    obtain h where h: "h < n" "med3 cmp (emb pre xs post) es (slot pre es i) (slot pre es j) (slot pre es k) = Some (slot pre es h)"
      using med [of i j k pre post] i j k by blast
    have "pivot cmp (emb pre xs post) (length pre) n es = Some (slot pre es h)"
      unfolding pivot_def a using 3 i(2) j(2) k(2) h(2)
      by (simp only: Let_def q_def [symmetric] e slot_add(1) add_0 slot_add(2) [OF q(2)] slot_add(2) [OF q(4)] slot_add(2) [OF q(5)]) simp
    then show ?thesis using h(1) unfolding n_def by blast
  qed
qed

lemma pivot_swap:
  assumes "0 < es" "blocks es xs" "k < length xs"
  shows "\<exists>x r. swap_elt (swapinit (length pre) es) es (emb pre xs post) (length pre) (slot pre es k) = Some (emb pre (x # r) post) \<and> mset (x # r) = mset xs"
proof (cases k)
  case 0
  obtain x r where "xs = x # r" using assms(3) by (cases xs) auto
  then show ?thesis using swap_elt_same [of es "[]" x r "length pre" pre post] assms 0 by auto
next
  case (Suc i)
  obtain x r where xs: "xs = x # r" using assms(3) by (cases xs) auto
  then have r: "r = take i r @ r ! i # drop (Suc i) r" "length (take i r) = i" using assms(3) Suc by (auto simp: id_take_nth_drop)
  define u y w where "u = take i r" and "y = r ! i" and "w = drop (Suc i) r"
  have xs: "xs = [] @ x # u @ y # w" using xs r by (simp add: u_def y_def w_def)
  then have "swap_elt (swapinit (length pre) es) es (emb pre xs post) (length pre) (slot pre es k) = Some (emb pre (y # u @ x # w) post)"
    using swap_elt_emb [of es "[]" x u y w pre "length pre" "slot pre es k" post] assms(1,2) r(2) Suc by (simp add: at_two_def u_def)
  then show ?thesis using xs by (intro exI [of _ y] exI [of _ "u @ x # w"]) (simp add: add_mset_commute)
qed

text \<open>Exchanging as many objects as the shorter of two neighbouring runs has brings the second run to the front.\<close>

lemma exchange:
  assumes "0 < es" "blocks es (u @ A @ L @ w)" and r: "r = (if length A * es < length L * es then length A * es else length L * es)"
  shows "\<exists>A' L'. vecswap (swapinit (length pre) es) (emb pre (u @ A @ L @ w) post) (slot pre es (length u)) (slot pre es (length u + length A + length L) - r) r =
      Some (emb pre (u @ L' @ A' @ w) post) \<and> mset A' = mset A \<and> mset L' = mset L"
proof (cases "length A < length L")
  case True
  define v Q where "v = take (length L - length A) L" and "Q = drop (length L - length A) L"
  have l: "L = v @ Q" "length Q = length A" "length v = length L - length A" using True by (simp_all add: v_def Q_def)
  have r': "r = length A * es" using True assms(1) r by simp
  have "length L = length v + length A" using l(1,2) by (metis length_append)
  then have "length u + length A + length L - length A = length u + length A + length v" by simp
  moreover have "length A \<le> length u + length A + length L" by simp
  ultimately have pos: "slot pre es (length u + length A + length L) - length A * es = slot pre es (length u + length A + length v)"
    by (metis slot_add(2))
  have "blocks es (u @ A @ v @ Q @ w)" using assms(2) unfolding l(1) by simp
  then have "vecswap (swapinit (length pre) es) (emb pre (u @ A @ v @ Q @ w) post) (slot pre es (length u)) (slot pre es (length u + length A + length L) - r) r =
      Some (emb pre (u @ Q @ v @ A @ w) post)"
    unfolding r' pos using l(2) assms(1) by (intro vecswap_emb) simp_all
  then show ?thesis using l(1) by (intro exI [of _ A] exI [of _ "Q @ v"]) simp
next
  case False
  define P v where "P = take (length L) A" and "v = drop (length L) A"
  have l: "A = P @ v" "length P = length L" "length v = length A - length L" using False by (simp_all add: P_def v_def)
  have "r = length L * es" using False assms(1) r by simp
  then have "vecswap (swapinit (length pre) es) (emb pre (u @ P @ v @ L @ w) post) (slot pre es (length u)) (slot pre es (length u + length A + length L) - r) r =
      Some (emb pre (u @ L @ v @ P @ w) post)"
    using assms(1,2) l False by (intro vecswap_emb) (simp_all add: slot_add(2) add.assoc add.commute [of "length L" "length v"])
  then show ?thesis using l(1) by (intro exI [of _ "v @ P"] exI [of _ L]) simp
qed


definition divided :: "mem \<Rightarrow> mem \<Rightarrow> byte list multiset \<Rightarrow> (mem \<times> nat \<times> nat) option \<Rightarrow> bool" where
  "divided pre post M r \<longleftrightarrow> (\<exists>x l q g. r = Some (emb pre (l @ q @ g) post, length l * es, length g * es) \<and> mset (l @ q @ g) = M \<and> q \<noteq> [] \<and> length x = es \<and>
     (\<forall>z \<in> set l. cmp z x < 0) \<and> (\<forall>z \<in> set q. cmp z x = 0) \<and> (\<forall>z \<in> set g. cmp z x > 0))"

lemma divide_emb:
  assumes "0 < es" "blocks es xs" "7 \<le> length xs"
  shows "divided pre post (mset xs) (divide cmp (emb pre xs post) (length pre) (length xs) es)"
proof -
  define n where "n = length xs"
  define st where "st = swapinit (length pre) es"
  obtain k where k: "k < length xs" "pivot cmp (emb pre xs post) (length pre) n es = Some (slot pre es k)"
    using pivot_slot [OF assms(2,3)] by (auto simp: n_def)
  obtain x r where x: "swap_elt st es (emb pre xs post) (length pre) (slot pre es k) = Some (emb pre (x # r) post)" "mset (x # r) = mset xs"
    using pivot_swap [OF assms(1,2) k(1), of pre post] unfolding st_def by blast
  have xr: "blocks es (x # r)" "n = Suc (length r)" using blocks_mset [OF x(2), of es] assms(2) mset_eq_length [OF x(2)] by (simp_all add: n_def)
  obtain e l g f where p: "part_loop cmp (length pre) es st (emb pre (x # r) post) (slot pre es 1) (slot pre es 1) (slot pre es (n - 1)) (slot pre es (n - 1)) =
      Some (emb pre (x # e @ l @ g @ f) post, slot pre es (Suc (length e)), slot pre es (Suc (length e + length l)), slot pre es (length e + length l),
        slot pre es (length e + length l + length g))"
    "mset (e @ l @ g @ f) = mset r" "\<forall>z \<in> set e \<union> set f. cmp z x = 0" "\<forall>z \<in> set l. cmp z x < 0" "\<forall>z \<in> set g. cmp z x > 0"
    using part_loop_emb [of x "[]" "[]" r "[]" "[]" pre post] assms(1) xr unfolding parted_def st_def by auto
  have n: "n = Suc (length e + length l + length g + length f)" using mset_eq_length [OF p(2)] xr(2) by simp
  have b: "blocks es (x # e @ l @ g @ f)" using blocks_mset [OF p(2), of es] xr(1) by simp
  define r1 where "r1 = (if length (x # e) * es < length l * es then length (x # e) * es else length l * es)"
  obtain q l' where v1: "vecswap st (emb pre ([] @ (x # e) @ l @ g @ f) post) (slot pre es (length [])) (slot pre es (length [] + length (x # e) + length l) - r1) r1 =
      Some (emb pre ([] @ l' @ q @ g @ f) post)" "mset q = mset (x # e)" "mset l' = mset l"
    using exchange [of "[]" "x # e" l "g @ f" r1 pre post] assms(1) b unfolding st_def r1_def by auto
  have len: "length q = Suc (length e)" "length l' = length l" using v1(2,3) mset_eq_length by fastforce+
  have b1: "blocks es (l' @ q @ g @ f)" using b blocks_mset [OF v1(2), of es] blocks_mset [OF v1(3), of es] by simp
  define r2 where "r2 = (if length g * es < length f * es then length g * es else length f * es)"
  obtain g' f' where v2: "vecswap st (emb pre ((l' @ q) @ g @ f @ []) post) (slot pre es (length (l' @ q))) (slot pre es (length (l' @ q) + length g + length f) - r2) r2 =
      Some (emb pre ((l' @ q) @ f' @ g' @ []) post)" "mset g' = mset g" "mset f' = mset f"
    using exchange [of "l' @ q" g f "[]" r2 pre post] assms(1) b1 unfolding st_def r2_def by auto
  have lg: "length g' = length g" using v2(2) mset_eq_length by blast
  have d: "slot pre es (Suc (length e)) - length pre = length (x # e) * es" "slot pre es (Suc (length e + length l)) - slot pre es (Suc (length e)) = length l * es"
    "slot pre es (length e + length l + length g) - slot pre es (length e + length l) = length g * es"
    "length pre + n * es - slot pre es (length e + length l + length g) - es = length f * es"
    unfolding n by (simp_all add: slot_diff) (simp_all add: slot_def add_mult_distrib)
  have e: "length pre + es = slot pre es 1" "length pre + (n - 1) * es = slot pre es (n - 1)" "length pre + n * es = slot pre es (length (l' @ q) + length g + length f)"
    using len n by (simp_all add: slot_def)
  have "divide cmp (emb pre xs post) (length pre) n es = Some (emb pre (l' @ (q @ f') @ g') post, length l' * es, length g' * es)"
    unfolding divide_def st_def [symmetric] Let_def k(2) bind.bind_lunit x(1) e(1,2) p(1) prod.case d r1_def [symmetric] r2_def [symmetric]
    using v1(1) v2(1) len lg d e(3) by (simp add: add.commute [of "length e" "length l"])
  moreover have "mset (l' @ (q @ f') @ g') = mset xs" using v1 v2 p(2) x(2) by (metis (no_types) append_assoc mset.simps(2) mset_append union_assoc union_commute union_mset_add_mset_left)
  moreover have "cmp x x = 0" using anti [of x x] xr(1) by (simp add: sgn_if split: if_splits)
  then have "\<forall>z \<in> set (q @ f'). cmp z x = 0" using p(3) mset_eq_setD [OF v1(2)] mset_eq_setD [OF v2(3)] by auto
  moreover have "\<forall>z \<in> set l'. cmp z x < 0" "\<forall>z \<in> set g'. cmp z x > 0" using p(4,5) mset_eq_setD [OF v1(3)] mset_eq_setD [OF v2(2)] by auto
  moreover have "q @ f' \<noteq> []" "length x = es" using len xr(1) by auto
  ultimately show ?thesis unfolding divided_def n_def by (intro exI conjI) assumption+
qed

text \<open>Sorting the two sides sorts the whole.\<close>

lemma in_order_sides:
  assumes "in_order cmp l" "in_order cmp g" "blocks es (l @ q @ g)" "length x = es"
    "\<forall>z \<in> set l. cmp z x < 0" "\<forall>z \<in> set q. cmp z x = 0" "\<forall>z \<in> set g. cmp z x > 0"
  shows "in_order cmp (l @ q @ g)"
proof -
  have len: "z \<in> set (l @ q @ g) \<Longrightarrow> length z = es" for z using assms(3) by (auto simp: blocks_def)
  have up: "z \<in> set (l @ q) \<Longrightarrow> cmp z x \<le> 0" for z using assms(5,6) by auto
  have dn: "z \<in> set (q @ g) \<Longrightarrow> cmp x z \<le> 0" for z using assms(6,7) flip(3) [of x z] len [of z] assms(4) by auto
  have le: "cmp y z \<le> 0" if "y \<in> set (l @ q)" "z \<in> set (q @ g)" for y z
    using trans [of y x z] up [OF that(1)] dn [OF that(2)] len that assms(4) by auto
  have "in_order cmp q" unfolding in_order_def sorted_wrt_iff_nth_less using le by simp
  then show ?thesis using assms(1,2) le by simp
qed

lemma in_order_short: "length xs \<le> 1 \<Longrightarrow> in_order cmp xs"
  by (cases xs) auto

lemma qsort_emb:
  assumes "0 < es" "blocks es xs"
  shows "\<exists>ys. qsort_r cmp es (emb pre xs post) (length pre) (length xs) = Some (emb pre ys post) \<and> mset ys = mset xs \<and> in_order cmp ys"
  using assms(2)
proof (induction "length xs" arbitrary: xs pre post rule: less_induct)
  case less
  show ?case
  proof (cases "length xs < 7")
    case True
    have "\<exists>ys. ins_outer cmp (length pre) (length xs) es (swapinit (length pre) es) (emb pre xs post) (length pre + es) = Some (emb pre ys post) \<and>
        mset ys = mset xs \<and> in_order cmp ys"
    proof (cases xs)
      case Nil
      then show ?thesis by (subst ins_outer.simps) auto
    next
      case (Cons x r)
      then show ?thesis using ins_outer_emb [of "[x]" r pre post] assms(1) less.prems by (simp add: slot_def)
    qed
    then show ?thesis using True by (subst qsort_r.simps) simp
  next
    case False
    then obtain x l q g where d: "divide cmp (emb pre xs post) (length pre) (length xs) es = Some (emb pre (l @ q @ g) post, length l * es, length g * es)"
      "mset (l @ q @ g) = mset xs" "q \<noteq> []" "length x = es" "\<forall>z \<in> set l. cmp z x < 0" "\<forall>z \<in> set q. cmp z x = 0" "\<forall>z \<in> set g. cmp z x > 0"
      using divide_emb [of xs pre post] assms(1) less.prems unfolding divided_def by auto
    have len: "length l + length q + length g = length xs" using mset_eq_length [OF d(2)] by simp
    have b: "blocks es (l @ q @ g)" using blocks_mset [OF d(2), of es] less.prems by simp
    have small: "length l < length xs" "length g < length xs" using len d(3) by (cases q; simp)+
    define pn where "pn = length pre + length xs * es"
    have pg: "pn - length g * es = length (pre @ concat (l' @ q))" if "length l' = length l" "blocks es l'" for l'
      using that b len [symmetric] by (simp add: pn_def length_concat_blocks [of es] add_mult_distrib)
    have left: "\<exists>l'. (if length l * es > es then qsort_r cmp es (emb pre (l @ v) post) (length pre) (length l * es div es) else Some (emb pre (l @ v) post)) =
        Some (emb pre (l' @ v) post) \<and> mset l' = mset l \<and> in_order cmp l'" for v
    proof (cases "length l * es > es")
      case True
      then show ?thesis using less.hyps [OF small(1), of pre "concat v @ post"] b assms(1) by (auto simp: emb_shift(2))
    qed (use assms(1) in_order_short [of l] in auto)
    have right: "\<exists>g'. (if length g * es > es then qsort_r cmp es (emb pre (v @ g) post) (length (pre @ concat v)) (length g * es div es) else Some (emb pre (v @ g) post)) =
        Some (emb pre (v @ g') post) \<and> mset g' = mset g \<and> in_order cmp g'" for v
    proof (cases "length g * es > es")
      case True
      then show ?thesis using less.hyps [OF small(2), of "pre @ concat v" post] b assms(1) by (auto simp: emb_shift(1))
    qed (use assms(1) in_order_short [of g] in auto)
    have fin: "in_order cmp (l' @ q @ g')" "mset (l' @ q @ g') = mset xs"
      if "mset l' = mset l" "mset g' = mset g" "in_order cmp l'" "in_order cmp g'" for l' g'
    proof -
      have "blocks es (l' @ q @ g')" using b blocks_mset [OF that(1), of es] blocks_mset [OF that(2), of es] by simp
      then show "in_order cmp (l' @ q @ g')" using in_order_sides [of l' g' q x] that d mset_eq_setD [OF that(1)] mset_eq_setD [OF that(2)] by simp
      show "mset (l' @ q @ g') = mset xs" using d(2) that by simp
    qed
    have run: "qsort_r cmp es (emb pre xs post) (length pre) (length xs) = (if length l * es < length g * es then do {
         m \<leftarrow> (if length l * es > es then qsort_r cmp es (emb pre (l @ q @ g) post) (length pre) (length l * es div es) else Some (emb pre (l @ q @ g) post));
         if length g * es > es then qsort_r cmp es m (pn - length g * es) (length g * es div es) else Some m }
       else do {
         m \<leftarrow> (if length g * es > es then qsort_r cmp es (emb pre (l @ q @ g) post) (pn - length g * es) (length g * es div es) else Some (emb pre (l @ q @ g) post));
         if length l * es > es then qsort_r cmp es m (length pre) (length l * es div es) else Some m })"
      using False d(1) by (subst qsort_r.simps) (simp add: pn_def Let_def)
    show ?thesis
    proof (cases "length l * es < length g * es")
      case True
      obtain l' where l': "(if length l * es > es then qsort_r cmp es (emb pre (l @ q @ g) post) (length pre) (length l * es div es) else Some (emb pre (l @ q @ g) post)) =
        Some (emb pre (l' @ q @ g) post)" "mset l' = mset l" "in_order cmp l'" using left by blast
      obtain g' where g': "(if length g * es > es then qsort_r cmp es (emb pre ((l' @ q) @ g) post) (length (pre @ concat (l' @ q))) (length g * es div es) else Some (emb pre ((l' @ q) @ g) post)) =
        Some (emb pre ((l' @ q) @ g') post)" "mset g' = mset g" "in_order cmp g'" using right by blast
      have pos: "pn - length g * es = length (pre @ concat (l' @ q))" using pg [of l'] l'(2) b blocks_mset [OF l'(2), of es] mset_eq_length [OF l'(2)] by simp
      have "qsort_r cmp es (emb pre xs post) (length pre) (length xs) = Some (emb pre (l' @ q @ g') post)"
        unfolding run l'(1) bind.bind_lunit pos using True g'(1) by (simp only: append_assoc if_True)
      then show ?thesis using fin [OF l'(2) g'(2) l'(3) g'(3)] by blast
    next
      case False
      obtain g' where g': "(if length g * es > es then qsort_r cmp es (emb pre ((l @ q) @ g) post) (length (pre @ concat (l @ q))) (length g * es div es) else Some (emb pre ((l @ q) @ g) post)) =
        Some (emb pre ((l @ q) @ g') post)" "mset g' = mset g" "in_order cmp g'" using right by blast
      obtain l' where l': "(if length l * es > es then qsort_r cmp es (emb pre (l @ q @ g') post) (length pre) (length l * es div es) else Some (emb pre (l @ q @ g') post)) =
        Some (emb pre (l' @ q @ g') post)" "mset l' = mset l" "in_order cmp l'" using left by blast
      have pos: "pn - length g * es = length (pre @ concat (l @ q))" using pg [of l] b by simp
      have "qsort_r cmp es (emb pre xs post) (length pre) (length xs) = Some (emb pre (l' @ q @ g') post)"
        unfolding run pos using False g'(1) l'(1) by (simp only: append_assoc if_False bind.bind_lunit)
      then show ?thesis using fin [OF l'(2) g'(2) l'(3) g'(3)] by blast
    qed
  qed
qed

end

section \<open>Properties\<close>

text \<open>Objects of no bytes: fewer than seven are left alone, and for seven or more the count of \<open>swapcode\<close> wraps.\<close>

lemma swap_elt_none: "swap_elt (swapinit a 0) 0 m p q = None"
  by (simp add: swap_elt_def swapinit_def swapfunc_def)

lemma qsort_r_no_bytes: "qsort_r cmp 0 m a n = (if n < 7 then Some m else None)"
proof (cases "n < 7")
  case True
  then show ?thesis by (subst qsort_r.simps) (subst ins_outer.simps, simp)
next
  case False
  have "divide cmp m a n 0 = None" by (cases "pivot cmp m a n 0") (simp_all add: divide_def swap_elt_none)
  then show ?thesis using False by (subst qsort_r.simps) simp
qed

text \<open>The result in terms of the memory and the address of the array.\<close>

lemma qsort_mem:
  assumes "c_order cmp es" "0 < es" "a + n * es \<le> length m"
  shows "\<exists>m'. qsort_r cmp es m a n = Some m' \<and> mset (elts m' a es n) = mset (elts m a es n) \<and> in_order cmp (elts m' a es n) \<and>
    length m' = length m \<and> take a m' = take a m \<and> drop (a + n * es) m' = drop (a + n * es) m"
proof -
  define pre post xs where "pre = take a m" and "post = drop (a + n * es) m" and "xs = elts m a es n"
  have a: "length pre = a" "blocks es xs" "length xs = n" using assms(3) by (simp_all add: pre_def xs_def)
  have m: "m = emb pre xs post" unfolding pre_def post_def xs_def by (rule emb_elts [OF assms(3)])
  obtain ys where ys: "qsort_r cmp es m a n = Some (emb pre ys post)" "mset ys = mset xs" "in_order cmp ys"
    using c_order.qsort_emb [OF assms(1,2) a(2), of pre post] m a by auto
  have b: "blocks es ys" "length ys = n" using blocks_mset [OF ys(2), of es] mset_eq_length [OF ys(2)] a by simp_all
  have "elts (emb pre ys post) a es n = ys" using elts_emb [OF b(1), of pre post] a b by simp
  moreover have "length (emb pre ys post) = length m" using a b unfolding m by (simp add: length_emb [of es])
  moreover have "take a (emb pre ys post) = pre" "drop (a + n * es) (emb pre ys post) = post"
    using a b by (simp_all add: emb_def length_concat_blocks [of es])
  ultimately show ?thesis using ys unfolding pre_def post_def xs_def by auto
qed

text \<open>
  C12. With a comparison function that orders the objects, \<open>qsort_r\<close> returns for every array of objects of at
  least one byte, whatever their number, size and alignment; the objects afterwards are those from before, in
  order, and the memory around the array is unchanged.  No object outside the array is read or
  written, and words are accessed at aligned addresses only.
\<close>

theorem qsort_r_correct:
  assumes "c_order cmp es" "0 < es" "a + n * es \<le> length m"
  shows "\<exists>m'. qsort_r cmp es m a n = Some m' \<and> mset (elts m' a es n) = mset (elts m a es n) \<and> in_order cmp (elts m' a es n) \<and>
    length m' = length m \<and> take a m' = take a m \<and> drop (a + n * es) m' = drop (a + n * es) m"
  using qsort_mem [OF assms] .

theorem qsort_r_correct_witness:
  "\<exists>m'. qsort_r memcmp_objects 2 [9, 3, 1, 3, 0, 1, 7, 7, 9] 0 4 = Some m' \<and>
    mset (elts m' 0 2 4) = mset (elts [9, 3, 1, 3, 0, 1, 7, 7, 9] 0 2 4) \<and> in_order memcmp_objects (elts m' 0 2 4) \<and>
    length m' = length [9, 3, 1, 3, 0, 1, 7, 7, 9 :: byte] \<and> take 0 m' = take 0 [9, 3, 1, 3, 0, 1, 7, 7, 9] \<and> drop (0 + 4 * 2) m' = drop (0 + 4 * 2) [9, 3, 1, 3, 0, 1, 7, 7, 9]"
  by (rule qsort_r_correct [OF memcmp_ord.c_order_axioms]) simp_all

end
