(* ===== verification/Search.thy ===== *)
theory Search
  imports Qsort
begin

text \<open>
  Searching arrays: \<^verbatim>\<open>src/libc/stdlib/bsearch.c\<close> and \<^verbatim>\<open>lsearch.c\<close> (\<open>lfind\<close> and \<open>lsearch\<close>, one body with a
  flag).  The key and the objects are compared by the caller's function, which sees their bytes.  In
  \<open>bsearch\<close> the key need not have the sz of the objects, so it is given as its bytes.
\<close>

section \<open>The program\<close>

function bsearch_loop :: "compar \<Rightarrow> byte list \<Rightarrow> nat \<Rightarrow> mem \<Rightarrow> nat \<Rightarrow> nat \<Rightarrow> ptr option" where
  "bsearch_loop compar key sz m base lim = (if lim \<noteq> 0 then do {
       let p = base + drop_bit 1 lim * sz;
       x \<leftarrow> elt m sz p;
       let cmp = compar key x;
       if cmp = 0 then Some (Some p)
       else if cmp > 0 then bsearch_loop compar key sz m (p + sz) (drop_bit 1 (lim - 1))
       else bsearch_loop compar key sz m base (drop_bit 1 lim) }
     else Some NULL)"
  by pat_completeness auto
termination
  by (relation "measure (\<lambda>(compar, key, sz, m, base, lim). lim)") (auto simp: drop_bit_eq_div)

declare bsearch_loop.simps [simp del]

definition bsearch :: "compar \<Rightarrow> byte list \<Rightarrow> mem \<Rightarrow> nat \<Rightarrow> nat \<Rightarrow> nat \<Rightarrow> ptr option" where
  "bsearch compar key m base0 nmemb sz = bsearch_loop compar key sz m base0 nmemb"

text \<open>\<open>linear_base\<close>: the address found, the count \<^verbatim>\<open>*nelp\<close> and the memory.\<close>

partial_function (option) linear_loop :: "compar \<Rightarrow> byte list \<Rightarrow> nat \<Rightarrow> mem \<Rightarrow> nat \<Rightarrow> nat \<Rightarrow> ptr option" where
  "linear_loop compar key width m element en = (if element < en then do {
       x \<leftarrow> elt m width element;
       if compar x key = 0 then Some (Some element)
       else linear_loop compar key width m (element + width) en }
     else Some NULL)"

definition linear_base :: "compar \<Rightarrow> nat \<Rightarrow> mem \<Rightarrow> nat \<Rightarrow> nat \<Rightarrow> nat \<Rightarrow> bool \<Rightarrow> (ptr \<times> nat \<times> mem) option" where
  "linear_base compar key m base nel width add_flag = do {
     k \<leftarrow> elt m width key;
     let en = base + nel * width;
     r \<leftarrow> linear_loop compar k width m base en;
     case r of
       Some p \<Rightarrow> Some (Some p, nel, m)
     | None \<Rightarrow>
       if \<not> add_flag then Some (NULL, nel, m)
       else do {
         (_, m) \<leftarrow> memcpy m en key width;
         Some (Some en, nel + 1, m) } }"

definition lsearch :: "compar \<Rightarrow> nat \<Rightarrow> mem \<Rightarrow> nat \<Rightarrow> nat \<Rightarrow> nat \<Rightarrow> (ptr \<times> nat \<times> mem) option" where
  "lsearch compar key m base nel width = linear_base compar key m base nel width True"

definition lfind :: "compar \<Rightarrow> nat \<Rightarrow> mem \<Rightarrow> nat \<Rightarrow> nat \<Rightarrow> nat \<Rightarrow> (ptr \<times> nat \<times> mem) option" where
  "lfind compar key m base nel width = linear_base compar key m base nel width False"

section \<open>Binary search\<close>

text \<open>
  The objects may be searched for \<open>key\<close> when those greater than it follow those less than it: the sign of the
  comparison does not increase.
\<close>

definition searchable :: "compar \<Rightarrow> byte list \<Rightarrow> byte list list \<Rightarrow> bool" where
  "searchable cmp key = sorted_wrt (\<lambda>x y. (cmp key x \<le> 0 \<longrightarrow> cmp key y \<le> 0) \<and> (cmp key x < 0 \<longrightarrow> cmp key y < 0))"

lemma searchable_append: "searchable cmp key (xs @ ys) \<longleftrightarrow> searchable cmp key xs \<and> searchable cmp key ys \<and>
    (\<forall>x \<in> set xs. \<forall>y \<in> set ys. (cmp key x \<le> 0 \<longrightarrow> cmp key y \<le> 0) \<and> (cmp key x < 0 \<longrightarrow> cmp key y < 0))"
  by (simp add: searchable_def sorted_wrt_append)

text \<open>The objects \<open>v\<close> are left to look at; those before and after them are not equal to the key.\<close>

lemma bsearch_loop_emb:
  assumes "blocks es (u @ v @ w)" "searchable cmp key (u @ v @ w)" "\<forall>x \<in> set (u @ w). cmp key x \<noteq> 0"
  shows "\<exists>r. bsearch_loop cmp key es (emb pre (u @ v @ w) post) (slot pre es (length u)) (length v) = Some r \<and>
    (case r of None \<Rightarrow> \<forall>x \<in> set (u @ v @ w). cmp key x \<noteq> 0
     | Some p \<Rightarrow> \<exists>i < length (u @ v @ w). p = slot pre es i \<and> cmp key ((u @ v @ w) ! i) = 0)"
  using assms
proof (induction "length v" arbitrary: u v w rule: less_induct)
  case less
  show ?case
  proof (cases "v = []")
    case True
    then show ?thesis using less.prems by (subst bsearch_loop.simps) auto
  next
    case False
    define k where "k = length v div 2"
    define v1 y v2 where "v1 = take k v" and "y = v ! k" and "v2 = drop (Suc k) v"
    have kv: "k < length v" using False by (simp add: k_def)
    have v: "v = v1 @ y # v2" "length v1 = k" "length v2 = length v - Suc k" using kv by (auto simp: v1_def y_def v2_def id_take_nth_drop)
    have half: "drop_bit 1 (length v) = k" "drop_bit 1 (length v - 1) = length v2" using kv v(3) by (auto simp: drop_bit_eq_div k_def)
    have p: "slot pre es (length u) + k * es = slot pre es (length (u @ v1))" unfolding slot_add(1) using v(2) by simp
    have ld: "elt (emb pre (u @ v @ w) post) es (slot pre es (length (u @ v1))) = Some y"
      by (rule elt_emb [where v = "v2 @ w"]) (use less.prems(1) v(1) in simp_all)
    have step: "bsearch_loop cmp key es (emb pre (u @ v @ w) post) (slot pre es (length u)) (length v) =
        (if cmp key y = 0 then Some (Some (slot pre es (length (u @ v1))))
         else if cmp key y > 0 then bsearch_loop cmp key es (emb pre (u @ v @ w) post) (slot pre es (length (u @ v1 @ [y]))) (length v2)
         else bsearch_loop cmp key es (emb pre (u @ v @ w) post) (slot pre es (length u)) (length v1))"
      using False by (subst bsearch_loop.simps) (simp only: p Let_def ld half bind.bind_lunit length_0_conv not_False_eq_True if_True, simp add: v(2))
    consider "cmp key y = 0" | "cmp key y > 0" | "cmp key y < 0" by linarith
    then show ?thesis
    proof cases
      case 1
      then show ?thesis unfolding step using v by (auto intro!: exI [of _ "length (u @ v1)"] simp: nth_append)
    next
      case 2
      have "\<forall>x \<in> set v1. cmp key x \<noteq> 0" using less.prems(2) 2 v(1) by (auto simp: searchable_append)
      then have nz: "\<forall>x \<in> set ((u @ v1 @ [y]) @ w). cmp key x \<noteq> 0" using less.prems(3) 2 by auto
      have eq: "(u @ v1 @ [y]) @ v2 @ w = u @ v @ w" and lt: "length v2 < length v" using v kv by simp_all
      show ?thesis unfolding step using less.hyps [OF lt, of "u @ v1 @ [y]" w, unfolded eq, OF less.prems(1,2) nz] 2 by simp
    next
      case 3
      have "\<forall>x \<in> set v2. cmp key y < 0 \<longrightarrow> cmp key x < 0" using less.prems(2) unfolding v(1) searchable_def sorted_wrt_append by simp
      then have "\<forall>x \<in> set v2. cmp key x \<noteq> 0" using 3 by fastforce
      then have nz: "\<forall>x \<in> set (u @ (y # v2 @ w)). cmp key x \<noteq> 0" using less.prems(3) 3 by auto
      have eq: "u @ v1 @ (y # v2 @ w) = u @ v @ w" and lt: "length v1 < length v" using v kv by simp_all
      show ?thesis unfolding step using less.hyps [OF lt, of u "y # v2 @ w", unfolded eq, OF less.prems(1,2) nz] 3 by simp
    qed
  qed
qed

lemma bsearch_mem:
  assumes "a + n * es \<le> length m" "searchable cmp key (elts m a es n)"
  shows "\<exists>r. bsearch cmp key m a n es = Some r \<and>
    (case r of None \<Rightarrow> \<forall>x \<in> set (elts m a es n). cmp key x \<noteq> 0
     | Some p \<Rightarrow> \<exists>i < n. p = a + i * es \<and> cmp key (elts m a es n ! i) = 0)"
proof -
  define pre post xs where "pre = take a m" and "post = drop (a + n * es) m" and "xs = elts m a es n"
  have a: "length pre = a" "blocks es xs" "length xs = n" using assms(1) by (simp_all add: pre_def xs_def)
  have m: "m = emb pre xs post" unfolding pre_def post_def xs_def by (rule emb_elts [OF assms(1)])
  have "searchable cmp key xs" using assms(2) by (simp only: xs_def)
  then obtain r where "bsearch_loop cmp key es (emb pre xs post) a n = Some r"
      "case r of None \<Rightarrow> \<forall>x \<in> set xs. cmp key x \<noteq> 0 | Some p \<Rightarrow> \<exists>i < n. p = slot pre es i \<and> cmp key (xs ! i) = 0"
    using bsearch_loop_emb [of es "[]" xs "[]" cmp key pre post, unfolded append_Nil append_Nil2] a by auto
  then show ?thesis unfolding bsearch_def m [symmetric] slot_def a(1) unfolding xs_def by blast
qed

text \<open>An array in order may be searched for any object.\<close>

context c_order
begin

lemma in_order_searchable:
  assumes "blocks es xs" "in_order cmp xs" "length key = es"
  shows "searchable cmp key xs"
proof -
  have "(cmp key x \<le> 0 \<longrightarrow> cmp key y \<le> 0) \<and> (cmp key x < 0 \<longrightarrow> cmp key y < 0)" if "x \<in> set xs" "y \<in> set xs" "cmp x y \<le> 0" for x y
    using trans [of key x y] trans_less [of key x y] that assms(1,3) by (auto simp: blocks_def)
  then show ?thesis using assms(2) unfolding searchable_def in_order_def by (rule sorted_wrt_mono_rel)
qed

end

section \<open>Linear search\<close>

text \<open>The index of the first object equal to the key.\<close>

fun first_equal :: "compar \<Rightarrow> byte list \<Rightarrow> byte list list \<Rightarrow> nat option" where
  "first_equal cmp key [] = None"
| "first_equal cmp key (x # xs) = (if cmp x key = 0 then Some 0 else map_option Suc (first_equal cmp key xs))"

lemma first_equal_None: "first_equal cmp key xs = None \<longleftrightarrow> (\<forall>x \<in> set xs. cmp x key \<noteq> 0)"
  by (induction xs) auto

lemma first_equal_Some: "first_equal cmp key xs = Some i \<Longrightarrow> i < length xs \<and> cmp (xs ! i) key = 0 \<and> (\<forall>j < i. cmp (xs ! j) key \<noteq> 0)"
proof (induction xs arbitrary: i)
  case (Cons x xs)
  then show ?case by (auto split: if_splits simp: nth_Cons' less_Suc_eq_0_disj)
qed simp

lemma linear_loop_emb:
  assumes "0 < es" "blocks es (u @ v)"
  shows "linear_loop cmp key es (emb pre (u @ v) post) (slot pre es (length u)) (slot pre es (length (u @ v))) =
    Some (map_option (\<lambda>i. slot pre es (length u + i)) (first_equal cmp key v))"
  using assms(2)
proof (induction v arbitrary: u)
  case Nil
  then show ?case by (subst linear_loop.simps) simp
next
  case (Cons x v)
  have lt: "slot pre es (length u) < slot pre es (length (u @ x # v))" using slot_le [OF assms(1)] by simp
  have "elt (emb pre (u @ x # v) post) es (slot pre es (length u)) = Some x" by (rule elt_emb [OF Cons.prems refl])
  then have "linear_loop cmp key es (emb pre (u @ x # v) post) (slot pre es (length u)) (slot pre es (length (u @ x # v))) =
      (if cmp x key = 0 then Some (Some (slot pre es (length u)))
       else linear_loop cmp key es (emb pre (u @ x # v) post) (slot pre es (Suc (length u))) (slot pre es (length (u @ x # v))))"
    using lt by (subst linear_loop.simps) simp
  then show ?case using Cons.IH [of "u @ [x]"] Cons.prems by (simp add: option.map_comp comp_def)
qed

text \<open>
  \<open>lsearch\<close> finds the first object equal to the key, or adds the key behind the last object; \<open>lfind\<close> does not
  add it.
\<close>

lemma linear_base_mem:
  assumes "0 < es" "a + n * es \<le> length m" "k + es \<le> length m" "add \<Longrightarrow> a + Suc n * es \<le> length m"
  defines "key \<equiv> take es (drop k m)" and "xs \<equiv> elts m a es n"
  shows "linear_base cmp k m a n es add = Some (case first_equal cmp key xs of
      Some i \<Rightarrow> (Some (a + i * es), n, m)
    | None \<Rightarrow> if add then (Some (a + n * es), n + 1, wr m (a + n * es) key) else (None, n, m))"
proof -
  define pre post where "pre = take a m" and "post = drop (a + n * es) m"
  have a: "length pre = a" "blocks es xs" "length xs = n" using assms(2) by (simp_all add: pre_def xs_def)
  have m: "m = emb pre xs post" unfolding pre_def post_def xs_def by (rule emb_elts [OF assms(2)])
  have "linear_loop cmp key es m a (a + n * es) = Some (map_option (\<lambda>i. a + i * es) (first_equal cmp key xs))"
    using linear_loop_emb [of es "[]" xs cmp key pre post, unfolded append_Nil, folded m] assms(1) a by (simp add: slot_def)
  moreover have "elt m es k = Some key" using assms(3) by (simp add: elt_def key_def)
  moreover have "add \<Longrightarrow> memcpy m (a + n * es) k es = Some (a + n * es, wr m (a + n * es) key)"
    using memmove_blit [of k es m "a + n * es"] assms(3,4) by (simp add: memcpy_def blit_def key_def)
  ultimately show ?thesis by (simp add: linear_base_def Let_def split: option.split)
qed

section \<open>Properties\<close>

text \<open>
  C30. Sorting and then searching with the same comparison function decides membership: after \<open>qsort_r\<close>,
  \<open>bsearch\<close> returns the address of an object equal to the key, and a null pointer exactly when the array had none,
  looking at mapped objects only.
\<close>

theorem qsort_bsearch_correct:
  assumes "c_order cmp es" "0 < es" "a + n * es \<le> length m" "length key = es"
  shows "\<exists>m' r. qsort_r cmp es m a n = Some m' \<and> bsearch cmp key m' a n es = Some r \<and>
    (r = None \<longleftrightarrow> (\<forall>x \<in> set (elts m a es n). cmp key x \<noteq> 0)) \<and>
    (\<forall>p. r = Some p \<longrightarrow> (\<exists>i < n. p = a + i * es \<and> cmp key (elts m' a es n ! i) = 0))"
proof -
  obtain m' where m': "qsort_r cmp es m a n = Some m'" "mset (elts m' a es n) = mset (elts m a es n)" "in_order cmp (elts m' a es n)"
    "length m' = length m" using qsort_mem [OF assms(1-3)] by blast
  have b: "blocks es (elts m' a es n)" using blocks_mset [OF m'(2), of es] assms(3) by simp
  have room: "a + n * es \<le> length m'" using m'(4) assms(3) by simp
  have "searchable cmp key (elts m' a es n)" by (rule c_order.in_order_searchable [OF assms(1) b m'(3) assms(4)])
  then obtain r where "bsearch cmp key m' a n es = Some r" "case r of None \<Rightarrow> \<forall>x \<in> set (elts m' a es n). cmp key x \<noteq> 0
     | Some p \<Rightarrow> \<exists>i < n. p = a + i * es \<and> cmp key (elts m' a es n ! i) = 0" using bsearch_mem [OF room] by blast
  then show ?thesis using m'(1) mset_eq_setD [OF m'(2)] nth_mem [of _ "elts m' a es n"] by (cases r) fastforce+
qed

theorem qsort_bsearch_correct_witness:
  "\<exists>m' r. qsort_r memcmp_objects 1 [9, 3, 1, 3, 0] 0 5 = Some m' \<and> bsearch memcmp_objects [3] m' 0 5 1 = Some r \<and>
    (r = None \<longleftrightarrow> (\<forall>x \<in> set (elts [9, 3, 1, 3, 0] 0 1 5). memcmp_objects [3] x \<noteq> 0)) \<and>
    (\<forall>p. r = Some p \<longrightarrow> (\<exists>i < 5. p = 0 + i * 1 \<and> memcmp_objects [3] (elts m' 0 1 5 ! i) = 0))"
  by (rule qsort_bsearch_correct [OF memcmp_ord.c_order_axioms]) simp_all

end
