(* ===== verification/Heapsort.thy ===== *)
theory Heapsort
  imports Qsort
begin

text \<open>
  \<^verbatim>\<open>src/libc/stdlib/heapsort.c\<close>: the objects are numbered from 1, so \<open>base\<close> is one object below the array; \<open>item\<close>
  is the address of a number.  \<open>k\<close> is a buffer of its own; that \<^verbatim>\<open>malloc\<close> may fail to provide it is the parameter
  \<open>alloc\<close>.  The byte loops of \<^verbatim>\<open>SWAP\<close> and \<^verbatim>\<open>COPY\<close> run before their count is tested.
\<close>

section \<open>The program\<close>

fun SWAP :: "nat \<Rightarrow> mem \<Rightarrow> nat \<Rightarrow> nat \<Rightarrow> mem option" where
  "SWAP 0 m a b = None"
| "SWAP (Suc cnt) m a b = do {
     tmp \<leftarrow> ld m a;
     x \<leftarrow> ld m b;
     m \<leftarrow> st m a x;
     m \<leftarrow> st m b tmp;
     if cnt > 0 then SWAP cnt m (a + 1) (b + 1) else Some m }"

fun COPY :: "nat \<Rightarrow> mem \<Rightarrow> nat \<Rightarrow> nat \<Rightarrow> mem option" where
  "COPY 0 m a b = None"
| "COPY (Suc cnt) m a b = do {
     x \<leftarrow> ld m b;
     m \<leftarrow> st m a x;
     if cnt > 0 then COPY cnt m (a + 1) (b + 1) else Some m }"

text \<open>\<^verbatim>\<open>COPY\<close> into \<open>k\<close> and out of it.\<close>

fun COPY_to_k :: "nat \<Rightarrow> mem \<Rightarrow> nat \<Rightarrow> byte list option" where
  "COPY_to_k 0 m b = None"
| "COPY_to_k (Suc cnt) m b = do {
     x \<leftarrow> ld m b;
     k \<leftarrow> (if cnt > 0 then COPY_to_k cnt m (b + 1) else Some []);
     Some (x # k) }"

fun COPY_from_k :: "mem \<Rightarrow> nat \<Rightarrow> byte list \<Rightarrow> mem option" where
  "COPY_from_k m a [] = Some m"
| "COPY_from_k m a (x # k) = do { m \<leftarrow> st m a x; COPY_from_k m (a + 1) k }"

definition item :: "nat \<Rightarrow> nat \<Rightarrow> nat \<Rightarrow> nat" where
  "item vbase es i = vbase + i * es - es"

definition larger_child :: "compar \<Rightarrow> nat \<Rightarrow> nat \<Rightarrow> nat \<Rightarrow> mem \<Rightarrow> nat \<Rightarrow> nat option" where
  "larger_child cmp vbase es nmemb m child_i = (if child_i < nmemb then do {
       r \<leftarrow> call_cmp cmp m es (item vbase es child_i) (item vbase es (child_i + 1));
       Some (if r < 0 then child_i + 1 else child_i) }
     else Some child_i)"

partial_function (option) CREATE :: "compar \<Rightarrow> nat \<Rightarrow> nat \<Rightarrow> nat \<Rightarrow> mem \<Rightarrow> nat \<Rightarrow> mem option" where
  "CREATE cmp vbase es nmemb m par_i = (if par_i * 2 \<le> nmemb then do {
       child_i \<leftarrow> larger_child cmp vbase es nmemb m (par_i * 2);
       r \<leftarrow> call_cmp cmp m es (item vbase es child_i) (item vbase es par_i);
       if r \<le> 0 then Some m
       else do {
         m \<leftarrow> SWAP es m (item vbase es par_i) (item vbase es child_i);
         CREATE cmp vbase es nmemb m child_i } }
     else Some m)"

text \<open>\<^verbatim>\<open>SELECT\<close>: down to a leaf, and up again with \<open>k\<close>.\<close>

partial_function (option) select_down :: "compar \<Rightarrow> nat \<Rightarrow> nat \<Rightarrow> nat \<Rightarrow> mem \<Rightarrow> nat \<Rightarrow> (mem \<times> nat) option" where
  "select_down cmp vbase es nmemb m par_i = (if par_i * 2 \<le> nmemb then do {
       child_i \<leftarrow> larger_child cmp vbase es nmemb m (par_i * 2);
       m \<leftarrow> COPY es m (item vbase es par_i) (item vbase es child_i);
       select_down cmp vbase es nmemb m child_i }
     else Some (m, par_i))"

partial_function (option) select_up :: "compar \<Rightarrow> nat \<Rightarrow> nat \<Rightarrow> byte list \<Rightarrow> mem \<Rightarrow> nat \<Rightarrow> mem option" where
  "select_up cmp vbase es k m child_i = (let par_i = child_i div 2 in
     if child_i = 1 then COPY_from_k m (item vbase es child_i) k
     else do {
       x \<leftarrow> elt m es (item vbase es par_i);
       if cmp k x < 0 then COPY_from_k m (item vbase es child_i) k
       else do {
         m \<leftarrow> COPY es m (item vbase es child_i) (item vbase es par_i);
         select_up cmp vbase es k m par_i } })"

definition SELECT :: "compar \<Rightarrow> nat \<Rightarrow> nat \<Rightarrow> nat \<Rightarrow> byte list \<Rightarrow> mem \<Rightarrow> mem option" where
  "SELECT cmp vbase es nmemb k m = do {
     (m, i) \<leftarrow> select_down cmp vbase es nmemb m 1;
     select_up cmp vbase es k m i }"

fun create_all :: "compar \<Rightarrow> nat \<Rightarrow> nat \<Rightarrow> nat \<Rightarrow> mem \<Rightarrow> nat \<Rightarrow> mem option" where
  "create_all cmp vbase es nmemb m 0 = Some m"
| "create_all cmp vbase es nmemb m (Suc l) = do {
     m \<leftarrow> CREATE cmp vbase es nmemb m (Suc l);
     create_all cmp vbase es nmemb m l }"

fun sort_loop :: "compar \<Rightarrow> nat \<Rightarrow> nat \<Rightarrow> mem \<Rightarrow> nat \<Rightarrow> mem option" where
  "sort_loop cmp vbase es m nmemb = (if nmemb > 1 then do {
       k \<leftarrow> COPY_to_k es m (item vbase es nmemb);
       m \<leftarrow> COPY es m (item vbase es nmemb) (item vbase es 1);
       m \<leftarrow> SELECT cmp vbase es (nmemb - 1) k m;
       sort_loop cmp vbase es m (nmemb - 1) }
     else Some m)"

declare sort_loop.simps [simp del]

text \<open>The result is the return value, and the error number when it is \<open>-1\<close>.\<close>

datatype sort_err = EINVAL | ENOMEM

definition heapsort_r :: "compar \<Rightarrow> nat \<Rightarrow> bool \<Rightarrow> mem \<Rightarrow> nat \<Rightarrow> nat \<Rightarrow> (int \<times> sort_err option \<times> mem) option" where
  "heapsort_r cmp es alloc m vbase nmemb = (
     if nmemb \<le> 1 then Some (0, None, m)
     else if es = 0 then Some (- 1, Some EINVAL, m)
     else if \<not> alloc then Some (- 1, Some ENOMEM, m)
     else do {
       m \<leftarrow> create_all cmp vbase es nmemb m (nmemb div 2);
       m \<leftarrow> sort_loop cmp vbase es m nmemb;
       Some (0, None, m) })"

section \<open>Moving objects\<close>

lemma ldw_1: "ldw 1 m p = map_option (\<lambda>x. [x]) (ld m p)"
  using take_drop_Suc [of p m 0] by (auto simp: ldw_def ld_def)

lemma stw_1: "stw 1 m p [x] = st m p x"
  by (auto simp: stw_def st_def)

lemma SWAP_code: "SWAP n m a b = swapcode 1 n m a b"
proof (induction n arbitrary: m a b)
  case (Suc n)
  show ?case unfolding SWAP.simps swapcode.simps ldw_1 
    by (cases "ld m a"; cases "ld m b") (simp_all add: stw_1 [unfolded One_nat_def] Suc.IH split: Option.bind_split)
qed simp

lemma blit_step:
  assumes "d \<le> s \<or> s + Suc n \<le> d" "d + Suc n \<le> length m" "s + Suc n \<le> length m"
  shows "blit (blit m d s 1) (d + 1) (s + 1) n = blit m d s (Suc n)"
proof (cases "d \<le> s")
  case True
  then show ?thesis using blit_up [of d s 1 n m] assms by simp
next
  case False
  show ?thesis
  proof (rule nth_equalityI)
    fix i
    assume "i < length (blit (blit m d s 1) (d + 1) (s + 1) n)"
    consider "i < d \<or> d + Suc n \<le> i" | "i = d" | k where "i = d + Suc k" "k < n"
      by (metis add_Suc_right add_less_cancel_left add.right_neutral le_neq_implies_less less_imp_Suc_add linorder_not_less Suc_less_eq)
    then show "blit (blit m d s 1) (d + 1) (s + 1) n ! i = blit m d s (Suc n) ! i"
      using assms False by cases (auto simp: nth_blit)
  qed simp
qed

lemma COPY_blit:
  "0 < n \<Longrightarrow> d + n \<le> length m \<Longrightarrow> s + n \<le> length m \<Longrightarrow> d \<le> s \<or> s + n \<le> d \<Longrightarrow> COPY n m d s = Some (blit m d s n)"
proof (induction n arbitrary: m d s)
  case (Suc n)
  have "m[d := m ! s] = blit m d s 1" using Suc.prems by (intro blit_1) simp
  moreover have "blit (blit m d s 1) (d + 1) (s + 1) n = blit m d s (Suc n)"
    using Suc.prems by (intro blit_step) simp_all
  moreover have "d \<le> s \<or> s + n \<le> d" using Suc.prems(4) by auto
  ultimately show ?case using Suc.IH [of "d + 1" "blit m d s 1" "s + 1"] Suc.prems by (cases "n = 0") simp_all
qed simp

lemma COPY_to_k_elt: "0 < n \<Longrightarrow> p + n \<le> length m \<Longrightarrow> COPY_to_k n m p = Some (take n (drop p m))"
proof (induction n arbitrary: p)
  case (Suc n)
  then show ?case using take_drop_Suc [of p m n] by (cases "n = 0") (simp_all add: take_drop_Suc)
qed simp

lemma COPY_from_k_wr: "p + length k \<le> length m \<Longrightarrow> COPY_from_k m p k = Some (wr m p k)"
  by (induction k arbitrary: m p) simp_all

text \<open>The same on the objects of an array.\<close>

lemma wr_emb:
  assumes "blocks es xs" "i < length xs" "length y = es"
  shows "wr (emb pre xs post) (slot pre es i) y = emb pre (xs[i := y]) post"
proof -
  define u x v where "u = take i xs" and "x = xs ! i" and "v = drop (Suc i) xs"
  have xs: "xs = u @ x # v" "length u = i" using assms(2) by (simp_all add: u_def x_def v_def id_take_nth_drop [symmetric])
  have "length x = es" "length (concat u) = i * es" using assms(1) xs by (simp_all add: length_concat_blocks [of es])
  then show ?thesis using assms(3) unfolding xs(1) by (simp add: emb_def slot_def xs(2) wr_conv list_update_append)
qed

lemma elt_slot: "blocks es xs \<Longrightarrow> i < length xs \<Longrightarrow> elt (emb pre xs post) es (slot pre es i) = Some (xs ! i)"
  using elt_emb [OF _ id_take_nth_drop, of es xs i] by simp

lemma slot_room: "blocks es xs \<Longrightarrow> i < length xs \<Longrightarrow> slot pre es i + es \<le> length (emb pre xs post)"
  using elt_slot [of es xs i pre post] by (auto simp: elt_def split: if_splits)

lemma take_slot: "blocks es xs \<Longrightarrow> i < length xs \<Longrightarrow> take es (drop (slot pre es i) (emb pre xs post)) = xs ! i"
  using elt_slot [of es xs i pre post] by (auto simp: elt_def split: if_splits)

lemma slot_apart: "i \<noteq> j \<Longrightarrow> slot pre es i + es \<le> slot pre es j \<or> slot pre es j + es \<le> slot pre es i"
  using slot_simps(2) by (metis Suc_leI add_mono_thms_linordered_semiring(1) linorder_neqE_nat mult_le_mono1 order_refl slot_def)

lemma blocks_upd: "blocks es xs \<Longrightarrow> length y = es \<Longrightarrow> blocks es (xs[i := y])"
  using set_update_subset_insert by (fastforce simp: blocks_def)

lemma blocks_nth: "blocks es xs \<Longrightarrow> i < length xs \<Longrightarrow> length (xs ! i) = es"
  by (simp add: blocks_def)

lemma COPY_slots:
  assumes "0 < es" "blocks es xs" "i < length xs" "j < length xs"
  shows "COPY es (emb pre xs post) (slot pre es i) (slot pre es j) = Some (emb pre (xs[i := xs ! j]) post)"
proof -
  have "slot pre es i \<le> slot pre es j \<or> slot pre es j + es \<le> slot pre es i" using slot_apart [of i j pre es] by (cases "i = j") (auto simp del: slot_simps)
  then show ?thesis using assms COPY_blit [OF assms(1)] slot_room [OF assms(2)]
    by (simp add: blit_def take_slot wr_emb blocks_nth)
qed

lemma SWAP_slots:
  assumes "0 < es" "blocks es xs" "i < j" "j < length xs"
  shows "SWAP es (emb pre xs post) (slot pre es i) (slot pre es j) = Some (emb pre (xs[i := xs ! j, j := xs ! i]) post)"
proof -
  define u x v y w where "u = take i xs" and "x = xs ! i" and "v = take (j - Suc i) (drop (Suc i) xs)" and "y = xs ! j" and "w = drop (Suc j) xs"
  have xs: "xs = u @ x # v @ y # w" "length u = i" "j = Suc (i + length v)"
    using assms(3,4) id_take_nth_drop [of "j - Suc i" "drop (Suc i) xs"] by (simp_all add: u_def x_def v_def y_def w_def id_take_nth_drop [symmetric])
  have l: "length (pre @ concat u) = slot pre es i" "length ((pre @ concat u) @ x @ concat v) = slot pre es j" "length x = es" "length y = es"
    using assms(2) xs by (simp_all add: slot_def length_concat_blocks [of es] add_mult_distrib)
  have "swapcode 1 es ((pre @ concat u) @ x @ concat v @ y @ concat w @ post) (slot pre es i) (slot pre es j) =
      Some ((pre @ concat u) @ y @ concat v @ x @ concat w @ post)"
    by (rule swapcode_segs) (use assms(1) l in \<open>simp_all add: at_two_def\<close>)
  moreover have "xs[i := xs ! j, j := xs ! i] = u @ y # v @ x # w" unfolding xs(1) by (simp add: xs(2,3) list_update_append nth_append)
  ultimately show ?thesis unfolding SWAP_code by (simp add: emb_def xs(1))
qed

section \<open>Heaps\<close>

text \<open>The object with number \<open>i\<close>.\<close>

definition hp :: "byte list list \<Rightarrow> nat \<Rightarrow> byte list" where
  "hp xs i = (if 1 \<le> i \<and> i \<le> length xs then xs ! (i - 1) else [])"

lemma hp_upd: "1 \<le> p \<Longrightarrow> p \<le> length xs \<Longrightarrow> hp (xs[p - 1 := v]) = (hp xs)(p := v)"
  by (rule ext) (auto simp: hp_def nth_list_update)

lemma item_slot: "1 \<le> i \<Longrightarrow> item (length pre) es i = slot pre es (i - 1)"
  by (cases i) (simp_all add: item_def slot_def)

lemma length_hp: "blocks es xs \<Longrightarrow> 1 \<le> i \<Longrightarrow> i \<le> length xs \<Longrightarrow> length (hp xs i) = es"
  by (simp add: hp_def blocks_def)

lemma hp_nth: "i < length xs \<Longrightarrow> hp xs (Suc i) = xs ! i" "1 \<le> i \<Longrightarrow> i \<le> length xs \<Longrightarrow> xs ! (i - 1) = hp xs i"
  by (simp_all add: hp_def)

text \<open>The objects beyond \<open>n\<close> stay.\<close>

definition beyond :: "nat \<Rightarrow> byte list list \<Rightarrow> byte list list \<Rightarrow> bool" where
  "beyond n xs ys \<longleftrightarrow> length ys = length xs \<and> drop n ys = drop n xs"

lemma beyond_upd: "1 \<le> p \<Longrightarrow> p \<le> n \<Longrightarrow> beyond n xs (xs[p - 1 := v])"
  by (auto simp: beyond_def)

lemma beyond_trans: "beyond n xs ys \<Longrightarrow> beyond n ys zs \<Longrightarrow> beyond n xs zs"
  by (simp add: beyond_def)

context c_order
begin

text \<open>Every object from number \<open>2 * lo\<close> on is at most its parent, except for the children of \<open>p\<close>, which are at
  most the parent of \<open>p\<close>.\<close>

definition heap_but :: "nat \<Rightarrow> nat \<Rightarrow> nat \<Rightarrow> (nat \<Rightarrow> byte list) \<Rightarrow> bool" where
  "heap_but lo n p h \<longleftrightarrow> (\<forall>i. 2 \<le> i \<and> i \<le> n \<and> lo \<le> i div 2 \<and> i div 2 \<noteq> p \<longrightarrow> cmp (h i) (h (i div 2)) \<le> 0) \<and>
    (lo \<le> p div 2 \<longrightarrow> (\<forall>d \<le> n. d div 2 = p \<longrightarrow> cmp (h d) (h (p div 2)) \<le> 0))"

definition heap :: "nat \<Rightarrow> nat \<Rightarrow> (nat \<Rightarrow> byte list) \<Rightarrow> bool" where
  "heap lo n h \<longleftrightarrow> (\<forall>i. 2 \<le> i \<and> i \<le> n \<and> lo \<le> i div 2 \<longrightarrow> cmp (h i) (h (i div 2)) \<le> 0)"

definition sized :: "nat \<Rightarrow> (nat \<Rightarrow> byte list) \<Rightarrow> bool" where
  "sized n h \<longleftrightarrow> (\<forall>i. 1 \<le> i \<and> i \<le> n \<longrightarrow> length (h i) = es)"

definition big_child :: "nat \<Rightarrow> (nat \<Rightarrow> byte list) \<Rightarrow> nat \<Rightarrow> nat" where
  "big_child n h p = (if p * 2 < n \<and> cmp (h (p * 2)) (h (p * 2 + 1)) < 0 then p * 2 + 1 else p * 2)"

lemma self: "length x = es \<Longrightarrow> cmp x x = 0"
  using anti [of x x] by (simp add: sgn_if split: if_splits)

lemma big_child:
  assumes "sized n h" "1 \<le> p" "p * 2 \<le> n"
  shows "big_child n h p div 2 = p" "p < big_child n h p" "big_child n h p \<le> n" "d \<le> n \<Longrightarrow> d div 2 = p \<Longrightarrow> cmp (h d) (h (big_child n h p)) \<le> 0"
proof -
  show "big_child n h p div 2 = p" "p < big_child n h p" "big_child n h p \<le> n" using assms by (auto simp: big_child_def)
  assume d: "d \<le> n" "d div 2 = p"
  then have "d = p * 2 \<or> d = p * 2 + 1" by linarith
  moreover have "length (h d) = es" "p * 2 < n \<Longrightarrow> length (h (p * 2 + 1)) = es" "length (h (p * 2)) = es" using assms d by (auto simp: sized_def)
  ultimately show "cmp (h d) (h (big_child n h p)) \<le> 0" using d self flip [of "h (p * 2)" "h (p * 2 + 1)"] by (auto simp: big_child_def)
qed

lemma sift_step:
  assumes "heap_but lo n p h" "sized n h" "1 \<le> p" "p * 2 \<le> n" "lo \<le> p" "1 \<le> lo"
  defines "c \<equiv> big_child n h p"
  assumes "cmp (h c) (h p) > 0"
  shows "heap_but lo n c (h(p := h c, c := h p))"
proof -
  note c = big_child [OF assms(2-4), folded c_def]
  have pc: "cmp (h p) (h c) \<le> 0" using flip(3) [of "h p" "h c"] assms c by (auto simp: sized_def)
  have "cmp ((h(p := h c, c := h p)) i) ((h(p := h c, c := h p)) (i div 2)) \<le> 0"
    if i: "2 \<le> i" "i \<le> n" "lo \<le> i div 2" "i div 2 \<noteq> c" for i
  proof (cases "i div 2 = p")
    case True
    then show ?thesis using c(4) [OF i(2) True] pc c(2) i by (cases "i = c") auto
  next
    case False
    then have "i \<noteq> c" using c(1) by auto
    show ?thesis
    proof (cases "i = p")
      case True
      then show ?thesis using assms(1) i c False by (auto simp: heap_but_def)
    qed (use assms(1) i False \<open>i \<noteq> c\<close> in \<open>auto simp: heap_but_def\<close>)
  qed
  moreover have "cmp ((h(p := h c, c := h p)) d) ((h(p := h c, c := h p)) (c div 2)) \<le> 0" if d: "d \<le> n" "d div 2 = c" for d
  proof -
    have "d \<noteq> p" "d \<noteq> c" "c \<noteq> p" "2 \<le> d" "lo \<le> c" using c d assms(3,5) by auto
    then show ?thesis using assms(1) d c(1) by (auto simp: heap_but_def)
  qed
  ultimately show ?thesis by (simp add: heap_but_def)
qed

lemma heap_but_done:
  assumes "heap_but lo n p h" "\<And>d. d \<le> n \<Longrightarrow> d div 2 = p \<Longrightarrow> cmp (h d) (h p) \<le> 0"
  shows "heap lo n h"
  using assms by (auto simp: heap_but_def heap_def)

lemma larger_child_emb:
  assumes "blocks es xs" "n \<le> length xs" "1 \<le> p" "p * 2 \<le> n"
  shows "larger_child cmp (length pre) es n (emb pre xs post) (p * 2) = Some (big_child n (hp xs) p)"
  using assms call_cmp_slots [OF assms(1), of "p * 2 - 1" "p * 2" cmp pre post] item_slot [of "p * 2" pre es] item_slot [of "p * 2 + 1" pre es]
  by (simp add: larger_child_def big_child_def hp_def)

lemma sized_hp: "blocks es xs \<Longrightarrow> n \<le> length xs \<Longrightarrow> sized n (hp xs)"
  by (auto simp: sized_def length_hp)

lemma mset_swap_hp:
  assumes "1 \<le> p" "p < c" "c \<le> length xs"
  shows "mset (xs[p - 1 := hp xs c, c - 1 := hp xs p]) = mset xs" "hp (xs[p - 1 := hp xs c, c - 1 := hp xs p]) = (hp xs)(p := hp xs c, c := hp xs p)"
proof -
  show "mset (xs[p - 1 := hp xs c, c - 1 := hp xs p]) = mset xs" using assms mset_swap [of "c - 1" xs "p - 1"] by (simp add: hp_def)
  show "hp (xs[p - 1 := hp xs c, c - 1 := hp xs p]) = (hp xs)(p := hp xs c, c := hp xs p)"
    using hp_upd [of c "xs[p - 1 := hp xs c]" "hp xs p"] hp_upd [of p xs "hp xs c"] assms by simp
qed

lemma CREATE_emb:
  assumes "0 < es" "blocks es xs" "n \<le> length xs" "1 \<le> lo" "lo \<le> p" "heap_but lo n p (hp xs)"
  shows "\<exists>ys. CREATE cmp (length pre) es n (emb pre xs post) p = Some (emb pre ys post) \<and> mset ys = mset xs \<and> heap lo n (hp ys)"
  using assms(2-)
proof (induction "n - p" arbitrary: xs p rule: less_induct)
  case less
  show ?case
  proof (cases "p * 2 \<le> n")
    case False
    then have "CREATE cmp (length pre) es n (emb pre xs post) p = Some (emb pre xs post)" by (subst CREATE.simps) simp
    moreover have "heap lo n (hp xs)" by (rule heap_but_done [OF less.prems(5)]) (use False in auto)
    ultimately show ?thesis by blast
  next
    case True
    define h c where "h = hp xs" and "c = big_child n h p"
    have p: "1 \<le> p" and sz: "sized n h" using less.prems sized_hp by (auto simp: h_def)
    note c = big_child [OF sz p True, folded c_def]
    have cl: "c \<le> length xs" "1 \<le> c" using c less.prems by auto
    have cc: "call_cmp cmp (emb pre xs post) es (item (length pre) es c) (item (length pre) es p) = Some (cmp (h c) (h p))"
      using call_cmp_slots [OF less.prems(1), of "c - 1" "p - 1" cmp pre post] p c cl by (simp add: item_slot h_def hp_def)
    have lc: "larger_child cmp (length pre) es n (emb pre xs post) (p * 2) = Some c"
      using larger_child_emb [OF less.prems(1,2) p True] by (simp add: c_def h_def)
    show ?thesis
    proof (cases "cmp (h c) (h p) \<le> 0")
      case le: True
      then have "CREATE cmp (length pre) es n (emb pre xs post) p = Some (emb pre xs post)" using True lc cc by (subst CREATE.simps) simp
      moreover have "heap lo n h"
      proof (rule heap_but_done)
        show "heap_but lo n p h" using less.prems(5) by (simp add: h_def)
        fix d
        assume d: "d \<le> n" "d div 2 = p"
        then have "1 \<le> d" using p by (cases d) auto
        then show "cmp (h d) (h p) \<le> 0" using trans [of "h d" "h c" "h p"] c(4) [OF d] le sz p c cl True d by (auto simp: sized_def)
      qed
      ultimately show ?thesis by (auto simp: h_def)
    next
      case gt: False
      define ys where "ys = xs[p - 1 := h c, c - 1 := h p]"
      have ys: "mset ys = mset xs" "hp ys = h(p := h c, c := h p)" using mset_swap_hp [OF p c(2) cl(1)] by (simp_all add: ys_def h_def)
      have "SWAP es (emb pre xs post) (item (length pre) es p) (item (length pre) es c) = Some (emb pre ys post)"
        using SWAP_slots [OF assms(1) less.prems(1), of "p - 1" "c - 1" pre post] p c cl by (auto simp: item_slot ys_def h_def hp_def)
      then have "CREATE cmp (length pre) es n (emb pre xs post) p = CREATE cmp (length pre) es n (emb pre ys post) c"
        using True gt lc cc by (subst CREATE.simps) simp
      moreover have "heap_but lo n c (hp ys)" unfolding ys(2)
        using sift_step [of lo n p h] less.prems(3-5) sz p True gt by (simp add: c_def h_def)
      moreover have "blocks es ys" "length ys = length xs" using blocks_mset [OF ys(1), of es] less.prems(1) mset_eq_length [OF ys(1)] by simp_all
      ultimately show ?thesis using less.hyps [of c ys] c less.prems ys(1) p by auto
    qed
  qed
qed

lemma create_all_emb:
  assumes "0 < es" "blocks es xs" "n = length xs" "heap (Suc l) n (hp xs)"
  shows "\<exists>ys. create_all cmp (length pre) es n (emb pre xs post) l = Some (emb pre ys post) \<and> mset ys = mset xs \<and> heap 1 n (hp ys)"
  using assms(2-)
proof (induction l arbitrary: xs)
  case (Suc l)
  have "heap_but (Suc l) n (Suc l) (hp xs)" using Suc.prems(3) by (auto simp: heap_def heap_but_def)
  then obtain ys where ys: "CREATE cmp (length pre) es n (emb pre xs post) (Suc l) = Some (emb pre ys post)" "mset ys = mset xs" "heap (Suc l) n (hp ys)"
    using CREATE_emb [of xs n "Suc l" "Suc l" pre post] assms(1) Suc.prems by auto
  then show ?case using Suc.IH [of ys] Suc.prems blocks_mset [OF ys(2), of es] mset_eq_length [OF ys(2)] by auto
qed auto

lemma heap_top:
  assumes "heap 1 n h" "sized n h" "1 \<le> i" "i \<le> n"
  shows "cmp (h i) (h 1) \<le> 0"
  using assms(3,4)
proof (induction i rule: less_induct)
  case (less i)
  show ?case
  proof (cases "i = 1")
    case False
    then have i: "2 \<le> i" "i div 2 < i" "1 \<le> i div 2" using less.prems by auto
    then have "cmp (h (i div 2)) (h 1) \<le> 0" "cmp (h i) (h (i div 2)) \<le> 0" using less assms(1) by (auto simp: heap_def)
    then show ?thesis using trans [of "h i" "h (i div 2)" "h 1"] assms(2) less.prems i by (auto simp: sized_def)
  qed (use self assms(2) less.prems in \<open>auto simp: sized_def\<close>)
qed

section \<open>Selection\<close>

text \<open>A heap with a hole at \<open>p\<close>.\<close>

definition hole :: "nat \<Rightarrow> nat \<Rightarrow> (nat \<Rightarrow> byte list) \<Rightarrow> bool" where
  "hole n p h \<longleftrightarrow> (\<forall>i. 2 \<le> i \<and> i \<le> n \<and> i \<noteq> p \<and> i div 2 \<noteq> p \<longrightarrow> cmp (h i) (h (i div 2)) \<le> 0) \<and>
    (1 < p \<longrightarrow> (\<forall>d \<le> n. d div 2 = p \<longrightarrow> cmp (h d) (h (p div 2)) \<le> 0))"

lemma hole_down:
  assumes "hole n p h" "sized n h" "1 \<le> p" "p * 2 \<le> n"
  defines "c \<equiv> big_child n h p"
  shows "hole n c (h(p := h c))"
proof -
  note c = big_child [OF assms(2-4), folded c_def]
  have "cmp ((h(p := h c)) i) ((h(p := h c)) (i div 2)) \<le> 0" if i: "2 \<le> i" "i \<le> n" "i \<noteq> c" "i div 2 \<noteq> c" for i
  proof (cases "i div 2 = p")
    case True
    then show ?thesis using c(4) [OF i(2)] i by auto
  next
    case False
    show ?thesis
    proof (cases "i = p")
      case True
      then show ?thesis using assms(1) i c False by (auto simp: hole_def)
    qed (use assms(1) i False in \<open>auto simp: hole_def\<close>)
  qed
  moreover have "cmp ((h(p := h c)) d) ((h(p := h c)) (c div 2)) \<le> 0" if "d \<le> n" "d div 2 = c" for d
  proof -
    have "d \<noteq> p" "2 \<le> d" "c \<noteq> p" using that c assms(3) by auto
    then show ?thesis using assms(1) that c by (auto simp: hole_def)
  qed
  ultimately show ?thesis by (simp add: hole_def)
qed

lemma hole_up:
  assumes "hole n p h" "sized n h" "2 \<le> p" "p \<le> n" "\<And>d. d \<le> n \<Longrightarrow> d div 2 = p \<Longrightarrow> cmp (h d) k \<le> 0" "length k = es" "cmp k (h (p div 2)) \<ge> 0"
  shows "hole n (p div 2) (h(p := h (p div 2)))" "d \<le> n \<Longrightarrow> d div 2 = p div 2 \<Longrightarrow> cmp ((h(p := h (p div 2))) d) k \<le> 0"
proof -
  define q where "q = p div 2"
  have q1: "1 \<le> q" "q < p" "q \<le> n" using assms(3,4) by (auto simp: q_def)
  then have q: "1 \<le> q" "q < p" "q \<le> n" "length (h q) = es" using assms(2) by (auto simp: sized_def)
  have qk: "cmp (h q) k \<le> 0" using flip(3) [of "h q" k] q assms(6,7) by (simp add: q_def)
  have edge: "cmp (h i) (h (i div 2)) \<le> 0" if "2 \<le> i" "i \<le> n" "i \<noteq> p" "i div 2 \<noteq> p" for i using assms(1) that by (auto simp: hole_def)
  show below: "cmp ((h(p := h (p div 2))) d) k \<le> 0" if d: "d \<le> n" "d div 2 = p div 2" for d
  proof (cases "d = p")
    case False
    have "2 \<le> d" using d q unfolding q_def by auto
    then have "cmp (h d) (h q) \<le> 0" "length (h d) = es" using edge [of d] d q False assms(2) by (auto simp: q_def sized_def)
    then show ?thesis using trans [of "h d" "h q" k] qk q assms(6) False by simp
  qed (use qk in \<open>simp add: q_def\<close>)
  have "cmp ((h(p := h q)) i) ((h(p := h q)) (i div 2)) \<le> 0" if i: "2 \<le> i" "i \<le> n" "i \<noteq> q" "i div 2 \<noteq> q" for i
    using assms(1,3) edge [of i] i unfolding hole_def q_def by (cases "i = p"; cases "i div 2 = p") auto
  moreover have "cmp ((h(p := h q)) d) ((h(p := h q)) (q div 2)) \<le> 0" if d: "1 < q" "d \<le> n" "d div 2 = q" for d
  proof -
    have q2: "1 \<le> q div 2" "q div 2 \<le> n" "q div 2 \<noteq> p" using d(1) q by auto
    have up: "cmp (h q) (h (q div 2)) \<le> 0" "q div 2 \<noteq> p" "length (h (q div 2)) = es" using edge [of q] d(1) q q2 assms(2) by (auto simp: sized_def)
    show ?thesis
    proof (cases "d = p")
      case False
      then have "cmp (h d) (h q) \<le> 0" "length (h d) = es" using edge [of d] d q assms(2) by (auto simp: q_def sized_def)
      then show ?thesis using trans [of "h d" "h q" "h (q div 2)"] up q False by simp
    qed (use up in simp)
  qed
  ultimately show "hole n (p div 2) (h(p := h (p div 2)))" by (simp add: hole_def q_def)
qed

lemma hole_fill:
  assumes "hole n p h" "\<And>d. d \<le> n \<Longrightarrow> d div 2 = p \<Longrightarrow> cmp (h d) k \<le> 0" "p = 1 \<or> cmp k (h (p div 2)) \<le> 0" "1 \<le> p"
  shows "heap 1 n (h(p := k))"
  unfolding heap_def
proof (intro allI impI)
  fix i
  assume "2 \<le> i \<and> i \<le> n \<and> 1 \<le> i div 2"
  then show "cmp ((h(p := k)) i) ((h(p := k)) (i div 2)) \<le> 0"
    using assms unfolding hole_def by (cases "i = p"; cases "i div 2 = p") auto
qed

lemma mset_move:
  assumes "1 \<le> p" "1 \<le> c" "p \<le> length xs" "c \<le> length xs" "p \<noteq> c"
  shows "mset ((xs[p - 1 := hp xs c])[c - 1 := v]) = mset (xs[p - 1 := v])"
proof -
  have "p - 1 \<noteq> c - 1" using assms by auto
  then show ?thesis using mset_swap [of "c - 1" "xs[p - 1 := v]" "p - 1"] assms by (simp add: hp_def list_update_swap)
qed


lemma select_down_emb:
  assumes "0 < es" "blocks es xs" "n \<le> length xs" "1 \<le> p" "p \<le> n" "hole n p (hp xs)"
  shows "\<exists>ys q. select_down cmp (length pre) es n (emb pre xs post) p = Some (emb pre ys post, q) \<and> 1 \<le> q \<and> q \<le> n \<and> n < q * 2 \<and>
    hole n q (hp ys) \<and> blocks es ys \<and> beyond n xs ys \<and> (\<forall>v. mset (ys[q - 1 := v]) = mset (xs[p - 1 := v]))"
  using assms(2-)
proof (induction "n - p" arbitrary: xs p rule: less_induct)
  case less
  show ?case
  proof (cases "p * 2 \<le> n")
    case False
    then have "select_down cmp (length pre) es n (emb pre xs post) p = Some (emb pre xs post, p)" by (subst select_down.simps) simp
    then show ?thesis using less.prems False by (auto simp: beyond_def)
  next
    case True
    define c where "c = big_child n (hp xs) p"
    note sz = sized_hp [OF less.prems(1,2)]
    note c = big_child [OF sz less.prems(3) True, folded c_def]
    define ys where "ys = xs[p - 1 := hp xs c]"
    have cl: "1 \<le> c" "c \<le> length xs" using c less.prems by auto
    have "COPY es (emb pre xs post) (item (length pre) es p) (item (length pre) es c) = Some (emb pre ys post)"
      using COPY_slots [OF assms(1) less.prems(1), of "p - 1" "c - 1" pre post] less.prems cl by (auto simp: item_slot ys_def hp_def)
    then have step: "select_down cmp (length pre) es n (emb pre xs post) p = select_down cmp (length pre) es n (emb pre ys post) c"
      using True larger_child_emb [OF less.prems(1,2,3) True] by (subst select_down.simps) (simp add: c_def)
    have "hp ys = (hp xs)(p := hp xs c)" using hp_upd [of p xs "hp xs c"] less.prems by (simp add: ys_def)
    then have "hole n c (hp ys)" using hole_down [OF less.prems(5) sz less.prems(3) True] by (simp add: c_def)
    moreover have "blocks es ys" unfolding ys_def by (rule blocks_upd [OF less.prems(1)]) (use length_hp [OF less.prems(1)] cl in simp)
    moreover have "n - c < n - p" "n \<le> length ys" using c less.prems by (auto simp: ys_def)
    ultimately obtain zs q where z: "select_down cmp (length pre) es n (emb pre ys post) c = Some (emb pre zs post, q)" "1 \<le> q" "q \<le> n" "n < q * 2"
        "hole n q (hp zs)" "blocks es zs" "beyond n ys zs" "\<forall>v. mset (zs[q - 1 := v]) = mset (ys[c - 1 := v])"
      using less.hyps [of c ys] cl c by blast
    have "beyond n xs zs" using beyond_trans [OF beyond_upd z(7) [unfolded ys_def]] less.prems by simp
    moreover have "\<forall>v. mset (zs[q - 1 := v]) = mset (xs[p - 1 := v])" using z(8) mset_move [of p c xs] less.prems cl c by (simp add: ys_def)
    ultimately show ?thesis using step z by auto
  qed
qed

lemma select_up_emb:
  assumes "0 < es" "blocks es xs" "n \<le> length xs" "1 \<le> p" "p \<le> n" "hole n p (hp xs)" "length k = es" "\<And>d. d \<le> n \<Longrightarrow> d div 2 = p \<Longrightarrow> cmp (hp xs d) k \<le> 0"
  shows "\<exists>ys. select_up cmp (length pre) es k (emb pre xs post) p = Some (emb pre ys post) \<and> heap 1 n (hp ys) \<and> beyond n xs ys \<and> mset ys = mset (xs[p - 1 := k])"
  using assms(2-)
proof (induction p arbitrary: xs rule: less_induct)
  case (less p)
  have put: "COPY_from_k (emb pre xs post) (item (length pre) es p) k = Some (emb pre (xs[p - 1 := k]) post)"
    using COPY_from_k_wr [of "slot pre es (p - 1)" k] slot_room [OF less.prems(1), of "p - 1" pre post] wr_emb [OF less.prems(1), of "p - 1" k pre post] less.prems
    by (simp add: item_slot)
  have fin: "heap 1 n (hp (xs[p - 1 := k]))" if "p = 1 \<or> cmp k (hp xs (p div 2)) \<le> 0"
    using hole_fill [OF less.prems(5,7) that less.prems(3)] hp_upd [of p xs k] less.prems by simp
  show ?case
  proof (cases "p = 1 \<or> cmp k (hp xs (p div 2)) < 0")
    case True
    have "elt (emb pre xs post) es (item (length pre) es (p div 2)) = Some (hp xs (p div 2))" if "p \<noteq> 1"
      using elt_slot [OF less.prems(1), of "p div 2 - 1" pre post] that less.prems(2-4) by (auto simp: item_slot hp_def)
    then have "select_up cmp (length pre) es k (emb pre xs post) p = Some (emb pre (xs[p - 1 := k]) post)"
      using put True by (subst select_up.simps) (auto simp: Let_def)
    then show ?thesis using fin True beyond_upd [of p n xs k] less.prems by auto
  next
    case False
    define q where "q = p div 2"
    have q: "1 \<le> q" "q < p" "2 \<le> p" "q \<le> n" using False less.prems by (auto simp: q_def)
    define ys where "ys = xs[p - 1 := hp xs q]"
    have "elt (emb pre xs post) es (item (length pre) es q) = Some (hp xs q)"
      using elt_slot [OF less.prems(1), of "q - 1" pre post] q less.prems(2-4) by (auto simp: item_slot hp_def)
    moreover have "COPY es (emb pre xs post) (item (length pre) es p) (item (length pre) es q) = Some (emb pre ys post)"
      using COPY_slots [OF assms(1) less.prems(1), of "p - 1" "q - 1" pre post] less.prems q by (auto simp: item_slot ys_def hp_def)
    ultimately have step: "select_up cmp (length pre) es k (emb pre xs post) p = select_up cmp (length pre) es k (emb pre ys post) q"
      using False by (subst select_up.simps) (simp add: Let_def q_def)
    have h: "hp ys = (hp xs)(p := hp xs q)" using hp_upd [of p xs "hp xs q"] less.prems by (simp add: ys_def)
    have "cmp k (hp xs (p div 2)) \<ge> 0" using False by auto
    note up = hole_up [OF less.prems(5) sized_hp [OF less.prems(1,2)] q(3) less.prems(4) less.prems(7) less.prems(6) this, folded q_def, folded h]
    have b: "blocks es ys" "n \<le> length ys" using blocks_upd [OF less.prems(1)] length_hp [OF less.prems(1)] q less.prems by (simp_all add: ys_def)
    obtain zs where "select_up cmp (length pre) es k (emb pre ys post) q = Some (emb pre zs post)" "heap 1 n (hp zs)" "beyond n ys zs" "mset zs = mset (ys[q - 1 := k])"
      using less.IH [OF q(2) b q(1,4) up(1) less.prems(6) up(2)] by blast
    moreover have "mset (ys[q - 1 := k]) = mset (xs[p - 1 := k])" using mset_move [of p q xs k] less.prems q by (simp add: ys_def)
    ultimately show ?thesis using step beyond_trans [OF beyond_upd [of p n xs "hp xs q"]] less.prems by (auto simp: ys_def)
  qed
qed


lemma SELECT_emb:
  assumes "0 < es" "blocks es xs" "n \<le> length xs" "1 \<le> n" "heap 1 n' (hp ws)" "n \<le> n'" "\<forall>i. 2 \<le> i \<and> i \<le> n \<longrightarrow> hp xs i = hp ws i" "length k = es"
  shows "\<exists>ys. SELECT cmp (length pre) es n k (emb pre xs post) = Some (emb pre ys post) \<and> heap 1 n (hp ys) \<and> beyond n xs ys \<and> mset ys = mset (xs[0 := k])"
proof -
  have "hole n 1 (hp xs)" unfolding hole_def
  proof (intro conjI allI impI)
    fix i
    assume i: "2 \<le> i \<and> i \<le> n \<and> i \<noteq> 1 \<and> i div 2 \<noteq> 1"
    then have "2 \<le> i div 2" "i div 2 \<le> n" by auto
    then show "cmp (hp xs i) (hp xs (i div 2)) \<le> 0" using assms(5-7) i by (auto simp: heap_def)
  qed simp_all
  then obtain ys q where ys: "select_down cmp (length pre) es n (emb pre xs post) 1 = Some (emb pre ys post, q)" "1 \<le> q" "q \<le> n" "n < q * 2"
    "hole n q (hp ys)" "blocks es ys" "beyond n xs ys" "\<forall>v. mset (ys[q - 1 := v]) = mset (xs[1 - 1 := v])"
    using select_down_emb [of xs n 1 pre post] assms(1-4) by auto
  have "n \<le> length ys" using ys(7) assms(3) by (simp add: beyond_def)
  then obtain zs where zs: "select_up cmp (length pre) es k (emb pre ys post) q = Some (emb pre zs post)" "heap 1 n (hp zs)" "beyond n ys zs" "mset zs = mset (ys[q - 1 := k])"
    using select_up_emb [of ys n q k pre post] assms(1,8) ys by fastforce
  then show ?thesis using ys beyond_trans [OF ys(7) zs(3)] by (auto simp: SELECT_def)
qed

text \<open>The objects from \<open>n\<close> on are in place.\<close>

definition placed :: "nat \<Rightarrow> byte list list \<Rightarrow> bool" where
  "placed n xs \<longleftrightarrow> in_order cmp (drop n xs) \<and> (\<forall>x \<in> set (take n xs). \<forall>y \<in> set (drop n xs). cmp x y \<le> 0)"

lemma placed_step:
  assumes "blocks es xs" "Suc n \<le> length xs" "1 \<le> n" "heap 1 (Suc n) (hp xs)" "placed (Suc n) xs"
    and ys: "drop n ys = hp xs 1 # drop (Suc n) xs" "mset ys = mset xs"
  shows "placed n ys"
proof -
  have "mset (take n ys) + mset (drop n ys) = mset (take (Suc n) xs) + mset (drop (Suc n) xs)"
    using ys(2) by (metis append_take_drop_id mset_append)
  then have "mset (take (Suc n) xs) = add_mset (hp xs 1) (mset (take n ys))" using ys(1) by simp
  then have set: "set (take (Suc n) xs) = insert (hp xs 1) (set (take n ys))" by (metis set_mset_mset set_mset_add_mset_insert)
  have "cmp x (hp xs 1) \<le> 0" if "x \<in> set (take (Suc n) xs)" for x
  proof -
    obtain i where "i < Suc n" "x = xs ! i" using \<open>x \<in> set (take (Suc n) xs)\<close> assms(2) by (auto simp: in_set_conv_nth)
    then show ?thesis using heap_top [OF assms(4) sized_hp [OF assms(1,2)], of "Suc i"] hp_nth(1) [of i xs] assms(2) by simp
  qed
  then show ?thesis using assms(5) set unfolding placed_def ys(1) by auto
qed

lemma sort_loop_emb:
  assumes "0 < es" "blocks es xs" "n \<le> length xs" "heap 1 n (hp xs)" "placed n xs" "1 \<le> n"
  shows "\<exists>ys. sort_loop cmp (length pre) es (emb pre xs post) n = Some (emb pre ys post) \<and> mset ys = mset xs \<and> placed 1 ys"
  using assms(2-)
proof (induction n arbitrary: xs)
  case (Suc n)
  show ?case
  proof (cases "n = 0")
    case True
    then show ?thesis using Suc.prems by (subst sort_loop.simps) auto
  next
    case False
    define k xs1 where "k = hp xs (Suc n)" and "xs1 = xs[n := hp xs 1]"
    have n: "n < length xs" "0 < length xs" "1 \<le> n" using Suc.prems False by auto
    have k: "COPY_to_k es (emb pre xs post) (item (length pre) es (Suc n)) = Some k"
      using COPY_to_k_elt [OF assms(1) slot_room [OF Suc.prems(1) n(1), of pre post]] take_slot [OF Suc.prems(1) n(1), of pre post] n
      by (simp add: item_slot k_def hp_def)
    have c: "COPY es (emb pre xs post) (item (length pre) es (Suc n)) (item (length pre) es 1) = Some (emb pre xs1 post)"
      using COPY_slots [OF assms(1) Suc.prems(1) n(1,2), of pre post] n by (simp add: item_slot xs1_def hp_def)
    have lens: "length (hp xs 1) = es" "length k = es" using length_hp [OF Suc.prems(1)] n by (simp_all add: k_def)
    have b1: "blocks es xs1" "n \<le> length xs1" using blocks_upd [OF Suc.prems(1) lens(1)] n by (simp_all add: xs1_def)
    have same: "\<forall>i. 2 \<le> i \<and> i \<le> n \<longrightarrow> hp xs1 i = hp xs i" using n by (auto simp: hp_def xs1_def)
    have "n \<le> Suc n" by simp
    then obtain ys where ys: "SELECT cmp (length pre) es n k (emb pre xs1 post) = Some (emb pre ys post)" "heap 1 n (hp ys)" "beyond n xs1 ys" "mset ys = mset (xs1[0 := k])"
      using SELECT_emb [OF assms(1) b1 n(3) Suc.prems(3) _ same lens(2), of pre post] by blast
    have "mset (xs1[0 := k]) = mset xs" using mset_swap [of 0 xs n] n by (simp add: xs1_def k_def hp_def list_update_swap)
    then have m: "mset ys = mset xs" using ys(4) by simp
    have "drop n ys = hp xs 1 # drop (Suc n) xs" using ys(3) n Cons_nth_drop_Suc [of n xs1] by (simp add: beyond_def xs1_def)
    then have "placed n ys" using placed_step [OF Suc.prems(1,2) n(3) Suc.prems(3,4)] m by blast
    moreover have "blocks es ys" "n \<le> length ys" using blocks_mset [OF m, of es] Suc.prems(1) ys(3) b1 by (auto simp: beyond_def)
    ultimately obtain zs where "sort_loop cmp (length pre) es (emb pre ys post) n = Some (emb pre zs post)" "mset zs = mset ys" "placed 1 zs"
      using Suc.IH ys(2) n(3) by blast
    moreover have "sort_loop cmp (length pre) es (emb pre xs post) (Suc n) = sort_loop cmp (length pre) es (emb pre ys post) n"
      using k c ys(1) n by (subst sort_loop.simps) simp
    ultimately show ?thesis using m by auto
  qed
qed simp

lemma heapsort_emb:
  assumes "0 < es" "blocks es xs" "2 \<le> length xs"
  shows "\<exists>ys. heapsort_r cmp es True (emb pre xs post) (length pre) (length xs) = Some (0, None, emb pre ys post) \<and> mset ys = mset xs \<and> in_order cmp ys"
proof -
  define n where "n = length xs"
  have "heap (Suc (n div 2)) n (hp xs)" unfolding heap_def by (metis Suc_n_not_le_n div_le_mono order_trans)
  then obtain ys where ys: "create_all cmp (length pre) es n (emb pre xs post) (n div 2) = Some (emb pre ys post)" "mset ys = mset xs" "heap 1 n (hp ys)"
    using create_all_emb [OF assms(1,2) n_def] by blast
  have y: "blocks es ys" "length ys = n" using blocks_mset [OF ys(2), of es] assms(2) mset_eq_length [OF ys(2)] by (simp_all add: n_def)
  have "placed n ys" using y(2) by (simp add: placed_def)
  then obtain zs where zs: "sort_loop cmp (length pre) es (emb pre ys post) n = Some (emb pre zs post)" "mset zs = mset ys" "placed 1 zs"
    using sort_loop_emb [of ys n pre post] assms(1,3) y ys(3) by (auto simp: n_def)
  have "in_order cmp zs" using zs(3) by (cases zs) (auto simp: placed_def)
  then show ?thesis using ys zs assms n_def by (auto simp: heapsort_r_def)
qed

end

section \<open>Properties\<close>

text \<open>
  C15. \<open>heapsort_r\<close> returns \<open>0\<close> with the objects in order, the same objects as before and nothing else changed,
  for an array of any number of non-empty objects; for an array of at most one object it returns \<open>0\<close> and leaves
  it alone, even if the size is zero, where \<^verbatim>\<open>qsort.3\<close> promises \<^verbatim>\<open>EINVAL\<close>; for two or more objects it reports a size of zero and a failed
  allocation without touching memory.
\<close>

theorem heapsort_r_correct:
  assumes "c_order cmp es" "a + n * es \<le> length m"
  shows "\<exists>r e m'. heapsort_r cmp es alloc m a n = Some (r, e, m') \<and>
    (r = (if n \<le> 1 \<or> 0 < es \<and> alloc then 0 else - 1)) \<and> e = (if r = 0 then None else if es = 0 then Some EINVAL else Some ENOMEM) \<and>
    (r \<noteq> 0 \<longrightarrow> m' = m) \<and>
    (r = 0 \<longrightarrow> mset (elts m' a es n) = mset (elts m a es n) \<and> in_order cmp (elts m' a es n) \<and>
      length m' = length m \<and> take a m' = take a m \<and> drop (a + n * es) m' = drop (a + n * es) m)"
proof (cases "2 \<le> n \<and> 0 < es \<and> alloc")
  case True
  define pre post xs where "pre = take a m" and "post = drop (a + n * es) m" and "xs = elts m a es n"
  have a: "length pre = a" "blocks es xs" "length xs = n" using assms(2) by (simp_all add: pre_def xs_def)
  have m: "m = emb pre xs post" unfolding pre_def post_def xs_def by (rule emb_elts [OF assms(2)])
  obtain ys where ys: "heapsort_r cmp es True m a n = Some (0, None, emb pre ys post)" "mset ys = mset xs" "in_order cmp ys"
    using c_order.heapsort_emb [OF assms(1) _ a(2), of pre post] m a True by auto
  have b: "blocks es ys" "length ys = n" using blocks_mset [OF ys(2), of es] mset_eq_length [OF ys(2)] a by simp_all
  have "elts (emb pre ys post) a es n = ys" "length (emb pre ys post) = length m" "take a (emb pre ys post) = pre" "drop (a + n * es) (emb pre ys post) = post"
    using elts_emb [OF b(1), of pre post] a b unfolding m by (simp_all add: emb_def length_concat_blocks [of es])
  then show ?thesis using ys True unfolding pre_def post_def xs_def by auto
next
  case False
  have "n \<le> 1 \<Longrightarrow> in_order cmp (elts m a es n)" by (cases n) (simp_all add: elts_Suc elts_def)
  then show ?thesis using False by (auto simp: heapsort_r_def)
qed

theorem heapsort_r_correct_witness:
  "\<exists>r e m'. heapsort_r memcmp_objects 2 True [9, 3, 1, 3, 0, 1, 7, 7, 9] 0 4 = Some (r, e, m') \<and>
    (r = (if (4 :: nat) \<le> 1 \<or> 0 < (2 :: nat) \<and> True then 0 else - 1)) \<and> e = (if r = 0 then None else if (2 :: nat) = 0 then Some EINVAL else Some ENOMEM) \<and>
    (r \<noteq> 0 \<longrightarrow> m' = [9, 3, 1, 3, 0, 1, 7, 7, 9]) \<and>
    (r = 0 \<longrightarrow> mset (elts m' 0 2 4) = mset (elts [9, 3, 1, 3, 0, 1, 7, 7, 9] 0 2 4) \<and> in_order memcmp_objects (elts m' 0 2 4) \<and>
      length m' = length [9, 3, 1, 3, 0, 1, 7, 7, 9 :: byte] \<and> take 0 m' = take 0 [9, 3, 1, 3, 0, 1, 7, 7, 9] \<and>
      drop (0 + 4 * 2) m' = drop (0 + 4 * 2) [9, 3, 1, 3, 0, 1, 7, 7, 9])"
  by (rule heapsort_r_correct [OF memcmp_ord.c_order_axioms]) simp

end
