(* ===== verification/Tsearch.thy ===== *)
theory Tsearch
  imports Cstring "HOL-Library.Tree"
begin

text \<open>
  Binary search trees, \<^verbatim>\<open>src/libc/stdlib/tsearch.c\<close>, \<^verbatim>\<open>tfind.c\<close>, \<^verbatim>\<open>tdelete.c\<close> and \<^verbatim>\<open>twalk.c\<close>.  The nodes live in a store, a map from
  addresses; a \<^verbatim>\<open>node_t **\<close> is a location: the caller's root, or a link of a node.  Reads and writes of
  unmapped nodes fail, so a use after \<^verbatim>\<open>free\<close> would be visible.  The address that \<^verbatim>\<open>malloc\<close> returns is a parameter, and
  so is the comparison function, which sees the two keys.  The loops may run forever on a cyclic
  store and are partial functions.
\<close>

section \<open>The program\<close>

record 'k node_t =
  key :: 'k
  llink :: ptr
  rlink :: ptr

record 'k store =
  root :: ptr
  nodes :: "nat \<rightharpoonup> 'k node_t"

datatype loc = Root | Llink nat | Rlink nat

fun rd :: "'k store \<Rightarrow> loc \<Rightarrow> ptr option" where
  "rd s Root = Some (root s)"
| "rd s (Llink a) = map_option llink (nodes s a)"
| "rd s (Rlink a) = map_option rlink (nodes s a)"

fun put :: "'k store \<Rightarrow> loc \<Rightarrow> ptr \<Rightarrow> 'k store option" where
  "put s Root p = Some (s\<lparr>root := p\<rparr>)"
| "put s (Llink a) p = do { n \<leftarrow> nodes s a; Some (s\<lparr>nodes := (nodes s)(a \<mapsto> n\<lparr>llink := p\<rparr>)\<rparr>) }"
| "put s (Rlink a) p = do { n \<leftarrow> nodes s a; Some (s\<lparr>nodes := (nodes s)(a \<mapsto> n\<lparr>rlink := p\<rparr>)\<rparr>) }"

text \<open>The loop of \<open>tsearch\<close> and \<open>tfind\<close>: the location it ends at, and the node that is there.\<close>

partial_function (option) descend :: "('k \<Rightarrow> 'k \<Rightarrow> int) \<Rightarrow> 'k \<Rightarrow> 'k store \<Rightarrow> loc \<Rightarrow> (loc \<times> ptr) option" where
  "descend compar vkey s rootp = do {
     p \<leftarrow> rd s rootp;
     case p of
       None \<Rightarrow> Some (rootp, NULL)
     | Some a \<Rightarrow> do {
         n \<leftarrow> nodes s a;
         let r = compar vkey (key n);
         if r = 0 then Some (rootp, Some a)
         else descend compar vkey s (if r < 0 then Llink a else Rlink a) } }"

definition tsearch :: "('k \<Rightarrow> 'k \<Rightarrow> int) \<Rightarrow> 'k \<Rightarrow> 'k store \<Rightarrow> loc option \<Rightarrow> ptr \<Rightarrow> (ptr \<times> 'k store) option" where
  "tsearch compar vkey s vrootp malloc = (case vrootp of
     None \<Rightarrow> Some (NULL, s)
   | Some rootp \<Rightarrow> do {
       (rootp, p) \<leftarrow> descend compar vkey s rootp;
       case p of
         Some a \<Rightarrow> Some (Some a, s)
       | None \<Rightarrow> (case malloc of
           None \<Rightarrow> Some (NULL, s)
         | Some q \<Rightarrow> do {
             s \<leftarrow> put s rootp (Some q);
             Some (Some q, s\<lparr>nodes := (nodes s)(q \<mapsto> \<lparr>key = vkey, llink = NULL, rlink = NULL\<rparr>)\<rparr>) }) })"

definition tfind :: "('k \<Rightarrow> 'k \<Rightarrow> int) \<Rightarrow> 'k \<Rightarrow> 'k store \<Rightarrow> loc option \<Rightarrow> ptr option" where
  "tfind compar vkey s vrootp = (case vrootp of
     None \<Rightarrow> Some NULL
   | Some rootp \<Rightarrow> do { (_, p) \<leftarrow> descend compar vkey s rootp; Some p })"

text \<open>The search of \<open>tdelete\<close>: the location of the node and \<open>p\<close>, or \<open>None\<close> when the key is not found.\<close>

partial_function (option) tdelete_find :: "('k \<Rightarrow> 'k \<Rightarrow> int) \<Rightarrow> 'k \<Rightarrow> 'k store \<Rightarrow> loc \<Rightarrow> ptr \<Rightarrow> (loc \<times> ptr) option option" where
  "tdelete_find compar vkey s rootp p = do {
     x \<leftarrow> rd s rootp;
     a \<leftarrow> x;
     n \<leftarrow> nodes s a;
     let cmp = compar vkey (key n);
     if cmp = 0 then Some (Some (rootp, p))
     else do {
       let p = Some a;
       let rootp = (if cmp < 0 then Llink a else Rlink a);
       x \<leftarrow> rd s rootp;
       if x = NULL then Some None else tdelete_find compar vkey s rootp p } }"

text \<open>\<^verbatim>\<open>for (q = r->llink; q->llink != NULL; q = r->llink) r = q;\<close>\<close>

partial_function (option) leftmost :: "'k store \<Rightarrow> nat \<Rightarrow> nat \<Rightarrow> (nat \<times> nat) option" where
  "leftmost s r q = do {
     n \<leftarrow> nodes s q;
     case llink n of None \<Rightarrow> Some (r, q) | Some q' \<Rightarrow> leftmost s q q' }"

text \<open>\<^verbatim>\<open>**rootp\<close>; and steps D1 to D4: the node at \<open>rootp\<close> is taken out and freed.\<close>

definition deref :: "'k store \<Rightarrow> loc \<Rightarrow> 'k node_t option" where
  "deref s rootp = do { x \<leftarrow> rd s rootp; a \<leftarrow> x; nodes s a }"

definition tdelete_node :: "'k store \<Rightarrow> loc \<Rightarrow> 'k store option" where
  "tdelete_node s rootp = do {
     n \<leftarrow> deref s rootp;
     (q, s) \<leftarrow> (case llink n of
         None \<Rightarrow> Some (rlink n, s)
       | Some q \<Rightarrow> (case rlink n of
           None \<Rightarrow> Some (Some q, s)
         | Some r \<Rightarrow> do {
             rn \<leftarrow> nodes s r;
             case llink rn of
               None \<Rightarrow> do { s \<leftarrow> put s (Llink r) (Some q); Some (Some r, s) }
             | Some q \<Rightarrow> do {
                 (r, q) \<leftarrow> leftmost s r q;
                 qn \<leftarrow> nodes s q;
                 s \<leftarrow> put s (Llink r) (rlink qn);
                 n \<leftarrow> deref s rootp;
                 s \<leftarrow> put s (Llink q) (llink n);
                 n \<leftarrow> deref s rootp;
                 s \<leftarrow> put s (Rlink q) (rlink n);
                 Some (Some q, s) } }));
     x \<leftarrow> rd s rootp;
     a \<leftarrow> x;
     put (s\<lparr>nodes := (nodes s)(a := None)\<rparr>) rootp q }"

definition tdelete :: "('k \<Rightarrow> 'k \<Rightarrow> int) \<Rightarrow> 'k \<Rightarrow> 'k store \<Rightarrow> loc option \<Rightarrow> (ptr \<times> 'k store) option" where
  "tdelete compar vkey s vrootp = (case vrootp of
     None \<Rightarrow> Some (NULL, s)
   | Some rootp \<Rightarrow> do {
       p \<leftarrow> rd s rootp;
       if p = NULL then Some (NULL, s)
       else do {
         f \<leftarrow> tdelete_find compar vkey s rootp p;
         case f of
           None \<Rightarrow> Some (NULL, s)
         | Some (rootp, p) \<Rightarrow> do { s \<leftarrow> tdelete_node s rootp; Some (p, s) } } })"

text \<open>\<open>twalk\<close>: the calls of its \<open>action\<close>, in order; the flag says that \<open>action\<close> is not \<open>NULL\<close>.\<close>

datatype VISIT = preorder | postorder | endorder | leaf

partial_function (option) trecurse :: "'k store \<Rightarrow> nat \<Rightarrow> int \<Rightarrow> (nat \<times> VISIT \<times> int) list option" where
  "trecurse s a level = do {
     n \<leftarrow> nodes s a;
     if llink n = NULL \<and> rlink n = NULL then Some [(a, leaf, level)]
     else do {
       ls \<leftarrow> (case llink n of None \<Rightarrow> Some [] | Some l \<Rightarrow> trecurse s l (level + 1));
       rs \<leftarrow> (case rlink n of None \<Rightarrow> Some [] | Some r \<Rightarrow> trecurse s r (level + 1));
       Some ([(a, preorder, level)] @ ls @ [(a, postorder, level)] @ rs @ [(a, endorder, level)]) } }"

definition twalk :: "'k store \<Rightarrow> ptr \<Rightarrow> bool \<Rightarrow> (nat \<times> VISIT \<times> int) list option" where
  "twalk s vroot action = (case vroot of None \<Rightarrow> Some [] | Some a \<Rightarrow> if action then trecurse s a 0 else Some [])"

section \<open>Trees in the store\<close>

fun addr :: "(nat \<times> 'k) tree \<Rightarrow> ptr" where
  "addr Leaf = NULL"
| "addr (Node l n r) = Some (fst n)"

fun shape :: "(nat \<rightharpoonup> 'k node_t) \<Rightarrow> (nat \<times> 'k) tree \<Rightarrow> bool" where
  "shape h Leaf \<longleftrightarrow> True"
| "shape h (Node l (a, k) r) \<longleftrightarrow> h a = Some \<lparr>key = k, llink = addr l, rlink = addr r\<rparr> \<and> shape h l \<and> shape h r"

abbreviation addrs :: "(nat \<times> 'k) tree \<Rightarrow> nat set" where
  "addrs t \<equiv> fst ` set_tree t"

definition apart :: "(nat \<times> 'k) tree \<Rightarrow> bool" where
  "apart t \<longleftrightarrow> distinct (map fst (inorder t))"

lemma apart_Node [simp]: "apart (Node l (a, k) r) \<longleftrightarrow> a \<notin> addrs l \<and> a \<notin> addrs r \<and> apart l \<and> apart r \<and> addrs l \<inter> addrs r = {}"
  and apart_Leaf [simp]: "apart Leaf"
  by (auto simp: apart_def)

lemma shape_cong: "(\<And>a. a \<in> addrs t \<Longrightarrow> h a = h' a) \<Longrightarrow> shape h t = shape h' t"
  by (induction t) (auto, blast+)

lemma shape_upd: "a \<notin> addrs t \<Longrightarrow> shape (h(a := v)) t = shape h t"
  by (rule shape_cong) auto

lemma shape_mapped: "shape h t \<Longrightarrow> a \<in> addrs t \<Longrightarrow> h a \<noteq> None"
  by (induction t) force+

text \<open>The node a location belongs to, and a location that holds the tree \<open>t\<close>.\<close>

fun owner :: "loc \<Rightarrow> nat set" where
  "owner Root = {}"
| "owner (Llink a) = {a}"
| "owner (Rlink a) = {a}"

definition holds_tree :: "'k store \<Rightarrow> loc \<Rightarrow> (nat \<times> 'k) tree \<Rightarrow> bool" where
  "holds_tree s p t \<longleftrightarrow> rd s p = Some (addr t) \<and> shape (nodes s) t \<and> apart t \<and> owner p \<inter> addrs t = {}"

lemma holds_left: "holds_tree s p (Node l (a, k) r) \<Longrightarrow> holds_tree s (Llink a) l"
  and holds_right: "holds_tree s p (Node l (a, k) r) \<Longrightarrow> holds_tree s (Rlink a) r"
  by (auto simp: holds_tree_def)

text \<open>\<open>s'\<close> is \<open>s\<close> with \<open>p\<close> set to \<open>v\<close>, outside of \<open>D\<close>.\<close>

definition changed :: "nat set \<Rightarrow> loc \<Rightarrow> ptr \<Rightarrow> 'k store \<Rightarrow> 'k store \<Rightarrow> bool" where
  "changed D p v s s' \<longleftrightarrow> (\<exists>u. put s p v = Some u \<and> root s' = root u \<and> (\<forall>x. x \<notin> D \<longrightarrow> nodes s' x = nodes u x))"

lemma changed_mono: "changed D p v s s' \<Longrightarrow> D \<subseteq> D' \<Longrightarrow> changed D' p v s s'"
  by (auto simp: changed_def)

lemma put_same: "rd s p = Some v \<Longrightarrow> put s p v = Some s"
  by (cases p) (auto simp: map_upd_triv)

lemma put_rd: "put s p v = Some u \<Longrightarrow> rd u p = Some v"
  by (cases p) (auto split: bind_splits)

lemma put_other: "put s p v = Some u \<Longrightarrow> x \<notin> owner p \<Longrightarrow> nodes u x = nodes s x"
  by (cases p) (auto split: bind_splits)

lemma rd_upd [simp]: "b \<notin> owner p \<Longrightarrow> rd (s\<lparr>nodes := (nodes s)(b := v)\<rparr>) p = rd s p"
  by (cases p) auto

lemma rd_upd2 [simp]: "b \<notin> owner p \<Longrightarrow> c \<notin> owner p \<Longrightarrow> rd (s\<lparr>nodes := (nodes s)(b := v, c := w)\<rparr>) p = rd s p"
  by (cases p) auto

text \<open>A change below a node, seen from above it.\<close>

lemma changed_left:
  assumes "changed D (Llink a) (addr l') s s'" "holds_tree s p (Node l (a, k) r)" "addrs r \<inter> D = {}" "a \<notin> D" "shape (nodes s') l'"
    "apart l'" "addrs l' \<subseteq> D" "owner p \<inter> D = {}"
  shows "changed (insert a D) p (Some a) s s' \<and> holds_tree s' p (Node l' (a, k) r)"
proof -
  have a: "nodes s a = Some \<lparr>key = k, llink = addr l, rlink = addr r\<rparr>" "rd s p = Some (Some a)" "shape (nodes s) r" "a \<notin> addrs r" "apart r"
    "a \<notin> owner p" "owner p \<inter> addrs r = {}" using assms(2) by (auto simp: holds_tree_def)
  have s': "root s' = root s" "nodes s' a = Some \<lparr>key = k, llink = addr l', rlink = addr r\<rparr>" "\<And>x. x \<notin> insert a D \<Longrightarrow> nodes s' x = nodes s x"
    using assms(1,4) a(1) by (auto simp: changed_def)
  have "nodes s' y = nodes s y" if "y \<in> addrs r" for y using that s'(3) [of y] assms(3) a(4) by auto
  then have "shape (nodes s') r" using shape_cong [of r "nodes s'" "nodes s"] a(3) by simp
  moreover have "rd s' p = Some (Some a)" using a(2,6) s' assms(8) by (cases p) auto
  moreover have "addrs l' \<inter> addrs r = {}" "a \<notin> addrs l'" "owner p \<inter> addrs l' = {}" using assms(3,4,7,8) by blast+
  moreover have "changed (insert a D) p (Some a) s s'" using put_same [OF a(2)] s'(1,3) by (auto simp: changed_def)
  ultimately show ?thesis using s'(2) a(4-7) assms(5,6) by (simp add: holds_tree_def Int_Un_distrib image_Un)
qed

lemma changed_right:
  assumes "changed D (Rlink a) (addr r') s s'" "holds_tree s p (Node l (a, k) r)" "addrs l \<inter> D = {}" "a \<notin> D" "shape (nodes s') r'"
    "apart r'" "addrs r' \<subseteq> D" "owner p \<inter> D = {}"
  shows "changed (insert a D) p (Some a) s s' \<and> holds_tree s' p (Node l (a, k) r')"
proof -
  have a: "nodes s a = Some \<lparr>key = k, llink = addr l, rlink = addr r\<rparr>" "rd s p = Some (Some a)" "shape (nodes s) l" "a \<notin> addrs l" "apart l"
    "a \<notin> owner p" "owner p \<inter> addrs l = {}" using assms(2) by (auto simp: holds_tree_def)
  have s': "root s' = root s" "nodes s' a = Some \<lparr>key = k, llink = addr l, rlink = addr r'\<rparr>" "\<And>x. x \<notin> insert a D \<Longrightarrow> nodes s' x = nodes s x"
    using assms(1,4) a(1) by (auto simp: changed_def)
  have "nodes s' y = nodes s y" if "y \<in> addrs l" for y using that s'(3) [of y] assms(3) a(4) by auto
  then have "shape (nodes s') l" using shape_cong [of l "nodes s'" "nodes s"] a(3) by simp
  moreover have "rd s' p = Some (Some a)" using a(2,6) s' assms(8) by (cases p) auto
  moreover have "addrs l \<inter> addrs r' = {}" "a \<notin> addrs r'" "owner p \<inter> addrs r' = {}" using assms(3,4,7,8) by blast+
  moreover have "changed (insert a D) p (Some a) s s'" using put_same [OF a(2)] s'(1,3) by (auto simp: changed_def)
  ultimately show ?thesis using s'(2) a(4-7) assms(5,6) by (simp add: holds_tree_def Int_Un_distrib image_Un)
qed

section \<open>The operations on trees\<close>

fun t_find :: "('k \<Rightarrow> 'k \<Rightarrow> int) \<Rightarrow> 'k \<Rightarrow> (nat \<times> 'k) tree \<Rightarrow> ptr" where
  "t_find cmp x Leaf = NULL"
| "t_find cmp x (Node l (a, k) r) = (if cmp x k = 0 then Some a else if cmp x k < 0 then t_find cmp x l else t_find cmp x r)"

fun t_ins :: "('k \<Rightarrow> 'k \<Rightarrow> int) \<Rightarrow> 'k \<Rightarrow> nat \<Rightarrow> (nat \<times> 'k) tree \<Rightarrow> (nat \<times> 'k) tree" where
  "t_ins cmp x q Leaf = Node Leaf (q, x) Leaf"
| "t_ins cmp x q (Node l (a, k) r) = (if cmp x k = 0 then Node l (a, k) r
     else if cmp x k < 0 then Node (t_ins cmp x q l) (a, k) r else Node l (a, k) (t_ins cmp x q r))"

fun t_min :: "'a tree \<Rightarrow> 'a \<times> 'a tree" where
  "t_min (Node l x r) = (if l = Leaf then (x, r) else let (y, l') = t_min l in (y, Node l' x r))"

definition t_join :: "'a tree \<Rightarrow> 'a tree \<Rightarrow> 'a tree" where
  "t_join l r = (if l = Leaf then r else if r = Leaf then l else let (x, r') = t_min r in Node l x r')"

fun t_del :: "('k \<Rightarrow> 'k \<Rightarrow> int) \<Rightarrow> 'k \<Rightarrow> (nat \<times> 'k) tree \<Rightarrow> (nat \<times> 'k) tree" where
  "t_del cmp x Leaf = Leaf"
| "t_del cmp x (Node l (a, k) r) = (if cmp x k = 0 then t_join l r
     else if cmp x k < 0 then Node (t_del cmp x l) (a, k) r else Node l (a, k) (t_del cmp x r))"

section \<open>Searching and inserting\<close>

lemma descend_Node:
  assumes "holds_tree s p (Node l (a, k) r)"
  shows "descend cmp x s p = (if cmp x k = 0 then Some (p, Some a) else descend cmp x s (if cmp x k < 0 then Llink a else Rlink a))"
  using assms by (subst descend.simps) (simp add: holds_tree_def Let_def)

lemma descend_Leaf: "holds_tree s p Leaf \<Longrightarrow> descend cmp x s p = Some (p, NULL)"
  by (subst descend.simps) (simp add: holds_tree_def)

lemma descend_find: "holds_tree s p t \<Longrightarrow> \<exists>p'. descend cmp x s p = Some (p', t_find cmp x t)"
proof (induction t arbitrary: p)
  case Leaf
  then show ?case by (simp add: descend_Leaf)
next
  case (Node l n r)
  obtain a k where n: "n = (a, k)" by (cases n)
  show ?case using Node.IH(1) [OF holds_left] Node.IH(2) [OF holds_right] Node.prems descend_Node [of s p l a k r cmp x] by (auto simp: n)
qed

lemma tfind_tree: "holds_tree s p t \<Longrightarrow> tfind cmp x s (Some p) = Some (t_find cmp x t)"
  using descend_find [of s p t cmp x] by (auto simp: tfind_def)

lemma tsearch_found: "holds_tree s p t \<Longrightarrow> t_find cmp x t = Some a \<Longrightarrow> tsearch cmp x s (Some p) q = Some (Some a, s)"
  using descend_find [of s p t cmp x] by (auto simp: tsearch_def)

lemma tsearch_failed: "holds_tree s p t \<Longrightarrow> t_find cmp x t = None \<Longrightarrow> tsearch cmp x s (Some p) None = Some (None, s)"
  using descend_find [of s p t cmp x] by (auto simp: tsearch_def)

lemma addrs_t_ins: "t_find cmp x t = None \<Longrightarrow> addrs (t_ins cmp x q t) = insert q (addrs t)"
  by (induction cmp x q t rule: t_ins.induct) (auto simp: image_Un split: if_splits)

lemma addr_t_ins: "t \<noteq> Leaf \<Longrightarrow> addr (t_ins cmp x q t) = addr t"
  by (cases t) auto

lemma owner_mapped: "rd s p = Some v \<Longrightarrow> nodes s q = None \<Longrightarrow> q \<notin> owner p"
  by (cases p) auto

lemma tsearch_insert:
  assumes "holds_tree s p t" "nodes s q = None" "t_find cmp x t = None"
  shows "\<exists>s'. tsearch cmp x s (Some p) (Some q) = Some (Some q, s') \<and> holds_tree s' p (t_ins cmp x q t) \<and>
    changed (insert q (addrs t)) p (addr (t_ins cmp x q t)) s s'"
  using assms
proof (induction t arbitrary: p)
  case Leaf
  have q: "q \<notin> owner p" using owner_mapped [of s p] Leaf.prems by (auto simp: holds_tree_def)
  obtain u where u: "put s p (Some q) = Some u" using Leaf.prems(1) by (cases p) (auto simp: holds_tree_def)
  define s' where "s' = u\<lparr>nodes := (nodes u)(q \<mapsto> \<lparr>key = x, llink = NULL, rlink = NULL\<rparr>)\<rparr>"
  have "tsearch cmp x s (Some p) (Some q) = Some (Some q, s')" using descend_Leaf [OF Leaf.prems(1), of cmp x] u by (simp add: tsearch_def s'_def)
  moreover have "rd s' p = Some (Some q)" using put_rd [OF u] q by (cases p) (simp_all add: s'_def)
  ultimately show ?case using q u by (auto simp: holds_tree_def changed_def s'_def)
next
  case (Node l n r)
  obtain a k where n: "n = (a, k)" by (cases n)
  note h = Node.prems(1) [unfolded n]
  have q: "q \<noteq> a" "q \<notin> addrs l" "q \<notin> addrs r" "q \<notin> owner p" using shape_mapped [of "nodes s" _ q] owner_mapped [of s p _ q] h Node.prems(2) by (auto simp: holds_tree_def)
  have dj: "a \<notin> addrs l" "a \<notin> addrs r" "addrs l \<inter> addrs r = {}" "owner p \<inter> addrs l = {}" "owner p \<inter> addrs r = {}" "apart l" "apart r"
    using h by (auto simp: holds_tree_def)
  have nz: "cmp x k \<noteq> 0" using Node.prems(3) by (auto simp: n split: if_splits)
  show ?case
  proof (cases "cmp x k < 0")
    case True
    then have f: "t_find cmp x l = None" using Node.prems(3) nz by (simp add: n)
    obtain s' where s': "tsearch cmp x s (Some (Llink a)) (Some q) = Some (Some q, s')" "holds_tree s' (Llink a) (t_ins cmp x q l)"
      "changed (insert q (addrs l)) (Llink a) (addr (t_ins cmp x q l)) s s'" using Node.IH(1) [OF holds_left [OF h] Node.prems(2) f] by blast
    have "changed (insert a (insert q (addrs l))) p (Some a) s s' \<and> holds_tree s' p (Node (t_ins cmp x q l) (a, k) r)"
      by (rule changed_left [OF s'(3) h]) (use q dj s'(2) addrs_t_ins [OF f] in \<open>auto simp: holds_tree_def\<close>)
    moreover have "tsearch cmp x s (Some p) (Some q) = tsearch cmp x s (Some (Llink a)) (Some q)"
      using descend_Node [OF h, of cmp x] True nz by (simp add: tsearch_def)
    ultimately show ?thesis using s'(1) True nz changed_mono [of "insert a (insert q (addrs l))" p "Some a" s s' "insert q (addrs (Node l (a, k) r))"] by (auto simp: n)
  next
    case False
    then have f: "t_find cmp x r = None" using Node.prems(3) nz by (simp add: n)
    obtain s' where s': "tsearch cmp x s (Some (Rlink a)) (Some q) = Some (Some q, s')" "holds_tree s' (Rlink a) (t_ins cmp x q r)"
      "changed (insert q (addrs r)) (Rlink a) (addr (t_ins cmp x q r)) s s'" using Node.IH(2) [OF holds_right [OF h] Node.prems(2) f] by blast
    have "changed (insert a (insert q (addrs r))) p (Some a) s s' \<and> holds_tree s' p (Node l (a, k) (t_ins cmp x q r))"
      by (rule changed_right [OF s'(3) h]) (use q dj s'(2) addrs_t_ins [OF f] in \<open>auto simp: holds_tree_def\<close>)
    moreover have "tsearch cmp x s (Some p) (Some q) = tsearch cmp x s (Some (Rlink a)) (Some q)"
      using descend_Node [OF h, of cmp x] False nz by (simp add: tsearch_def)
    ultimately show ?thesis using s'(1) False nz changed_mono [of "insert a (insert q (addrs r))" p "Some a" s s' "insert q (addrs (Node l (a, k) r))"] by (auto simp: n)
  qed
qed

section \<open>Deleting\<close>

lemma t_min_facts:
  "t \<noteq> Leaf \<Longrightarrow> t_min t = (x, t') \<Longrightarrow> set_tree t = insert x (set_tree t') \<and> inorder t = x # inorder t'"
proof (induction t arbitrary: t')
  case (Node l n r)
  then show ?case by (cases "l = Leaf") (fastforce split: prod.splits)+
qed simp

lemma apart_t_min:
  assumes "t \<noteq> Leaf" "t_min t = ((q, k), t')" "apart t"
  shows "q \<notin> addrs t'" "apart t'" "addrs t = insert q (addrs t')"
  using t_min_facts [OF assms(1,2)] assms(3) by (auto simp: apart_def)

text \<open>The loop finds the leftmost node \<open>q\<close> and its parent \<open>r'\<close>; the right link of \<open>q\<close> takes its place.\<close>

lemma leftmost_cut:
  assumes "shape (nodes s) (Node l (a, k) r)" "apart (Node l (a, k) r)" "l \<noteq> Leaf"
  shows "\<exists>r' q kq qr n t'. leftmost s a (the (addr l)) = Some (r', q) \<and> nodes s q = Some \<lparr>key = kq, llink = NULL, rlink = qr\<rparr> \<and>
    nodes s r' = Some n \<and> t_min (Node l (a, k) r) = ((q, kq), t') \<and> r' \<in> addrs t' \<and> addr t' = Some a \<and> shape ((nodes s)(r' \<mapsto> n\<lparr>llink := qr\<rparr>)) t'"
  using assms
proof (induction l arbitrary: a k r)
  case (Node ll m lr)
  obtain b kb where m: "m = (b, kb)" by (cases m)
  have b: "nodes s b = Some \<lparr>key = kb, llink = addr ll, rlink = addr lr\<rparr>" "nodes s a = Some \<lparr>key = k, llink = Some b, rlink = addr r\<rparr>"
    "a \<noteq> b" "shape (nodes s) lr" "shape (nodes s) r" "a \<notin> addrs lr" "a \<notin> addrs r" using Node.prems(1,2) by (auto simp: m)
  show ?case
  proof (cases "ll = Leaf")
    case True
    have "leftmost s a b = Some (a, b)" using b(1) True by (subst leftmost.simps) simp
    moreover have "shape ((nodes s)(a \<mapsto> \<lparr>key = k, llink = Some b, rlink = addr r\<rparr>\<lparr>llink := addr lr\<rparr>)) (Node lr (a, k) r)"
      using b(4-7) by (simp add: shape_upd)
    moreover have "t_min (Node (Node ll m lr) (a, k) r) = ((b, kb), Node lr (a, k) r)" using True by (simp add: m)
    moreover have "nodes s b = Some \<lparr>key = kb, llink = NULL, rlink = addr lr\<rparr>" using b(1) True by simp
    moreover have "addr (Node lr (a, k) r) = Some a" "a \<in> addrs (Node lr (a, k) r)" "the (addr (Node ll m lr)) = b" by (simp_all add: m)
    ultimately show ?thesis using b(2) by metis
  next
    case False
    have l: "shape (nodes s) (Node ll (b, kb) lr)" "apart (Node ll (b, kb) lr)" using Node.prems(1,2) by (auto simp: m)
    obtain r' q kq qr n t' where IH: "leftmost s b (the (addr ll)) = Some (r', q)" "nodes s q = Some \<lparr>key = kq, llink = NULL, rlink = qr\<rparr>"
        "nodes s r' = Some n" "t_min (Node ll (b, kb) lr) = ((q, kq), t')" "r' \<in> addrs t'" "addr t' = Some b" "shape ((nodes s)(r' \<mapsto> n\<lparr>llink := qr\<rparr>)) t'"
      using Node.IH(1) [OF l False] by blast
    have "r' \<in> addrs (Node ll (b, kb) lr)" using apart_t_min(3) [OF _ IH(4) l(2)] IH(5) by simp
    then have r': "r' \<noteq> a" "r' \<notin> addrs r" using Node.prems(2) by (auto simp: m)
    have "leftmost s a b = leftmost s b (the (addr ll))" using b(1) False by (subst leftmost.simps) (cases ll, auto)
    moreover have "shape ((nodes s)(r' \<mapsto> n\<lparr>llink := qr\<rparr>)) r" using b(5) r' by (simp add: shape_upd)
    then have "shape ((nodes s)(r' \<mapsto> n\<lparr>llink := qr\<rparr>)) (Node t' (a, k) r)" using IH(6,7) b(2) r'(1) by simp
    moreover have "t_min (Node (Node ll m lr) (a, k) r) = ((q, kq), Node t' (a, k) r)" using IH(4) by (simp add: m del: t_min.simps) (simp add: m)
    moreover have "addr (Node t' (a, k) r) = Some a" "r' \<in> addrs (Node t' (a, k) r)" "the (addr (Node ll m lr)) = b" using IH(5) by (auto simp: m)
    ultimately show ?thesis using IH(1-3) by metis
  qed
qed simp

lemma disjoint_sub: "A \<subseteq> B \<union> C \<Longrightarrow> P \<inter> B = {} \<Longrightarrow> P \<inter> C = {} \<Longrightarrow> P \<inter> A = {}"
  by blast

lemma tdelete_node_tree:
  assumes "holds_tree s p (Node l (a, k) r)"
  shows "\<exists>s'. tdelete_node s p = Some s' \<and> holds_tree s' p (t_join l r) \<and> nodes s' a = None \<and>
    changed (addrs (Node l (a, k) r)) p (addr (t_join l r)) s s'"
proof -
  have a: "nodes s a = Some \<lparr>key = k, llink = addr l, rlink = addr r\<rparr>" "rd s p = Some (Some a)" "shape (nodes s) l" "shape (nodes s) r"
    "a \<notin> addrs l" "a \<notin> addrs r" "apart l" "apart r" "addrs l \<inter> addrs r = {}" "a \<notin> owner p" "owner p \<inter> addrs l = {}" "owner p \<inter> addrs r = {}"
    using assms by (auto simp: holds_tree_def)
  \<comment> \<open>the store before the node is freed: the new subtree \<open>t\<close> stands in it\<close>
  have fin: "\<exists>s'. put (u\<lparr>nodes := (nodes u)(a := None)\<rparr>) p (addr t) = Some s' \<and> holds_tree s' p t \<and> nodes s' a = None \<and> changed (addrs (Node l (a, k) r)) p (addr t) s s'"
    if u: "root u = root s" "\<And>x. x \<notin> addrs r \<Longrightarrow> nodes u x = nodes s x" and t: "shape (nodes u) t" "apart t" "addrs t \<subseteq> addrs l \<union> addrs r" for u t
  proof -
    have at: "a \<notin> addrs t" using t(3) a(5,6) by blast
    have ot: "owner p \<inter> addrs t = {}" by (rule disjoint_sub [OF t(3) a(11,12)])
    define v where "v = u\<lparr>nodes := (nodes u)(a := None)\<rparr>"
    have v: "nodes v x = nodes s x" if "x \<noteq> a" "x \<notin> addrs r" for x using that u(2) [of x] by (simp add: v_def)
    have vo: "nodes v x = nodes s x" if "x \<in> owner p" for x by (rule v) (use that a(10,12) in blast)+
    obtain s' where s': "put v p (addr t) = Some s'" using a(2) vo by (cases p) auto
    have "rd s' p = Some (addr t)" by (rule put_rd [OF s'])
    moreover have "shape (nodes v) t" using t(1) at by (simp add: v_def shape_upd)
    then have "shape (nodes s') t" using shape_cong [of t "nodes s'" "nodes v"] put_other [OF s'] ot by auto
    moreover have "nodes s' a = None" using put_other [OF s' a(10)] by (simp add: v_def)
    moreover have "changed (addrs (Node l (a, k) r)) p (addr t) s s'"
    proof -
      obtain w where w: "put s p (addr t) = Some w" using a(2) by (cases p) auto
      have "root s' = root w" using s' w u(1) by (cases p) (auto simp: v_def split: bind_splits)
      moreover have "nodes s' x = nodes w x" if "x \<notin> addrs (Node l (a, k) r)" for x
      proof -
        have "nodes v x = nodes s x" by (rule v) (use that in auto)
        then show ?thesis using s' w vo by (cases p) (auto split: bind_splits)
      qed
      ultimately show ?thesis using w by (auto simp: changed_def)
    qed
    ultimately show ?thesis using s' t(2) ot unfolding holds_tree_def v_def by blast
  qed
  consider "l = Leaf" | "l \<noteq> Leaf" "r = Leaf" | b kb rr where "l \<noteq> Leaf" "r = Node Leaf (b, kb) rr"
    | rl b kb rr where "l \<noteq> Leaf" "r = Node rl (b, kb) rr" "rl \<noteq> Leaf" by (metis tree.exhaust prod.exhaust)
  then show ?thesis
  proof cases
    case 1
    then show ?thesis using fin [of s r] a by (simp add: tdelete_node_def deref_def t_join_def)
  next
    case 2
    then obtain q where "addr l = Some q" by (cases l) auto
    then show ?thesis using 2 fin [of s l] a by (simp add: tdelete_node_def deref_def t_join_def)
  next
    case (3 b kb rr)
    obtain q where q: "addr l = Some q" using 3 by (cases l) auto
    have b: "nodes s b = Some \<lparr>key = kb, llink = NULL, rlink = addr rr\<rparr>" "b \<notin> addrs l" "b \<notin> addrs rr" "shape (nodes s) rr" "addrs l \<inter> addrs rr = {}" "apart rr" "b \<notin> owner p"
      using a 3 by auto
    define u where "u = s\<lparr>nodes := (nodes s)(b \<mapsto> \<lparr>key = kb, llink = Some q, rlink = addr rr\<rparr>)\<rparr>"
    have "put s (Llink b) (Some q) = Some u" using b(1) by (simp add: u_def)
    then have "tdelete_node s p = put (u\<lparr>nodes := (nodes u)(a := None)\<rparr>) p (Some b)" using a(1,2) b(1,7) 3 q by (simp add: tdelete_node_def deref_def u_def)
    moreover have "shape (nodes u) (Node l (b, kb) rr)" using a(3) b q by (simp add: u_def shape_upd)
    moreover have "t_join l r = Node l (b, kb) rr" using 3 by (simp add: t_join_def)
    moreover have "root u = root s" "\<And>x. x \<notin> addrs r \<Longrightarrow> nodes u x = nodes s x" using 3 by (auto simp: u_def)
    ultimately show ?thesis using fin [of u "Node l (b, kb) rr"] b a(7) 3 by auto
  next
    case (4 rl b kb rr)
    obtain ql where ql: "addr l = Some ql" using 4 by (cases l) auto
    obtain qc where qc: "addr rl = Some qc" using 4 by (cases rl) auto
    obtain r' q kq qr n t' where c: "leftmost s b (the (addr rl)) = Some (r', q)" "nodes s q = Some \<lparr>key = kq, llink = NULL, rlink = qr\<rparr>"
        "nodes s r' = Some n" "t_min (Node rl (b, kb) rr) = ((q, kq), t')" "r' \<in> addrs t'" "addr t' = Some b" "shape ((nodes s)(r' \<mapsto> n\<lparr>llink := qr\<rparr>)) t'"
      using leftmost_cut [of s rl b kb rr] a(4,8) 4 by blast
    have t': "q \<notin> addrs t'" "apart t'" "addrs r = insert q (addrs t')" using apart_t_min [OF _ c(4)] a(8) 4 by auto
    have qr: "q \<noteq> r'" "q \<notin> addrs l" "r' \<notin> addrs l" "addrs l \<inter> addrs t' = {}" "r' \<noteq> a" "q \<noteq> a" using t' c(5) a(6,9) by auto
    have rq: "r' \<notin> owner p" "q \<notin> owner p" using t'(3) c(5) a(12) by auto
    define u where "u = s\<lparr>nodes := (nodes s)(r' \<mapsto> n\<lparr>llink := qr\<rparr>, q \<mapsto> \<lparr>key = kq, llink = addr l, rlink = addr r\<rparr>)\<rparr>"
    have "nodes s b = Some \<lparr>key = kb, llink = addr rl, rlink = addr rr\<rparr>" "addr r = Some b" using a(4) 4 by simp_all
    then have "tdelete_node s p = put (u\<lparr>nodes := (nodes u)(a := None)\<rparr>) p (Some q)"
      using a(1,2,6) ql qc c(1-3) qr(1,5,6) t'(3) rq by (simp add: tdelete_node_def deref_def u_def)
    moreover have "shape (nodes u) (Node l (q, kq) t')" using a(3) c(6,7) t'(1) qr \<open>addr r = Some b\<close> by (simp add: u_def shape_upd)
    moreover have "t_join l r = Node l (q, kq) t'" using 4 c(4) by (simp add: t_join_def del: t_min.simps)
    moreover have "root u = root s" "\<And>x. x \<notin> addrs r \<Longrightarrow> nodes u x = nodes s x" using t' c(5) by (auto simp: u_def)
    moreover have "apart (Node l (q, kq) t')" "addrs (Node l (q, kq) t') \<subseteq> addrs l \<union> addrs r" using t' qr a(7) by auto
    ultimately show ?thesis using fin [of u "Node l (q, kq) t'"] by simp
  qed
qed

lemma addr_NULL: "addr t = NULL \<longleftrightarrow> t = Leaf"
  by (cases t) auto

lemma set_t_join: "set_tree (t_join l r) = set_tree l \<union> set_tree r"
  using t_min_facts [of r] by (auto simp: t_join_def split: prod.splits)

lemma inorder_t_join: "inorder (t_join l r) = inorder l @ inorder r"
  using t_min_facts [of r] by (auto simp: t_join_def split: prod.splits)

lemma set_t_del: "set_tree (t_del cmp x t) \<subseteq> set_tree t"
  by (induction cmp x t rule: t_del.induct) (auto simp: set_t_join)

lemma addrs_t_del: "addrs (t_del cmp x t) \<subseteq> addrs t"
  by (rule image_mono [OF set_t_del])

text \<open>The search of \<open>tdelete\<close> and the removal, from any link of the tree.\<close>

definition delete_at :: "('k \<Rightarrow> 'k \<Rightarrow> int) \<Rightarrow> 'k \<Rightarrow> 'k store \<Rightarrow> loc \<Rightarrow> ptr \<Rightarrow> (ptr \<times> 'k store) option" where
  "delete_at cmp x s p b = do {
     f \<leftarrow> tdelete_find cmp x s p b;
     case f of None \<Rightarrow> Some (NULL, s) | Some (p, b) \<Rightarrow> do { s \<leftarrow> tdelete_node s p; Some (b, s) } }"

lemma tdelete_eq: "rd s p = Some (Some a) \<Longrightarrow> tdelete cmp x s (Some p) = delete_at cmp x s p (Some a)"
  by (simp add: tdelete_def delete_at_def)

lemma delete_at_Node:
  assumes "holds_tree s p (Node l (a, k) r)"
  shows "delete_at cmp x s p b = (if cmp x k = 0 then map_option (Pair b) (tdelete_node s p)
    else if (if cmp x k < 0 then l else r) = Leaf then Some (NULL, s)
    else delete_at cmp x s (if cmp x k < 0 then Llink a else Rlink a) (Some a))"
proof -
  have "nodes s a = Some \<lparr>key = k, llink = addr l, rlink = addr r\<rparr>" "rd s p = Some (Some a)" using assms by (auto simp: holds_tree_def)
  then have F: "tdelete_find cmp x s p b = (if cmp x k = 0 then Some (Some (p, b)) else if (if cmp x k < 0 then l else r) = Leaf then Some None
      else tdelete_find cmp x s (if cmp x k < 0 then Llink a else Rlink a) (Some a))"
    by (subst tdelete_find.simps) (simp add: Let_def addr_NULL)
  have "(tdelete_node s p \<bind> (\<lambda>s. Some (b, s))) = map_option (Pair b) (tdelete_node s p)" by (cases "tdelete_node s p") auto
  then show ?thesis unfolding delete_at_def F by simp
qed

lemma delete_at_absent:
  "holds_tree s p t \<Longrightarrow> t \<noteq> Leaf \<Longrightarrow> t_find cmp x t = None \<Longrightarrow> delete_at cmp x s p b = Some (NULL, s)"
proof (induction t arbitrary: p b)
  case (Node l n r)
  obtain a k where n: "n = (a, k)" by (cases n)
  note h = Node.prems(1) [unfolded n]
  show ?case using delete_at_Node [OF h, of cmp x b] Node.IH(1) [OF holds_left [OF h]] Node.IH(2) [OF holds_right [OF h]] Node.prems(3)
    by (auto simp: n split: if_splits)
qed simp

text \<open>A link of the node \<open>b\<close> points to \<open>d\<close>.\<close>

definition links :: "'k store \<Rightarrow> nat \<Rightarrow> nat \<Rightarrow> bool" where
  "links s b d \<longleftrightarrow> (\<exists>n. nodes s b = Some n \<and> (llink n = Some d \<or> rlink n = Some d))"

lemma find_addrs: "t_find cmp x t = Some d \<Longrightarrow> d \<in> addrs t"
  by (induction cmp x t rule: t_find.induct) (auto split: if_splits)

lemma delete_at_tree:
  assumes "holds_tree s p t" "t_find cmp x t = Some d" "b \<noteq> NULL"
  shows "\<exists>b' s'. delete_at cmp x s p b = Some (Some b', s') \<and> holds_tree s' p (t_del cmp x t) \<and> nodes s' d = None \<and>
    changed (addrs t) p (addr (t_del cmp x t)) s s' \<and> (if addr t = Some d then b = Some b' else b' \<in> addrs t \<and> links s b' d)"
  using assms
proof (induction t arbitrary: p b)
  case (Node l n r)
  obtain a k where n: "n = (a, k)" by (cases n)
  have a: "nodes s a = Some \<lparr>key = k, llink = addr l, rlink = addr r\<rparr>" using Node.prems(1) by (simp add: n holds_tree_def)
  note h = Node.prems(1) [unfolded n] and D = delete_at_Node [OF Node.prems(1) [unfolded n], of cmp x b]
  have dj: "a \<notin> addrs l" "a \<notin> addrs r" "addrs l \<inter> addrs r = {}" "owner p \<inter> addrs l = {}" "owner p \<inter> addrs r = {}" "apart l" "apart r"
    using h by (auto simp: holds_tree_def)
  consider "cmp x k = 0" | "cmp x k < 0" | "cmp x k > 0" by linarith
  then show ?case
  proof cases
    case 1
    then have "d = a" using Node.prems(2) by (simp add: n)
    then show ?thesis using tdelete_node_tree [OF h] D Node.prems(3) 1 by (auto simp: n)
  next
    case 2
    then have f: "t_find cmp x l = Some d" using Node.prems(2) by (simp add: n)
    then have "l \<noteq> Leaf" by auto
    obtain b' s' where s': "delete_at cmp x s (Llink a) (Some a) = Some (Some b', s')" "holds_tree s' (Llink a) (t_del cmp x l)" "nodes s' d = None"
      "changed (addrs l) (Llink a) (addr (t_del cmp x l)) s s'" "if addr l = Some d then Some a = Some b' else b' \<in> addrs l \<and> links s b' d" using Node.IH(1) [OF holds_left [OF h] f, of "Some a"] by auto
    have "changed (insert a (addrs l)) p (Some a) s s' \<and> holds_tree s' p (Node (t_del cmp x l) (a, k) r)"
      by (rule changed_left [OF s'(4) h]) (use dj s'(2) addrs_t_del [of cmp x l] in \<open>auto simp: holds_tree_def\<close>)
    moreover have "d \<noteq> a" "b' \<in> addrs (Node l (a, k) r)" "links s b' d" using s'(5) a dj find_addrs [OF f] by (auto simp: links_def split: if_splits)
    ultimately show ?thesis using s'(1,3) 2 D \<open>l \<noteq> Leaf\<close> changed_mono [of "insert a (addrs l)" p "Some a" s s' "addrs (Node l (a, k) r)"] by (auto simp: n)
  next
    case 3
    then have f: "t_find cmp x r = Some d" using Node.prems(2) by (simp add: n)
    then have "r \<noteq> Leaf" by auto
    obtain b' s' where s': "delete_at cmp x s (Rlink a) (Some a) = Some (Some b', s')" "holds_tree s' (Rlink a) (t_del cmp x r)" "nodes s' d = None"
      "changed (addrs r) (Rlink a) (addr (t_del cmp x r)) s s'" "if addr r = Some d then Some a = Some b' else b' \<in> addrs r \<and> links s b' d" using Node.IH(2) [OF holds_right [OF h] f, of "Some a"] by auto
    have "changed (insert a (addrs r)) p (Some a) s s' \<and> holds_tree s' p (Node l (a, k) (t_del cmp x r))"
      by (rule changed_right [OF s'(4) h]) (use dj s'(2) addrs_t_del [of cmp x r] in \<open>auto simp: holds_tree_def\<close>)
    moreover have "d \<noteq> a" "b' \<in> addrs (Node l (a, k) r)" "links s b' d" using s'(5) a dj find_addrs [OF f] by (auto simp: links_def split: if_splits)
    ultimately show ?thesis using s'(1,3) 3 D \<open>r \<noteq> Leaf\<close> changed_mono [of "insert a (addrs r)" p "Some a" s s' "addrs (Node l (a, k) r)"] by (auto simp: n)
  qed
qed simp

section \<open>Ordered trees\<close>

text \<open>What the routines require of \<open>compar\<close> on the keys \<open>K\<close>.\<close>

locale key_order =
  fixes compar :: "'k \<Rightarrow> 'k \<Rightarrow> int" and K :: "'k set"
  assumes anti: "x \<in> K \<Longrightarrow> y \<in> K \<Longrightarrow> sgn (compar x y) = - sgn (compar y x)"
    and trans: "x \<in> K \<Longrightarrow> y \<in> K \<Longrightarrow> z \<in> K \<Longrightarrow> compar x y \<le> 0 \<Longrightarrow> compar y z \<le> 0 \<Longrightarrow> compar x z \<le> 0"

definition ordered :: "('k \<Rightarrow> 'k \<Rightarrow> int) \<Rightarrow> (nat \<times> 'k) tree \<Rightarrow> bool" where
  "ordered cmp t \<longleftrightarrow> sorted_wrt (\<lambda>x y. cmp x y < 0) (map snd (inorder t))"

lemma ordered_Leaf [simp]: "ordered cmp Leaf"
  and ordered_Node [simp]: "ordered cmp (Node l (a, k) r) \<longleftrightarrow> ordered cmp l \<and> ordered cmp r \<and> (\<forall>n \<in> set_tree l. cmp (snd n) k < 0) \<and>
    (\<forall>n \<in> set_tree r. cmp k (snd n) < 0) \<and> (\<forall>n \<in> set_tree l. \<forall>n' \<in> set_tree r. cmp (snd n) (snd n') < 0)"
  by (auto simp: ordered_def sorted_wrt_append)

abbreviation keys :: "(nat \<times> 'k) tree \<Rightarrow> 'k set" where
  "keys t \<equiv> snd ` set_tree t"

lemma find_some: "t_find cmp x t = Some a \<Longrightarrow> \<exists>k. (a, k) \<in> set_tree t \<and> cmp x k = 0"
  by (induction cmp x t rule: t_find.induct) (auto split: if_splits)

lemma set_t_ins: "t_find cmp x t = None \<Longrightarrow> set_tree (t_ins cmp x q t) = insert (q, x) (set_tree t)"
  by (induction cmp x q t rule: t_ins.induct) (auto split: if_splits)

context key_order
begin

lemma flip: "x \<in> K \<Longrightarrow> y \<in> K \<Longrightarrow> compar x y < 0 \<longleftrightarrow> compar y x > 0"
  using anti [of x y] by (auto simp: sgn_if split: if_splits)

lemma eq_sym: "x \<in> K \<Longrightarrow> y \<in> K \<Longrightarrow> compar x y = 0 \<longleftrightarrow> compar y x = 0"
  using flip [of x y] flip [of y x] by linarith

lemma le_less: "x \<in> K \<Longrightarrow> y \<in> K \<Longrightarrow> z \<in> K \<Longrightarrow> compar x y \<le> 0 \<Longrightarrow> compar y z < 0 \<Longrightarrow> compar x z < 0"
  using trans [of x y z] trans [of z x y] flip [of x z] flip [of y z] eq_sym [of x z] by linarith

lemma less_le: "x \<in> K \<Longrightarrow> y \<in> K \<Longrightarrow> z \<in> K \<Longrightarrow> compar x y < 0 \<Longrightarrow> compar y z \<le> 0 \<Longrightarrow> compar x z < 0"
  using trans [of x y z] trans [of y z x] flip [of x y] eq_sym [of x z] flip [of y x] by linarith

text \<open>Where the equal key is not.\<close>

lemma side:
  assumes "ordered compar (Node l (b, j) r)" "keys (Node l (b, j) r) \<subseteq> K" "x \<in> K"
  shows "n \<in> set_tree l \<Longrightarrow> compar x j \<ge> 0 \<Longrightarrow> compar x (snd n) > 0" "n \<in> set_tree r \<Longrightarrow> compar x j \<le> 0 \<Longrightarrow> compar x (snd n) < 0"
proof -
  assume n: "n \<in> set_tree l" "compar x j \<ge> 0"
  have K: "snd n \<in> K" "j \<in> K" using n assms(2) by auto
  have "compar (snd n) j < 0" "compar j x \<le> 0" using n assms(1) flip [OF K(2) assms(3)] flip [OF assms(3) K(2)] by auto
  then show "compar x (snd n) > 0" using less_le [OF K assms(3)] flip [OF K(1) assms(3)] by simp
next
  assume n: "n \<in> set_tree r" "compar x j \<le> 0"
  have K: "snd n \<in> K" "j \<in> K" using n assms(2) by auto
  have "compar j (snd n) < 0" using n assms(1) by auto
  then show "compar x (snd n) < 0" using le_less [OF assms(3) K(2,1) n(2)] by simp
qed

lemma find_member:
  "ordered compar t \<Longrightarrow> keys t \<subseteq> K \<Longrightarrow> x \<in> K \<Longrightarrow> (a, k) \<in> set_tree t \<Longrightarrow> compar x k = 0 \<Longrightarrow> t_find compar x t = Some a"
proof (induction t)
  case (Node l n r)
  obtain b j where n: "n = (b, j)" by (cases n)
  note S = side [OF Node.prems(1-3) [unfolded n]]
  have "(a, k) \<in> set_tree l \<Longrightarrow> compar x j < 0" "(a, k) \<in> set_tree r \<Longrightarrow> compar x j > 0" using S(1) [of "(a, k)"] S(2) [of "(a, k)"] Node.prems(5) by fastforce+
  moreover have "k = j \<and> a = b \<or> (a, k) \<in> set_tree l \<or> (a, k) \<in> set_tree r" using Node.prems(4) by (auto simp: n)
  ultimately show ?case using Node by (auto simp: n)
qed simp

lemma ordered_t_ins:
  "ordered compar t \<Longrightarrow> keys t \<subseteq> K \<Longrightarrow> x \<in> K \<Longrightarrow> t_find compar x t = None \<Longrightarrow> ordered compar (t_ins compar x q t)"
proof (induction t)
  case (Node l n r)
  obtain b j where n: "n = (b, j)" by (cases n)
  note o' = Node.prems(1) [unfolded n] and k' = Node.prems(2) [unfolded n]
  consider "compar x j < 0" "t_find compar x l = None" | "compar x j > 0" "t_find compar x r = None" using Node.prems(4) by (auto simp: n split: if_splits)
  then show ?case
  proof cases
    case 1
    have "compar x (snd n') < 0" if "n' \<in> set_tree r" for n' using side(2) [OF o' k' Node.prems(3) that] 1 by simp
    then show ?thesis using Node.IH(1) o' k' Node.prems(3) 1 set_t_ins [OF 1(2), of q] by (auto simp: n image_Un)
  next
    case 2
    have "compar (snd n') x < 0" if "n' \<in> set_tree l" for n' using side(1) [OF o' k' Node.prems(3) that] 2 flip [of "snd n'" x] that k' Node.prems(3) by auto
    moreover have "compar j x < 0" using 2 flip [of j x] k' Node.prems(3) by auto
    ultimately show ?thesis using Node.IH(2) o' k' Node.prems(3) 2 set_t_ins [OF 2(2), of q] by (auto simp: n image_Un)
  qed
qed simp

lemma inorder_t_del:
  "ordered compar t \<Longrightarrow> keys t \<subseteq> K \<Longrightarrow> x \<in> K \<Longrightarrow> inorder (t_del compar x t) = filter (\<lambda>n. compar x (snd n) \<noteq> 0) (inorder t)"
proof (induction t)
  case (Node l n r)
  obtain b j where n: "n = (b, j)" by (cases n)
  note S = side [OF Node.prems(1-3) [unfolded n]]
  have "filter (\<lambda>n. compar x (snd n) \<noteq> 0) (inorder l) = inorder l" if "compar x j \<ge> 0" using S(1) that by (fastforce simp: filter_id_conv)
  moreover have "filter (\<lambda>n. compar x (snd n) \<noteq> 0) (inorder r) = inorder r" if "compar x j \<le> 0" using S(2) that by (fastforce simp: filter_id_conv)
  ultimately show ?case using Node by (auto simp: n inorder_t_join)
qed simp

lemma t_del_set:
  assumes "ordered compar t" "keys t \<subseteq> K" "x \<in> K"
  shows "ordered compar (t_del compar x t)" "set_tree (t_del compar x t) = {n \<in> set_tree t. compar x (snd n) \<noteq> 0}"
proof -
  note I = inorder_t_del [OF assms]
  show "ordered compar (t_del compar x t)" using assms(1) unfolding ordered_def I by (auto simp: sorted_wrt_map intro: sorted_wrt_filter)
  show "set_tree (t_del compar x t) = {n \<in> set_tree t. compar x (snd n) \<noteq> 0}" unfolding set_inorder [symmetric] I by auto
qed

end

section \<open>Sets of keys\<close>

text \<open>The tree at the caller's root holds the nodes \<open>A\<close>, pairs of an address and a key of \<open>K\<close>.\<close>

definition tree_of :: "('k \<Rightarrow> 'k \<Rightarrow> int) \<Rightarrow> 'k set \<Rightarrow> 'k store \<Rightarrow> (nat \<times> 'k) set \<Rightarrow> bool" where
  "tree_of cmp K s A \<longleftrightarrow> (\<exists>t. holds_tree s Root t \<and> ordered cmp t \<and> set_tree t = A \<and> keys t \<subseteq> K)"

definition match :: "('k \<Rightarrow> 'k \<Rightarrow> int) \<Rightarrow> 'k \<Rightarrow> (nat \<times> 'k) set \<Rightarrow> nat \<Rightarrow> bool" where
  "match cmp x A a \<longleftrightarrow> (\<exists>k. (a, k) \<in> A \<and> cmp x k = 0)"

context key_order
begin

lemma find_match: "ordered compar t \<Longrightarrow> keys t \<subseteq> K \<Longrightarrow> x \<in> K \<Longrightarrow> t_find compar x t = Some a \<longleftrightarrow> match compar x (set_tree t) a"
  using find_member find_some by (fastforce simp: match_def)

lemma tfind_match:
  assumes "tree_of compar K s A" "x \<in> K"
  shows "\<exists>r. tfind compar x s (Some Root) = Some r \<and> (\<forall>a. r = Some a \<longleftrightarrow> match compar x A a)"
proof -
  obtain t where t: "holds_tree s Root t" "ordered compar t" "set_tree t = A" "keys t \<subseteq> K" using assms(1) by (auto simp: tree_of_def)
  then show ?thesis using tfind_tree [OF t(1), of compar x] find_match [OF t(2,4) assms(2)] by simp
qed

lemma tsearch_match:
  assumes "tree_of compar K s A" "x \<in> K" "match compar x A a"
  shows "tsearch compar x s (Some Root) q = Some (Some a, s)"
proof -
  obtain t where t: "holds_tree s Root t" "ordered compar t" "set_tree t = A" "keys t \<subseteq> K" using assms(1) by (auto simp: tree_of_def)
  then show ?thesis using tsearch_found [OF t(1)] find_match [OF t(2,4) assms(2)] assms(3) by simp
qed

lemma tsearch_full:
  assumes "tree_of compar K s A" "x \<in> K" "\<And>a. \<not> match compar x A a"
  shows "tsearch compar x s (Some Root) None = Some (NULL, s)"
proof -
  obtain t where t: "holds_tree s Root t" "ordered compar t" "set_tree t = A" "keys t \<subseteq> K" using assms(1) by (auto simp: tree_of_def)
  then show ?thesis using tsearch_failed [OF t(1)] find_match [OF t(2,4) assms(2)] assms(3) by auto
qed

lemma tsearch_new:
  assumes "tree_of compar K s A" "x \<in> K" "\<And>a. \<not> match compar x A a" "nodes s q = None"
  shows "\<exists>s'. tsearch compar x s (Some Root) (Some q) = Some (Some q, s') \<and> tree_of compar K s' (insert (q, x) A)"
proof -
  obtain t where t: "holds_tree s Root t" "ordered compar t" "set_tree t = A" "keys t \<subseteq> K" using assms(1) by (auto simp: tree_of_def)
  have f: "t_find compar x t = None" using find_match [OF t(2,4) assms(2)] t(3) assms(3) by auto
  obtain s' where s': "tsearch compar x s (Some Root) (Some q) = Some (Some q, s')" "holds_tree s' Root (t_ins compar x q t)"
    using tsearch_insert [OF t(1) assms(4) f] by blast
  have "set_tree (t_ins compar x q t) = insert (q, x) A" using set_t_ins [OF f] t(3) by simp
  then have "tree_of compar K s' (insert (q, x) A)"
    using s'(2) ordered_t_ins [OF t(2,4) assms(2) f, of q] t(3,4) assms(2) unfolding tree_of_def by (intro exI [of _ "t_ins compar x q t"]) auto
  then show ?thesis using s'(1) by blast
qed

lemma tdelete_absent:
  assumes "tree_of compar K s A" "x \<in> K" "\<And>a. \<not> match compar x A a"
  shows "tdelete compar x s (Some Root) = Some (NULL, s)"
proof -
  obtain t where t: "holds_tree s Root t" "ordered compar t" "set_tree t = A" "keys t \<subseteq> K" using assms(1) by (auto simp: tree_of_def)
  have f: "t_find compar x t = None" using find_match [OF t(2,4) assms(2)] t(3) assms(3) by auto
  show ?thesis
  proof (cases "t = Leaf")
    case True
    then show ?thesis using t(1) by (simp add: tdelete_def holds_tree_def)
  next
    case False
    then obtain a where "rd s Root = Some (Some a)" using t(1) by (cases t) (auto simp: holds_tree_def)
    from tdelete_eq [OF this] show ?thesis using delete_at_absent [OF t(1) False f] by simp
  qed
qed

lemma tdelete_match:
  assumes "tree_of compar K s A" "x \<in> K" "match compar x A d"
  shows "\<exists>b s'. tdelete compar x s (Some Root) = Some (Some b, s') \<and> nodes s' d = None \<and> tree_of compar K s' {n \<in> A. compar x (snd n) \<noteq> 0} \<and>
    (if root s = Some d then b = d else b \<in> fst ` A \<and> links s b d)"
proof -
  obtain t where t: "holds_tree s Root t" "ordered compar t" "set_tree t = A" "keys t \<subseteq> K" using assms(1) by (auto simp: tree_of_def)
  have f: "t_find compar x t = Some d" using find_match [OF t(2,4) assms(2)] t(3) assms(3) by simp
  then obtain a where a: "addr t = Some a" by (cases t) auto
  then have r: "root s = Some a" using t(1) by (simp add: holds_tree_def)
  obtain b s' where s': "delete_at compar x s Root (Some a) = Some (Some b, s')" "holds_tree s' Root (t_del compar x t)" "nodes s' d = None"
    "if a = d then Some a = Some b else b \<in> addrs t \<and> links s b d"
    using delete_at_tree [OF t(1) f, of "Some a"] a by auto
  have "tree_of compar K s' {n \<in> A. compar x (snd n) \<noteq> 0}" unfolding tree_of_def
    using s'(2) t_del_set [OF t(2,4) assms(2)] t(3,4) by (intro exI [of _ "t_del compar x t"]) auto
  moreover have "tdelete compar x s (Some Root) = Some (Some b, s')" using tdelete_eq [of s Root a] r s'(1) by simp
  ultimately show ?thesis using s'(3,4) r t(3) by (auto split: if_splits)
qed

end

section \<open>Pointers to strings as keys\<close>

definition strcmp_keys :: "mem \<Rightarrow> nat \<Rightarrow> nat \<Rightarrow> int" where
  "strcmp_keys m p q = the (strcmp m p q)"

abbreviation strings :: "mem \<Rightarrow> nat set" where
  "strings m \<equiv> {p. \<exists>bs. cstr m p bs}"

lemma strcmp_keys_order: "cstr m p as \<Longrightarrow> cstr m q bs \<Longrightarrow> strcmp_keys m p q < 0 \<longleftrightarrow> byte_lex as bs"
  "cstr m p as \<Longrightarrow> cstr m q bs \<Longrightarrow> strcmp_keys m p q > 0 \<longleftrightarrow> byte_lex bs as"
  using strcmp_order by (force simp: strcmp_keys_def)+

lemma byte_lex_trans: "byte_lex as bs \<Longrightarrow> byte_lex bs cs \<Longrightarrow> byte_lex as cs"
  by (rule lexord_trans) (auto intro: transI)

interpretation string_keys: key_order "strcmp_keys m" "strings m" for m
proof
  fix x y z
  assume "x \<in> strings m" "y \<in> strings m"
  then obtain as bs where xy: "cstr m x as" "cstr m y bs" by auto
  show "sgn (strcmp_keys m x y) = - sgn (strcmp_keys m y x)"
    using strcmp_keys_order [OF xy] strcmp_keys_order [OF xy(2,1)] by (auto simp: sgn_if)
  assume "z \<in> strings m" and le: "strcmp_keys m x y \<le> 0" "strcmp_keys m y z \<le> 0"
  then obtain cs where z: "cstr m z cs" by auto
  have "\<not> byte_lex cs as" using le strcmp_keys_order [OF xy] strcmp_keys_order [OF xy(2) z] byte_lex_total byte_lex_trans not_less by metis
  then show "strcmp_keys m x z \<le> 0" using strcmp_keys_order(2) [OF xy(1) z] by simp
qed

section \<open>Walking the tree\<close>

fun t_walk :: "int \<Rightarrow> (nat \<times> 'k) tree \<Rightarrow> (nat \<times> VISIT \<times> int) list" where
  "t_walk i Leaf = []"
| "t_walk i (Node l (a, k) r) = (if l = Leaf \<and> r = Leaf then [(a, leaf, i)]
     else (a, preorder, i) # t_walk (i + 1) l @ (a, postorder, i) # t_walk (i + 1) r @ [(a, endorder, i)])"

definition in_visits :: "(nat \<times> VISIT \<times> int) list \<Rightarrow> nat list" where
  "in_visits vs = map fst (filter (\<lambda>(a, v, i). v = postorder \<or> v = leaf) vs)"

lemma trecurse_tree: "shape (nodes s) t \<Longrightarrow> addr t = Some a \<Longrightarrow> trecurse s a i = Some (t_walk i t)"
proof (induction t arbitrary: a i)
  case (Node l n r)
  obtain b j where n: "n = (b, j)" by (cases n)
  have a: "nodes s a = Some \<lparr>key = j, llink = addr l, rlink = addr r\<rparr>" "shape (nodes s) l" "shape (nodes s) r" "b = a" using Node.prems by (auto simp: n)
  have l: "(case addr l of None \<Rightarrow> Some [] | Some l \<Rightarrow> trecurse s l (i + 1)) = Some (t_walk (i + 1) l)" using Node.IH(1) [OF a(2)] by (cases l) auto
  have r: "(case addr r of None \<Rightarrow> Some [] | Some r \<Rightarrow> trecurse s r (i + 1)) = Some (t_walk (i + 1) r)" using Node.IH(2) [OF a(3)] by (cases r) auto
  show ?case by (subst trecurse.simps) (simp add: a l r n addr_NULL)
qed simp

lemma in_visits_t_walk: "in_visits (t_walk i t) = map fst (inorder t)"
  by (induction i t rule: t_walk.induct) (auto simp: in_visits_def)

text \<open>Three strings, in the order b, a, c, as the keys of a tree of three nodes.\<close>

definition ex_mem :: mem where
  "ex_mem = [98, 0, 97, 0, 99, 0, 100, 0]"

definition ex_store :: "nat store" where
  "ex_store = \<lparr>root = Some 10, nodes = [10 \<mapsto> \<lparr>key = 0, llink = Some 20, rlink = Some 30\<rparr>, 20 \<mapsto> \<lparr>key = 2, llink = NULL, rlink = NULL\<rparr>,
     30 \<mapsto> \<lparr>key = 4, llink = NULL, rlink = NULL\<rparr>]\<rparr>"

lemma ex_strings [simp]: "cstr ex_mem 0 [98]" "cstr ex_mem 2 [97]" "cstr ex_mem 4 [99]" "cstr ex_mem 6 [100]"
  by (simp_all add: ex_mem_def)

lemma ex_members: "{0, 2, 4, 6} \<subseteq> strings ex_mem"
  using ex_strings by blast

lemma ex_cmp: "strcmp_keys ex_mem 0 0 = 0" "strcmp_keys ex_mem 0 2 = 1" "strcmp_keys ex_mem 2 0 = - 1" "strcmp_keys ex_mem 0 4 = - 1"
  "strcmp_keys ex_mem 2 4 = - 2" "strcmp_keys ex_mem 6 0 = 2" "strcmp_keys ex_mem 6 2 = 3" "strcmp_keys ex_mem 6 4 = 1"
  by (simp_all add: strcmp_keys_def strcmp.simps ex_mem_def)

lemma ex_tree: "tree_of (strcmp_keys ex_mem) (strings ex_mem) ex_store {(10, 0), (20, 2), (30, 4)}"
  unfolding tree_of_def
proof (intro exI conjI)
  let ?t = "Node (Node Leaf (20, 2) Leaf) (10, 0) (Node Leaf (30, 4) Leaf) :: (nat \<times> nat) tree"
  show "holds_tree ex_store Root ?t" by (simp add: holds_tree_def ex_store_def)
  show "ordered (strcmp_keys ex_mem) ?t" by (simp add: ex_cmp)
  show "set_tree ?t = {(10, 0), (20, 2), (30, 4)}" by auto
  show "keys ?t \<subseteq> strings ex_mem" using ex_members by simp
qed

lemma ex_absent: "\<not> match (strcmp_keys ex_mem) 6 {(10, 0), (20, 2), (30, 4)} a"
  by (auto simp: match_def ex_cmp intro!: gr0I)

section \<open>The properties\<close>

text \<open>
  C17. \<open>tsearch\<close> on a search tree returns the node with an equal key when there is one and leaves the store alone; otherwise it
  adds the node that \<open>malloc\<close> gave, with the new key, and when \<open>malloc\<close> gave none it returns \<open>NULL\<close> and the store is as before.
  The result is a search tree again, with that set of nodes, and \<open>tfind\<close> returns the same pointer afterwards.
\<close>

theorem tsearch_correct:
  assumes "key_order cmp K" "tree_of cmp K s A" "x \<in> K" "\<And>q. malloc = Some q \<Longrightarrow> nodes s q = None"
  shows "\<exists>r s' A'. tsearch cmp x s (Some Root) malloc = Some (r, s') \<and> tree_of cmp K s' A' \<and> tfind cmp x s' (Some Root) = Some r \<and>
    (if \<exists>a. match cmp x A a then s' = s \<and> A' = A \<and> (\<forall>a. r = Some a \<longleftrightarrow> match cmp x A a)
     else r = malloc \<and> (case malloc of None \<Rightarrow> s' = s \<and> A' = A | Some q \<Rightarrow> A' = insert (q, x) A))"
proof -
  note L = key_order.tsearch_match [OF assms(1-3)] key_order.tfind_match [OF assms(1-3)] key_order.tsearch_new [OF assms(1-3)]
    key_order.tsearch_full [OF assms(1-3)]
  show ?thesis
  proof (cases "\<exists>a. match cmp x A a")
    case True
    then obtain a where a: "match cmp x A a" by blast
    then have "tsearch cmp x s (Some Root) malloc = Some (Some a, s)" by (rule L(1))
    moreover obtain r where r: "tfind cmp x s (Some Root) = Some r" "\<forall>a. r = Some a \<longleftrightarrow> match cmp x A a" using L(2) by blast
    moreover have "r = Some a" using r(2) a by simp
    ultimately show ?thesis using True assms(2) by (intro exI [of _ r] exI [of _ s] exI [of _ A]) simp
  next
    case None: False
    show ?thesis
    proof (cases malloc)
      case (Some q)
      obtain s' where s': "tsearch cmp x s (Some Root) (Some q) = Some (Some q, s')" "tree_of cmp K s' (insert (q, x) A)" using L(3) None assms(4) Some by blast
      have "cmp x x = 0" using key_order.flip [OF assms(1) assms(3,3)] by linarith
      then have "match cmp x (insert (q, x) A) q" by (auto simp: match_def)
      then have "tfind cmp x s' (Some Root) = Some (Some q)" using key_order.tfind_match [OF assms(1) s'(2) assms(3)] by auto
      then show ?thesis using s' None Some by auto
    next
      case full: None
      obtain r where "tfind cmp x s (Some Root) = Some r" "\<forall>a. r \<noteq> Some a" using L(2) None by auto
      then have "tfind cmp x s (Some Root) = Some NULL" by (cases r) auto
      then show ?thesis using L(4) None full assms(2) by auto
    qed
  qed
qed

theorem tsearch_correct_witness:
  "\<exists>s'. tsearch (strcmp_keys ex_mem) 6 ex_store (Some Root) (Some 40) = Some (Some 40, s') \<and>
    tree_of (strcmp_keys ex_mem) (strings ex_mem) s' {(10, 0), (20, 2), (30, 4), (40, 6)} \<and>
    tfind (strcmp_keys ex_mem) 6 s' (Some Root) = Some (Some 40)"
  using tsearch_correct [OF string_keys.key_order_axioms ex_tree, of 6 "Some 40"] ex_absent ex_members by (auto simp: ex_store_def insert_commute)

text \<open>
  C16. \<open>tdelete\<close> on a search tree removes exactly the node with an equal key, and it is freed.  The result is a search tree with the
  other nodes, in which \<open>tfind\<close> no longer finds the key.  It returns \<open>NULL\<close> exactly when the key is absent; otherwise the
  node of the tree that linked to the removed one or, if the root was removed, the address of the root, which has been freed.
\<close>

theorem tdelete_correct:
  assumes "key_order cmp K" "tree_of cmp K s A" "x \<in> K"
  shows "\<exists>r s'. tdelete cmp x s (Some Root) = Some (r, s') \<and> tree_of cmp K s' {n \<in> A. cmp x (snd n) \<noteq> 0} \<and>
    tfind cmp x s' (Some Root) = Some NULL \<and> (r = NULL \<longleftrightarrow> (\<forall>a. \<not> match cmp x A a)) \<and> (r = NULL \<longrightarrow> s' = s) \<and>
    (\<forall>a. match cmp x A a \<longrightarrow> nodes s' a = None \<and> (if root s = Some a then r = Some a else (\<exists>b n. r = Some b \<and> b \<in> fst ` A \<and> nodes s b = Some n \<and> (llink n = Some a \<or> rlink n = Some a))))"
proof -
  have gone: "tfind cmp x s' (Some Root) = Some NULL" if "tree_of cmp K s' {n \<in> A. cmp x (snd n) \<noteq> 0}" for s'
    using key_order.tfind_match [OF assms(1) that assms(3)] not_None_eq by (fastforce simp: match_def)
  have one: "a = b" if "match cmp x A a" "match cmp x A b" for a b using key_order.tfind_match [OF assms] that by (metis option.inject)
  show ?thesis
  proof (cases "\<exists>a. match cmp x A a")
    case True
    then obtain a where a: "match cmp x A a" by blast
    obtain b s' where s': "tdelete cmp x s (Some Root) = Some (Some b, s')" "nodes s' a = None" "tree_of cmp K s' {n \<in> A. cmp x (snd n) \<noteq> 0}"
      "if root s = Some a then b = a else b \<in> fst ` A \<and> links s b a" using key_order.tdelete_match [OF assms a] by blast
    have "nodes s' c = None \<and> (if root s = Some c then Some b = Some c else (\<exists>b' n. Some b = Some b' \<and> b' \<in> fst ` A \<and> nodes s b' = Some n \<and> (llink n = Some c \<or> rlink n = Some c)))"
      if "match cmp x A c" for c using s'(2,4) one [OF a that] by (auto simp: links_def)
    note gone_c = this
    show ?thesis
    proof (intro exI conjI)
      show "tdelete cmp x s (Some Root) = Some (Some b, s')" "tree_of cmp K s' {n \<in> A. cmp x (snd n) \<noteq> 0}" by fact+
      show "tfind cmp x s' (Some Root) = Some NULL" by (rule gone) fact
      show "Some b = NULL \<longleftrightarrow> (\<forall>a. \<not> match cmp x A a)" "Some b = NULL \<longrightarrow> s' = s" using a by auto
    qed (use gone_c in blast)
  next
    case False
    then have "{n \<in> A. cmp x (snd n) \<noteq> 0} = A" by (auto simp: match_def)
    then show ?thesis using key_order.tdelete_absent [OF assms] False gone [of s] assms(2) by auto
  qed
qed

theorem tdelete_correct_witness:
  "\<exists>s'. tdelete (strcmp_keys ex_mem) 0 ex_store (Some Root) = Some (Some 10, s') \<and>
    tree_of (strcmp_keys ex_mem) (strings ex_mem) s' {(20, 2), (30, 4)} \<and> nodes s' 10 = None"
proof -
  have "{n \<in> {(10, 0), (20, 2), (30, 4)}. strcmp_keys ex_mem 0 (snd n) \<noteq> 0} = {(20 :: nat, 2), (30, 4)}" by (auto simp: ex_cmp)
  moreover have m: "match (strcmp_keys ex_mem) 0 {(10, 0), (20, 2), (30, 4)} 10" by (auto simp: match_def ex_cmp)
  moreover obtain r s' where r: "tdelete (strcmp_keys ex_mem) 0 ex_store (Some Root) = Some (r, s')"
      "tree_of (strcmp_keys ex_mem) (strings ex_mem) s' {n \<in> {(10, 0), (20, 2), (30, 4)}. strcmp_keys ex_mem 0 (snd n) \<noteq> 0}"
      "nodes s' 10 = None \<and> (if root ex_store = Some 10 then r = Some 10 else (\<exists>b n. r = Some b \<and> b \<in> fst ` {(10, 0), (20, 2), (30, 4 :: nat)} \<and>
        nodes ex_store b = Some n \<and> (llink n = Some 10 \<or> rlink n = Some 10)))"
    using tdelete_correct [OF string_keys.key_order_axioms ex_tree, of 0] ex_members(1) m by blast
  ultimately show ?thesis by (auto simp: ex_store_def)
qed

text \<open>
  C31. \<open>twalk\<close> visits a search tree in the order of its keys: the nodes that are reported as \<open>postorder\<close> or as \<open>leaf\<close> are all nodes,
  each once, in ascending order.
\<close>

theorem twalk_in_order:
  assumes "tree_of cmp K s A"
  shows "\<exists>vs ns. twalk s (root s) True = Some vs \<and> in_visits vs = map fst ns \<and> set ns = A \<and> distinct (map fst ns) \<and>
    sorted_wrt (\<lambda>n n'. cmp (snd n) (snd n') < 0) ns"
proof -
  obtain t where t: "holds_tree s Root t" "ordered cmp t" "set_tree t = A" using assms by (auto simp: tree_of_def)
  then have "twalk s (root s) True = Some (t_walk 0 t)" using trecurse_tree [of s t] by (cases t) (auto simp: twalk_def holds_tree_def)
  then show ?thesis using t in_visits_t_walk [of 0 t] by (intro exI [of _ "t_walk 0 t"] exI [of _ "inorder t"]) (auto simp: ordered_def sorted_wrt_map holds_tree_def apart_def)
qed

theorem twalk_in_order_witness:
  "\<exists>vs ns. twalk ex_store (Some 10) True = Some vs \<and> in_visits vs = map fst ns \<and> set ns = {(10, 0), (20, 2), (30, 4)} \<and> distinct (map fst ns) \<and>
    sorted_wrt (\<lambda>n n'. strcmp_keys ex_mem (snd n) (snd n') < 0) ns"
  using twalk_in_order [OF ex_tree] by (simp add: ex_store_def)

end
