(* ===== verification/Inet.thy ===== *)
theory Inet
  imports Clocal
begin

text \<open>
  Internet addresses as text, \<^verbatim>\<open>src/libc/inet/inet_pton.c\<close> and \<^verbatim>\<open>inet_ntop.c\<close>.  The local arrays of the code are
  objects of their own: lists of bytes, whose initial contents are parameters where the code leaves them uninitialised; a function that gets
  a pointer into one of two objects takes both.  Stores past the end of a local array fail.  The
  classification of characters is that of the C locale.  \<^verbatim>\<open>snprintf\<close> with the two
  formats that occur is modelled by the text it produces, cut to the buffer.  Results are \<open>None\<close> for an access outside an object; the value 0 or
  \<open>NULL\<close> is the error return, and the last component is what \<open>errno\<close> is set to, if it is set.
\<close>

unbundle bit_operations_syntax

section \<open>inet_pton.c\<close>

definition isdigit :: "byte \<Rightarrow> bool" where
  "isdigit c \<longleftrightarrow> 48 \<le> c \<and> c \<le> 57"

definition islower :: "byte \<Rightarrow> bool" where
  "islower c \<longleftrightarrow> 97 \<le> c \<and> c \<le> 122"

definition isxdigit :: "byte \<Rightarrow> bool" where
  "isxdigit c \<longleftrightarrow> isdigit c \<or> 97 \<le> c \<and> c \<le> 102 \<or> 65 \<le> c \<and> c \<le> 70"

definition isspace_c :: "byte \<Rightarrow> bool" where
  "isspace_c c \<longleftrightarrow> c = 32 \<or> 9 \<le> c \<and> c \<le> 13"

text \<open>The digits of one number; \<open>val\<close> wraps as a \<^verbatim>\<open>u_int32_t\<close>.\<close>

function pton4_digits :: "mem \<Rightarrow> 32 word \<Rightarrow> nat \<Rightarrow> byte \<Rightarrow> 32 word \<Rightarrow> (nat \<times> byte \<times> 32 word) option" where
  "pton4_digits m base src c val =
     (if isdigit c then
        let digit = ucast c - 48 in
        if digit \<ge> base then Some (src, c, val)
        else do { c \<leftarrow> ld m (src + 1); pton4_digits m base (src + 1) c (val * base + digit) }
      else if base = 16 \<and> isxdigit c then
        let digit = ucast c + 10 - (if islower c then 97 else 65) in
        if digit \<ge> 16 then Some (src, c, val)
        else do { c \<leftarrow> ld m (src + 1); pton4_digits m base (src + 1) c (push_bit 4 val OR digit) }
      else Some (src, c, val))"
  by pat_completeness auto
termination
  by (relation "measure (\<lambda>(m, base, src, c, val). length m - src)") (auto dest!: ld_SomeD)

declare pton4_digits.simps [simp del]

text \<open>One round of the outer loop up to the dot: \<open>None\<close> inside is \<^verbatim>\<open>return (0)\<close>.\<close>

definition pton4_number :: "mem \<Rightarrow> nat \<Rightarrow> byte \<Rightarrow> bool \<Rightarrow> (nat \<times> byte \<times> 32 word) option option" where
  "pton4_number m src c pton =
     (if \<not> isdigit c then Some None
      else do {
        (base, src, c) \<leftarrow>
          (if c = 48 then do {
             c \<leftarrow> ld m (src + 1);
             if c = 120 \<or> c = 88 then do { c \<leftarrow> ld m (src + 2); Some (16, src + 2, c) }
             else Some (if isdigit c \<and> c \<noteq> 57 then 8 else 10, src + 1, c) }
           else Some (10, src, c));
        if pton \<and> base \<noteq> 10 then Some None
        else do { r \<leftarrow> pton4_digits m base src c 0; Some (Some r) } })"

partial_function (option) pton4_parts :: "mem \<Rightarrow> bool \<Rightarrow> nat \<Rightarrow> byte \<Rightarrow> 32 word list \<Rightarrow> (32 word list \<times> 32 word \<times> byte) option option" where
  "pton4_parts m pton src c parts = do {
     r \<leftarrow> pton4_number m src c pton;
     case r of
       None \<Rightarrow> Some None
     | Some (src, c, val) \<Rightarrow>
         if c = 46 then
           (if length parts \<ge> 3 then Some None
            else do { c \<leftarrow> ld m (src + 1); pton4_parts m pton (src + 1) c (parts @ [val]) })
         else Some (Some (parts, val, c)) }"

definition pton4_concoct :: "32 word list \<Rightarrow> 32 word \<Rightarrow> bool \<Rightarrow> 32 word option" where
  "pton4_concoct parts val pton =
     (let n = length parts + 1 in
      if pton \<and> n \<noteq> 4 then None
      else if n = 2 then
        (if parts ! 0 > 0xff \<or> val > 0xffffff then None else Some (val OR push_bit 24 (parts ! 0)))
      else if n = 3 then
        (if parts ! 0 OR parts ! 1 > 0xff \<or> val > 0xffff then None
         else Some (val OR (push_bit 24 (parts ! 0) OR push_bit 16 (parts ! 1))))
      else if n = 4 then
        (if parts ! 0 OR parts ! 1 OR parts ! 2 OR val > 0xff then None
         else Some (val OR (push_bit 24 (parts ! 0) OR push_bit 16 (parts ! 1) OR push_bit 8 (parts ! 2))))
      else Some val)"

text \<open>The bytes of \<^verbatim>\<open>htonl(val)\<close> in memory.\<close>

definition htonl_bytes :: "32 word \<Rightarrow> byte list" where
  "htonl_bytes val = [ucast (drop_bit 24 val), ucast (drop_bit 16 val), ucast (drop_bit 8 val), ucast val]"

definition inet_pton4 :: "mem \<Rightarrow> nat \<Rightarrow> mem \<Rightarrow> nat \<Rightarrow> bool \<Rightarrow> (int \<times> mem) option" where
  "inet_pton4 m src ob dst pton = do {
     c \<leftarrow> ld m src;
     r \<leftarrow> pton4_parts m pton src c [];
     case r of
       None \<Rightarrow> Some (0, ob)
     | Some (parts, val, c) \<Rightarrow>
         if c \<noteq> 0 \<and> \<not> isspace_c c then Some (0, ob)
         else (case pton4_concoct parts val pton of
             None \<Rightarrow> Some (0, ob)
           | Some val \<Rightarrow> do { ob \<leftarrow> copy_out ob dst (htonl_bytes val); Some (1, ob) }) }"

definition xdigits_l :: mem where
  "xdigits_l = [48, 49, 50, 51, 52, 53, 54, 55, 56, 57, 97, 98, 99, 100, 101, 102, 0]"

definition xdigits_u :: mem where
  "xdigits_u = [48, 49, 50, 51, 52, 53, 54, 55, 56, 57, 65, 66, 67, 68, 69, 70, 0]"

definition pton6_digit :: "byte \<Rightarrow> ptr option" where
  "pton6_digit ch = do {
     pch \<leftarrow> strchr xdigits_l 0 ch;
     if pch = NULL then strchr xdigits_u 0 ch else Some pch }"

definition NS_IN6ADDRSZ :: nat where "NS_IN6ADDRSZ = 16"

text \<open>\<^verbatim>\<open>*tp++ = (u_char) (val >> 8) & 0xff; *tp++ = (u_char) val & 0xff;\<close>\<close>

definition pton6_put :: "mem \<Rightarrow> nat \<Rightarrow> 32 word \<Rightarrow> mem option" where
  "pton6_put tmp tp val = do {
     tmp \<leftarrow> st tmp tp (ucast (drop_bit 8 val) AND 0xff);
     st tmp (tp + 1) (ucast val AND 0xff) }"

record pton6 =
  p6_tmp :: mem
  p6_tp :: nat
  p6_colonp :: ptr
  p6_seen :: nat
  p6_val :: "32 word"

partial_function (option) pton6_loop :: "mem \<Rightarrow> nat \<Rightarrow> nat \<Rightarrow> pton6 \<Rightarrow> pton6 option option" where
  "pton6_loop m src curtok z = do {
     ch \<leftarrow> ld m src;
     if ch = 0 then Some (Some z)
     else do {
       pch \<leftarrow> pton6_digit ch;
       case pch of
         Some d \<Rightarrow>
           let z = z\<lparr>p6_val := push_bit 4 (p6_val z) OR of_nat d, p6_seen := p6_seen z + 1\<rparr> in
           if p6_seen z > 4 then Some None else pton6_loop m (src + 1) curtok z
       | None \<Rightarrow>
           if ch = 58 then
             (if p6_seen z = 0 then
                (if p6_colonp z \<noteq> NULL then Some None
                 else pton6_loop m (src + 1) (src + 1) (z\<lparr>p6_colonp := Some (p6_tp z)\<rparr>))
              else do {
                c \<leftarrow> ld m (src + 1);
                if c = 0 then Some None
                else if p6_tp z + 2 > NS_IN6ADDRSZ then Some None
                else do {
                  tmp \<leftarrow> pton6_put (p6_tmp z) (p6_tp z) (p6_val z);
                  pton6_loop m (src + 1) (src + 1) (z\<lparr>p6_tmp := tmp, p6_tp := p6_tp z + 2, p6_seen := 0, p6_val := 0\<rparr>) } })
           else if ch = 46 \<and> p6_tp z + 4 \<le> NS_IN6ADDRSZ then do {
             (r, tmp) \<leftarrow> inet_pton4 m curtok (p6_tmp z) (p6_tp z) True;
             if r > 0 then Some (Some (z\<lparr>p6_tmp := tmp, p6_tp := p6_tp z + 4, p6_seen := 0\<rparr>)) else Some None }
           else Some None } }"

text \<open>\<^verbatim>\<open>for (i = 1; i <= n; i++) { endp[- i] = colonp[n - i]; colonp[n - i] = 0; }\<close>\<close>

function pton6_shift :: "mem \<Rightarrow> nat \<Rightarrow> nat \<Rightarrow> nat \<Rightarrow> mem option" where
  "pton6_shift tmp colonp n i =
     (if i \<le> n then do {
        b \<leftarrow> ld tmp (colonp + (n - i));
        tmp \<leftarrow> st tmp (NS_IN6ADDRSZ - i) b;
        tmp \<leftarrow> st tmp (colonp + (n - i)) 0;
        pton6_shift tmp colonp n (i + 1) }
      else Some tmp)"
  by pat_completeness auto
termination
  by (relation "measure (\<lambda>(tmp, colonp, n, i). n + 1 - i)") auto

declare pton6_shift.simps [simp del]

definition inet_pton6 :: "mem \<Rightarrow> nat \<Rightarrow> nat \<Rightarrow> (int \<times> mem) option" where
  "inet_pton6 m src dst = do {
     c \<leftarrow> ld m src;
     s \<leftarrow> (if c = 58 then do { c \<leftarrow> ld m (src + 1); Some (if c \<noteq> 58 then None else Some (src + 1)) } else Some (Some src));
     case s of
       None \<Rightarrow> Some (0, m)
     | Some src \<Rightarrow> do {
         r \<leftarrow> pton6_loop m src src \<lparr>p6_tmp = replicate NS_IN6ADDRSZ 0, p6_tp = 0, p6_colonp = NULL, p6_seen = 0, p6_val = 0\<rparr>;
         case r of
           None \<Rightarrow> Some (0, m)
         | Some z \<Rightarrow>
             if p6_seen z \<noteq> 0 \<and> p6_tp z + 2 > NS_IN6ADDRSZ then Some (0, m)
             else do {
               z \<leftarrow> (if p6_seen z \<noteq> 0 then do {
                   tmp \<leftarrow> pton6_put (p6_tmp z) (p6_tp z) (p6_val z);
                   Some (z\<lparr>p6_tmp := tmp, p6_tp := p6_tp z + 2\<rparr>) } else Some z);
               case p6_colonp z of
                 Some colonp \<Rightarrow>
                   if p6_tp z = NS_IN6ADDRSZ then Some (0, m)
                   else do {
                     tmp \<leftarrow> pton6_shift (p6_tmp z) colonp (p6_tp z - colonp) 1;
                     m \<leftarrow> copy_out m dst tmp;
                     Some (1, m) }
               | None \<Rightarrow>
                   if p6_tp z \<noteq> NS_IN6ADDRSZ then Some (0, m)
                   else do { m \<leftarrow> copy_out m dst (p6_tmp z); Some (1, m) } } } }"

datatype inet_errno = ENOSPC | EAFNOSUPPORT

definition AF_INET :: int where "AF_INET = 2"
definition AF_INET6 :: int where "AF_INET6 = 24"

definition inet_pton :: "int \<Rightarrow> mem \<Rightarrow> nat \<Rightarrow> nat \<Rightarrow> (int \<times> mem \<times> inet_errno option) option" where
  "inet_pton af m src dst =
     (if af = AF_INET then do { (r, m) \<leftarrow> inet_pton4 m src m dst True; Some (r, m, None) }
      else if af = AF_INET6 then do { (r, m) \<leftarrow> inet_pton6 m src dst; Some (r, m, None) }
      else Some (- 1, m, Some EAFNOSUPPORT))"

section \<open>inet_ntop.c\<close>

text \<open>The text of \<^verbatim>\<open>%u\<close> (base 10) and \<^verbatim>\<open>%x\<close> (base 16).\<close>

function number_text :: "nat \<Rightarrow> nat \<Rightarrow> byte list" where
  "number_text base n =
     (if n < base \<or> base < 2 then [xdigits_l ! n] else number_text base (n div base) @ [xdigits_l ! (n mod base)])"
  by pat_completeness auto
termination
  by (relation "measure snd") auto

declare number_text.simps [simp del]

text \<open>\<^verbatim>\<open>snprintf(buf + p, room, ...)\<close> for the text \<open>s\<close>; the result is its length.\<close>

definition snprintf_text :: "mem \<Rightarrow> nat \<Rightarrow> nat \<Rightarrow> byte list \<Rightarrow> (int \<times> mem) option" where
  "snprintf_text buf p room s =
     (if room = 0 then Some (int (length s), buf)
      else do { buf \<leftarrow> copy_out buf p (take (room - 1) s @ [0]); Some (int (length s), buf) })"

definition inet_ntop4 :: "mem \<Rightarrow> mem \<Rightarrow> nat \<Rightarrow> mem \<Rightarrow> nat \<Rightarrow> nat \<Rightarrow> (ptr \<times> mem) option" where
  "inet_ntop4 tmp m src ob dst size' = do {
     a \<leftarrow> ld m src; b \<leftarrow> ld m (src + 1); c \<leftarrow> ld m (src + 2); d \<leftarrow> ld m (src + 3);
     (l, tmp) \<leftarrow> snprintf_text tmp 0 16 (number_text 10 (unat a) @ [46] @ number_text 10 (unat b) @ [46] @
       number_text 10 (unat c) @ [46] @ number_text 10 (unat d));
     if l \<le> 0 \<or> nat l \<ge> size' then Some (NULL, ob)
     else do { ob \<leftarrow> strlcpy_out ob dst tmp size'; Some (Some dst, ob) } }"

function ntop6_words :: "mem \<Rightarrow> nat \<Rightarrow> nat \<Rightarrow> 32 word list \<Rightarrow> 32 word list option" where
  "ntop6_words m src i words =
     (if i < NS_IN6ADDRSZ then do {
        b \<leftarrow> ld m (src + i);
        ntop6_words m src (i + 1) (words[i div 2 := words ! (i div 2) OR push_bit ((1 - i mod 2) * 8) (ucast b)]) }
      else Some words)"
  by pat_completeness auto
termination
  by (relation "measure (\<lambda>(m, src, i, words). NS_IN6ADDRSZ - i)") auto

declare ntop6_words.simps [simp del]

record run =
  run_base :: int
  run_len :: int

definition ntop6_better :: "run \<Rightarrow> run \<Rightarrow> run" where
  "ntop6_better best cur = (if run_base best = - 1 \<or> run_len cur > run_len best then cur else best)"

fun ntop6_runs :: "32 word list \<Rightarrow> int \<Rightarrow> run \<Rightarrow> run \<Rightarrow> run \<times> run" where
  "ntop6_runs [] i best cur = (best, cur)"
| "ntop6_runs (w # ws) i best cur =
     (if w = 0 then
        (if run_base cur = - 1 then ntop6_runs ws (i + 1) best (cur\<lparr>run_base := i, run_len := 1\<rparr>)
         else ntop6_runs ws (i + 1) best (cur\<lparr>run_len := run_len cur + 1\<rparr>))
      else if run_base cur \<noteq> - 1 then ntop6_runs ws (i + 1) (ntop6_better best cur) (cur\<lparr>run_base := - 1\<rparr>)
      else ntop6_runs ws (i + 1) best cur)"

definition ntop6_best :: "32 word list \<Rightarrow> run" where
  "ntop6_best words =
     (let (best, cur) = ntop6_runs words 0 \<lparr>run_base = - 1, run_len = 0\<rparr> \<lparr>run_base = - 1, run_len = 0\<rparr>;
          best = (if run_base cur \<noteq> - 1 then ntop6_better best cur else best)
      in if run_base best \<noteq> - 1 \<and> run_len best < 2 then best\<lparr>run_base := - 1\<rparr> else best)"

text \<open>The size of \<^verbatim>\<open>tmp\<close> in \<open>inet_ntop6\<close>; \<open>None\<close> inside is \<^verbatim>\<open>goto out\<close>.\<close>

definition NTOP6_TMP :: nat where "NTOP6_TMP = 46"

definition ntop6_colon :: "mem \<Rightarrow> nat \<Rightarrow> (mem \<times> nat) option option" where
  "ntop6_colon tmp tp = (if tp + 1 \<ge> NTOP6_TMP then Some None else do { tmp \<leftarrow> st tmp tp 58; Some (Some (tmp, tp + 1)) })"

definition ntop6_v4 :: "32 word list \<Rightarrow> run \<Rightarrow> nat \<Rightarrow> bool" where
  "ntop6_v4 words best i \<longleftrightarrow> i = 6 \<and> run_base best = 0 \<and>
     (run_len best = 6 \<or> run_len best = 7 \<and> words ! 7 \<noteq> 1 \<or> run_len best = 5 \<and> words ! 5 = 0xffff)"

function ntop6_format :: "mem \<Rightarrow> mem \<Rightarrow> nat \<Rightarrow> 32 word list \<Rightarrow> run \<Rightarrow> nat \<Rightarrow> mem \<Rightarrow> nat \<Rightarrow> (mem \<times> nat) option option" where
  "ntop6_format stk m src words best i tmp tp =
     (if i \<ge> 8 then Some (Some (tmp, tp))
      else if run_base best \<noteq> - 1 \<and> int i \<ge> run_base best \<and> int i < run_base best + run_len best then
        (if int i = run_base best then do { tmp \<leftarrow> st tmp tp 58; ntop6_format stk m src words best (i + 1) tmp (tp + 1) }
         else ntop6_format stk m src words best (i + 1) tmp tp)
      else do {
        r \<leftarrow> (if i \<noteq> 0 then ntop6_colon tmp tp else Some (Some (tmp, tp)));
        case r of
          None \<Rightarrow> Some None
        | Some (tmp, tp) \<Rightarrow>
            if ntop6_v4 words best i then do {
              (p, tmp) \<leftarrow> inet_ntop4 stk m (src + 12) tmp tp (NTOP6_TMP - tp);
              if p = NULL then Some None else do { n \<leftarrow> strlen tmp tp; Some (Some (tmp, tp + n)) } }
            else do {
              (advance, tmp) \<leftarrow> snprintf_text tmp tp (NTOP6_TMP - tp) (number_text 16 (unat (words ! i)));
              if advance \<le> 0 \<or> advance \<ge> int NTOP6_TMP - int tp then Some None
              else ntop6_format stk m src words best (i + 1) tmp (tp + nat advance) } })"
  by pat_completeness auto
termination
  by (relation "measure (\<lambda>(stk, m, src, words, best, i, tmp, tp). 8 - i)") auto

declare ntop6_format.simps [simp del]

definition inet_ntop6 :: "mem \<Rightarrow> mem \<Rightarrow> mem \<Rightarrow> nat \<Rightarrow> nat \<Rightarrow> nat \<Rightarrow> (ptr \<times> mem \<times> inet_errno option) option" where
  "inet_ntop6 stk tmp m src dst size' = do {
     words \<leftarrow> ntop6_words m src 0 (replicate 8 0);
     let best = ntop6_best words;
     r \<leftarrow> ntop6_format stk m src words best 0 tmp 0;
     case r of
       None \<Rightarrow> Some (NULL, m, Some ENOSPC)
     | Some (tmp, tp) \<Rightarrow> do {
         r \<leftarrow> (if run_base best \<noteq> - 1 \<and> run_base best + run_len best = 8 then ntop6_colon tmp tp else Some (Some (tmp, tp)));
         case r of
           None \<Rightarrow> Some (NULL, m, Some ENOSPC)
         | Some (tmp, tp) \<Rightarrow>
             if tp + 1 \<ge> NTOP6_TMP then Some (NULL, m, Some ENOSPC)
             else do {
               tmp \<leftarrow> st tmp tp 0;
               if tp + 1 > size' then Some (NULL, m, Some ENOSPC)
               else do { m \<leftarrow> strlcpy_out m dst tmp size'; Some (Some dst, m, None) } } } }"

definition inet_ntop :: "mem \<Rightarrow> mem \<Rightarrow> int \<Rightarrow> mem \<Rightarrow> nat \<Rightarrow> nat \<Rightarrow> nat \<Rightarrow> (ptr \<times> mem \<times> inet_errno option) option" where
  "inet_ntop stk tmp af m src dst size' =
     (if af = AF_INET then do { (p, m) \<leftarrow> inet_ntop4 stk m src m dst size'; Some (p, m, if p = NULL then Some ENOSPC else None) }
      else if af = AF_INET6 then inet_ntop6 stk tmp m src dst size'
      else Some (NULL, m, Some EAFNOSUPPORT))"

section \<open>Dotted numbers\<close>

definition hd0 :: "byte list \<Rightarrow> byte" where
  "hd0 bs = (case bs of [] \<Rightarrow> 0 | b # _ \<Rightarrow> b)"

lemma hd0_simps [simp]: "hd0 [] = 0" "hd0 (b # bs) = b"
  by (simp_all add: hd0_def)

lemma cstr_hd0: "cstr m p bs \<Longrightarrow> ld m p = Some (hd0 bs)"
  by (cases bs) simp_all

lemma isdigit_0 [simp]: "\<not> isdigit 0"
  by (simp add: isdigit_def)

definition dec :: "byte list \<Rightarrow> nat" where
  "dec ds = foldl (\<lambda>v d. v * 10 + (unat d - 48)) 0 ds"

lemma dec_simps [simp]: "dec [] = 0" "dec (ds @ [d]) = dec ds * 10 + (unat d - 48)"
  by (simp_all add: dec_def)

lemma digit_value:
  assumes "isdigit c"
  shows "ucast c - 48 = (of_nat (unat c - 48) :: 32 word)" "unat c - 48 < 10" "(ucast c - 48 :: 32 word) < 10"
proof -
  have c: "48 \<le> unat c" "unat c \<le> 57" using assms by (simp_all add: isdigit_def word_le_nat_alt)
  have "ucast c = (of_nat (unat c) :: 32 word)" by (simp only: of_nat_unat)
  also have "\<dots> = of_nat (unat c - 48 + 48)" using c(1) by simp
  also have "\<dots> = of_nat (unat c - 48) + (48 :: 32 word)" by (simp only: of_nat_add of_nat_numeral)
  finally show 1: "ucast c - 48 = (of_nat (unat c - 48) :: 32 word)" by simp
  show 2: "unat c - 48 < 10" using c by simp
  show "(ucast c - 48 :: 32 word) < 10" unfolding 1 using 2 by (simp add: word_less_nat_alt unat_of_nat)
qed

lemma pton4_digits_10:
  assumes "cstr m src bs"
  shows "pton4_digits m 10 src (hd0 bs) val = Some (src + length (takeWhile isdigit bs), hd0 (dropWhile isdigit bs),
    foldl (\<lambda>v d. v * 10 + of_nat (unat d - 48)) val (takeWhile isdigit bs))"
  using assms
proof (induction bs arbitrary: src val)
  case Nil
  then show ?case by (subst pton4_digits.simps) simp
next
  case (Cons b bs)
  then show ?case using digit_value [of b] cstr_hd0 [of m "src + 1" bs] by (subst pton4_digits.simps) (auto simp: Let_def not_less)
qed

lemma foldl_dec: "foldl (\<lambda>v d. v * 10 + of_nat (unat d - 48)) 0 ds = (of_nat (dec ds) :: 32 word)"
  by (induction ds rule: rev_induct) simp_all

text \<open>The numbers the code takes in decimal: no leading zero, except before a 9.\<close>

definition plain :: "byte list \<Rightarrow> bool" where
  "plain ds \<longleftrightarrow> ds \<noteq> [] \<and> (\<forall>c \<in> set ds. isdigit c) \<and> (hd ds = 48 \<longrightarrow> ds = [48] \<or> ds ! 1 = 57)"

definition hex_prefix :: "byte list \<Rightarrow> bool" where
  "hex_prefix bs \<longleftrightarrow> (\<exists>x bs'. bs = 48 # x # bs' \<and> (x = 120 \<or> x = 88))"

lemma pton4_number_plain:
  assumes "cstr m src bs"
  shows "pton4_number m src (hd0 bs) True = Some (if plain (takeWhile isdigit bs) \<and> \<not> hex_prefix bs
    then Some (src + length (takeWhile isdigit bs), hd0 (dropWhile isdigit bs), of_nat (dec (takeWhile isdigit bs))) else None)"
proof (cases bs)
  case Nil
  then show ?thesis by (simp add: pton4_number_def plain_def)
next
  case (Cons b bs1)
  note D = pton4_digits_10 [OF assms(1), of 0, unfolded foldl_dec] and D1 = pton4_digits_10 [of m "src + 1" bs1 0]
  have c1: "cstr m (src + 1) bs1" "ld m (src + 1) = Some (hd0 bs1)" using assms(1) Cons cstr_hd0 [of m "src + 1" bs1] by simp_all
  consider "\<not> isdigit b" | "isdigit b" "b \<noteq> 48" | "b = 48" by blast
  then show ?thesis
  proof cases
    case 1
    then show ?thesis by (simp add: pton4_number_def plain_def Cons)
  next
    case 2
    then have "plain (takeWhile isdigit bs)" using set_takeWhileD by (fastforce simp: plain_def Cons)
    then show ?thesis using 2 D by (simp add: pton4_number_def hex_prefix_def Cons)
  next
    case 3
    have d: "isdigit 48" "isdigit 57" by (simp_all add: isdigit_def)
    show ?thesis
    proof (cases "isdigit (hd0 bs1)")
      case True
      then obtain e bs2 where e: "bs1 = e # bs2" "isdigit e" by (cases bs1) auto
      then have ne: "e \<noteq> 120" "e \<noteq> 88" by (auto simp: isdigit_def)
      have "plain (takeWhile isdigit bs) \<longleftrightarrow> e = 57" using set_takeWhileD d e by (fastforce simp: plain_def Cons 3)
      moreover have "foldl (\<lambda>v d. v * 10 + of_nat (unat d - 48)) 0 (takeWhile isdigit bs1) = (of_nat (dec (takeWhile isdigit bs)) :: 32 word)"
        using d by (simp add: foldl_dec [symmetric] Cons 3)
      ultimately show ?thesis using c1 D1 e ne d by (simp add: pton4_number_def hex_prefix_def Cons 3)
    next
      case False
      then have "takeWhile isdigit bs1 = []" "dropWhile isdigit bs1 = bs1" by (cases bs1; simp)+
      moreover have "hex_prefix bs \<longleftrightarrow> hd0 bs1 = 120 \<or> hd0 bs1 = 88" by (cases bs1) (auto simp: hex_prefix_def Cons 3)
      moreover have "hd0 bs1 = 120 \<or> hd0 bs1 = 88 \<Longrightarrow> \<exists>c. ld m (src + 2) = Some c" using c1(1) cstr_hd0 [of m "src + 2" "tl bs1"] by (cases bs1) auto
      ultimately show ?thesis using c1 D1 d False by (auto simp: pton4_number_def Cons 3 plain_def dec_def)
    qed
  qed
qed

text \<open>\<open>n + 1\<close> numbers with dots between them; a NUL or a space ends the text.\<close>

primrec dotted :: "nat \<Rightarrow> byte list \<Rightarrow> 32 word list option" where
  "dotted 0 bs = (let ds = takeWhile isdigit bs; rest = dropWhile isdigit bs in
     if plain ds \<and> (rest = [] \<or> isspace_c (hd rest)) then Some [of_nat (dec ds)] else None)"
| "dotted (Suc n) bs = (let ds = takeWhile isdigit bs; rest = dropWhile isdigit bs in
     if plain ds \<and> rest \<noteq> [] \<and> hd rest = 46 then map_option (Cons (of_nat (dec ds))) (dotted n (tl rest)) else None)"

lemma hex_prefix_rest: "hex_prefix bs \<Longrightarrow> \<exists>x r. dropWhile isdigit bs = x # r \<and> (x = 120 \<or> x = 88)"
  by (auto simp: hex_prefix_def isdigit_def)

lemma cstr_rest: "cstr m p bs \<Longrightarrow> dropWhile P bs = x # r \<Longrightarrow> cstr m (p + length (takeWhile P bs) + 1) r \<and> x \<noteq> 0"
proof (induction bs arbitrary: p)
  case (Cons b bs)
  then show ?case using Cons.IH [of "Suc p"] by (auto split: if_splits)
qed simp

lemma pton4_parts_step:
  assumes "cstr m src bs"
  shows "pton4_parts m True src (hd0 bs) parts =
    (let ds = takeWhile isdigit bs; rest = dropWhile isdigit bs in
     if \<not> plain ds \<or> hex_prefix bs then Some None
     else if hd0 rest = 46 then
       (if length parts \<ge> 3 then Some None else pton4_parts m True (src + length ds + 1) (hd0 (tl rest)) (parts @ [of_nat (dec ds)]))
     else Some (Some (parts, of_nat (dec ds), hd0 rest)))"
proof -
  have "ld m (src + length (takeWhile isdigit bs) + 1) = Some (hd0 (tl (dropWhile isdigit bs)))" if "hd0 (dropWhile isdigit bs) = 46"
    using that cstr_rest [OF assms, of isdigit] cstr_hd0 by (cases "dropWhile isdigit bs") auto
  then show ?thesis using pton4_number_plain [OF assms] by (subst pton4_parts.simps) (simp add: Let_def)
qed

lemma pton4_parts_dotted:
  assumes "cstr m src bs" "length parts + n = 3"
  shows "(case dotted n bs of
      None \<Rightarrow> \<exists>r. pton4_parts m True src (hd0 bs) parts = Some r \<and> (\<forall>ps v c. r = Some (ps, v, c) \<longrightarrow> length ps \<noteq> 3 \<or> c \<noteq> 0 \<and> \<not> isspace_c c)
    | Some vs \<Rightarrow> \<exists>c. pton4_parts m True src (hd0 bs) parts = Some (Some (parts @ butlast vs, last vs, c)) \<and> length vs = n + 1 \<and> (c = 0 \<or> isspace_c c))"
  using assms
proof (induction n arbitrary: src bs parts)
  case 0
  have "x \<noteq> 0" if "dropWhile isdigit bs = x # r" for x r using cstr_rest [OF 0(1) that] by simp
  then show ?case using 0(2) hex_prefix_rest [of bs] pton4_parts_step [OF 0(1), of parts]
    by (cases "dropWhile isdigit bs") (auto simp: Let_def isspace_c_def)
next
  case (Suc n)
  let ?ds = "takeWhile isdigit bs" and ?rest = "dropWhile isdigit bs"
  show ?case
  proof (cases "plain ?ds \<and> \<not> hex_prefix bs \<and> hd0 ?rest = 46")
    case True
    then obtain r where r: "?rest = 46 # r" by (cases ?rest) auto
    have "length (parts @ [of_nat (dec ?ds)]) + n = 3" using Suc.prems(2) by simp
    note IH = Suc.IH [OF conjunct1 [OF cstr_rest [OF Suc.prems(1) r]] this]
    have "pton4_parts m True src (hd0 bs) parts = pton4_parts m True (src + length ?ds + 1) (hd0 r) (parts @ [of_nat (dec ?ds)])"
      using pton4_parts_step [OF Suc.prems(1), of parts] True r Suc.prems(2) by (simp add: Let_def)
    then show ?thesis using IH True r by (auto simp: Let_def split: option.splits)
  next
    case False
    then have "dotted (Suc n) bs = None" using hex_prefix_rest [of bs] by (cases ?rest) (auto simp: Let_def)
    moreover have "\<exists>r. pton4_parts m True src (hd0 bs) parts = Some r \<and> (\<forall>ps v c. r = Some (ps, v, c) \<longrightarrow> length ps \<noteq> 3)"
      using pton4_parts_step [OF Suc.prems(1), of parts] False Suc.prems(2) by (auto simp: Let_def)
    ultimately show ?thesis by auto
  qed
qed

section \<open>IPv4\<close>

lemma small_iff: "x \<le> (0xff :: 32 word) \<longleftrightarrow> take_bit 8 x = x"
  by (auto simp: word_unat_eq_iff unsigned_take_bit_eq take_bit_nat_eq_self_iff word_le_nat_alt)

lemma small_or: "x OR y \<le> (0xff :: 32 word) \<longleftrightarrow> x \<le> 0xff \<and> y \<le> 0xff"
  by (auto simp: small_iff bit_eq_iff bit_simps)

lemma small_bit: "x \<le> (0xff :: 32 word) \<Longrightarrow> 8 \<le> n \<Longrightarrow> \<not> bit x n"
  by (metis small_iff bit_take_bit_iff not_le)

lemma htonl_parts:
  assumes "a \<le> 0xff" "b \<le> 0xff" "c \<le> 0xff" "d \<le> (0xff :: 32 word)"
  shows "htonl_bytes (d OR (push_bit 24 a OR push_bit 16 b OR push_bit 8 c)) = [ucast a, ucast b, ucast c, ucast d]"
  using assms [THEN small_bit] unfolding htonl_bytes_def by (auto simp: bit_eq_iff bit_simps)

text \<open>The value of the text, if it is accepted.\<close>

definition quad_of :: "byte list \<Rightarrow> byte list option" where
  "quad_of bs = (case dotted 3 bs of
     None \<Rightarrow> None
   | Some vs \<Rightarrow> if \<forall>v \<in> set vs. v \<le> 0xff then Some (map ucast vs) else None)"

lemma dotted_length: "dotted n bs = Some vs \<Longrightarrow> length vs = n + 1"
  by (induction n arbitrary: bs vs) (auto simp: Let_def split: if_splits)

lemma quad_of_length: "quad_of bs = Some qs \<Longrightarrow> length qs = 4"
  by (auto simp: quad_of_def dest: dotted_length split: option.splits if_splits)

lemma inet_pton4_quad:
  assumes "cstr m src bs" "dst + 4 \<le> length ob"
  shows "inet_pton4 m src ob dst True = Some (case quad_of bs of None \<Rightarrow> (0, ob) | Some qs \<Rightarrow> (1, wr ob dst qs))"
proof -
  note P = pton4_parts_dotted [OF assms(1), of "[]" 3, simplified]
  show ?thesis
  proof (cases "dotted 3 bs")
    case None
    then obtain r where r: "pton4_parts m True src (hd0 bs) [] = Some r" "\<And>ps v c. r = Some (ps, v, c) \<Longrightarrow> length ps \<noteq> 3 \<or> c \<noteq> 0 \<and> \<not> isspace_c c"
      using P by auto
    then show ?thesis using None cstr_hd0 [OF assms(1)] by (cases r) (auto simp: inet_pton4_def quad_of_def pton4_concoct_def Let_def)
  next
    case (Some vs)
    then obtain c where c: "pton4_parts m True src (hd0 bs) [] = Some (Some (butlast vs, last vs, c))" "length vs = 4" "c = 0 \<or> isspace_c c"
      using P by auto
    obtain v0 v1 v2 v3 where vs: "vs = [v0, v1, v2, v3]" using c(2) by (auto simp: numeral_eq_Suc length_Suc_conv)
    have "length (htonl_bytes v) = 4" for v by (simp add: htonl_bytes_def)
    then show ?thesis using c(1,3) Some cstr_hd0 [OF assms(1)] assms(2) htonl_parts [of v0 v1 v2 v3] copy_out_wr
      by (auto simp: vs inet_pton4_def quad_of_def pton4_concoct_def small_or simp flip: not_le)
  qed
qed

text \<open>The accepted texts, written down.\<close>

fun dots :: "byte list list \<Rightarrow> byte list" where
  "dots [] = []"
| "dots [p] = p"
| "dots (p # ps) = p @ 46 # dots ps"

lemma plain_span:
  assumes "plain p" "tail = [] \<or> \<not> isdigit (hd tail)"
  shows "takeWhile isdigit (p @ tail) = p" "dropWhile isdigit (p @ tail) = tail"
  using assms by (cases tail; simp add: plain_def)+

lemma plain_takeWhile: "plain (takeWhile isdigit bs) \<longleftrightarrow> takeWhile isdigit bs \<noteq> [] \<and> (hd (takeWhile isdigit bs) = 48 \<longrightarrow> takeWhile isdigit bs = [48] \<or> takeWhile isdigit bs ! 1 = 57)"
  using set_takeWhileD [of _ isdigit bs] by (auto simp: plain_def)

lemma space_not_digit: "isspace_c c \<Longrightarrow> \<not> isdigit c" "\<not> isdigit 46"
  by (auto simp: isspace_c_def isdigit_def word_le_nat_alt)

lemma dotted_iff:
  "dotted n bs = Some vs \<longleftrightarrow> (\<exists>ps tail. bs = dots ps @ tail \<and> length ps = n + 1 \<and> (\<forall>p \<in> set ps. plain p) \<and>
    (tail = [] \<or> isspace_c (hd tail)) \<and> vs = map (\<lambda>p. of_nat (dec p)) ps)"
proof (induction n arbitrary: bs vs)
  case 0
  show ?case
  proof
    assume "dotted 0 bs = Some vs"
    then show "\<exists>ps tail. bs = dots ps @ tail \<and> length ps = 0 + 1 \<and> (\<forall>p \<in> set ps. plain p) \<and> (tail = [] \<or> isspace_c (hd tail)) \<and> vs = map (\<lambda>p. of_nat (dec p)) ps"
      by (intro exI [of _ "[takeWhile isdigit bs]"] exI [of _ "dropWhile isdigit bs"]) (auto simp: Let_def split: if_splits)
  next
    assume "\<exists>ps tail. bs = dots ps @ tail \<and> length ps = 0 + 1 \<and> (\<forall>p \<in> set ps. plain p) \<and> (tail = [] \<or> isspace_c (hd tail)) \<and> vs = map (\<lambda>p. of_nat (dec p)) ps"
    then obtain ps tail where ps: "bs = dots ps @ tail" "length ps = 1" "\<forall>p \<in> set ps. plain p" "tail = [] \<or> isspace_c (hd tail)" "vs = map (\<lambda>p. of_nat (dec p)) ps" by auto
    then obtain p where "ps = [p]" by (auto simp: length_Suc_conv)
    then have p: "bs = p @ tail" "plain p" "tail = [] \<or> isspace_c (hd tail)" "vs = [of_nat (dec p)]" using ps by simp_all
    have "takeWhile isdigit bs = p" "dropWhile isdigit bs = tail" unfolding p(1) by (rule plain_span; use p(2,3) space_not_digit in auto)+
    then show "dotted 0 bs = Some vs" using p(2-4) by (simp add: Let_def)
  qed
next
  case (Suc n)
  show ?case
  proof
    assume a: "dotted (Suc n) bs = Some vs"
    then obtain r vs' where r: "dropWhile isdigit bs = 46 # r" "dotted n r = Some vs'" "vs = of_nat (dec (takeWhile isdigit bs)) # vs'" "plain (takeWhile isdigit bs)"
      by (cases "dropWhile isdigit bs") (auto simp: Let_def split: if_splits)
    then obtain ps tail where ps: "r = dots ps @ tail" "length ps = n + 1" "\<forall>p \<in> set ps. plain p" "tail = [] \<or> isspace_c (hd tail)" "vs' = map (\<lambda>p. of_nat (dec p)) ps"
      using Suc.IH by blast
    have "bs = takeWhile isdigit bs @ 46 # dots ps @ tail" using r(1) ps(1) by (metis takeWhile_dropWhile_id)
    then show "\<exists>ps tail. bs = dots ps @ tail \<and> length ps = Suc n + 1 \<and> (\<forall>p \<in> set ps. plain p) \<and> (tail = [] \<or> isspace_c (hd tail)) \<and> vs = map (\<lambda>p. of_nat (dec p)) ps"
      using ps r(3,4) by (intro exI [of _ "takeWhile isdigit bs # ps"] exI [of _ tail]) (cases ps; auto)
  next
    assume "\<exists>ps tail. bs = dots ps @ tail \<and> length ps = Suc n + 1 \<and> (\<forall>p \<in> set ps. plain p) \<and> (tail = [] \<or> isspace_c (hd tail)) \<and> vs = map (\<lambda>p. of_nat (dec p)) ps"
    then obtain ps' tail where ps: "bs = dots ps' @ tail" "length ps' = Suc n + 1" "\<forall>p \<in> set ps'. plain p" "tail = [] \<or> isspace_c (hd tail)"
      "vs = map (\<lambda>p. of_nat (dec p)) ps'" by blast
    then obtain p q ps where "ps' = p # q # ps" by (auto simp: length_Suc_conv)
    then have p: "bs = p @ 46 # (dots (q # ps) @ tail)" "length (q # ps) = n + 1" "plain p" "\<forall>p \<in> set (q # ps). plain p" "tail = [] \<or> isspace_c (hd tail)"
      "vs = of_nat (dec p) # map (\<lambda>p. of_nat (dec p)) (q # ps)" using ps by simp_all
    have "dotted n (dots (q # ps) @ tail) = Some (map (\<lambda>p. of_nat (dec p)) (q # ps))" using p(2,4,5) unfolding Suc.IH by blast
    then show "dotted (Suc n) bs = Some vs" using p(1,3,6) plain_span [of p "46 # (dots (q # ps) @ tail)"] space_not_digit by (simp add: Let_def)
  qed
qed

lemma number_text_step: "base \<ge> 2 \<Longrightarrow> base \<le> n \<Longrightarrow> number_text base n = number_text base (n div base) @ [xdigits_l ! (n mod base)]"
  "base \<ge> 2 \<Longrightarrow> n < base \<Longrightarrow> number_text base n = [xdigits_l ! n]"
  by (subst number_text.simps; simp)+

lemma xdigit_10:
  assumes "d < 10"
  shows "isdigit (xdigits_l ! d)" "unat (xdigits_l ! d) - 48 = d" "xdigits_l ! d = 48 \<longleftrightarrow> d = 0"
proof -
  have "d \<in> {0, 1, 2, 3, 4, 5, 6, 7, 8, 9}" using assms by auto
  then show "isdigit (xdigits_l ! d)" "unat (xdigits_l ! d) - 48 = d" "xdigits_l ! d = 48 \<longleftrightarrow> d = 0"
    by (auto simp: xdigits_l_def isdigit_def)
qed

lemma number_text_10:
  "dec (number_text 10 n) = n \<and> number_text 10 n \<noteq> [] \<and> (\<forall>c \<in> set (number_text 10 n). isdigit c) \<and> (n \<noteq> 0 \<longrightarrow> hd (number_text 10 n) \<noteq> 48)"
proof (induction n rule: less_induct)
  case (less n)
  show ?case
  proof (cases "n < 10")
    case True
    then show ?thesis using xdigit_10 [of n] by (simp add: number_text_step dec_def)
  next
    case False
    then show ?thesis using less.IH [of "n div 10"] xdigit_10 [of "n mod 10"] by (simp add: number_text_step)
  qed
qed

lemma number_text_0: "number_text 10 0 = [48]"
  by (simp add: number_text_step xdigits_l_def)

lemma plain_number_text: "plain (number_text 10 n)"
  using number_text_10 [of n] number_text_0 by (cases "n = 0") (auto simp: plain_def)

definition text4 :: "byte list \<Rightarrow> byte list" where
  "text4 qs = dots (map (\<lambda>q. number_text 10 (unat q)) qs)"

lemma quad_of_text4:
  assumes "length qs = 4"
  shows "quad_of (text4 qs) = Some qs"
proof -
  have "dotted 3 (text4 qs) = Some (map ucast qs)" unfolding dotted_iff
    using assms plain_number_text number_text_10
    by (intro exI [of _ "map (\<lambda>q. number_text 10 (unat q)) qs"] exI [of _ "[]"]) (auto simp: text4_def)
  moreover have "ucast q \<le> (0xff :: 32 word)" "ucast (ucast q :: 32 word) = q" for q :: byte by (auto simp: small_iff bit_eq_iff bit_simps dest: bit_imp_le_length)
  ultimately show ?thesis by (simp add: quad_of_def comp_def)
qed

lemma number_text_length: "2 \<le> base \<Longrightarrow> n < base ^ Suc k \<Longrightarrow> length (number_text base n) \<le> Suc k"
proof (induction k arbitrary: n)
  case 0
  then show ?case by (simp add: number_text_step)
next
  case (Suc k)
  have "n div base < base ^ Suc k" using Suc.prems by (simp add: div_less_iff_less_mult mult.commute)
  then show ?case using Suc.IH [of "n div base"] Suc.prems(1) by (cases "n < base") (simp_all add: number_text_step)
qed

lemma octet_text_length: "length (number_text 10 (unat (q :: byte))) \<le> 3"
proof -
  have "unat q < 1000" by (rule less_trans [of _ 256]) simp_all
  then show ?thesis using number_text_length [of 10 "unat q" 2] by simp
qed

lemma text4_length: "length qs = 4 \<Longrightarrow> length (text4 qs) \<le> 15"
proof -
  assume "length qs = 4"
  then obtain a b c d where qs: "qs = [a, b, c, d]" by (auto simp: numeral_eq_Suc length_Suc_conv)
  from octet_text_length [of a] octet_text_length [of b] octet_text_length [of c] octet_text_length [of d] show ?thesis by (simp add: text4_def qs)
qed

lemma text4_nonzero: "0 \<notin> set (text4 qs)"
proof -
  have "0 \<notin> set (number_text 10 n)" for n using number_text_10 [of n] isdigit_0 by blast
  then have "0 \<notin> set (dots (map (number_text 10 \<circ> unat) qs))" by (induction qs rule: induct_list012) auto
  then show ?thesis by (simp add: text4_def comp_def)
qed

section \<open>Text in local arrays\<close>

lemma snprintf_fits: "length s < room \<Longrightarrow> p + length s < length buf \<Longrightarrow> snprintf_text buf p room s = Some (int (length s), wr buf p (s @ [0]))"
  by (simp add: snprintf_text_def copy_out_wr)

lemma inet_ntop4_text:
  assumes "bytes_at m src qs" "length qs = 4" "length stk = 16" "length (text4 qs) < n \<Longrightarrow> dst + length (text4 qs) < length ob"
  shows "inet_ntop4 stk m src ob dst n = Some (if length (text4 qs) < n then (Some dst, wr ob dst (text4 qs @ [0])) else (NULL, ob))"
proof -
  obtain a b c d where qs: "qs = [a, b, c, d]" using assms(2) by (auto simp: numeral_eq_Suc length_Suc_conv)
  have l: "ld m src = Some a" "ld m (src + 1) = Some b" "ld m (src + 2) = Some c" "ld m (src + 3) = Some d" using assms(1) by (simp_all add: qs numeral_eq_Suc)
  have t: "number_text 10 (unat a) @ [46] @ number_text 10 (unat b) @ [46] @ number_text 10 (unat c) @ [46] @ number_text 10 (unat d) = text4 qs"
    by (simp add: text4_def qs)
  have s: "snprintf_text stk 0 16 (text4 qs) = Some (int (length (text4 qs)), wr stk 0 (text4 qs @ [0]))"
    using snprintf_fits [of "text4 qs" 16 0 stk] text4_length [OF assms(2)] assms(3) by simp
  have "cstr (wr stk 0 (text4 qs @ [0])) 0 (text4 qs)" using cstr_wr_same [of 0 "text4 qs" stk] text4_length [OF assms(2)] assms(3) text4_nonzero by simp
  note c = strlcpy_out_fits [OF this, of n dst ob]
  have "text4 qs \<noteq> []" by (simp add: text4_def qs)
  then show ?thesis using c assms(4) unfolding inet_ntop4_def l t s bind.bind_lunit by simp
qed

end
