(* ===== verification/Inet_Read.thy ===== *)
theory Inet_Read
  imports Inet
begin

text \<open>
  Reading IPv6 addresses with \<open>inet_pton6\<close> of \<open>Inet\<close>: the loop over groups of hexadecimal digits, an embedded IPv4
  address, and the shift of the groups after a double colon.  \<open>reads_as\<close> gives a meaning to the
  text at the end of an address; the facts on it compose from right to left.
\<close>

section \<open>IPv6: reading\<close>

lemma pton6_digit_x: "d < 16 \<Longrightarrow> pton6_digit (xdigits_l ! d) = Some (Some d) \<and> xdigits_l ! d \<noteq> 0"
proof -
  have c: "cstr xdigits_l 0 (take 16 xdigits_l)" by (simp add: xdigits_l_def)
  assume "d < 16"
  then have "d = 0 \<or> d = 1 \<or> d = 2 \<or> d = 3 \<or> d = 4 \<or> d = 5 \<or> d = 6 \<or> d = 7 \<or> d = 8 \<or> d = 9 \<or> d = 10 \<or> d = 11 \<or> d = 12 \<or> d = 13 \<or> d = 14 \<or> d = 15"
    by presburger
  then show ?thesis using strchr_cstr [OF c, of "xdigits_l ! d"] by (auto simp: pton6_digit_def xdigits_l_def)
qed

lemma pton6_digit_sep: "pton6_digit 58 = Some NULL" "pton6_digit 46 = Some NULL"
  by (simp_all add: pton6_digit_def xdigits_l_def xdigits_u_def strchr.simps)

lemma pton6_loop_digit:
  assumes "cstr m src (xdigits_l ! d # rest)" "d < 16" "p6_seen z < 4"
  shows "pton6_loop m src cur z = pton6_loop m (src + 1) cur (z\<lparr>p6_val := push_bit 4 (p6_val z) OR of_nat d, p6_seen := p6_seen z + 1\<rparr>)"
  using assms pton6_digit_x [OF assms(2)] by (subst pton6_loop.simps) (simp add: Let_def)

lemma shift_digit: "b < 16 \<Longrightarrow> push_bit 4 (of_nat a) OR of_nat b = (of_nat (16 * a + b) :: 32 word)"
proof -
  assume b: "b < 16"
  have "take_bit 4 b = b" using b by (simp add: take_bit_nat_eq_self)
  then have "\<not> bit b n" if "4 \<le> n" for n using that by (metis bit_take_bit_iff not_le)
  then have "push_bit 4 a AND b = 0" by (intro bit_eqI) (auto simp: bit_simps)
  from disjunctive_add_eq_or [OF this] have eq: "16 * a + b = push_bit 4 a OR b" by (simp add: push_bit_eq_mult mult.commute)
  show ?thesis unfolding eq by (auto simp: bit_eq_iff bit_simps)
qed

lemma pton6_loop_number:
  assumes "cstr m src (number_text 16 n @ rest)" "n < 65536" "p6_seen z = 0" "p6_val z = 0"
  shows "pton6_loop m src cur z = pton6_loop m (src + length (number_text 16 n)) cur (z\<lparr>p6_val := of_nat n, p6_seen := length (number_text 16 n)\<rparr>)"
  using assms(1,2)
proof (induction n arbitrary: rest rule: less_induct)
  case (less n)
  show ?case
  proof (cases "n < 16")
    case True
    then have t: "number_text 16 n = [xdigits_l ! n]" by (simp add: number_text_step)
    then show ?thesis using pton6_loop_digit [of m src n rest z cur] True less.prems(1) assms(3,4) by simp
  next
    case False
    let ?t = "number_text 16 (n div 16)" and ?d = "xdigits_l ! (n mod 16)"
    have t: "number_text 16 n = ?t @ [?d]" using False by (simp add: number_text_step)
    have l: "length ?t \<le> 3" using number_text_length [of 16 "n div 16" 2] less.prems(2) by simp
    have c: "cstr m src (?t @ ?d # rest)" using less.prems(1) by (simp add: t)
    have d: "cstr m (src + length ?t) (?d # rest)" using cstr_drop [OF c, of "length ?t"] by simp
    have v: "push_bit 4 (of_nat (n div 16)) OR of_nat (n mod 16) = (of_nat n :: 32 word)" using shift_digit [of "n mod 16" "n div 16"] by simp
    show ?thesis using less.IH [OF _ c] False less.prems(2) pton6_loop_digit [OF d, of "z\<lparr>p6_val := of_nat (n div 16), p6_seen := length ?t\<rparr>" cur] l v
      by (simp add: t)
  qed
qed

definition be2 :: "nat \<Rightarrow> byte list" where
  "be2 n = [of_nat (n div 256), of_nat n]"

lemma length_be2 [simp]: "length (be2 n) = 2"
  by (simp add: be2_def)

lemma pton6_put_be2:
  assumes "tp + 2 \<le> length tmp" "n < 65536"
  shows "pton6_put tmp tp (of_nat n) = Some (wr tmp tp (be2 n))"
proof -
  have "n div 256 = drop_bit 8 n" by (simp add: drop_bit_eq_div)
  then have "ucast (drop_bit 8 (of_nat n :: 32 word)) = (of_nat (n div 256) :: byte)" by (simp add: bit_eq_iff bit_simps)
  moreover have "x AND 0xff = x" for x :: byte
  proof -
    have ff: "(0xff :: byte) = - 1" by simp
    show ?thesis by (simp only: ff and.right_neutral)
  qed
  moreover have "ucast (of_nat n :: 32 word) = (of_nat n :: byte)" by (simp add: bit_eq_iff bit_simps)
  ultimately show ?thesis using assms(1) by (simp add: pton6_put_def be2_def st_def)
qed

lemma p6_reset: "p6_seen z = 0 \<Longrightarrow> p6_val z = 0 \<Longrightarrow> z\<lparr>p6_tmp := a, p6_tp := b, p6_seen := 0, p6_val := 0\<rparr> = z\<lparr>p6_tmp := a, p6_tp := b\<rparr>"
  by (cases z) simp

lemma pton6_loop_group:
  assumes "cstr m src (number_text 16 n @ 58 # rest)" "n < 65536" "rest \<noteq> []" "p6_seen z = 0" "p6_val z = 0" "length (p6_tmp z) = 16" "p6_tp z + 2 \<le> 16"
  shows "pton6_loop m src cur z = pton6_loop m (src + length (number_text 16 n @ [58])) (src + length (number_text 16 n @ [58]))
    (z\<lparr>p6_tmp := wr (p6_tmp z) (p6_tp z) (be2 n), p6_tp := p6_tp z + 2\<rparr>)"
proof -
  let ?l = "length (number_text 16 n)"
  have c: "cstr m (src + ?l) (58 # rest)" using cstr_drop [OF assms(1), of ?l] by simp
  then obtain x where x: "ld m (src + ?l + 1) = Some x" "x \<noteq> 0" using assms(3) by (cases rest) auto
  have "number_text 16 n \<noteq> []" by (subst number_text.simps) simp
  then show ?thesis using pton6_loop_number [OF assms(1,2,4,5), of cur] pton6_put_be2 [of "p6_tp z" "p6_tmp z" n] c x pton6_digit_sep(1) assms
    by (subst (asm) (2) pton6_loop.simps) (simp add: NS_IN6ADDRSZ_def p6_reset)
qed

definition groups_text :: "nat list \<Rightarrow> byte list" where
  "groups_text gs = concat (map (\<lambda>n. number_text 16 n @ [58]) gs)"

definition groups_bytes :: "nat list \<Rightarrow> byte list" where
  "groups_bytes gs = concat (map be2 gs)"

lemma groups_simps [simp]: "groups_text [] = []" "groups_text (g # gs) = number_text 16 g @ 58 # groups_text gs" "groups_text (gs @ hs) = groups_text gs @ groups_text hs"
  "groups_bytes [] = []" "groups_bytes (g # gs) = be2 g @ groups_bytes gs" "groups_bytes (gs @ hs) = groups_bytes gs @ groups_bytes hs" "length (groups_bytes gs) = 2 * length gs"
  by (simp_all add: groups_text_def groups_bytes_def) (induction gs; simp)

definition group_list :: "nat list \<Rightarrow> bool" where
  "group_list gs \<longleftrightarrow> (\<forall>g \<in> set gs. g < 65536)"

lemma pton6_loop_groups:
  assumes "cstr m src (groups_text gs @ rest)" "group_list gs" "rest \<noteq> []" "p6_seen z = 0" "p6_val z = 0" "length (p6_tmp z) = 16" "p6_tp z + 2 * length gs \<le> 16"
  shows "pton6_loop m src src z = pton6_loop m (src + length (groups_text gs)) (src + length (groups_text gs))
    (z\<lparr>p6_tmp := wr (p6_tmp z) (p6_tp z) (groups_bytes gs), p6_tp := p6_tp z + 2 * length gs\<rparr>)"
  using assms
proof (induction gs arbitrary: src z)
  case (Cons g gs)
  let ?s = "src + length (number_text 16 g @ [58])" and ?z = "z\<lparr>p6_tmp := wr (p6_tmp z) (p6_tp z) (be2 g), p6_tp := p6_tp z + 2\<rparr>"
  have c: "cstr m src (number_text 16 g @ 58 # (groups_text gs @ rest))" using Cons.prems(1) by simp
  have "cstr m ?s (groups_text gs @ rest)" using cstr_drop [OF c, of "length (number_text 16 g @ [58])"] by simp
  from Cons.IH [OF this, of ?z] have "pton6_loop m ?s ?s ?z = pton6_loop m (?s + length (groups_text gs)) (?s + length (groups_text gs))
    (?z\<lparr>p6_tmp := wr (p6_tmp ?z) (p6_tp ?z) (groups_bytes gs), p6_tp := p6_tp ?z + 2 * length gs\<rparr>)" using Cons.prems by (simp add: group_list_def)
  moreover have "pton6_loop m src src z = pton6_loop m ?s ?s ?z" using Cons.prems by (intro pton6_loop_group [OF c]) (auto simp: group_list_def)
  ultimately show ?case by (simp add: wr_append ac_simps)
qed (cases z; simp)

lemma pton6_loop_colon:
  assumes "cstr m src (58 # rest)" "p6_seen z = 0" "p6_colonp z = NULL"
  shows "pton6_loop m src cur z = pton6_loop m (src + 1) (src + 1) (z\<lparr>p6_colonp := Some (p6_tp z)\<rparr>)"
  using assms pton6_digit_sep(1) by (subst pton6_loop.simps) simp

lemma pton6_loop_end: "cstr m src [] \<Longrightarrow> pton6_loop m src cur z = Some (Some z)"
  by (subst pton6_loop.simps) simp

lemma pton6_loop_last:
  assumes "cstr m src (number_text 16 n)" "n < 65536" "p6_seen z = 0" "p6_val z = 0"
  shows "pton6_loop m src cur z = Some (Some (z\<lparr>p6_val := of_nat n, p6_seen := length (number_text 16 n)\<rparr>))"
proof -
  have "cstr m (src + length (number_text 16 n)) []" using cstr_drop [OF assms(1), of "length (number_text 16 n)"] by simp
  then show ?thesis using pton6_loop_number [of m src n "[]" z cur] assms pton6_loop_end by simp
qed

lemma isdigit_xdigit: "isdigit c \<Longrightarrow> \<exists>d < 16. c = xdigits_l ! d"
proof -
  assume "isdigit c"
  then have "48 \<le> unat c" "unat c \<le> 57" by (simp_all add: isdigit_def word_le_nat_alt)
  then have "unat c = 48 \<or> unat c = 49 \<or> unat c = 50 \<or> unat c = 51 \<or> unat c = 52 \<or> unat c = 53 \<or> unat c = 54 \<or> unat c = 55 \<or> unat c = 56 \<or> unat c = 57"
    by presburger
  then have "c = xdigits_l ! (unat c - 48)" by (auto simp: word_unat_eq_iff xdigits_l_def)
  then show ?thesis using \<open>unat c \<le> 57\<close> by (intro exI [of _ "unat c - 48"]) simp
qed

lemma pton6_loop_decimal:
  assumes "cstr m src (h @ rest)" "\<And>c. c \<in> set h \<Longrightarrow> isdigit c" "p6_seen z + length h \<le> 4"
  shows "\<exists>v. pton6_loop m src cur z = pton6_loop m (src + length h) cur (z\<lparr>p6_val := v, p6_seen := p6_seen z + length h\<rparr>)"
  using assms
proof (induction h arbitrary: src z)
  case Nil
  show ?case by (intro exI [of _ "p6_val z"]) (cases z, simp)
next
  case (Cons c h)
  obtain d where d: "d < 16" "c = xdigits_l ! d" using isdigit_xdigit Cons.prems(2) by auto
  let ?z = "z\<lparr>p6_val := push_bit 4 (p6_val z) OR of_nat d, p6_seen := p6_seen z + 1\<rparr>"
  have "pton6_loop m src cur z = pton6_loop m (src + 1) cur ?z" using Cons.prems(1,3) d by (intro pton6_loop_digit [of m src d "h @ rest"]) auto
  moreover obtain v where "pton6_loop m (src + 1) cur ?z = pton6_loop m (src + 1 + length h) cur (?z\<lparr>p6_val := v, p6_seen := p6_seen ?z + length h\<rparr>)"
    using Cons.IH [of "src + 1" ?z] Cons.prems by auto
  ultimately show ?case by (intro exI [of _ v]) simp
qed

lemma pton6_loop_v4:
  assumes "cstr m src (text4 qs)" "length qs = 4" "p6_seen z = 0" "length (p6_tmp z) = 16" "p6_tp z + 4 \<le> 16"
  shows "\<exists>v. pton6_loop m src src z = Some (Some (z\<lparr>p6_tmp := wr (p6_tmp z) (p6_tp z) qs, p6_tp := p6_tp z + 4, p6_seen := 0, p6_val := v\<rparr>))"
proof -
  obtain a b c d where "qs = [a, b, c, d]" using assms(2) by (auto simp: numeral_eq_Suc length_Suc_conv)
  then obtain qs' where qs: "qs = a # qs'" "qs' \<noteq> []" by simp
  define h where "h = number_text 10 (unat a)"
  obtain rest where t: "text4 qs = h @ 46 # rest" using qs by (cases qs') (auto simp: text4_def h_def)
  have h: "\<And>c. c \<in> set h \<Longrightarrow> isdigit c" "length h \<le> 3" using number_text_10 [of "unat a"] octet_text_length [of a] by (auto simp: h_def)
  obtain v where v: "pton6_loop m src src z = pton6_loop m (src + length h) src (z\<lparr>p6_val := v, p6_seen := length h\<rparr>)"
    using pton6_loop_decimal [of m src h "46 # rest" z src] assms(1,3) h t by auto
  have "ld m (src + length h) = Some 46" using cstr_drop [OF assms(1), of "length h"] by (simp add: t)
  moreover have "inet_pton4 m src (p6_tmp z) (p6_tp z) True = Some (1, wr (p6_tmp z) (p6_tp z) qs)"
    using inet_pton4_quad [OF assms(1)] quad_of_text4 [OF assms(2)] assms(4,5) by simp
  ultimately have "pton6_loop m (src + length h) src (z\<lparr>p6_val := v, p6_seen := length h\<rparr>) =
      Some (Some (z\<lparr>p6_tmp := wr (p6_tmp z) (p6_tp z) qs, p6_tp := p6_tp z + 4, p6_seen := 0, p6_val := v\<rparr>))"
    using pton6_digit_sep(2) assms(5) by (subst pton6_loop.simps) (simp add: NS_IN6ADDRSZ_def)
  then show ?thesis using v by auto
qed

lemma pton6_shift_run:
  assumes "length A + length B + k + length C = 16" "0 < k" "i = length C + 1" "n = length B + length C"
  shows "pton6_shift (A @ B @ replicate k 0 @ C) (length A) n i = Some (A @ replicate k 0 @ B @ C)"
  using assms
proof (induction B arbitrary: C i n rule: rev_induct)
  case Nil
  then show ?case by (subst pton6_shift.simps) simp
next
  case (snoc b B)
  have "pton6_shift (A @ (B @ [b]) @ replicate k 0 @ C) (length A) n i = pton6_shift (A @ B @ replicate k 0 @ (b # C)) (length A) n (i + 1)"
  proof -
    let ?t = "A @ (B @ [b]) @ replicate k 0 @ C"
    have p: "length A + (n - i) = length (A @ B)" "NS_IN6ADDRSZ - i = length (A @ B @ [b] @ replicate (k - 1) 0)" "i \<le> n"
      using snoc.prems by (simp_all add: NS_IN6ADDRSZ_def)
    have k: "replicate k (0 :: byte) = replicate (k - 1) 0 @ [0]" using snoc.prems(2) by (metis Suc_pred' replicate_Suc replicate_append_same)
    have 1: "ld ?t (length A + (n - i)) = Some b" unfolding p(1) by (simp add: ld_def nth_append)
    have 2: "st ?t (NS_IN6ADDRSZ - i) b = Some (A @ (B @ [b]) @ replicate (k - 1) 0 @ b # C)" unfolding p(2) k
      by (simp add: st_def list_update_append nth_append split: nat.split)
    have 3: "st (A @ (B @ [b]) @ replicate (k - 1) 0 @ b # C) (length A + (n - i)) 0 = Some (A @ B @ 0 # replicate (k - 1) 0 @ b # C)" unfolding p(1)
      by (simp add: st_def list_update_append)
    have 4: "0 # replicate (k - 1) 0 = replicate k (0 :: byte)" using snoc.prems(2) by (metis Suc_pred' replicate_Suc)
    have 5: "A @ B @ 0 # replicate (k - 1) 0 @ b # C = A @ B @ replicate k 0 @ (b # C)" by (metis 4 append_Cons)
    show ?thesis using p(3) 1 2 3 [unfolded 5] by (subst pton6_shift.simps) simp
  qed
  then show ?case using snoc.IH [of "b # C" "i + 1" n] snoc.prems by simp
qed

text \<open>The text \<open>P\<close> at the end of an address stands for the bytes \<open>bs\<close>; a last group is still in the accumulator.\<close>

definition finishes :: "pton6 \<Rightarrow> mem \<Rightarrow> nat \<Rightarrow> bool" where
  "finishes z tmp tp \<longleftrightarrow> (if p6_seen z \<noteq> 0 then p6_tp z + 2 = tp \<and> pton6_put (p6_tmp z) (p6_tp z) (p6_val z) = Some tmp
     else p6_tp z = tp \<and> p6_tmp z = tmp)"

definition reads_as :: "byte list \<Rightarrow> byte list \<Rightarrow> bool" where
  "reads_as P bs \<longleftrightarrow> (\<forall>m src z. cstr m src P \<longrightarrow> p6_seen z = 0 \<longrightarrow> p6_val z = 0 \<longrightarrow> length (p6_tmp z) = 16 \<longrightarrow> p6_tp z + length bs \<le> 16 \<longrightarrow>
    (\<exists>z'. pton6_loop m src src z = Some (Some z') \<and> p6_colonp z' = p6_colonp z \<and> finishes z' (wr (p6_tmp z) (p6_tp z) bs) (p6_tp z + length bs)))"

lemma reads_asD:
  assumes "reads_as P bs" "cstr m src P" "p6_seen z = 0" "p6_val z = 0" "length (p6_tmp z) = 16" "p6_tp z + length bs \<le> 16"
  obtains z' where "pton6_loop m src src z = Some (Some z')" "p6_colonp z' = p6_colonp z" "finishes z' (wr (p6_tmp z) (p6_tp z) bs) (p6_tp z + length bs)"
  using assms unfolding reads_as_def by blast

lemma reads_empty: "reads_as [] []"
  by (simp add: reads_as_def pton6_loop_end finishes_def)

lemma number_text_nonempty: "number_text b n \<noteq> []"
  by (subst number_text.simps) simp

lemma reads_last: "g < 65536 \<Longrightarrow> reads_as (number_text 16 g) (be2 g)"
  using pton6_loop_last pton6_put_be2 number_text_nonempty by (auto simp: reads_as_def finishes_def)

lemma reads_v4: "length qs = 4 \<Longrightarrow> reads_as (text4 qs) qs"
proof -
  assume q: "length qs = 4"
  have "\<exists>z'. pton6_loop m src src z = Some (Some z') \<and> p6_colonp z' = p6_colonp z \<and> finishes z' (wr (p6_tmp z) (p6_tp z) qs) (p6_tp z + length qs)"
    if "cstr m src (text4 qs)" "p6_seen z = 0" "length (p6_tmp z) = 16" "p6_tp z + length qs \<le> 16" for m src z
    using pton6_loop_v4 [OF that(1) q that(2,3)] that(4) q by (auto simp: finishes_def)
  then show ?thesis by (simp add: reads_as_def)
qed

lemma reads_groups:
  assumes "reads_as P bs" "group_list gs" "P \<noteq> []"
  shows "reads_as (groups_text gs @ P) (groups_bytes gs @ bs)"
  unfolding reads_as_def
proof (intro allI impI)
  fix m src and z :: pton6
  assume a: "cstr m src (groups_text gs @ P)" "p6_seen z = 0" "p6_val z = 0" "length (p6_tmp z) = 16" "p6_tp z + length (groups_bytes gs @ bs) \<le> 16"
  let ?s = "src + length (groups_text gs)" and ?z = "z\<lparr>p6_tmp := wr (p6_tmp z) (p6_tp z) (groups_bytes gs), p6_tp := p6_tp z + 2 * length gs\<rparr>"
  have l: "pton6_loop m src src z = pton6_loop m ?s ?s ?z" using a assms(2,3) by (intro pton6_loop_groups [of m src gs P]) auto
  have c: "cstr m ?s P" using a cstr_drop [of m src "groups_text gs @ P" "length (groups_text gs)"] by auto
  obtain z' where "pton6_loop m ?s ?s ?z = Some (Some z')" "p6_colonp z' = p6_colonp ?z" "finishes z' (wr (p6_tmp ?z) (p6_tp ?z) bs) (p6_tp ?z + length bs)"
    by (rule reads_asD [OF assms(1) c, of ?z]) (use a in auto)
  then show "\<exists>z'. pton6_loop m src src z = Some (Some z') \<and> p6_colonp z' = p6_colonp z \<and>
      finishes z' (wr (p6_tmp z) (p6_tp z) (groups_bytes gs @ bs)) (p6_tp z + length (groups_bytes gs @ bs))"
    using l by (intro exI [of _ z']) (simp add: wr_append ac_simps)
qed

abbreviation p6_start :: pton6 where
  "p6_start \<equiv> \<lparr>p6_tmp = replicate 16 0, p6_tp = 0, p6_colonp = NULL, p6_seen = 0, p6_val = 0\<rparr>"

lemma inet_pton6_run:
  assumes "ld m src = Some c" "c = 58 \<Longrightarrow> ld m (src + 1) = Some 58" "s = (if c = 58 then src + 1 else src)" "pton6_loop m s s p6_start = Some (Some z)"
    "finishes z tmp tp" "tp \<le> 16"
  shows "inet_pton6 m src dst = (case p6_colonp z of
      Some colonp \<Rightarrow> if tp = 16 then Some (0, m)
        else do { tmp \<leftarrow> pton6_shift tmp colonp (tp - colonp) 1; m \<leftarrow> copy_out m dst tmp; Some (1, m) }
    | None \<Rightarrow> if tp \<noteq> 16 then Some (0, m) else do { m \<leftarrow> copy_out m dst tmp; Some (1, m) })"
proof -
  have h: "(if c = 58 then do { c \<leftarrow> ld m (src + 1); Some (if c \<noteq> 58 then None else Some (src + 1)) } else Some (Some src)) = Some (Some s)"
    using assms(2,3) by simp
  show ?thesis using assms(4-6) unfolding inet_pton6_def assms(1) bind.bind_lunit h
    by (cases "p6_seen z = 0") (auto simp: finishes_def NS_IN6ADDRSZ_def split: option.split)
qed

lemma inet_pton6_full:
  assumes "cstr m src P" "reads_as P bs" "length bs = 16" "hd P \<noteq> 58" "P \<noteq> []" "dst + 16 \<le> length m"
  shows "inet_pton6 m src dst = Some (1, wr m dst bs)"
proof -
  have c: "ld m src = Some (hd P)" using assms(1,5) by (cases P) auto
  obtain z where z: "pton6_loop m src src p6_start = Some (Some z)" "p6_colonp z = NULL" "finishes z (wr (replicate 16 0) 0 bs) 16"
    by (rule reads_asD [OF assms(2,1), of p6_start]) (use assms(3) in auto)
  have w: "wr (replicate 16 0) 0 bs = bs" using assms(3) by (simp add: wr_conv)
  have o': "copy_out m dst bs = Some (wr m dst bs)" using copy_out_wr [of dst bs m] assms(3,6) by simp
  show ?thesis using inet_pton6_run [OF c _ _ z(1) z(3)] z(2) w o' assms(4) by simp
qed

lemma number_text_hd: "\<exists>c t. number_text 16 g = c # t \<and> c \<noteq> 58 \<and> c \<noteq> 0"
proof (induction g rule: less_induct)
  case (less g)
  have x: "xdigits_l ! d \<noteq> 58 \<and> xdigits_l ! d \<noteq> 0" if "d < 16" for d using pton6_digit_x [OF that] pton6_digit_sep(1) by auto
  show ?case
  proof (cases "g < 16")
    case True
    then show ?thesis using x by (simp add: number_text_step)
  next
    case False
    then show ?thesis using less.IH [of "g div 16"] by (auto simp: number_text_step)
  qed
qed

lemma inet_pton6_compressed:
  assumes "cstr m src ((if pre = [] then [58] else []) @ groups_text pre @ 58 # P)" "reads_as P bs" "group_list pre" "2 * length pre + length bs < 16"
    "dst + 16 \<le> length m"
  shows "inet_pton6 m src dst = Some (1, wr m dst (groups_bytes pre @ replicate (16 - 2 * length pre - length bs) 0 @ bs))"
proof -
  define s where "s = (if pre = [] then src + 1 else src)"
  define A where "A = groups_bytes pre"
  define k where "k = 16 - 2 * length pre - length bs"
  have len: "length A = 2 * length pre" "length A + length bs + k = 16" "0 < k" using assms(4) by (simp_all add: A_def k_def)
  have cs: "cstr m s (groups_text pre @ 58 # P)" using assms(1) by (cases "pre = []") (simp_all add: s_def)
  obtain c where c: "ld m src = Some c" "c = 58 \<longleftrightarrow> pre = []" "pre = [] \<Longrightarrow> ld m (src + 1) = Some 58"
    using assms(1) number_text_hd [of "hd pre"] by (cases pre) auto
  let ?s = "s + length (groups_text pre)"
  let ?z = "p6_start\<lparr>p6_tmp := wr (replicate 16 0) 0 A, p6_tp := length A\<rparr>"
  have "pton6_loop m s s p6_start = pton6_loop m ?s ?s ?z" using pton6_loop_groups [OF cs assms(3), of p6_start] assms(4) len(1) by (simp add: A_def)
  also have c1: "cstr m ?s (58 # P)" using cstr_drop [OF cs, of "length (groups_text pre)"] by simp
  have "pton6_loop m ?s ?s ?z = pton6_loop m (?s + 1) (?s + 1) (?z\<lparr>p6_colonp := Some (length A)\<rparr>)" using pton6_loop_colon [OF c1, of ?z ?s] by simp
  finally have loop: "pton6_loop m s s p6_start = pton6_loop m (?s + 1) (?s + 1) (?z\<lparr>p6_colonp := Some (length A)\<rparr>)" .
  have c2: "cstr m (?s + 1) P" using c1 by simp
  obtain z where z: "pton6_loop m s s p6_start = Some (Some z)" "p6_colonp z = Some (length A)" "finishes z (wr (wr (replicate 16 0) 0 A) (length A) bs) (length A + length bs)"
    unfolding loop by (rule reads_asD [OF assms(2) c2, of "?z\<lparr>p6_colonp := Some (length A)\<rparr>"]) (use len in auto)
  have w: "wr (wr (replicate 16 0) 0 A) (length A) bs = A @ bs @ replicate k 0"
    unfolding wr_append [of _ 0 A bs, simplified, symmetric] using len by (simp add: wr_conv)
  have sh: "pton6_shift (A @ bs @ replicate k 0) (length A) (length bs) 1 = Some (A @ replicate k 0 @ bs)"
    using pton6_shift_run [of A bs k "[]" 1 "length bs"] len by simp
  have o': "copy_out m dst (A @ replicate k 0 @ bs) = Some (wr m dst (A @ replicate k 0 @ bs))" using copy_out_wr [of dst "A @ replicate k 0 @ bs" m] len assms(5) by simp
  have "inet_pton6 m src dst = Some (1, wr m dst (A @ replicate k 0 @ bs))"
    using inet_pton6_run [OF c(1) _ _ z(1,3)] c z(2) w sh o' len by (simp add: s_def)
  then show ?thesis by (simp add: A_def k_def)
qed

end
