(* ===== verification/Inet_Write.thy ===== *)
theory Inet_Write
  imports Inet_Read
begin

text \<open>
  Writing IPv6 addresses with \<open>inet_ntop6\<close> of \<open>Inet\<close>: the search for the run of zero groups, the text that the loop
  produces in its local array, and that \<open>inet_pton6\<close> reads this text as the same address.  The properties of both
  directions are at the end.
\<close>

section \<open>IPv6: writing\<close>

lemma ntop6_words_loop:
  assumes "bytes_at m src bs" "length bs = 16" "i \<le> 8" "length ws = 8" "\<And>j. i \<le> j \<Longrightarrow> j < 8 \<Longrightarrow> ws ! j = 0"
  shows "ntop6_words m src (2 * i) ws = Some (take i ws @ map (\<lambda>j. push_bit 8 (ucast (bs ! (2 * j))) OR ucast (bs ! (2 * j + 1))) [i..<8])"
  using assms(3-5)
proof (induction "8 - i" arbitrary: i ws)
  case 0
  then show ?case by (subst ntop6_words.simps) (simp add: NS_IN6ADDRSZ_def)
next
  case (Suc k)
  then have i: "i < 8" by simp
  let ?w = "push_bit 8 (ucast (bs ! (2 * i))) OR ucast (bs ! (2 * i + 1)) :: 32 word"
  have L: "ld m (src + j) = Some (bs ! j)" if "j < 16" for j using assms(1,2) that by (simp add: bytes_at_nth)
  have ld: "ld m (src + 2 * i) = Some (bs ! (2 * i))" "ld m (src + (2 * i + 1)) = Some (bs ! (2 * i + 1))" by (rule L; use i in simp)+
  have "ntop6_words m src (2 * i) ws = ntop6_words m src (2 * (i + 1)) (ws[i := ?w])"
    using ld i Suc.prems by (subst ntop6_words.simps, subst ntop6_words.simps) (simp add: NS_IN6ADDRSZ_def)
  also have "\<dots> = Some (take (i + 1) (ws[i := ?w]) @ map (\<lambda>j. push_bit 8 (ucast (bs ! (2 * j))) OR ucast (bs ! (2 * j + 1))) [i + 1..<8])"
    using Suc by (intro Suc.hyps) auto
  also have "take (i + 1) (ws[i := ?w]) = take i ws @ [?w]" using i Suc.prems(2) by (simp add: take_Suc_conv_app_nth)
  finally show ?case using i by (simp add: upt_conv_Cons)
qed

lemma ntop6_words_groups:
  assumes "bytes_at m src (groups_bytes gs)" "length gs = 8" "group_list gs"
  shows "ntop6_words m src 0 (replicate 8 0) = Some (map of_nat gs)"
proof -
  have nth: "groups_bytes gs ! (2 * j) = of_nat (gs ! j div 256) \<and> groups_bytes gs ! (2 * j + 1) = of_nat (gs ! j)" if "j < length gs" for j gs
    using that
  proof (induction gs arbitrary: j)
    case (Cons g gs)
    then show ?case by (cases j) (auto simp: be2_def)
  qed simp
  have W: "push_bit 8 (ucast (of_nat (g div 256) :: byte)) OR ucast (of_nat g :: byte) = (of_nat g :: 32 word)" if "g < 65536" for g
  proof -
    have "take_bit 16 g = g" using that by (simp add: take_bit_nat_eq_self)
    then have "n < 16" if "bit g n" for n using that by (metis bit_take_bit_iff)
    moreover have "g div 256 = drop_bit 8 g" by (simp add: drop_bit_eq_div)
    ultimately show ?thesis by (fastforce simp: bit_eq_iff bit_simps)
  qed
  have "push_bit 8 (ucast (groups_bytes gs ! (2 * j))) OR ucast (groups_bytes gs ! (2 * j + 1)) = (of_nat (gs ! j) :: 32 word)" if "j < 8" for j
    using W [of "gs ! j"] nth [of j gs] that assms(2,3) by (simp add: group_list_def)
  then have "map (\<lambda>j. push_bit 8 (ucast (groups_bytes gs ! (2 * j))) OR ucast (groups_bytes gs ! (2 * j + 1))) [0..<8] = (map of_nat gs :: 32 word list)"
    using assms(2) by (intro nth_equalityI) simp_all
  then show ?thesis using ntop6_words_loop [OF assms(1), of 0 "replicate 8 0"] assms(2) by simp
qed

text \<open>The run that is left out: no run, or one of at least two groups, all of them zero.\<close>

definition run_ok :: "32 word list \<Rightarrow> run \<Rightarrow> bool" where
  "run_ok ws r \<longleftrightarrow> run_base r = - 1 \<or> 0 \<le> run_base r \<and> 1 \<le> run_len r \<and> run_base r + run_len r \<le> int (length ws) \<and>
    (\<forall>j. run_base r \<le> int j \<longrightarrow> int j < run_base r + run_len r \<longrightarrow> ws ! j = 0)"

lemma run_ok_append: "run_ok us r \<Longrightarrow> run_ok (us @ vs) r"
  by (auto simp: run_ok_def nth_append)

lemma run_ok_better: "run_ok ws best \<Longrightarrow> run_ok ws cur \<Longrightarrow> run_ok ws (ntop6_better best cur)"
  by (simp add: ntop6_better_def)

lemma run_ok_extend:
  assumes "run_ok us cur" "run_base cur \<noteq> - 1" "run_base cur + run_len cur = int (length us)"
  shows "run_ok (us @ [0]) (cur\<lparr>run_len := run_len cur + 1\<rparr>)"
proof -
  have "(us @ [0]) ! j = 0" if "run_base cur \<le> int j" "int j < run_base cur + run_len cur + 1" for j
    using assms that by (cases "j < length us") (auto simp: run_ok_def nth_append)
  then show ?thesis using assms by (auto simp: run_ok_def)
qed

lemma ntop6_runs_ok:
  assumes "run_ok (us @ ws) best" "run_ok us cur" "run_base cur \<noteq> - 1 \<Longrightarrow> run_base cur + run_len cur = int (length us)" "i = int (length us)"
  shows "run_ok (us @ ws) (fst (ntop6_runs ws i best cur)) \<and> run_ok (us @ ws) (snd (ntop6_runs ws i best cur))"
  using assms
proof (induction ws arbitrary: us i best cur)
  case (Cons w ws)
  have app: "us @ w # ws = (us @ [w]) @ ws" by simp
  consider "w = 0" "run_base cur = - 1" | "w = 0" "run_base cur \<noteq> - 1" | "w \<noteq> 0" "run_base cur \<noteq> - 1" | "w \<noteq> 0" "run_base cur = - 1" by blast
  then show ?case
  proof cases
    case 1
    have "run_ok (us @ [w]) (cur\<lparr>run_base := i, run_len := 1\<rparr>)" using 1 Cons.prems(4) by (auto simp: run_ok_def nth_append)
    then show ?thesis using Cons.IH [of "us @ [w]" best "cur\<lparr>run_base := i, run_len := 1\<rparr>" "i + 1"] Cons.prems 1 by simp
  next
    case 2
    then show ?thesis using Cons.IH [of "us @ [w]" best "cur\<lparr>run_len := run_len cur + 1\<rparr>" "i + 1"] run_ok_extend [OF Cons.prems(2)] Cons.prems by simp
  next
    case 3
    have "run_ok (us @ w # ws) (ntop6_better best cur)" using run_ok_better [OF Cons.prems(1)] run_ok_append [OF Cons.prems(2)] by simp
    moreover have "run_ok (us @ [w]) (cur\<lparr>run_base := - 1\<rparr>)" by (simp add: run_ok_def)
    ultimately show ?thesis using Cons.IH [of "us @ [w]" "ntop6_better best cur" "cur\<lparr>run_base := - 1\<rparr>" "i + 1"] Cons.prems(4) 3 by simp
  next
    case 4
    then show ?thesis using Cons.IH [of "us @ [w]" best cur "i + 1"] Cons.prems by (simp add: run_ok_def)
  qed
qed (simp add: run_ok_append)

lemma ntop6_best_ok: "run_ok ws (ntop6_best ws)" "run_base (ntop6_best ws) \<noteq> - 1 \<Longrightarrow> 2 \<le> run_len (ntop6_best ws)"
proof -
  let ?r = "\<lparr>run_base = - 1, run_len = 0\<rparr>"
  obtain best cur where r: "ntop6_runs ws 0 ?r ?r = (best, cur)" by (cases "ntop6_runs ws 0 ?r ?r")
  have "run_ok ws best" "run_ok ws cur" using ntop6_runs_ok [of "[]" ws ?r ?r 0] r by (simp_all add: run_ok_def)
  then have "run_ok ws (if run_base cur \<noteq> - 1 then ntop6_better best cur else best)" using run_ok_better by simp
  then show "run_ok ws (ntop6_best ws)" "run_base (ntop6_best ws) \<noteq> - 1 \<Longrightarrow> 2 \<le> run_len (ntop6_best ws)"
    by (auto simp: ntop6_best_def r Let_def run_ok_def)
qed

text \<open>The text that \<open>inet_ntop6\<close> writes from group \<open>i\<close> on; \<open>qs\<close> are the last four bytes.\<close>

definition in_run :: "run \<Rightarrow> nat \<Rightarrow> bool" where
  "in_run best i \<longleftrightarrow> run_base best \<noteq> - 1 \<and> int i \<ge> run_base best \<and> int i < run_base best + run_len best"

function text_from :: "nat list \<Rightarrow> byte list \<Rightarrow> run \<Rightarrow> nat \<Rightarrow> byte list" where
  "text_from gs qs best i =
     (if i \<ge> 8 then []
      else if in_run best i then (if int i = run_base best then [58] else []) @ text_from gs qs best (i + 1)
      else (if i \<noteq> 0 then [58] else []) @
        (if ntop6_v4 (map of_nat gs) best i then text4 qs else number_text 16 (gs ! i) @ text_from gs qs best (i + 1)))"
  by pat_completeness auto
termination
  by (relation "measure (\<lambda>(gs, qs, best, i). 8 - i)") auto

declare text_from.simps [simp del]

definition holds_text :: "mem \<Rightarrow> nat \<Rightarrow> byte list \<Rightarrow> bool" where
  "holds_text tmp tp out \<longleftrightarrow> length tmp = NTOP6_TMP \<and> tp = length out \<and> tp \<le> NTOP6_TMP \<and> take tp tmp = out"

lemma holds_text_wr:
  assumes "holds_text tmp tp out" "tp + length s \<le> NTOP6_TMP"
  shows "holds_text (wr tmp tp s) (tp + length s) (out @ s)" "tp + length s < NTOP6_TMP \<Longrightarrow> holds_text (wr tmp tp (s @ [0])) (tp + length s) (out @ s)"
  using assms by (auto simp: holds_text_def wr_conv)

lemma holds_text_st:
  assumes "holds_text tmp tp out" "tp < NTOP6_TMP"
  shows "st tmp tp c = Some (wr tmp tp [c])" "holds_text (wr tmp tp [c]) (tp + 1) (out @ [c])"
  using assms holds_text_wr(1) [OF assms(1), of "[c]"] by (auto simp: st_def holds_text_def)

lemma ntop6_format_text:
  assumes "holds_text tmp tp out" "length out \<le> 5 * i - 1" "length gs = 8" "group_list gs" "bytes_at m (src + 12) qs" "length qs = 4" "length stk = 16" "i \<le> 8"
  shows "\<exists>tmp' tp'. ntop6_format stk m src (map of_nat gs) best i tmp tp = Some (Some (tmp', tp')) \<and> holds_text tmp' tp' (out @ text_from gs qs best i) \<and>
    length (out @ text_from gs qs best i) \<le> 45"
  using assms(1,2,8)
proof (induction "8 - i" arbitrary: i tmp tp out)
  case 0
  then show ?case by (subst ntop6_format.simps) (simp add: text_from.simps)
next
  case (Suc n)
  then have i: "i < 8" by simp
  have t: "tp = length out" "length tmp = NTOP6_TMP" using Suc.prems(1) by (simp_all add: holds_text_def)
  have IH: "\<exists>tmp' tp'. ntop6_format stk m src (map of_nat gs) best (i + 1) tmp1 (tp + length s) = Some (Some (tmp', tp')) \<and>
      holds_text tmp' tp' (out @ s @ text_from gs qs best (i + 1)) \<and> length (out @ s @ text_from gs qs best (i + 1)) \<le> 45"
    if "holds_text tmp1 (tp + length s) (out @ s)" "length s \<le> (if i = 0 then 4 else 5)" for tmp1 s
    using Suc.hyps(1) [of "i + 1" tmp1 "tp + length s" "out @ s"] Suc.hyps(2) Suc.prems(2) that i by (auto split: if_splits)
  show ?case
  proof (cases "in_run best i")
    case True
    have run: "run_base best \<noteq> - 1 \<and> int i \<ge> run_base best \<and> int i < run_base best + run_len best" using True by (simp add: in_run_def)
    show ?thesis
    proof (cases "int i = run_base best")
      case b: True
      have "tp < NTOP6_TMP" using t(1) Suc.prems(2) i by (simp add: NTOP6_TMP_def)
      note S = holds_text_st [OF Suc.prems(1) this, of 58]
      have "ntop6_format stk m src (map of_nat gs) best i tmp tp = ntop6_format stk m src (map of_nat gs) best (i + 1) (wr tmp tp [58]) (tp + 1)"
        using run i b S(1) by (subst ntop6_format.simps) simp
      moreover have "text_from gs qs best i = [58] @ text_from gs qs best (i + 1)" using True i b by (subst text_from.simps) simp
      ultimately show ?thesis using IH [of "wr tmp tp [58]" "[58]"] S(2) by simp
    next
      case b: False
      have "ntop6_format stk m src (map of_nat gs) best i tmp tp = ntop6_format stk m src (map of_nat gs) best (i + 1) tmp tp"
        using run i b by (subst ntop6_format.simps) simp
      moreover have "text_from gs qs best i = text_from gs qs best (i + 1)" using True i b by (subst text_from.simps) simp
      ultimately show ?thesis using IH [of tmp "[]"] Suc.prems(1) by simp
    qed
  next
    case False
    have run: "\<not> (run_base best \<noteq> - 1 \<and> int i \<ge> run_base best \<and> int i < run_base best + run_len best)" using False by (simp add: in_run_def)
    define c where "c = (if i \<noteq> 0 then [58 :: byte] else [])"
    define tp0 where "tp0 = tp + length c"
    have tp: "tp0 \<le> 5 * i" "length c \<le> 1" "i = 0 \<Longrightarrow> c = []" using t(1) Suc.prems(2) by (auto simp: c_def tp0_def)
    obtain tmp0 where c0: "(if i \<noteq> 0 then ntop6_colon tmp tp else Some (Some (tmp, tp))) = Some (Some (tmp0, tp0))" "holds_text tmp0 tp0 (out @ c)"
    proof (cases "i = 0")
      case True
      then show ?thesis using that [of tmp] Suc.prems(1) by (simp add: c_def tp0_def)
    next
      case nz: False
      have "tp + 1 < NTOP6_TMP" using t(1) Suc.prems(2) i by (simp add: NTOP6_TMP_def)
      then show ?thesis using that [of "wr tmp tp [58]"] nz holds_text_st [OF Suc.prems(1), of 58] by (simp add: ntop6_colon_def c_def tp0_def)
    qed
    have l0: "length tmp0 = 46" "length (out @ c) = tp0" using c0(2) by (simp_all add: holds_text_def NTOP6_TMP_def)
    have i8: "\<not> i \<ge> 8" using i by simp
    have F: "ntop6_format stk m src (map of_nat gs) best i tmp tp =
      (if ntop6_v4 (map of_nat gs) best i then do {
         (p, tmp) \<leftarrow> inet_ntop4 stk m (src + 12) tmp0 tp0 (NTOP6_TMP - tp0);
         if p = NULL then Some None else do { n \<leftarrow> strlen tmp tp0; Some (Some (tmp, tp0 + n)) } }
       else do {
         (advance, tmp) \<leftarrow> snprintf_text tmp0 tp0 (NTOP6_TMP - tp0) (number_text 16 (unat (map of_nat gs ! i :: 32 word)));
         if advance \<le> 0 \<or> advance \<ge> int NTOP6_TMP - int tp0 then Some None
         else ntop6_format stk m src (map of_nat gs) best (i + 1) tmp (tp0 + nat advance) })"
      using i8 run by (subst ntop6_format.simps) (simp only: c0(1) if_False bind.bind_lunit option.case prod.case simp_thms)
    show ?thesis
    proof (cases "ntop6_v4 (map of_nat gs) best i")
      case v4: True
      then have i6: "i = 6" by (simp add: ntop6_v4_def)
      have tp6: "tp0 \<le> 30" using tp(1) i6 by simp
      have fit: "length (text4 qs) < 46 - tp0" using text4_length [OF assms(6)] tp6 by simp
      have "inet_ntop4 stk m (src + 12) tmp0 tp0 (46 - tp0) = Some (Some tp0, wr tmp0 tp0 (text4 qs @ [0]))"
        using inet_ntop4_text [OF assms(5,6,7), of "46 - tp0" tp0 tmp0] fit l0(1) by simp
      moreover have "strlen (wr tmp0 tp0 (text4 qs @ [0])) tp0 = Some (length (text4 qs))"
        using strlen_cstr [OF cstr_wr_same [of tp0 "text4 qs" tmp0]] fit l0(1) text4_nonzero by simp
      ultimately have "ntop6_format stk m src (map of_nat gs) best i tmp tp = Some (Some (wr tmp0 tp0 (text4 qs @ [0]), tp0 + length (text4 qs)))"
        unfolding F using v4 by (simp add: NTOP6_TMP_def)
      moreover have "text_from gs qs best i = c @ text4 qs" using False v4 i by (subst text_from.simps) (simp add: c_def)
      moreover have "holds_text (wr tmp0 tp0 (text4 qs @ [0])) (tp0 + length (text4 qs)) ((out @ c) @ text4 qs)"
        using holds_text_wr(2) [OF c0(2), of "text4 qs"] fit by (simp add: NTOP6_TMP_def)
      ultimately show ?thesis using fit l0(2) by simp
    next
      case nv: False
      define s where "s = number_text 16 (gs ! i)"
      have g: "gs ! i < 65536" using assms(3,4) i by (simp add: group_list_def)
      then have u: "unat (map of_nat gs ! i :: 32 word) = gs ! i" using assms(3) i by (simp add: unat_of_nat)
      have s: "length s \<le> 4" "s \<noteq> []" using number_text_length [of 16 "gs ! i" 3] g number_text_nonempty by (simp_all add: s_def)
      have tps: "tp0 + length s < 46" using tp(1) i s(1) by simp
      have "snprintf_text tmp0 tp0 (46 - tp0) s = Some (int (length s), wr tmp0 tp0 (s @ [0]))" using snprintf_fits [of s "46 - tp0" tp0 tmp0] tps l0(1) by simp
      then have "ntop6_format stk m src (map of_nat gs) best i tmp tp = ntop6_format stk m src (map of_nat gs) best (i + 1) (wr tmp0 tp0 (s @ [0])) (tp + length (c @ s))"
        unfolding F u s_def [symmetric] using nv s tps by (simp add: NTOP6_TMP_def tp0_def add.assoc)
      moreover have "text_from gs qs best i = (c @ s) @ text_from gs qs best (i + 1)" using False nv i by (subst text_from.simps) (simp add: c_def s_def)
      moreover have "holds_text (wr tmp0 tp0 (s @ [0])) (tp + length (c @ s)) (out @ c @ s)"
        using holds_text_wr(2) [OF c0(2), of s] tps by (simp add: NTOP6_TMP_def tp0_def add.assoc)
      ultimately show ?thesis using IH [of "wr tmp0 tp0 (s @ [0])" "c @ s"] s(1) tp(2,3) by auto
    qed
  qed
qed

section \<open>The text of an IPv6 address\<close>

definition colons :: "nat list \<Rightarrow> byte list" where
  "colons gs = concat (map (\<lambda>g. 58 # number_text 16 g) gs)"

lemma colons_simps [simp]: "colons [] = []" "colons (g # gs) = 58 # number_text 16 g @ colons gs" "colons (gs @ hs) = colons gs @ colons hs"
  by (simp_all add: colons_def)

lemma colons_groups: "colons gs @ 58 # t = 58 # groups_text gs @ t"
  by (induction gs) auto

definition post_text :: "nat list \<Rightarrow> byte list" where
  "post_text gs = (if gs = [] then [] else groups_text (butlast gs) @ number_text 16 (last gs))"

lemma colons_post: "colons gs @ (if gs = [] then [58] else []) = 58 # post_text gs"
proof (cases gs rule: rev_cases)
  case (snoc hs h)
  then show ?thesis using colons_groups [of hs "number_text 16 h"] by (simp add: post_text_def)
qed (simp add: post_text_def)

lemma reads_post: "group_list gs \<Longrightarrow> reads_as (post_text gs) (groups_bytes gs)"
proof (cases gs rule: rev_cases)
  case (snoc hs h)
  assume "group_list gs"
  then have "h < 65536" "group_list hs" by (simp_all add: snoc group_list_def)
  then show ?thesis using reads_groups [OF reads_last, of h hs] number_text_nonempty by (simp add: snoc post_text_def)
qed (simp add: post_text_def reads_empty)

lemma groups_text_length: "group_list gs \<Longrightarrow> length (groups_text gs) \<le> 5 * length gs"
proof (induction gs)
  case (Cons g gs)
  then have "length (number_text 16 g) \<le> 4" using number_text_length [of 16 g 3] by (simp add: group_list_def)
  then show ?case using Cons by (simp add: group_list_def)
qed simp

lemma post_text_length: "group_list gs \<Longrightarrow> length (post_text gs) \<le> 5 * length gs"
proof (cases gs rule: rev_cases)
  case (snoc hs h)
  assume "group_list gs"
  then have "length (groups_text hs) \<le> 5 * length hs" "length (number_text 16 h) \<le> 4"
    using groups_text_length [of hs] number_text_length [of 16 h 3] by (simp_all add: group_list_def snoc)
  then show ?thesis by (simp add: snoc post_text_def)
qed (simp add: post_text_def)

text \<open>Groups outside the run, and the run.\<close>

lemma text_from_plain:
  assumes "0 < i" "i \<le> e" "e \<le> 8" "length gs = 8" "\<And>j. i \<le> j \<Longrightarrow> j < e \<Longrightarrow> \<not> in_run best j \<and> \<not> ntop6_v4 (map of_nat gs) best j"
  shows "text_from gs qs best i = colons (take (e - i) (drop i gs)) @ text_from gs qs best e"
  using assms
proof (induction "e - i" arbitrary: i)
  case (Suc n)
  then have i: "i < e" by simp
  then have d: "take (e - i) (drop i gs) = gs ! i # take (e - (i + 1)) (drop (i + 1) gs)" using Suc.prems(3,4) by (simp add: Cons_nth_drop_Suc [symmetric] take_Cons' Suc_diff_le)
  have "text_from gs qs best i = 58 # number_text 16 (gs ! i) @ text_from gs qs best (i + 1)" using Suc.prems i by (subst text_from.simps) simp
  then show ?case using Suc.hyps(1) [of "i + 1"] Suc.hyps(2) Suc.prems i by (simp add: d)
qed simp

lemma text_from_run:
  assumes "run_base best = int b" "run_len best = int n" "b < i" "i \<le> b + n" "b + n \<le> 8"
  shows "text_from gs qs best i = text_from gs qs best (b + n)"
  using assms(3,4)
proof (induction "b + n - i" arbitrary: i)
  case (Suc k)
  have i: "i < b + n" "k = b + n - (i + 1)" using Suc.hyps(2) by simp_all
  have "in_run best i" "int i \<noteq> run_base best" "\<not> 8 \<le> i" using i(1) Suc.prems(1) assms(1,2,5) by (simp_all add: in_run_def)
  then have "text_from gs qs best i = text_from gs qs best (i + 1)" by (subst text_from.simps) simp
  also have "\<dots> = text_from gs qs best (b + n)" using Suc.prems(1) i(1) by (intro Suc.hyps(1) [OF i(2)]) simp_all
  finally show ?case .
qed simp

lemma text_from_base:
  assumes "run_base best = int b" "run_len best = int n" "0 < n" "b + n \<le> 8"
  shows "text_from gs qs best b = 58 # text_from gs qs best (b + n)"
proof -
  have "text_from gs qs best b = 58 # text_from gs qs best (b + 1)" using assms by (subst text_from.simps) (simp add: in_run_def)
  then show ?thesis using text_from_run [OF assms(1,2), of "b + 1"] assms by simp
qed

lemma text_from_first:
  assumes "0 < e" "e \<le> 8" "length gs = 8" "\<And>j. j < e \<Longrightarrow> \<not> in_run best j \<and> \<not> ntop6_v4 (map of_nat gs) best j"
  shows "58 # text_from gs qs best 0 = colons (take e gs) @ text_from gs qs best e"
proof -
  have "text_from gs qs best 0 = number_text 16 (gs ! 0) @ text_from gs qs best 1" using assms by (subst text_from.simps) simp
  moreover have "take e gs = gs ! 0 # take (e - 1) (drop 1 gs)" using assms(1,3) by (cases gs; cases e) simp_all
  ultimately show ?thesis using text_from_plain [of 1 e gs best qs] assms by simp
qed

definition text6 :: "nat list \<Rightarrow> byte list \<Rightarrow> run \<Rightarrow> byte list" where
  "text6 gs qs best = text_from gs qs best 0 @ (if run_base best \<noteq> - 1 \<and> run_base best + run_len best = 8 then [58] else [])"

text \<open>\<open>inet_pton6\<close> turns \<open>t\<close> into \<open>bs\<close>.\<close>

definition stands_for :: "byte list \<Rightarrow> byte list \<Rightarrow> bool" where
  "stands_for t bs \<longleftrightarrow> (\<forall>m src dst. cstr m src t \<longrightarrow> dst + 16 \<le> length m \<longrightarrow> inet_pton6 m src dst = Some (1, wr m dst bs))"

lemma stands_compressed:
  assumes "t = (if pre = [] then [58] else []) @ groups_text pre @ 58 # P" "reads_as P bs" "group_list pre" "2 * length pre + 2 * k + length bs = 16" "0 < k"
  shows "stands_for t (groups_bytes pre @ replicate (2 * k) 0 @ bs)"
proof -
  have "16 - 2 * length pre - length bs = 2 * k" "2 * length pre + length bs < 16" using assms(4,5) by simp_all
  then show ?thesis using inet_pton6_compressed [OF _ assms(2,3)] unfolding stands_for_def assms(1) by metis
qed

lemma groups_bytes_zeros: "groups_bytes (replicate n 0) = replicate (2 * n) 0"
  by (induction n) (simp_all add: be2_def)

lemma text6_no_run:
  assumes "run_base best = - 1" "length gs = 8" "group_list gs"
  shows "stands_for (text6 gs qs best) (groups_bytes gs) \<and> length (text6 gs qs best) \<le> 44"
proof -
  have "58 # text6 gs qs best = colons gs" using text_from_first [of 8 gs best qs] assms(1,2) by (simp add: text6_def text_from.simps in_run_def ntop6_v4_def)
  moreover have ne: "gs \<noteq> []" using assms(2) by auto
  ultimately have t: "text6 gs qs best = post_text gs" using colons_post [of gs] by simp
  have "length (butlast gs) = 7" using assms(2) by simp
  then obtain g gs' where "butlast gs = g # gs'" by (cases "butlast gs") auto
  then have "hd (post_text gs) \<noteq> 58 \<and> post_text gs \<noteq> []" using number_text_hd [of g] ne by (auto simp: post_text_def)
  then show ?thesis using inet_pton6_full [OF _ reads_post [OF assms(3)]] post_text_length [OF assms(3)] assms(2) by (simp add: stands_for_def t)
qed

lemma text6_run:
  assumes "run_base best = int b" "run_len best = int n" "0 < n" "b + n \<le> 8" "length gs = 8" "group_list gs" "\<And>j. b \<le> j \<Longrightarrow> j < b + n \<Longrightarrow> gs ! j = 0"
    "in_run best 6 \<or> \<not> ntop6_v4 (map of_nat gs) best 6"
  shows "stands_for (text6 gs qs best) (groups_bytes gs) \<and> length (text6 gs qs best) \<le> 44"
proof -
  let ?pre = "take b gs" and ?post = "drop (b + n) gs"
  have z: "take n (drop b gs) = replicate n 0" using assms(4,5,7) by (intro nth_equalityI) auto
  have split: "gs = ?pre @ replicate n 0 @ ?post" unfolding z [symmetric] by (metis append_take_drop_id drop_drop add.commute)
  have nv: "\<not> ntop6_v4 (map of_nat gs) best j" if "\<not> in_run best j" for j using assms(8) that by (auto simp: ntop6_v4_def)
  have last: "run_base best \<noteq> - 1 \<and> run_base best + run_len best = 8 \<longleftrightarrow> ?post = []" using assms(1,2,4,5) by auto
  have "text_from gs qs best (b + n) = colons ?post" using text_from_plain [of "b + n" 8 gs best qs] assms(1-5) nv
    by (simp add: in_run_def text_from.simps [of gs qs best 8])
  then have B: "text_from gs qs best b @ (if ?post = [] then [58] else []) = 58 # 58 # post_text ?post"
    using text_from_base [OF assms(1-4), of gs qs] colons_post [of ?post] by simp
  have t: "text6 gs qs best = (if ?pre = [] then [58] else []) @ groups_text ?pre @ 58 # post_text ?post"
  proof (cases "b = 0")
    case True
    then show ?thesis using B unfolding text6_def last by simp
  next
    case False
    have F: "58 # text_from gs qs best 0 = colons ?pre @ text_from gs qs best b"
    proof (rule text_from_first)
      show "\<not> in_run best j \<and> \<not> ntop6_v4 (map of_nat gs) best j" if "j < b" for j using that nv assms(1) by (simp add: in_run_def)
    qed (use False assms(4,5) in simp_all)
    have "58 # text6 gs qs best = (58 # text_from gs qs best 0) @ (if ?post = [] then [58] else [])" unfolding text6_def last by simp
    also have "\<dots> = colons ?pre @ text_from gs qs best b @ (if ?post = [] then [58] else [])" unfolding F by simp
    also have "\<dots> = 58 # groups_text ?pre @ 58 # post_text ?post" unfolding B by (rule colons_groups)
    finally show ?thesis using False assms(5) by auto
  qed
  have l: "2 * length ?pre + 2 * n + length (groups_bytes ?post) = 16" using assms(4,5) by simp
  have g: "group_list ?pre" "group_list ?post" using assms(6) by (auto simp: group_list_def dest: in_set_takeD in_set_dropD)
  have "groups_bytes gs = groups_bytes ?pre @ replicate (2 * n) 0 @ groups_bytes ?post" by (subst split) (simp add: groups_bytes_zeros)
  moreover have "length (text6 gs qs best) \<le> 44" unfolding t using groups_text_length [OF g(1)] post_text_length [OF g(2)] assms(3,4,5)
    by (cases "?pre = []") (simp_all del: take_eq_Nil)
  ultimately show ?thesis using stands_compressed [OF t reads_post [OF g(2)] g(1) l assms(3)] by simp
qed

text \<open>An embedded IPv4 address.\<close>

lemma text6_v4:
  assumes "run_base best = 0" "run_len best = int n" "length gs = 8" "group_list gs" "\<And>j. j < n \<Longrightarrow> gs ! j = 0"
    "ntop6_v4 (map of_nat gs) best 6" "qs = groups_bytes (drop 6 gs)" "n \<le> 6"
  shows "stands_for (text6 gs qs best) (groups_bytes gs) \<and> length (text6 gs qs best) \<le> 44"
proof -
  let ?mid = "take (6 - n) (drop n gs)"
  have n: "0 < n" "n \<le> 6" and n5: "5 \<le> n" using assms(2,6,8) by (auto simp: ntop6_v4_def)
  have v6: "ntop6_v4 (map of_nat gs) best j \<longleftrightarrow> j = 6" for j using assms(6) by (auto simp: ntop6_v4_def)
  have z: "take n gs = replicate n 0" using assms(3,5) n by (intro nth_equalityI) auto
  have split: "gs = replicate n 0 @ ?mid @ drop 6 gs" unfolding z [symmetric] using n by (metis append_take_drop_id drop_drop le_add_diff_inverse2)
  have "text_from gs qs best 6 = 58 # text4 qs" using assms(1,2) n v6 by (subst text_from.simps) (simp add: in_run_def)
  then have "text_from gs qs best n = 58 # groups_text ?mid @ text4 qs"
    using text_from_plain [of n 6 gs best qs] assms(1-3) n v6 colons_groups [of ?mid "text4 qs"] by (simp add: in_run_def)
  then have "text_from gs qs best 0 = 58 # 58 # groups_text ?mid @ text4 qs" using text_from_base [of best 0 n gs qs] assms(1,2) n by simp
  then have t: "text6 gs qs best = (if ([] :: nat list) = [] then [58] else []) @ groups_text [] @ 58 # groups_text ?mid @ text4 qs" using assms(1,2) n by (simp add: text6_def)
  have q: "length qs = 4" using assms(3,7) by simp
  have gm: "group_list ?mid" using assms(4) by (auto simp: group_list_def dest: in_set_takeD in_set_dropD)
  have "text4 qs \<noteq> []" using q by (cases qs; cases "tl qs") (auto simp: text4_def number_text_nonempty)
  with gm have r: "reads_as (groups_text ?mid @ text4 qs) (groups_bytes ?mid @ qs)" using reads_groups [OF reads_v4 [OF q]] by simp
  have "groups_bytes gs = groups_bytes [] @ replicate (2 * n) 0 @ groups_bytes ?mid @ qs" unfolding assms(7) by (subst split) (simp add: groups_bytes_zeros)
  moreover have "length (text6 gs qs best) \<le> 44" using groups_text_length [OF gm] text4_length [OF q] n n5 assms(3) by (simp add: t)
  ultimately show ?thesis using stands_compressed [OF t r, of n] assms(3) n q by (simp add: group_list_def)
qed

lemma text6_reads:
  assumes "length gs = 8" "group_list gs" "qs = groups_bytes (drop 6 gs)" "best = ntop6_best (map of_nat gs)"
  shows "stands_for (text6 gs qs best) (groups_bytes gs) \<and> length (text6 gs qs best) \<le> 44"
proof (cases "run_base best = - 1")
  case True
  then show ?thesis using text6_no_run assms(1,2) by blast
next
  case False
  have ok: "run_ok (map of_nat gs) best" "2 \<le> run_len best" using ntop6_best_ok [of "map of_nat gs"] assms(4) False by simp_all
  define b n where "b = nat (run_base best)" and "n = nat (run_len best)"
  have bn: "run_base best = int b" "run_len best = int n" "b + n \<le> 8" "0 < n" using ok False assms(1) by (auto simp: run_ok_def b_def n_def)
  have z: "gs ! j = 0" if "b \<le> j" "j < b + n" for j
  proof -
    have "map of_nat gs ! j = (0 :: 32 word)" using ok(1) False that bn by (auto simp: run_ok_def)
    moreover have "gs ! j < 65536" "j < length gs" using assms(1,2) that bn(3) by (auto simp: group_list_def)
    ultimately show ?thesis by (simp add: unat_of_nat flip: unat_eq_0) 
  qed
  show ?thesis
  proof (cases "ntop6_v4 (map of_nat gs) best 6")
    case v4: True
    then have "b = 0" using bn(1) by (simp add: ntop6_v4_def)
    show ?thesis
    proof (cases "n = 7")
      case True
      then have "in_run best 6" using bn \<open>b = 0\<close> by (simp add: in_run_def)
      then show ?thesis using text6_run [OF bn(1,2,4,3) assms(1,2) z] by blast
    next
      case False
      then have "n \<le> 6" using v4 bn(2) by (auto simp: ntop6_v4_def)
      then show ?thesis using text6_v4 [of best n gs qs] v4 bn assms(1-3) z \<open>b = 0\<close> by auto
    qed
  next
    case nv: False
    then show ?thesis using text6_run [OF bn(1,2,4,3) assms(1,2) z] by blast
  qed
qed

lemma text_from_nonzero: "0 \<notin> set (text_from gs qs best i)"
proof (induction gs qs best i rule: text_from.induct)
  case (1 gs qs best i)
  have "0 \<notin> set (number_text 16 n)" for n
  proof (induction n rule: less_induct)
    case (less n)
    show ?case
    proof (cases "n < 16")
      case True
      then show ?thesis using pton6_digit_x [of n] by (simp add: number_text_step)
    next
      case False
      then show ?thesis using less.IH [of "n div 16"] pton6_digit_x [of "n mod 16"] by (simp add: number_text_step)
    qed
  qed
  then show ?case using 1 text4_nonzero [of qs] by (subst text_from.simps) (auto split: if_splits)
qed

lemma text6_nonzero: "0 \<notin> set (text6 gs qs best)"
  using text_from_nonzero by (auto simp: text6_def)

lemma inet_ntop6_text:
  assumes "bytes_at m src (groups_bytes gs)" "length gs = 8" "group_list gs" "length stk = 16" "length tmp = 46"
  defines "t \<equiv> text6 gs (groups_bytes (drop 6 gs)) (ntop6_best (map of_nat gs))"
  assumes "length t < n \<Longrightarrow> dst + length t < length m"
  shows "inet_ntop6 stk tmp m src dst n = Some (if length t < n then (Some dst, wr m dst (t @ [0]), None) else (NULL, m, Some ENOSPC))"
proof -
  let ?best = "ntop6_best (map of_nat gs)" and ?qs = "groups_bytes (drop 6 gs)"
  have q: "bytes_at m (src + 12) ?qs"
  proof -
    have "groups_bytes gs = groups_bytes (take 6 gs) @ ?qs" by (metis append_take_drop_id groups_simps(6))
    then show ?thesis using assms(1,2) bytes_at_append [of m src "groups_bytes (take 6 gs)" ?qs] by simp
  qed
  have len: "length t \<le> 44" using text6_reads [OF assms(2,3) refl refl] by (simp add: t_def)
  have "holds_text tmp 0 []" using assms(5) by (simp add: holds_text_def NTOP6_TMP_def)
  then obtain tmp1 tp1 where f: "ntop6_format stk m src (map of_nat gs) ?best 0 tmp 0 = Some (Some (tmp1, tp1))" "holds_text tmp1 tp1 (text_from gs ?qs ?best 0)"
    using ntop6_format_text [of tmp 0 "[]" 0 gs m src ?qs stk ?best] assms(2-4) q by auto
  let ?c = "run_base ?best \<noteq> - 1 \<and> run_base ?best + run_len ?best = 8"
  have tp1: "tp1 \<le> 44" "?c \<Longrightarrow> tp1 + 1 \<le> 44" using f(2) len by (auto simp: t_def text6_def holds_text_def)
  obtain tmp2 where g: "(if ?c then ntop6_colon tmp1 tp1 else Some (Some (tmp1, tp1))) = Some (Some (tmp2, length t))" "holds_text tmp2 (length t) t"
  proof (cases ?c)
    case True
    then have "tp1 + 1 < NTOP6_TMP" using tp1 by (simp add: NTOP6_TMP_def)
    moreover have "length t = tp1 + 1" using f(2) True by (simp add: t_def text6_def holds_text_def)
    ultimately show ?thesis using that [of "wr tmp1 tp1 [58]"] True holds_text_st [OF f(2), of 58] by (simp add: ntop6_colon_def t_def text6_def)
  next
    case False
    then have "length t = tp1" "t = text_from gs ?qs ?best 0" using f(2) by (auto simp: t_def text6_def holds_text_def)
    then show ?thesis using that [of tmp1] False f(2) by simp
  qed
  have l2: "length tmp2 = 46" "take (length t) tmp2 = t" using g(2) by (simp_all add: holds_text_def NTOP6_TMP_def)
  have st: "st tmp2 (length t) 0 = Some (tmp2[length t := 0])" using l2(1) len by (simp add: st_def)
  have "tmp2 ! i = t ! i" if "i < length t" for i using l2(2) that nth_take by metis
  then have "cstr (tmp2[length t := 0]) 0 t" using l2(1) len text6_nonzero by (auto simp: cstr_conv bytes_at_nth ld_def nth_append less_Suc_eq t_def)
  note c = strlcpy_out_fits [OF this, of n dst m]
  show ?thesis unfolding inet_ntop6_def ntop6_words_groups [OF assms(1-3)] bind.bind_lunit Let_def f(1) option.case prod.case g(1)
    using st c len assms(7) by (simp add: NTOP6_TMP_def)
qed

text \<open>Every sixteen bytes are eight groups.\<close>

fun groups_of :: "byte list \<Rightarrow> nat list" where
  "groups_of (a # b # bs) = (unat a * 256 + unat b) # groups_of bs"
| "groups_of bs = []"

lemma groups_of_bytes: "even (length bs) \<Longrightarrow> groups_bytes (groups_of bs) = bs \<and> length (groups_of bs) = length bs div 2 \<and> group_list (groups_of bs)"
proof (induction bs rule: groups_of.induct)
  case (1 a b bs)
  have ab: "unat a < 256" "unat b < 256" by simp_all
  have "(unat a * 256 + unat b) div 256 = unat a" "(unat a * 256 + unat b) mod 256 = unat b" using ab by (simp_all add: div_mult_self3)
  moreover have z: "(256 :: byte) = 0" by simp
  have "a * 256 = 0" by (simp only: z mult_zero_right)
  ultimately have "be2 (unat a * 256 + unat b) = [a, b]" by (simp add: be2_def)
  moreover have "unat a * 256 + unat b < 65536" using ab by linarith
  ultimately show ?case using 1 by (simp add: group_list_def)
qed (simp_all add: group_list_def)

section \<open>IPv6: every text\<close>

text \<open>What the loop keeps: the array of sixteen bytes, the positions in it, and a token that starts at or before \<open>src\<close>.\<close>

definition pton6_inv :: "pton6 \<Rightarrow> bool" where
  "pton6_inv z \<longleftrightarrow> length (p6_tmp z) = 16 \<and> p6_tp z \<le> 16 \<and> (\<forall>c. p6_colonp z = Some c \<longrightarrow> c \<le> p6_tp z)"

lemma pton6_digit_total: "ch \<noteq> 0 \<Longrightarrow> \<exists>pch. pton6_digit ch = Some pch"
proof -
  assume "ch \<noteq> 0"
  moreover have "cstr xdigits_l 0 (take 16 xdigits_l)" "cstr xdigits_u 0 (take 16 xdigits_u)" by (simp_all add: xdigits_l_def xdigits_u_def)
  ultimately show ?thesis using strchr_cstr by (simp add: pton6_digit_def)
qed

lemma pton6_put_total: "tp + 2 \<le> length tmp \<Longrightarrow> \<exists>tmp'. pton6_put tmp tp val = Some tmp' \<and> length tmp' = length tmp"
  by (simp add: pton6_put_def st_def)

lemma pton6_loop_total:
  assumes "cstr m src bs" "cstr m cur cs" "pton6_inv z"
  shows "\<exists>r. pton6_loop m src cur z = Some r \<and> (\<forall>z'. r = Some z' \<longrightarrow> pton6_inv z')"
  using assms
proof (induction bs arbitrary: src cur cs z)
  case Nil
  then show ?case using pton6_loop_end by simp
next
  case (Cons b bs)
  obtain pch where pch: "pton6_digit b = Some pch" using pton6_digit_total Cons.prems(1) by fastforce
  have c: "cstr m (src + 1) bs" "ld m src = Some b" "b \<noteq> 0" "ld m (src + 1) = Some (hd0 bs)" using Cons.prems(1) cstr_hd0 [of m "src + 1" bs] by simp_all
  show ?case
  proof (cases pch)
    case (Some d)
    let ?z = "z\<lparr>p6_val := push_bit 4 (p6_val z) OR of_nat d, p6_seen := p6_seen z + 1\<rparr>"
    have "pton6_loop m src cur z = (if p6_seen z + 1 > 4 then Some None else pton6_loop m (src + 1) cur ?z)"
      using c(2,3) pch Some by (subst pton6_loop.simps) (simp add: Let_def)
    moreover have "pton6_inv ?z" using Cons.prems(3) by (simp add: pton6_inv_def)
    ultimately show ?thesis using Cons.IH [OF c(1) Cons.prems(2), of ?z] by auto
  next
    case None
    consider "b = 58" "p6_seen z = 0" | "b = 58" "p6_seen z \<noteq> 0" | "b = 46" "p6_tp z + 4 \<le> 16" | "b \<noteq> 58" "\<not> (b = 46 \<and> p6_tp z + 4 \<le> 16)" by blast
    then show ?thesis
    proof cases
      case 1
      have "pton6_inv (z\<lparr>p6_colonp := Some (p6_tp z)\<rparr>)" using Cons.prems(3) by (simp add: pton6_inv_def)
      note IH = Cons.IH [OF c(1,1) this]
      have "pton6_loop m src cur z = (if p6_colonp z \<noteq> NULL then Some None else pton6_loop m (src + 1) (src + 1) (z\<lparr>p6_colonp := Some (p6_tp z)\<rparr>))"
        using c(2,3) pch None 1 by (subst pton6_loop.simps) simp
      then show ?thesis using IH by auto
    next
      case 2
      show ?thesis
      proof (cases "hd0 bs = 0 \<or> p6_tp z + 2 > 16")
        case True
        then have "pton6_loop m src cur z = Some None" using c(2-4) pch None 2 by (subst pton6_loop.simps) (auto simp: NS_IN6ADDRSZ_def)
        then show ?thesis by simp
      next
        case False
        then obtain tmp where t: "pton6_put (p6_tmp z) (p6_tp z) (p6_val z) = Some tmp" "length tmp = 16"
          using pton6_put_total [of "p6_tp z" "p6_tmp z" "p6_val z"] Cons.prems(3) by (auto simp: pton6_inv_def)
        let ?z = "z\<lparr>p6_tmp := tmp, p6_tp := p6_tp z + 2, p6_seen := 0, p6_val := 0\<rparr>"
        have "pton6_inv ?z" using Cons.prems(3) t(2) False by (auto simp: pton6_inv_def)
        note IH = Cons.IH [OF c(1,1) this]
        have "pton6_loop m src cur z = pton6_loop m (src + 1) (src + 1) ?z" using c(2-4) pch None 2 False t(1) by (subst pton6_loop.simps) (auto simp: NS_IN6ADDRSZ_def)
        then show ?thesis using IH by simp
      qed
    next
      case 3
      note P = inet_pton4_quad [OF Cons.prems(2), of "p6_tp z" "p6_tmp z"]
      have t: "p6_tp z + 4 \<le> length (p6_tmp z)" using 3 Cons.prems(3) by (simp add: pton6_inv_def)
      show ?thesis
      proof (cases "quad_of cs")
        case q: None
        then have "pton6_loop m src cur z = Some None" using c(2,3) pch None 3 P [OF t] by (subst pton6_loop.simps) (simp add: NS_IN6ADDRSZ_def)
        then show ?thesis by simp
      next
        case (Some qs)
        let ?z = "z\<lparr>p6_tmp := wr (p6_tmp z) (p6_tp z) qs, p6_tp := p6_tp z + 4, p6_seen := 0\<rparr>"
        have "pton6_loop m src cur z = Some (Some ?z)" using c(2,3) pch None 3 P [OF t] Some by (subst pton6_loop.simps) (simp add: NS_IN6ADDRSZ_def)
        moreover have "pton6_inv ?z" using Cons.prems(3) 3 by (auto simp: pton6_inv_def)
        ultimately show ?thesis by simp
      qed
    next
      case 4
      then have "pton6_loop m src cur z = Some None" using c(2,3) pch None by (subst pton6_loop.simps) (auto simp: NS_IN6ADDRSZ_def)
      then show ?thesis by simp
    qed
  qed
qed

lemma pton6_shift_total: "length tmp = 16 \<Longrightarrow> colonp + n \<le> 16 \<Longrightarrow> 0 < i \<Longrightarrow> \<exists>tmp'. pton6_shift tmp colonp n i = Some tmp' \<and> length tmp' = 16"
proof (induction tmp colonp n i rule: pton6_shift.induct)
  case (1 tmp colonp n i)
  show ?case
  proof (cases "i \<le> n")
    case True
    let ?p = "colonp + (n - i)"
    have p: "?p < 16" "16 - i < 16" using True 1(3,4) by auto
    have "pton6_shift tmp colonp n i = pton6_shift ((tmp[16 - i := tmp ! ?p])[?p := 0]) colonp n (i + 1)"
      using True p 1(2) by (subst pton6_shift.simps) (simp add: NS_IN6ADDRSZ_def ld_def st_def)
    moreover have "\<exists>tmp'. pton6_shift ((tmp[16 - i := tmp ! ?p])[?p := 0]) colonp n (i + 1) = Some tmp' \<and> length tmp' = 16"
      using True p 1(2-4) by (intro 1(1)) (auto simp: NS_IN6ADDRSZ_def ld_def st_def)
    ultimately show ?thesis by simp
  next
    case False
    then show ?thesis using 1(2) by (subst pton6_shift.simps) simp
  qed
qed

lemma copy_out_total: "length t = 16 \<Longrightarrow> dst + 16 \<le> length m \<Longrightarrow> \<exists>as. copy_out m dst t = Some (wr m dst as) \<and> length as = 16"
  using copy_out_wr [of dst t m] by auto

lemma inet_pton6_total:
  assumes "cstr m src bs" "dst + 16 \<le> length m"
  shows "inet_pton6 m src dst = Some (0, m) \<or> (\<exists>as. length as = 16 \<and> inet_pton6 m src dst = Some (1, wr m dst as))"
proof -
  define c where "c = hd0 bs"
  define s where "s = (if c = 58 then src + 1 else src)"
  have c: "ld m src = Some c" using cstr_hd0 [OF assms(1)] by (simp add: c_def)
  show ?thesis
  proof (cases "c = 58 \<and> ld m (src + 1) \<noteq> Some 58")
    case True
    then obtain bs1 where "bs = 58 # bs1" by (cases bs) (auto simp: c_def)
    then obtain d where "ld m (src + 1) = Some d" "d \<noteq> 58" using assms(1) cstr_hd0 [of m "src + 1" bs1] True by auto
    then show ?thesis using c True by (simp add: inet_pton6_def)
  next
    case False
    have "\<exists>bs'. cstr m s bs'"
    proof (cases "c = 58")
      case True
      then obtain bs1 where "bs = 58 # bs1" by (cases bs) (auto simp: c_def)
      then show ?thesis using assms(1) True by (auto simp: s_def)
    next
      case False
      then show ?thesis using assms(1) by (auto simp: s_def)
    qed
    then obtain bs' where s: "cstr m s bs'" ..
    have "pton6_inv p6_start" by (simp add: pton6_inv_def)
    from pton6_loop_total [OF s s this] obtain r where r: "pton6_loop m s s p6_start = Some r" "\<And>z. r = Some z \<Longrightarrow> pton6_inv z" by blast
    have h: "(if c = 58 then do { c \<leftarrow> ld m (src + 1); Some (if c \<noteq> 58 then None else Some (src + 1)) } else Some (Some src)) = Some (Some s)"
      using False by (auto simp: s_def)
    show ?thesis
    proof (cases r)
      case None
      then show ?thesis using r(1) unfolding inet_pton6_def c bind.bind_lunit h by (simp add: NS_IN6ADDRSZ_def)
    next
      case (Some z)
      note z = r(2) [OF Some]
      show ?thesis
      proof (cases "p6_seen z \<noteq> 0 \<and> p6_tp z + 2 > 16")
        case True
        then show ?thesis using r(1) Some unfolding inet_pton6_def c bind.bind_lunit h by (simp add: NS_IN6ADDRSZ_def)
      next
        case fits: False
        obtain tmp tp where f: "finishes z tmp tp" "tp \<le> 16" "length tmp = 16" "p6_tp z \<le> tp"
          using fits z pton6_put_total [of "p6_tp z" "p6_tmp z" "p6_val z"] by (cases "p6_seen z = 0") (auto simp: finishes_def pton6_inv_def)
        have run: "inet_pton6 m src dst = (case p6_colonp z of
            Some colonp \<Rightarrow> if tp = 16 then Some (0, m)
              else do { tmp \<leftarrow> pton6_shift tmp colonp (tp - colonp) 1; m \<leftarrow> copy_out m dst tmp; Some (1, m) }
          | None \<Rightarrow> if tp \<noteq> 16 then Some (0, m) else do { m \<leftarrow> copy_out m dst tmp; Some (1, m) })"
          using inet_pton6_run [OF c _ s_def r(1) [unfolded Some] f(1,2)] False by auto
        show ?thesis
        proof (cases "p6_colonp z")
          case None
          then show ?thesis using run copy_out_total [OF f(3) assms(2)] by auto
        next
          case (Some cp)
          then have cp: "cp + (tp - cp) \<le> 16" using z f(2,4) by (auto simp: pton6_inv_def)
          obtain tmp' where t': "pton6_shift tmp cp (tp - cp) 1 = Some tmp'" "length tmp' = 16" using pton6_shift_total [OF f(3) cp, of 1] by auto
          then show ?thesis using run Some copy_out_total [OF t'(2) assms(2)] by auto
        qed
      qed
    qed
  qed
qed

section \<open>Properties\<close>

text \<open>
  C3. Addresses survive the round trip: \<open>inet_ntop\<close> writes, for every IPv4 and every IPv6 address and whatever its local arrays
  contain, a text of at most 45 bytes that \<open>inet_pton\<close> reads back as the same bytes.  If the buffer is too small for the text
  it returns \<open>NULL\<close> with \<open>ENOSPC\<close> and stores nothing.
\<close>

theorem inet_round_trip:
  assumes "af = AF_INET \<and> length bs = 4 \<or> af = AF_INET6 \<and> length bs = 16" "bytes_at m src bs" "length stk = 16" "length tmp = 46"
    "dst + n \<le> length m" "dst' + length bs \<le> length m"
  shows "\<exists>t. length t \<le> 45 \<and> (if length t < n
    then inet_ntop stk tmp af m src dst n = Some (Some dst, wr m dst (t @ [0]), None) \<and>
      inet_pton af (wr m dst (t @ [0])) dst dst' = Some (1, wr (wr m dst (t @ [0])) dst' bs, None)
    else inet_ntop stk tmp af m src dst n = Some (NULL, m, Some ENOSPC))"
  using assms(1)
proof
  assume a: "af = AF_INET \<and> length bs = 4"
  let ?t = "text4 bs"
  note w = inet_ntop4_text [OF assms(2) conjunct2 [OF a] assms(3), of n dst m]
  have "inet_pton4 (wr m dst (?t @ [0])) dst (wr m dst (?t @ [0])) dst' True = Some (1, wr (wr m dst (?t @ [0])) dst' bs)" if "length ?t < n"
  proof -
    have "cstr (wr m dst (?t @ [0])) dst ?t" using cstr_wr_same [of dst ?t m] that assms(5) text4_nonzero by simp
    from inet_pton4_quad [OF this, of dst' "wr m dst (?t @ [0])"] show ?thesis using quad_of_text4 [of bs] a assms(6) by simp
  qed
  then show ?thesis using w assms(5) a text4_length [of bs] by (intro exI [of _ ?t]) (auto simp: inet_ntop_def inet_pton_def)
next
  assume a: "af = AF_INET6 \<and> length bs = 16"
  define gs where "gs = groups_of bs"
  have g: "groups_bytes gs = bs" "length gs = 8" "group_list gs" using groups_of_bytes [of bs] a by (simp_all add: gs_def)
  define t where "t = text6 gs (groups_bytes (drop 6 gs)) (ntop6_best (map of_nat gs))"
  have s: "stands_for t bs" "length t \<le> 44" using text6_reads [OF g(2,3) refl refl] g(1) by (simp_all add: t_def)
  have w: "inet_ntop6 stk tmp m src dst n = Some (if length t < n then (Some dst, wr m dst (t @ [0]), None) else (NULL, m, Some ENOSPC))"
    using inet_ntop6_text [of m src gs stk tmp n dst] assms(2-5) g by (simp add: t_def)
  have "inet_pton6 (wr m dst (t @ [0])) dst dst' = Some (1, wr (wr m dst (t @ [0])) dst' bs)" if "length t < n"
  proof -
    have "cstr (wr m dst (t @ [0])) dst t" using cstr_wr_same [of dst t m] that assms(5) text6_nonzero by (simp add: t_def)
    then show ?thesis using s(1) a assms(6) by (simp add: stands_for_def)
  qed
  then show ?thesis using w a s(2) by (intro exI [of _ t]) (auto simp: inet_ntop_def inet_pton_def AF_INET_def AF_INET6_def)
qed

theorem inet_round_trip_witness:
  "\<exists>t. length t \<le> 45 \<and> (if length t < 46
    then inet_ntop (replicate 16 7) (replicate 46 7) AF_INET6 (replicate 62 0) 46 0 46 = Some (Some 0, wr (replicate 62 0) 0 (t @ [0]), None) \<and>
      inet_pton AF_INET6 (wr (replicate 62 0) 0 (t @ [0])) 0 46 = Some (1, wr (wr (replicate 62 0) 0 (t @ [0])) 46 (replicate 16 0), None)
    else inet_ntop (replicate 16 7) (replicate 46 7) AF_INET6 (replicate 62 0) 46 0 46 = Some (NULL, replicate 62 0, Some ENOSPC))"
  by (rule inet_round_trip) (simp_all add: bytes_at_nth ld_def)

text \<open>
  C18. \<open>inet_pton\<close> for IPv4 accepts exactly four plain decimal numbers with dots between them, each below 256 after its
  value has wrapped at 32 bits, up to the end of the string or a white space.  It stores the four
  bytes and returns 1; on every other string it returns 0 and stores nothing.
\<close>

theorem inet_pton4_exact:
  assumes "cstr m src bs" "dst + 4 \<le> length m"
  shows "if \<exists>ps tail. bs = dots ps @ tail \<and> length ps = 4 \<and> (\<forall>p \<in> set ps. plain p \<and> dec p mod 2 ^ 32 < 256) \<and> (tail = [] \<or> isspace_c (hd tail))
    then \<exists>ps tail. bs = dots ps @ tail \<and> length ps = 4 \<and> (\<forall>p \<in> set ps. plain p) \<and> (tail = [] \<or> isspace_c (hd tail)) \<and>
      inet_pton AF_INET m src dst = Some (1, wr m dst (map (\<lambda>p. of_nat (dec p)) ps), None)
    else inet_pton AF_INET m src dst = Some (0, m, None)"
proof -
  have le: "(of_nat n :: 32 word) \<le> 0xff \<longleftrightarrow> n mod 2 ^ 32 < 256" for n by (auto simp: word_le_nat_alt unat_of_nat)
  have uc: "ucast (of_nat n :: 32 word) = (of_nat n :: byte)" for n by (simp add: bit_eq_iff bit_simps)
  have P: "inet_pton AF_INET m src dst = Some (case quad_of bs of None \<Rightarrow> (0, m, None) | Some qs \<Rightarrow> (1, wr m dst qs, None))"
    using inet_pton4_quad [OF assms] by (simp add: inet_pton_def split: option.split)
  show ?thesis
  proof (cases "quad_of bs")
    case None
    have "\<not> (\<exists>ps tail. bs = dots ps @ tail \<and> length ps = 4 \<and> (\<forall>p \<in> set ps. plain p \<and> dec p mod 2 ^ 32 < 256) \<and> (tail = [] \<or> isspace_c (hd tail)))"
    proof
      assume "\<exists>ps tail. bs = dots ps @ tail \<and> length ps = 4 \<and> (\<forall>p \<in> set ps. plain p \<and> dec p mod 2 ^ 32 < 256) \<and> (tail = [] \<or> isspace_c (hd tail))"
      then obtain ps tail where ps: "bs = dots ps @ tail" "length ps = 3 + 1" "\<forall>p \<in> set ps. plain p" "\<forall>p \<in> set ps. dec p mod 2 ^ 32 < 256" "tail = [] \<or> isspace_c (hd tail)" by auto
      then have "dotted 3 bs = Some (map (\<lambda>p. of_nat (dec p)) ps)" unfolding dotted_iff by blast
      then show False using None ps(4) by (auto simp: quad_of_def le split: if_splits)
    qed
    then show ?thesis using P None by (simp only: if_False) simp
  next
    case (Some qs)
    then obtain vs where vs: "dotted 3 bs = Some vs" "\<forall>v \<in> set vs. v \<le> 0xff" "qs = map ucast vs" by (auto simp: quad_of_def split: option.splits if_splits)
    then obtain ps tail where ps: "bs = dots ps @ tail" "length ps = 3 + 1" "\<forall>p \<in> set ps. plain p" "tail = [] \<or> isspace_c (hd tail)" "vs = map (\<lambda>p. of_nat (dec p)) ps"
      unfolding dotted_iff by blast
    have "\<forall>p \<in> set ps. plain p \<and> dec p mod 2 ^ 32 < 256" using vs(2) ps(3,5) le by auto
    moreover have "qs = map (\<lambda>p. of_nat (dec p)) ps" using vs(3) ps(5) uc by simp
    ultimately show ?thesis using ps P Some by auto
  qed
qed

theorem inet_pton4_exact_witness:
  "\<exists>ps tail. [49, 46, 50, 46, 51, 46, 52] = dots ps @ tail \<and> length ps = 4 \<and> (\<forall>p \<in> set ps. plain p) \<and> (tail = [] \<or> isspace_c (hd tail)) \<and>
    inet_pton AF_INET [49, 46, 50, 46, 51, 46, 52, 0, 9, 9, 9, 9] 0 8 = Some (1, wr [49, 46, 50, 46, 51, 46, 52, 0, 9, 9, 9, 9] 8 (map (\<lambda>p. of_nat (dec p)) ps), None)"
proof -
  let ?m = "[49, 46, 50, 46, 51, 46, 52, 0, 9, 9, 9, 9] :: mem" and ?bs = "[49, 46, 50, 46, 51, 46, 52] :: byte list"
  have "\<exists>ps tail. ?bs = dots ps @ tail \<and> length ps = 4 \<and> (\<forall>p \<in> set ps. plain p \<and> dec p mod 2 ^ 32 < 256) \<and> (tail = [] \<or> isspace_c (hd tail))"
    by (intro exI [of _ "[[49], [50], [51], [52]]"] exI [of _ "[]"]) (simp add: plain_def isdigit_def dec_def)
  moreover have "cstr ?m 0 ?bs" "8 + 4 \<le> length ?m" by simp_all
  ultimately show ?thesis using inet_pton4_exact [of ?m 0 ?bs 8] by (simp only: if_True)
qed

text \<open>
  C32. \<open>inet_pton\<close> returns for every string and every address family: it reads no byte past the NUL and stores nothing outside its local
  array, it returns 1 after it has stored exactly the bytes of an address, 0 without a store,
  and \<open>- 1\<close> with \<open>EAFNOSUPPORT\<close> for a family it does not know.
\<close>

theorem inet_pton_total:
  assumes "cstr m src bs" "dst + (if af = AF_INET6 then 16 else 4) \<le> length m"
  shows "(\<exists>as. length as = (if af = AF_INET6 then 16 else 4) \<and> inet_pton af m src dst = Some (1, wr m dst as, None)) \<or>
    inet_pton af m src dst = Some (0, m, None) \<or> af \<noteq> AF_INET \<and> af \<noteq> AF_INET6 \<and> inet_pton af m src dst = Some (- 1, m, Some EAFNOSUPPORT)"
proof -
  have ne: "AF_INET \<noteq> AF_INET6" by (simp add: AF_INET_def AF_INET6_def)
  consider "af = AF_INET6" | "af = AF_INET" | "af \<noteq> AF_INET" "af \<noteq> AF_INET6" by blast
  then show ?thesis
  proof cases
    case 1
    then show ?thesis using inet_pton6_total [OF assms(1), of dst] assms(2) ne by (auto simp: inet_pton_def)
  next
    case 2
    then show ?thesis using inet_pton4_quad [OF assms(1), of dst m] assms(2) ne quad_of_length [of bs] by (cases "quad_of bs") (auto simp: inet_pton_def)
  next
    case 3
    then show ?thesis by (simp add: inet_pton_def)
  qed
qed

theorem inet_pton_total_witness:
  "(\<exists>as. length as = 16 \<and> inet_pton AF_INET6 (58 # 58 # replicate 17 0) 0 3 = Some (1, wr (58 # 58 # replicate 17 0) 3 as, None)) \<or>
    inet_pton AF_INET6 (58 # 58 # replicate 17 0) 0 3 = Some (0, 58 # 58 # replicate 17 0, None)"
  using inet_pton_total [of "58 # 58 # replicate 17 0" 0 "[58, 58]" 3 AF_INET6] by (simp add: ld_def)

end
