(* ===== verification/Hash_Core.thy ===== *)
theory Hash_Core
  imports Prelude
begin

text \<open>
  What the iterated hash functions of the library share: the byte order of words, the cutting of a
  message into blocks, and the interface \<open>stream_hash\<close> of an incremental hash (\<open>Init\<close>,
  \<open>Update\<close>, \<open>Final\<close>), which the clients (\<^verbatim>\<open>mdXhl.c\<close>, \<^verbatim>\<open>hashhl.c\<close>, \<^verbatim>\<open>hmac.c\<close>) rely on.
\<close>

section \<open>Blocks of a message\<close>

text \<open>The full blocks of \<open>n\<close> bytes are folded into the chaining value; \<open>leftover\<close> is the rest.\<close>

function absorb :: "nat \<Rightarrow> ('s \<Rightarrow> byte list \<Rightarrow> 's) \<Rightarrow> 's \<Rightarrow> byte list \<Rightarrow> 's" where
  "absorb n f s xs = (if n = 0 \<or> length xs < n then s else absorb n f (f s (take n xs)) (drop n xs))"
  by pat_completeness auto
termination by (relation "measure (\<lambda>(n, f, s, xs). length xs)") auto

declare absorb.simps [simp del]

definition leftover :: "nat \<Rightarrow> byte list \<Rightarrow> byte list" where
  "leftover n xs = drop (length xs div n * n) xs"

lemma absorb_short: "length xs < n \<Longrightarrow> absorb n f s xs = s"
  by (simp add: absorb.simps)

lemma absorb_step: "0 < n \<Longrightarrow> n \<le> length xs \<Longrightarrow> absorb n f s xs = absorb n f (f s (take n xs)) (drop n xs)"
  by (simp add: absorb.simps [of n f s xs])

lemma absorb_append:
  "0 < n \<Longrightarrow> n dvd length xs \<Longrightarrow> absorb n f s (xs @ ys) = absorb n f (absorb n f s xs) ys"
proof (induction n f s xs rule: absorb.induct)
  case (1 n f s xs)
  show ?case
  proof (cases "length xs < n")
    case True
    with "1.prems" have "xs = []" by (auto dest: dvd_imp_le)
    then show ?thesis using "1.prems" by (simp add: absorb_short)
  next
    case False
    with "1.prems" have "n dvd length (drop n xs)" by (auto simp: dvd_diff_nat)
    with "1" False show ?thesis by (simp add: absorb_step)
  qed
qed

lemma absorb_leftover: "0 < n \<Longrightarrow> absorb n f s (xs @ ys) = absorb n f (absorb n f s xs) (leftover n xs @ ys)"
proof (induction n f s xs rule: absorb.induct)
  case (1 n f s xs)
  show ?case
  proof (cases "length xs < n")
    case True
    then show ?thesis by (simp add: absorb_short leftover_def)
  next
    case False
    then have "length xs div n * n = n + (length xs - n) div n * n"
      using "1.prems" by (simp add: le_div_geq)
    then have "leftover n xs = leftover n (drop n xs)"
      by (simp add: leftover_def add.commute)
    with "1" False show ?thesis by (simp add: absorb_step)
  qed
qed

lemma length_leftover [simp]: "length (leftover n xs) = length xs mod n"
  by (simp add: leftover_def minus_div_mult_eq_mod)

lemma leftover_Nil [simp]: "length xs mod n = 0 \<Longrightarrow> leftover n xs = []"
  by (metis length_0_conv length_leftover)

lemma leftover_short: "length xs < n \<Longrightarrow> leftover n xs = xs"
  by (simp add: leftover_def)

lemma leftover_append: "0 < n \<Longrightarrow> leftover n (xs @ ys) = leftover n (leftover n xs @ ys)"
proof -
  assume n: "0 < n"
  have "length xs + length ys = length xs div n * n + (length xs mod n + length ys)"
    using div_mult_mod_eq [of "length xs" n] by linarith
  then have "(length xs + length ys) div n * n = length xs div n * n + (length xs mod n + length ys) div n * n"
    using n by (metis add_mult_distrib div_mult_self3 neq0_conv)
  then have "drop (length (xs @ ys) div n * n) (xs @ ys) =
      drop (length (leftover n xs @ ys) div n * n) (drop (length xs div n * n) (xs @ ys))"
    by (simp only: drop_drop length_append length_leftover add.commute)
  also have "drop (length xs div n * n) (xs @ ys) = leftover n xs @ ys"
    by (simp add: leftover_def)
  finally show ?thesis
    by (simp only: leftover_def [of n "xs @ ys"] leftover_def [of n "leftover n xs @ ys"])
qed

lemma leftover_dvd: "n dvd length xs \<Longrightarrow> leftover n xs = []"
  by (simp add: leftover_def)

lemma leftover_drop: "0 < n \<Longrightarrow> n \<le> length xs \<Longrightarrow> leftover n (drop n xs) = leftover n xs"
  using leftover_append [of n "take n xs" "drop n xs"] by (simp add: leftover_dvd)

section \<open>Byte order\<close>

definition le32 :: "u32 \<Rightarrow> byte list" where
  "le32 w = [ucast w, ucast (drop_bit 8 w), ucast (drop_bit 16 w), ucast (drop_bit 24 w)]"

definition be32 :: "u32 \<Rightarrow> byte list" where "be32 w = rev (le32 w)"

definition le64 :: "u64 \<Rightarrow> byte list" where
  "le64 w = [ucast w, ucast (drop_bit 8 w), ucast (drop_bit 16 w), ucast (drop_bit 24 w),
     ucast (drop_bit 32 w), ucast (drop_bit 40 w), ucast (drop_bit 48 w), ucast (drop_bit 56 w)]"

definition be64 :: "u64 \<Rightarrow> byte list" where "be64 w = rev (le64 w)"

text \<open>
  \<^verbatim>\<open>memcpy\<close> of a byte block into an array of 32-bit words on a little-endian machine, and the
  big-endian reading of the same bytes.
\<close>

fun words_le :: "byte list \<Rightarrow> u32 list" where
  "words_le (a # b # c # d # r) =
     (ucast a OR push_bit 8 (ucast b) OR push_bit 16 (ucast c) OR push_bit 24 (ucast d)) # words_le r"
| "words_le _ = []"

fun words_be :: "byte list \<Rightarrow> u32 list" where
  "words_be (a # b # c # d # r) =
     (ucast d OR push_bit 8 (ucast c) OR push_bit 16 (ucast b) OR push_bit 24 (ucast a)) # words_be r"
| "words_be _ = []"

lemma length_words [simp]: "length (words_le bs) = length bs div 4" "length (words_be bs) = length bs div 4"
  by (induction bs rule: words_le.induct) simp_all

lemma length_word_bytes [simp]:
  "length (le32 w) = 4" "length (be32 w) = 4" "length (le64 v) = 8" "length (be64 v) = 8"
  by (simp_all add: le32_def be32_def le64_def be64_def)

text \<open>Merkle-Damgard strengthening: one bit, zeros, and the length in bits in \<open>l\<close> bytes.\<close>

definition md_pad :: "nat \<Rightarrow> nat \<Rightarrow> (nat \<Rightarrow> byte list) \<Rightarrow> byte list \<Rightarrow> byte list" where
  "md_pad n l enc m = m @ [0x80] @ replicate ((2 * n - 1 - l - length m mod n) mod n) 0 @ enc (8 * length m)"

lemma md_pad_zeros:
  assumes "l < n" "r < (n::nat)"
  shows "(2 * n - 1 - l - r) mod n = (if r < n - l then n - l - 1 - r else 2 * n - l - 1 - r)"
proof (cases "r < n - l")
  case True
  then have "2 * n - 1 - l - r = (n - l - 1 - r) + n" using assms by linarith
  then have "(2 * n - 1 - l - r) mod n = (n - l - 1 - r) mod n" by (metis mod_add_self2)
  then show ?thesis using True assms by simp
next
  case False
  then show ?thesis using assms by simp
qed

lemma md_pad_dvd:
  assumes "l < n" "\<And>k. length (enc k) = l"
  shows "n dvd length (md_pad n l enc m)"
proof -
  define q r where "q = length m div n * n" and "r = length m mod n"
  have r: "r < n" using assms by (simp add: r_def)
  have m: "length m = q + r" by (simp add: q_def r_def)
  have len: "length (md_pad n l enc m) = q + r + 1 + (2 * n - 1 - l - r) mod n + l"
    unfolding md_pad_def r_def [symmetric] by (simp add: assms(2) m)
  have "length (md_pad n l enc m) = q + n \<or> length (md_pad n l enc m) = q + 2 * n"
    unfolding len md_pad_zeros [OF assms(1) r] using assms(1) r by (auto split: if_splits)
  then show ?thesis by (auto simp: q_def)
qed

text \<open>The padding bytes of \<^verbatim>\<open>md4c.c\<close>, \<^verbatim>\<open>md5c.c\<close> and \<^verbatim>\<open>rmd160.c\<close>, one table in each file.\<close>

definition PADDING :: "byte list" where
  "PADDING = 0x80 # replicate 63 0"

lemma take_PADDING: "0 < k \<Longrightarrow> k \<le> 64 \<Longrightarrow> take k PADDING = 0x80 # replicate (k - 1) 0"
  by (cases k) (simp_all add: PADDING_def)

section \<open>Checked buffers and the block loop\<close>

text \<open>
  \<open>for_blocks\<close> is the loop \<^verbatim>\<open>for (i = partLen; i + 63 < inputLen; i += 64)\<close>, whose offset and
  comparison are 32-bit; the input object has \<open>inputLen\<close> bytes.
\<close>

definition rd :: "byte list \<Rightarrow> u32 \<Rightarrow> u32 \<Rightarrow> byte list option" where
  "rd input i n = (if unat i + unat n \<le> length input then Some (take (unat n) (drop (unat i) input)) else None)"

definition put :: "byte list \<Rightarrow> nat \<Rightarrow> byte list \<Rightarrow> byte list option" where
  "put buf p d = (if p + length d \<le> length buf then Some (wr buf p d) else None)"

function for_blocks ::
  "(u32 list \<Rightarrow> byte list \<Rightarrow> u32 list) \<Rightarrow> byte list \<Rightarrow> u32 \<Rightarrow> u32 list \<Rightarrow> u32 \<Rightarrow> (u32 list \<times> u32) option" where
  "for_blocks transform input inputLen s i = (if i + 63 < inputLen then
     (if unat i + 64 \<le> unat inputLen
      then for_blocks transform input inputLen (transform s (take 64 (drop (unat i) input))) (i + 64)
      else None)
   else Some (s, i))"
  by pat_completeness auto
termination
proof (relation "measure (\<lambda>(_, _, n, _, i). unat n - unat i)")
  fix transform :: "u32 list \<Rightarrow> byte list \<Rightarrow> u32 list" and input s and inputLen i :: u32
  assume "unat i + 64 \<le> unat inputLen"
  then have "unat (i + 64) = unat i + 64"
    using unat_lt_len [of inputLen] by (simp add: unat_word_ariths)
  with \<open>unat i + 64 \<le> unat inputLen\<close>
  show "((transform, input, inputLen, transform s (take 64 (drop (unat i) input)), i + 64),
      transform, input, inputLen, s, i) \<in> measure (\<lambda>(_, _, n, _, i). unat n - unat i)" by simp
qed simp

declare for_blocks.simps [simp del]

text \<open>The step every buffered hash makes: a new piece either fits the buffer or completes a block.\<close>

lemma fill_short:
  assumes "length m mod n + length d < n"
  shows "absorb n f iv (m @ d) = absorb n f iv m" "leftover n (m @ d) = leftover n m @ d"
  using assms absorb_leftover [of n f iv m d] leftover_append [of n m d]
  by (auto simp: absorb_short leftover_short)

lemma fill_full:
  assumes "0 < n" "n \<le> length m mod n + length d"
  defines "p \<equiv> n - length m mod n"
  shows "absorb n f iv (m @ d) = absorb n f (f (absorb n f iv m) (leftover n m @ take p d)) (drop p d)"
    and "leftover n (m @ d) = leftover n (drop p d)"
proof -
  have "length m mod n < n" using assms(1) by simp
  then have t: "take n (leftover n m @ d) = leftover n m @ take p d"
    "drop n (leftover n m @ d) = drop p d"
    by (simp_all add: p_def)
  show "absorb n f iv (m @ d) = absorb n f (f (absorb n f iv m) (leftover n m @ take p d)) (drop p d)"
    using absorb_leftover [of n f iv m d] assms t absorb_step [of n "leftover n m @ d"] by simp
  show "leftover n (m @ d) = leftover n (drop p d)"
    using leftover_append [of n m d] leftover_drop [of n "leftover n m @ d"] assms t by simp
qed

lemma put_ok: "p + length d \<le> length b \<Longrightarrow> put b p d = Some (take p b @ d @ drop (p + length d) b)"
  by (simp add: put_def wr_conv)

lemma unat_low_bits: "unat (drop_bit 3 (c :: u32) AND 0x3F) = unat c div 8 mod 64"
proof -
  have "0x3F = (mask 6 :: u32)" by (simp add: mask_eq_exp_minus_1)
  then show ?thesis by (simp only: unat_and_mask unat_drop_bit) simp
qed

lemma add_high_word: "x < 2 ^ 32 \<Longrightarrow> x + 2 ^ 32 * (y mod 2 ^ 32) = (x + 2 ^ 32 * y) mod 2 ^ 64" for x y :: nat
proof -
  assume x: "x < 2 ^ 32"
  have "(x + 2 ^ 32 * y) mod (2 ^ 32 * 2 ^ 32) = 2 ^ 32 * ((x + 2 ^ 32 * y) div 2 ^ 32 mod 2 ^ 32) + (x + 2 ^ 32 * y) mod 2 ^ 32"
    by (rule mod_mult2_eq)
  with x show ?thesis by simp
qed

lemma bit_count_add:
  fixes c0 c1 l :: u32
  defines "b \<equiv> push_bit 3 l"
  shows "unat (c0 + b) + 2 ^ 32 * unat ((if c0 + b < b then c1 + 1 else c1) + drop_bit 29 l)
    = (unat c0 + 2 ^ 32 * unat c1 + 8 * unat l) mod 2 ^ 64"
proof -
  define k :: nat where "k = (if c0 + b < b then 1 else 0)"
  define h where "h = unat l div 2 ^ 29"
  have b: "unat b = 8 * unat l mod 2 ^ 32"
    by (simp only: b_def unat_push_bit) (simp add: mult.commute)
  have l: "8 * unat l = unat b + 2 ^ 32 * h"
    using mod_mult_div_eq [of "8 * unat l" "2 ^ 32"] div_mult_mult1 [of 8 "unat l" "2 ^ 29"]
    unfolding b h_def by simp
  have sum: "unat (c0 + b) + 2 ^ 32 * k = unat c0 + unat b"
    using unat_lt_len [of c0] unat_lt_len [of b]
    by (cases "unat c0 + unat b < 2 ^ 32") (auto simp: k_def word_less_nat_alt unat_word_ariths mod_if)
  have hi: "unat ((if c0 + b < b then c1 + 1 else c1) + drop_bit 29 l) = (unat c1 + k + h) mod 2 ^ 32"
    by (simp add: k_def h_def unat_word_ariths unat_drop_bit mod_simps)
  have "unat (c0 + b) + 2 ^ 32 * ((unat c1 + k + h) mod 2 ^ 32)
      = (unat (c0 + b) + 2 ^ 32 * (unat c1 + k + h)) mod 2 ^ 64"
    using unat_lt_len [of "c0 + b"] by (intro add_high_word) simp
  also have "unat (c0 + b) + 2 ^ 32 * (unat c1 + k + h) = unat c0 + 2 ^ 32 * unat c1 + 8 * unat l"
    using sum l by (simp add: algebra_simps)
  finally show ?thesis unfolding hi .
qed

lemma for_blocks_absorb:
  assumes "length input = unat inputLen" "unat inputLen + 63 < 2 ^ 32"
  shows "unat i \<le> unat inputLen \<Longrightarrow>
    \<exists>j. for_blocks f input inputLen s i = Some (absorb 64 f s (drop (unat i) input), j) \<and>
        unat j \<le> unat inputLen \<and> drop (unat j) input = leftover 64 (drop (unat i) input)"
  using assms
proof (induction f input inputLen s i rule: for_blocks.induct)
  case (1 f input inputLen s i)
  have i63: "unat (i + 63) = unat i + 63"
    using "1.prems" by (simp add: unat_word_ariths)
  show ?case
  proof (cases "unat i + 64 \<le> unat inputLen")
    case True
    then have "unat (i + 64) = unat i + 64"
      using "1.prems" by (simp add: unat_word_ariths)
    moreover have "i + 63 < inputLen" using True i63 by (simp add: word_less_nat_alt)
    ultimately show ?thesis
      using True "1.IH" "1.prems"
      by (simp add: for_blocks.simps [of f input inputLen s i] absorb_step leftover_drop [symmetric] add.commute)
  next
    case False
    then have "\<not> i + 63 < inputLen" using i63 by (simp add: word_less_nat_alt)
    then show ?thesis
      using False "1.prems" by (simp add: for_blocks.simps [of f input inputLen s i] absorb_short leftover_short)
  qed
qed

lemma le32_le64:
  "le32 (ucast w) @ le32 (ucast (drop_bit 32 w)) = le64 w"
  by (auto simp: le32_def le64_def bit_simps intro!: bit_eqI)

lemma split_count:
  assumes "unat (c0 :: u32) + 2 ^ 32 * unat (c1 :: u32) = k mod 2 ^ 64"
  shows "c0 = ucast (word_of_nat k :: u64)" "c1 = ucast (drop_bit 32 (word_of_nat k :: u64))"
proof -
  define w :: u64 where "w = word_of_nat k"
  have w: "unat w = unat c0 + 2 ^ 32 * unat c1" using assms by (simp add: w_def unat_of_nat)
  have "unat (ucast w :: u32) = unat c0"
    using unat_lt_len [of c0] by (simp add: unsigned_ucast_eq take_bit_eq_mod w)
  then show "c0 = ucast w" by (metis word_unat_eq_iff)
  have "unat (ucast (drop_bit 32 w) :: u32) = unat c1"
    using unat_lt_len [of c0] unat_lt_len [of c1]
    by (simp only: unsigned_ucast_eq take_bit_eq_mod unat_drop_bit w) simp
  then show "c1 = ucast (drop_bit 32 w)" by (metis word_unat_eq_iff)
qed

lemma count_idx:
  assumes "unat (c0 :: u32) + 2 ^ 32 * unat (c1 :: u32) = 8 * l mod 2 ^ 64"
  shows "unat (drop_bit 3 c0 AND 0x3F) = l mod 64"
proof -
  have "(unat c0 + 2 ^ 32 * unat c1) mod 512 = 8 * l mod 2 ^ 64 mod 512" using assms by simp
  also have "(unat c0 + 2 ^ 32 * unat c1) mod 512 = unat c0 mod 512"
    using mod_mult_self2 [of "unat c0" 512 "2 ^ 23 * unat c1"] by (simp add: mult.assoc)
  also have "8 * l mod 2 ^ 64 mod 512 = 8 * (l mod 64)"
    by (simp add: mod_mod_cancel mult_mod_right)
  finally have "unat c0 mod (8 * 64) = 8 * (l mod 64)" by simp
  then have "8 * (unat c0 div 8 mod 64) + unat c0 mod 8 = 8 * (l mod 64)"
    by (simp only: mod_mult2_eq)
  moreover have "unat c0 mod 8 < 8" by simp
  ultimately show ?thesis unfolding unat_low_bits by linarith
qed

lemma length_absorb:
  "length iv = k \<Longrightarrow> \<forall>s b. length (f s b) = k \<Longrightarrow> length (absorb n f iv m) = k"
proof (induction n f iv m rule: absorb.induct)
  case (1 n f s xs)
  then show ?case by (cases "n = 0 \<or> length xs < n") (simp_all add: absorb.simps [of n f s xs])
qed

text \<open>
  \<open>buffered n f iv s b m\<close>: chaining value \<open>s\<close> and block buffer \<open>b\<close> after the message \<open>m\<close>.  The two
  branches of an update, as the 64-byte hashes make them.
\<close>

definition buffered :: "nat \<Rightarrow> ('s \<Rightarrow> byte list \<Rightarrow> 's) \<Rightarrow> 's \<Rightarrow> 's \<Rightarrow> byte list \<Rightarrow> byte list \<Rightarrow> bool" where
  "buffered n f iv s b m \<longleftrightarrow> length b = n \<and> s = absorb n f iv m \<and> take (length m mod n) b = leftover n m"

lemma buffered_Nil [simp]: "buffered n f iv s b [] \<longleftrightarrow> length b = n \<and> s = iv"
  by (auto simp: buffered_def absorb.simps leftover_def)

lemma buffered_short:
  assumes "buffered n f iv s b m" "length m mod n + length d < n"
  shows "\<exists>b'. put b (length m mod n) d = Some b' \<and> buffered n f iv s b' (m @ d)"
proof -
  have "(length m + length d) mod n = length m mod n + length d"
    using assms(2) by (metis mod_add_left_eq mod_less)
  with assms show ?thesis
    using fill_short(1) [of m n d f iv] fill_short(2) [of m n d] by (simp add: buffered_def put_ok)
qed

lemma buffered_block:
  assumes "buffered 64 f iv s b m" "64 \<le> length m mod 64 + length d" "length d < 2 ^ 32 - 63"
    and idx: "unat (idx :: u32) = length m mod 64" and n: "unat (n :: u32) = length d"
  shows "\<exists>d1 b1 s' j d2 b2. rd d 0 (64 - idx) = Some d1 \<and> put b (length m mod 64) d1 = Some b1 \<and>
    for_blocks f d n (f s b1) (64 - idx) = Some (s', j) \<and>
    rd d j (n - j) = Some d2 \<and> put b1 0 d2 = Some b2 \<and> buffered 64 f iv s' b2 (m @ d)"
proof -
  define r where "r = length m mod 64"
  define B where "B = leftover 64 m @ take (64 - r) d"
  define k where "k = (length m + length d) mod 64"
  have r: "r < 64" "64 - r \<le> length d" using assms(2) by (simp_all add: r_def)
  have part: "unat (64 - idx) = 64 - r"
    using r idx by (simp add: unat_sub word_le_nat_alt r_def)
  have b: "length b = 64" "take r b = leftover 64 m" "s = absorb 64 f iv m"
    using assms(1) by (simp_all add: buffered_def r_def)
  then have B: "length B = 64" "put b r (take (64 - r) d) = Some B"
    using r by (simp_all add: B_def put_ok) (simp add: r_def)
  obtain j where j: "for_blocks f d n (f s B) (64 - idx) = Some (absorb 64 f iv (m @ d), j)"
      "unat j \<le> length d" "drop (unat j) d = leftover 64 (m @ d)"
    using for_blocks_absorb [of d n "64 - idx" f "f s B"] b(3) r
      fill_full(1) [of 64 m d f iv] fill_full(2) [of 64 m d] assms(2,3) n part
    by (auto simp: r_def B_def)
  have "length d - unat j = length (leftover 64 (m @ d))" by (metis j(3) length_drop)
  then have k: "unat j + k = length d" using j(2) by (simp add: k_def)
  then have "unat (n - j) = k" using j n by (simp add: unat_sub word_le_nat_alt)
  then have "rd d j (n - j) = Some (leftover 64 (m @ d))"
    using j k by (simp add: rd_def k_def)
  moreover have "put B 0 (leftover 64 (m @ d)) = Some (leftover 64 (m @ d) @ drop k B)" "k \<le> 64"
    using B put_ok [of 0 "leftover 64 (m @ d)" B] by (simp_all add: k_def)
  moreover have "rd d 0 (64 - idx) = Some (take (64 - r) d)"
    using r by (simp add: rd_def part)
  ultimately show ?thesis
    using B j(1) by (auto simp: buffered_def r_def [symmetric] k_def)
qed

lemma buffered_skip:
  assumes "buffered 64 f iv s b m" "length m mod 64 = 0" "length d < 2 ^ 32 - 63" "unat (n :: u32) = length d"
  shows "\<exists>s' j d2 b2. for_blocks f d n s 0 = Some (s', j) \<and> unat j \<le> length d \<and>
    rd d j (n - j) = Some d2 \<and> put b 0 d2 = Some b2 \<and> (unat j = length d \<longrightarrow> b2 = b) \<and> buffered 64 f iv s' b2 (m @ d)"
proof -
  have dvd: "64 dvd length m" using assms(2) by (simp add: mod_eq_0_iff_dvd)
  obtain j where j: "for_blocks f d n s 0 = Some (absorb 64 f s d, j)" "unat j \<le> length d"
      "drop (unat j) d = leftover 64 d"
    using for_blocks_absorb [of d n 0 f s] assms(3,4) by auto
  have lm: "leftover 64 (m @ d) = leftover 64 d" "absorb 64 f iv (m @ d) = absorb 64 f s d"
    using dvd leftover_append [of 64 m d] absorb_append [of 64 m f iv d] assms(1)
    by (simp_all add: leftover_dvd buffered_def)
  have "length d - unat j = length (leftover 64 d)" by (metis j(3) length_drop)
  then have k: "unat j + length d mod 64 = length d" using j(2) by simp
  then have "unat (n - j) = length d mod 64" using j(2) assms(4) by (simp add: unat_sub word_le_nat_alt)
  then have "rd d j (n - j) = Some (leftover 64 d)" using j k by (simp add: rd_def)
  moreover have "put b 0 (leftover 64 d) = Some (leftover 64 d @ drop (length d mod 64) b)"
    using assms(1) put_ok [of 0 "leftover 64 d" b] by (simp add: buffered_def less_imp_le)
  moreover have "(length m + length d) mod 64 = length d mod 64"
    using assms(2) by (metis add_0 mod_add_left_eq)
  moreover have "leftover 64 d = []" if "unat j = length d" using k that by (metis add_cancel_left_right length_0_conv length_leftover)
  ultimately show ?thesis
    using j lm assms(1) k by (auto simp: buffered_def)
qed

lemma for_blocks_wrap:
  assumes "0 < r" "r < 64"
  shows "(unat i + r) mod 64 = 0 \<Longrightarrow> for_blocks f input (2 ^ 32 - 1) s i = None"
proof (induction f input "2 ^ 32 - 1 :: u32" s i rule: for_blocks.induct)
  case (1 f input s i)
  have i: "unat i < 2 ^ 32" using unat_lt_len [of i] by simp
  have m1: "unat (2 ^ 32 - 1 :: u32) = 2 ^ 32 - 1" by simp
  show ?case
  proof (cases "unat i + 64 \<le> 2 ^ 32 - 1")
    case True
    then have "unat (i + 63) = unat i + 63" "unat (i + 64) = unat i + 64"
      by (simp_all add: unat_word_ariths)
    moreover have "(unat i + 64 + r) mod 64 = 0"
      using "1.prems" mod_add_self1 [of 64 "unat i + r"] by (simp add: ac_simps)
    ultimately show ?thesis
      using True "1.hyps" m1 by (subst for_blocks.simps) (simp add: word_less_nat_alt)
  next
    case False
    obtain k where k: "unat i + r = 64 * k" using "1.prems" by (auto simp: mod_eq_0_iff_dvd dvd_def)
    then have "k = 2 ^ 26" using False i assms by simp
    then have "unat i = 2 ^ 32 - r" using k by simp
    then have "unat (i + 63) = 63 - r" using assms by (simp add: unat_word_ariths mod_if)
    then show ?thesis
      using False m1 by (subst for_blocks.simps) (simp add: word_less_nat_alt)
  qed
qed

lemma used_space:
  assumes "unat w dvd 2 ^ 61"
  shows "unat (drop_bit 3 (word_of_nat (8 * l) :: u64) mod w) = l mod unat w"
proof -
  have "unat (drop_bit 3 (word_of_nat (8 * l) :: u64)) = 8 * l mod (8 * 2 ^ 61) div 8"
    unfolding unat_drop_bit unat_of_nat by simp
  also have "\<dots> = l mod 2 ^ 61" by (simp only: mult_mod_right [symmetric])
  finally show ?thesis using assms by (simp add: unat_mod_distrib mod_mod_cancel)
qed

lemma add_bits: "word_of_nat (8 * l) + push_bit 3 (word_of_nat k) = (word_of_nat (8 * (l + k)) :: u64)"
  by (simp add: push_bit_eq_mult algebra_simps)

lemma buffered_tail:
  assumes "length b = n" "0 < n"
  shows "\<exists>b'. put b 0 (leftover n M) = Some b' \<and> buffered n f iv (absorb n f iv M) b' M"
  using assms by (simp add: put_ok buffered_def mod_le_divisor)

lemma put_at: "length xs = p \<Longrightarrow> length d \<le> length ys \<Longrightarrow> put (xs @ ys) p d = Some (xs @ d @ drop (length d) ys)"
  by (auto simp: put_ok)

lemma pad_one:
  assumes "length m mod n < n - l" "l < n" "\<And>k. length (enc k) = l"
  shows "absorb n f iv (md_pad n l enc m) = f (absorb n f iv m)
    (leftover n m @ [0x80] @ replicate (n - l - 1 - length m mod n) 0 @ enc (8 * length m))"
proof -
  define P where "P = [0x80] @ replicate (n - l - 1 - length m mod n) 0 @ enc (8 * length m)"
  have "md_pad n l enc m = m @ P"
    unfolding md_pad_def P_def using assms md_pad_zeros [of l n "length m mod n"] by simp
  then have "absorb n f iv (md_pad n l enc m) = absorb n f (absorb n f iv m) (leftover n m @ P)"
    using absorb_leftover [of n f iv m P] assms(2) by simp
  moreover have "length (leftover n m @ P) = n" using assms by (simp add: P_def)
  ultimately have "absorb n f iv (md_pad n l enc m) = f (absorb n f iv m) (leftover n m @ P)"
    using assms(2) by (simp add: absorb_step absorb_short)
  then show ?thesis unfolding P_def .
qed

lemma pad_two:
  assumes "n - l \<le> length m mod n" "l < n" "\<And>k. length (enc k) = l"
  shows "absorb n f iv (md_pad n l enc m) = f (f (absorb n f iv m)
    (leftover n m @ [0x80] @ replicate (n - 1 - length m mod n) 0)) (replicate (n - l) 0 @ enc (8 * length m))"
proof -
  define r where "r = length m mod n"
  define P :: "byte list" where "P = [0x80] @ replicate (n - 1 - r) 0"
  define Q :: "byte list" where "Q = replicate (n - l) 0 @ enc (8 * length m)"
  have r: "r < n" "\<not> r < n - l" using assms(1,2) by (simp_all add: r_def)
  have "(2 * n - 1 - l - r) mod n = (n - 1 - r) + (n - l)"
    unfolding md_pad_zeros [OF assms(2) r(1)] using r assms(2) by simp
  then have "md_pad n l enc m = m @ (P @ Q)"
    by (simp add: md_pad_def P_def Q_def r_def [symmetric] replicate_add)
  then have a: "absorb n f iv (md_pad n l enc m) = absorb n f (absorb n f iv m) ((leftover n m @ P) @ Q)"
    using absorb_leftover [of n f iv m "P @ Q"] assms(2) by simp
  have "length (leftover n m @ P) = n" "length Q = n"
    using r assms by (simp_all add: P_def Q_def r_def [symmetric])
  then show ?thesis
    unfolding a using assms(2) absorb_append [of n "leftover n m @ P" f "absorb n f iv m" Q]
    by (simp add: absorb_step absorb_short P_def Q_def r_def)
qed

lemma map_nth_take: "k \<le> length s \<Longrightarrow> map (\<lambda>i. g (s ! i)) [0..<k] = map g (take k s)"
  by (simp add: list_eq_iff_nth_eq)

section \<open>Sixteen-word windows\<close>

lemma mod_window: "j \<le> t \<Longrightarrow> t < j + 16 \<Longrightarrow> j mod 16 = t mod 16 \<longleftrightarrow> j = (t :: nat)"
proof
  assume "j \<le> t" "t < j + 16" "j mod 16 = t mod 16"
  then have "16 dvd t - j" "t - j < 16"
    using mod_eq_dvd_iff_nat [OF \<open>j \<le> t\<close>, of 16] by (metis, linarith)
  then have "t - j = 0" by (meson dvd_imp_le neq0_conv not_le)
  with \<open>j \<le> t\<close> show "j = t" by simp
qed simp

lemma mod16_back: "k \<le> t \<Longrightarrow> k \<le> 16 \<Longrightarrow> (t - k) mod 16 = (t + (16 - k)) mod (16 :: nat)"
proof -
  assume "k \<le> t" "k \<le> 16"
  then have "t + (16 - k) = (t - k) + 16" by linarith
  then show ?thesis by (simp only: mod_add_self2)
qed

section \<open>Literals\<close>

text \<open>\<open>nf\<close> makes the simplifier reduce a literal to the width of its type.\<close>

definition nf :: "'a::len word \<Rightarrow> 'a word" where "nf w = w"

lemma nf_literal [simp]:
  "nf (numeral k :: 'a::len word) = word_of_int (take_bit LENGTH('a) (numeral k))"
  "nf (- numeral k :: 'a word) = word_of_int ((- numeral k) mod 2 ^ LENGTH('a))"
  "nf (0 :: 'a word) = 0" "nf (1 :: 'a word) = 1"
proof -
  show "nf (numeral k :: 'a::len word) = word_of_int (take_bit LENGTH('a) (numeral k))"
    unfolding nf_def by (rule num_abs_bintr)
  show "nf (- numeral k :: 'a::len word) = word_of_int ((- numeral k) mod 2 ^ LENGTH('a))"
    unfolding take_bit_eq_mod [symmetric]
    by (simp only: nf_def wi_bintr [OF order_refl] of_int_neg_numeral)
qed (simp_all add: nf_def)

lemma Let_Pair: "Let (a, b) f = f (a, b)" by (simp add: Let_def)

section \<open>The interface of an incremental hash\<close>

text \<open>
  \<open>raw c\<close>: the object \<open>c\<close> has the size of a context, with arbitrary contents.  \<open>rep c m\<close>: the
  context \<open>c\<close> has received the message \<open>m\<close>.  \<open>okl n\<close>: \<open>Update\<close> accepts a piece of \<open>n\<close> bytes.
  \<open>None\<close> is an access outside the input or the context.
\<close>

fun updates :: "('c \<Rightarrow> byte list \<Rightarrow> 'c option) \<Rightarrow> 'c \<Rightarrow> byte list list \<Rightarrow> 'c option" where
  "updates upd c [] = Some c"
| "updates upd c (d # ds) = do { c' \<leftarrow> upd c d; updates upd c' ds }"

definition hash_of ::
  "('c \<Rightarrow> 'c) \<Rightarrow> ('c \<Rightarrow> byte list \<Rightarrow> 'c option) \<Rightarrow> ('c \<Rightarrow> (byte list \<times> 'c) option) \<Rightarrow> 'c \<Rightarrow> byte list list
    \<Rightarrow> byte list option" where
  "hash_of init upd fin c ds = do { c' \<leftarrow> updates upd (init c) ds; (d, _) \<leftarrow> fin c'; Some d }"

locale stream_hash =
  fixes raw :: "'c \<Rightarrow> bool"
    and init :: "'c \<Rightarrow> 'c"
    and upd :: "'c \<Rightarrow> byte list \<Rightarrow> 'c option"
    and fin :: "'c \<Rightarrow> (byte list \<times> 'c) option"
    and rep :: "'c \<Rightarrow> byte list \<Rightarrow> bool"
    and okl :: "nat \<Rightarrow> bool"
    and digest :: "byte list \<Rightarrow> byte list"
  assumes rep_init: "raw c \<Longrightarrow> rep (init c) []"
    and rep_upd: "rep c m \<Longrightarrow> okl (length d) \<Longrightarrow> \<exists>c'. upd c d = Some c' \<and> rep c' (m @ d)"
    and fin_rep: "rep c m \<Longrightarrow> \<exists>c'. fin c = Some (digest m, c') \<and> raw c'"
begin

lemma rep_updates:
  "rep c m \<Longrightarrow> \<forall>d \<in> set ds. okl (length d) \<Longrightarrow> \<exists>c'. updates upd c ds = Some c' \<and> rep c' (m @ concat ds)"
proof (induction ds arbitrary: c m)
  case (Cons d ds)
  obtain c' where c': "upd c d = Some c'" "rep c' (m @ d)"
    using rep_upd Cons.prems by fastforce
  with Cons.IH [OF c'(2)] Cons.prems(2) show ?case by auto
qed simp

lemma hash_chunks:
  "raw c \<Longrightarrow> \<forall>d \<in> set ds. okl (length d) \<Longrightarrow> hash_of init upd fin c ds = Some (digest (concat ds))"
  using rep_updates [OF rep_init, of c ds] fin_rep by (fastforce simp: hash_of_def)

end

end
