(* ===== verification/Hmac_Core.thy ===== *)
theory Hmac_Core
  imports Hash_Core
begin

text \<open>
  HMAC, \<^verbatim>\<open>src/libc/hash/hmac.c\<close>, a client of the streaming hashes through its table of function pointers.
  The caller's buffers are byte lists; a list may be longer than the \<open>dlen\<close> the caller passes.  The
  context array \<open>c\<close> and the digest array \<open>d\<close> live on the stack: their initial contents are parameters.
\<close>

section \<open>The body of \<open>hmac\<close>, for one entry of its table\<close>

record 'c hmac_ops =
  digsize :: nat
  blocksize :: nat
  h_init :: "'c \<Rightarrow> 'c"
  h_update :: "'c \<Rightarrow> byte list \<Rightarrow> 'c option"
  h_final :: "'c \<Rightarrow> (byte list \<times> 'c) option"

text \<open>The third argument of an update is cast to \<^verbatim>\<open>unsigned int\<close>.\<close>

definition as_uint :: "byte list \<Rightarrow> byte list" where
  "as_uint xs = take (length xs mod 2 ^ 32) xs"

text \<open>\<open>p\<close> points to the caller's buffer (\<open>own\<close>) or to the array \<open>d\<close>: the store of a digest through it.\<close>

definition store_p :: "bool \<Rightarrow> byte list \<Rightarrow> byte list \<Rightarrow> byte list \<Rightarrow> (byte list \<times> byte list) option" where
  "store_p own x digest d = (if own then do { digest \<leftarrow> put digest 0 x; Some (digest, d) }
     else do { d \<leftarrow> put d 0 x; Some (digest, d) })"

definition hmac_key :: "'c hmac_ops \<Rightarrow> 'c \<Rightarrow> byte list \<Rightarrow> byte list \<Rightarrow> (byte list \<times> 'c \<times> byte list) option" where
  "hmac_key h c d key = (if blocksize h < length key then do {
       c \<leftarrow> h_update h (h_init h c) (as_uint key);
       (x, c) \<leftarrow> h_final h c;
       d \<leftarrow> put d 0 x;
       Some (take (digsize h) d, c, d)
     } else Some (key, c, d))"

definition key_pad :: "byte \<Rightarrow> byte list \<Rightarrow> byte list" where
  "key_pad b k = map (\<lambda>i. (if i < length k then k ! i else 0) XOR b) [0..<128]"

definition hmac_with ::
  "'c hmac_ops \<Rightarrow> 'c \<Rightarrow> byte list \<Rightarrow> byte list \<Rightarrow> byte list \<Rightarrow> byte list \<Rightarrow> nat \<Rightarrow> (int \<times> byte list) option" where
  "hmac_with h c d key text digest dlen = do {
     (k, c, d) \<leftarrow> hmac_key h c d key;
     let ipad = key_pad 0x36 k;
     let opad = key_pad 0x5C k;
     let own = (digsize h \<le> dlen);
     d \<leftarrow> (if own then Some d else do {
         d \<leftarrow> (if dlen \<le> length digest then put d 0 (take dlen digest) else None);
         put d dlen (replicate (digsize h - dlen) 0)
       });
     c \<leftarrow> h_update h (h_init h c) (take (blocksize h) ipad);
     c \<leftarrow> h_update h c (as_uint text);
     (x, c) \<leftarrow> h_final h c;
     (digest, d) \<leftarrow> store_p own x digest d;
     c \<leftarrow> h_update h (h_init h c) (take (blocksize h) opad);
     y \<leftarrow> (if digsize h \<le> length digest then Some (take (digsize h) digest) else None);
     c \<leftarrow> h_update h c y;
     (x, c) \<leftarrow> h_final h c;
     (digest, d) \<leftarrow> store_p own x digest d;
     digest \<leftarrow> (if own then Some digest else put digest 0 (take dlen d));
     Some (int (digsize h), digest)
   }"

section \<open>RFC 2104\<close>

definition pad_key :: "(byte list \<Rightarrow> byte list) \<Rightarrow> nat \<Rightarrow> byte list \<Rightarrow> byte list" where
  "pad_key H B K = (let k = (if B < length K then H K else K) in k @ replicate (B - length k) 0)"

definition rfc2104 :: "(byte list \<Rightarrow> byte list) \<Rightarrow> nat \<Rightarrow> byte list \<Rightarrow> byte list \<Rightarrow> byte list" where
  "rfc2104 H B K text = (let k = pad_key H B K in
     H (map (\<lambda>b. b XOR 0x5C) k @ H (map (\<lambda>b. b XOR 0x36) k @ text)))"

lemma key_pad_take:
  assumes "length k \<le> B" "B \<le> 128"
  shows "take B (key_pad b k) = map (\<lambda>x. x XOR b) (k @ replicate (B - length k) 0)"
  using assms by (intro nth_equalityI) (auto simp: key_pad_def nth_append)

text \<open>A hash that fits a table entry: digests of \<open>L\<close> bytes, blocks of \<open>B\<close> bytes, pieces below \<open>2 ^ 29\<close> bytes accepted.\<close>

locale hmac_hash = stream_hash raw init upd fin rep okl digest
  for raw :: "'c \<Rightarrow> bool" and init upd fin rep okl digest +
  fixes L B :: nat
  assumes length_digest: "length (digest m) = L"
    and sizes: "L \<le> B" "B \<le> 128"
    and okl_small: "n < 2 ^ 29 \<Longrightarrow> okl n"
begin

abbreviation entry :: "'c hmac_ops" where
  "entry \<equiv> \<lparr>digsize = L, blocksize = B, h_init = init, h_update = upd, h_final = fin\<rparr>"

lemma one_update:
  assumes "raw c" "okl (length x)"
  obtains c1 c2 where "upd (init c) x = Some c1" "fin c1 = Some (digest x, c2)" "raw c2"
  using rep_init [OF assms(1)] rep_upd assms(2) fin_rep by (metis append_Nil)

lemma two_updates:
  assumes "raw c" "okl (length x)" "okl (length y)"
  obtains c1 c2 c3 where "upd (init c) x = Some c1" "upd c1 y = Some c2" "fin c2 = Some (digest (x @ y), c3)" "raw c3"
  using rep_init [OF assms(1)] rep_upd assms(2,3) fin_rep by (metis append_Nil)

lemma key_step:
  assumes "raw c" "length d = 128" "length key < 2 ^ 29"
  obtains k c' d' where "hmac_key entry c d key = Some (k, c', d')" "raw c'" "length d' = 128"
    "\<And>b. take B (key_pad b k) = map (\<lambda>x. x XOR b) (pad_key digest B key)"
proof (cases "B < length key")
  case True
  obtain c1 c2 where "upd (init c) key = Some c1" "fin c1 = Some (digest key, c2)" "raw c2"
    by (rule one_update [OF assms(1) okl_small [OF assms(3)]])
  moreover have "as_uint key = key" using assms(3) by (simp add: as_uint_def)
  ultimately show thesis
    using True that [of "digest key"] assms(2) sizes length_digest [of key] key_pad_take [of "digest key" B]
    by (simp add: hmac_key_def put_ok pad_key_def)
next
  case False
  then show thesis
    using that [of key c d] assms sizes key_pad_take [of key B] by (simp add: hmac_key_def pad_key_def)
qed

lemma length_pad_key: "length (pad_key digest B key) = B"
  using sizes by (auto simp: pad_key_def Let_def length_digest)

lemma hmac_with_rfc:
  assumes c: "raw c" "length d = 128" "length key < 2 ^ 29" and msg: "length msg < 2 ^ 29"
    and dlen: "L \<le> dlen" "dlen \<le> length dg"
  shows "hmac_with entry c d key msg dg dlen = Some (int L, rfc2104 digest B key msg @ drop L dg)"
proof -
  define pad where "pad b = map (\<lambda>x. x XOR b) (pad_key digest B key)" for b :: byte
  have pad: "okl (length (pad b))" for b using sizes by (simp add: pad_def length_pad_key okl_small)
  obtain k c' d' where k: "hmac_key entry c d key = Some (k, c', d')" "raw c'" "\<And>b. take B (key_pad b k) = pad b"
    using key_step [OF c] unfolding pad_def by metis
  obtain c1 c2 c3 where inner: "upd (init c') (pad 0x36) = Some c1" "upd c1 msg = Some c2"
      "fin c2 = Some (digest (pad 0x36 @ msg), c3)" "raw c3"
    by (rule two_updates [OF k(2) pad okl_small [OF msg]])
  define x where "x = digest (pad 0x36 @ msg)"
  have x: "length x = L" "okl (length x)" using sizes by (simp_all add: x_def length_digest okl_small)
  obtain c4 c5 c6 where outer: "upd (init c3) (pad 0x5C) = Some c4" "upd c4 x = Some c5"
      "fin c5 = Some (digest (pad 0x5C @ x), c6)"
    by (rule two_updates [OF inner(4) pad x(2)])
  have "as_uint msg = msg" using msg by (simp add: as_uint_def)
  moreover have "rfc2104 digest B key msg = digest (pad 0x5C @ x)"
    by (simp add: rfc2104_def pad_def x_def Let_def)
  ultimately show ?thesis
    using k inner outer dlen x length_digest [of "pad 0x5C @ x"]
    by (simp add: hmac_with_def store_p_def put_ok Let_def x_def [symmetric])
qed

text \<open>A buffer shorter than the digest: the outer hash reads the caller's bytes instead of the inner digest.\<close>

lemma hmac_with_short:
  assumes c: "raw c" "length d = 128" "length key < 2 ^ 29" and msg: "length msg < 2 ^ 29"
    and dlen: "dlen < L" "dlen \<le> length dg"
  shows "hmac_with entry c d key msg dg dlen = (if length dg < L then None else
     Some (int L, take dlen (digest (map (\<lambda>b. b XOR 0x5C) (pad_key digest B key) @ take L dg)) @ drop dlen dg))"
proof -
  define pad where "pad b = map (\<lambda>x. x XOR b) (pad_key digest B key)" for b :: byte
  have pad: "okl (length (pad b))" for b using sizes by (simp add: pad_def length_pad_key okl_small)
  obtain k c' d' where k: "hmac_key entry c d key = Some (k, c', d')" "raw c'" "length d' = 128" "\<And>b. take B (key_pad b k) = pad b"
    using key_step [OF c] unfolding pad_def by metis
  obtain c1 c2 c3 where inner: "upd (init c') (pad 0x36) = Some c1" "upd c1 msg = Some c2"
      "fin c2 = Some (digest (pad 0x36 @ msg), c3)" "raw c3"
    by (rule two_updates [OF k(2) pad okl_small [OF msg]])
  have t: "okl (length (take L dg))" using sizes by (simp add: okl_small)
  obtain c4 c5 c6 where outer: "upd (init c3) (pad 0x5C) = Some c4" "upd c4 (take L dg) = Some c5"
      "fin c5 = Some (digest (pad 0x5C @ take L dg), c6)"
    by (rule two_updates [OF inner(4) pad t])
  have "as_uint msg = msg" using msg by (simp add: as_uint_def)
  then show ?thesis
    using k inner outer dlen sizes length_digest unfolding pad_def [symmetric]
    by (auto simp: hmac_with_def store_p_def put_ok Let_def)
qed

end

end
