(* ===== verification/Hash_MD.thy ===== *)
theory Hash_MD
  imports Hash_Core
begin

text \<open>
  MD4 and MD5, \<^verbatim>\<open>src/libc/common/lib/libc/md/md4c.c\<close> and \<^verbatim>\<open>md5c.c\<close>.  The two files differ only in the
  block function (\<open>MD4Transform\<close>, \<open>MD5Transform\<close>); \<open>Encode\<close>, \<open>Decode\<close>, the context, \<open>Init\<close>,
  \<open>Update\<close> and \<open>Final\<close> are the same text, so \<open>Update\<close> and \<open>Final\<close> are written once over the block
  function.  Every copy into the context buffer and every read of the caller's input is checked;
  lengths and offsets are 32-bit words, as in the code.
\<close>

section \<open>Context and helpers\<close>

record md_ctx =
  state :: "u32 list"
  count0 :: u32
  count1 :: u32
  buffer :: "byte list"

function Encode :: "u32 list \<Rightarrow> nat \<Rightarrow> nat \<Rightarrow> nat \<Rightarrow> byte list" where
  "Encode input i j len = (if j < len then
     [ucast ((input ! i) AND 0xff), ucast (drop_bit 8 (input ! i) AND 0xff),
      ucast (drop_bit 16 (input ! i) AND 0xff), ucast (drop_bit 24 (input ! i) AND 0xff)]
     @ Encode input (i + 1) (j + 4) len
   else [])"
  by pat_completeness auto
termination by (relation "measure (\<lambda>(_, _, j, len). len - j)") auto

function Decode :: "byte list \<Rightarrow> nat \<Rightarrow> nat \<Rightarrow> u32 list" where
  "Decode input j len = (if j < len then
     (ucast (input ! j) OR push_bit 8 (ucast (input ! (j + 1))) OR
      push_bit 16 (ucast (input ! (j + 2))) OR push_bit 24 (ucast (input ! (j + 3))))
     # Decode input (j + 4) len
   else [])"
  by pat_completeness auto
termination by (relation "measure (\<lambda>(_, j, len). len - j)") auto

declare Encode.simps [simp del] Decode.simps [simp del]

definition ROTATE_LEFT :: "u32 \<Rightarrow> nat \<Rightarrow> u32" where
  "ROTATE_LEFT x n = push_bit n x OR drop_bit (32 - n) x"

section \<open>The block function of MD5\<close>

definition md5_F :: "u32 \<Rightarrow> u32 \<Rightarrow> u32 \<Rightarrow> u32" where "md5_F x y z = (x AND y) OR (NOT x AND z)"
definition md5_G :: "u32 \<Rightarrow> u32 \<Rightarrow> u32 \<Rightarrow> u32" where "md5_G x y z = (x AND z) OR (y AND NOT z)"
definition md5_H :: "u32 \<Rightarrow> u32 \<Rightarrow> u32 \<Rightarrow> u32" where "md5_H x y z = x XOR y XOR z"
definition md5_I :: "u32 \<Rightarrow> u32 \<Rightarrow> u32 \<Rightarrow> u32" where "md5_I x y z = y XOR (x OR NOT z)"

definition md5_FF :: "u32 \<Rightarrow> u32 \<Rightarrow> u32 \<Rightarrow> u32 \<Rightarrow> u32 \<Rightarrow> nat \<Rightarrow> u32 \<Rightarrow> u32" where
  "md5_FF a b c d x s ac = ROTATE_LEFT (a + (md5_F b c d + x + ac)) s + b"

definition md5_GG :: "u32 \<Rightarrow> u32 \<Rightarrow> u32 \<Rightarrow> u32 \<Rightarrow> u32 \<Rightarrow> nat \<Rightarrow> u32 \<Rightarrow> u32" where
  "md5_GG a b c d x s ac = ROTATE_LEFT (a + (md5_G b c d + x + ac)) s + b"

definition md5_HH :: "u32 \<Rightarrow> u32 \<Rightarrow> u32 \<Rightarrow> u32 \<Rightarrow> u32 \<Rightarrow> nat \<Rightarrow> u32 \<Rightarrow> u32" where
  "md5_HH a b c d x s ac = ROTATE_LEFT (a + (md5_H b c d + x + ac)) s + b"

definition md5_II :: "u32 \<Rightarrow> u32 \<Rightarrow> u32 \<Rightarrow> u32 \<Rightarrow> u32 \<Rightarrow> nat \<Rightarrow> u32 \<Rightarrow> u32" where
  "md5_II a b c d x s ac = ROTATE_LEFT (a + (md5_I b c d + x + ac)) s + b"

definition MD5_round1 :: "u32 list \<Rightarrow> u32 \<times> u32 \<times> u32 \<times> u32 \<Rightarrow> u32 \<times> u32 \<times> u32 \<times> u32" where
  "MD5_round1 x = (\<lambda>(a, b, c, d). let
    a = md5_FF a b c d (x ! 0) 7 0xd76aa478;
    d = md5_FF d a b c (x ! 1) 12 0xe8c7b756;
    c = md5_FF c d a b (x ! 2) 17 0x242070db;
    b = md5_FF b c d a (x ! 3) 22 0xc1bdceee;
    a = md5_FF a b c d (x ! 4) 7 0xf57c0faf;
    d = md5_FF d a b c (x ! 5) 12 0x4787c62a;
    c = md5_FF c d a b (x ! 6) 17 0xa8304613;
    b = md5_FF b c d a (x ! 7) 22 0xfd469501;
    a = md5_FF a b c d (x ! 8) 7 0x698098d8;
    d = md5_FF d a b c (x ! 9) 12 0x8b44f7af;
    c = md5_FF c d a b (x ! 10) 17 0xffff5bb1;
    b = md5_FF b c d a (x ! 11) 22 0x895cd7be;
    a = md5_FF a b c d (x ! 12) 7 0x6b901122;
    d = md5_FF d a b c (x ! 13) 12 0xfd987193;
    c = md5_FF c d a b (x ! 14) 17 0xa679438e;
    b = md5_FF b c d a (x ! 15) 22 0x49b40821
  in (a, b, c, d))"

definition MD5_round2 :: "u32 list \<Rightarrow> u32 \<times> u32 \<times> u32 \<times> u32 \<Rightarrow> u32 \<times> u32 \<times> u32 \<times> u32" where
  "MD5_round2 x = (\<lambda>(a, b, c, d). let
    a = md5_GG a b c d (x ! 1) 5 0xf61e2562;
    d = md5_GG d a b c (x ! 6) 9 0xc040b340;
    c = md5_GG c d a b (x ! 11) 14 0x265e5a51;
    b = md5_GG b c d a (x ! 0) 20 0xe9b6c7aa;
    a = md5_GG a b c d (x ! 5) 5 0xd62f105d;
    d = md5_GG d a b c (x ! 10) 9 0x2441453;
    c = md5_GG c d a b (x ! 15) 14 0xd8a1e681;
    b = md5_GG b c d a (x ! 4) 20 0xe7d3fbc8;
    a = md5_GG a b c d (x ! 9) 5 0x21e1cde6;
    d = md5_GG d a b c (x ! 14) 9 0xc33707d6;
    c = md5_GG c d a b (x ! 3) 14 0xf4d50d87;
    b = md5_GG b c d a (x ! 8) 20 0x455a14ed;
    a = md5_GG a b c d (x ! 13) 5 0xa9e3e905;
    d = md5_GG d a b c (x ! 2) 9 0xfcefa3f8;
    c = md5_GG c d a b (x ! 7) 14 0x676f02d9;
    b = md5_GG b c d a (x ! 12) 20 0x8d2a4c8a
  in (a, b, c, d))"

definition MD5_round3 :: "u32 list \<Rightarrow> u32 \<times> u32 \<times> u32 \<times> u32 \<Rightarrow> u32 \<times> u32 \<times> u32 \<times> u32" where
  "MD5_round3 x = (\<lambda>(a, b, c, d). let
    a = md5_HH a b c d (x ! 5) 4 0xfffa3942;
    d = md5_HH d a b c (x ! 8) 11 0x8771f681;
    c = md5_HH c d a b (x ! 11) 16 0x6d9d6122;
    b = md5_HH b c d a (x ! 14) 23 0xfde5380c;
    a = md5_HH a b c d (x ! 1) 4 0xa4beea44;
    d = md5_HH d a b c (x ! 4) 11 0x4bdecfa9;
    c = md5_HH c d a b (x ! 7) 16 0xf6bb4b60;
    b = md5_HH b c d a (x ! 10) 23 0xbebfbc70;
    a = md5_HH a b c d (x ! 13) 4 0x289b7ec6;
    d = md5_HH d a b c (x ! 0) 11 0xeaa127fa;
    c = md5_HH c d a b (x ! 3) 16 0xd4ef3085;
    b = md5_HH b c d a (x ! 6) 23 0x4881d05;
    a = md5_HH a b c d (x ! 9) 4 0xd9d4d039;
    d = md5_HH d a b c (x ! 12) 11 0xe6db99e5;
    c = md5_HH c d a b (x ! 15) 16 0x1fa27cf8;
    b = md5_HH b c d a (x ! 2) 23 0xc4ac5665
  in (a, b, c, d))"

definition MD5_round4 :: "u32 list \<Rightarrow> u32 \<times> u32 \<times> u32 \<times> u32 \<Rightarrow> u32 \<times> u32 \<times> u32 \<times> u32" where
  "MD5_round4 x = (\<lambda>(a, b, c, d). let
    a = md5_II a b c d (x ! 0) 6 0xf4292244;
    d = md5_II d a b c (x ! 7) 10 0x432aff97;
    c = md5_II c d a b (x ! 14) 15 0xab9423a7;
    b = md5_II b c d a (x ! 5) 21 0xfc93a039;
    a = md5_II a b c d (x ! 12) 6 0x655b59c3;
    d = md5_II d a b c (x ! 3) 10 0x8f0ccc92;
    c = md5_II c d a b (x ! 10) 15 0xffeff47d;
    b = md5_II b c d a (x ! 1) 21 0x85845dd1;
    a = md5_II a b c d (x ! 8) 6 0x6fa87e4f;
    d = md5_II d a b c (x ! 15) 10 0xfe2ce6e0;
    c = md5_II c d a b (x ! 6) 15 0xa3014314;
    b = md5_II b c d a (x ! 13) 21 0x4e0811a1;
    a = md5_II a b c d (x ! 4) 6 0xf7537e82;
    d = md5_II d a b c (x ! 11) 10 0xbd3af235;
    c = md5_II c d a b (x ! 2) 15 0x2ad7d2bb;
    b = md5_II b c d a (x ! 9) 21 0xeb86d391
  in (a, b, c, d))"

definition MD5Transform :: "u32 list \<Rightarrow> byte list \<Rightarrow> u32 list" where
  "MD5Transform s block = (let
     x = Decode block 0 64;
     (a, b, c, d) = MD5_round4 x (MD5_round3 x (MD5_round2 x (MD5_round1 x (s ! 0, s ! 1, s ! 2, s ! 3))))
   in [s ! 0 + a, s ! 1 + b, s ! 2 + c, s ! 3 + d])"

section \<open>The block function of MD4\<close>

definition md4_F :: "u32 \<Rightarrow> u32 \<Rightarrow> u32 \<Rightarrow> u32" where "md4_F x y z = (x AND y) OR (NOT x AND z)"
definition md4_G :: "u32 \<Rightarrow> u32 \<Rightarrow> u32 \<Rightarrow> u32" where "md4_G x y z = (x AND y) OR (x AND z) OR (y AND z)"
definition md4_H :: "u32 \<Rightarrow> u32 \<Rightarrow> u32 \<Rightarrow> u32" where "md4_H x y z = x XOR y XOR z"

definition md4_FF :: "u32 \<Rightarrow> u32 \<Rightarrow> u32 \<Rightarrow> u32 \<Rightarrow> u32 \<Rightarrow> nat \<Rightarrow> u32" where
  "md4_FF a b c d x s = ROTATE_LEFT (a + (md4_F b c d + x)) s"

definition md4_GG :: "u32 \<Rightarrow> u32 \<Rightarrow> u32 \<Rightarrow> u32 \<Rightarrow> u32 \<Rightarrow> nat \<Rightarrow> u32" where
  "md4_GG a b c d x s = ROTATE_LEFT (a + (md4_G b c d + x + 0x5a827999)) s"

definition md4_HH :: "u32 \<Rightarrow> u32 \<Rightarrow> u32 \<Rightarrow> u32 \<Rightarrow> u32 \<Rightarrow> nat \<Rightarrow> u32" where
  "md4_HH a b c d x s = ROTATE_LEFT (a + (md4_H b c d + x + 0x6ed9eba1)) s"

definition MD4_round1 :: "u32 list \<Rightarrow> u32 \<times> u32 \<times> u32 \<times> u32 \<Rightarrow> u32 \<times> u32 \<times> u32 \<times> u32" where
  "MD4_round1 x = (\<lambda>(a, b, c, d). let
    a = md4_FF a b c d (x ! 0) 3;
    d = md4_FF d a b c (x ! 1) 7;
    c = md4_FF c d a b (x ! 2) 11;
    b = md4_FF b c d a (x ! 3) 19;
    a = md4_FF a b c d (x ! 4) 3;
    d = md4_FF d a b c (x ! 5) 7;
    c = md4_FF c d a b (x ! 6) 11;
    b = md4_FF b c d a (x ! 7) 19;
    a = md4_FF a b c d (x ! 8) 3;
    d = md4_FF d a b c (x ! 9) 7;
    c = md4_FF c d a b (x ! 10) 11;
    b = md4_FF b c d a (x ! 11) 19;
    a = md4_FF a b c d (x ! 12) 3;
    d = md4_FF d a b c (x ! 13) 7;
    c = md4_FF c d a b (x ! 14) 11;
    b = md4_FF b c d a (x ! 15) 19
  in (a, b, c, d))"

definition MD4_round2 :: "u32 list \<Rightarrow> u32 \<times> u32 \<times> u32 \<times> u32 \<Rightarrow> u32 \<times> u32 \<times> u32 \<times> u32" where
  "MD4_round2 x = (\<lambda>(a, b, c, d). let
    a = md4_GG a b c d (x ! 0) 3;
    d = md4_GG d a b c (x ! 4) 5;
    c = md4_GG c d a b (x ! 8) 9;
    b = md4_GG b c d a (x ! 12) 13;
    a = md4_GG a b c d (x ! 1) 3;
    d = md4_GG d a b c (x ! 5) 5;
    c = md4_GG c d a b (x ! 9) 9;
    b = md4_GG b c d a (x ! 13) 13;
    a = md4_GG a b c d (x ! 2) 3;
    d = md4_GG d a b c (x ! 6) 5;
    c = md4_GG c d a b (x ! 10) 9;
    b = md4_GG b c d a (x ! 14) 13;
    a = md4_GG a b c d (x ! 3) 3;
    d = md4_GG d a b c (x ! 7) 5;
    c = md4_GG c d a b (x ! 11) 9;
    b = md4_GG b c d a (x ! 15) 13
  in (a, b, c, d))"

definition MD4_round3 :: "u32 list \<Rightarrow> u32 \<times> u32 \<times> u32 \<times> u32 \<Rightarrow> u32 \<times> u32 \<times> u32 \<times> u32" where
  "MD4_round3 x = (\<lambda>(a, b, c, d). let
    a = md4_HH a b c d (x ! 0) 3;
    d = md4_HH d a b c (x ! 8) 9;
    c = md4_HH c d a b (x ! 4) 11;
    b = md4_HH b c d a (x ! 12) 15;
    a = md4_HH a b c d (x ! 2) 3;
    d = md4_HH d a b c (x ! 10) 9;
    c = md4_HH c d a b (x ! 6) 11;
    b = md4_HH b c d a (x ! 14) 15;
    a = md4_HH a b c d (x ! 1) 3;
    d = md4_HH d a b c (x ! 9) 9;
    c = md4_HH c d a b (x ! 5) 11;
    b = md4_HH b c d a (x ! 13) 15;
    a = md4_HH a b c d (x ! 3) 3;
    d = md4_HH d a b c (x ! 11) 9;
    c = md4_HH c d a b (x ! 7) 11;
    b = md4_HH b c d a (x ! 15) 15
  in (a, b, c, d))"

definition MD4Transform :: "u32 list \<Rightarrow> byte list \<Rightarrow> u32 list" where
  "MD4Transform s block = (let
     x = Decode block 0 64;
     (a, b, c, d) = MD4_round3 x (MD4_round2 x (MD4_round1 x (s ! 0, s ! 1, s ! 2, s ! 3)))
   in [s ! 0 + a, s ! 1 + b, s ! 2 + c, s ! 3 + d])"

section \<open>Init, Update, Final\<close>

definition md_update ::
  "(u32 list \<Rightarrow> byte list \<Rightarrow> u32 list) \<Rightarrow> md_ctx \<Rightarrow> byte list \<Rightarrow> u32 \<Rightarrow> md_ctx option" where
  "md_update transform ctx input inputLen = (let
     idx = drop_bit 3 (count0 ctx) AND 0x3F;
     bits = push_bit 3 inputLen;
     c0 = count0 ctx + bits;
     c1 = (if c0 < bits then count1 ctx + 1 else count1 ctx) + drop_bit 29 inputLen;
     partLen = 64 - idx
   in do {
     (s, buf, idx, i) \<leftarrow> (if partLen \<le> inputLen then do {
         d \<leftarrow> rd input 0 partLen;
         buf \<leftarrow> put (buffer ctx) (unat idx) d;
         (s, i) \<leftarrow> for_blocks transform input inputLen (transform (state ctx) buf) partLen;
         Some (s, buf, 0, i)
       } else Some (state ctx, buffer ctx, idx, 0));
     d \<leftarrow> rd input i (inputLen - i);
     buf \<leftarrow> put buf (unat idx) d;
     Some \<lparr>state = s, count0 = c0, count1 = c1, buffer = buf\<rparr>
   })"

definition md_final ::
  "(u32 list \<Rightarrow> byte list \<Rightarrow> u32 list) \<Rightarrow> md_ctx \<Rightarrow> (byte list \<times> md_ctx) option" where
  "md_final transform ctx = (let
     bits = Encode [count0 ctx, count1 ctx] 0 0 8;
     idx = drop_bit 3 (count0 ctx) AND 0x3f;
     padLen = (if idx < 56 then 56 - idx else 120 - idx)
   in do {
     ctx \<leftarrow> md_update transform ctx (take (unat padLen) PADDING) padLen;
     ctx \<leftarrow> md_update transform ctx bits 8;
     Some (Encode (state ctx) 0 0 16,
       \<lparr>state = replicate 4 0, count0 = 0, count1 = 0, buffer = replicate 64 0\<rparr>)
   })"

definition MD5Init :: "md_ctx \<Rightarrow> md_ctx" where
  "MD5Init ctx = ctx\<lparr>count0 := 0, count1 := 0, state := [0x67452301, 0xefcdab89, 0x98badcfe, 0x10325476]\<rparr>"

definition MD5Update :: "md_ctx \<Rightarrow> byte list \<Rightarrow> u32 \<Rightarrow> md_ctx option" where
  "MD5Update = md_update MD5Transform"

definition MD5Final :: "md_ctx \<Rightarrow> (byte list \<times> md_ctx) option" where
  "MD5Final = md_final MD5Transform"

definition MD4Init :: "md_ctx \<Rightarrow> md_ctx" where
  "MD4Init ctx = ctx\<lparr>count0 := 0, count1 := 0, state := [0x67452301, 0xefcdab89, 0x98badcfe, 0x10325476]\<rparr>"

definition MD4Update :: "md_ctx \<Rightarrow> byte list \<Rightarrow> u32 \<Rightarrow> md_ctx option" where
  "MD4Update = md_update MD4Transform"

definition MD4Final :: "md_ctx \<Rightarrow> (byte list \<times> md_ctx) option" where
  "MD4Final = md_final MD4Transform"

section \<open>Correctness\<close>

lemma ucast_and_ff: "(ucast (w AND 0xff :: u32) :: byte) = ucast w"
proof -
  have "0xff = (mask 8 :: u32)" by (simp add: mask_eq_exp_minus_1)
  then show ?thesis
    by (simp only: take_bit_eq_mask [symmetric]) (auto simp: bit_simps intro!: bit_eqI)
qed

definition md_rep :: "(u32 list \<Rightarrow> byte list \<Rightarrow> u32 list) \<Rightarrow> u32 list \<Rightarrow> md_ctx \<Rightarrow> byte list \<Rightarrow> bool" where
  "md_rep f iv c m \<longleftrightarrow> buffered 64 f iv (state c) (buffer c) m \<and>
     unat (count0 c) + 2 ^ 32 * unat (count1 c) = 8 * length m mod 2 ^ 64"

lemma md_rep_idx: "md_rep f iv c m \<Longrightarrow> unat (drop_bit 3 (count0 c) AND 0x3F) = length m mod 64"
  by (rule count_idx [where ?c1.0 = "count1 c"]) (simp add: md_rep_def)

lemma md_update_rep:
  assumes rep: "md_rep f iv c m" and len: "length d < 2 ^ 32 - 63"
  shows "\<exists>c'. md_update f c d (word_of_nat (length d)) = Some c' \<and> md_rep f iv c' (m @ d)"
proof -
  define n :: u32 where "n = word_of_nat (length d)"
  define idx where "idx = drop_bit 3 (count0 c) AND 0x3F"
  have n: "unat n = length d" using len by (simp add: n_def unat_of_nat)
  have idx: "unat idx = length m mod 64" using md_rep_idx [OF rep] by (simp add: idx_def)
  then have "64 - idx \<le> n \<longleftrightarrow> 64 \<le> length m mod 64 + length d"
    by (auto simp: word_le_nat_alt unat_sub n)
  moreover have cnt: "unat (count0 c + push_bit 3 n) + 2 ^ 32 * unat ((if count0 c + push_bit 3 n < push_bit 3 n
      then count1 c + 1 else count1 c) + drop_bit 29 n) = 8 * length (m @ d) mod 2 ^ 64"
    unfolding bit_count_add n using rep by (simp add: md_rep_def mod_simps)
  moreover have b: "buffered 64 f iv (state c) (buffer c) m" using rep by (simp add: md_rep_def)
  moreover have "rd d 0 n = Some d" by (simp add: rd_def n)
  ultimately show ?thesis
    using buffered_short [OF b, of d] buffered_block [OF b _ len idx n] idx
    unfolding md_update_def n_def [symmetric] idx_def [symmetric] md_rep_def
    by (cases "64 \<le> length m mod 64 + length d") (auto simp: Let_def simp del: length_append)
qed

lemma Encode_le32:
  "i + k \<le> length input \<Longrightarrow> Encode input i j (j + 4 * k) = concat (map le32 (take k (drop i input)))"
proof (induction k arbitrary: i j)
  case (Suc k)
  have "Encode input i j (j + 4 * Suc k) = le32 (input ! i) @ Encode input (i + 1) (j + 4) (j + 4 + 4 * k)"
    by (subst Encode.simps) (simp add: ucast_and_ff le32_def add.assoc)
  also have "\<dots> = le32 (input ! i) @ concat (map le32 (take k (drop (i + 1) input)))"
    using Suc.IH [of "i + 1" "j + 4"] Suc.prems by simp
  finally show ?case
    using Suc.prems by (simp add: take_drop_Suc)
qed (simp add: Encode.simps)

lemma Encode_all: "Encode input 0 0 (4 * length input) = concat (map le32 input)"
  using Encode_le32 [of 0 "length input" input 0] by simp

lemma Encode_count:
  assumes "unat c0 + 2 ^ 32 * unat c1 = k mod 2 ^ 64"
  shows "Encode [c0, c1] 0 0 8 = le64 (word_of_nat k)"
  using Encode_all [of "[c0, c1]"] le32_le64 [of "word_of_nat k"] split_count [OF assms] by simp

definition md_digest :: "(u32 list \<Rightarrow> byte list \<Rightarrow> u32 list) \<Rightarrow> u32 list \<Rightarrow> byte list \<Rightarrow> byte list" where
  "md_digest f iv m = concat (map le32 (absorb 64 f iv (md_pad 64 8 (\<lambda>k. le64 (word_of_nat k)) m)))"

lemma md_final_rep:
  assumes rep: "md_rep f iv c m" and f: "length iv = 4" "\<forall>s b. length (f s b) = 4"
  shows "\<exists>c'. md_final f c = Some (md_digest f iv m, c') \<and> length (buffer c') = 64"
proof -
  define idx where "idx = drop_bit 3 (count0 c) AND 0x3F"
  define padLen where "padLen = (if idx < 56 then 56 - idx else 120 - idx)"
  define r where "r = length m mod 64"
  have idx: "unat idx = r" using md_rep_idx [OF rep] by (simp add: idx_def r_def)
  have r: "r < 64" by (simp add: r_def)
  have pad: "unat padLen = (if r < 56 then 56 - r else 120 - r)"
    using r idx by (simp add: padLen_def word_less_nat_alt unat_sub word_le_nat_alt)
  then have p: "0 < unat padLen" "unat padLen \<le> 64" using r by (auto split: if_splits)
  have bits: "Encode [count0 c, count1 c] 0 0 8 = le64 (word_of_nat (8 * length m))"
    using rep by (intro Encode_count) (simp add: md_rep_def)
  have zeros: "unat padLen - 1 = (2 * 64 - 1 - 8 - length m mod 64) mod 64"
    using md_pad_zeros [of 8 64 r] r pad by (simp add: r_def)
  obtain c1 where c1: "md_update f c (take (unat padLen) PADDING) padLen = Some c1"
    "md_rep f iv c1 (m @ take (unat padLen) PADDING)"
    using md_update_rep [OF rep, of "take (unat padLen) PADDING"] p by (auto simp: PADDING_def)
  obtain c2 where c2: "md_update f c1 (Encode [count0 c, count1 c] 0 0 8) 8 = Some c2"
    "md_rep f iv c2 ((m @ take (unat padLen) PADDING) @ Encode [count0 c, count1 c] 0 0 8)"
    using md_update_rep [OF c1(2), of "Encode [count0 c, count1 c] 0 0 8"] by (auto simp: bits)
  have "(m @ take (unat padLen) PADDING) @ Encode [count0 c, count1 c] 0 0 8
      = md_pad 64 8 (\<lambda>k. le64 (word_of_nat k)) m"
    using take_PADDING [OF p] by (simp add: bits md_pad_def zeros [simplified])
  with c2(2) have st: "state c2 = absorb 64 f iv (md_pad 64 8 (\<lambda>k. le64 (word_of_nat k)) m)"
    by (simp add: md_rep_def buffered_def)
  then have "Encode (state c2) 0 0 16 = md_digest f iv m"
    using Encode_all [of "state c2"] length_absorb [OF f] by (simp add: md_digest_def)
  then show ?thesis
    using c1(1) c2(1) by (simp add: md_final_def Let_def idx_def [symmetric] padLen_def [symmetric])
qed

section \<open>The interface, interpreted on MD5 and MD4\<close>

definition md_iv :: "u32 list" where
  "md_iv = [0x67452301, 0xefcdab89, 0x98badcfe, 0x10325476]"

abbreviation whole :: "('c \<Rightarrow> byte list \<Rightarrow> u32 \<Rightarrow> 'c option) \<Rightarrow> 'c \<Rightarrow> byte list \<Rightarrow> 'c option" where
  "whole upd c d \<equiv> upd c d (word_of_nat (length d))"

abbreviation md_okl :: "nat \<Rightarrow> bool" where "md_okl n \<equiv> n < 2 ^ 32 - 63"

lemma length_transform: "length (MD5Transform s b) = 4" "length (MD4Transform s b) = 4"
  by (simp_all add: MD5Transform_def MD4Transform_def Let_def split: prod.split)

lemma md_rep_init:
  "length (buffer c) = 64 \<Longrightarrow> state c = iv \<Longrightarrow> count0 c = 0 \<Longrightarrow> count1 c = 0 \<Longrightarrow> md_rep f iv c []"
  by (simp add: md_rep_def)

interpretation md5: stream_hash "\<lambda>c. length (buffer c) = 64" MD5Init "whole MD5Update" MD5Final
  "md_rep MD5Transform md_iv" md_okl "md_digest MD5Transform md_iv"
proof unfold_locales
  fix c :: md_ctx assume "length (buffer c) = 64"
  then show "md_rep MD5Transform md_iv (MD5Init c) []"
    by (intro md_rep_init) (simp_all add: MD5Init_def md_iv_def)
qed (simp_all add: MD5Update_def MD5Final_def md_update_rep md_final_rep length_transform md_iv_def)

interpretation md4: stream_hash "\<lambda>c. length (buffer c) = 64" MD4Init "whole MD4Update" MD4Final
  "md_rep MD4Transform md_iv" md_okl "md_digest MD4Transform md_iv"
proof unfold_locales
  fix c :: md_ctx assume "length (buffer c) = 64"
  then show "md_rep MD4Transform md_iv (MD4Init c) []"
    by (intro md_rep_init) (simp_all add: MD4Init_def md_iv_def)
qed (simp_all add: MD4Update_def MD4Final_def md_update_rep md_final_rep length_transform md_iv_def)

section \<open>Test vectors\<close>

lemma md5_eval:
  "md5_FF a b c d x s ac = nf (ROTATE_LEFT (nf (a + (md5_F b c d + x + ac))) s + b)"
  "md5_GG a b c d x s ac = nf (ROTATE_LEFT (nf (a + (md5_G b c d + x + ac))) s + b)"
  "md5_HH a b c d x s ac = nf (ROTATE_LEFT (nf (a + (md5_H b c d + x + ac))) s + b)"
  "md5_II a b c d x s ac = nf (ROTATE_LEFT (nf (a + (md5_I b c d + x + ac))) s + b)"
  by (simp_all add: nf_def md5_FF_def md5_GG_def md5_HH_def md5_II_def)

lemma md4_eval:
  "md4_FF a b c d x s = nf (ROTATE_LEFT (nf (a + (md4_F b c d + x))) s)"
  "md4_GG a b c d x s = nf (ROTATE_LEFT (nf (a + (md4_G b c d + x + 0x5a827999))) s)"
  "md4_HH a b c d x s = nf (ROTATE_LEFT (nf (a + (md4_H b c d + x + 0x6ed9eba1))) s)"
  by (simp_all add: nf_def md4_FF_def md4_GG_def md4_HH_def)

lemma Decode_abc:
  "Decode ([0x61, 0x62, 0x63] @ 0x80 # replicate 52 0 @ [24, 0, 0, 0, 0, 0, 0, 0]) 0 64
   = [0x80636261, 0, 0, 0, 0, 0, 0, 0, 0, 0, 0, 0, 0, 0, 24, 0]"
  by code_simp

lemma pad_abc: "md_pad 64 8 (\<lambda>k. le64 (word_of_nat k)) [0x61, 0x62, 0x63] =
    [0x61, 0x62, 0x63] @ 0x80 # replicate 52 0 @ [24, 0, 0, 0, 0, 0, 0, 0]"
  by (simp add: md_pad_def le64_def)

lemma MD5_abc_rounds:
  "MD5_round1 [0x80636261, 0, 0, 0, 0, 0, 0, 0, 0, 0, 0, 0, 0, 0, 24, 0]
     (0x67452301, 0xefcdab89, 0x98badcfe, 0x10325476) = (0xdda9b9a6, 0x72aff2e0, 0xe396856b, 0xa1051895)"
  "MD5_round2 [0x80636261, 0, 0, 0, 0, 0, 0, 0, 0, 0, 0, 0, 0, 0, 24, 0]
     (0xdda9b9a6, 0x72aff2e0, 0xe396856b, 0xa1051895) = (0x790a77fb, 0x726342d3, 0xa62884aa, 0x9f47e4f8)"
  "MD5_round3 [0x80636261, 0, 0, 0, 0, 0, 0, 0, 0, 0, 0, 0, 0, 0, 24, 0]
     (0x790a77fb, 0x726342d3, 0xa62884aa, 0x9f47e4f8) = (0x7f2e507b, 0x7beb9700, 0x8fae6399, 0x99d9679d)"
  "MD5_round4 [0x80636261, 0, 0, 0, 0, 0, 0, 0, 0, 0, 0, 0, 0, 0, 24, 0]
     (0x7f2e507b, 0x7beb9700, 0x8fae6399, 0x99d9679d) = (0x310ade8f, 0xc08226b3, 0xe484b9d8, 0x624d8cb2)"
proof -
  show "MD5_round1 [0x80636261, 0, 0, 0, 0, 0, 0, 0, 0, 0, 0, 0, 0, 0, 24, 0]
     (0x67452301, 0xefcdab89, 0x98badcfe, 0x10325476) = (0xdda9b9a6, 0x72aff2e0, 0xe396856b, 0xa1051895)"
    unfolding MD5_round1_def prod.case
    by (simp add: md5_eval md5_F_def ROTATE_LEFT_def cong: let_weak_cong)
  show "MD5_round2 [0x80636261, 0, 0, 0, 0, 0, 0, 0, 0, 0, 0, 0, 0, 0, 24, 0]
     (0xdda9b9a6, 0x72aff2e0, 0xe396856b, 0xa1051895) = (0x790a77fb, 0x726342d3, 0xa62884aa, 0x9f47e4f8)"
    unfolding MD5_round2_def prod.case
    by (simp add: md5_eval md5_G_def ROTATE_LEFT_def cong: let_weak_cong)
  show "MD5_round3 [0x80636261, 0, 0, 0, 0, 0, 0, 0, 0, 0, 0, 0, 0, 0, 24, 0]
     (0x790a77fb, 0x726342d3, 0xa62884aa, 0x9f47e4f8) = (0x7f2e507b, 0x7beb9700, 0x8fae6399, 0x99d9679d)"
    unfolding MD5_round3_def prod.case
    by (simp add: md5_eval md5_H_def ROTATE_LEFT_def cong: let_weak_cong)
  show "MD5_round4 [0x80636261, 0, 0, 0, 0, 0, 0, 0, 0, 0, 0, 0, 0, 0, 24, 0]
     (0x7f2e507b, 0x7beb9700, 0x8fae6399, 0x99d9679d) = (0x310ade8f, 0xc08226b3, 0xe484b9d8, 0x624d8cb2)"
    unfolding MD5_round4_def prod.case
    by (simp add: md5_eval md5_I_def ROTATE_LEFT_def cong: let_weak_cong)
qed

lemma MD4_abc_rounds:
  "MD4_round1 [0x80636261, 0, 0, 0, 0, 0, 0, 0, 0, 0, 0, 0, 0, 0, 24, 0]
     (0x67452301, 0xefcdab89, 0x98badcfe, 0x10325476) = (0xa299a540, 0xda717395, 0x24baadcb, 0x4e19293)"
  "MD4_round2 [0x80636261, 0, 0, 0, 0, 0, 0, 0, 0, 0, 0, 0, 0, 0, 24, 0]
     (0xa299a540, 0xda717395, 0x24baadcb, 0x4e19293) = (0x7296594c, 0x8e531b8f, 0x3dd42422, 0x4e7e1748)"
  "MD4_round3 [0x80636261, 0, 0, 0, 0, 0, 0, 0, 0, 0, 0, 0, 0, 0, 24, 0]
     (0x7296594c, 0x8e531b8f, 0x3dd42422, 0x4e7e1748) = (0x12bc25a3, 0x630a7626, 0x4f4fe461, 0x8d405204)"
proof -
  show "MD4_round1 [0x80636261, 0, 0, 0, 0, 0, 0, 0, 0, 0, 0, 0, 0, 0, 24, 0]
     (0x67452301, 0xefcdab89, 0x98badcfe, 0x10325476) = (0xa299a540, 0xda717395, 0x24baadcb, 0x4e19293)"
    unfolding MD4_round1_def prod.case
    by (simp add: md4_eval md4_F_def ROTATE_LEFT_def cong: let_weak_cong)
  show "MD4_round2 [0x80636261, 0, 0, 0, 0, 0, 0, 0, 0, 0, 0, 0, 0, 0, 24, 0]
     (0xa299a540, 0xda717395, 0x24baadcb, 0x4e19293) = (0x7296594c, 0x8e531b8f, 0x3dd42422, 0x4e7e1748)"
    unfolding MD4_round2_def prod.case
    by (simp add: md4_eval md4_G_def ROTATE_LEFT_def cong: let_weak_cong)
  show "MD4_round3 [0x80636261, 0, 0, 0, 0, 0, 0, 0, 0, 0, 0, 0, 0, 0, 24, 0]
     (0x7296594c, 0x8e531b8f, 0x3dd42422, 0x4e7e1748) = (0x12bc25a3, 0x630a7626, 0x4f4fe461, 0x8d405204)"
    unfolding MD4_round3_def prod.case
    by (simp add: md4_eval md4_H_def ROTATE_LEFT_def cong: let_weak_cong)
qed

lemma transform_abc:
  "MD5Transform md_iv ([0x61, 0x62, 0x63] @ 0x80 # replicate 52 0 @ [24, 0, 0, 0, 0, 0, 0, 0])
   = [0x98500190, 0xb04fd23c, 0x7d3f96d6, 0x727fe128]"
  "MD4Transform md_iv ([0x61, 0x62, 0x63] @ 0x80 # replicate 52 0 @ [24, 0, 0, 0, 0, 0, 0, 0])
   = [0x7a0148a4, 0x52d821af, 0xe80ac15f, 0x9d72a67a]"
  unfolding MD5Transform_def MD4Transform_def Decode_abc md_iv_def
  by (simp_all add: MD5_abc_rounds MD4_abc_rounds)

lemma md_digest_abc:
  "md_digest MD5Transform md_iv [0x61, 0x62, 0x63] = [0x90, 0x01, 0x50, 0x98, 0x3c, 0xd2, 0x4f, 0xb0,
     0xd6, 0x96, 0x3f, 0x7d, 0x28, 0xe1, 0x7f, 0x72]"
  "md_digest MD4Transform md_iv [0x61, 0x62, 0x63] = [0xa4, 0x48, 0x01, 0x7a, 0xaf, 0x21, 0xd8, 0x52,
     0x5f, 0xc1, 0x0a, 0xe8, 0x7a, 0xa6, 0x72, 0x9d]"
  unfolding md_digest_def pad_abc by (simp_all add: absorb_step absorb_short transform_abc [simplified] le32_def)


section \<open>Properties\<close>

text \<open>
  C21. MD5 and MD4 are streaming: for every way of cutting a message into pieces of less than
  \<open>2 ^ 32 - 63\<close> bytes, and whatever an uninitialised context object holds, \<open>Init\<close>, one \<open>Update\<close> per
  piece and \<open>Final\<close> stay inside the context and the input and deliver the Merkle-Damgard digest of
  the whole message (padding with one bit, zeros and the 64-bit little-endian bit count).
\<close>

theorem md_stream_correct:
  assumes "length (buffer c) = 64" "\<forall>d \<in> set ds. length d < 2 ^ 32 - 63"
  shows "hash_of MD5Init (\<lambda>c d. MD5Update c d (word_of_nat (length d))) MD5Final c ds
           = Some (md_digest MD5Transform md_iv (concat ds))
       \<and> hash_of MD4Init (\<lambda>c d. MD4Update c d (word_of_nat (length d))) MD4Final c ds
           = Some (md_digest MD4Transform md_iv (concat ds))"
  using md5.hash_chunks [OF assms] md4.hash_chunks [OF assms] by blast

text \<open>Witness: RFC 1321 and RFC 1320 give the digests of \<open>abc\<close>.\<close>

theorem md_stream_correct_witness:
  "hash_of MD5Init (\<lambda>c d. MD5Update c d (word_of_nat (length d))) MD5Final
     \<lparr>state = [], count0 = 9, count1 = 9, buffer = replicate 64 7\<rparr> [[0x61], [0x62, 0x63]]
   = Some [0x90, 0x01, 0x50, 0x98, 0x3c, 0xd2, 0x4f, 0xb0, 0xd6, 0x96, 0x3f, 0x7d, 0x28, 0xe1, 0x7f, 0x72]
   \<and> hash_of MD4Init (\<lambda>c d. MD4Update c d (word_of_nat (length d))) MD4Final
     \<lparr>state = [], count0 = 9, count1 = 9, buffer = replicate 64 7\<rparr> [[0x61], [0x62, 0x63]]
   = Some [0xa4, 0x48, 0x01, 0x7a, 0xaf, 0x21, 0xd8, 0x52, 0x5f, 0xc1, 0x0a, 0xe8, 0x7a, 0xa6, 0x72, 0x9d]"
  using md_stream_correct [of "\<lparr>state = [], count0 = 9, count1 = 9, buffer = replicate 64 7\<rparr>"
      "[[0x61], [0x62, 0x63]]"] md_digest_abc by simp

lemma md_update_overread_aux:
  assumes "length (buffer c) = 64" "drop_bit 3 (count0 c) AND 0x3F \<noteq> 0" "length d = 2 ^ 32 - 1"
  shows "md_update f c d (2 ^ 32 - 1) = None"
proof -
  define idx where "idx = drop_bit 3 (count0 c) AND 0x3F"
  have "idx \<noteq> 0" using assms(2) by (simp add: idx_def)
  then have "0 < unat idx" by (simp add: unat_gt_0)
  moreover have "unat idx < 64" using unat_low_bits [of "count0 c"] by (simp add: idx_def)
  ultimately have idx: "0 < unat idx" "unat idx < 64" .
  have part: "unat (64 - idx) = 64 - unat idx" using idx by (simp add: unat_sub word_le_nat_alt)
  have "(unat (64 - idx) + unat idx) mod 64 = 0" using part idx by simp
  then have "for_blocks f d (2 ^ 32 - 1) s (64 - idx) = None" for s
    using idx by (intro for_blocks_wrap)
  moreover have "64 - unat idx \<le> 4294967295" by simp
  ultimately show ?thesis
    using idx by (simp add: md_update_def idx_def [symmetric] Let_def word_le_nat_alt part bind_eq_None_conv)
qed

text \<open>
  C22. The bound on the pieces is needed: the block loops of \<open>MD5Update\<close> and \<open>MD4Update\<close> test \<^verbatim>\<open>i + 63 < inputLen\<close> in 32 bits.  When some bytes
  are already buffered, an update with \<open>2 ^ 32 - 1\<close> bytes reaches an offset where \<^verbatim>\<open>i + 63\<close> wraps, the
  test succeeds and the block function is handed a block that ends beyond the input.
\<close>

theorem md_update_overread:
  assumes "length (buffer c) = 64" "drop_bit 3 (count0 c) AND 0x3F \<noteq> 0" "length d = 2 ^ 32 - 1"
  shows "MD5Update c d (2 ^ 32 - 1) = None \<and> MD4Update c d (2 ^ 32 - 1) = None"
  unfolding MD5Update_def MD4Update_def using md_update_overread_aux [OF assms] by blast

theorem md_update_overread_witness:
  "MD5Update \<lparr>state = md_iv, count0 = 8, count1 = 0, buffer = replicate 64 7\<rparr> (replicate (2 ^ 32 - 1) 0)
     (2 ^ 32 - 1) = None \<and>
   MD4Update \<lparr>state = md_iv, count0 = 8, count1 = 0, buffer = replicate 64 7\<rparr> (replicate (2 ^ 32 - 1) 0)
     (2 ^ 32 - 1) = None"
  by (rule md_update_overread) simp_all

end
