(* ===== verification/Hash_MD2.thy ===== *)
theory Hash_MD2
  imports Hash_Core
begin

text \<open>
  MD2, \<^verbatim>\<open>src/libc/hash/md2/md2.c\<close>.  The context holds a 48-byte work area whose first 16 bytes are the
  chaining value, the next 16 the input block (filled from position \<open>i\<close>) and the last 16 scratch, and a
  running checksum.  Counters of the source that only hold byte values are bytes here.
\<close>

record MD2_CTX =
  md2_i :: u32
  md2_C :: "byte list"
  md2_X :: "byte list"

definition md2_S :: "byte list" where
  "md2_S = [
     41, 46, 67, 201, 162, 216, 124, 1, 61, 54, 84, 161, 236, 240, 6, 19,
     98, 167, 5, 243, 192, 199, 115, 140, 152, 147, 43, 217, 188, 76, 130, 202,
     30, 155, 87, 60, 253, 212, 224, 22, 103, 66, 111, 24, 138, 23, 229, 18,
     190, 78, 196, 214, 218, 158, 222, 73, 160, 251, 245, 142, 187, 47, 238, 122,
     169, 104, 121, 145, 21, 178, 7, 63, 148, 194, 16, 137, 11, 34, 95, 33,
     128, 127, 93, 154, 90, 144, 50, 39, 53, 62, 204, 231, 191, 247, 151, 3,
     255, 25, 48, 179, 72, 165, 181, 209, 215, 94, 146, 42, 172, 86, 170, 198,
     79, 184, 56, 210, 150, 164, 125, 182, 118, 252, 107, 226, 156, 116, 4, 241,
     69, 157, 112, 89, 100, 113, 135, 32, 134, 91, 207, 101, 230, 45, 168, 2,
     27, 96, 37, 173, 174, 176, 185, 246, 28, 70, 97, 105, 52, 64, 126, 15,
     85, 71, 163, 35, 221, 81, 175, 58, 195, 92, 249, 206, 186, 197, 234, 38,
     44, 83, 13, 110, 133, 40, 132, 9, 211, 223, 205, 244, 65, 129, 77, 82,
     106, 220, 55, 200, 108, 193, 171, 250, 36, 225, 123, 8, 12, 189, 177, 74,
     120, 136, 149, 139, 227, 99, 232, 109, 233, 203, 213, 254, 59, 0, 29, 57,
     242, 239, 183, 14, 102, 88, 208, 228, 166, 119, 114, 248, 235, 117, 75, 10,
     49, 68, 80, 180, 143, 237, 31, 26, 219, 153, 141, 51, 159, 17, 131, 20]"

abbreviation subst :: "byte \<Rightarrow> byte" where "subst b \<equiv> md2_S ! unat b"

text \<open>The first loop of \<open>MD2Transform\<close>: the third part of the work area and the checksum.\<close>

definition md2_expand :: "nat \<Rightarrow> byte \<times> byte list \<times> byte list \<Rightarrow> byte \<times> byte list \<times> byte list" where
  "md2_expand j = (\<lambda>(l, C, X). let
     X = X[32 + j := X ! j XOR X ! (16 + j)];
     C = C[j := C ! j XOR subst (X ! (16 + j) XOR l)]
   in (C ! j, C, X))"

text \<open>The inner loop of the mangling: \<^verbatim>\<open>t = X[k] = X[k] ^ S[t]\<close>.\<close>

definition md2_mix :: "nat \<Rightarrow> byte \<times> byte list \<Rightarrow> byte \<times> byte list" where
  "md2_mix k = (\<lambda>(t, X). let x = X ! k XOR subst t in (x, X[k := x]))"

definition md2_pass :: "nat \<Rightarrow> byte \<times> byte list \<Rightarrow> byte \<times> byte list" where
  "md2_pass j tX = (let (t, X) = fold md2_mix [0..<48] tX in (t + word_of_nat j, X))"

definition MD2Transform :: "MD2_CTX \<Rightarrow> MD2_CTX" where
  "MD2Transform c = (let
     (_, C, X) = fold md2_expand [0..<16] (md2_C c ! 15, md2_C c, md2_X c);
     (_, X) = fold md2_pass [0..<18] (0, X)
   in \<lparr>md2_i = 16, md2_C = C, md2_X = X\<rparr>)"

definition MD2Init :: "MD2_CTX \<Rightarrow> MD2_CTX" where
  "MD2Init c = \<lparr>md2_i = 16, md2_C = replicate 16 0, md2_X = replicate 48 0\<rparr>"

text \<open>
  The loop of \<open>MD2Update\<close>.  On a context whose \<open>i\<close> is 32 it makes no progress, so it is a partial
  function: \<open>None\<close> is an access out of bounds or a run that does not end.
\<close>

partial_function (option) md2_loop :: "MD2_CTX \<Rightarrow> byte list \<Rightarrow> u32 \<Rightarrow> u32 \<Rightarrow> MD2_CTX option" where
  "md2_loop c input inputLen idx = (if idx < inputLen then let
       piece = 32 - md2_i c;
       piece = (if inputLen - idx < piece then inputLen - idx else piece)
     in do {
       d \<leftarrow> rd input idx piece;
       X \<leftarrow> put (md2_X c) (unat (md2_i c)) d;
       let c = c\<lparr>md2_X := X, md2_i := md2_i c + piece\<rparr>;
       md2_loop (if md2_i c = 32 then MD2Transform c else c) input inputLen (idx + piece)
     }
   else Some c)"

declare md2_loop.simps [code]

definition MD2Update :: "MD2_CTX \<Rightarrow> byte list \<Rightarrow> u32 \<Rightarrow> MD2_CTX option" where
  "MD2Update c input inputLen = md2_loop c input inputLen 0"

text \<open>The padding table: entry \<open>n\<close> is \<open>n\<close> bytes of value \<open>n\<close>.\<close>

definition md2_padtab :: "byte list list" where
  "md2_padtab = map (\<lambda>n. replicate n (word_of_nat n)) [0..<17]"

definition MD2Final :: "MD2_CTX \<Rightarrow> (byte list \<times> MD2_CTX) option" where
  "MD2Final c = (let padlen = 32 - md2_i c in do {
     p \<leftarrow> (if unat padlen < length md2_padtab then Some (md2_padtab ! unat padlen) else None);
     c \<leftarrow> MD2Update c p padlen;
     c \<leftarrow> MD2Update c (md2_C c) 16;
     Some (take 16 (md2_X c), MD2Init c)
   })"

section \<open>The block function of RFC 1319\<close>

fun md2_checksum :: "byte \<Rightarrow> byte list \<Rightarrow> byte list \<Rightarrow> byte list" where
  "md2_checksum l (c # cs) (b # bs) = (let x = c XOR subst (b XOR l) in x # md2_checksum x cs bs)"
| "md2_checksum l _ _ = []"

fun md2_line :: "byte \<Rightarrow> byte list \<Rightarrow> byte list" where
  "md2_line t [] = []"
| "md2_line t (x # xs) = (let y = x XOR subst t in y # md2_line y xs)"

definition md2_round :: "nat \<Rightarrow> byte \<times> byte list \<Rightarrow> byte \<times> byte list" where
  "md2_round j = (\<lambda>(t, X). let Y = md2_line t X in (last (t # Y) + word_of_nat j, Y))"

definition md2_comp :: "byte list \<times> byte list \<Rightarrow> byte list \<Rightarrow> byte list \<times> byte list" where
  "md2_comp = (\<lambda>(C, X) B. (md2_checksum (C ! 15) C B,
     take 16 (snd (fold md2_round [0..<18] (0, X @ B @ map2 (XOR) X B)))))"

lemma length_md2_line [simp]: "length (md2_line t xs) = length xs"
  by (induction t xs rule: md2_line.induct) (simp_all add: Let_def)

lemma length_md2_checksum [simp]: "length (md2_checksum l cs bs) = min (length cs) (length bs)"
  by (induction l cs bs rule: md2_checksum.induct) (simp_all add: Let_def)

lemma md2_line_snoc:
  "md2_line t (xs @ [x]) = md2_line t xs @ [x XOR subst (last (t # md2_line t xs))]"
  by (induction t xs rule: md2_line.induct) (simp_all add: Let_def)

lemma md2_checksum_snoc:
  "length cs = length bs \<Longrightarrow> md2_checksum l (cs @ [c]) (bs @ [b])
     = md2_checksum l cs bs @ [c XOR subst (b XOR last (l # md2_checksum l cs bs))]"
  by (induction l cs bs rule: md2_checksum.induct) (simp_all add: Let_def)

lemma fold_mix:
  "k \<le> length X \<Longrightarrow> fold md2_mix [0..<k] (t, X) =
     (last (t # md2_line t (take k X)), md2_line t (take k X) @ drop k X)"
proof (induction k)
  case (Suc k)
  then have "take (Suc k) X = take k X @ [X ! k]" "drop k X = X ! k # drop (Suc k) X"
    by (simp_all add: take_Suc_conv_app_nth Cons_nth_drop_Suc)
  with Suc show ?case
    by (simp add: md2_mix_def Let_def md2_line_snoc nth_append list_update_append)
qed simp

lemma md2_pass_round: "length X = 48 \<Longrightarrow> md2_pass j (t, X) = md2_round j (t, X)"
  using fold_mix [of 48 X t] by (simp add: md2_pass_def md2_round_def Let_def del: upt.simps)

lemma fold_pass_round:
  "length (snd tX) = 48 \<Longrightarrow> fold md2_pass js tX = fold md2_round js tX \<and> length (snd (fold md2_round js tX)) = 48"
proof (induction js arbitrary: tX)
  case (Cons j js)
  then have "md2_pass j tX = md2_round j tX" "length (snd (md2_round j tX)) = 48"
    by (cases tX; simp add: md2_pass_round md2_round_def Let_def)+
  with Cons.IH [of "md2_round j tX"] show ?case by simp
qed simp

lemma fold_expand:
  assumes "length C = 16" "length A = 16" "length B = 16" "length Z = 16"
  shows "j \<le> 16 \<Longrightarrow> fold md2_expand [0..<j] (l, C, A @ B @ Z) =
     (last (l # md2_checksum l (take j C) (take j B)), md2_checksum l (take j C) (take j B) @ drop j C,
      A @ B @ map2 (XOR) (take j A) (take j B) @ drop j Z)"
proof (induction j)
  case (Suc j)
  then have "take (Suc j) C = take j C @ [C ! j]" "drop j C = C ! j # drop (Suc j) C"
     "take (Suc j) B = take j B @ [B ! j]" "take (Suc j) A = take j A @ [A ! j]" "drop j Z = Z ! j # drop (Suc j) Z"
    using assms by (simp_all add: take_Suc_conv_app_nth Cons_nth_drop_Suc)
  with Suc assms show ?case
    by (simp add: md2_expand_def Let_def md2_checksum_snoc nth_append list_update_append)
qed simp

lemma MD2Transform_comp:
  assumes "length (md2_C c) = 16" "length (md2_X c) = 48"
  shows "(md2_C (MD2Transform c), take 16 (md2_X (MD2Transform c)))
      = md2_comp (md2_C c, take 16 (md2_X c)) (take 16 (drop 16 (md2_X c)))"
    and "length (md2_C (MD2Transform c)) = 16" "length (md2_X (MD2Transform c)) = 48"
    and "md2_i (MD2Transform c) = 16"
proof -
  define A B Z where "A = take 16 (md2_X c)" and "B = take 16 (drop 16 (md2_X c))" and "Z = drop 32 (md2_X c)"
  have len: "length A = 16" "length B = 16" "length Z = 16" using assms by (simp_all add: A_def B_def Z_def)
  have X: "md2_X c = A @ B @ Z"
    using append_take_drop_id [of 16 "md2_X c"] append_take_drop_id [of 16 "drop 16 (md2_X c)"]
    by (simp add: A_def B_def Z_def)
  have "fold md2_expand [0..<16] (md2_C c ! 15, md2_C c, md2_X c) =
      (last (md2_C c ! 15 # md2_checksum (md2_C c ! 15) (md2_C c) B), md2_checksum (md2_C c ! 15) (md2_C c) B,
       A @ B @ map2 (XOR) A B)"
    using fold_expand [of "md2_C c" A B Z 16] assms(1) len X by simp
  moreover have "fold md2_pass [0..<18] (0, A @ B @ map2 (XOR) A B) = fold md2_round [0..<18] (0, A @ B @ map2 (XOR) A B)"
    "length (snd (fold md2_round [0..<18] (0, A @ B @ map2 (XOR) A B))) = 48"
    using fold_pass_round [of "(0, A @ B @ map2 (XOR) A B)" "[0..<18]"] len by simp_all
  ultimately show "(md2_C (MD2Transform c), take 16 (md2_X (MD2Transform c)))
      = md2_comp (md2_C c, take 16 (md2_X c)) (take 16 (drop 16 (md2_X c)))"
    and "length (md2_C (MD2Transform c)) = 16" "length (md2_X (MD2Transform c)) = 48"
    and "md2_i (MD2Transform c) = 16"
    using assms(1) len unfolding MD2Transform_def md2_comp_def A_def [symmetric] B_def [symmetric]
    by (simp_all add: Let_def case_prod_unfold del: upt.simps)
qed

section \<open>The streaming interface\<close>

definition md2_iv :: "byte list \<times> byte list" where
  "md2_iv = (replicate 16 0, replicate 16 0)"

definition md2_rep :: "MD2_CTX \<Rightarrow> byte list \<Rightarrow> bool" where
  "md2_rep c m \<longleftrightarrow> unat (md2_i c) = 16 + length m mod 16 \<and> length (md2_C c) = 16 \<and> length (md2_X c) = 48 \<and>
     (md2_C c, take 16 (md2_X c)) = absorb 16 md2_comp md2_iv m \<and>
     take (length m mod 16) (drop 16 (md2_X c)) = leftover 16 m"

definition md2_digest :: "byte list \<Rightarrow> byte list" where
  "md2_digest m = (let n = 16 - length m mod 16;
     cx = absorb 16 md2_comp md2_iv (m @ replicate n (word_of_nat n))
   in snd (md2_comp cx (fst cx)))"


text \<open>One turn of the update loop: the piece either fits the block or completes it.\<close>

lemma md2_turn:
  assumes rep: "md2_rep c m" and e: "length m mod 16 + length e \<le> 16"
  defines "X \<equiv> take (16 + length m mod 16) (md2_X c) @ e @ drop (16 + length m mod 16 + length e) (md2_X c)"
    and "i \<equiv> md2_i c + word_of_nat (length e)"
  defines "c' \<equiv> c\<lparr>md2_X := X, md2_i := i\<rparr>"
  shows "put (md2_X c) (unat (md2_i c)) e = Some X" "md2_rep (if i = 32 then MD2Transform c' else c') (m @ e)"
proof -
  define r where "r = length m mod 16"
  have r: "r < 16" by (simp add: r_def)
  have c: "unat (md2_i c) = 16 + r" "length (md2_C c) = 16" "length (md2_X c) = 48"
    "(md2_C c, take 16 (md2_X c)) = absorb 16 md2_comp md2_iv m" "take r (drop 16 (md2_X c)) = leftover 16 m"
    using rep by (simp_all add: md2_rep_def r_def)
  show "put (md2_X c) (unat (md2_i c)) e = Some X"
    using c e by (simp add: put_ok X_def r_def [symmetric])
  have i: "unat i = 16 + r + length e"
    using c(1) e r by (simp add: i_def unat_word_ariths r_def [symmetric] unat_of_nat)
  have lX: "length X = 48" "take 16 X = take 16 (md2_X c)" "take (r + length e) (drop 16 X) = leftover 16 m @ e"
    using c e by (simp_all add: X_def r_def [symmetric] min_def drop_take)
  show "md2_rep (if i = 32 then MD2Transform c' else c') (m @ e)"
  proof (cases "r + length e = 16")
    case True
    then have "(length m + length e) mod 16 = 0"
      by (metis mod_add_left_eq mod_self r_def)
    moreover have "absorb 16 md2_comp md2_iv (m @ e) = md2_comp (md2_C c, take 16 (md2_X c)) (leftover 16 m @ e)"
      using fill_full(1) [of 16 m e md2_comp md2_iv] True c(4) by (simp add: r_def [symmetric] absorb_short)
    moreover have "i = 32" using i True by (simp add: word_unat_eq_iff)
    ultimately show ?thesis
      using MD2Transform_comp [of c'] c lX True by (simp add: md2_rep_def c'_def)
  next
    case False
    then have lt: "r + length e < 16" using e by (simp add: r_def)
    then have "(length m + length e) mod 16 = r + length e"
      by (metis mod_add_left_eq mod_less r_def)
    moreover have "i \<noteq> 32" using i lt by auto
    ultimately show ?thesis
      using fill_short(1) [of m 16 e md2_comp md2_iv] fill_short(2) [of m 16 e] lt c lX i
      by (simp add: md2_rep_def c'_def r_def [symmetric])
  qed
qed

lemma md2_loop_rep:
  assumes "unat (n :: u32) = length d"
  shows "md2_rep c m \<Longrightarrow> unat idx \<le> length d \<Longrightarrow> \<exists>c'. md2_loop c d n idx = Some c' \<and> md2_rep c' (m @ drop (unat idx) d)"
proof (induction "length d - unat idx" arbitrary: c m idx rule: less_induct)
  case less
  show ?case
  proof (cases "idx < n")
    case False
    then show ?thesis using assms less.prems by (subst md2_loop.simps) (simp add: word_less_nat_alt)
  next
    case True
    define r where "r = length m mod 16"
    have r: "r < 16" "unat (md2_i c) = 16 + r" using less.prems by (simp_all add: r_def md2_rep_def)
    define piece where "piece = (if n - idx < 32 - md2_i c then n - idx else 32 - md2_i c)"
    have sub: "unat (n - idx) = length d - unat idx" "unat (32 - md2_i c) = 16 - r"
      using True assms r by (simp_all add: unat_sub word_le_nat_alt word_less_nat_alt)
    then have p: "unat piece = min (length d - unat idx) (16 - r)" "0 < unat piece"
      using True assms r by (simp_all add: piece_def word_less_nat_alt min_def)
    define e where "e = take (unat piece) (drop (unat idx) d)"
    have e: "length e = unat piece" "rd d idx piece = Some e" "r + length e \<le> 16"
      using p r by (auto simp: e_def rd_def min_def)
    have we: "word_of_nat (length e) = piece" by (simp add: e(1))
    have bnd: "unat idx + unat piece \<le> length d" using p(1) less.prems(2) by linarith
    have nx: "unat (idx + piece) = unat idx + unat piece"
      using bnd assms unat_lt_len [of n] by (simp add: unat_word_ariths)
    obtain X where X: "put (md2_X c) (unat (md2_i c)) e = Some X"
        "md2_rep (if md2_i c + piece = 32 then MD2Transform (c\<lparr>md2_X := X, md2_i := md2_i c + piece\<rparr>)
           else c\<lparr>md2_X := X, md2_i := md2_i c + piece\<rparr>) (m @ e)"
      using md2_turn [OF less.prems(1), of e] e(3) unfolding we r_def by blast
    have "md2_loop c d n idx = md2_loop (if md2_i c + piece = 32 then MD2Transform (c\<lparr>md2_X := X, md2_i := md2_i c + piece\<rparr>)
           else c\<lparr>md2_X := X, md2_i := md2_i c + piece\<rparr>) d n (idx + piece)"
      by (subst md2_loop.simps) (simp add: True Let_def piece_def [symmetric] e X(1))
    moreover have "m @ drop (unat idx) d = (m @ e) @ drop (unat (idx + piece)) d"
      using append_take_drop_id [of "unat piece" "drop (unat idx) d"] nx by (simp add: e_def ac_simps)
    ultimately show ?thesis
      using less.hyps [OF _ X(2), of "idx + piece"] bnd nx p(2) by simp
  qed
qed

lemma md2_update_rep:
  "md2_rep c m \<Longrightarrow> length d < 2 ^ 32 \<Longrightarrow> \<exists>c'. MD2Update c d (word_of_nat (length d)) = Some c' \<and> md2_rep c' (m @ d)"
  using md2_loop_rep [of "word_of_nat (length d)" d c m 0] by (simp add: MD2Update_def unat_of_nat)

lemma md2_final_rep:
  assumes rep: "md2_rep c m"
  shows "\<exists>c'. MD2Final c = Some (md2_digest m, c')"
proof -
  define n where "n = 16 - length m mod 16"
  have n: "unat (32 - md2_i c) = n" "0 < n" "n \<le> 16"
    using rep by (simp_all add: md2_rep_def n_def unat_sub word_le_nat_alt)
  then have pad: "md2_padtab ! n = replicate n (word_of_nat n)" "n < length md2_padtab" "32 - md2_i c = word_of_nat n"
    by (simp_all add: md2_padtab_def del: upt.simps) (metis of_nat_unat ucast_id)
  obtain c1 where c1: "MD2Update c (replicate n (word_of_nat n)) (word_of_nat n) = Some c1"
      "md2_rep c1 (m @ replicate n (word_of_nat n))"
    using md2_update_rep [OF rep, of "replicate n (word_of_nat n)"] n by auto
  define p where "p = m @ replicate n (word_of_nat n :: byte)"
  have p0: "length p mod 16 = 0" 
    unfolding p_def n_def length_append length_replicate by (metis add_diff_cancel_left' le_add_diff_inverse less_imp_le mod_add_left_eq mod_less_divisor mod_self zero_less_numeral)
  have C1: "length (md2_C c1) = 16" "absorb 16 md2_comp md2_iv p = (md2_C c1, take 16 (md2_X c1))"
    using c1(2) by (simp_all add: md2_rep_def p_def)
  obtain c2 where c2: "MD2Update c1 (md2_C c1) 16 = Some c2" "md2_rep c2 (p @ md2_C c1)"
    using md2_update_rep [OF c1(2), of "md2_C c1"] C1 by (auto simp: p_def)
  have "absorb 16 md2_comp md2_iv (p @ md2_C c1) = md2_comp (absorb 16 md2_comp md2_iv p) (md2_C c1)"
    using fill_full(1) [of 16 p "md2_C c1" md2_comp md2_iv] p0 C1 by (simp add: absorb_short)
  then have "take 16 (md2_X c2) = md2_digest m"
    using c2(2) C1 by (simp add: md2_rep_def md2_digest_def Let_def n_def [symmetric] p_def [symmetric]) (metis snd_conv)
  then show ?thesis
    using c1 c2 pad n by (simp add: MD2Final_def Let_def)
qed

interpretation md2: stream_hash "\<lambda>_. True" MD2Init "\<lambda>c d. MD2Update c d (word_of_nat (length d))" MD2Final
  md2_rep "\<lambda>n. n < 2 ^ 32" md2_digest
proof unfold_locales
  show "md2_rep (MD2Init c) []" for c
    by (simp add: md2_rep_def MD2Init_def md2_iv_def absorb_short)
qed (simp_all add: md2_update_rep md2_final_rep)

end
