(* ===== verification/Hash_SHA1.thy ===== *)
theory Hash_SHA1
  imports Hash_Core
begin

text \<open>
  SHA-1, \<^verbatim>\<open>src/libc/common/lib/libc/hash/sha1/sha1.c\<close>, as compiled on a little-endian machine with
  \<^verbatim>\<open>SHA1HANDSOFF\<close>.  The block function keeps a window of 16 schedule words that it overwrites in
  place and renames its five registers from step to step; after five steps the names are back, so the
  80 unrolled macro calls are written as 16 groups of five.
\<close>

section \<open>The block function\<close>

definition rol :: "u32 \<Rightarrow> nat \<Rightarrow> u32" where
  "rol value bits = push_bit bits value OR drop_bit (32 - bits) value"

text \<open>\<open>blk0\<close> and \<open>blk\<close> store the schedule word they compute: they return the new window too.\<close>

definition blk0 :: "u32 list \<Rightarrow> nat \<Rightarrow> u32 \<times> u32 list" where
  "blk0 l i = (let w = (rol (l ! i) 24 AND 0xFF00FF00) OR (rol (l ! i) 8 AND 0x00FF00FF) in (w, l[i := w]))"

definition blk :: "u32 list \<Rightarrow> nat \<Rightarrow> u32 \<times> u32 list" where
  "blk l i = (let w = rol (l ! ((i + 13) mod 16) XOR l ! ((i + 8) mod 16) XOR l ! ((i + 2) mod 16)
     XOR l ! (i mod 16)) 1 in (w, l[i mod 16 := w]))"

type_synonym round_macro = "u32 \<Rightarrow> u32 \<Rightarrow> u32 \<Rightarrow> u32 \<Rightarrow> u32 \<Rightarrow> u32 list \<Rightarrow> nat \<Rightarrow> u32 \<times> u32 \<times> u32 list"

definition R0 :: round_macro where
  "R0 v w x y z l i = (let (b, l) = blk0 l i in
     (z + (((w AND (x XOR y)) XOR y) + b + 0x5A827999 + rol v 5), rol w 30, l))"

definition R1 :: round_macro where
  "R1 v w x y z l i = (let (b, l) = blk l i in
     (z + (((w AND (x XOR y)) XOR y) + b + 0x5A827999 + rol v 5), rol w 30, l))"

definition R2 :: round_macro where
  "R2 v w x y z l i = (let (b, l) = blk l i in
     (z + ((w XOR x XOR y) + b + 0x6ED9EBA1 + rol v 5), rol w 30, l))"

definition R3 :: round_macro where
  "R3 v w x y z l i = (let (b, l) = blk l i in
     (z + ((((w OR x) AND y) OR (w AND x)) + b + 0x8F1BBCDC + rol v 5), rol w 30, l))"

definition R4 :: round_macro where
  "R4 v w x y z l i = (let (b, l) = blk l i in
     (z + ((w XOR x XOR y) + b + 0xCA62C1D6 + rol v 5), rol w 30, l))"

type_synonym regs = "u32 \<times> u32 \<times> u32 \<times> u32 \<times> u32 \<times> u32 list"

definition five :: "round_macro \<Rightarrow> nat \<Rightarrow> regs \<Rightarrow> regs" where
  "five R i = (\<lambda>(a, b, c, d, e, l). let
     (e, b, l) = R a b c d e l i;
     (d, a, l) = R e a b c d l (i + 1);
     (c, e, l) = R d e a b c l (i + 2);
     (b, d, l) = R c d e a b l (i + 3);
     (a, c, l) = R b c d e a l (i + 4)
   in (a, b, c, d, e, l))"

definition R01 :: round_macro where
  "R01 v w x y z l i = (if i < 16 then R0 v w x y z l i else R1 v w x y z l i)"

definition SHA1Transform :: "u32 list \<Rightarrow> byte list \<Rightarrow> u32 list" where
  "SHA1Transform s bytes = (let
     r = (s ! 0, s ! 1, s ! 2, s ! 3, s ! 4, words_le bytes);
     r = five R01 15 (five R01 10 (five R01 5 (five R01 0 r)));
     r = five R2 35 (five R2 30 (five R2 25 (five R2 20 r)));
     r = five R3 55 (five R3 50 (five R3 45 (five R3 40 r)));
     (a, b, c, d, e, _) = five R4 75 (five R4 70 (five R4 65 (five R4 60 r)))
   in [s ! 0 + a, s ! 1 + b, s ! 2 + c, s ! 3 + d, s ! 4 + e])"

section \<open>Init, Update, Final\<close>

record SHA1_CTX =
  sha1_state :: "u32 list"
  sha1_count0 :: u32
  sha1_count1 :: u32
  sha1_buffer :: "byte list"

definition SHA1Init :: "SHA1_CTX \<Rightarrow> SHA1_CTX" where
  "SHA1Init c = c\<lparr>sha1_state := [0x67452301, 0xEFCDAB89, 0x98BADCFE, 0x10325476, 0xC3D2E1F0],
     sha1_count0 := 0, sha1_count1 := 0\<rparr>"

definition SHA1Update :: "SHA1_CTX \<Rightarrow> byte list \<Rightarrow> u32 \<Rightarrow> SHA1_CTX option" where
  "SHA1Update c data len = (let
     j = sha1_count0 c;
     c0 = j + push_bit 3 len;
     c1 = (if c0 < j then sha1_count1 c + (drop_bit 29 len + 1) else sha1_count1 c);
     j = drop_bit 3 j AND 63
   in do {
     (s, buf, j, i) \<leftarrow> (if 63 < j + len then do {
         d \<leftarrow> rd data 0 (64 - j);
         buf \<leftarrow> put (sha1_buffer c) (unat j) d;
         (s, i) \<leftarrow> for_blocks SHA1Transform data len (SHA1Transform (sha1_state c) buf) (64 - j);
         Some (s, buf, 0, i)
       } else Some (sha1_state c, sha1_buffer c, j, 0));
     d \<leftarrow> rd data i (len - i);
     buf \<leftarrow> put buf (unat j) d;
     Some \<lparr>sha1_state = s, sha1_count0 = c0, sha1_count1 = c1, sha1_buffer = buf\<rparr>
   })"

text \<open>\<^verbatim>\<open>while ((context->count[0] & 504) != 448) SHA1Update(context, "\0", 1)\<close>\<close>

lemma SHA1Update_count0: "SHA1Update c data len = Some c' \<Longrightarrow> sha1_count0 c' = sha1_count0 c + push_bit 3 len"
  by (auto simp: SHA1Update_def Let_def bind_eq_Some_conv split: if_splits)

lemma unat_and_504: "unat ((w :: u32) AND 504) = 8 * (unat w div 8 mod 64)"
proof -
  have "504 = push_bit 3 (mask 6 :: u32)" by (simp add: mask_eq_exp_minus_1)
  moreover have "w AND push_bit 3 (mask 6) = push_bit 3 (drop_bit 3 w AND mask 6)"
    by (rule bit_eqI) (auto simp: bit_simps)
  ultimately show ?thesis by (simp only: word_to_nat) simp
qed

lemma pad_dist_step:
  assumes "q mod 64 \<noteq> 56"
  shows "(120 - q mod 64) mod 64 = Suc ((120 - Suc q mod 64) mod (64 :: nat))"
proof -
  have *: "x < 64 \<Longrightarrow> (120 - x) mod 64 = (if x \<le> 56 then 56 - x else 120 - x)"
    "x < 64 \<Longrightarrow> (119 - x) mod 64 = (if x \<le> 55 then 55 - x else 119 - x)" for x :: nat
    by (auto simp: mod_if)
  have "q mod 64 < 64" by simp
  then show ?thesis using assms by (auto simp: * mod_Suc)
qed

lemma count0_step:
  assumes "unat (w :: u32) div 8 mod 64 \<noteq> 56"
  shows "(120 - unat (w + 8) div 8 mod 64) mod 64 < (120 - unat w div 8 mod 64) mod 64"
proof -
  define q r where "q = unat w div 8" and "r = unat w mod 8"
  have w: "unat w = 8 * q + r" "r < 8" by (simp_all add: q_def r_def)
  have "unat (w + 8) div 8 mod 64 = (q + 1) mod 64"
  proof (cases "unat w + 8 < 2 ^ 32")
    case True
    moreover have "(8 * q + r + 8) div 8 = q + 1" using w(2) by presburger
    ultimately show ?thesis using w by (simp add: unat_word_ariths)
  next
    case False
    then have q: "q = 2 ^ 29 - 1" using w unat_lt_len [of w] by simp
    then have "unat (w + 8) = r" using w by (simp add: unat_word_ariths mod_if)
    then show ?thesis using w q by simp
  qed
  then show ?thesis using assms pad_dist_step [of q] by (simp add: q_def [symmetric])
qed

function pad_zeros :: "SHA1_CTX \<Rightarrow> SHA1_CTX option" where
  "pad_zeros c = (if sha1_count0 c AND 504 \<noteq> 448 then do {
     c \<leftarrow> SHA1Update c [0] 1;
     pad_zeros c
   } else Some c)"
  by pat_completeness auto
termination
proof (relation "measure (\<lambda>c. (120 - unat (sha1_count0 c) div 8 mod 64) mod 64)")
  fix c c' assume "sha1_count0 c AND 504 \<noteq> 448" "SHA1Update c [0] 1 = Some c'"
  moreover from this(1) have "unat (sha1_count0 c) div 8 mod 64 \<noteq> 56"
    using unat_and_504 [of "sha1_count0 c"] by (auto simp: word_unat_eq_iff)
  ultimately show "(c', c) \<in> measure (\<lambda>c. (120 - unat (sha1_count0 c) div 8 mod 64) mod 64)"
    using count0_step by (simp add: SHA1Update_count0)
qed simp

declare pad_zeros.simps [simp del]

text \<open>The digest is written only when the pointer is not \<open>NULL\<close> (\<open>dg\<close>).\<close>

definition SHA1Final :: "bool \<Rightarrow> SHA1_CTX \<Rightarrow> (byte list \<times> SHA1_CTX) option" where
  "SHA1Final dg c = (let
     cnt = (\<lambda>k. if k = (0 :: nat) then sha1_count0 c else sha1_count1 c);
     finalcount = map (\<lambda>i. ucast (drop_bit ((3 - i mod 4) * 8) (cnt (if 4 \<le> i then 0 else 1)) AND 255)) [0..<8]
   in do {
     c \<leftarrow> SHA1Update c [0x80] 1;
     c \<leftarrow> pad_zeros c;
     c \<leftarrow> SHA1Update c finalcount 8;
     Some (if dg then map (\<lambda>i. ucast (drop_bit ((3 - i mod 4) * 8) (sha1_state c ! (i div 4)) AND 255)) [0..<20]
           else [], c)
   })"

section \<open>Correctness of the interface\<close>

definition sha1_rep :: "u32 list \<Rightarrow> SHA1_CTX \<Rightarrow> byte list \<Rightarrow> bool" where
  "sha1_rep iv c m \<longleftrightarrow> buffered 64 SHA1Transform iv (sha1_state c) (sha1_buffer c) m \<and>
     unat (sha1_count0 c) + 2 ^ 32 * unat (sha1_count1 c) = 8 * length m mod 2 ^ 64"

lemma add_carry: "(a + b < a) = (a + b < (b :: u32))"
proof -
  have "unat a < 2 ^ 32" "unat b < 2 ^ 32" using unat_lt_len [of a] unat_lt_len [of b] by simp_all
  then show ?thesis
    by (cases "unat a + unat b < 2 ^ 32") (auto simp: word_less_nat_alt unat_word_ariths mod_if)
qed

lemma sha1_idx: "sha1_rep iv c m \<Longrightarrow> unat (drop_bit 3 (sha1_count0 c) AND 63) = length m mod 64"
  by (rule count_idx [where ?c1.0 = "sha1_count1 c"]) (simp add: sha1_rep_def)

lemma sha1_update_rep:
  assumes rep: "sha1_rep iv c m" and len: "length d < 2 ^ 29"
  shows "\<exists>c'. SHA1Update c d (word_of_nat (length d)) = Some c' \<and> sha1_rep iv c' (m @ d)"
proof -
  define n :: u32 where "n = word_of_nat (length d)"
  define idx where "idx = drop_bit 3 (sha1_count0 c) AND 63"
  have len': "length d < 2 ^ 32 - 63" using len by simp
  have n: "unat n = length d" using len by (simp add: n_def unat_of_nat)
  have idx: "unat idx = length m mod 64" using sha1_idx [OF rep] by (simp add: idx_def)
  then have "63 < idx + n \<longleftrightarrow> 64 \<le> length m mod 64 + length d"
    using len mod_less_divisor [of 64 "length m"] by (auto simp: word_less_nat_alt unat_word_ariths n simp del: mod_less_divisor)
  moreover have "unat (drop_bit 29 n) = 0" using len by (simp add: unat_drop_bit n)
  then have h: "drop_bit 29 n = 0" by (simp add: unat_eq_0)
  have cnt: "unat (sha1_count0 c + push_bit 3 n) + 2 ^ 32 * unat (if sha1_count0 c + push_bit 3 n < sha1_count0 c
      then sha1_count1 c + (drop_bit 29 n + 1) else sha1_count1 c) = 8 * length (m @ d) mod 2 ^ 64"
    using bit_count_add [of "sha1_count0 c" n "sha1_count1 c"] rep
    by (auto simp: sha1_rep_def mod_simps add_carry [of "sha1_count0 c"] n h split: if_splits)
  moreover have b: "buffered 64 SHA1Transform iv (sha1_state c) (sha1_buffer c) m"
    using rep by (simp add: sha1_rep_def)
  moreover have "rd d 0 n = Some d" by (simp add: rd_def n)
  ultimately show ?thesis
    using buffered_short [OF b, of d] buffered_block [OF b _ len' idx n] idx
    unfolding SHA1Update_def Let_def unfolding n_def [symmetric] idx_def [symmetric] sha1_rep_def
    by (cases "64 \<le> length m mod 64 + length d") (auto simp del: length_append)
qed

lemma pad_zeros_rep:
  "sha1_rep iv c m \<Longrightarrow> \<exists>c'. pad_zeros c = Some c' \<and> sha1_rep iv c' (m @ replicate ((120 - length m mod 64) mod 64) 0)"
proof (induction c arbitrary: m rule: pad_zeros.induct)
  case (1 c)
  have idx: "unat (sha1_count0 c AND 504) = 8 * (length m mod 64)"
    using sha1_idx [OF "1.prems"] unat_low_bits [of "sha1_count0 c"] by (simp add: unat_and_504)
  show ?case
  proof (cases "length m mod 64 = 56")
    case True
    then have "sha1_count0 c AND 504 = 448" using idx by (simp add: word_unat_eq_iff)
    then show ?thesis using "1.prems" True by (simp add: pad_zeros.simps)
  next
    case False
    have ne: "sha1_count0 c AND 504 \<noteq> 448" using idx False by (auto simp: word_unat_eq_iff)
    obtain c1 where c1: "SHA1Update c [0] 1 = Some c1" "sha1_rep iv c1 (m @ [0])"
      using sha1_update_rep [OF "1.prems", of "[0]"] by auto
    have "(120 - length m mod 64) mod 64 = Suc ((120 - length (m @ [0]) mod 64) mod 64)"
      using pad_dist_step [OF False] by simp
    then show ?thesis
      using "1.IH" [OF ne c1] ne c1 by (simp add: pad_zeros.simps [of c])
  qed
qed

definition sha1_digest :: "u32 list \<Rightarrow> byte list \<Rightarrow> byte list" where
  "sha1_digest iv m = concat (map be32 (absorb 64 SHA1Transform iv (md_pad 64 8 (\<lambda>k. be64 (word_of_nat k)) m)))"

lemma length_SHA1Transform: "length (SHA1Transform s b) = 5"
  by (simp add: SHA1Transform_def Let_def split: prod.split)


lemma ucast_and_255: "(ucast (w AND 255 :: u32) :: byte) = ucast w"
proof -
  have "255 = (mask 8 :: u32)" by (simp add: mask_eq_exp_minus_1)
  then show ?thesis
    by (simp only: take_bit_eq_mask [symmetric]) (auto simp: bit_simps intro!: bit_eqI)
qed

lemma upt_8_20:
  "[0..<8] = [0, 1, 2, 3, 4, 5, 6, 7 :: nat]"
  "[0..<20] = [0, 1, 2, 3, 4, 5, 6, 7, 8, 9, 10, 11, 12, 13, 14, 15, 16, 17, 18, 19 :: nat]"
  by code_simp+

lemma finalcount_be64:
  assumes "unat (c0 :: u32) + 2 ^ 32 * unat (c1 :: u32) = k mod 2 ^ 64"
  shows "map (\<lambda>i. ucast (drop_bit ((3 - i mod 4) * 8) (if (if 4 \<le> i then 0 else 1) = (0 :: nat) then c0 else c1) AND 255)) [0..<8]
    = be64 (word_of_nat k)"
  using split_count [OF assms]
  by (simp add: be64_def le32_le64 [symmetric] upt_8_20 ucast_and_255 le32_def)

lemma digest_be32:
  assumes "length s = 5"
  shows "map (\<lambda>i. ucast (drop_bit ((3 - i mod 4) * 8) (s ! (i div 4)) AND 255)) [0..<20] = concat (map be32 s)"
proof -
  obtain a b c d e where "s = [a, b, c, d, e]"
    using assms by (auto simp: length_Suc_conv numeral_eq_Suc)
  then show ?thesis by (simp add: upt_8_20 ucast_and_255 be32_def le32_def)
qed

lemma sha1_final_rep:
  assumes rep: "sha1_rep iv c m" and iv: "length iv = 5"
  shows "\<exists>c'. SHA1Final True c = Some (sha1_digest iv m, c') \<and> length (sha1_buffer c') = 64"
proof -
  define z where "z = (119 - length m mod 64) mod 64"
  obtain c1 where c1: "SHA1Update c [0x80] 1 = Some c1" "sha1_rep iv c1 (m @ [0x80])"
    using sha1_update_rep [OF rep, of "[0x80]"] by auto
  have z: "(120 - length (m @ [0x80 :: byte]) mod 64) mod 64 = z"
    by (auto simp: z_def mod_Suc)
  obtain c2 where c2: "pad_zeros c1 = Some c2" "sha1_rep iv c2 ((m @ [0x80]) @ replicate z 0)"
    using pad_zeros_rep [OF c1(2)] z by auto
  have cnt: "unat (sha1_count0 c) + 2 ^ 32 * unat (sha1_count1 c) = 8 * length m mod 2 ^ 64"
    using rep by (simp add: sha1_rep_def)
  obtain c3 where c3: "SHA1Update c2 (be64 (word_of_nat (8 * length m))) 8 = Some c3"
      "sha1_rep iv c3 (((m @ [0x80]) @ replicate z 0) @ be64 (word_of_nat (8 * length m)))"
    using sha1_update_rep [OF c2(2), of "be64 (word_of_nat (8 * length m))"] by auto
  have "((m @ [0x80]) @ replicate z 0) @ be64 (word_of_nat (8 * length m)) = md_pad 64 8 (\<lambda>k. be64 (word_of_nat k)) m"
    by (simp add: md_pad_def z_def)
  then have st: "sha1_state c3 = absorb 64 SHA1Transform iv (md_pad 64 8 (\<lambda>k. be64 (word_of_nat k)) m)"
    "length (sha1_buffer c3) = 64"
    using c3(2) by (simp_all add: sha1_rep_def buffered_def)
  then have "length (sha1_state c3) = 5"
    using length_absorb [OF iv, of SHA1Transform] length_SHA1Transform by simp
  then show ?thesis
    using c1(1) c2(1) c3(1) st digest_be32 [of "sha1_state c3"]
    unfolding SHA1Final_def Let_def finalcount_be64 [OF cnt] by (simp add: sha1_digest_def)
qed

section \<open>The block function is the one of FIPS 180\<close>

text \<open>The 80-word message schedule and the step function of the standard.\<close>

fun fips_W :: "u32 list \<Rightarrow> nat \<Rightarrow> u32" where
  "fips_W M t = (if t < 16 then M ! t
     else rol (fips_W M (t - 3) XOR fips_W M (t - 8) XOR fips_W M (t - 14) XOR fips_W M (t - 16)) 1)"

declare fips_W.simps [simp del]

definition fips_f :: "nat \<Rightarrow> u32 \<Rightarrow> u32 \<Rightarrow> u32 \<Rightarrow> u32" where
  "fips_f t x y z = (if t < 20 then (x AND y) XOR (NOT x AND z)
     else if t < 40 then x XOR y XOR z
     else if t < 60 then (x AND y) XOR (x AND z) XOR (y AND z)
     else x XOR y XOR z)"

definition fips_K :: "nat \<Rightarrow> u32" where
  "fips_K t = (if t < 20 then 0x5a827999 else if t < 40 then 0x6ed9eba1 else if t < 60 then 0x8f1bbcdc
     else 0xca62c1d6)"

fun fips_step :: "u32 list \<Rightarrow> nat \<Rightarrow> u32 \<times> u32 \<times> u32 \<times> u32 \<times> u32 \<Rightarrow> u32 \<times> u32 \<times> u32 \<times> u32 \<times> u32" where
  "fips_step M t (a, b, c, d, e) = (rol a 5 + fips_f t b c d + e + fips_K t + fips_W M t, a, rol b 30, c, d)"

definition fips_sha1 :: "u32 list \<Rightarrow> u32 list \<Rightarrow> u32 list" where
  "fips_sha1 H M = (let (a, b, c, d, e) = fold (fips_step M) [0..<80] (H ! 0, H ! 1, H ! 2, H ! 3, H ! 4)
   in [a + H ! 0, b + H ! 1, c + H ! 2, d + H ! 3, e + H ! 4])"

text \<open>One macro call with the registers in the order of the standard.\<close>

definition rstep :: "(nat \<Rightarrow> round_macro) \<Rightarrow> nat \<Rightarrow> regs \<Rightarrow> regs" where
  "rstep R i = (\<lambda>(a, b, c, d, e, l). let (z, w, l') = R i a b c d e l i in (z, a, w, c, d, l'))"

definition macro :: "nat \<Rightarrow> round_macro" where
  "macro t = (if t < 16 then R0 else if t < 20 then R1 else if t < 40 then R2 else if t < 60 then R3 else R4)"

lemma five_rstep:
  "five R i = rstep (\<lambda>_. R) (i + 4) \<circ> rstep (\<lambda>_. R) (i + 3) \<circ> rstep (\<lambda>_. R) (i + 2) \<circ> rstep (\<lambda>_. R) (i + 1) \<circ> rstep (\<lambda>_. R) i"
  by (auto simp: fun_eq_iff five_def rstep_def split: prod.splits)

lemma rstep_macro:
  "i < 20 \<Longrightarrow> rstep (\<lambda>_. R01) i = rstep macro i"
  "20 \<le> i \<Longrightarrow> i < 40 \<Longrightarrow> rstep (\<lambda>_. R2) i = rstep macro i"
  "40 \<le> i \<Longrightarrow> i < 60 \<Longrightarrow> rstep (\<lambda>_. R3) i = rstep macro i"
  "60 \<le> i \<Longrightarrow> rstep (\<lambda>_. R4) i = rstep macro i"
  by (auto simp: fun_eq_iff rstep_def macro_def R01_def)

lemma SHA1Transform_fold:
  "SHA1Transform s bytes = (let (a, b, c, d, e, _) =
      fold (rstep macro) [0..<80] (s ! 0, s ! 1, s ! 2, s ! 3, s ! 4, words_le bytes)
    in [s ! 0 + a, s ! 1 + b, s ! 2 + c, s ! 3 + d, s ! 4 + e])"
proof -
  have u: "[0..<80] = [0, 1, 2, 3, 4, 5, 6, 7, 8, 9, 10, 11, 12, 13, 14, 15, 16, 17, 18, 19, 20, 21, 22,
    23, 24, 25, 26, 27, 28, 29, 30, 31, 32, 33, 34, 35, 36, 37, 38, 39, 40, 41, 42, 43, 44, 45, 46, 47,
    48, 49, 50, 51, 52, 53, 54, 55, 56, 57, 58, 59, 60, 61, 62, 63, 64, 65, 66, 67, 68, 69, 70, 71, 72,
    73, 74, 75, 76, 77, 78, 79 :: nat]" by code_simp
  show ?thesis
    unfolding SHA1Transform_def Let_def five_rstep u by (simp add: rstep_macro numeral_2_eq_2)
qed

text \<open>\<open>window M B t l\<close>: the window after \<open>t\<close> steps, \<open>B\<close> the words as loaded.\<close>

definition window :: "u32 list \<Rightarrow> u32 list \<Rightarrow> nat \<Rightarrow> u32 list \<Rightarrow> bool" where
  "window M B t l \<longleftrightarrow> length l = 16 \<and>
     (\<forall>j. j < t \<and> t \<le> j + 16 \<longrightarrow> l ! (j mod 16) = fips_W M j) \<and> (\<forall>j < 16. t \<le> j \<longrightarrow> l ! j = B ! j)"

definition bswap :: "u32 \<Rightarrow> u32" where
  "bswap w = (rol w 24 AND 0xFF00FF00) OR (rol w 8 AND 0x00FF00FF)"

lemma window_Suc:
  assumes "window M B t l"
  shows "window M B (Suc t) (l[t mod 16 := fips_W M t])"
  unfolding window_def
proof (intro conjI allI impI)
  fix j assume j: "j < Suc t \<and> Suc t \<le> j + 16"
  then show "l[t mod 16 := fips_W M t] ! (j mod 16) = fips_W M j"
    using assms mod_window [of j t] by (cases "j = t") (auto simp: window_def nth_list_update)
next
  fix j :: nat assume "j < 16" "Suc t \<le> j"
  then show "l[t mod 16 := fips_W M t] ! j = B ! j" using assms by (simp add: window_def)
qed (use assms in \<open>simp add: window_def\<close>)

lemma window_blk:
  assumes "window M B t l" "16 \<le> t"
  shows "blk l t = (fips_W M t, l[t mod 16 := fips_W M t])"
proof -
  have w: "l ! (j mod 16) = fips_W M j" if "j < t" "t \<le> j + 16" for j
    using assms(1) that by (simp add: window_def)
  show ?thesis
    using assms(2) w [of "t - 3"] w [of "t - 8"] w [of "t - 14"] w [of "t - 16"]
    by (simp add: blk_def Let_def fips_W.simps [of M t] mod16_back)
qed

lemma window_blk0:
  assumes "window M B t l" "t < 16" "bswap (B ! t) = M ! t"
  shows "blk0 l t = (fips_W M t, l[t mod 16 := fips_W M t])"
  using assms by (simp add: blk0_def Let_def window_def bswap_def fips_W.simps [of M t])

lemma choose_forms:
  "z XOR x AND (y XOR z) = x AND y XOR z AND NOT (x :: u32)"
  "x AND y OR z AND (x OR y) = x AND y XOR x AND z XOR y AND (z :: u32)"
  by (rule bit_eqI; auto simp: bit_simps)+

lemma rstep_fips:
  assumes "window M B t l" "\<forall>i < 16. bswap (B ! i) = M ! i"
  shows "rstep macro t (a, b, c, d, e, l) =
    (let (a, b, c, d, e) = fips_step M t (a, b, c, d, e) in (a, b, c, d, e, l[t mod 16 := fips_W M t]))"
  using assms window_blk [OF assms(1)] window_blk0 [OF assms(1)]
  by (auto simp: rstep_def macro_def R0_def R1_def R2_def R3_def R4_def fips_f_def fips_K_def choose_forms
      ac_simps)

lemma fold_fips:
  assumes "\<forall>i < 16. bswap (B ! i) = M ! i" "length B = 16"
  shows "\<exists>a b c d e l. fold (rstep macro) [0..<t] (A0, B0, C0, D0, E0, B) = (a, b, c, d, e, l) \<and>
    fold (fips_step M) [0..<t] (A0, B0, C0, D0, E0) = (a, b, c, d, e) \<and> window M B t l"
proof (induction t)
  case 0
  show ?case using assms by (simp add: window_def)
next
  case (Suc t)
  then obtain a b c d e l where
    "fold (rstep macro) [0..<t] (A0, B0, C0, D0, E0, B) = (a, b, c, d, e, l)"
    "fold (fips_step M) [0..<t] (A0, B0, C0, D0, E0) = (a, b, c, d, e)" "window M B t l" by blast
  then show ?case using rstep_fips [OF _ assms(1)] window_Suc by fastforce
qed

lemma bit_byte_high [simp]: "8 \<le> k \<Longrightarrow> \<not> bit (x :: byte) k"
  using bit_imp_le_length [of x k] by auto

lemma bswap_word:
  fixes a b c d :: byte
  shows "bswap (ucast a OR push_bit 8 (ucast b) OR push_bit 16 (ucast c) OR push_bit 24 (ucast d)) =
    ucast d OR push_bit 8 (ucast c) OR push_bit 16 (ucast b) OR push_bit 24 (ucast a)"
proof -
  have m: "0xFF00FF00 = push_bit 24 (mask 8) OR push_bit 8 (mask 8 :: u32)"
    "0x00FF00FF = push_bit 16 (mask 8) OR (mask 8 :: u32)"
    by (simp_all add: mask_eq_exp_minus_1)
  show ?thesis
  proof (rule bit_word_eqI)
    fix n assume "n < LENGTH(32)"
    then consider "n < 8" | "8 \<le> n" "n < 16" | "16 \<le> n" "n < 24" | "24 \<le> n" "n < 32" by fastforce
    then show "bit (bswap (ucast a OR push_bit 8 (ucast b) OR push_bit 16 (ucast c) OR push_bit 24 (ucast d))) n
       = bit (ucast d OR push_bit 8 (ucast c) OR push_bit 16 (ucast b) OR push_bit 24 (ucast a) :: u32) n"
      unfolding bswap_def rol_def m
      by cases (auto simp: bit_simps)
  qed
qed

lemma bswap_words: "i < length bs div 4 \<Longrightarrow> bswap (words_le bs ! i) = words_be bs ! i"
  by (induction bs arbitrary: i rule: words_le.induct) (auto simp: nth_Cons' bswap_word)


lemma SHA1Transform_fips_aux:
  assumes "length bytes = 64"
  shows "SHA1Transform s bytes = fips_sha1 s (words_be bytes)"
  using fold_fips [of "words_le bytes" "words_be bytes" 80 "s ! 0" "s ! 1" "s ! 2" "s ! 3" "s ! 4"]
    bswap_words [of _ bytes] assms
  by (auto simp: SHA1Transform_fold fips_sha1_def add.commute)

section \<open>Test vector\<close>

lemma sha1_eval:
  "blk0 l i = (let w = nf ((nf (rol (l ! i) 24) AND 0xFF00FF00) OR (nf (rol (l ! i) 8) AND 0x00FF00FF)) in (w, l[i := w]))"
  "blk l i = (let w = nf (rol (l ! ((i + 13) mod 16) XOR l ! ((i + 8) mod 16) XOR l ! ((i + 2) mod 16)
     XOR l ! (i mod 16)) 1) in (w, l[i mod 16 := w]))"
  "rol v k = push_bit k v OR drop_bit (32 - k) v"
  "R0 v w x y z l i = (let (b, l) = blk0 l i in
     (nf (z + (((w AND (x XOR y)) XOR y) + b + 0x5A827999 + rol v 5)), nf (rol w 30), l))"
  "R1 v w x y z l i = (let (b, l) = blk l i in
     (nf (z + (((w AND (x XOR y)) XOR y) + b + 0x5A827999 + rol v 5)), nf (rol w 30), l))"
  "R2 v w x y z l i = (let (b, l) = blk l i in
     (nf (z + ((w XOR x XOR y) + b + 0x6ED9EBA1 + rol v 5)), nf (rol w 30), l))"
  "R3 v w x y z l i = (let (b, l) = blk l i in
     (nf (z + ((((w OR x) AND y) OR (w AND x)) + b + 0x8F1BBCDC + rol v 5)), nf (rol w 30), l))"
  "R4 v w x y z l i = (let (b, l) = blk l i in
     (nf (z + ((w XOR x XOR y) + b + 0xCA62C1D6 + rol v 5)), nf (rol w 30), l))"
  "R01 v w x y z l i = (if i < 16 then R0 v w x y z l i else R1 v w x y z l i)"
  by (simp_all only: nf_def blk0_def blk_def rol_def R0_def R1_def R2_def R3_def R4_def R01_def)

lemma SHA1_abc_0: "five R01 0 (0x67452301, 0xefcdab89, 0x98badcfe, 0x10325476, 0xc3d2e1f0,
      [0x80636261, 0x0, 0x0, 0x0, 0x0, 0x0, 0x0, 0x0, 0x0, 0x0, 0x0, 0x0, 0x0, 0x0, 0x0, 0x18000000]) =
      (0xcfd499de, 0xcdd8e11b, 0x284e43c2, 0x626414db, 0xc045bf0c,
      [0x61626380, 0x0, 0x0, 0x0, 0x0, 0x0, 0x0, 0x0, 0x0, 0x0, 0x0, 0x0, 0x0, 0x0, 0x0, 0x18000000])"
  unfolding five_def prod.case by (simp add: sha1_eval Let_Pair cong: let_weak_cong)

lemma SHA1_abc_1: "five R01 5 (0xcfd499de, 0xcdd8e11b, 0x284e43c2, 0x626414db, 0xc045bf0c,
      [0x61626380, 0x0, 0x0, 0x0, 0x0, 0x0, 0x0, 0x0, 0x0, 0x0, 0x0, 0x0, 0x0, 0x0, 0x0, 0x18000000]) =
      (0x8351f929, 0x4b6ae328, 0x27a301f5, 0x664f8c30, 0xff1f290,
      [0x61626380, 0x0, 0x0, 0x0, 0x0, 0x0, 0x0, 0x0, 0x0, 0x0, 0x0, 0x0, 0x0, 0x0, 0x0, 0x18000000])"
  unfolding five_def prod.case by (simp add: sha1_eval Let_Pair cong: let_weak_cong)

lemma SHA1_abc_2: "five R01 10 (0x8351f929, 0x4b6ae328, 0x27a301f5, 0x664f8c30, 0xff1f290,
      [0x61626380, 0x0, 0x0, 0x0, 0x0, 0x0, 0x0, 0x0, 0x0, 0x0, 0x0, 0x0, 0x0, 0x0, 0x0, 0x18000000]) =
      (0x196bee77, 0x9128f695, 0x1181ed99, 0x18c623f9, 0x7ef6a7a2,
      [0x61626380, 0x0, 0x0, 0x0, 0x0, 0x0, 0x0, 0x0, 0x0, 0x0, 0x0, 0x0, 0x0, 0x0, 0x0, 0x18000000])"
  unfolding five_def prod.case by (simp add: sha1_eval Let_Pair cong: let_weak_cong)

lemma SHA1_abc_3: "five R01 15 (0x196bee77, 0x9128f695, 0x1181ed99, 0x18c623f9, 0x7ef6a7a2,
      [0x61626380, 0x0, 0x0, 0x0, 0x0, 0x0, 0x0, 0x0, 0x0, 0x0, 0x0, 0x0, 0x0, 0x0, 0x0, 0x18000000]) =
      (0xfd9e1d7d, 0xdc64901d, 0x20aa99ca, 0xd3a49608, 0xc82f758b,
      [0xc2c4c700, 0x0, 0x30, 0x85898e01, 0x0, 0x0, 0x0, 0x0, 0x0, 0x0, 0x0, 0x0, 0x0, 0x0, 0x0, 0x18])"
  unfolding five_def prod.case by (simp add: sha1_eval Let_Pair cong: let_weak_cong)

lemma SHA1_abc_4: "five R2 20 (0xfd9e1d7d, 0xdc64901d, 0x20aa99ca, 0xd3a49608, 0xc82f758b,
      [0xc2c4c700, 0x0, 0x30, 0x85898e01, 0x0, 0x0, 0x0, 0x0, 0x0, 0x0, 0x0, 0x0, 0x0, 0x0, 0x0, 0x18]) =
      (0xc7567dc6, 0xd541f12d, 0x884a0d21, 0xce88eff, 0x868dec32,
      [0xc2c4c700, 0x0, 0x30, 0x85898e01, 0x0, 0x60, 0xb131c03, 0x30, 0x85898ec1, 0x0, 0x0, 0x0, 0x0, 0x0, 0x0, 0x18])"
  unfolding five_def prod.case by (simp add: sha1_eval Let_Pair cong: let_weak_cong)

lemma SHA1_abc_5: "five R2 25 (0xc7567dc6, 0xd541f12d, 0x884a0d21, 0xce88eff, 0x868dec32,
      [0xc2c4c700, 0x0, 0x30, 0x85898e01, 0x0, 0x60, 0xb131c03, 0x30, 0x85898ec1, 0x0, 0x0, 0x0, 0x0, 0x0, 0x0, 0x18]) =
      (0xc5fbaf5d, 0x8370b52e, 0xd2aa1365, 0x6f8d7ef5, 0x12104ee9,
      [0xc2c4c700, 0x0, 0x30, 0x85898e01, 0x0, 0x60, 0xb131c03, 0x30, 0x85898ec1, 0x16263806, 0x0, 0x180, 0x2c4c700c, 0xf0, 0x0, 0x18])"
  unfolding five_def prod.case by (simp add: sha1_eval Let_Pair cong: let_weak_cong)

lemma SHA1_abc_6: "five R2 30 (0xc5fbaf5d, 0x8370b52e, 0xd2aa1365, 0x6f8d7ef5, 0x12104ee9,
      [0xc2c4c700, 0x0, 0x30, 0x85898e01, 0x0, 0x60, 0xb131c03, 0x30, 0x85898ec1, 0x16263806, 0x0, 0x180, 0x2c4c700c, 0xf0, 0x0, 0x18]) =
      (0x21796ad4, 0x2c0ebc11, 0x811bea82, 0xcee1174c, 0xc499ed01,
      [0x8e9a9202, 0x600, 0xb131c0f0, 0x85898e01, 0x0, 0x60, 0xb131c03, 0x30, 0x85898ec1, 0x16263806, 0x0, 0x180, 0x2c4c700c, 0xf0, 0x93afb507, 0x5898e048])"
  unfolding five_def prod.case by (simp add: sha1_eval Let_Pair cong: let_weak_cong)

lemma SHA1_abc_7: "five R2 35 (0x21796ad4, 0x2c0ebc11, 0x811bea82, 0xcee1174c, 0xc499ed01,
      [0x8e9a9202, 0x600, 0xb131c0f0, 0x85898e01, 0x0, 0x60, 0xb131c03, 0x30, 0x85898ec1, 0x16263806, 0x0, 0x180, 0x2c4c700c, 0xf0, 0x93afb507, 0x5898e048]) =
      (0x32de1cba, 0x4c986405, 0xf718e5cf, 0x3d447f6, 0xf72eec32,
      [0x8e9a9202, 0x600, 0xb131c0f0, 0x16263bc6, 0x4ebed41e, 0x626380a1, 0x16263806, 0x18c0, 0x85898ec1, 0x16263806, 0x0, 0x180, 0x2c4c700c, 0xf0, 0x93afb507, 0x5898e048])"
  unfolding five_def prod.case by (simp add: sha1_eval Let_Pair cong: let_weak_cong)

lemma SHA1_abc_8: "five R3 40 (0x32de1cba, 0x4c986405, 0xf718e5cf, 0x3d447f6, 0xf72eec32,
      [0x8e9a9202, 0x600, 0xb131c0f0, 0x16263bc6, 0x4ebed41e, 0x626380a1, 0x16263806, 0x18c0, 0x85898ec1, 0x16263806, 0x0, 0x180, 0x2c4c700c, 0xf0, 0x93afb507, 0x5898e048]) =
      (0x40f28e09, 0xee1b1aaf, 0x5fc64f71, 0x25c28357, 0xff21f7b7,
      [0x8e9a9202, 0x600, 0xb131c0f0, 0x16263bc6, 0x4ebed41e, 0x626380a1, 0x16263806, 0x18c0, 0xd2e138c4, 0xf00, 0x3afb5079, 0x898e04e5, 0xe2ba3c2b, 0xf0, 0x93afb507, 0x5898e048])"
  unfolding five_def prod.case by (simp add: sha1_eval Let_Pair cong: let_weak_cong)

lemma SHA1_abc_9: "five R3 45 (0x40f28e09, 0xee1b1aaf, 0x5fc64f71, 0x25c28357, 0xff21f7b7,
      [0x8e9a9202, 0x600, 0xb131c0f0, 0x16263bc6, 0x4ebed41e, 0x626380a1, 0x16263806, 0x18c0, 0xd2e138c4, 0xf00, 0x3afb5079, 0x898e04e5, 0xe2ba3c2b, 0xf0, 0x93afb507, 0x5898e048]) =
      (0x120731c5, 0xbaf39337, 0xafab40b2, 0x2806e11b, 0x8714787c,
      [0xda9415ed, 0x26380a16, 0xb131c0f0, 0x16263bc6, 0x4ebed41e, 0x626380a1, 0x16263806, 0x18c0, 0xd2e138c4, 0xf00, 0x3afb5079, 0x898e04e5, 0xe2ba3c2b, 0x60c0, 0x53a37cd, 0x74458547])"
  unfolding five_def prod.case by (simp add: sha1_eval Let_Pair cong: let_weak_cong)

lemma SHA1_abc_10: "five R3 50 (0x120731c5, 0xbaf39337, 0xafab40b2, 0x2806e11b, 0x8714787c,
      [0xda9415ed, 0x26380a16, 0xb131c0f0, 0x16263bc6, 0x4ebed41e, 0x626380a1, 0x16263806, 0x18c0, 0xd2e138c4, 0xf00, 0x3afb5079, 0x898e04e5, 0xe2ba3c2b, 0x60c0, 0x53a37cd, 0x74458547]) =
      (0x7b71f76d, 0x27e9f1d8, 0x792410db, 0x8e11eb59, 0x99076cb3,
      [0xda9415ed, 0x26380a16, 0x626383a1, 0x4ebf54de, 0x3835b44b, 0xf600, 0x1e84c7a3, 0x18c0, 0xd2e138c4, 0xf00, 0x3afb5079, 0x898e04e5, 0xe2ba3c2b, 0x60c0, 0x53a37cd, 0x74458547])"
  unfolding five_def prod.case by (simp add: sha1_eval Let_Pair cong: let_weak_cong)

lemma SHA1_abc_11: "five R3 55 (0x7b71f76d, 0x27e9f1d8, 0x792410db, 0x8e11eb59, 0x99076cb3,
      [0xda9415ed, 0x26380a16, 0x626383a1, 0x4ebf54de, 0x3835b44b, 0xf600, 0x1e84c7a3, 0x18c0, 0xd2e138c4, 0xf00, 0x3afb5079, 0x898e04e5, 0xe2ba3c2b, 0x60c0, 0x53a37cd, 0x74458547]) =
      (0x3f52de5a, 0x9d785fd, 0x3498bfd4, 0xf211824f, 0xd79915ab,
      [0xda9415ed, 0x26380a16, 0x626383a1, 0x4ebf54de, 0x3835b44b, 0xf600, 0x1e84c7a3, 0x98e04d98, 0x651d16a0, 0x62658ca1, 0x458544d6, 0x44584cb7, 0xe2ba3c2b, 0x60c0, 0x53a37cd, 0x74458547])"
  unfolding five_def prod.case by (simp add: sha1_eval Let_Pair cong: let_weak_cong)

lemma SHA1_abc_12: "five R4 60 (0x3f52de5a, 0x9d785fd, 0x3498bfd4, 0xf211824f, 0xd79915ab,
      [0xda9415ed, 0x26380a16, 0x626383a1, 0x4ebf54de, 0x3835b44b, 0xf600, 0x1e84c7a3, 0x98e04d98, 0x651d16a0, 0x62658ca1, 0x458544d6, 0x44584cb7, 0xe2ba3c2b, 0x60c0, 0x53a37cd, 0x74458547]) =
      (0x19dfa7ac, 0x6b61c9e1, 0xed9b0082, 0x9523272c, 0xf5d5b051,
      [0x7cd45c9d, 0x26380a16, 0x626383a1, 0x4ebf54de, 0x3835b44b, 0xf600, 0x1e84c7a3, 0x98e04d98, 0x651d16a0, 0x62658ca1, 0x458544d6, 0x44584cb7, 0x7ba06619, 0x6380aea2, 0xae55269, 0x627b49a1])"
  unfolding five_def prod.case by (simp add: sha1_eval Let_Pair cong: let_weak_cong)

lemma SHA1_abc_13: "five R4 65 (0x19dfa7ac, 0x6b61c9e1, 0xed9b0082, 0x9523272c, 0xf5d5b051,
      [0x7cd45c9d, 0x26380a16, 0x626383a1, 0x4ebf54de, 0x3835b44b, 0xf600, 0x1e84c7a3, 0x98e04d98, 0x651d16a0, 0x62658ca1, 0x458544d6, 0x44584cb7, 0x7ba06619, 0x6380aea2, 0xae55269, 0x627b49a1]) =
      (0x3f2588c2, 0x497093c0, 0xde37534a, 0x30f7cad, 0x4405957e,
      [0x7cd45c9d, 0xf0000, 0xfb50753a, 0xec6765e8, 0xba3c2be2, 0x60c000, 0x1e84c7a3, 0x98e04d98, 0x651d16a0, 0x62658ca1, 0x458544d6, 0x44584cb7, 0x7ba06619, 0x6380aea2, 0xae55269, 0x627b49a1])"
  unfolding five_def prod.case by (simp add: sha1_eval Let_Pair cong: let_weak_cong)

lemma SHA1_abc_14: "five R4 70 (0x3f2588c2, 0x497093c0, 0xde37534a, 0x30f7cad, 0x4405957e,
      [0x7cd45c9d, 0xf0000, 0xfb50753a, 0xec6765e8, 0xba3c2be2, 0x60c000, 0x1e84c7a3, 0x98e04d98, 0x651d16a0, 0x62658ca1, 0x458544d6, 0x44584cb7, 0x7ba06619, 0x6380aea2, 0xae55269, 0x627b49a1]) =
      (0x5ee76897, 0x11793f6f, 0x3b6d0b79, 0xce616779, 0xf0667e31,
      [0x7cd45c9d, 0xf0000, 0xfb50753a, 0xec6765e8, 0xba3c2be2, 0x60c000, 0x3a37cd05, 0x458546f4, 0xb8599dd6, 0x380a1a26, 0x1e02203, 0x44584cb7, 0x7ba06619, 0x6380aea2, 0xae55269, 0x627b49a1])"
  unfolding five_def prod.case by (simp add: sha1_eval Let_Pair cong: let_weak_cong)

lemma SHA1_abc_15: "five R4 75 (0x5ee76897, 0x11793f6f, 0x3b6d0b79, 0xce616779, 0xf0667e31,
      [0x7cd45c9d, 0xf0000, 0xfb50753a, 0xec6765e8, 0xba3c2be2, 0x60c000, 0x3a37cd05, 0x458546f4, 0xb8599dd6, 0x380a1a26, 0x1e02203, 0x44584cb7, 0x7ba06619, 0x6380aea2, 0xae55269, 0x627b49a1]) =
      (0x42541b35, 0x5738d5e1, 0x21834873, 0x681e6df6, 0xd8fdf6ad,
      [0x7cd45c9d, 0xf0000, 0xfb50753a, 0xec6765e8, 0xba3c2be2, 0x60c000, 0x3a37cd05, 0x458546f4, 0xb8599dd6, 0x380a1a26, 0x1e02203, 0xe7cc3456, 0xe6e60b69, 0xf60a00, 0x5795ef4f, 0x822e0879])"
  unfolding five_def prod.case by (simp add: sha1_eval Let_Pair cong: let_weak_cong)

definition sha1_iv :: "u32 list" where
  "sha1_iv = [0x67452301, 0xEFCDAB89, 0x98BADCFE, 0x10325476, 0xC3D2E1F0]"

lemma sha1_digest_abc:
  "sha1_digest sha1_iv [0x61, 0x62, 0x63] = [0xa9, 0x99, 0x3e, 0x36, 0x47, 0x06, 0x81, 0x6a, 0xba, 0x3e,
     0x25, 0x71, 0x78, 0x50, 0xc2, 0x6c, 0x9c, 0xd0, 0xd8, 0x9d]"
proof -
  have p: "md_pad 64 8 (\<lambda>k. be64 (word_of_nat k)) [0x61, 0x62, 0x63] =
      [0x61, 0x62, 0x63, 0x80] @ replicate 52 0 @ [0, 0, 0, 0, 0, 0, 0, 24]"
    by (simp add: md_pad_def be64_def le64_def)
  have w: "words_le ([0x61, 0x62, 0x63, 0x80] @ replicate 52 0 @ [0, 0, 0, 0, 0, 0, 0, 24]) =
      [0x80636261, 0, 0, 0, 0, 0, 0, 0, 0, 0, 0, 0, 0, 0, 0, 0x18000000]"
    by code_simp
  have "SHA1Transform sha1_iv ([0x61, 0x62, 0x63, 0x80] @ replicate 52 0 @ [0, 0, 0, 0, 0, 0, 0, 24]) =
      [0xa9993e36, 0x4706816a, 0xba3e2571, 0x7850c26c, 0x9cd0d89d]"
    unfolding SHA1Transform_def w
    by (simp add: sha1_iv_def SHA1_abc_0 SHA1_abc_1 SHA1_abc_2 SHA1_abc_3 SHA1_abc_4 SHA1_abc_5 SHA1_abc_6
        SHA1_abc_7 SHA1_abc_8 SHA1_abc_9 SHA1_abc_10 SHA1_abc_11 SHA1_abc_12 SHA1_abc_13 SHA1_abc_14 SHA1_abc_15)
  then show ?thesis
    unfolding sha1_digest_def p by (simp add: absorb_step absorb_short be32_def le32_def)
qed

section \<open>The interface, interpreted on SHA-1\<close>

abbreviation sha1_upd :: "SHA1_CTX \<Rightarrow> byte list \<Rightarrow> SHA1_CTX option" where
  "sha1_upd c d \<equiv> SHA1Update c d (word_of_nat (length d))"

interpretation sha1: stream_hash "\<lambda>c. length (sha1_buffer c) = 64" SHA1Init sha1_upd "SHA1Final True"
  "sha1_rep sha1_iv" "\<lambda>n. n < 2 ^ 29" "sha1_digest sha1_iv"
proof unfold_locales
  fix c :: SHA1_CTX assume "length (sha1_buffer c) = 64"
  then show "sha1_rep sha1_iv (SHA1Init c) []"
    by (simp add: sha1_rep_def SHA1Init_def sha1_iv_def)
qed (simp_all add: sha1_update_rep sha1_final_rep sha1_iv_def)

section \<open>Properties\<close>

text \<open>
  C6. SHA-1 is streaming: for every way of cutting a message into pieces of less than \<open>2 ^ 29\<close> bytes,
  \<open>Init\<close>, one \<open>Update\<close> per piece and \<open>Final\<close> (whose padding loop terminates) stay inside the context
  and the input and deliver the digest of the whole message.
\<close>

theorem sha1_stream_correct:
  assumes "length (sha1_buffer c) = 64" "\<forall>d \<in> set ds. length d < 2 ^ 29"
  shows "hash_of SHA1Init (\<lambda>c d. SHA1Update c d (word_of_nat (length d))) (SHA1Final True) c ds
    = Some (sha1_digest sha1_iv (concat ds))"
  using sha1.hash_chunks [OF assms] .

text \<open>Witness: the FIPS 180 test vector quoted in the source.\<close>

theorem sha1_stream_correct_witness:
  "hash_of SHA1Init (\<lambda>c d. SHA1Update c d (word_of_nat (length d))) (SHA1Final True)
     \<lparr>sha1_state = [], sha1_count0 = 9, sha1_count1 = 9, sha1_buffer = replicate 64 7\<rparr> [[0x61, 0x62], [0x63]]
   = Some [0xa9, 0x99, 0x3e, 0x36, 0x47, 0x06, 0x81, 0x6a, 0xba, 0x3e,
     0x25, 0x71, 0x78, 0x50, 0xc2, 0x6c, 0x9c, 0xd0, 0xd8, 0x9d]"
  using sha1_stream_correct [of "\<lparr>sha1_state = [], sha1_count0 = 9, sha1_count1 = 9, sha1_buffer = replicate 64 7\<rparr>"
      "[[0x61, 0x62], [0x63]]"] sha1_digest_abc by simp

text \<open>
  C20. The unrolled block function with its 16-word in-place schedule computes the compression function
  of FIPS 180: 80 steps over the 80-word schedule of the big-endian words of the block.
\<close>

theorem sha1_transform_fips:
  assumes "length bytes = 64"
  shows "SHA1Transform s bytes = fips_sha1 s (words_be bytes)"
  using assms by (rule SHA1Transform_fips_aux)

theorem sha1_transform_fips_witness:
  "SHA1Transform [1, 2, 3, 4, 5] (replicate 64 0x61) = fips_sha1 [1, 2, 3, 4, 5] (words_be (replicate 64 0x61))"
  by (rule sha1_transform_fips) simp

text \<open>
  The bound on the pieces is needed: \<open>SHA1Update\<close> adds the high bits of the length (\<^verbatim>\<open>len >> 29\<close>) to
  \<^verbatim>\<open>count[1]\<close> only when the low word carries.  One update of a fresh context with \<open>2 ^ 29\<close> bytes, that
  is \<open>2 ^ 32\<close> bits, leaves a bit count of zero, so \<open>SHA1Final\<close> appends the length of the empty message.
\<close>

theorem sha1_count_lost:
  assumes "length (sha1_buffer c) = 64" "length d = 2 ^ 29"
  shows "\<exists>c'. SHA1Update (SHA1Init c) d (2 ^ 29) = Some c' \<and>
    sha1_state c' = absorb 64 SHA1Transform sha1_iv d \<and> sha1_count0 c' = 0 \<and> sha1_count1 c' = 0"
proof -
  have b: "buffered 64 SHA1Transform sha1_iv (sha1_state (SHA1Init c)) (sha1_buffer (SHA1Init c)) []"
    using assms by (simp add: SHA1Init_def sha1_iv_def)
  have "length d < 2 ^ 32 - 63" "64 \<le> length ([] :: byte list) mod 64 + length d"
    "unat (2 ^ 29 :: u32) = length d" using assms by simp_all
  then show ?thesis
    using buffered_block [OF b, of d 0 "2 ^ 29"] by (auto simp: SHA1Update_def SHA1Init_def buffered_def)
qed

end
