(* ===== verification/Hash_RMD160.thy ===== *)
theory Hash_RMD160
  imports Hash_Core
begin

text \<open>
  RIPEMD-160, \<^verbatim>\<open>src/libc/common/lib/libc/hash/rmd160/rmd160.c\<close>, as compiled on a little-endian machine.
  The source calls the macro \<open>R\<close> 160 times with its five register arguments rotated by one place from
  call to call; \<open>rmd_R\<close> makes one call and rotates, and each round is the table of its (shift, word)
  arguments, in the order of the source.
\<close>

section \<open>The block function\<close>

definition ROL :: "nat \<Rightarrow> u32 \<Rightarrow> u32" where
  "ROL n x = push_bit n x OR drop_bit (32 - n) x"

definition F0 :: "u32 \<Rightarrow> u32 \<Rightarrow> u32 \<Rightarrow> u32" where "F0 x y z = x XOR y XOR z"
definition F1 :: "u32 \<Rightarrow> u32 \<Rightarrow> u32 \<Rightarrow> u32" where "F1 x y z = (x AND y) OR (NOT x AND z)"
definition F2 :: "u32 \<Rightarrow> u32 \<Rightarrow> u32 \<Rightarrow> u32" where "F2 x y z = (x OR NOT y) XOR z"
definition F3 :: "u32 \<Rightarrow> u32 \<Rightarrow> u32 \<Rightarrow> u32" where "F3 x y z = (x AND z) OR (y AND NOT z)"
definition F4 :: "u32 \<Rightarrow> u32 \<Rightarrow> u32 \<Rightarrow> u32" where "F4 x y z = x XOR (y OR NOT z)"

type_synonym rmd_regs = "u32 \<times> u32 \<times> u32 \<times> u32 \<times> u32"

fun rmd_R :: "(u32 \<Rightarrow> u32 \<Rightarrow> u32 \<Rightarrow> u32) \<Rightarrow> u32 \<Rightarrow> u32 list \<Rightarrow> nat \<times> nat \<Rightarrow> rmd_regs \<Rightarrow> rmd_regs" where
  "rmd_R Fj Kj x (sj, rj) (a, b, c, d, e) = (let
     a = ROL sj (a + Fj b c d + x ! rj + Kj) + e;
     c = ROL 10 c
   in (e, a, b, c, d))"

definition left1 :: "(nat \<times> nat) list" where
  "left1 = [(11, 0), (14, 1), (15, 2), (12, 3), (5, 4), (8, 5), (7, 6), (9, 7),
    (11, 8), (13, 9), (14, 10), (15, 11), (6, 12), (7, 13), (9, 14), (8, 15)]"

definition left2 :: "(nat \<times> nat) list" where
  "left2 = [(7, 7), (6, 4), (8, 13), (13, 1), (11, 10), (9, 6), (7, 15), (15, 3),
    (7, 12), (12, 0), (15, 9), (9, 5), (11, 2), (7, 14), (13, 11), (12, 8)]"

definition left3 :: "(nat \<times> nat) list" where
  "left3 = [(11, 3), (13, 10), (6, 14), (7, 4), (14, 9), (9, 15), (13, 8), (15, 1),
    (14, 2), (8, 7), (13, 0), (6, 6), (5, 13), (12, 11), (7, 5), (5, 12)]"

definition left4 :: "(nat \<times> nat) list" where
  "left4 = [(11, 1), (12, 9), (14, 11), (15, 10), (14, 0), (15, 8), (9, 12), (8, 4),
    (9, 13), (14, 3), (5, 7), (6, 15), (8, 14), (6, 5), (5, 6), (12, 2)]"

definition left5 :: "(nat \<times> nat) list" where
  "left5 = [(9, 4), (15, 0), (5, 5), (11, 9), (6, 7), (8, 12), (13, 2), (12, 10),
    (5, 14), (12, 1), (13, 3), (14, 8), (11, 11), (8, 6), (5, 15), (6, 13)]"

definition right1 :: "(nat \<times> nat) list" where
  "right1 = [(8, 5), (9, 14), (9, 7), (11, 0), (13, 9), (15, 2), (15, 11), (5, 4),
    (7, 13), (7, 6), (8, 15), (11, 8), (14, 1), (14, 10), (12, 3), (6, 12)]"

definition right2 :: "(nat \<times> nat) list" where
  "right2 = [(9, 6), (13, 11), (15, 3), (7, 7), (12, 0), (8, 13), (9, 5), (11, 10),
    (7, 14), (7, 15), (12, 8), (7, 12), (6, 4), (15, 9), (13, 1), (11, 2)]"

definition right3 :: "(nat \<times> nat) list" where
  "right3 = [(9, 15), (7, 5), (15, 1), (11, 3), (8, 7), (6, 14), (6, 6), (14, 9),
    (12, 11), (13, 8), (5, 12), (14, 2), (13, 10), (13, 0), (7, 4), (5, 13)]"

definition right4 :: "(nat \<times> nat) list" where
  "right4 = [(15, 8), (5, 6), (8, 4), (11, 1), (14, 3), (14, 11), (6, 15), (14, 0),
    (6, 5), (9, 12), (12, 2), (9, 13), (12, 9), (5, 7), (15, 10), (8, 14)]"

definition right5 :: "(nat \<times> nat) list" where
  "right5 = [(8, 12), (5, 15), (12, 10), (9, 4), (12, 1), (5, 5), (14, 8), (6, 7),
    (8, 6), (13, 2), (6, 13), (5, 14), (15, 0), (13, 3), (11, 9), (11, 11)]"

definition left_line :: "u32 list \<Rightarrow> rmd_regs \<Rightarrow> rmd_regs" where
  "left_line x r = (let
     r = fold (rmd_R F0 0x00000000 x) left1 r;
     r = fold (rmd_R F1 0x5A827999 x) left2 r;
     r = fold (rmd_R F2 0x6ED9EBA1 x) left3 r;
     r = fold (rmd_R F3 0x8F1BBCDC x) left4 r
   in fold (rmd_R F4 0xA953FD4E x) left5 r)"

definition right_line :: "u32 list \<Rightarrow> rmd_regs \<Rightarrow> rmd_regs" where
  "right_line x r = (let
     r = fold (rmd_R F4 0x50A28BE6 x) right1 r;
     r = fold (rmd_R F3 0x5C4DD124 x) right2 r;
     r = fold (rmd_R F2 0x6D703EF3 x) right3 r;
     r = fold (rmd_R F1 0x7A6D76E9 x) right4 r
   in fold (rmd_R F0 0x00000000 x) right5 r)"

definition RMD160Transform :: "u32 list \<Rightarrow> byte list \<Rightarrow> u32 list" where
  "RMD160Transform s block = (let
     x = words_le block;
     (aa, bb, cc, dd, ee) = left_line x (s ! 0, s ! 1, s ! 2, s ! 3, s ! 4);
     (a, b, c, d, e) = right_line x (s ! 0, s ! 1, s ! 2, s ! 3, s ! 4)
   in [s ! 1 + cc + d, s ! 2 + dd + e, s ! 3 + ee + a, s ! 4 + aa + b, s ! 0 + bb + c])"

section \<open>Init, Update, Final\<close>

record RMD160_CTX =
  rmd_state :: "u32 list"
  rmd_count :: u64
  rmd_buffer :: "byte list"

definition RMD160Init :: "RMD160_CTX \<Rightarrow> RMD160_CTX" where
  "RMD160Init c = c\<lparr>rmd_count := 0,
     rmd_state := [0x67452301, 0xEFCDAB89, 0x98BADCFE, 0x10325476, 0xC3D2E1F0]\<rparr>"

text \<open>\<^verbatim>\<open>while (off + 64 <= len)\<close>, in 32 bits; the input object has \<open>len\<close> bytes.\<close>

function rmd_blocks :: "byte list \<Rightarrow> u32 \<Rightarrow> u32 list \<Rightarrow> u32 \<Rightarrow> (u32 list \<times> u32) option" where
  "rmd_blocks input len s off = (if off + 64 \<le> len then
     (if unat off + 64 \<le> unat len
      then rmd_blocks input len (RMD160Transform s (take 64 (drop (unat off) input))) (off + 64)
      else None)
   else Some (s, off))"
  by pat_completeness auto
termination
proof (relation "measure (\<lambda>(_, n, _, i). unat n - unat i)")
  fix input s and len off :: u32
  assume "unat off + 64 \<le> unat len"
  then have "unat (off + 64) = unat off + 64"
    using unat_lt_len [of len] by (simp add: unat_word_ariths)
  with \<open>unat off + 64 \<le> unat len\<close>
  show "((input, len, RMD160Transform s (take 64 (drop (unat off) input)), off + 64),
      input, len, s, off) \<in> measure (\<lambda>(_, n, _, i). unat n - unat i)" by simp
qed simp

declare rmd_blocks.simps [simp del]

definition RMD160Update :: "RMD160_CTX \<Rightarrow> byte list \<Rightarrow> u32 \<Rightarrow> RMD160_CTX option" where
  "RMD160Update c input len = (let
     have = (ucast ((rmd_count c div 8) mod 64) :: u32);
     need = 64 - have;
     count = rmd_count c + ucast (8 * len)
   in do {
     (s, buf, have, off) \<leftarrow> (if need \<le> len then do {
         (s, buf, have, off) \<leftarrow> (if have \<noteq> 0 then do {
             d \<leftarrow> rd input 0 need;
             buf \<leftarrow> put (rmd_buffer c) (unat have) d;
             Some (RMD160Transform (rmd_state c) buf, buf, 0, need)
           } else Some (rmd_state c, rmd_buffer c, have, 0));
         (s, off) \<leftarrow> rmd_blocks input len s off;
         Some (s, buf, have, off)
       } else Some (rmd_state c, rmd_buffer c, have, 0));
     buf \<leftarrow> (if off < len then do { d \<leftarrow> rd input off (len - off); put buf (unat have) d } else Some buf);
     Some \<lparr>rmd_state = s, rmd_count = count, rmd_buffer = buf\<rparr>
   })"

definition PUT_64BIT_LE :: "u64 \<Rightarrow> byte list" where
  "PUT_64BIT_LE v = [ucast v, ucast (drop_bit 8 v), ucast (drop_bit 16 v), ucast (drop_bit 24 v),
     ucast (drop_bit 32 v), ucast (drop_bit 40 v), ucast (drop_bit 48 v), ucast (drop_bit 56 v)]"

definition PUT_32BIT_LE :: "u32 \<Rightarrow> byte list" where
  "PUT_32BIT_LE v = [ucast v, ucast (drop_bit 8 v), ucast (drop_bit 16 v), ucast (drop_bit 24 v)]"

definition RMD160Final :: "bool \<Rightarrow> RMD160_CTX \<Rightarrow> (byte list \<times> RMD160_CTX) option" where
  "RMD160Final dg c = (let
     size = PUT_64BIT_LE (rmd_count c);
     padlen = (ucast (64 - (rmd_count c div 8) mod 64) :: u32);
     padlen = (if padlen < 1 + 8 then padlen + 64 else padlen)
   in do {
     c \<leftarrow> RMD160Update c (take (unat (padlen - 8)) PADDING) (padlen - 8);
     c \<leftarrow> RMD160Update c size 8;
     Some (if dg then concat (map (\<lambda>i. PUT_32BIT_LE (rmd_state c ! i)) [0..<5]) else [],
       \<lparr>rmd_state = replicate 5 0, rmd_count = 0, rmd_buffer = replicate 64 0\<rparr>)
   })"

section \<open>Correctness of the interface\<close>

definition rmd_rep :: "u32 list \<Rightarrow> RMD160_CTX \<Rightarrow> byte list \<Rightarrow> bool" where
  "rmd_rep iv c m \<longleftrightarrow> buffered 64 RMD160Transform iv (rmd_state c) (rmd_buffer c) m \<and>
     unat (rmd_count c) = 8 * length m mod 2 ^ 64"

lemma rmd_idx:
  assumes "rmd_rep iv c m"
  shows "unat (ucast (rmd_count c div 8 mod 64) :: u32) = length m mod 64"
    "unat (ucast (64 - rmd_count c div 8 mod 64) :: u32) = 64 - length m mod 64"
proof -
  define w where "w = rmd_count c div 8 mod 64"
  have "8 * length m mod 2 ^ 64 div 8 mod 64 = length m mod 64"
    using mod_mult_mult1 [of 8 "length m" "2 ^ 61"] by (simp add: mod_mod_cancel)
  then have w: "unat w = length m mod 64"
    using assms by (simp add: w_def rmd_rep_def unat_div_distrib unat_mod_distrib)
  then have "unat w < 64" by simp
  with w show "unat (ucast w :: u32) = length m mod 64"
    "unat (ucast (64 - w) :: u32) = 64 - length m mod 64"
    by (simp_all add: unsigned_ucast_eq take_bit_eq_mod unat_sub word_le_nat_alt)
qed

lemma rmd_blocks_for:
  "unat len < 2 ^ 32 - 64 \<Longrightarrow> unat i \<le> unat len \<Longrightarrow> rmd_blocks d len s i = for_blocks RMD160Transform d len s i"
proof (induction d len s i rule: rmd_blocks.induct)
  case (1 d len s i)
  then have i: "unat (i + 64) = unat i + 64" "unat (i + 63) = unat i + 63"
    by (simp_all add: unat_word_ariths)
  then have "i + 64 \<le> len \<longleftrightarrow> unat i + 64 \<le> unat len" "i + 63 < len \<longleftrightarrow> unat i + 64 \<le> unat len"
    by (auto simp: word_le_nat_alt word_less_nat_alt)
  with "1.IH" "1.prems"(1) i(1) show ?case
    by (simp add: rmd_blocks.simps [of d len s i] for_blocks.simps [of _ d len s i])
qed

lemma tail_copy:
  assumes "rd d j (n - j) = Some d2" "put b p d2 = Some b2" "unat n = length d"
  shows "(if j < n then do { d \<leftarrow> rd d j (n - j); put b p d } else Some b) = Some b2"
proof (cases "j < n")
  case False
  have "unat j \<le> length d" using assms(1) by (auto simp: rd_def split: if_splits)
  with False assms(3) have "j = n" by (simp add: word_less_nat_alt word_unat_eq_iff)
  with assms show ?thesis by (auto simp: rd_def put_def split: if_splits)
qed (use assms in simp)

lemma rmd_update_rep:
  assumes rep: "rmd_rep iv c m" and len: "length d < 2 ^ 29"
  shows "\<exists>c'. RMD160Update c d (word_of_nat (length d)) = Some c' \<and> rmd_rep iv c' (m @ d)"
proof -
  define n :: u32 where "n = word_of_nat (length d)"
  define hv :: u32 where "hv = ucast ((rmd_count c div 8) mod 64)"
  have len': "length d < 2 ^ 32 - 63" using len by simp
  have n: "unat n = length d" using len by (simp add: n_def unat_of_nat)
  have hv: "unat hv = length m mod 64" using rmd_idx(1) [OF rep] by (simp add: hv_def)
  have part: "unat (64 - hv) = 64 - length m mod 64" using hv by (simp add: unat_sub word_le_nat_alt)
  then have full: "64 - hv \<le> n \<longleftrightarrow> 64 \<le> length m mod 64 + length d"
    by (auto simp: word_le_nat_alt n)
  have "unat (ucast (8 * n) :: u64) = 8 * length d"
    using len by (simp add: unat_ucast_up unat_word_ariths n)
  then have cnt: "unat (rmd_count c + ucast (8 * n)) = 8 * length (m @ d) mod 2 ^ 64"
    using rep by (simp add: rmd_rep_def unat_word_ariths mod_simps)
  have b: "buffered 64 RMD160Transform iv (rmd_state c) (rmd_buffer c) m"
    using rep by (simp add: rmd_rep_def)
  have blocks: "for_blocks RMD160Transform d n s i = Some (s', j) \<Longrightarrow> unat i \<le> length d \<Longrightarrow>
      rmd_blocks d n s i = Some (s', j)" for s i s' j
    using rmd_blocks_for [of n i d s] len n by simp
  show ?thesis
  proof (cases "64 \<le> length m mod 64 + length d")
    case False
    then obtain b' where b': "put (rmd_buffer c) (unat hv) d = Some b'"
        "buffered 64 RMD160Transform iv (rmd_state c) b' (m @ d)"
      using buffered_short [OF b, of d] hv by auto
    have "rd d 0 (n - 0) = Some d" by (simp add: rd_def n)
    from tail_copy [OF this b'(1) n] show ?thesis
      using False b'(2) cnt full
      by (auto simp: RMD160Update_def Let_def n_def [symmetric] hv_def [symmetric] rmd_rep_def
          bind_eq_Some_conv simp del: length_append split: if_splits)
  next
    case True
    show ?thesis
    proof (cases "length m mod 64 = 0")
      case z: True
      then have h0: "hv = 0" using hv by (simp add: unat_eq_0)
      obtain s' j d2 b2 where r: "for_blocks RMD160Transform d n (rmd_state c) 0 = Some (s', j)"
          "rd d j (n - j) = Some d2" "put (rmd_buffer c) 0 d2 = Some b2"
          "buffered 64 RMD160Transform iv s' b2 (m @ d)"
        using buffered_skip [OF b z len' n] by blast
      show ?thesis
        using True full h0 cnt r(4) blocks [OF r(1)] tail_copy [OF r(2,3) n]
        by (auto simp: RMD160Update_def Let_def n_def [symmetric] hv_def [symmetric] rmd_rep_def
            bind_eq_Some_conv simp del: length_append split: if_splits)
    next
      case False
      then have h0: "hv \<noteq> 0" using hv by auto
      obtain d1 b1 s' j d2 b2 where r: "rd d 0 (64 - hv) = Some d1" "put (rmd_buffer c) (unat hv) d1 = Some b1"
          "for_blocks RMD160Transform d n (RMD160Transform (rmd_state c) b1) (64 - hv) = Some (s', j)"
          "rd d j (n - j) = Some d2" "put b1 0 d2 = Some b2"
          "buffered 64 RMD160Transform iv s' b2 (m @ d)"
        using buffered_block [OF b True len' hv n] hv by auto
      have "unat (64 - hv) \<le> length d" using True part by linarith
      then show ?thesis
        using True full h0 cnt r(1,2,6) blocks [OF r(3)] tail_copy [OF r(4,5) n]
        by (auto simp: RMD160Update_def Let_def n_def [symmetric] hv_def [symmetric] rmd_rep_def
            bind_eq_Some_conv simp del: length_append split: if_splits)
    qed
  qed
qed


definition rmd_digest :: "u32 list \<Rightarrow> byte list \<Rightarrow> byte list" where
  "rmd_digest iv m = concat (map le32 (absorb 64 RMD160Transform iv (md_pad 64 8 (\<lambda>k. le64 (word_of_nat k)) m)))"

lemma length_RMD160Transform: "length (RMD160Transform s b) = 5"
  by (simp add: RMD160Transform_def Let_def split: prod.split)

lemma put_le: "PUT_64BIT_LE v = le64 v" "PUT_32BIT_LE w = le32 w"
  by (simp_all add: PUT_64BIT_LE_def PUT_32BIT_LE_def le64_def le32_def)

lemma rmd_final_rep:
  assumes rep: "rmd_rep iv c m" and iv: "length iv = 5"
  shows "\<exists>c'. RMD160Final True c = Some (rmd_digest iv m, c') \<and> length (rmd_buffer c') = 64"
proof -
  define p0 :: u32 where "p0 = ucast (64 - (rmd_count c div 8) mod 64)"
  define padlen where "padlen = (if p0 < 1 + 8 then p0 + 64 else p0)"
  define r where "r = length m mod 64"
  have r: "r < 64" by (simp add: r_def)
  have p0: "unat p0 = 64 - r" using rmd_idx(2) [OF rep] by (simp add: p0_def r_def)
  have "unat padlen = (if r < 56 then 64 - r else 128 - r)"
    using r p0 by (auto simp: padlen_def word_less_nat_alt unat_word_ariths)
  then have pad: "unat (padlen - 8) = (if r < 56 then 56 - r else 120 - r)"
    using r by (simp add: unat_sub word_le_nat_alt)
  define k where "k = unat (padlen - 8)"
  have k: "0 < k" "k \<le> 64" using r pad unfolding k_def by (simp_all split: if_splits)
  have z: "k - 1 = (119 - length m mod 64) mod 64"
    using md_pad_zeros [of 8 64 r] r pad by (simp add: k_def r_def [symmetric])
  have size: "rmd_count c = word_of_nat (8 * length m)"
    using rep unfolding rmd_rep_def word_unat_eq_iff unat_of_nat by simp
  have "word_of_nat (length (take k PADDING)) = padlen - 8"
    using k by (simp add: PADDING_def k_def)
  then obtain c1 where c1: "RMD160Update c (take k PADDING) (padlen - 8) = Some c1"
    "rmd_rep iv c1 (m @ take k PADDING)"
    using rmd_update_rep [OF rep, of "take k PADDING"] k by (auto simp: PADDING_def)
  obtain c2 where c2: "RMD160Update c1 (le64 (rmd_count c)) 8 = Some c2"
    "rmd_rep iv c2 ((m @ take k PADDING) @ le64 (rmd_count c))"
    using rmd_update_rep [OF c1(2), of "le64 (rmd_count c)"] by auto
  have "(m @ take k PADDING) @ le64 (rmd_count c) = md_pad 64 8 (\<lambda>k. le64 (word_of_nat k)) m"
    using take_PADDING [OF k] by (simp add: size md_pad_def z [simplified])
  with c2(2) have st: "rmd_state c2 = absorb 64 RMD160Transform iv (md_pad 64 8 (\<lambda>k. le64 (word_of_nat k)) m)"
    by (simp add: rmd_rep_def buffered_def)
  then have "length (rmd_state c2) = 5"
    using length_absorb [OF iv, of RMD160Transform] length_RMD160Transform by simp
  then have "map (\<lambda>i. PUT_32BIT_LE (rmd_state c2 ! i)) [0..<5] = map le32 (rmd_state c2)"
    by (simp add: put_le list_eq_iff_nth_eq)
  then show ?thesis
    using c1(1) c2(1) st
    unfolding RMD160Final_def Let_def unfolding p0_def [symmetric] unfolding padlen_def [symmetric] k_def [symmetric]
    by (simp add: put_le rmd_digest_def)
qed


section \<open>Test vector\<close>

lemma rmd_eval:
  "rmd_R Fj Kj x (sj, rj) (a, b, c, d, e) = (e, nf (ROL sj (nf (a + Fj b c d + x ! rj + Kj)) + e), b, nf (ROL 10 c), d)"
  "ROL k v = push_bit k v OR drop_bit (32 - k) v"
  "F0 u v w = u XOR v XOR w" "F1 u v w = (u AND v) OR (NOT u AND w)" "F2 u v w = (u OR NOT v) XOR w"
  "F3 u v w = (u AND w) OR (v AND NOT w)" "F4 u v w = u XOR (v OR NOT w)"
  by (simp_all add: nf_def ROL_def F0_def F1_def F2_def F3_def F4_def)

lemma RMD_abc_left1: "fold (rmd_R F0 0 [0x80636261, 0, 0, 0, 0, 0, 0, 0, 0, 0, 0, 0, 0, 0, 24, 0]) left1
    (0x67452301, 0xefcdab89, 0x98badcfe, 0x10325476, 0xc3d2e1f0) = (0xb2925676, 0x597bf629, 0x85861d02, 0x53c14c52, 0x17d1bef0)"
  unfolding left1_def by (simp add: rmd_eval)

lemma RMD_abc_left2: "fold (rmd_R F1 0x5a827999 [0x80636261, 0, 0, 0, 0, 0, 0, 0, 0, 0, 0, 0, 0, 0, 24, 0]) left2
    (0xb2925676, 0x597bf629, 0x85861d02, 0x53c14c52, 0x17d1bef0) = (0x287f668c, 0x2d30fa02, 0xb6a665c6, 0x8477bbdc, 0x8acc6ef6)"
  unfolding left2_def by (simp add: rmd_eval)

lemma RMD_abc_left3: "fold (rmd_R F2 0x6ed9eba1 [0x80636261, 0, 0, 0, 0, 0, 0, 0, 0, 0, 0, 0, 0, 0, 24, 0]) left3
    (0x287f668c, 0x2d30fa02, 0xb6a665c6, 0x8477bbdc, 0x8acc6ef6) = (0x2c01a201, 0x77367f5e, 0xdbc5a2cb, 0xaf097749, 0x6ea06d1d)"
  unfolding left3_def by (simp add: rmd_eval)

lemma RMD_abc_left4: "fold (rmd_R F3 0x8f1bbcdc [0x80636261, 0, 0, 0, 0, 0, 0, 0, 0, 0, 0, 0, 0, 0, 24, 0]) left4
    (0x2c01a201, 0x77367f5e, 0xdbc5a2cb, 0xaf097749, 0x6ea06d1d) = (0xcc3ad1a8, 0xf44b53a7, 0x210769b3, 0xabd4f9e6, 0x96081053)"
  unfolding left4_def by (simp add: rmd_eval)

lemma RMD_abc_left5: "fold (rmd_R F4 0xa953fd4e [0x80636261, 0, 0, 0, 0, 0, 0, 0, 0, 0, 0, 0, 0, 0, 24, 0]) left5
    (0xcc3ad1a8, 0xf44b53a7, 0x210769b3, 0xabd4f9e6, 0x96081053) = (0x641129ca, 0xd563bfdc, 0xb2cdc01, 0x6e413468, 0xfc433da8)"
  unfolding left5_def by (simp add: rmd_eval)

lemma RMD_abc_right1: "fold (rmd_R F4 0x50a28be6 [0x80636261, 0, 0, 0, 0, 0, 0, 0, 0, 0, 0, 0, 0, 0, 24, 0]) right1
    (0x67452301, 0xefcdab89, 0x98badcfe, 0x10325476, 0xc3d2e1f0) = (0xfdb61089, 0xff459078, 0x3d16242d, 0xfd356cf, 0x5a1576)"
  unfolding right1_def by (simp add: rmd_eval)

lemma RMD_abc_right2: "fold (rmd_R F3 0x5c4dd124 [0x80636261, 0, 0, 0, 0, 0, 0, 0, 0, 0, 0, 0, 0, 0, 24, 0]) right2
    (0xfdb61089, 0xff459078, 0x3d16242d, 0xfd356cf, 0x5a1576) = (0xa4372b30, 0x2999255a, 0xaa98adb5, 0x86d69581, 0xf5897a18)"
  unfolding right2_def by (simp add: rmd_eval)

lemma RMD_abc_right3: "fold (rmd_R F2 0x6d703ef3 [0x80636261, 0, 0, 0, 0, 0, 0, 0, 0, 0, 0, 0, 0, 0, 24, 0]) right3
    (0xa4372b30, 0x2999255a, 0xaa98adb5, 0x86d69581, 0xf5897a18) = (0x69baff37, 0x65a60151, 0xc9b17f72, 0x59b28ddb, 0xb1f68d95)"
  unfolding right3_def by (simp add: rmd_eval)

lemma RMD_abc_right4: "fold (rmd_R F1 0x7a6d76e9 [0x80636261, 0, 0, 0, 0, 0, 0, 0, 0, 0, 0, 0, 0, 0, 24, 0]) right4
    (0x69baff37, 0x65a60151, 0xc9b17f72, 0x59b28ddb, 0xb1f68d95) = (0xec68bac6, 0x5dca4d12, 0xa625f112, 0xd34c985d, 0xdfe5b6b1)"
  unfolding right4_def by (simp add: rmd_eval)

lemma RMD_abc_right5: "fold (rmd_R F0 0 [0x80636261, 0, 0, 0, 0, 0, 0, 0, 0, 0, 0, 0, 0, 0, 24, 0]) right5
    (0xec68bac6, 0x5dca4d12, 0xa625f112, 0xd34c985d, 0xdfe5b6b1) = (0x81d4727d, 0x5fccbade, 0xbf627814, 0xfc0e2b04, 0x739c4c7a)"
  unfolding right5_def by (simp add: rmd_eval)

definition rmd_iv :: "u32 list" where
  "rmd_iv = [0x67452301, 0xEFCDAB89, 0x98BADCFE, 0x10325476, 0xC3D2E1F0]"

lemma rmd_digest_abc:
  "rmd_digest rmd_iv [0x61, 0x62, 0x63] = [0x8e, 0xb2, 0x08, 0xf7, 0xe0, 0x5d, 0x98, 0x7a, 0x9b, 0x04,
     0x4a, 0x8e, 0x98, 0xc6, 0xb0, 0x87, 0xf1, 0x5a, 0x0b, 0xfc]"
proof -
  have p: "md_pad 64 8 (\<lambda>k. le64 (word_of_nat k)) [0x61, 0x62, 0x63] =
      [0x61, 0x62, 0x63, 0x80] @ replicate 52 0 @ [24, 0, 0, 0, 0, 0, 0, 0]"
    by (simp add: md_pad_def le64_def)
  have w: "words_le ([0x61, 0x62, 0x63, 0x80] @ replicate 52 0 @ [24, 0, 0, 0, 0, 0, 0, 0]) =
      [0x80636261, 0, 0, 0, 0, 0, 0, 0, 0, 0, 0, 0, 0, 0, 24, 0]"
    by code_simp
  have "RMD160Transform rmd_iv ([0x61, 0x62, 0x63, 0x80] @ replicate 52 0 @ [24, 0, 0, 0, 0, 0, 0, 0]) =
      [0xf708b28e, 0x7a985de0, 0x8e4a049b, 0x87b0c698, 0xfc0b5af1]"
    unfolding RMD160Transform_def left_line_def right_line_def w
    by (simp add: rmd_iv_def RMD_abc_left1 RMD_abc_left2 RMD_abc_left3 RMD_abc_left4 
        RMD_abc_left5 RMD_abc_right1 RMD_abc_right2 RMD_abc_right3 RMD_abc_right4 RMD_abc_right5)
  then show ?thesis
    unfolding rmd_digest_def p by (simp add: absorb_step absorb_short le32_def)
qed

section \<open>The interface, interpreted on RIPEMD-160\<close>

abbreviation rmd_upd :: "RMD160_CTX \<Rightarrow> byte list \<Rightarrow> RMD160_CTX option" where
  "rmd_upd c d \<equiv> RMD160Update c d (word_of_nat (length d))"

interpretation rmd160: stream_hash "\<lambda>c. length (rmd_buffer c) = 64" RMD160Init rmd_upd "RMD160Final True"
  "rmd_rep rmd_iv" "\<lambda>n. n < 2 ^ 29" "rmd_digest rmd_iv"
proof unfold_locales
  fix c :: RMD160_CTX assume "length (rmd_buffer c) = 64"
  then show "rmd_rep rmd_iv (RMD160Init c) []"
    by (simp add: rmd_rep_def RMD160Init_def rmd_iv_def)
qed (simp_all add: rmd_update_rep rmd_final_rep rmd_iv_def)

section \<open>Properties\<close>

text \<open>
  RIPEMD-160 is streaming: for every way of cutting a message into pieces of less than \<open>2 ^ 29\<close>
  bytes, \<open>Init\<close>, one \<open>Update\<close> per piece and \<open>Final\<close> stay inside the context and the input and deliver
  the digest of the whole message.
\<close>

theorem rmd160_stream_correct:
  assumes "length (rmd_buffer c) = 64" "\<forall>d \<in> set ds. length d < 2 ^ 29"
  shows "hash_of RMD160Init (\<lambda>c d. RMD160Update c d (word_of_nat (length d))) (RMD160Final True) c ds
    = Some (rmd_digest rmd_iv (concat ds))"
  using rmd160.hash_chunks [OF assms] .

text \<open>The published digest of \<open>abc\<close>.\<close>

theorem rmd160_abc:
  "hash_of RMD160Init (\<lambda>c d. RMD160Update c d (word_of_nat (length d))) (RMD160Final True)
     \<lparr>rmd_state = [], rmd_count = 9, rmd_buffer = replicate 64 7\<rparr> [[0x61, 0x62], [0x63]]
   = Some [0x8e, 0xb2, 0x08, 0xf7, 0xe0, 0x5d, 0x98, 0x7a, 0x9b, 0x04,
     0x4a, 0x8e, 0x98, 0xc6, 0xb0, 0x87, 0xf1, 0x5a, 0x0b, 0xfc]"
  using rmd160_stream_correct [of "\<lparr>rmd_state = [], rmd_count = 9, rmd_buffer = replicate 64 7\<rparr>"
      "[[0x61, 0x62], [0x63]]"] rmd_digest_abc by simp

text \<open>
  The bound on the pieces is needed: \<^verbatim>\<open>ctx->count += 8 * len\<close> multiplies in 32 bits before it widens.  One
  update of a fresh context with \<open>2 ^ 29\<close> bytes absorbs them all but leaves the 64-bit count at zero.
\<close>

theorem rmd160_count_lost:
  assumes "length (rmd_buffer c) = 64" "length d = 2 ^ 29"
  shows "\<exists>c'. RMD160Update (RMD160Init c) d (2 ^ 29) = Some c' \<and>
    rmd_state c' = absorb 64 RMD160Transform rmd_iv d \<and> rmd_count c' = 0"
proof -
  have b: "buffered 64 RMD160Transform rmd_iv (rmd_state (RMD160Init c)) (rmd_buffer (RMD160Init c)) []"
    using assms by (simp add: RMD160Init_def rmd_iv_def)
  have n: "unat (2 ^ 29 :: u32) = length d" "length d < 2 ^ 32 - 63" using assms by simp_all
  obtain s' j d2 b2 where r: "for_blocks RMD160Transform d (2 ^ 29) (rmd_state (RMD160Init c)) 0 = Some (s', j)"
      "rd d j (2 ^ 29 - j) = Some d2" "put (rmd_buffer (RMD160Init c)) 0 d2 = Some b2"
      "buffered 64 RMD160Transform rmd_iv s' b2 ([] @ d)"
    using buffered_skip [OF b _ n(2,1)] by auto
  have "rmd_blocks d (2 ^ 29) (rmd_state (RMD160Init c)) 0 = Some (s', j)"
    using r(1) rmd_blocks_for [of "2 ^ 29" 0 d] by simp
  with r(4) tail_copy [OF r(2,3) n(1)] show ?thesis
    by (auto simp: RMD160Update_def RMD160Init_def buffered_def Let_def bind_eq_Some_conv split: if_splits)
qed

end
