(* ===== verification/Hash_SHA2.thy ===== *)
theory Hash_SHA2
  imports Hash_Core
begin

text \<open>
  SHA-224, SHA-256, SHA-384 and SHA-512, \<^verbatim>\<open>src/libc/common/lib/libc/hash/sha2/sha2.c\<close>: the tables, the
  logical functions and the two versions of the block functions (the rolled loops and, under
  \<^verbatim>\<open>SHA2_UNROLL_TRANSFORM\<close>, the unrolled ones).  The 32-bit and the 64-bit code are the same text at two
  widths; the round macros and the loops are written once over the width, the rotation amounts and
  the round constants, and \<open>SHA256_Transform\<close> and \<open>SHA512_Transform\<close> are their two instances.
\<close>

section \<open>Logical functions and tables\<close>

definition S32 :: "nat \<Rightarrow> u32 \<Rightarrow> u32" where "S32 b x = drop_bit b x OR push_bit (32 - b) x"
definition S64 :: "nat \<Rightarrow> u64 \<Rightarrow> u64" where "S64 b x = drop_bit b x OR push_bit (64 - b) x"

definition Ch :: "'a::len word \<Rightarrow> 'a word \<Rightarrow> 'a word \<Rightarrow> 'a word" where
  "Ch x y z = (x AND y) XOR (NOT x AND z)"

definition Maj :: "'a::len word \<Rightarrow> 'a word \<Rightarrow> 'a word \<Rightarrow> 'a word" where
  "Maj x y z = (x AND y) XOR (x AND z) XOR (y AND z)"

definition Sigma0_256 :: "u32 \<Rightarrow> u32" where "Sigma0_256 x = S32 2 x XOR S32 13 x XOR S32 22 x"
definition Sigma1_256 :: "u32 \<Rightarrow> u32" where "Sigma1_256 x = S32 6 x XOR S32 11 x XOR S32 25 x"
definition sigma0_256 :: "u32 \<Rightarrow> u32" where "sigma0_256 x = S32 7 x XOR S32 18 x XOR drop_bit 3 x"
definition sigma1_256 :: "u32 \<Rightarrow> u32" where "sigma1_256 x = S32 17 x XOR S32 19 x XOR drop_bit 10 x"

definition Sigma0_512 :: "u64 \<Rightarrow> u64" where "Sigma0_512 x = S64 28 x XOR S64 34 x XOR S64 39 x"
definition Sigma1_512 :: "u64 \<Rightarrow> u64" where "Sigma1_512 x = S64 14 x XOR S64 18 x XOR S64 41 x"
definition sigma0_512 :: "u64 \<Rightarrow> u64" where "sigma0_512 x = S64 1 x XOR S64 8 x XOR drop_bit 7 x"
definition sigma1_512 :: "u64 \<Rightarrow> u64" where "sigma1_512 x = S64 19 x XOR S64 61 x XOR drop_bit 6 x"

definition K256 :: "u32 list" where
  "K256 = [0x428a2f98, 0x71374491, 0xb5c0fbcf, 0xe9b5dba5, 0x3956c25b, 0x59f111f1, 0x923f82a4, 0xab1c5ed5,
    0xd807aa98, 0x12835b01, 0x243185be, 0x550c7dc3, 0x72be5d74, 0x80deb1fe, 0x9bdc06a7, 0xc19bf174,
    0xe49b69c1, 0xefbe4786, 0x0fc19dc6, 0x240ca1cc, 0x2de92c6f, 0x4a7484aa, 0x5cb0a9dc, 0x76f988da,
    0x983e5152, 0xa831c66d, 0xb00327c8, 0xbf597fc7, 0xc6e00bf3, 0xd5a79147, 0x06ca6351, 0x14292967,
    0x27b70a85, 0x2e1b2138, 0x4d2c6dfc, 0x53380d13, 0x650a7354, 0x766a0abb, 0x81c2c92e, 0x92722c85,
    0xa2bfe8a1, 0xa81a664b, 0xc24b8b70, 0xc76c51a3, 0xd192e819, 0xd6990624, 0xf40e3585, 0x106aa070,
    0x19a4c116, 0x1e376c08, 0x2748774c, 0x34b0bcb5, 0x391c0cb3, 0x4ed8aa4a, 0x5b9cca4f, 0x682e6ff3,
    0x748f82ee, 0x78a5636f, 0x84c87814, 0x8cc70208, 0x90befffa, 0xa4506ceb, 0xbef9a3f7, 0xc67178f2]"

definition K512 :: "u64 list" where
  "K512 = [0x428a2f98d728ae22, 0x7137449123ef65cd, 0xb5c0fbcfec4d3b2f, 0xe9b5dba58189dbbc,
    0x3956c25bf348b538, 0x59f111f1b605d019, 0x923f82a4af194f9b, 0xab1c5ed5da6d8118,
    0xd807aa98a3030242, 0x12835b0145706fbe, 0x243185be4ee4b28c, 0x550c7dc3d5ffb4e2,
    0x72be5d74f27b896f, 0x80deb1fe3b1696b1, 0x9bdc06a725c71235, 0xc19bf174cf692694,
    0xe49b69c19ef14ad2, 0xefbe4786384f25e3, 0x0fc19dc68b8cd5b5, 0x240ca1cc77ac9c65,
    0x2de92c6f592b0275, 0x4a7484aa6ea6e483, 0x5cb0a9dcbd41fbd4, 0x76f988da831153b5,
    0x983e5152ee66dfab, 0xa831c66d2db43210, 0xb00327c898fb213f, 0xbf597fc7beef0ee4,
    0xc6e00bf33da88fc2, 0xd5a79147930aa725, 0x06ca6351e003826f, 0x142929670a0e6e70,
    0x27b70a8546d22ffc, 0x2e1b21385c26c926, 0x4d2c6dfc5ac42aed, 0x53380d139d95b3df,
    0x650a73548baf63de, 0x766a0abb3c77b2a8, 0x81c2c92e47edaee6, 0x92722c851482353b,
    0xa2bfe8a14cf10364, 0xa81a664bbc423001, 0xc24b8b70d0f89791, 0xc76c51a30654be30,
    0xd192e819d6ef5218, 0xd69906245565a910, 0xf40e35855771202a, 0x106aa07032bbd1b8,
    0x19a4c116b8d2d0c8, 0x1e376c085141ab53, 0x2748774cdf8eeb99, 0x34b0bcb5e19b48a8,
    0x391c0cb3c5c95a63, 0x4ed8aa4ae3418acb, 0x5b9cca4f7763e373, 0x682e6ff3d6b2b8a3,
    0x748f82ee5defb2fc, 0x78a5636f43172f60, 0x84c87814a1f0ab72, 0x8cc702081a6439ec,
    0x90befffa23631e28, 0xa4506cebde82bde9, 0xbef9a3f7b2c67915, 0xc67178f2e372532b,
    0xca273eceea26619c, 0xd186b8c721c0c207, 0xeada7dd6cde0eb1e, 0xf57d4f7fee6ed178,
    0x06f067aa72176fba, 0x0a637dc5a2c898a6, 0x113f9804bef90dae, 0x1b710b35131c471b,
    0x28db77f523047d84, 0x32caab7b40c72493, 0x3c9ebe0a15c9bebc, 0x431d67c49c100d4c,
    0x4cc5d4becb3e42b6, 0x597f299cfc657e2a, 0x5fcb6fab3ad6faec, 0x6c44198c4a475817]"

definition sha224_initial_hash_value :: "u32 list" where
  "sha224_initial_hash_value = [0xc1059ed8, 0x367cd507, 0x3070dd17, 0xf70e5939, 0xffc00b31, 0x68581511, 0x64f98fa7, 0xbefa4fa4]"

definition sha256_initial_hash_value :: "u32 list" where
  "sha256_initial_hash_value = [0x6a09e667, 0xbb67ae85, 0x3c6ef372, 0xa54ff53a, 0x510e527f, 0x9b05688c, 0x1f83d9ab, 0x5be0cd19]"

definition sha384_initial_hash_value :: "u64 list" where
  "sha384_initial_hash_value = [0xcbbb9d5dc1059ed8, 0x629a292a367cd507, 0x9159015a3070dd17, 0x152fecd8f70e5939,
    0x67332667ffc00b31, 0x8eb44a8768581511, 0xdb0c2e0d64f98fa7, 0x47b5481dbefa4fa4]"

definition sha512_initial_hash_value :: "u64 list" where
  "sha512_initial_hash_value = [0x6a09e667f3bcc908, 0xbb67ae8584caa73b, 0x3c6ef372fe94f82b, 0xa54ff53a5f1d36f1,
    0x510e527fade682d1, 0x9b05688c2b3e6c1f, 0x1f83d9abfb41bd6b, 0x5be0cd19137e2179]"

section \<open>The rolled block function\<close>

type_synonym 'a regs8 = "'a word \<times> 'a word \<times> 'a word \<times> 'a word \<times> 'a word \<times> 'a word \<times> 'a word \<times> 'a word"

text \<open>
  \<open>sha2_head\<close> is the body of the first loop (\<^verbatim>\<open>j < 16\<close>, which also loads word \<open>j\<close> of the data) and
  \<open>sha2_tail\<close> the body of the second, which extends the schedule in the 16-word window \<open>W\<close>.
\<close>

definition sha2_head ::
  "('a::len word \<Rightarrow> 'a word) \<Rightarrow> ('a word \<Rightarrow> 'a word) \<Rightarrow> 'a word list \<Rightarrow> 'a word list \<Rightarrow> nat
    \<Rightarrow> 'a regs8 \<times> 'a word list \<Rightarrow> 'a regs8 \<times> 'a word list" where
  "sha2_head Sigma0 Sigma1 K data j = (\<lambda>((a, b, c, d, e, f, g, h), W). let
     W = W[j := data ! j];
     T1 = h + Sigma1 e + Ch e f g + K ! j + W ! j;
     T2 = Sigma0 a + Maj a b c
   in ((T1 + T2, a, b, c, d + T1, e, f, g), W))"

definition sha2_tail ::
  "('a::len word \<Rightarrow> 'a word) \<Rightarrow> ('a word \<Rightarrow> 'a word) \<Rightarrow> ('a word \<Rightarrow> 'a word) \<Rightarrow> ('a word \<Rightarrow> 'a word)
    \<Rightarrow> 'a word list \<Rightarrow> nat \<Rightarrow> 'a regs8 \<times> 'a word list \<Rightarrow> 'a regs8 \<times> 'a word list" where
  "sha2_tail Sigma0 Sigma1 sigma0 sigma1 K j = (\<lambda>((a, b, c, d, e, f, g, h), W). let
     s0 = sigma0 (W ! ((j + 1) mod 16));
     s1 = sigma1 (W ! ((j + 14) mod 16));
     W = W[j mod 16 := W ! (j mod 16) + (s1 + W ! ((j + 9) mod 16) + s0)];
     T1 = h + Sigma1 e + Ch e f g + K ! j + W ! (j mod 16);
     T2 = Sigma0 a + Maj a b c
   in ((T1 + T2, a, b, c, d + T1, e, f, g), W))"

fun add_regs :: "'a::len word list \<Rightarrow> 'a regs8 \<Rightarrow> 'a word list" where
  "add_regs s (a, b, c, d, e, f, g, h) =
     [s ! 0 + a, s ! 1 + b, s ! 2 + c, s ! 3 + d, s ! 4 + e, s ! 5 + f, s ! 6 + g, s ! 7 + h]"

definition load_regs :: "'a::len word list \<Rightarrow> 'a regs8" where
  "load_regs s = (s ! 0, s ! 1, s ! 2, s ! 3, s ! 4, s ! 5, s ! 6, s ! 7)"

definition sha256_rolled :: "u32 list \<Rightarrow> u32 list \<Rightarrow> u32 list \<Rightarrow> u32 list \<times> u32 list" where
  "sha256_rolled s W data = (let
     (r, W) = fold (sha2_head Sigma0_256 Sigma1_256 K256 data) [0..<16] (load_regs s, W);
     (r, W) = fold (sha2_tail Sigma0_256 Sigma1_256 sigma0_256 sigma1_256 K256) [16..<64] (r, W)
   in (add_regs s r, W))"

definition sha512_rolled :: "u64 list \<Rightarrow> u64 list \<Rightarrow> u64 list \<Rightarrow> u64 list \<times> u64 list" where
  "sha512_rolled s W data = (let
     (r, W) = fold (sha2_head Sigma0_512 Sigma1_512 K512 data) [0..<16] (load_regs s, W);
     (r, W) = fold (sha2_tail Sigma0_512 Sigma1_512 sigma0_512 sigma1_512 K512) [16..<80] (r, W)
   in (add_regs s r, W))"

section \<open>The unrolled block function\<close>

text \<open>
  \<open>ROUND_0_TO_15\<close> and \<open>ROUND\<close> change their fourth and eighth argument and the window; \<open>eight\<close> is the
  body of the loops, eight calls with the arguments rotated.
\<close>

definition ROUND_0_TO_15 ::
  "('a::len word \<Rightarrow> 'a word) \<Rightarrow> ('a word \<Rightarrow> 'a word) \<Rightarrow> 'a word list \<Rightarrow> 'a word list \<Rightarrow> nat
    \<Rightarrow> 'a regs8 \<Rightarrow> 'a word list \<Rightarrow> 'a word \<times> 'a word \<times> 'a word list" where
  "ROUND_0_TO_15 Sigma0 Sigma1 K data j = (\<lambda>(a, b, c, d, e, f, g, h) W. let
     W = W[j := data ! j];
     T1 = h + Sigma1 e + Ch e f g + K ! j + W ! j
   in (d + T1, T1 + Sigma0 a + Maj a b c, W))"

definition ROUND ::
  "('a::len word \<Rightarrow> 'a word) \<Rightarrow> ('a word \<Rightarrow> 'a word) \<Rightarrow> ('a word \<Rightarrow> 'a word) \<Rightarrow> ('a word \<Rightarrow> 'a word)
    \<Rightarrow> 'a word list \<Rightarrow> nat \<Rightarrow> 'a regs8 \<Rightarrow> 'a word list \<Rightarrow> 'a word \<times> 'a word \<times> 'a word list" where
  "ROUND Sigma0 Sigma1 sigma0 sigma1 K j = (\<lambda>(a, b, c, d, e, f, g, h) W. let
     s0 = sigma0 (W ! ((j + 1) mod 16));
     s1 = sigma1 (W ! ((j + 14) mod 16));
     W = W[j mod 16 := W ! (j mod 16) + (s1 + W ! ((j + 9) mod 16) + s0)];
     T1 = h + Sigma1 e + Ch e f g + K ! j + W ! (j mod 16)
   in (d + T1, T1 + Sigma0 a + Maj a b c, W))"

definition eight ::
  "(nat \<Rightarrow> 'a regs8 \<Rightarrow> 'a word list \<Rightarrow> 'a word \<times> 'a word \<times> 'a word list) \<Rightarrow> nat
    \<Rightarrow> 'a regs8 \<times> 'a::len word list \<Rightarrow> 'a regs8 \<times> 'a word list" where
  "eight R j = (\<lambda>((a, b, c, d, e, f, g, h), W). let
     (d, h, W) = R j (a, b, c, d, e, f, g, h) W;
     (c, g, W) = R (j + 1) (h, a, b, c, d, e, f, g) W;
     (b, f, W) = R (j + 2) (g, h, a, b, c, d, e, f) W;
     (a, e, W) = R (j + 3) (f, g, h, a, b, c, d, e) W;
     (h, d, W) = R (j + 4) (e, f, g, h, a, b, c, d) W;
     (g, c, W) = R (j + 5) (d, e, f, g, h, a, b, c) W;
     (f, b, W) = R (j + 6) (c, d, e, f, g, h, a, b) W;
     (e, a, W) = R (j + 7) (b, c, d, e, f, g, h, a) W
   in ((a, b, c, d, e, f, g, h), W))"

definition sha256_unrolled :: "u32 list \<Rightarrow> u32 list \<Rightarrow> u32 list \<Rightarrow> u32 list \<times> u32 list" where
  "sha256_unrolled s W data = (let
     (r, W) = fold (eight (ROUND_0_TO_15 Sigma0_256 Sigma1_256 K256 data)) [0, 8] (load_regs s, W);
     (r, W) = fold (eight (ROUND Sigma0_256 Sigma1_256 sigma0_256 sigma1_256 K256)) [16, 24, 32, 40, 48, 56] (r, W)
   in (add_regs s r, W))"

definition sha512_unrolled :: "u64 list \<Rightarrow> u64 list \<Rightarrow> u64 list \<Rightarrow> u64 list \<times> u64 list" where
  "sha512_unrolled s W data = (let
     (r, W) = fold (eight (ROUND_0_TO_15 Sigma0_512 Sigma1_512 K512 data)) [0, 8] (load_regs s, W);
     (r, W) = fold (eight (ROUND Sigma0_512 Sigma1_512 sigma0_512 sigma1_512 K512)) [16, 24, 32, 40, 48, 56, 64, 72] (r, W)
   in (add_regs s r, W))"

section \<open>The two versions agree\<close>

definition rot_step ::
  "(nat \<Rightarrow> 'a regs8 \<Rightarrow> 'a word list \<Rightarrow> 'a word \<times> 'a word \<times> 'a word list) \<Rightarrow> nat
    \<Rightarrow> 'a regs8 \<times> 'a::len word list \<Rightarrow> 'a regs8 \<times> 'a word list" where
  "rot_step R j = (\<lambda>((a, b, c, d, e, f, g, h), W). let (d, h, W) = R j (a, b, c, d, e, f, g, h) W
     in ((h, a, b, c, d, e, f, g), W))"

lemma eight_rot:
  "eight R j x = fold (rot_step R) [j, j + 1, j + 2, j + 3, j + 4, j + 5, j + 6, j + 7] x"
  by (auto simp: eight_def rot_step_def split: prod.splits)

lemma rot_step_round:
  "rot_step (ROUND_0_TO_15 S0 S1 K data) = sha2_head S0 S1 K data"
  "rot_step (ROUND S0 S1 s0 s1 K) = sha2_tail S0 S1 s0 s1 K"
  by (auto simp: fun_eq_iff rot_step_def ROUND_0_TO_15_def ROUND_def sha2_head_def sha2_tail_def Let_def add.assoc)

lemma fold_eight: "fold (eight R) js x = fold (rot_step R) (concat (map (\<lambda>j. [j, j + 1, j + 2, j + 3, j + 4, j + 5, j + 6, j + 7]) js)) x"
  by (induction js arbitrary: x) (simp_all add: eight_rot)

lemma unrolled_indices:
  "concat (map (\<lambda>j. [j, j + 1, j + 2, j + 3, j + 4, j + 5, j + 6, j + 7]) [0, 8]) = [0..<16 :: nat]"
  "concat (map (\<lambda>j. [j, j + 1, j + 2, j + 3, j + 4, j + 5, j + 6, j + 7]) [16, 24, 32, 40, 48, 56]) = [16..<64 :: nat]"
  "concat (map (\<lambda>j. [j, j + 1, j + 2, j + 3, j + 4, j + 5, j + 6, j + 7]) [16, 24, 32, 40, 48, 56, 64, 72]) = [16..<80 :: nat]"
  by (simp_all add: upt_rec)

lemma unrolled_rolled:
  "sha256_unrolled s W data = sha256_rolled s W data"
  "sha512_unrolled s' V data' = sha512_rolled s' V data'"
  unfolding sha256_unrolled_def sha256_rolled_def sha512_unrolled_def sha512_rolled_def
    fold_eight unrolled_indices rot_step_round by simp_all

section \<open>The block functions are those of FIPS 180\<close>

function sha2_W :: "('a::len word \<Rightarrow> 'a word) \<Rightarrow> ('a word \<Rightarrow> 'a word) \<Rightarrow> 'a word list \<Rightarrow> nat \<Rightarrow> 'a word" where
  "sha2_W s0 s1 M t = (if t < 16 then M ! t
     else s1 (sha2_W s0 s1 M (t - 2)) + sha2_W s0 s1 M (t - 7) + s0 (sha2_W s0 s1 M (t - 15)) + sha2_W s0 s1 M (t - 16))"
  by pat_completeness auto
termination by (relation "measure (\<lambda>(_, _, _, t). t)") auto

declare sha2_W.simps [simp del]

fun sha2_step :: "('a::len word \<Rightarrow> 'a word) \<Rightarrow> ('a word \<Rightarrow> 'a word) \<Rightarrow> 'a word \<Rightarrow> 'a word \<Rightarrow> 'a regs8 \<Rightarrow> 'a regs8" where
  "sha2_step S0 S1 k w (a, b, c, d, e, f, g, h) = (let
     T1 = h + S1 e + Ch e f g + k + w;
     T2 = S0 a + Maj a b c
   in (T1 + T2, a, b, c, d + T1, e, f, g))"

definition fips_sha2 ::
  "('a::len word \<Rightarrow> 'a word) \<Rightarrow> ('a word \<Rightarrow> 'a word) \<Rightarrow> ('a word \<Rightarrow> 'a word) \<Rightarrow> ('a word \<Rightarrow> 'a word)
    \<Rightarrow> 'a word list \<Rightarrow> nat \<Rightarrow> 'a word list \<Rightarrow> 'a word list \<Rightarrow> 'a word list" where
  "fips_sha2 S0 S1 s0 s1 K n H M =
     add_regs H (fold (\<lambda>t. sha2_step S0 S1 (K ! t) (sha2_W s0 s1 M t)) [0..<n] (load_regs H))"

definition window2 :: "(nat \<Rightarrow> 'a word) \<Rightarrow> nat \<Rightarrow> 'a::len word list \<Rightarrow> bool" where
  "window2 w t W \<longleftrightarrow> length W = 16 \<and> (\<forall>j. j < t \<and> t \<le> j + 16 \<longrightarrow> W ! (j mod 16) = w j)"

lemma window2_Suc: "window2 w t W \<Longrightarrow> window2 w (Suc t) (W[t mod 16 := w t])"
proof (unfold window2_def, intro conjI allI impI)
  fix j assume j: "j < Suc t \<and> Suc t \<le> j + 16"
    and W: "length W = 16 \<and> (\<forall>j. j < t \<and> t \<le> j + 16 \<longrightarrow> W ! (j mod 16) = w j)"
  then show "W[t mod 16 := w t] ! (j mod 16) = w j"
    using mod_window [of j t] by (cases "j = t") (auto simp: nth_list_update)
qed simp

lemma head_fips:
  assumes "window2 (sha2_W s0 s1 M) t W" "t < 16"
  shows "sha2_head S0 S1 K M t (r, W) =
    (sha2_step S0 S1 (K ! t) (sha2_W s0 s1 M t) r, W[t mod 16 := sha2_W s0 s1 M t])"
proof -
  obtain a b c d e f g h where "r = (a, b, c, d, e, f, g, h)" by (cases r) auto
  then show ?thesis
    using assms by (simp add: sha2_head_def sha2_W.simps [of s0 s1 M t] window2_def Let_def)
qed

lemma tail_fips:
  assumes "window2 (sha2_W s0 s1 M) t W" "16 \<le> t"
  shows "sha2_tail S0 S1 s0 s1 K t (r, W) =
    (sha2_step S0 S1 (K ! t) (sha2_W s0 s1 M t) r, W[t mod 16 := sha2_W s0 s1 M t])"
proof -
  obtain a b c d e f g h where r: "r = (a, b, c, d, e, f, g, h)" by (cases r) auto
  have w: "W ! (j mod 16) = sha2_W s0 s1 M j" if "j < t" "t \<le> j + 16" for j
    using assms(1) that by (simp add: window2_def)
  have "W ! (t mod 16) + (s1 (W ! ((t + 14) mod 16)) + W ! ((t + 9) mod 16) + s0 (W ! ((t + 1) mod 16))) = sha2_W s0 s1 M t"
    using assms(2) w [of "t - 2"] w [of "t - 7"] w [of "t - 15"] w [of "t - 16"]
    by (simp add: sha2_W.simps [of s0 s1 M t] mod16_back ac_simps)
  then show ?thesis
    using assms(1) by (simp add: r sha2_tail_def window2_def Let_def)
qed

lemma head_fold:
  assumes "length W = 16"
  shows "t \<le> 16 \<Longrightarrow> \<exists>W'. fold (sha2_head S0 S1 K M) [0..<t] (r, W) =
    (fold (\<lambda>t. sha2_step S0 S1 (K ! t) (sha2_W s0 s1 M t)) [0..<t] r, W') \<and> window2 (sha2_W s0 s1 M) t W'"
proof (induction t)
  case (Suc t)
  then obtain W' where W': "fold (sha2_head S0 S1 K M) [0..<t] (r, W) =
    (fold (\<lambda>t. sha2_step S0 S1 (K ! t) (sha2_W s0 s1 M t)) [0..<t] r, W')" "window2 (sha2_W s0 s1 M) t W'" by auto
  have "t < 16" using Suc.prems by simp
  from W'(1) head_fips [OF W'(2) this] window2_Suc [OF W'(2)] show ?case
    by (simp add: upt_Suc_append)
qed (use assms in \<open>simp add: window2_def\<close>)

lemma tail_fold:
  assumes "window2 (sha2_W s0 s1 M) 16 W"
  shows "\<exists>W'. fold (sha2_tail S0 S1 s0 s1 K) [16..<16 + k] (r, W) =
    (fold (\<lambda>t. sha2_step S0 S1 (K ! t) (sha2_W s0 s1 M t)) [16..<16 + k] r, W') \<and> window2 (sha2_W s0 s1 M) (16 + k) W'"
proof (induction k)
  case (Suc k)
  then obtain W' where W': "fold (sha2_tail S0 S1 s0 s1 K) [16..<16 + k] (r, W) =
    (fold (\<lambda>t. sha2_step S0 S1 (K ! t) (sha2_W s0 s1 M t)) [16..<16 + k] r, W')" "window2 (sha2_W s0 s1 M) (16 + k) W'" by blast
  have u: "[16..<16 + Suc k] = [16..<16 + k] @ [16 + k]" unfolding add_Suc_right by (rule upt_Suc_append) simp
  have "16 \<le> 16 + k" by simp
  from W'(1) tail_fips [OF W'(2) this] window2_Suc [OF W'(2)] show ?case
    unfolding u fold_append comp_apply by simp
qed (use assms in simp)

lemma fold_upt_split: "a \<le> b \<Longrightarrow> b \<le> c \<Longrightarrow> fold f [a..<c] x = fold f [b..<c] (fold f [a..<b] x)"
  by (metis comp_apply fold_append le_add_diff_inverse upt_add_eq_append)

lemma rolled_fips_aux:
  assumes "length W = 16" "16 \<le> n"
  shows "\<exists>W'. fold (sha2_tail S0 S1 s0 s1 K) [16..<n] (fold (sha2_head S0 S1 K M) [0..<16] (r, W)) =
    (fold (\<lambda>t. sha2_step S0 S1 (K ! t) (sha2_W s0 s1 M t)) [0..<n] r, W') \<and> length W' = 16"
proof -
  define g where "g = (\<lambda>t. sha2_step S0 S1 (K ! t) (sha2_W s0 s1 M t))"
  define r1 where "r1 = fold g [0..<16] r"
  obtain W1 where W1: "fold (sha2_head S0 S1 K M) [0..<16] (r, W) = (r1, W1)" "window2 (sha2_W s0 s1 M) 16 W1"
    using head_fold [OF assms(1), of 16 S0 S1 K M r s0 s1] unfolding r1_def g_def by blast
  obtain W2 where W2: "fold (sha2_tail S0 S1 s0 s1 K) [16..<16 + (n - 16)] (r1, W1) = (fold g [16..<16 + (n - 16)] r1, W2)"
      "length W2 = 16"
    using tail_fold [OF W1(2), of S0 S1 K "n - 16" r1] unfolding window2_def g_def by blast
  have "fold g [0..<n] r = fold g [16..<n] r1"
    unfolding r1_def using assms(2) by (intro fold_upt_split) simp_all
  then show ?thesis
    unfolding g_def [symmetric] W1(1) using W2 assms(2) by (metis le_add_diff_inverse)
qed

lemma two_loops: "(let (r, W) = x; (r, W) = g (r, W) in (h r, W)) = (case g x of (r, W) \<Rightarrow> (h r, W))"
  by (simp add: Let_def split: prod.split)

lemma sha256_rolled_fips:
  assumes "length W = 16"
  shows "\<exists>W'. sha256_rolled s W M = (fips_sha2 Sigma0_256 Sigma1_256 sigma0_256 sigma1_256 K256 64 s M, W') \<and> length W' = 16"
proof -
  have "16 \<le> (64 :: nat)" by simp
  from rolled_fips_aux [OF assms this, of Sigma0_256 Sigma1_256 sigma0_256 sigma1_256 K256 M "load_regs s"]
  show ?thesis unfolding sha256_rolled_def two_loops fips_sha2_def by (elim exE conjE) (simp only: prod.case, blast)
qed

lemma sha512_rolled_fips:
  assumes "length W = 16"
  shows "\<exists>W'. sha512_rolled s W M = (fips_sha2 Sigma0_512 Sigma1_512 sigma0_512 sigma1_512 K512 80 s M, W') \<and> length W' = 16"
proof -
  have "16 \<le> (80 :: nat)" by simp
  from rolled_fips_aux [OF assms this, of Sigma0_512 Sigma1_512 sigma0_512 sigma1_512 K512 M "load_regs s"]
  show ?thesis unfolding sha512_rolled_def two_loops fips_sha2_def by (elim exE conjE) (simp only: prod.case, blast)
qed

section \<open>Properties\<close>

text \<open>
  The unrolled block functions (\<^verbatim>\<open>SHA2_UNROLL_TRANSFORM\<close>), which rename the eight registers instead
  of moving them, compute the same state and leave the same schedule window as the rolled ones, for
  SHA-256 and for SHA-512.
\<close>

theorem sha2_unrolled_equiv:
  "sha256_unrolled s W data = sha256_rolled s W data \<and>
   sha512_unrolled s' W' data' = sha512_rolled s' W' data'"
  using unrolled_rolled by blast

end
