(* ===== verification/Hash_SHA2_Vectors.thy ===== *)
theory Hash_SHA2_Vectors
  imports Hash_SHA2
begin

text \<open>
  The FIPS 180 test vector \<open>abc\<close> through the block functions of SHA-256 and SHA-512, sixteen rounds at a
  time, evaluated by the simplifier.
\<close>

lemma sha2_head_eval:
  "sha2_head S0 S1 K data j ((a, b, c, d, e, f, g, h), W) = (let
     T1 = nf (h + S1 e + Ch e f g + K ! j + data ! j);
     T2 = nf (S0 a + Maj a b c)
   in ((nf (T1 + T2), a, b, c, nf (d + T1), e, f, g), W[j := data ! j]))" if "j < length W"
  using that by (simp add: sha2_head_def nf_def Let_def)

lemma sha2_tail_eval:
  "sha2_tail S0 S1 s0 s1 K j ((a, b, c, d, e, f, g, h), W) = (let
     w = nf (W ! (j mod 16) + (s1 (W ! ((j + 14) mod 16)) + W ! ((j + 9) mod 16) + s0 (W ! ((j + 1) mod 16))));
     T1 = nf (h + S1 e + Ch e f g + K ! j + w);
     T2 = nf (S0 a + Maj a b c)
   in ((nf (T1 + T2), a, b, c, nf (d + T1), e, f, g), W[j mod 16 := w]))" if "length W = 16"
  using that by (simp add: sha2_tail_def nf_def Let_def)

lemmas sha2_eval256 = sha2_head_eval sha2_tail_eval Let_Pair
  Sigma0_256_def Sigma1_256_def sigma0_256_def sigma1_256_def S32_def Ch_def Maj_def K256_def

lemmas sha2_eval512 = sha2_head_eval sha2_tail_eval Let_Pair
  Sigma0_512_def Sigma1_512_def sigma0_512_def sigma1_512_def S64_def Ch_def Maj_def K512_def

lemma upt_16:
  "[0..<16] = [0, 1, 2, 3, 4, 5, 6, 7, 8, 9, 10, 11, 12, 13, 14, 15 :: nat]"
  "[16..<32] = [16, 17, 18, 19, 20, 21, 22, 23, 24, 25, 26, 27, 28, 29, 30, 31 :: nat]"
  "[32..<48] = [32, 33, 34, 35, 36, 37, 38, 39, 40, 41, 42, 43, 44, 45, 46, 47 :: nat]"
  "[48..<64] = [48, 49, 50, 51, 52, 53, 54, 55, 56, 57, 58, 59, 60, 61, 62, 63 :: nat]"
  "[64..<80] = [64, 65, 66, 67, 68, 69, 70, 71, 72, 73, 74, 75, 76, 77, 78, 79 :: nat]"
  by (simp_all add: upt_rec)

lemma SHA256_abc_0: "fold (sha2_head Sigma0_256 Sigma1_256 K256
      [0x61626380, 0, 0, 0, 0, 0, 0, 0, 0, 0, 0, 0, 0, 0, 0, 24]) [0..<16]
      ((0x6a09e667, 0xbb67ae85, 0x3c6ef372, 0xa54ff53a, 0x510e527f, 0x9b05688c, 0x1f83d9ab, 0x5be0cd19),
      [0x0, 0x0, 0x0, 0x0, 0x0, 0x0, 0x0, 0x0, 0x0, 0x0, 0x0, 0x0, 0x0, 0x0, 0x0, 0x0]) =
      ((0xb0fa238e, 0xc0645fde, 0xd932eb16, 0x87912990, 0x7590dcd, 0xb92f20c, 0x745a48de, 0x1e578218),
      [0x61626380, 0x0, 0x0, 0x0, 0x0, 0x0, 0x0, 0x0, 0x0, 0x0, 0x0, 0x0, 0x0, 0x0, 0x0, 0x18])"
  unfolding upt_16 fold_simps by (simp add: sha2_eval256 cong: let_weak_cong)

lemma SHA256_abc_1: "fold (sha2_tail Sigma0_256 Sigma1_256 sigma0_256 sigma1_256 K256) [16..<32]
      ((0xb0fa238e, 0xc0645fde, 0xd932eb16, 0x87912990, 0x7590dcd, 0xb92f20c, 0x745a48de, 0x1e578218),
      [0x61626380, 0x0, 0x0, 0x0, 0x0, 0x0, 0x0, 0x0, 0x0, 0x0, 0x0, 0x0, 0x0, 0x0, 0x0, 0x18]) =
      ((0x73b33bf5, 0xea992a22, 0xa0060b30, 0x363482c9, 0xba591112, 0x109ab3a, 0xade79437, 0x6112a3b7),
      [0x61626380, 0xf0000, 0x7da86405, 0x600003c6, 0x3e9d7b78, 0x183fc00, 0x12dcbfdb, 0xe2e2c38e, 0xc8215c1a, 0xb73679a2, 0xe5bc3909, 0x32663c5b, 0x9d209d67, 0xec8726cb, 0x702138a4, 0xd3b7973b])"
  unfolding upt_16 fold_simps by (simp add: sha2_eval256 cong: let_weak_cong)

lemma SHA256_abc_2: "fold (sha2_tail Sigma0_256 Sigma1_256 sigma0_256 sigma1_256 K256) [32..<48]
      ((0x73b33bf5, 0xea992a22, 0xa0060b30, 0x363482c9, 0xba591112, 0x109ab3a, 0xade79437, 0x6112a3b7),
      [0x61626380, 0xf0000, 0x7da86405, 0x600003c6, 0x3e9d7b78, 0x183fc00, 0x12dcbfdb, 0xe2e2c38e, 0xc8215c1a, 0xb73679a2, 0xe5bc3909, 0x32663c5b, 0x9d209d67, 0xec8726cb, 0x702138a4, 0xd3b7973b]) =
      ((0x4172328d, 0xa14c14b0, 0x72ab4b91, 0x26628815, 0xfecf0bc6, 0xd57b94a9, 0xb7755da1, 0xa80f11f0),
      [0x93f5997f, 0x3b68ba73, 0xaff4ffc1, 0xf10a5c62, 0xa8b3996, 0x72af830a, 0x9409e33e, 0x24641522, 0x9f47bf94, 0xf0a64f5a, 0x3e246a79, 0x27333ba3, 0xc4763f2, 0x840abf27, 0x7a290d5d, 0x65c43da])"
  unfolding upt_16 fold_simps by (simp add: sha2_eval256 cong: let_weak_cong)

lemma SHA256_abc_3: "fold (sha2_tail Sigma0_256 Sigma1_256 sigma0_256 sigma1_256 K256) [48..<64]
      ((0x4172328d, 0xa14c14b0, 0x72ab4b91, 0x26628815, 0xfecf0bc6, 0xd57b94a9, 0xb7755da1, 0xa80f11f0),
      [0x93f5997f, 0x3b68ba73, 0xaff4ffc1, 0xf10a5c62, 0xa8b3996, 0x72af830a, 0x9409e33e, 0x24641522, 0x9f47bf94, 0xf0a64f5a, 0x3e246a79, 0x27333ba3, 0xc4763f2, 0x840abf27, 0x7a290d5d, 0x65c43da]) =
      ((0x506e3058, 0xd39a2165, 0x4d24d6c, 0xb85e2ce9, 0x5ef50f24, 0xfb121210, 0x948d25b6, 0x961f4894),
      [0xfb3e89cb, 0xcc7617db, 0xb9e66c34, 0xa9993667, 0x84badedd, 0xc21462bc, 0x1487472c, 0xb20f7a99, 0xef57b9cd, 0xebe6b238, 0x9fe3095e, 0x78bc8d4b, 0xa43fcf15, 0x668b2ff8, 0xeeaba2cc, 0x12b1edeb])"
  unfolding upt_16 fold_simps by (simp add: sha2_eval256 cong: let_weak_cong)

lemma SHA512_abc_0: "fold (sha2_head Sigma0_512 Sigma1_512 K512
      [0x6162638000000000, 0, 0, 0, 0, 0, 0, 0, 0, 0, 0, 0, 0, 0, 0, 24]) [0..<16]
      ((0x6a09e667f3bcc908, 0xbb67ae8584caa73b, 0x3c6ef372fe94f82b, 0xa54ff53a5f1d36f1, 0x510e527fade682d1, 0x9b05688c2b3e6c1f, 0x1f83d9abfb41bd6b, 0x5be0cd19137e2179),
      [0x0, 0x0, 0x0, 0x0, 0x0, 0x0, 0x0, 0x0, 0x0, 0x0, 0x0, 0x0, 0x0, 0x0, 0x0, 0x0]) =
      ((0xae07c86b1181c75, 0xfa967eed85a08028, 0x44249631255d2ca0, 0x5e41214388186c14, 0xa77b7c035dd4c161, 0x874bfe5f6aae9f2f, 0x860acf9effba6f61, 0xcdf3bff2883fc9d9),
      [0x6162638000000000, 0x0, 0x0, 0x0, 0x0, 0x0, 0x0, 0x0, 0x0, 0x0, 0x0, 0x0, 0x0, 0x0, 0x0, 0x18])"
  unfolding upt_16 fold_simps by (simp add: sha2_eval512 cong: let_weak_cong)

lemma SHA512_abc_1: "fold (sha2_tail Sigma0_512 Sigma1_512 sigma0_512 sigma1_512 K512) [16..<32]
      ((0xae07c86b1181c75, 0xfa967eed85a08028, 0x44249631255d2ca0, 0x5e41214388186c14, 0xa77b7c035dd4c161, 0x874bfe5f6aae9f2f, 0x860acf9effba6f61, 0xcdf3bff2883fc9d9),
      [0x6162638000000000, 0x0, 0x0, 0x0, 0x0, 0x0, 0x0, 0x0, 0x0, 0x0, 0x0, 0x0, 0x0, 0x0, 0x0, 0x18]) =
      ((0xff4d3f1f0d46a736, 0x4c4fbbb75f1873a6, 0x74bf40f869094c63, 0xe62349090f47d30a, 0x3cd388e119e8162e, 0x73e025d91b9efea3, 0xf0aec2fe1437f085, 0xfcdf99710f21584),
      [0x6162638000000000, 0x30000000000c0, 0xa9699a24c700003, 0xc0060000603, 0x549ef62639858996, 0xc0003300003c00, 0x1497007a8a0e9dbc, 0x62e56500cc0780f0, 0x7760dd475a538797, 0xf1554b711c1c0003, 0xca2993a4345d9ff2, 0x5e0e66b5c783dd32, 0xe25a625d00494b62, 0x9f44486fb1e4fbd2, 0xb31b8c2b06085f2f, 0xe987660934142f6])"
  unfolding upt_16 fold_simps by (simp add: sha2_eval512 cong: let_weak_cong)

lemma SHA512_abc_2: "fold (sha2_tail Sigma0_512 Sigma1_512 sigma0_512 sigma1_512 K512) [32..<48]
      ((0xff4d3f1f0d46a736, 0x4c4fbbb75f1873a6, 0x74bf40f869094c63, 0xe62349090f47d30a, 0x3cd388e119e8162e, 0x73e025d91b9efea3, 0xf0aec2fe1437f085, 0xfcdf99710f21584),
      [0x6162638000000000, 0x30000000000c0, 0xa9699a24c700003, 0xc0060000603, 0x549ef62639858996, 0xc0003300003c00, 0x1497007a8a0e9dbc, 0x62e56500cc0780f0, 0x7760dd475a538797, 0xf1554b711c1c0003, 0xca2993a4345d9ff2, 0x5e0e66b5c783dd32, 0xe25a625d00494b62, 0x9f44486fb1e4fbd2, 0xb31b8c2b06085f2f, 0xe987660934142f6]) =
      ((0x6b69fc1bb482feac, 0xf61e672694de2d67, 0x21fbadbabab5ac6, 0xc47c9d5c7ea8a234, 0x35264334c03ac8ad, 0xc6bc35740d8daa9a, 0xe95c2a57572d64d9, 0x858d832ae0e8911c),
      [0xa4af2cfd09fbb924, 0xad289e2e0bd53186, 0x3c74563aa2f9673e, 0x6ccdcd14cc14b53f, 0xc3f925b337f22bde, 0x5bcc77a75ad95b54, 0x3ec2257adca09a52, 0x28246960001fc5eb, 0x4e33a75ce2be88a, 0x7d5314b3c359e0e7, 0xaef7a285ff251266, 0xb8472581deea04f, 0xb174e26eddc7b033, 0x5d63bae58ddd88de, 0x4c044007b744ccbb, 0xe6a9aa4d74dc7d43])"
  unfolding upt_16 fold_simps by (simp add: sha2_eval512 cong: let_weak_cong)

lemma SHA512_abc_3: "fold (sha2_tail Sigma0_512 Sigma1_512 sigma0_512 sigma1_512 K512) [48..<64]
      ((0x6b69fc1bb482feac, 0xf61e672694de2d67, 0x21fbadbabab5ac6, 0xc47c9d5c7ea8a234, 0x35264334c03ac8ad, 0xc6bc35740d8daa9a, 0xe95c2a57572d64d9, 0x858d832ae0e8911c),
      [0xa4af2cfd09fbb924, 0xad289e2e0bd53186, 0x3c74563aa2f9673e, 0x6ccdcd14cc14b53f, 0xc3f925b337f22bde, 0x5bcc77a75ad95b54, 0x3ec2257adca09a52, 0x28246960001fc5eb, 0x4e33a75ce2be88a, 0x7d5314b3c359e0e7, 0xaef7a285ff251266, 0xb8472581deea04f, 0xb174e26eddc7b033, 0x5d63bae58ddd88de, 0x4c044007b744ccbb, 0xe6a9aa4d74dc7d43]) =
      ((0xab44e86276478d85, 0xa81dedbb9f19e643, 0xcfcd928c5424e2b6, 0x3857dfd2fc37d3ba, 0xcd881ee59ca6bc53, 0x84058865d60a05fa, 0x9aee5bda1644de5, 0xa6af4e9c9f807e51),
      [0xebeaf1237248019c, 0x361e80b2d00f3193, 0x2e9839125df3b175, 0x3319629293ad5363, 0x9cbc5d89ac1b89d5, 0x275e23ffeeca50b7, 0x3b80d680bf69ef58, 0xd0696933945a125, 0x7533eabcb786ff00, 0xb89826cee6fbf0e5, 0x249b4fbcad623e9f, 0x4aea9df2b02d6f1e, 0x2cc57475a55e8d8f, 0xb2574ae938d8be89, 0xc1b35a57b16d6aea, 0xcc4918b5949206bb])"
  unfolding upt_16 fold_simps by (simp add: sha2_eval512 cong: let_weak_cong)

lemma SHA512_abc_4: "fold (sha2_tail Sigma0_512 Sigma1_512 sigma0_512 sigma1_512 K512) [64..<80]
      ((0xab44e86276478d85, 0xa81dedbb9f19e643, 0xcfcd928c5424e2b6, 0x3857dfd2fc37d3ba, 0xcd881ee59ca6bc53, 0x84058865d60a05fa, 0x9aee5bda1644de5, 0xa6af4e9c9f807e51),
      [0xebeaf1237248019c, 0x361e80b2d00f3193, 0x2e9839125df3b175, 0x3319629293ad5363, 0x9cbc5d89ac1b89d5, 0x275e23ffeeca50b7, 0x3b80d680bf69ef58, 0xd0696933945a125, 0x7533eabcb786ff00, 0xb89826cee6fbf0e5, 0x249b4fbcad623e9f, 0x4aea9df2b02d6f1e, 0x2cc57475a55e8d8f, 0xb2574ae938d8be89, 0xc1b35a57b16d6aea, 0xcc4918b5949206bb]) =
      ((0x73a54f399fa4b1b2, 0x10d9c4c4295599f6, 0xd67806db8b148677, 0x654ef9abec389ca9, 0xd08446aa79693ed7, 0x9bb4d39778c07f9e, 0x25c96a7768fb2aa3, 0xceb9fc3691ce8326),
      [0x5099c3add79f90ec, 0x5ea81d78e7660bf1, 0xebee6267405ac2a9, 0xb01f21926108a4ab, 0x786433dd2fe65556, 0xc54a6eaa24a0552c, 0xb3c8f1530bdbaa9e, 0xbb8abfe56f469338, 0xf63d4265cc1c5a78, 0xbe8355ea73129afb, 0x49e2db8ebdcfbeb5, 0x82269d4a883a3d99, 0xfdf53df3011f362b, 0x464af5671d71c12e, 0xe449b68198ec611c, 0x92aeeed1a7bcf7d2])"
  unfolding upt_16 fold_simps by (simp add: sha2_eval512 cong: let_weak_cong)

lemma fold_by_16:
  "fold f [16..<64] x = fold f [48..<64] (fold f [32..<48] (fold f [16..<32] x))"
  "fold f [16..<80] x = fold f [64..<80] (fold f [48..<64] (fold f [32..<48] (fold f [16..<32] x)))"
proof -
  have "fold f [16..<64] x = fold f [32..<64] (fold f [16..<32] x)"
    "fold f [32..<64] y = fold f [48..<64] (fold f [32..<48] y)"
    "fold f [16..<80] x = fold f [64..<80] (fold f [16..<64] x)" for y
    by (rule fold_upt_split; simp)+
  then show "fold f [16..<64] x = fold f [48..<64] (fold f [32..<48] (fold f [16..<32] x))"
    "fold f [16..<80] x = fold f [64..<80] (fold f [48..<64] (fold f [32..<48] (fold f [16..<32] x)))"
    by (simp_all only:)
qed

end
