(* ===== verification/Hash_SHA2_Stream.thy ===== *)
theory Hash_SHA2_Stream
  imports Hash_SHA2_Vectors
begin

text \<open>
  The contexts and the operations of \<^verbatim>\<open>sha2.c\<close>: \<open>Init\<close>, \<open>Update\<close> and \<open>Final\<close> of SHA-224/256 (64-byte
  blocks, 64-bit bit count) and SHA-384/512 (128-byte blocks, 128-bit bit count).  The block functions
  use the context buffer as the schedule window, so they destroy its contents; each word of the data is
  read before the window word with the same index is written, so the call on the buffer itself reads
  the buffer as it was.  The start address of the data is a parameter, because \<open>Update\<close> copies blocks
  that are not aligned into the buffer first.
\<close>

section \<open>Words of a block\<close>

fun words64_le :: "byte list \<Rightarrow> u64 list" where
  "words64_le (a # b # c # d # e # f # g # h # r) =
     (ucast a OR push_bit 8 (ucast b) OR push_bit 16 (ucast c) OR push_bit 24 (ucast d) OR
      push_bit 32 (ucast e) OR push_bit 40 (ucast f) OR push_bit 48 (ucast g) OR push_bit 56 (ucast h))
     # words64_le r"
| "words64_le _ = []"

fun words64_be :: "byte list \<Rightarrow> u64 list" where
  "words64_be (a # b # c # d # e # f # g # h # r) =
     (ucast h OR push_bit 8 (ucast g) OR push_bit 16 (ucast f) OR push_bit 24 (ucast e) OR
      push_bit 32 (ucast d) OR push_bit 40 (ucast c) OR push_bit 48 (ucast b) OR push_bit 56 (ucast a))
     # words64_be r"
| "words64_be _ = []"

lemma length_words64 [simp]: "length (words64_le bs) = length bs div 8" "length (words64_be bs) = length bs div 8"
  by (induction bs rule: words64_le.induct) simp_all

section \<open>SHA-256 and SHA-224\<close>

record SHA256_CTX =
  s256_state :: "u32 list"
  s256_bitcount :: u64
  s256_buffer :: "byte list"

definition SHA256_Init :: "SHA256_CTX \<Rightarrow> SHA256_CTX" where
  "SHA256_Init c = c\<lparr>s256_state := sha256_initial_hash_value, s256_buffer := replicate 64 0, s256_bitcount := 0\<rparr>"

definition SHA256_Transform :: "SHA256_CTX \<Rightarrow> byte list \<Rightarrow> SHA256_CTX" where
  "SHA256_Transform c data = (let (s, W) = sha256_rolled (s256_state c) (words_le (s256_buffer c)) (words_be data)
   in c\<lparr>s256_state := s, s256_buffer := concat (map le32 W)\<rparr>)"

text \<open>The two \<^verbatim>\<open>while (len >= SHA256_BLOCK_LENGTH)\<close> loops: directly on aligned data, or through the buffer.\<close>

function SHA256_blocks :: "bool \<Rightarrow> SHA256_CTX \<Rightarrow> byte list \<Rightarrow> SHA256_CTX \<times> byte list" where
  "SHA256_blocks aligned c data = (if 64 \<le> length data then let
     c = (if aligned then SHA256_Transform c (take 64 data)
          else let c = c\<lparr>s256_buffer := take 64 data\<rparr> in SHA256_Transform c (s256_buffer c));
     c = c\<lparr>s256_bitcount := s256_bitcount c + push_bit 3 64\<rparr>
   in SHA256_blocks aligned c (drop 64 data) else (c, data))"
  by pat_completeness auto
termination by (relation "measure (\<lambda>(_, _, d). length d)") auto

declare SHA256_blocks.simps [simp del]

definition SHA256_Update :: "nat \<Rightarrow> SHA256_CTX \<Rightarrow> byte list \<Rightarrow> SHA256_CTX option" where
  "SHA256_Update addr c data = (if length data = 0 then Some c else let
     usedspace = unat ((drop_bit 3 (s256_bitcount c)) mod 64);
     freespace = 64 - usedspace
   in if usedspace > 0 \<and> length data < freespace then do {
     buf \<leftarrow> put (s256_buffer c) usedspace data;
     Some (c\<lparr>s256_buffer := buf, s256_bitcount := s256_bitcount c + push_bit 3 (word_of_nat (length data))\<rparr>)
   } else do {
     (c, addr, data) \<leftarrow> (if usedspace > 0 then do {
         buf \<leftarrow> put (s256_buffer c) usedspace (take freespace data);
         let c = c\<lparr>s256_buffer := buf, s256_bitcount := s256_bitcount c + push_bit 3 (word_of_nat freespace)\<rparr>;
         Some (SHA256_Transform c (s256_buffer c), addr + freespace, drop freespace data)
       } else Some (c, addr, data));
     let (c, data) = SHA256_blocks (addr mod 4 = 0) c data;
     if length data > 0 then do {
       buf \<leftarrow> put (s256_buffer c) 0 data;
       Some (c\<lparr>s256_buffer := buf, s256_bitcount := s256_bitcount c + push_bit 3 (word_of_nat (length data))\<rparr>)
     } else Some c
   })"

text \<open>\<open>len\<close> is the digest length in bytes; nothing but the clean-up is done when the digest pointer is \<open>NULL\<close>.\<close>

definition SHA224_256_Final :: "bool \<Rightarrow> nat \<Rightarrow> SHA256_CTX \<Rightarrow> (byte list \<times> SHA256_CTX) option" where
  "SHA224_256_Final dg len c = (let zero = \<lparr>s256_state = replicate 8 0, s256_bitcount = 0, s256_buffer = replicate 64 0\<rparr>
   in if dg then let
     usedspace = unat ((drop_bit 3 (s256_bitcount c)) mod 64);
     bitcount = be64 (s256_bitcount c)
   in do {
     c \<leftarrow> (if usedspace > 0 then do {
         buf \<leftarrow> put (s256_buffer c) usedspace [0x80];
         let usedspace = usedspace + 1;
         if usedspace \<le> 56 then do {
           buf \<leftarrow> put buf usedspace (replicate (56 - usedspace) 0);
           Some (c\<lparr>s256_buffer := buf\<rparr>)
         } else do {
           buf \<leftarrow> (if usedspace < 64 then put buf usedspace (replicate (64 - usedspace) 0) else Some buf);
           let c = SHA256_Transform (c\<lparr>s256_buffer := buf\<rparr>) buf;
           buf \<leftarrow> put (s256_buffer c) 0 (replicate 56 0);
           Some (c\<lparr>s256_buffer := buf\<rparr>)
         }
       } else do {
         buf \<leftarrow> put (s256_buffer c) 0 (replicate 56 0);
         buf \<leftarrow> put buf 0 [0x80];
         Some (c\<lparr>s256_buffer := buf\<rparr>)
       });
     buf \<leftarrow> put (s256_buffer c) 56 bitcount;
     let c = SHA256_Transform (c\<lparr>s256_buffer := buf\<rparr>) buf;
     Some (concat (map (\<lambda>i. be32 (s256_state c ! i)) [0..<len div 4]), zero)
   } else Some ([], zero))"

definition SHA256_Final :: "bool \<Rightarrow> SHA256_CTX \<Rightarrow> (byte list \<times> SHA256_CTX) option" where
  "SHA256_Final dg = SHA224_256_Final dg 32"

definition SHA224_Init :: "SHA256_CTX \<Rightarrow> SHA256_CTX" where
  "SHA224_Init c = c\<lparr>s256_state := sha224_initial_hash_value, s256_buffer := replicate 64 0, s256_bitcount := 0\<rparr>"

definition SHA224_Update :: "nat \<Rightarrow> SHA256_CTX \<Rightarrow> byte list \<Rightarrow> SHA256_CTX option" where
  "SHA224_Update = SHA256_Update"

definition SHA224_Transform :: "SHA256_CTX \<Rightarrow> byte list \<Rightarrow> SHA256_CTX" where
  "SHA224_Transform = SHA256_Transform"

definition SHA224_Final :: "bool \<Rightarrow> SHA256_CTX \<Rightarrow> (byte list \<times> SHA256_CTX) option" where
  "SHA224_Final dg = SHA224_256_Final dg 28"

section \<open>SHA-512 and SHA-384\<close>

record SHA512_CTX =
  s512_state :: "u64 list"
  s512_bitcount0 :: u64
  s512_bitcount1 :: u64
  s512_buffer :: "byte list"

text \<open>\<open>ADDINC128\<close> on the two bit count words.\<close>

definition ADDINC128 :: "u64 \<Rightarrow> SHA512_CTX \<Rightarrow> SHA512_CTX" where
  "ADDINC128 n c = (let w0 = s512_bitcount0 c + n in
     c\<lparr>s512_bitcount0 := w0, s512_bitcount1 := (if w0 < n then s512_bitcount1 c + 1 else s512_bitcount1 c)\<rparr>)"

definition SHA512_Init :: "SHA512_CTX \<Rightarrow> SHA512_CTX" where
  "SHA512_Init c = c\<lparr>s512_state := sha512_initial_hash_value, s512_buffer := replicate 128 0,
     s512_bitcount0 := 0, s512_bitcount1 := 0\<rparr>"

definition SHA512_Transform :: "SHA512_CTX \<Rightarrow> byte list \<Rightarrow> SHA512_CTX" where
  "SHA512_Transform c data = (let (s, W) = sha512_rolled (s512_state c) (words64_le (s512_buffer c)) (words64_be data)
   in c\<lparr>s512_state := s, s512_buffer := concat (map le64 W)\<rparr>)"

function SHA512_blocks :: "bool \<Rightarrow> SHA512_CTX \<Rightarrow> byte list \<Rightarrow> SHA512_CTX \<times> byte list" where
  "SHA512_blocks aligned c data = (if 128 \<le> length data then let
     c = (if aligned then SHA512_Transform c (take 128 data)
          else let c = c\<lparr>s512_buffer := take 128 data\<rparr> in SHA512_Transform c (s512_buffer c));
     c = ADDINC128 (push_bit 3 128) c
   in SHA512_blocks aligned c (drop 128 data) else (c, data))"
  by pat_completeness auto
termination by (relation "measure (\<lambda>(_, _, d). length d)") auto

declare SHA512_blocks.simps [simp del]

definition SHA512_Update :: "nat \<Rightarrow> SHA512_CTX \<Rightarrow> byte list \<Rightarrow> SHA512_CTX option" where
  "SHA512_Update addr c data = (if length data = 0 then Some c else let
     usedspace = unat ((drop_bit 3 (s512_bitcount0 c)) mod 128);
     freespace = 128 - usedspace
   in if usedspace > 0 \<and> length data < freespace then do {
     buf \<leftarrow> put (s512_buffer c) usedspace data;
     Some (ADDINC128 (push_bit 3 (word_of_nat (length data))) (c\<lparr>s512_buffer := buf\<rparr>))
   } else do {
     (c, addr, data) \<leftarrow> (if usedspace > 0 then do {
         buf \<leftarrow> put (s512_buffer c) usedspace (take freespace data);
         let c = ADDINC128 (push_bit 3 (word_of_nat freespace)) (c\<lparr>s512_buffer := buf\<rparr>);
         Some (SHA512_Transform c (s512_buffer c), addr + freespace, drop freespace data)
       } else Some (c, addr, data));
     let (c, data) = SHA512_blocks (addr mod 8 = 0) c data;
     if length data > 0 then do {
       buf \<leftarrow> put (s512_buffer c) 0 data;
       Some (ADDINC128 (push_bit 3 (word_of_nat (length data))) (c\<lparr>s512_buffer := buf\<rparr>))
     } else Some c
   })"

definition SHA512_Last :: "SHA512_CTX \<Rightarrow> SHA512_CTX option" where
  "SHA512_Last c = (let
     usedspace = unat ((drop_bit 3 (s512_bitcount0 c)) mod 128);
     bitcount0 = be64 (s512_bitcount0 c);
     bitcount1 = be64 (s512_bitcount1 c)
   in do {
     c \<leftarrow> (if usedspace > 0 then do {
         buf \<leftarrow> put (s512_buffer c) usedspace [0x80];
         let usedspace = usedspace + 1;
         if usedspace \<le> 112 then do {
           buf \<leftarrow> put buf usedspace (replicate (112 - usedspace) 0);
           Some (c\<lparr>s512_buffer := buf\<rparr>)
         } else do {
           buf \<leftarrow> (if usedspace < 128 then put buf usedspace (replicate (128 - usedspace) 0) else Some buf);
           let c = SHA512_Transform (c\<lparr>s512_buffer := buf\<rparr>) buf;
           buf \<leftarrow> put (s512_buffer c) 0 (replicate (128 - 2) 0);
           Some (c\<lparr>s512_buffer := buf\<rparr>)
         }
       } else do {
         buf \<leftarrow> put (s512_buffer c) 0 (replicate 112 0);
         buf \<leftarrow> put buf 0 [0x80];
         Some (c\<lparr>s512_buffer := buf\<rparr>)
       });
     buf \<leftarrow> put (s512_buffer c) 112 bitcount1;
     buf \<leftarrow> put buf (112 + 8) bitcount0;
     Some (SHA512_Transform (c\<lparr>s512_buffer := buf\<rparr>) buf)
   })"

definition SHA512_Final :: "bool \<Rightarrow> SHA512_CTX \<Rightarrow> (byte list \<times> SHA512_CTX) option" where
  "SHA512_Final dg c = (let
     zero = \<lparr>s512_state = replicate 8 0, s512_bitcount0 = 0, s512_bitcount1 = 0, s512_buffer = replicate 128 0\<rparr>
   in if dg then do {
     c \<leftarrow> SHA512_Last c;
     Some (concat (map (\<lambda>i. be64 (s512_state c ! i)) [0..<8]), zero)
   } else Some ([], zero))"

definition SHA384_Init :: "SHA512_CTX \<Rightarrow> SHA512_CTX" where
  "SHA384_Init c = c\<lparr>s512_state := sha384_initial_hash_value, s512_buffer := replicate 128 0,
     s512_bitcount0 := 0, s512_bitcount1 := 0\<rparr>"

definition SHA384_Update :: "nat \<Rightarrow> SHA512_CTX \<Rightarrow> byte list \<Rightarrow> SHA512_CTX option" where
  "SHA384_Update = SHA512_Update"

definition SHA384_Transform :: "SHA512_CTX \<Rightarrow> byte list \<Rightarrow> SHA512_CTX" where
  "SHA384_Transform = SHA512_Transform"

definition SHA384_Final :: "bool \<Rightarrow> SHA512_CTX \<Rightarrow> (byte list \<times> SHA512_CTX) option" where
  "SHA384_Final dg c = (let
     zero = \<lparr>s512_state = replicate 8 0, s512_bitcount0 = 0, s512_bitcount1 = 0, s512_buffer = replicate 128 0\<rparr>
   in if dg then do {
     c \<leftarrow> SHA512_Last c;
     Some (concat (map (\<lambda>i. be64 (s512_state c ! i)) [0..<6]), zero)
   } else Some ([], zero))"

section \<open>Correctness of SHA-256 and SHA-224\<close>

definition sha256_comp :: "u32 list \<Rightarrow> byte list \<Rightarrow> u32 list" where
  "sha256_comp s b = fips_sha2 Sigma0_256 Sigma1_256 sigma0_256 sigma1_256 K256 64 s (words_be b)"

lemma length_concat_le32: "length (concat (map le32 W)) = 4 * length W"
  by (induction W) simp_all

lemma Transform256:
  assumes "length (s256_buffer c) = 64"
  shows "s256_state (SHA256_Transform c d) = sha256_comp (s256_state c) d"
    "length (s256_buffer (SHA256_Transform c d)) = 64"
    "s256_bitcount (SHA256_Transform c d) = s256_bitcount c"
  using sha256_rolled_fips [of "words_le (s256_buffer c)" "s256_state c" "words_be d"] assms
  by (auto simp: SHA256_Transform_def sha256_comp_def length_concat_le32)

lemma blocks256:
  assumes "length (s256_buffer c) = 64" "s256_bitcount c = word_of_nat (8 * l)"
  shows "\<exists>c'. SHA256_blocks al c d = (c', leftover 64 d) \<and> length (s256_buffer c') = 64 \<and>
    s256_state c' = absorb 64 sha256_comp (s256_state c) d \<and>
    s256_bitcount c' = word_of_nat (8 * (l + length d div 64 * 64))"
  using assms
proof (induction al c d arbitrary: l rule: SHA256_blocks.induct)
  case (1 al c d)
  show ?case
  proof (cases "64 \<le> length d")
    case True
    define c1 where "c1 = (if al then SHA256_Transform c (take 64 d)
      else let c = c\<lparr>s256_buffer := take 64 d\<rparr> in SHA256_Transform c (s256_buffer c))"
    define c2 where "c2 = c1\<lparr>s256_bitcount := s256_bitcount c1 + push_bit 3 64\<rparr>"
    have c1: "length (s256_buffer c1) = 64" "s256_state c1 = sha256_comp (s256_state c) (take 64 d)"
      "s256_bitcount c1 = word_of_nat (8 * l)"
      using "1.prems" True by (auto simp: c1_def Transform256)
    have "length (s256_buffer c2) = 64" "s256_bitcount c2 = word_of_nat (8 * (l + 64))"
      using c1 add_bits [of l 64] by (simp_all add: c2_def)
    moreover have "length d div 64 = Suc ((length d - 64) div 64)" using True by (simp add: le_div_geq)
    ultimately show ?thesis
      using True c1 "1.IH" [OF True c1_def c2_def, of "l + 64"]
      unfolding SHA256_blocks.simps [of al c d] c1_def [symmetric]
      by (simp add: Let_def c2_def leftover_drop absorb_step add.assoc)
  next
    case False
    then show ?thesis
      using "1.prems" by (simp add: SHA256_blocks.simps [of al c d] absorb_short leftover_short)
  qed
qed


definition s256_rep :: "u32 list \<Rightarrow> SHA256_CTX \<Rightarrow> byte list \<Rightarrow> bool" where
  "s256_rep iv c m \<longleftrightarrow> buffered 64 sha256_comp iv (s256_state c) (s256_buffer c) m \<and>
     s256_bitcount c = word_of_nat (8 * length m)"

lemma used256: "s256_rep iv c m \<Longrightarrow> unat (drop_bit 3 (s256_bitcount c) mod 64) = length m mod 64"
  using used_space [of 64 "length m"] by (simp add: s256_rep_def)

text \<open>The rest of an update, once the buffer holds no pending bytes.\<close>

lemma rest256:
  assumes "length (s256_buffer c) = 64" "s256_bitcount c = word_of_nat (8 * (length M - length d))"
    "absorb 64 sha256_comp iv M = absorb 64 sha256_comp (s256_state c) d" "leftover 64 M = leftover 64 d"
    "length d \<le> length M"
  shows "\<exists>c'. (let (c, data) = SHA256_blocks al c d in
      if length data > 0 then do {
        buf \<leftarrow> put (s256_buffer c) 0 data;
        Some (c\<lparr>s256_buffer := buf, s256_bitcount := s256_bitcount c + push_bit 3 (word_of_nat (length data))\<rparr>)
      } else Some c) = Some c' \<and> s256_rep iv c' M"
proof -
  obtain c1 where c1: "SHA256_blocks al c d = (c1, leftover 64 M)" "length (s256_buffer c1) = 64"
      "s256_state c1 = absorb 64 sha256_comp iv M"
      "s256_bitcount c1 = word_of_nat (8 * (length M - length d + length d div 64 * 64))"
    using blocks256 [OF assms(1,2), of al d] assms(3,4) by auto
  obtain b where b: "put (s256_buffer c1) 0 (leftover 64 M) = Some b"
      "buffered 64 sha256_comp iv (absorb 64 sha256_comp iv M) b M"
    using buffered_tail [OF c1(2), of M sha256_comp iv] by auto
  have lo: "length (leftover 64 M) = length d mod 64" using assms(4) by simp
  have "length M - length d + length d div 64 * 64 + length d mod 64 = length M"
    using assms(5) div_mult_mod_eq [of "length d" 64] by linarith
  then have bits: "s256_bitcount c1 + push_bit 3 (word_of_nat (length d mod 64)) = word_of_nat (8 * length M)"
    using add_bits [of "length M - length d + length d div 64 * 64" "length d mod 64"] c1(4) by simp
  show ?thesis
  proof (cases "length d mod 64 = 0")
    case True
    then have "leftover 64 M = []" using lo by (metis length_0_conv)
    moreover have "length M mod 64 = 0" using lo True by simp
    ultimately show ?thesis using c1 bits True by (simp add: s256_rep_def buffered_def)
  next
    case False
    then have "leftover 64 M \<noteq> []" using lo by (metis list.size(3))
    then show ?thesis using c1 bits b lo by (simp add: s256_rep_def)
  qed
qed

lemma update256_rep:
  assumes rep: "s256_rep iv c m"
  shows "\<exists>c'. SHA256_Update addr c d = Some c' \<and> s256_rep iv c' (m @ d)"
proof -
  define r where "r = length m mod 64"
  have used: "unat (drop_bit 3 (s256_bitcount c) mod 64) = r" using used256 [OF rep] by (simp add: r_def)
  have b: "buffered 64 sha256_comp iv (s256_state c) (s256_buffer c) m" "length (s256_buffer c) = 64"
    "s256_state c = absorb 64 sha256_comp iv m" "take r (s256_buffer c) = leftover 64 m"
    "s256_bitcount c = word_of_nat (8 * length m)"
    using rep by (simp_all add: s256_rep_def buffered_def r_def)
  consider "d = []" | "d \<noteq> []" "0 < r" "r + length d < 64" | "d \<noteq> []" "0 < r" "64 \<le> r + length d" | "d \<noteq> []" "r = 0"
    by linarith
  then show ?thesis
  proof cases
    case 1
    then show ?thesis using rep by (simp add: SHA256_Update_def)
  next
    case 2
    then obtain b' where b': "put (s256_buffer c) r d = Some b'" "buffered 64 sha256_comp iv (s256_state c) b' (m @ d)"
      using buffered_short [OF b(1), of d] by (auto simp: r_def)
    have bits: "s256_bitcount c + push_bit 3 (word_of_nat (length d)) = word_of_nat (8 * length (m @ d))"
      using b(5) add_bits [of "length m" "length d"] by simp
    have "length d < 64 - r" using 2 by linarith
    then show ?thesis
      using 2 b' bits by (simp add: SHA256_Update_def Let_def used s256_rep_def)
  next
    case 3
    define B where "B = leftover 64 m @ take (64 - r) d"
    define c1 where "c1 = SHA256_Transform (c\<lparr>s256_buffer := B,
      s256_bitcount := s256_bitcount c + push_bit 3 (word_of_nat (64 - r))\<rparr>) B"
    have r: "r < 64" by (simp add: r_def)
    then have B: "length B = 64" "put (s256_buffer c) r (take (64 - r) d) = Some B"
      using b 3 by (simp_all add: B_def put_ok) (simp add: r_def)
    have eq: "length m + (64 - r) = length (m @ d) - length (drop (64 - r) d)" using 3 r by simp
    have c1: "length (s256_buffer c1) = 64" "s256_state c1 = sha256_comp (absorb 64 sha256_comp iv m) B"
      "s256_bitcount c1 = word_of_nat (8 * (length (m @ d) - length (drop (64 - r) d)))"
      using B b add_bits [of "length m" "64 - r"] unfolding eq [symmetric] by (simp_all add: c1_def Transform256)
    have "absorb 64 sha256_comp iv (m @ d) = absorb 64 sha256_comp (s256_state c1) (drop (64 - r) d)"
      "leftover 64 (m @ d) = leftover 64 (drop (64 - r) d)"
      using fill_full(1) [of 64 m d sha256_comp iv] fill_full(2) [of 64 m d] 3 c1 by (simp_all add: r_def B_def)
    moreover have "\<not> length d < 64 - r" using 3 by linarith
    ultimately show ?thesis
      using rest256 [OF c1(1,3), of iv] 3 B by (simp add: SHA256_Update_def Let_def used c1_def)
  next
    case 4
    then have dvd: "64 dvd length m" by (simp add: r_def mod_eq_0_iff_dvd)
    have ab: "absorb 64 sha256_comp iv (m @ d) = absorb 64 sha256_comp (s256_state c) d"
      "leftover 64 (m @ d) = leftover 64 d"
      using dvd absorb_append [of 64 m] leftover_append [of 64 m d] b by (simp_all add: leftover_dvd)
    have bits: "s256_bitcount c = word_of_nat (8 * (length (m @ d) - length d))" using b(5) by simp
    from rest256 [OF b(2) bits ab, of "addr mod 4 = 0"] show ?thesis
      using 4 by (simp add: SHA256_Update_def used)
  qed
qed


definition sha256_digest :: "u32 list \<Rightarrow> nat \<Rightarrow> byte list \<Rightarrow> byte list" where
  "sha256_digest iv len m =
     concat (map be32 (take (len div 4) (absorb 64 sha256_comp iv (md_pad 64 8 (\<lambda>k. be64 (word_of_nat k)) m))))"

lemma length_add_regs [simp]: "length (add_regs s r) = 8"
  by (induction s r rule: add_regs.induct) simp

lemma length_sha256_comp: "length (sha256_comp s b) = 8"
  by (simp add: sha256_comp_def fips_sha2_def del: upt.simps)

lemma final256_rep:
  assumes rep: "s256_rep iv c m" and iv: "length iv = 8" and len: "len \<le> 32"
  shows "\<exists>c'. SHA224_256_Final True len c = Some (sha256_digest iv len m, c') \<and> length (s256_buffer c') = 64"
proof -
  define r where "r = length m mod 64"
  define E where "E = be64 (s256_bitcount c)"
  define G where "G = absorb 64 sha256_comp iv (md_pad 64 8 (\<lambda>k. be64 (word_of_nat k)) m)"
  have r: "r < 64" "length (leftover 64 m) = r" by (simp_all add: r_def)
  have used: "unat (drop_bit 3 (s256_bitcount c) mod 64) = r" using used256 [OF rep] by (simp add: r_def)
  have b: "length (s256_buffer c) = 64" "s256_state c = absorb 64 sha256_comp iv m"
    "take r (s256_buffer c) = leftover 64 m" and E: "E = be64 (word_of_nat (8 * length m))" "length E = 8"
    using rep by (simp_all add: s256_rep_def buffered_def r_def E_def)
  have G: "length G = 8"
    unfolding G_def using iv length_sha256_comp by (intro length_absorb) simp_all
  have dg: "concat (map (\<lambda>i. be32 (G ! i)) [0..<len div 4]) = sha256_digest iv len m"
    using map_nth_take [of "len div 4" G be32] G len by (simp add: sha256_digest_def G_def)
  obtain Y where Y: "s256_buffer c = leftover 64 m @ Y" "length Y = 64 - r"
    using b r by (metis append_take_drop_id length_drop)
  show ?thesis
  proof (cases "r < 56")
    case True
    define B where "B = leftover 64 m @ [0x80] @ replicate (55 - r) 0"
    have B: "length B = 56" using True r by (simp add: B_def)
    have "G = sha256_comp (absorb 64 sha256_comp iv m) (B @ E)"
      using pad_one [of m 64 8 "\<lambda>k. be64 (word_of_nat k)" sha256_comp iv] True by (simp add: G_def E r_def B_def)
    moreover have "put (B @ drop (56 - r) Y) 56 E = Some (B @ E)"
      using put_at [OF B, of E "drop (56 - r) Y"] Y(2) E(2) r True by simp
    moreover have "Suc (55 - r) = 56 - r" using True by simp
    then have "put (s256_buffer c) r [0x80] = Some ((leftover 64 m @ [0x80]) @ drop 1 Y)"
      "put ((leftover 64 m @ [0x80]) @ drop 1 Y) (Suc r) (replicate (55 - r) 0) = Some (B @ drop (56 - r) Y)"
      using put_at [of "leftover 64 m" r "[0x80]" Y] put_at [of "leftover 64 m @ [0x80]" "Suc r" "replicate (55 - r) 0" "drop 1 Y"]
        r True Y by (simp_all add: B_def)
    moreover have "put (s256_buffer c) 0 (replicate 56 0) \<bind> (\<lambda>b. put b 0 [0x80]) = Some (B @ drop (56 - r) Y)" if "r = 0"
      using that Y r by (simp add: put_ok B_def)
    ultimately show ?thesis
      using True b(1,2) dg B E(2)
      by (cases "r = 0") (auto simp: SHA224_256_Final_def Let_def used Transform256 E_def [symmetric] bind_eq_Some_conv)
  next
    case False
    define B where "B = leftover 64 m @ [0x80] @ replicate (63 - r) 0"
    have B: "length B = 64" using r by (simp add: B_def)
    have "G = sha256_comp (sha256_comp (absorb 64 sha256_comp iv m) B) (replicate 56 0 @ E)"
      using pad_two [of 64 8 m "\<lambda>k. be64 (word_of_nat k)" sha256_comp iv] False by (simp add: G_def E r_def B_def)
    moreover have "put (s256_buffer c) r [0x80] = Some ((leftover 64 m @ [0x80]) @ drop 1 Y)"
      "put ((leftover 64 m @ [0x80]) @ drop 1 Y) (Suc r) (replicate (63 - r) 0) = Some B"
      using put_at [of "leftover 64 m" r "[0x80]" Y] put_at [of "leftover 64 m @ [0x80]" "Suc r" "replicate (63 - r) 0" "drop 1 Y"]
        r Y by (simp_all add: B_def)
    moreover have "(leftover 64 m @ [0x80]) @ drop 1 Y = B" if "r = 63"
      using that Y by (simp add: B_def)
    ultimately show ?thesis
      using False b(1,2) dg B E(2) r(1)
      by (auto simp: SHA224_256_Final_def Let_def used Transform256 E_def [symmetric] put_ok)
  qed
qed


section \<open>Correctness of SHA-512 and SHA-384\<close>

text \<open>\<open>cnt512 c l\<close>: the two count words hold the 128-bit number of bits of \<open>l\<close> bytes.\<close>

definition cnt512 :: "SHA512_CTX \<Rightarrow> nat \<Rightarrow> bool" where
  "cnt512 c l \<longleftrightarrow> s512_bitcount0 c = word_of_nat (8 * l) \<and> s512_bitcount1 c = word_of_nat (8 * l div 2 ^ 64)"

lemma add_high_words: "x < 2 ^ 64 \<Longrightarrow> (x + y) div 2 ^ 64 = (if x + y mod 2 ^ 64 < 2 ^ 64 then 0 else 1) + y div 2 ^ 64" for x y :: nat
  using div_add1_eq [of x y "2 ^ 64"] mod_less_divisor [of "2 ^ 64" y]
  by (auto simp: div_if)

lemma word_add_overflow: "a + b < b \<longleftrightarrow> 2 ^ LENGTH('a) \<le> unat a + unat b" for a b :: "'a::len word"
proof -
  define x y N where "x = unat a" and "y = unat b" and "N = (2 :: nat) ^ LENGTH('a)"
  have xy: "x < N" "y < N" using unat_lt_len [of a] unat_lt_len [of b] by (simp_all add: x_def y_def N_def)
  have "a + b < b \<longleftrightarrow> (x + y) mod N < y"
    by (simp add: word_less_nat_alt unat_word_ariths x_def y_def N_def)
  also have "\<dots> \<longleftrightarrow> N \<le> x + y"
    using xy by (cases "x + y < N") (auto simp: le_mod_geq)
  finally show ?thesis by (simp add: x_def y_def N_def)
qed

lemma ADDINC128_count:
  assumes "cnt512 c l" "k < 2 ^ 61"
  shows "cnt512 (ADDINC128 (push_bit 3 (word_of_nat k)) c) (l + k)"
proof -
  define w :: u64 where "w = push_bit 3 (word_of_nat k)"
  define b where "b = s512_bitcount0 c"
  have w: "unat w = 8 * k" using assms(2) by (simp add: w_def unat_push_bit unat_of_nat)
  have "b = word_of_nat (8 * l)" using assms(1) by (simp add: b_def cnt512_def)
  then have b: "unat b = 8 * l mod 2 ^ 64" by (simp only: unat_of_nat) simp
  have less: "b + w < w \<longleftrightarrow> \<not> 8 * k + unat b < 2 ^ 64"
    using word_add_overflow [of b w] unfolding w by auto
  have "8 * (l + k) div 2 ^ 64 = (if b + w < w then 1 else 0) + 8 * l div 2 ^ 64"
    using add_high_words [of "8 * k" "8 * l"] assms(2) unfolding less b
    by (simp only: distrib_left add.commute [of "8 * l"]) auto
  moreover have "b + w = word_of_nat (8 * (l + k))"
    using add_bits [of l k] assms(1) by (simp add: b_def w_def cnt512_def)
  ultimately show ?thesis
    using assms(1) unfolding cnt512_def ADDINC128_def Let_def w_def [symmetric] b_def [symmetric] by simp
qed

lemma ADDINC128_other [simp]:
  "s512_state (ADDINC128 n c) = s512_state c" "s512_buffer (ADDINC128 n c) = s512_buffer c"
  "cnt512 (c\<lparr>s512_buffer := x\<rparr>) l = cnt512 c l" "cnt512 (c\<lparr>s512_state := y\<rparr>) l = cnt512 c l"
  by (simp_all add: ADDINC128_def Let_def cnt512_def)

definition sha512_comp :: "u64 list \<Rightarrow> byte list \<Rightarrow> u64 list" where
  "sha512_comp s b = fips_sha2 Sigma0_512 Sigma1_512 sigma0_512 sigma1_512 K512 80 s (words64_be b)"

lemma length_concat_le64: "length (concat (map le64 W)) = 8 * length W"
  by (induction W) simp_all

lemma Transform512:
  assumes "length (s512_buffer c) = 128"
  shows "s512_state (SHA512_Transform c d) = sha512_comp (s512_state c) d"
    "length (s512_buffer (SHA512_Transform c d)) = 128"
    "cnt512 (SHA512_Transform c d) l = cnt512 c l"
  using sha512_rolled_fips [of "words64_le (s512_buffer c)" "s512_state c" "words64_be d"] assms
  by (auto simp: SHA512_Transform_def sha512_comp_def length_concat_le64)

lemma blocks512:
  assumes "length (s512_buffer c) = 128" "cnt512 c (l)"
  shows "\<exists>c'. SHA512_blocks al c d = (c', leftover 128 d) \<and> length (s512_buffer c') = 128 \<and>
    s512_state c' = absorb 128 sha512_comp (s512_state c) d \<and>
    cnt512 c' (l + length d div 128 * 128)"
  using assms
proof (induction al c d arbitrary: l rule: SHA512_blocks.induct)
  case (1 al c d)
  show ?case
  proof (cases "128 \<le> length d")
    case True
    define c1 where "c1 = (if al then SHA512_Transform c (take 128 d)
      else let c = c\<lparr>s512_buffer := take 128 d\<rparr> in SHA512_Transform c (s512_buffer c))"
    define c2 where "c2 = ADDINC128 (push_bit 3 128) c1"
    have c1: "length (s512_buffer c1) = 128" "s512_state c1 = sha512_comp (s512_state c) (take 128 d)"
      "cnt512 c1 (l)"
      using "1.prems" True by (auto simp: c1_def Transform512)
    have "length (s512_buffer c2) = 128" "cnt512 c2 ((l + 128))"
      using c1 ADDINC128_count [OF c1(3), of 128] by (simp_all add: c2_def)
    moreover have "length d div 128 = Suc ((length d - 128) div 128)" using True by (simp add: le_div_geq)
    ultimately show ?thesis
      using True c1 "1.IH" [OF True c1_def c2_def, of "l + 128"]
      unfolding SHA512_blocks.simps [of al c d] c1_def [symmetric]
      by (simp add: Let_def c2_def leftover_drop absorb_step add.assoc)
  next
    case False
    then show ?thesis
      using "1.prems" by (simp add: SHA512_blocks.simps [of al c d] absorb_short leftover_short)
  qed
qed


definition s512_rep :: "u64 list \<Rightarrow> SHA512_CTX \<Rightarrow> byte list \<Rightarrow> bool" where
  "s512_rep iv c m \<longleftrightarrow> buffered 128 sha512_comp iv (s512_state c) (s512_buffer c) m \<and>
     cnt512 c (length m)"

lemma used512: "s512_rep iv c m \<Longrightarrow> unat (drop_bit 3 (s512_bitcount0 c) mod 128) = length m mod 128"
  using used_space [of 128 "length m"] by (simp add: s512_rep_def cnt512_def)

text \<open>The rest of an update, once the buffer holds no pending bytes.\<close>

lemma rest512:
  assumes "length (s512_buffer c) = 128" "cnt512 c ((length M - length d))"
    "absorb 128 sha512_comp iv M = absorb 128 sha512_comp (s512_state c) d" "leftover 128 M = leftover 128 d"
    "length d \<le> length M"
  shows "\<exists>c'. (let (c, data) = SHA512_blocks al c d in
      if length data > 0 then do {
        buf \<leftarrow> put (s512_buffer c) 0 data;
        Some (ADDINC128 (push_bit 3 (word_of_nat (length data))) (c\<lparr>s512_buffer := buf\<rparr>))
      } else Some c) = Some c' \<and> s512_rep iv c' M"
proof -
  obtain c1 where c1: "SHA512_blocks al c d = (c1, leftover 128 M)" "length (s512_buffer c1) = 128"
      "s512_state c1 = absorb 128 sha512_comp iv M"
      "cnt512 c1 ((length M - length d + length d div 128 * 128))"
    using blocks512 [OF assms(1,2), of al d] assms(3,4) by auto
  obtain b where b: "put (s512_buffer c1) 0 (leftover 128 M) = Some b"
      "buffered 128 sha512_comp iv (absorb 128 sha512_comp iv M) b M"
    using buffered_tail [OF c1(2), of M sha512_comp iv] by auto
  have lo: "length (leftover 128 M) = length d mod 128" using assms(4) by simp
  have ln: "length M - length d + length d div 128 * 128 + length d mod 128 = length M"
    using assms(5) div_mult_mod_eq [of "length d" 128] by linarith
  have "length d mod 128 < 2 ^ 61" by (rule less_trans [OF mod_less_divisor]) simp_all
  then have bits: "cnt512 (ADDINC128 (push_bit 3 (word_of_nat (length d mod 128))) (c1\<lparr>s512_buffer := x\<rparr>)) (length M)" for x
    using ADDINC128_count [of "c1\<lparr>s512_buffer := x\<rparr>" "length M - length d + length d div 128 * 128" "length d mod 128"] c1(4) ln by simp
  show ?thesis
  proof (cases "length d mod 128 = 0")
    case True
    then have "leftover 128 M = []" using lo by (metis length_0_conv)
    moreover have "length M mod 128 = 0" using lo True by simp
    moreover have "cnt512 c1 (length M)" using c1(4) ln True by simp
    ultimately show ?thesis using c1(1,2,3) by (simp add: s512_rep_def buffered_def)
  next
    case False
    then have "leftover 128 M \<noteq> []" using lo by (metis list.size(3))
    then show ?thesis using c1 bits b lo by (simp add: s512_rep_def)
  qed
qed

lemma update512_rep:
  assumes rep: "s512_rep iv c m" and len: "length d < 2 ^ 61"
  shows "\<exists>c'. SHA512_Update addr c d = Some c' \<and> s512_rep iv c' (m @ d)"
proof -
  define r where "r = length m mod 128"
  have used: "unat (drop_bit 3 (s512_bitcount0 c) mod 128) = r" using used512 [OF rep] by (simp add: r_def)
  have b: "buffered 128 sha512_comp iv (s512_state c) (s512_buffer c) m" "length (s512_buffer c) = 128"
    "s512_state c = absorb 128 sha512_comp iv m" "take r (s512_buffer c) = leftover 128 m"
    "cnt512 c (length m)"
    using rep by (simp_all add: s512_rep_def buffered_def r_def)
  consider "d = []" | "d \<noteq> []" "0 < r" "r + length d < 128" | "d \<noteq> []" "0 < r" "128 \<le> r + length d" | "d \<noteq> []" "r = 0"
    by linarith
  then show ?thesis
  proof cases
    case 1
    then show ?thesis using rep by (simp add: SHA512_Update_def)
  next
    case 2
    then obtain b' where b': "put (s512_buffer c) r d = Some b'" "buffered 128 sha512_comp iv (s512_state c) b' (m @ d)"
      using buffered_short [OF b(1), of d] by (auto simp: r_def)
    have bits: "cnt512 (ADDINC128 (push_bit 3 (word_of_nat (length d))) (c\<lparr>s512_buffer := x\<rparr>)) (length (m @ d))" for x
      using b(5) ADDINC128_count [of "c\<lparr>s512_buffer := x\<rparr>" "length m" "length d"] len by simp
    have "length d < 128 - r" using 2 by linarith
    then show ?thesis
      using 2 b' bits by (simp add: SHA512_Update_def Let_def used s512_rep_def)
  next
    case 3
    define B where "B = leftover 128 m @ take (128 - r) d"
    define c1 where "c1 = SHA512_Transform (ADDINC128 (push_bit 3 (word_of_nat (128 - r))) (c\<lparr>s512_buffer := B\<rparr>)) B"
    have r: "r < 128" by (simp add: r_def)
    then have B: "length B = 128" "put (s512_buffer c) r (take (128 - r) d) = Some B"
      using b 3 by (simp_all add: B_def put_ok) (simp add: r_def)
    have eq: "length m + (128 - r) = length (m @ d) - length (drop (128 - r) d)" using 3 r by simp
    have c1: "length (s512_buffer c1) = 128" "s512_state c1 = sha512_comp (absorb 128 sha512_comp iv m) B"
      "cnt512 c1 ((length (m @ d) - length (drop (128 - r) d)))"
      using B b ADDINC128_count [of "c\<lparr>s512_buffer := B\<rparr>" "length m" "128 - r"] r unfolding eq [symmetric]
      by (simp_all add: c1_def Transform512)
    have "absorb 128 sha512_comp iv (m @ d) = absorb 128 sha512_comp (s512_state c1) (drop (128 - r) d)"
      "leftover 128 (m @ d) = leftover 128 (drop (128 - r) d)"
      using fill_full(1) [of 128 m d sha512_comp iv] fill_full(2) [of 128 m d] 3 c1 by (simp_all add: r_def B_def)
    moreover have "\<not> length d < 128 - r" using 3 by linarith
    ultimately show ?thesis
      using rest512 [OF c1(1,3), of iv] 3 B by (simp add: SHA512_Update_def Let_def used c1_def)
  next
    case 4
    then have dvd: "128 dvd length m" by (simp add: r_def mod_eq_0_iff_dvd)
    have ab: "absorb 128 sha512_comp iv (m @ d) = absorb 128 sha512_comp (s512_state c) d"
      "leftover 128 (m @ d) = leftover 128 d"
      using dvd absorb_append [of 128 m] leftover_append [of 128 m d] b by (simp_all add: leftover_dvd)
    have bits: "cnt512 c ((length (m @ d) - length d))" using b(5) by simp
    from rest512 [OF b(2) bits ab, of "addr mod 8 = 0"] show ?thesis
      using 4 by (simp add: SHA512_Update_def used)
  qed
qed




definition enc128 :: "nat \<Rightarrow> byte list" where
  "enc128 k = be64 (word_of_nat (k div 2 ^ 64)) @ be64 (word_of_nat k)"

definition sha512_final_state :: "u64 list \<Rightarrow> byte list \<Rightarrow> u64 list" where
  "sha512_final_state iv m = absorb 128 sha512_comp iv (md_pad 128 16 enc128 m)"

lemma length_sha512_comp: "length (sha512_comp s b) = 8"
  by (simp add: sha512_comp_def fips_sha2_def del: upt.simps)

lemma last512_rep:
  assumes rep: "s512_rep iv c m"
  shows "\<exists>c'. SHA512_Last c = Some c' \<and> s512_state c' = sha512_final_state iv m"
proof -
  define r where "r = length m mod 128"
  define E1 E0 where "E1 = be64 (s512_bitcount1 c)" and "E0 = be64 (s512_bitcount0 c)"
  define G where "G = sha512_final_state iv m"
  have r: "r < 128" "length (leftover 128 m) = r" by (simp_all add: r_def)
  have used: "unat (drop_bit 3 (s512_bitcount0 c) mod 128) = r" using used512 [OF rep] by (simp add: r_def)
  have b: "length (s512_buffer c) = 128" "s512_state c = absorb 128 sha512_comp iv m"
    "take r (s512_buffer c) = leftover 128 m" and E: "E1 @ E0 = enc128 (8 * length m)" "length E1 = 8" "length E0 = 8"
    using rep by (simp_all add: s512_rep_def cnt512_def buffered_def r_def E1_def E0_def enc128_def)
  have en: "length (enc128 k) = 16" for k by (simp add: enc128_def)
  obtain Y where Y: "s512_buffer c = leftover 128 m @ Y" "length Y = 128 - r"
    using b r by (metis append_take_drop_id length_drop)
  show ?thesis
  proof (cases "r < 112")
    case True
    define B where "B = leftover 128 m @ [0x80] @ replicate (111 - r) 0"
    have B: "length B = 112" using True r by (simp add: B_def)
    have "G = sha512_comp (absorb 128 sha512_comp iv m) (B @ E1 @ E0)"
      using pad_one [of m 128 16 enc128 sha512_comp iv] True en
      by (simp add: G_def sha512_final_state_def E r_def B_def)
    moreover have "put (B @ drop (112 - r) Y) 112 E1 = Some (B @ E1 @ drop (120 - r) Y)"
      "put (B @ E1 @ drop (120 - r) Y) 120 E0 = Some (B @ E1 @ E0)"
      using put_at [OF B, of E1 "drop (112 - r) Y"] put_at [of "B @ E1" 120 E0 "drop (120 - r) Y"] Y(2) E(2,3) r True B
      by simp_all
    moreover have "Suc (111 - r) = 112 - r" using True by simp
    then have "put (s512_buffer c) r [0x80] = Some ((leftover 128 m @ [0x80]) @ drop 1 Y)"
      "put ((leftover 128 m @ [0x80]) @ drop 1 Y) (Suc r) (replicate (111 - r) 0) = Some (B @ drop (112 - r) Y)"
      using put_at [of "leftover 128 m" r "[0x80]" Y] put_at [of "leftover 128 m @ [0x80]" "Suc r" "replicate (111 - r) 0" "drop 1 Y"]
        r True Y by (simp_all add: B_def)
    moreover have "put (s512_buffer c) 0 (replicate 112 0) \<bind> (\<lambda>b. put b 0 [0x80]) = Some (B @ drop (112 - r) Y)" if "r = 0"
      using that Y r by (simp add: put_ok B_def)
    ultimately show ?thesis
      using True b(1,2) B E(2,3)
      by (cases "r = 0") (auto simp: SHA512_Last_def Let_def used Transform512 E1_def [symmetric] E0_def [symmetric]
          G_def [symmetric] bind_eq_Some_conv)
  next
    case False
    define B where "B = leftover 128 m @ [0x80] @ replicate (127 - r) 0"
    have B: "length B = 128" using r by (simp add: B_def)
    have "G = sha512_comp (sha512_comp (absorb 128 sha512_comp iv m) B) (replicate 112 0 @ E1 @ E0)"
      using pad_two [of 128 16 m enc128 sha512_comp iv] False en
      by (simp add: G_def sha512_final_state_def E r_def B_def)
    moreover have "put (s512_buffer c) r [0x80] = Some ((leftover 128 m @ [0x80]) @ drop 1 Y)"
      "put ((leftover 128 m @ [0x80]) @ drop 1 Y) (Suc r) (replicate (127 - r) 0) = Some B"
      using put_at [of "leftover 128 m" r "[0x80]" Y] put_at [of "leftover 128 m @ [0x80]" "Suc r" "replicate (127 - r) 0" "drop 1 Y"]
        r Y by (simp_all add: B_def)
    moreover have "(leftover 128 m @ [0x80]) @ drop 1 Y = B" if "r = 127"
      using that Y by (simp add: B_def)
    ultimately show ?thesis
      using False b(1,2) B E(2,3) r(1)
      by (auto simp: SHA512_Last_def Let_def used Transform512 E1_def [symmetric] E0_def [symmetric]
          G_def [symmetric] put_ok)
  qed
qed

lemma final512_rep:
  assumes "s512_rep iv c m" "length iv = 8"
  shows "\<exists>c'. SHA512_Final True c = Some (concat (map be64 (sha512_final_state iv m)), c') \<and> length (s512_buffer c') = 128"
    "\<exists>c'. SHA384_Final True c = Some (concat (map be64 (take 6 (sha512_final_state iv m))), c') \<and> length (s512_buffer c') = 128"
proof -
  obtain c1 where c1: "SHA512_Last c = Some c1" "s512_state c1 = sha512_final_state iv m"
    using last512_rep [OF assms(1)] by blast
  have "length (sha512_final_state iv m) = 8"
    unfolding sha512_final_state_def using assms(2) length_sha512_comp by (intro length_absorb) simp_all
  then have "map (\<lambda>i. be64 (s512_state c1 ! i)) [0..<8] = map be64 (sha512_final_state iv m)"
    "map (\<lambda>i. be64 (s512_state c1 ! i)) [0..<6] = map be64 (take 6 (sha512_final_state iv m))"
    using map_nth_take [of _ "sha512_final_state iv m" be64] c1(2) by simp_all
  then show "\<exists>c'. SHA512_Final True c = Some (concat (map be64 (sha512_final_state iv m)), c') \<and> length (s512_buffer c') = 128"
    "\<exists>c'. SHA384_Final True c = Some (concat (map be64 (take 6 (sha512_final_state iv m))), c') \<and> length (s512_buffer c') = 128"
    unfolding SHA512_Final_def SHA384_Final_def Let_def c1(1) by simp_all
qed

section \<open>Test vectors\<close>

lemma sha256_abc:
  "sha256_comp sha256_initial_hash_value ([0x61, 0x62, 0x63, 0x80] @ replicate 52 0 @ [0, 0, 0, 0, 0, 0, 0, 24]) =
    [0xba7816bf, 0x8f01cfea, 0x414140de, 0x5dae2223, 0xb00361a3, 0x96177a9c, 0xb410ff61, 0xf20015ad]"
proof -
  have w: "words_be ([0x61, 0x62, 0x63, 0x80] @ replicate 52 0 @ [0, 0, 0, 0, 0, 0, 0, 24]) =
      [0x61626380, 0, 0, 0, 0, 0, 0, 0, 0, 0, 0, 0, 0, 0, 0, 24]"
    by code_simp
  have z: "replicate 16 0 = [0, 0, 0, 0, 0, 0, 0, 0, 0, 0, 0, 0, 0, 0, 0, 0 :: u32]"
    by code_simp
  have i: "load_regs sha256_initial_hash_value = (0x6a09e667, 0xbb67ae85, 0x3c6ef372, 0xa54ff53a, 0x510e527f, 0x9b05688c, 0x1f83d9ab, 0x5be0cd19)"
    by (simp add: load_regs_def sha256_initial_hash_value_def)
  have "fst (sha256_rolled sha256_initial_hash_value (replicate 16 0) [0x61626380, 0, 0, 0, 0, 0, 0, 0, 0, 0, 0, 0, 0, 0, 0, 24])
      = [0xba7816bf, 0x8f01cfea, 0x414140de, 0x5dae2223, 0xb00361a3, 0x96177a9c, 0xb410ff61, 0xf20015ad]"
    unfolding sha256_rolled_def two_loops unfolding i z fold_by_16 SHA256_abc_0 SHA256_abc_1 SHA256_abc_2 SHA256_abc_3
    by (simp add: sha256_initial_hash_value_def)
  moreover obtain W' where "sha256_rolled sha256_initial_hash_value (replicate 16 0) [0x61626380, 0, 0, 0, 0, 0, 0, 0, 0, 0, 0, 0, 0, 0, 0, 24]
      = (sha256_comp sha256_initial_hash_value ([0x61, 0x62, 0x63, 0x80] @ replicate 52 0 @ [0, 0, 0, 0, 0, 0, 0, 24]), W')"
    using sha256_rolled_fips [of "replicate 16 0"] unfolding sha256_comp_def w by fastforce
  ultimately show ?thesis by (simp only: fst_conv)
qed

lemma sha256_digest_abc: "sha256_digest sha256_initial_hash_value 32 [0x61, 0x62, 0x63] =
    [0xba, 0x78, 0x16, 0xbf, 0x8f, 0x01, 0xcf, 0xea, 0x41, 0x41, 0x40, 0xde, 0x5d, 0xae, 0x22, 0x23,
     0xb0, 0x03, 0x61, 0xa3, 0x96, 0x17, 0x7a, 0x9c, 0xb4, 0x10, 0xff, 0x61, 0xf2, 0x00, 0x15, 0xad]"
proof -
  have p: "md_pad 64 8 (\<lambda>k. be64 (word_of_nat k)) [0x61, 0x62, 0x63] =
      [0x61, 0x62, 0x63, 0x80] @ replicate 52 0 @ [0, 0, 0, 0, 0, 0, 0, 24]"
    by (simp add: md_pad_def be64_def le64_def)
  have l: "length ([0x61, 0x62, 0x63, 0x80] @ replicate 52 0 @ [0, 0, 0, 0, 0, 0, 0, 24 :: byte]) = 64" by simp
  have "absorb 64 sha256_comp sha256_initial_hash_value (md_pad 64 8 (\<lambda>k. be64 (word_of_nat k)) [0x61, 0x62, 0x63]) =
      [0xba7816bf, 0x8f01cfea, 0x414140de, 0x5dae2223, 0xb00361a3, 0x96177a9c, 0xb410ff61, 0xf20015ad]"
    unfolding p using sha256_abc l by (simp add: absorb_step absorb_short)
  then show ?thesis
    unfolding sha256_digest_def by (simp add: be32_def le32_def)
qed

lemma sha512_abc:
  "sha512_comp sha512_initial_hash_value ([0x61, 0x62, 0x63, 0x80] @ replicate 108 0 @ [0, 0, 0, 0, 0, 0, 0, 0, 0, 0, 0, 0, 0, 0, 0, 24]) =
    [0xddaf35a193617aba, 0xcc417349ae204131, 0x12e6fa4e89a97ea2, 0xa9eeee64b55d39a, 0x2192992a274fc1a8, 0x36ba3c23a3feebbd, 0x454d4423643ce80e, 0x2a9ac94fa54ca49f]"
proof -
  have w: "words64_be ([0x61, 0x62, 0x63, 0x80] @ replicate 108 0 @ [0, 0, 0, 0, 0, 0, 0, 0, 0, 0, 0, 0, 0, 0, 0, 24]) =
      [0x6162638000000000, 0, 0, 0, 0, 0, 0, 0, 0, 0, 0, 0, 0, 0, 0, 24]"
    by code_simp
  have z: "replicate 16 0 = [0, 0, 0, 0, 0, 0, 0, 0, 0, 0, 0, 0, 0, 0, 0, 0 :: u64]"
    by code_simp
  have i: "load_regs sha512_initial_hash_value = (0x6a09e667f3bcc908, 0xbb67ae8584caa73b, 0x3c6ef372fe94f82b, 0xa54ff53a5f1d36f1, 0x510e527fade682d1, 0x9b05688c2b3e6c1f, 0x1f83d9abfb41bd6b, 0x5be0cd19137e2179)"
    by (simp add: load_regs_def sha512_initial_hash_value_def)
  have "fst (sha512_rolled sha512_initial_hash_value (replicate 16 0) [0x6162638000000000, 0, 0, 0, 0, 0, 0, 0, 0, 0, 0, 0, 0, 0, 0, 24])
      = [0xddaf35a193617aba, 0xcc417349ae204131, 0x12e6fa4e89a97ea2, 0xa9eeee64b55d39a, 0x2192992a274fc1a8, 0x36ba3c23a3feebbd, 0x454d4423643ce80e, 0x2a9ac94fa54ca49f]"
    unfolding sha512_rolled_def two_loops unfolding i z fold_by_16 SHA512_abc_0 SHA512_abc_1 SHA512_abc_2 SHA512_abc_3 SHA512_abc_4
    by (simp add: sha512_initial_hash_value_def)
  moreover obtain W' where "sha512_rolled sha512_initial_hash_value (replicate 16 0) [0x6162638000000000, 0, 0, 0, 0, 0, 0, 0, 0, 0, 0, 0, 0, 0, 0, 24]
      = (sha512_comp sha512_initial_hash_value ([0x61, 0x62, 0x63, 0x80] @ replicate 108 0 @ [0, 0, 0, 0, 0, 0, 0, 0, 0, 0, 0, 0, 0, 0, 0, 24]), W')"
    using sha512_rolled_fips [of "replicate 16 0"] unfolding sha512_comp_def w by fastforce
  ultimately show ?thesis by (simp only: fst_conv)
qed

lemma sha512_digest_abc: "concat (map be64 (sha512_final_state sha512_initial_hash_value [0x61, 0x62, 0x63])) =
    [0xdd, 0xaf, 0x35, 0xa1, 0x93, 0x61, 0x7a, 0xba, 0xcc, 0x41, 0x73, 0x49, 0xae, 0x20, 0x41, 0x31,
     0x12, 0xe6, 0xfa, 0x4e, 0x89, 0xa9, 0x7e, 0xa2, 0x0a, 0x9e, 0xee, 0xe6, 0x4b, 0x55, 0xd3, 0x9a,
     0x21, 0x92, 0x99, 0x2a, 0x27, 0x4f, 0xc1, 0xa8, 0x36, 0xba, 0x3c, 0x23, 0xa3, 0xfe, 0xeb, 0xbd,
     0x45, 0x4d, 0x44, 0x23, 0x64, 0x3c, 0xe8, 0x0e, 0x2a, 0x9a, 0xc9, 0x4f, 0xa5, 0x4c, 0xa4, 0x9f]"
proof -
  have p: "md_pad 128 16 enc128 [0x61, 0x62, 0x63] =
      [0x61, 0x62, 0x63, 0x80] @ replicate 108 0 @ [0, 0, 0, 0, 0, 0, 0, 0, 0, 0, 0, 0, 0, 0, 0, 24]"
    by (simp add: md_pad_def enc128_def be64_def le64_def)
  have l: "length ([0x61, 0x62, 0x63, 0x80] @ replicate 108 0 @ [0, 0, 0, 0, 0, 0, 0, 0, 0, 0, 0, 0, 0, 0, 0, 24 :: byte]) = 128" by simp
  have "absorb 128 sha512_comp sha512_initial_hash_value (md_pad 128 16 enc128 [0x61, 0x62, 0x63]) =
      [0xddaf35a193617aba, 0xcc417349ae204131, 0x12e6fa4e89a97ea2, 0xa9eeee64b55d39a, 0x2192992a274fc1a8, 0x36ba3c23a3feebbd, 0x454d4423643ce80e, 0x2a9ac94fa54ca49f]"
    unfolding p using sha512_abc l by (simp add: absorb_step absorb_short)
  then show ?thesis
    unfolding sha512_final_state_def by (simp add: be64_def le64_def)
qed

section \<open>The interface, interpreted on the SHA-2 family\<close>

text \<open>\<open>A\<close> assigns an address to every piece, so the results hold for every alignment.\<close>

lemma s256_rep_init:
  "s256_rep sha256_initial_hash_value (SHA256_Init c) []" "s256_rep sha224_initial_hash_value (SHA224_Init c) []"
  by (simp_all add: s256_rep_def SHA256_Init_def SHA224_Init_def)

lemma s512_rep_init:
  "s512_rep sha512_initial_hash_value (SHA512_Init c) []" "s512_rep sha384_initial_hash_value (SHA384_Init c) []"
  by (simp_all add: s512_rep_def cnt512_def SHA512_Init_def SHA384_Init_def)

lemma length_initial:
  "length sha256_initial_hash_value = 8" "length sha224_initial_hash_value = 8"
  "length sha512_initial_hash_value = 8" "length sha384_initial_hash_value = 8"
  by (simp_all add: sha256_initial_hash_value_def sha224_initial_hash_value_def sha512_initial_hash_value_def
      sha384_initial_hash_value_def)

interpretation sha256: stream_hash "\<lambda>c. length (s256_buffer c) = 64" SHA256_Init "\<lambda>c d. SHA256_Update (A d) c d"
  "SHA256_Final True" "s256_rep sha256_initial_hash_value" "\<lambda>n. n < 2 ^ 64" "sha256_digest sha256_initial_hash_value 32"
  for A
  by unfold_locales (simp_all add: s256_rep_init update256_rep SHA256_Final_def final256_rep length_initial)

interpretation sha224: stream_hash "\<lambda>c. length (s256_buffer c) = 64" SHA224_Init "\<lambda>c d. SHA224_Update (A d) c d"
  "SHA224_Final True" "s256_rep sha224_initial_hash_value" "\<lambda>n. n < 2 ^ 64" "sha256_digest sha224_initial_hash_value 28"
  for A
  by unfold_locales (simp_all add: s256_rep_init SHA224_Update_def update256_rep SHA224_Final_def final256_rep length_initial)

definition sha512_digest :: "byte list \<Rightarrow> byte list" where
  "sha512_digest m = concat (map be64 (sha512_final_state sha512_initial_hash_value m))"

definition sha384_digest :: "byte list \<Rightarrow> byte list" where
  "sha384_digest m = concat (map be64 (take 6 (sha512_final_state sha384_initial_hash_value m)))"

interpretation sha512: stream_hash "\<lambda>c. length (s512_buffer c) = 128" SHA512_Init "\<lambda>c d. SHA512_Update (A d) c d"
  "SHA512_Final True" "s512_rep sha512_initial_hash_value" "\<lambda>n. n < 2 ^ 61" sha512_digest
  for A
  by unfold_locales (simp_all add: s512_rep_init update512_rep final512_rep length_initial sha512_digest_def)

interpretation sha384: stream_hash "\<lambda>c. length (s512_buffer c) = 128" SHA384_Init "\<lambda>c d. SHA384_Update (A d) c d"
  "SHA384_Final True" "s512_rep sha384_initial_hash_value" "\<lambda>n. n < 2 ^ 61" sha384_digest
  for A
  by unfold_locales (simp_all add: s512_rep_init SHA384_Update_def update512_rep final512_rep length_initial sha384_digest_def)

section \<open>Properties\<close>

text \<open>
  C10. SHA-256 and SHA-224 are streaming: for every way of cutting a message into pieces, at every address
  (aligned or not), \<open>Init\<close>, one \<open>Update\<close> per piece and \<open>Final\<close> never write outside the context buffer
  and deliver the FIPS 180 digest of the whole message, although the block function destroys the buffer.
\<close>

theorem sha256_stream_correct:
  assumes "length (s256_buffer c) = 64" "\<forall>d \<in> set ds. length d < 2 ^ 64"
  shows "hash_of SHA256_Init (\<lambda>c d. SHA256_Update (A d) c d) (SHA256_Final True) c ds
           = Some (sha256_digest sha256_initial_hash_value 32 (concat ds))
       \<and> hash_of SHA224_Init (\<lambda>c d. SHA224_Update (A d) c d) (SHA224_Final True) c ds
           = Some (sha256_digest sha224_initial_hash_value 28 (concat ds))"
  using sha256.hash_chunks [OF assms, of A] sha224.hash_chunks [OF assms, of A] by blast

text \<open>Witness: the FIPS 180 digest of \<open>abc\<close>, fed in two pieces.\<close>

theorem sha256_stream_correct_witness:
  "hash_of SHA256_Init (\<lambda>c d. SHA256_Update 1 c d) (SHA256_Final True)
     \<lparr>s256_state = [], s256_bitcount = 9, s256_buffer = replicate 64 7\<rparr> [[0x61, 0x62], [0x63]]
   = Some [0xba, 0x78, 0x16, 0xbf, 0x8f, 0x01, 0xcf, 0xea, 0x41, 0x41, 0x40, 0xde, 0x5d, 0xae, 0x22, 0x23,
     0xb0, 0x03, 0x61, 0xa3, 0x96, 0x17, 0x7a, 0x9c, 0xb4, 0x10, 0xff, 0x61, 0xf2, 0x00, 0x15, 0xad]"
  using sha256_stream_correct [of "\<lparr>s256_state = [], s256_bitcount = 9, s256_buffer = replicate 64 7\<rparr>"
      "[[0x61, 0x62], [0x63]]" "\<lambda>_. 1"] sha256_digest_abc by simp

text \<open>
  C19. SHA-512 and SHA-384 are streaming in the same sense, for pieces of less than \<open>2 ^ 61\<close> bytes, with the
  128-bit bit count kept in two words with an explicit carry.
\<close>

theorem sha512_stream_correct:
  assumes "length (s512_buffer c) = 128" "\<forall>d \<in> set ds. length d < 2 ^ 61"
  shows "hash_of SHA512_Init (\<lambda>c d. SHA512_Update (A d) c d) (SHA512_Final True) c ds
           = Some (sha512_digest (concat ds))
       \<and> hash_of SHA384_Init (\<lambda>c d. SHA384_Update (A d) c d) (SHA384_Final True) c ds
           = Some (sha384_digest (concat ds))"
  using sha512.hash_chunks [OF assms, of A] sha384.hash_chunks [OF assms, of A] by blast

theorem sha512_stream_correct_witness:
  "hash_of SHA512_Init (\<lambda>c d. SHA512_Update 1 c d) (SHA512_Final True)
     \<lparr>s512_state = [], s512_bitcount0 = 9, s512_bitcount1 = 9, s512_buffer = replicate 128 7\<rparr> [[0x61, 0x62], [0x63]]
   = Some [0xdd, 0xaf, 0x35, 0xa1, 0x93, 0x61, 0x7a, 0xba, 0xcc, 0x41, 0x73, 0x49, 0xae, 0x20, 0x41, 0x31,
     0x12, 0xe6, 0xfa, 0x4e, 0x89, 0xa9, 0x7e, 0xa2, 0x0a, 0x9e, 0xee, 0xe6, 0x4b, 0x55, 0xd3, 0x9a,
     0x21, 0x92, 0x99, 0x2a, 0x27, 0x4f, 0xc1, 0xa8, 0x36, 0xba, 0x3c, 0x23, 0xa3, 0xfe, 0xeb, 0xbd,
     0x45, 0x4d, 0x44, 0x23, 0x64, 0x3c, 0xe8, 0x0e, 0x2a, 0x9a, 0xc9, 0x4f, 0xa5, 0x4c, 0xa4, 0x9f]"
  using sha512_stream_correct [of "\<lparr>s512_state = [], s512_bitcount0 = 9, s512_bitcount1 = 9, s512_buffer = replicate 128 7\<rparr>"
      "[[0x61, 0x62], [0x63]]" "\<lambda>_. 1"] sha512_digest_abc by (simp add: sha512_digest_def)

end
