(* ===== verification/Hmac.thy ===== *)
theory Hmac
  imports Hmac_Core Hash_MD Hash_MD2 Hash_SHA1 Hash_RMD160 Hash_SHA2_Stream
begin

text \<open>
  HMAC, \<^verbatim>\<open>src/libc/hash/hmac.c\<close>, a client of the streaming hashes through its table of function pointers.
  The caller's buffers are byte lists; a list may be longer than the \<open>dlen\<close> the caller passes.  The
  context array \<open>c\<close> and the digest array \<open>d\<close> live on the stack: their initial contents are parameters.
\<close>

datatype hmac_alg = MD2 | MD4 | MD5 | RMD160 | SHA1 | SHA224 | SHA256 | SHA384 | SHA512

definition hmacs :: "(string \<times> hmac_alg) list" where
  "hmacs = [(''md2'', MD2), (''md4'', MD4), (''md5'', MD5), (''rmd160'', RMD160), (''sha1'', SHA1),
     (''sha224'', SHA224), (''sha256'', SHA256), (''sha384'', SHA384), (''sha512'', SHA512)]"

fun hmac_scan :: "(string \<times> hmac_alg) list \<Rightarrow> string \<Rightarrow> hmac_alg option" where
  "hmac_scan [] name = None"
| "hmac_scan ((n, a) # es) name = (if n \<noteq> name then hmac_scan es name else Some a)"

definition hmac_find :: "string \<Rightarrow> hmac_alg option" where
  "hmac_find name = hmac_scan hmacs name"

fun hmac_digsize :: "hmac_alg \<Rightarrow> nat" where
  "hmac_digsize MD2 = 16" | "hmac_digsize MD4 = 16" | "hmac_digsize MD5 = 16"
| "hmac_digsize RMD160 = 20" | "hmac_digsize SHA1 = 20" | "hmac_digsize SHA224 = 28"
| "hmac_digsize SHA256 = 32" | "hmac_digsize SHA384 = 48" | "hmac_digsize SHA512 = 64"

fun hmac_blocksize :: "hmac_alg \<Rightarrow> nat" where
  "hmac_blocksize MD2 = 16" | "hmac_blocksize MD4 = 64" | "hmac_blocksize MD5 = 64"
| "hmac_blocksize RMD160 = 64" | "hmac_blocksize SHA1 = 64" | "hmac_blocksize SHA224 = 64"
| "hmac_blocksize SHA256 = 64" | "hmac_blocksize SHA384 = 128" | "hmac_blocksize SHA512 = 128"

definition ops :: "hmac_alg \<Rightarrow> ('c \<Rightarrow> 'c) \<Rightarrow> ('c \<Rightarrow> byte list \<Rightarrow> 'c option) \<Rightarrow> ('c \<Rightarrow> (byte list \<times> 'c) option) \<Rightarrow> 'c hmac_ops" where
  "ops a i u f = \<lparr>digsize = hmac_digsize a, blocksize = hmac_blocksize a, h_init = i, h_update = u, h_final = f\<rparr>"

text \<open>The views of the stack array \<^verbatim>\<open>c[32]\<close> as each type of context.\<close>

record hmac_stack =
  as_md2 :: MD2_CTX
  as_md :: md_ctx
  as_rmd :: RMD160_CTX
  as_sha1 :: SHA1_CTX
  as_sha256 :: SHA256_CTX
  as_sha512 :: SHA512_CTX

definition hmac ::
  "(byte list \<Rightarrow> nat) \<Rightarrow> hmac_stack \<Rightarrow> byte list \<Rightarrow> string \<Rightarrow> byte list \<Rightarrow> byte list \<Rightarrow> byte list \<Rightarrow> nat
    \<Rightarrow> (int \<times> byte list) option" where
  "hmac A r d name key text digest dlen = (case hmac_find name of
     None \<Rightarrow> Some (- 1, digest)
   | Some MD2 \<Rightarrow> hmac_with (ops MD2 MD2Init (\<lambda>c x. MD2Update c x (word_of_nat (length x))) MD2Final) (as_md2 r) d key text digest dlen
   | Some MD4 \<Rightarrow> hmac_with (ops MD4 MD4Init (\<lambda>c x. MD4Update c x (word_of_nat (length x))) MD4Final) (as_md r) d key text digest dlen
   | Some MD5 \<Rightarrow> hmac_with (ops MD5 MD5Init (\<lambda>c x. MD5Update c x (word_of_nat (length x))) MD5Final) (as_md r) d key text digest dlen
   | Some RMD160 \<Rightarrow> hmac_with (ops RMD160 RMD160Init (\<lambda>c x. RMD160Update c x (word_of_nat (length x))) (RMD160Final True)) (as_rmd r) d key text digest dlen
   | Some SHA1 \<Rightarrow> hmac_with (ops SHA1 SHA1Init (\<lambda>c x. SHA1Update c x (word_of_nat (length x))) (SHA1Final True)) (as_sha1 r) d key text digest dlen
   | Some SHA224 \<Rightarrow> hmac_with (ops SHA224 SHA224_Init (\<lambda>c x. SHA224_Update (A x) c x) (SHA224_Final True)) (as_sha256 r) d key text digest dlen
   | Some SHA256 \<Rightarrow> hmac_with (ops SHA256 SHA256_Init (\<lambda>c x. SHA256_Update (A x) c x) (SHA256_Final True)) (as_sha256 r) d key text digest dlen
   | Some SHA384 \<Rightarrow> hmac_with (ops SHA384 SHA384_Init (\<lambda>c x. SHA384_Update (A x) c x) (SHA384_Final True)) (as_sha512 r) d key text digest dlen
   | Some SHA512 \<Rightarrow> hmac_with (ops SHA512 SHA512_Init (\<lambda>c x. SHA512_Update (A x) c x) (SHA512_Final True)) (as_sha512 r) d key text digest dlen)"

section \<open>The table entries as instances of the interface\<close>

fun hmac_H :: "hmac_alg \<Rightarrow> byte list \<Rightarrow> byte list" where
  "hmac_H MD2 = md2_digest"
| "hmac_H MD4 = md_digest MD4Transform md_iv"
| "hmac_H MD5 = md_digest MD5Transform md_iv"
| "hmac_H RMD160 = rmd_digest rmd_iv"
| "hmac_H SHA1 = sha1_digest sha1_iv"
| "hmac_H SHA224 = sha256_digest sha224_initial_hash_value 28"
| "hmac_H SHA256 = sha256_digest sha256_initial_hash_value 32"
| "hmac_H SHA384 = sha384_digest"
| "hmac_H SHA512 = sha512_digest"

definition stack_ok :: "hmac_stack \<Rightarrow> bool" where
  "stack_ok r \<longleftrightarrow> length (buffer (as_md r)) = 64 \<and> length (rmd_buffer (as_rmd r)) = 64 \<and>
     length (sha1_buffer (as_sha1 r)) = 64 \<and> length (s256_buffer (as_sha256 r)) = 64 \<and>
     length (s512_buffer (as_sha512 r)) = 128"

lemma length_concat_map: "(\<And>x. length (f x) = n) \<Longrightarrow> length (concat (map f xs)) = n * length xs"
  by (induction xs) simp_all

lemma absorb_inv:
  "P s \<Longrightarrow> (\<And>s b. P s \<Longrightarrow> length b = n \<Longrightarrow> P (f s b)) \<Longrightarrow> P (absorb n f s m)"
proof (induction n f s m rule: absorb.induct)
  case (1 n f s xs)
  then show ?case by (subst absorb.simps) (simp add: min_def)
qed

lemma length_md2_rounds: "length (snd (fold md2_round js tX)) = length (snd tX)"
  by (induction js arbitrary: tX) (simp_all add: md2_round_def Let_def case_prod_unfold)

lemma length_md2_comp:
  "length (fst s) = 16 \<Longrightarrow> length (snd s) = 16 \<Longrightarrow> length b = 16 \<Longrightarrow>
     length (fst (md2_comp s b)) = 16 \<and> length (snd (md2_comp s b)) = 16"
  by (simp add: md2_comp_def case_prod_unfold length_md2_rounds del: upt.simps)

lemma length_md2_digest: "length (md2_digest m) = 16"
proof -
  have *: "length (fst (absorb 16 md2_comp md2_iv xs)) = 16 \<and> length (snd (absorb 16 md2_comp md2_iv xs)) = 16" for xs
    by (rule absorb_inv) (simp_all add: md2_iv_def length_md2_comp)
  then show ?thesis unfolding md2_digest_def Let_def using length_md2_comp by blast
qed

lemma length_digests [simp]:
  "length (hmac_H a m) = hmac_digsize a"
proof (cases a)
  case MD2
  then show ?thesis by (simp add: length_md2_digest)
next
  case SHA512
  then show ?thesis by (simp add: sha512_digest_def sha512_final_state_def length_concat_map [of _ 8] length_absorb [of _ 8] length_sha512_comp length_initial)
next
  case SHA384
  then show ?thesis by (simp add: sha384_digest_def sha512_final_state_def length_concat_map [of _ 8] length_absorb [of _ 8] length_sha512_comp length_initial)
next
  case SHA256
  then show ?thesis by (simp add: sha256_digest_def length_concat_map [of _ 4] length_absorb [of _ 8] length_sha256_comp length_initial)
next
  case SHA224
  then show ?thesis by (simp add: sha256_digest_def length_concat_map [of _ 4] length_absorb [of _ 8] length_sha256_comp length_initial)
next
  case SHA1
  then show ?thesis by (simp add: sha1_digest_def length_concat_map [of _ 4] length_absorb length_SHA1Transform sha1_iv_def)
next
  case RMD160
  then show ?thesis by (simp add: rmd_digest_def length_concat_map [of _ 4] length_absorb length_RMD160Transform rmd_iv_def)
qed (simp_all add: md_digest_def length_concat_map [of _ 4] length_absorb length_transform md_iv_def)

lemmas entry_digest = length_digests [of MD2] length_digests [of MD4] length_digests [of MD5] length_digests [of RMD160]
  length_digests [of SHA1] length_digests [of SHA224] length_digests [of SHA256] length_digests [of SHA384] length_digests [of SHA512]

interpretation hmac_md2: hmac_hash "\<lambda>_. True" MD2Init "\<lambda>c d. MD2Update c d (word_of_nat (length d))" MD2Final
  md2_rep "\<lambda>n. n < 2 ^ 32" md2_digest 16 16
  using entry_digest by unfold_locales simp_all

interpretation hmac_md4: hmac_hash "\<lambda>c. length (buffer c) = 64" MD4Init "whole MD4Update" MD4Final
  "md_rep MD4Transform md_iv" md_okl "md_digest MD4Transform md_iv" 16 64
  using entry_digest by unfold_locales simp_all

interpretation hmac_md5: hmac_hash "\<lambda>c. length (buffer c) = 64" MD5Init "whole MD5Update" MD5Final
  "md_rep MD5Transform md_iv" md_okl "md_digest MD5Transform md_iv" 16 64
  using entry_digest by unfold_locales simp_all

interpretation hmac_rmd160: hmac_hash "\<lambda>c. length (rmd_buffer c) = 64" RMD160Init rmd_upd "RMD160Final True"
  "rmd_rep rmd_iv" "\<lambda>n. n < 2 ^ 29" "rmd_digest rmd_iv" 20 64
  using entry_digest by unfold_locales simp_all

interpretation hmac_sha1: hmac_hash "\<lambda>c. length (sha1_buffer c) = 64" SHA1Init sha1_upd "SHA1Final True"
  "sha1_rep sha1_iv" "\<lambda>n. n < 2 ^ 29" "sha1_digest sha1_iv" 20 64
  using entry_digest by unfold_locales simp_all

interpretation hmac_sha224: hmac_hash "\<lambda>c. length (s256_buffer c) = 64" SHA224_Init "\<lambda>c d. SHA224_Update (A d) c d"
  "SHA224_Final True" "s256_rep sha224_initial_hash_value" "\<lambda>n. n < 2 ^ 64" "sha256_digest sha224_initial_hash_value 28" 28 64
  for A
  using entry_digest by unfold_locales simp_all

interpretation hmac_sha256: hmac_hash "\<lambda>c. length (s256_buffer c) = 64" SHA256_Init "\<lambda>c d. SHA256_Update (A d) c d"
  "SHA256_Final True" "s256_rep sha256_initial_hash_value" "\<lambda>n. n < 2 ^ 64" "sha256_digest sha256_initial_hash_value 32" 32 64
  for A
  using entry_digest by unfold_locales simp_all

interpretation hmac_sha384: hmac_hash "\<lambda>c. length (s512_buffer c) = 128" SHA384_Init "\<lambda>c d. SHA384_Update (A d) c d"
  "SHA384_Final True" "s512_rep sha384_initial_hash_value" "\<lambda>n. n < 2 ^ 61" sha384_digest 48 128
  for A
  using entry_digest by unfold_locales simp_all

interpretation hmac_sha512: hmac_hash "\<lambda>c. length (s512_buffer c) = 128" SHA512_Init "\<lambda>c d. SHA512_Update (A d) c d"
  "SHA512_Final True" "s512_rep sha512_initial_hash_value" "\<lambda>n. n < 2 ^ 61" sha512_digest 64 128
  for A
  using entry_digest by unfold_locales simp_all

section \<open>Properties\<close>

text \<open>
  C11. For every name of the table, every key and message below \<open>2 ^ 29\<close> bytes, every prior contents of the
  stack arrays and every buffer of at least the digest size, \<open>hmac\<close> stores the RFC 2104 code of the message
  at the start of the buffer, leaves the rest of it alone and returns the digest size; an unknown name is
  the error \<open>-1\<close> and writes nothing.
\<close>

theorem hmac_correct:
  assumes "stack_ok r" "length d = 128" "length key < 2 ^ 29" "length msg < 2 ^ 29"
    and "\<forall>a. hmac_find name = Some a \<longrightarrow> hmac_digsize a \<le> dlen" "dlen \<le> length dg"
  shows "hmac A r d name key msg dg dlen = Some (case hmac_find name of None \<Rightarrow> (- 1, dg)
    | Some a \<Rightarrow> (int (hmac_digsize a),
        rfc2104 (hmac_H a) (hmac_blocksize a) key msg @ drop (hmac_digsize a) dg))"
proof (cases "hmac_find name")
  case None
  then show ?thesis by (simp add: hmac_def)
next
  case (Some a)
  then show ?thesis
    using assms unfolding stack_ok_def
    by (cases a) (simp_all add: hmac_def ops_def hmac_md2.hmac_with_rfc hmac_md4.hmac_with_rfc
        hmac_md5.hmac_with_rfc hmac_rmd160.hmac_with_rfc hmac_sha1.hmac_with_rfc hmac_sha224.hmac_with_rfc
        hmac_sha256.hmac_with_rfc hmac_sha384.hmac_with_rfc hmac_sha512.hmac_with_rfc)
qed

text \<open>Stack contents for the witnesses.\<close>

definition stack0 :: hmac_stack where
  "stack0 = \<lparr>as_md2 = \<lparr>md2_i = 3, md2_C = [], md2_X = []\<rparr>,
     as_md = \<lparr>state = [], count0 = 1, count1 = 2, buffer = replicate 64 9\<rparr>,
     as_rmd = \<lparr>rmd_state = [], rmd_count = 5, rmd_buffer = replicate 64 9\<rparr>,
     as_sha1 = \<lparr>sha1_state = [], sha1_count0 = 4, sha1_count1 = 4, sha1_buffer = replicate 64 9\<rparr>,
     as_sha256 = \<lparr>s256_state = [], s256_bitcount = 9, s256_buffer = replicate 64 7\<rparr>,
     as_sha512 = \<lparr>s512_state = [], s512_bitcount0 = 9, s512_bitcount1 = 9, s512_buffer = replicate 128 7\<rparr>\<rparr>"

theorem hmac_correct_witness:
  "hmac (\<lambda>_. 0) stack0 (replicate 128 1) ''sha1'' [1, 2, 3] [0x61] (replicate 20 0xff @ [4, 5]) 21
   = Some (20, rfc2104 (sha1_digest sha1_iv) 64 [1, 2, 3] [0x61] @ [4, 5])"
  using hmac_correct [of stack0 "replicate 128 1" "[1, 2, 3]" "[0x61]" "''sha1''" 21 "replicate 20 0xff @ [4, 5]" "\<lambda>_. 0"]
  by (simp add: stack_ok_def stack0_def hmac_find_def hmacs_def)

text \<open>
  C23. When the caller asks for fewer bytes than the digest has, the outer hash is fed from the caller's buffer
  and not from the inner digest: the code stored depends on the old contents of the buffer and not on the
  message, and the call reads past a buffer that is as short as announced.
\<close>

theorem hmac_truncated_ignores_message:
  assumes "stack_ok r" "length d = 128" "length key < 2 ^ 29" "length msg < 2 ^ 29"
    and "hmac_find name = Some a" "dlen < hmac_digsize a" "dlen \<le> length dg"
  shows "hmac A r d name key msg dg dlen = (if length dg < hmac_digsize a then None
     else Some (int (hmac_digsize a),
       take dlen (hmac_H a (map (\<lambda>b. b XOR 0x5C) (pad_key (hmac_H a) (hmac_blocksize a) key) @ take (hmac_digsize a) dg))
       @ drop dlen dg))"
  using assms unfolding stack_ok_def
  by (cases a) (simp_all add: hmac_def ops_def hmac_md2.hmac_with_short hmac_md4.hmac_with_short
      hmac_md5.hmac_with_short hmac_rmd160.hmac_with_short hmac_sha1.hmac_with_short hmac_sha224.hmac_with_short
      hmac_sha256.hmac_with_short hmac_sha384.hmac_with_short hmac_sha512.hmac_with_short)

theorem hmac_truncated_ignores_message_witness:
  "hmac (\<lambda>_. 0) stack0 (replicate 128 1) ''md5'' [1] [0x61] (replicate 16 0) 12
     = hmac (\<lambda>_. 0) stack0 (replicate 128 1) ''md5'' [1] [0x62, 0x63] (replicate 16 0) 12
   \<and> hmac (\<lambda>_. 0) stack0 (replicate 128 1) ''md5'' [1] [0x61] (replicate 12 0) 12 = None"
  using hmac_truncated_ignores_message [of stack0 "replicate 128 1" "[1]" "[0x61]" "''md5''" MD5 12 "replicate 16 0" "\<lambda>_. 0"]
    hmac_truncated_ignores_message [of stack0 "replicate 128 1" "[1]" "[0x62, 0x63]" "''md5''" MD5 12 "replicate 16 0" "\<lambda>_. 0"]
    hmac_truncated_ignores_message [of stack0 "replicate 128 1" "[1]" "[0x61]" "''md5''" MD5 12 "replicate 12 0" "\<lambda>_. 0"]
  by (simp add: stack_ok_def stack0_def hmac_find_def hmacs_def)

end
