(* ===== verification/Base64.thy ===== *)
theory Base64
  imports Prelude
begin

text \<open>
  Base-64 conversion, \<^verbatim>\<open>src/libc/net/base64.c\<close>.  Source strings carry their terminating NUL, so a read past
  it is a read from the empty list.  A result \<open>None\<close> is an access outside an object (of the
  buffers, or of the table behind \<open>isspace\<close>); \<open>Some (- 1, _)\<close> is the error return.
\<close>

section \<open>The program\<close>

definition Base64 :: "byte list" where
  "Base64 = map word_of_nat ([65..<91] @ [97..<123] @ [48..<58] @ [43, 47])"

definition Pad64 :: byte where "Pad64 = 61"

definition b64_chr :: "byte \<Rightarrow> byte" where "b64_chr v = Base64 ! unat v"

text \<open>\<^verbatim>\<open>strchr(Base64, ch)\<close> minus \<open>Base64\<close>, for \<open>ch\<close> not NUL.\<close>

fun find_chr :: "byte list \<Rightarrow> byte \<Rightarrow> byte \<Rightarrow> byte option" where
  "find_chr [] ch i = None"
| "find_chr (x # xs) ch i = (if x = ch then Some i else find_chr xs ch (i + 1))"

definition b64_pos :: "byte \<Rightarrow> byte option" where "b64_pos ch = find_chr Base64 ch 0"

text \<open>\<open>isspace\<close> of the C locale; defined for \<open>EOF\<close> and the values of \<^verbatim>\<open>unsigned char\<close> only.\<close>

definition isspace :: "int \<Rightarrow> bool option" where
  "isspace ch = (if - 1 \<le> ch \<and> ch \<le> 255 then Some (ch = 32 \<or> 9 \<le> ch \<and> ch \<le> 13) else None)"

text \<open>\<^verbatim>\<open>(int)n\<close> for a \<^verbatim>\<open>size_t\<close>: the low 32 bits, as a signed number.\<close>

definition c_int :: "nat \<Rightarrow> int" where "c_int n = sint (word_of_nat n :: u32)"

definition out0 :: "byte \<Rightarrow> byte" where "out0 a = drop_bit 2 a"
definition out1 :: "byte \<Rightarrow> byte \<Rightarrow> byte" where "out1 a b = push_bit 4 (a AND 0x03) + drop_bit 4 b"
definition out2 :: "byte \<Rightarrow> byte \<Rightarrow> byte" where "out2 b c = push_bit 2 (b AND 0x0f) + drop_bit 6 c"
definition out3 :: "byte \<Rightarrow> byte" where "out3 c = c AND 0x3f"

definition st_b64 :: "byte list \<Rightarrow> nat \<Rightarrow> byte list \<Rightarrow> byte list option" where
  "st_b64 t i xs = (if i + length xs \<le> length t then Some (wr t i xs) else None)"

fun b64_ntop_loop :: "byte list \<Rightarrow> byte list \<Rightarrow> nat \<Rightarrow> nat \<Rightarrow> (int \<times> byte list) option" where
  "b64_ntop_loop (a # b # c # src) t n dl = (if n < dl + 4 then Some (- 1, t) else do {
     t \<leftarrow> st_b64 t dl [b64_chr (out0 a), b64_chr (out1 a b), b64_chr (out2 b c), b64_chr (out3 c)];
     b64_ntop_loop src t n (dl + 4) })"
| "b64_ntop_loop [a] t n dl = (if n < dl + 4 then Some (- 1, t) else do {
     t \<leftarrow> st_b64 t dl [b64_chr (out0 a), b64_chr (out1 a 0), Pad64, Pad64];
     if n \<le> dl + 4 then Some (- 1, t) else do { t \<leftarrow> st_b64 t (dl + 4) [0]; Some (c_int (dl + 4), t) } })"
| "b64_ntop_loop [a, b] t n dl = (if n < dl + 4 then Some (- 1, t) else do {
     t \<leftarrow> st_b64 t dl [b64_chr (out0 a), b64_chr (out1 a b), b64_chr (out2 b 0), Pad64];
     if n \<le> dl + 4 then Some (- 1, t) else do { t \<leftarrow> st_b64 t (dl + 4) [0]; Some (c_int (dl + 4), t) } })"
| "b64_ntop_loop [] t n dl =
     (if n \<le> dl then Some (- 1, t) else do { t \<leftarrow> st_b64 t dl [0]; Some (c_int dl, t) })"

definition b64_ntop :: "byte list \<Rightarrow> byte list \<Rightarrow> nat \<Rightarrow> (int \<times> byte list) option" where
  "b64_ntop src target targsize = b64_ntop_loop src target targsize 0"

text \<open>
  One digit in one of the four decoder states.  The flag is \<open>False\<close> for the error returns; a target of
  \<open>None\<close> is the null pointer, for which the function only counts.
\<close>

definition or_at :: "byte list \<Rightarrow> nat \<Rightarrow> byte \<Rightarrow> byte list option" where
  "or_at t i x = (if i < length t then Some (t[i := t ! i OR x]) else None)"

definition b64_next :: "nat \<Rightarrow> byte list \<Rightarrow> nat \<Rightarrow> byte \<Rightarrow> byte \<Rightarrow> (bool \<times> byte list) option" where
  "b64_next n t ti x nextbyte = (if n \<le> ti then Some (False, t) else do {
     t \<leftarrow> or_at t ti x;
     if ti + 1 < n then do { t \<leftarrow> st_b64 t (ti + 1) [nextbyte]; Some (True, t) }
     else if nextbyte \<noteq> 0 then Some (False, t)
     else Some (True, t) })"

definition next1 :: "byte \<Rightarrow> byte" where "next1 pos = push_bit 4 (pos AND 0x0f)"
definition next2 :: "byte \<Rightarrow> byte" where "next2 pos = push_bit 6 (pos AND 0x03)"

definition b64_digit :: "nat \<Rightarrow> nat \<Rightarrow> byte \<Rightarrow> byte list option \<Rightarrow> nat \<Rightarrow> (bool \<times> byte list option \<times> nat \<times> nat) option" where
  "b64_digit n s pos target ti = (case target of
     None \<Rightarrow> Some (True, None, if s = 0 then ti else ti + 1, (s + 1) mod 4)
   | Some t \<Rightarrow>
     if s = 0 then (if n \<le> ti then Some (False, Some t, ti, s) else do {
         t \<leftarrow> st_b64 t ti [push_bit 2 pos]; Some (True, Some t, ti, 1) })
     else if s = 1 then do {
         (ok, t) \<leftarrow> b64_next n t ti (drop_bit 4 pos) (next1 pos);
         Some (ok, Some t, ti + 1, 2) }
     else if s = 2 then do {
         (ok, t) \<leftarrow> b64_next n t ti (drop_bit 2 pos) (next2 pos);
         Some (ok, Some t, ti + 1, 3) }
     else (if n \<le> ti then Some (False, Some t, ti, s) else do {
         t \<leftarrow> or_at t ti pos; Some (True, Some t, ti + 1, 0) }))"

text \<open>The two loops after a pad character; \<open>ch\<close> is the \<^verbatim>\<open>int\<close> of the source.\<close>

fun b64_skip :: "int \<Rightarrow> byte list \<Rightarrow> (int \<times> byte list) option" where
  "b64_skip ch src = (if ch = 0 then Some (ch, src) else do {
     s \<leftarrow> isspace ch;
     if \<not> s then Some (ch, src) else (case src of [] \<Rightarrow> None | c # cs \<Rightarrow> b64_skip (uint c) cs) })"

fun b64_blank :: "int \<Rightarrow> byte list \<Rightarrow> bool option" where
  "b64_blank ch src = (if ch = 0 then Some True else do {
     s \<leftarrow> isspace ch;
     if \<not> s then Some False else (case src of [] \<Rightarrow> None | c # cs \<Rightarrow> b64_blank (uint c) cs) })"

declare b64_skip.simps [simp del] b64_blank.simps [simp del]

definition b64_tail :: "nat \<Rightarrow> byte list option \<Rightarrow> nat \<Rightarrow> int \<Rightarrow> byte list \<Rightarrow> (int \<times> byte list option) option" where
  "b64_tail n target ti ch src = do {
     ok \<leftarrow> b64_blank ch src;
     slop \<leftarrow> (case target of None \<Rightarrow> Some False
       | Some t \<Rightarrow> if \<not> ok \<or> n \<le> ti then Some False else if ti < length t then Some (t ! ti \<noteq> 0) else None);
     Some (if ok \<and> \<not> slop then c_int ti else - 1, target) }"

text \<open>After the pad character: \<open>ch = *src++\<close> reads a \<^verbatim>\<open>char\<close>, which is signed.\<close>

definition b64_pad :: "nat \<Rightarrow> nat \<Rightarrow> byte list option \<Rightarrow> nat \<Rightarrow> byte list \<Rightarrow> (int \<times> byte list option) option" where
  "b64_pad n s target ti src = (case src of [] \<Rightarrow> None | c # src \<Rightarrow>
     if s = 0 \<or> s = 1 then Some (- 1, target)
     else if s = 2 then do {
       (ch, src) \<leftarrow> b64_skip (sint c) src;
       if ch \<noteq> uint Pad64 then Some (- 1, target)
       else (case src of [] \<Rightarrow> None | c # src \<Rightarrow> b64_tail n target ti (sint c) src) }
     else b64_tail n target ti (sint c) src)"

fun b64_pton_loop :: "nat \<Rightarrow> byte list \<Rightarrow> nat \<Rightarrow> byte list option \<Rightarrow> nat \<Rightarrow> (int \<times> byte list option) option" where
  "b64_pton_loop n [] s target ti = None"
| "b64_pton_loop n (ch # src) s target ti =
     (if ch = 0 then Some (if s \<noteq> 0 then - 1 else c_int ti, target)
      else do {
        sp \<leftarrow> isspace (uint ch);
        if sp then b64_pton_loop n src s target ti
        else if ch = Pad64 then b64_pad n s target ti src
        else (case b64_pos ch of None \<Rightarrow> Some (- 1, target)
          | Some pos \<Rightarrow> do {
              (ok, target, ti, s) \<leftarrow> b64_digit n s pos target ti;
              if ok then b64_pton_loop n src s target ti else Some (- 1, target) }) })"

definition b64_pton :: "byte list \<Rightarrow> byte list option \<Rightarrow> nat \<Rightarrow> (int \<times> byte list option) option" where
  "b64_pton src target targsize = b64_pton_loop targsize src 0 target 0"

lemma c_int_fits: "n < 2 ^ 31 \<Longrightarrow> c_int n = int n"
  by (simp add: c_int_def sint_uint uint_word_of_int unsigned_of_nat take_bit_nat_eq_self signed_take_bit_int_eq_self_iff flip: of_nat_take_bit)

section \<open>The alphabet\<close>

lemma find_chr_Some:
  "distinct xs \<Longrightarrow> unat i + length xs < 256 \<Longrightarrow>
     find_chr xs ch i = Some j \<longleftrightarrow> unat i \<le> unat j \<and> unat j < unat i + length xs \<and> xs ! (unat j - unat i) = ch"
proof (induction xs arbitrary: i)
  case (Cons x xs)
  then have i: "unat (i + 1) = unat i + 1" by (simp add: unat_word_ariths)
  show ?case
  proof (cases "x = ch")
    case True
    with Cons.prems have "\<forall>k < length xs. xs ! k \<noteq> ch" by (metis distinct.simps(2) nth_mem)
    with True show ?thesis
      by (auto simp: nth_Cons' less_diff_conv2 word_unat_eq_iff)
  next
    case False
    with Cons i show ?thesis by (auto simp: nth_Cons' Suc_le_eq word_unat_eq_iff le_less)
  qed
qed auto

lemma Base64_facts: "distinct Base64" "length Base64 = 64"
  "\<forall>c \<in> set Base64. c \<noteq> 0 \<and> c \<noteq> Pad64 \<and> isspace (uint c) = Some False"
  by (simp_all add: Base64_def Pad64_def isspace_def upt_rec)

lemma b64_pos_Some: "b64_pos c = Some p \<longleftrightarrow> p < 64 \<and> b64_chr p = c"
  using find_chr_Some [of Base64 0 c p] Base64_facts(1,2) by (auto simp: b64_pos_def b64_chr_def word_less_nat_alt)

lemma b64_chr_plain:
  assumes "p < 64"
  shows "b64_chr p \<noteq> 0" "b64_chr p \<noteq> Pad64" "isspace (uint (b64_chr p)) = Some False" "b64_pos (b64_chr p) = Some p"
proof -
  have "b64_chr p \<in> set Base64" using assms by (simp add: b64_chr_def Base64_facts(2) word_less_nat_alt)
  then show "b64_chr p \<noteq> 0" "b64_chr p \<noteq> Pad64" "isspace (uint (b64_chr p)) = Some False"
    using Base64_facts(3) by blast+
  show "b64_pos (b64_chr p) = Some p" using assms by (simp add: b64_pos_Some)
qed

section \<open>Reference encoder and decoder\<close>

fun b64_encode :: "byte list \<Rightarrow> byte list" where
  "b64_encode (a # b # c # xs) =
     b64_chr (out0 a) # b64_chr (out1 a b) # b64_chr (out2 b c) # b64_chr (out3 c) # b64_encode xs"
| "b64_encode [a] = [b64_chr (out0 a), b64_chr (out1 a 0), Pad64, Pad64]"
| "b64_encode [a, b] = [b64_chr (out0 a), b64_chr (out1 a b), b64_chr (out2 b 0), Pad64]"
| "b64_encode [] = []"

definition in0 :: "byte \<Rightarrow> byte \<Rightarrow> byte" where "in0 p q = push_bit 2 p OR drop_bit 4 q"
definition in1 :: "byte \<Rightarrow> byte \<Rightarrow> byte" where "in1 q r = next1 q OR drop_bit 2 r"
definition in2 :: "byte \<Rightarrow> byte \<Rightarrow> byte" where "in2 r s = next2 r OR s"

lemma byte_masks: "(0x03 :: byte) = mask 2" "(0x0f :: byte) = mask 4" "(0x3f :: byte) = mask 6"
  by (simp_all add: mask_eq_exp_minus_1)

lemma plus_or: "x AND y = 0 \<Longrightarrow> x + y = x OR (y :: byte)"
  by (simp add: disjunctive_add_eq_or)

lemma outs_or: "out1 a b = push_bit 4 (a AND 0x03) OR drop_bit 4 b" "out2 b c = push_bit 2 (b AND 0x0f) OR drop_bit 6 c"
  unfolding out1_def out2_def byte_masks
  by (intro plus_or bit_eqI; auto simp: bit_simps dest: bit_imp_le_length)+

lemma less_64: "(p :: byte) < 64 \<longleftrightarrow> p AND mask 6 = p"
proof -
  have "unat (p AND mask 6) = unat p mod 64" using unat_and_mask [of p 6] by simp
  then show ?thesis by (simp add: word_unat_eq_iff word_less_nat_alt mod_eq_self_iff_div_eq_0 div_eq_0_iff)
qed

lemma outs_small: "out0 a < 64" "out1 a b < 64" "out2 b c < 64" "out3 c < 64"
  unfolding less_64 out0_def out3_def outs_or byte_masks
  by (intro bit_eqI; auto simp: bit_simps dest: bit_imp_le_length)+

lemma byte_eqI:
  assumes "bit x 0 = bit y 0" "bit x 1 = bit y 1" "bit x 2 = bit y 2" "bit x 3 = bit y 3"
    "bit x 4 = bit y 4" "bit x 5 = bit y 5" "bit x 6 = bit y 6" "bit x 7 = bit y 7"
  shows "x = (y :: byte)"
proof (rule bit_word_eqI)
  fix n assume "n < LENGTH(8)"
  then have "n = 0 \<or> n = 1 \<or> n = 2 \<or> n = 3 \<or> n = 4 \<or> n = 5 \<or> n = 6 \<or> n = 7" by auto
  with assms show "bit x n = bit y n" by blast
qed

lemma bit_byte_above [simp]: "8 \<le> n \<Longrightarrow> \<not> bit (w :: byte) n"
  using bit_imp_le_length [of w n] by auto

lemma bit_small: "(p :: byte) < 64 \<Longrightarrow> \<not> bit p 6 \<and> \<not> bit p 7"
proof -
  have "\<not> bit (p AND mask 6) 6" "\<not> bit (p AND mask 6) 7" by (simp_all add: bit_simps)
  then show "(p :: byte) < 64 \<Longrightarrow> \<not> bit p 6 \<and> \<not> bit p 7" unfolding less_64 by simp
qed

lemma bit_low:
  "(q :: byte) AND 0x0f = 0 \<Longrightarrow> \<not> bit q 0 \<and> \<not> bit q 1 \<and> \<not> bit q 2 \<and> \<not> bit q 3"
  "(r :: byte) AND 0x03 = 0 \<Longrightarrow> \<not> bit r 0 \<and> \<not> bit r 1"
proof -
  have "bit q n = bit (q AND mask 4) n" if "n < 4" for n using that by (auto simp: bit_simps)
  from this [of 0] this [of 1] this [of 2] this [of 3]
  show "(q :: byte) AND 0x0f = 0 \<Longrightarrow> \<not> bit q 0 \<and> \<not> bit q 1 \<and> \<not> bit q 2 \<and> \<not> bit q 3"
    unfolding byte_masks by simp
  have "bit r n = bit (r AND mask 2) n" if "n < 2" for n using that by (auto simp: bit_simps)
  from this [of 0] this [of 1] show "(r :: byte) AND 0x03 = 0 \<Longrightarrow> \<not> bit r 0 \<and> \<not> bit r 1"
    unfolding byte_masks by simp
qed

lemma in_out: "in0 (out0 a) (out1 a b) = a" "in1 (out1 a b) (out2 b c) = b" "in2 (out2 b c) (out3 c) = c"
  unfolding in0_def in1_def in2_def next1_def next2_def outs_or out0_def out3_def byte_masks
  by (rule byte_eqI; simp add: bit_simps)+

lemma out_in:
  assumes "p < 64" "q < 64" "r < 64" "s < 64"
  shows "out0 (in0 p q) = p" "out1 (in0 p q) (in1 q r) = q" "out2 (in1 q r) (in2 r s) = r" "out3 (in2 r s) = s"
  using bit_small [OF assms(1)] bit_small [OF assms(2)] bit_small [OF assms(3)] bit_small [OF assms(4)]
  unfolding in0_def in1_def in2_def next1_def next2_def outs_or out0_def out3_def byte_masks
  by (rule_tac byte_eqI; simp add: bit_simps)+

lemma out_in_last:
  assumes "q < 64" "r < 64"
  shows "q AND 0x0f = 0 \<Longrightarrow> out1 (in0 p q) 0 = q" "r AND 0x03 = 0 \<Longrightarrow> out2 (in1 q r) 0 = r"
  using bit_small [OF assms(1)] bit_small [OF assms(2)] bit_low [of q] bit_low [of r]
  unfolding in0_def in1_def next1_def outs_or byte_masks
  by (rule_tac byte_eqI; simp add: bit_simps)+

lemma out_low: "out1 a 0 AND 0x0f = 0" "out2 b 0 AND 0x03 = 0"
  unfolding outs_or byte_masks by (rule byte_eqI; simp add: bit_simps)+

section \<open>The encoder\<close>

lemma st_b64_ok: "i + length xs \<le> length t \<Longrightarrow> st_b64 t i xs = Some (take i t @ xs @ drop (i + length xs) t)"
  using wr_conv [of i xs t] by (simp add: st_b64_def del: wr.simps)

lemma b64_ntop_loop_enc:
  "dl \<le> n \<Longrightarrow> n \<le> length t \<Longrightarrow>
   \<exists>t'. b64_ntop_loop src t n dl = Some (if dl + length (b64_encode src) < n then c_int (dl + length (b64_encode src)) else - 1, t') \<and>
     length t' = length t \<and>
     (dl + length (b64_encode src) < n \<longrightarrow>
        t' = take dl t @ b64_encode src @ [0] @ drop (dl + length (b64_encode src) + 1) t)"
proof (induction src t n dl rule: b64_ntop_loop.induct)
  case (1 a b c src t n dl)
  show ?case
  proof (cases "n < dl + 4")
    case True
    then show ?thesis by simp
  next
    case False
    define e where "e = [b64_chr (out0 a), b64_chr (out1 a b), b64_chr (out2 b c), b64_chr (out3 c)]"
    define t1 where "t1 = take dl t @ e @ drop (dl + 4) t"
    have e: "length e = 4" by (simp add: e_def)
    have t1: "st_b64 t dl e = Some t1" "length t1 = length t" "take (dl + 4) t1 = take dl t @ e"
      "drop (dl + 4 + k) t1 = drop (dl + 4 + k) t" for k
      using False "1.prems" e by (simp_all add: st_b64_ok t1_def ac_simps)
    obtain t' where "b64_ntop_loop src t1 n (dl + 4) = Some (if dl + 4 + length (b64_encode src) < n then c_int (dl + 4 + length (b64_encode src)) else - 1, t')"
      "length t' = length t1"
      "dl + 4 + length (b64_encode src) < n \<longrightarrow> t' = take (dl + 4) t1 @ b64_encode src @ [0] @ drop (dl + 4 + length (b64_encode src) + 1) t1"
      using "1.IH" [of t1] False "1.prems" t1 by (auto simp: e_def)
    moreover have "b64_ntop_loop (a # b # c # src) t n dl = b64_ntop_loop src t1 n (dl + 4)"
      using False t1(1) by (simp add: e_def)
    moreover have "b64_encode (a # b # c # src) = e @ b64_encode src" by (simp add: e_def)
    ultimately show ?thesis
      using t1(2,3) t1(4) [of "length (b64_encode src) + 1"] e
      by (simp add: ac_simps del: b64_ntop_loop.simps b64_encode.simps)
  qed
qed (auto simp: st_b64_ok eval_nat_numeral)

text \<open>White space and reads: on ASCII strings the decoder sees the string without its white space.\<close>

definition blank :: "byte \<Rightarrow> bool" where "blank c \<longleftrightarrow> c = 32 \<or> 9 \<le> c \<and> c \<le> 13"
abbreviation solid :: "byte list \<Rightarrow> byte list" where "solid src \<equiv> filter (\<lambda>c. \<not> blank c) src"

lemma isspace_uint: "isspace (uint (c :: byte)) = Some (blank c)"
proof -
  have "- 1 \<le> uint c" "uint c \<le> 255" using uint_lt2p [of c] by (auto intro: order.trans [of _ 0])
  then show ?thesis by (simp add: isspace_def blank_def word_uint_eq_iff word_le_def)
qed

lemma sint_ascii: "c < 128 \<Longrightarrow> sint (c :: byte) = uint c"
  by (simp add: sint_uint word_less_def signed_take_bit_int_eq_self_iff) (metis neg_numeral_le_zero order.trans uint_ge_0)

lemma b64_blank_solid: "0 \<notin> set src \<Longrightarrow> \<forall>c \<in> set src. c < 128 \<Longrightarrow>
    b64_blank (uint (hd (src @ [0]))) (tl (src @ [0])) = Some (solid src = [])"
proof (induction src)
  case (Cons c src)
  then have "b64_blank (uint (hd (src @ [0]))) (tl (src @ [0])) = Some (solid src = [])" by simp
  with Cons.prems show ?case
    by (subst b64_blank.simps) (cases src; auto simp: isspace_uint uint_0_iff)
qed (simp add: b64_blank.simps)

lemma b64_skip_solid: "0 \<notin> set src \<Longrightarrow> \<forall>c \<in> set src. c < 128 \<Longrightarrow>
    \<exists>r. b64_skip (uint (hd (src @ [0]))) (tl (src @ [0])) = Some (uint (hd (solid src @ [0])), tl (r @ [0])) \<and>
      (solid src \<noteq> [] \<longrightarrow> r \<noteq> [] \<and> solid (tl r) = tl (solid src) \<and> set r \<subseteq> set src)"
proof (induction src)
  case (Cons c src)
  then obtain r where r: "b64_skip (uint (hd (src @ [0]))) (tl (src @ [0])) = Some (uint (hd (solid src @ [0])), tl (r @ [0]))"
      "solid src \<noteq> [] \<longrightarrow> r \<noteq> [] \<and> solid (tl r) = tl (solid src) \<and> set r \<subseteq> set src" by auto
  show ?case
  proof (cases "blank c")
    case True
    with r Cons.prems show ?thesis
      by (intro exI [of _ r], subst b64_skip.simps) (cases src; auto simp: isspace_uint uint_0_iff)
  next
    case False
    with Cons.prems show ?thesis
      by (intro exI [of _ "c # src"], subst b64_skip.simps) (auto simp: isspace_uint uint_0_iff)
  qed
qed (auto simp: b64_skip.simps intro: exI [of _ "[]"])


definition tail_of :: "nat \<Rightarrow> byte list option \<Rightarrow> nat \<Rightarrow> bool \<Rightarrow> (int \<times> byte list option) option" where
  "tail_of n target ti ok = do {
     slop \<leftarrow> (case target of None \<Rightarrow> Some False
       | Some t \<Rightarrow> if \<not> ok \<or> n \<le> ti then Some False else if ti < length t then Some (t ! ti \<noteq> 0) else None);
     Some (if ok \<and> \<not> slop then c_int ti else - 1, target) }"

lemma b64_tail_solid:
  assumes "0 \<notin> set src" "\<forall>c \<in> set src. c < 128"
  shows "b64_tail n target ti (sint (hd (src @ [0]))) (tl (src @ [0])) = tail_of n target ti (solid src = [])"
proof -
  have "sint (hd (src @ [0])) = uint (hd (src @ [0]))" using assms by (cases src) (simp_all add: sint_ascii)
  then show ?thesis by (simp add: b64_tail_def tail_of_def b64_blank_solid [OF assms])
qed

lemma b64_pad_solid:
  assumes "0 \<notin> set src" "\<forall>c \<in> set src. c < 128"
  shows "b64_pad n s target ti (src @ [0]) = (if s = 0 \<or> s = 1 then Some (- 1, target)
     else if s = 2 then (case solid src of [] \<Rightarrow> Some (- 1, target)
       | c # cs \<Rightarrow> if c = Pad64 then tail_of n target ti (cs = []) else Some (- 1, target))
     else tail_of n target ti (solid src = []))"
proof -
  obtain c0 r0 where split: "src @ [0] = c0 # r0" by (cases src) simp_all
  have si: "sint c0 = uint c0" using assms split by (cases src) (auto simp: sint_ascii)
  obtain r where r: "b64_skip (uint c0) r0 = Some (uint (hd (solid src @ [0])), tl (r @ [0]))"
      "solid src \<noteq> [] \<longrightarrow> r \<noteq> [] \<and> solid (tl r) = tl (solid src) \<and> set r \<subseteq> set src"
    using b64_skip_solid [OF assms] unfolding split by auto
  have "b64_pad n 2 target ti (src @ [0]) = (case solid src of [] \<Rightarrow> Some (- 1, target)
       | c # cs \<Rightarrow> if c = Pad64 then tail_of n target ti (cs = []) else Some (- 1, target))"
  proof (cases "solid src")
    case Nil
    then show ?thesis using r(1) by (simp add: b64_pad_def split si Pad64_def)
  next
    case (Cons c cs)
    with r have r': "r \<noteq> []" "solid (tl r) = cs" "set (tl r) \<subseteq> set src"
      by (auto dest: list.set_sel(2))
    obtain c1 r1 where sp1: "tl r @ [0] = c1 # r1" by (cases "tl r") auto
    then have "tl (r @ [0]) = c1 # r1" using r'(1) by (cases r) auto
    moreover have "0 \<notin> set (tl r)" "\<forall>c \<in> set (tl r). c < 128" using r'(3) assms by auto
    then have "b64_tail n target ti (sint c1) r1 = tail_of n target ti (cs = [])"
      using b64_tail_solid [of "tl r" n target ti] r'(2) unfolding sp1 by simp
    ultimately show ?thesis
      using r(1) Cons by (simp add: b64_pad_def split si word_uint_eq_iff)
  qed
  moreover have "b64_pad n s target ti (src @ [0]) = tail_of n target ti (solid src = [])" if "s \<noteq> 0" "s \<noteq> 1" "s \<noteq> 2"
    using that b64_tail_solid [OF assms, of n target ti] by (simp add: b64_pad_def split)
  moreover have "b64_pad n s target ti (src @ [0]) = Some (- 1, target)" if "s = 0 \<or> s = 1"
    using that by (simp add: b64_pad_def split)
  ultimately show ?thesis by simp
qed

lemma b64_pton_solid:
  "0 \<notin> set src \<Longrightarrow> \<forall>c \<in> set src. c < 128 \<Longrightarrow>
    b64_pton_loop n (src @ [0]) s target ti = b64_pton_loop n (solid src @ [0]) s target ti"
proof (induction src arbitrary: s target ti)
  case (Cons c src)
  have "b64_pad n s target ti (solid src @ [0]) = b64_pad n s target ti (src @ [0])"
    using Cons.prems b64_pad_solid [of src] b64_pad_solid [of "solid src"] by simp
  with Cons show ?case
    by (auto simp: isspace_uint split: option.split cong: if_cong)
qed simp

section \<open>The decoder\<close>

fun b64_decode :: "byte list \<Rightarrow> byte list option" where
  "b64_decode [] = Some []"
| "b64_decode (c0 # c1 # c2 # c3 # cs) = (case (b64_pos c0, b64_pos c1) of
     (Some p0, Some p1) \<Rightarrow> (case b64_pos c2 of
        Some p2 \<Rightarrow> (case b64_pos c3 of
           Some p3 \<Rightarrow> map_option (\<lambda>r. in0 p0 p1 # in1 p1 p2 # in2 p2 p3 # r) (b64_decode cs)
         | None \<Rightarrow> if c3 = Pad64 \<and> cs = [] \<and> p2 AND 0x03 = 0 then Some [in0 p0 p1, in1 p1 p2] else None)
      | None \<Rightarrow> if c2 = Pad64 \<and> c3 = Pad64 \<and> cs = [] \<and> p1 AND 0x0f = 0 then Some [in0 p0 p1] else None)
   | _ \<Rightarrow> None)"
| "b64_decode _ = None"

lemma b64_pos_pad: "b64_pos Pad64 = None"
  using Base64_facts(3) b64_pos_Some b64_chr_plain(2) by (cases "b64_pos Pad64") auto

lemma b64_decode_encode: "b64_decode (b64_encode xs) = Some xs"
  by (induction xs rule: b64_encode.induct)
    (simp_all add: b64_chr_plain outs_small b64_pos_pad in_out out_low)

lemma b64_encode_decode: "b64_decode cs = Some xs \<Longrightarrow> b64_encode xs = cs"
proof (induction cs arbitrary: xs rule: b64_decode.induct)
  case (2 c0 c1 c2 c3 cs)
  then show ?case
    by (auto simp: b64_pos_Some out_in out_in_last split: option.splits if_splits)
qed auto

text \<open>The decoder keeps the bytes stored so far, and the string left decides the result.\<close>

definition b64_accepts :: "nat \<Rightarrow> byte list \<Rightarrow> nat \<Rightarrow> byte list option \<Rightarrow> int \<times> byte list option \<Rightarrow> bool" where
  "b64_accepts n t ti dec r \<longleftrightarrow> (\<exists>t'. snd r = Some t' \<and> length t' = length t \<and> (case dec of
     Some xs \<Rightarrow> if ti + length xs \<le> n then fst r = c_int (ti + length xs) \<and> take (ti + length xs) t' = take ti t @ xs \<and>
         drop (ti + length xs + 1) t' = drop (ti + length xs + 1) t
       else fst r = - 1
   | None \<Rightarrow> fst r = - 1))"

lemma st_b64_one: "i < length t \<Longrightarrow> st_b64 t i [x] = Some (t[i := x])"
  by (simp add: st_b64_def)

lemma or_at_upd: "i < length t \<Longrightarrow> or_at (t[i := x]) i y = Some (t[i := x OR y])"
  by (simp add: or_at_def)

lemma loop_digit:
  "b64_pos c = Some p \<Longrightarrow> b64_pton_loop n (c # src) s target ti = do {
     (ok, target, ti, s) \<leftarrow> b64_digit n s p target ti;
     if ok then b64_pton_loop n src s target ti else Some (- 1, target) }"
proof -
  assume p: "b64_pos c = Some p"
  then have "c \<noteq> 0" "c \<noteq> Pad64" "isspace (uint c) = Some False"
    using b64_chr_plain [of p] by (auto simp: b64_pos_Some)
  with p show ?thesis by simp
qed

lemma loop_pad: "b64_pton_loop n (Pad64 # src) s target ti = b64_pad n s target ti src"
  by (simp add: isspace_def Pad64_def)

lemma loop_bad:
  "c \<noteq> 0 \<Longrightarrow> \<not> blank c \<Longrightarrow> c \<noteq> Pad64 \<Longrightarrow> b64_pos c = None \<Longrightarrow> b64_pton_loop n (c # src) s target ti = Some (- 1, target)"
  by (simp add: isspace_uint)

lemma loop_end: "b64_pton_loop n (0 # src) s target ti = Some (if s \<noteq> 0 then - 1 else c_int ti, target)"
  by simp

declare b64_pton_loop.simps(2) [simp del]

lemma next_zero: "next1 q = 0 \<longleftrightarrow> q AND 0x0f = 0" "next2 r = 0 \<longleftrightarrow> r AND 0x03 = 0"
proof -
  have "drop_bit 4 (push_bit 4 (q AND mask 4)) = q AND mask 4" by (rule byte_eqI; simp add: bit_simps)
  then show "next1 q = 0 \<longleftrightarrow> q AND 0x0f = 0" unfolding next1_def byte_masks by (metis drop_bit_of_0 push_bit_of_0)
  have "drop_bit 6 (push_bit 6 (r AND mask 2)) = r AND mask 2" by (rule byte_eqI; simp add: bit_simps)
  then show "next2 r = 0 \<longleftrightarrow> r AND 0x03 = 0" unfolding next2_def byte_masks by (metis drop_bit_of_0 push_bit_of_0)
qed

lemma two_digits:
  assumes "b64_pos c0 = Some p0" "b64_pos c1 = Some p1" "ti < n" "n \<le> length t"
  shows "b64_pton_loop n (c0 # c1 # src) 0 (Some t) ti =
    (if ti + 1 < n then b64_pton_loop n src 2 (Some (t[ti := in0 p0 p1, ti + 1 := next1 p1])) (ti + 1)
     else if p1 AND 0x0f \<noteq> 0 then Some (- 1, Some (t[ti := in0 p0 p1]))
     else b64_pton_loop n src 2 (Some (t[ti := in0 p0 p1])) (ti + 1))"
  using assms by (simp add: loop_digit b64_digit_def b64_next_def st_b64_one or_at_upd in0_def next_zero)

lemma third_digit:
  assumes "b64_pos c2 = Some p2" "ti < n" "n \<le> length t" "t ! ti = next1 p1"
  shows "b64_pton_loop n (c2 # src) 2 (Some t) ti =
    (if ti + 1 < n then b64_pton_loop n src 3 (Some (t[ti := in1 p1 p2, ti + 1 := next2 p2])) (ti + 1)
     else if p2 AND 0x03 \<noteq> 0 then Some (- 1, Some (t[ti := in1 p1 p2]))
     else b64_pton_loop n src 3 (Some (t[ti := in1 p1 p2])) (ti + 1))"
  using assms by (simp add: loop_digit b64_digit_def b64_next_def st_b64_one or_at_def in1_def next_zero)

lemma fourth_digit:
  assumes "b64_pos c3 = Some p3" "ti < n" "n \<le> length t" "t ! ti = next2 p2"
  shows "b64_pton_loop n (c3 # src) 3 (Some t) ti = b64_pton_loop n src 0 (Some (t[ti := in2 p2 p3])) (ti + 1)"
  using assms by (simp add: loop_digit b64_digit_def or_at_def in2_def)

lemma no_room:
  assumes "b64_pos c = Some p" "n \<le> ti"
  shows "b64_pton_loop n (c # src) s (Some t) ti = Some (- 1, Some t)"
  using assms by (simp add: loop_digit b64_digit_def b64_next_def)

lemma first_digit:
  assumes "b64_pos c0 = Some p0" "n \<le> length t" "b64_pos c1 = None" "c1 \<noteq> 0 \<longrightarrow> \<not> blank c1"
    "src = r @ [0]" "0 \<notin> set r" "\<forall>c \<in> set r. c < 128"
  shows "\<exists>t'. b64_pton_loop n (c0 # c1 # src) 0 (Some t) ti = Some (- 1, Some t') \<and> length t' = length t"
proof (cases "c1 = Pad64")
  case True
  then show ?thesis using assms
    by (simp add: loop_digit b64_digit_def st_b64_one loop_pad b64_pad_solid)
next
  case False
  then show ?thesis using assms
    by (cases "c1 = 0") (simp_all add: loop_digit b64_digit_def st_b64_one loop_bad loop_end)
qed

lemma take_upd: "i < length t \<Longrightarrow> take (Suc i) (t[i := a]) = take i t @ [a]"
  by (simp add: take_Suc_conv_app_nth)

lemma tail_of_Some:
  "n \<le> length t \<Longrightarrow> tail_of n (Some t) ti ok = Some (if ok \<and> \<not> (ti < n \<and> t ! ti \<noteq> 0) then c_int ti else - 1, Some t)"
  by (auto simp: tail_of_def)

text \<open>The strings that are not an encoding of whole bytes lead to an error return.\<close>

lemma stuck:
  assumes "b64_pos c = None" "c \<noteq> 0" "\<not> blank c" "c \<noteq> Pad64 \<or> s = 0 \<or> s = 1 \<or> s = 2 \<and> solid r = []"
    "0 \<notin> set r" "\<forall>c \<in> set r. c < 128"
  shows "b64_pton_loop n (c # r @ [0]) s (Some t) ti = Some (- 1, Some t)"
  using assms by (cases "c = Pad64") (auto simp: loop_pad b64_pad_solid loop_bad)

definition rejects :: "byte list \<Rightarrow> (int \<times> byte list option) option \<Rightarrow> bool" where
  "rejects t r \<longleftrightarrow> (\<exists>t'. r = Some (- 1, Some t') \<and> length t' = length t)"

lemma rejectsI [simp, intro]: "length t' = length t \<Longrightarrow> rejects t (Some (- 1, Some t'))"
  by (simp add: rejects_def)

abbreviation decodable :: "byte list \<Rightarrow> bool" where
  "decodable cs \<equiv> \<forall>c \<in> set cs. c \<noteq> 0 \<and> \<not> blank c \<and> c < 128"

lemma decodable_solid: "decodable cs \<Longrightarrow> solid cs = cs \<and> 0 \<notin> set cs \<and> (\<forall>c \<in> set cs. c < 128)"
  by (auto simp: filter_id_conv)

lemma third_rejects:
  assumes "n \<le> length t" "decodable cs" "length cs = 1"
  shows "rejects t (b64_pton_loop n (cs @ [0]) 2 (Some t) ti)"
proof -
  from assms(3) obtain c where cs: "cs = [c]" by (auto simp: length_Suc_conv)
  show ?thesis
  proof (cases "b64_pos c")
    case None
    then show ?thesis using stuck [of c 2 "[]"] assms(2) cs by auto
  next
    case (Some p)
    then show ?thesis
      using no_room [OF Some, of n ti] third_digit [OF Some, of ti n t] assms cs
      by (auto simp: loop_digit b64_digit_def b64_next_def or_at_def st_b64_one loop_end)
  qed
qed

lemma short_rejects:
  assumes "n \<le> length t" "decodable cs" "0 < length cs" "length cs < 4"
  shows "rejects t (b64_pton_loop n (cs @ [0]) 0 (Some t) ti)"
proof -
  obtain c0 r where cs: "cs = c0 # r" "length r < 3" using assms(3,4) by (cases cs) auto
  have r: "decodable r" "c0 \<noteq> 0" "\<not> blank c0" using assms(2) cs by auto
  show ?thesis
  proof (cases "b64_pos c0")
    case None
    then show ?thesis using stuck [of c0 0 r] r decodable_solid [OF r(1)] cs by auto
  next
    case p0: (Some p0)
    show ?thesis
    proof (cases "ti < n")
      case False
      then show ?thesis using no_room [OF p0, of n ti] cs by auto
    next
      case True
      then have step: "b64_pton_loop n (cs @ [0]) 0 (Some t) ti = b64_pton_loop n (r @ [0]) 1 (Some (t[ti := push_bit 2 p0])) ti"
        using assms(1) cs p0 by (simp add: loop_digit b64_digit_def st_b64_one)
      show ?thesis
      proof (cases r)
        case Nil
        with step show ?thesis by (simp add: loop_end)
      next
        case (Cons c1 q)
        then have q: "decodable q" "c1 \<noteq> 0" "\<not> blank c1" "length q < 2" using r cs by auto
        show ?thesis
        proof (cases "b64_pos c1")
          case None
          then show ?thesis using stuck [of c1 1 q] q decodable_solid [OF q(1)] Cons step by auto
        next
          case p1: (Some p1)
          have "rejects t (b64_pton_loop n (q @ [0]) 2 (Some t') (ti + 1))" if "length t' = length t" for t'
            using q third_rejects [of n t' q "ti + 1"] assms(1) that by (cases q) (auto simp: loop_end rejects_def)
          then show ?thesis
            using two_digits [OF p0 p1 True assms(1), of "q @ [0]"] cs Cons by auto
        qed
      qed
    qed
  qed
qed

lemma rejects_accepts: "rejects t r \<Longrightarrow> \<exists>q. r = Some q \<and> b64_accepts n t ti None q"
  by (auto simp: rejects_def b64_accepts_def)

lemma short_accepts:
  assumes "n \<le> length t" "decodable cs" "0 < length cs" "length cs < 4"
  shows "\<exists>r. b64_pton_loop n (cs @ [0]) 0 (Some t) ti = Some r \<and> b64_accepts n t ti (b64_decode cs) r"
proof -
  have "b64_decode cs = None" using assms(3,4) by (cases cs rule: b64_decode.cases) simp_all
  then show ?thesis using rejects_accepts [OF short_rejects [OF assms]] by simp
qed

lemma accepts_shift:
  assumes "b64_accepts n t3 (ti + length zs) dec r" "length t3 = length t"
    and "take (ti + length zs) t3 = take ti t @ zs" "\<And>i. ti + length zs \<le> i \<Longrightarrow> drop i t3 = drop i t"
  shows "b64_accepts n t ti (map_option ((@) zs) dec) r"
proof -
  have "drop (ti + (length zs + length xs) + 1) t3 = drop (ti + (length zs + length xs) + 1) t" for xs :: "byte list"
    using assms(4) by simp
  with assms(1-3) show ?thesis by (auto simp: b64_accepts_def ac_simps split: option.splits)
qed

lemma two_then_pad:
  assumes "b64_pos c0 = Some p0" "b64_pos c1 = Some p1" "b64_pos c2 = None" "ti < n" "n \<le> length t"
    "decodable (c2 # c3 # cs)"
  shows "\<exists>r. b64_pton_loop n (c0 # c1 # c2 # c3 # cs @ [0]) 0 (Some t) ti = Some r \<and> b64_accepts n t ti
     (if c2 = Pad64 \<and> c3 = Pad64 \<and> cs = [] \<and> p1 AND 0x0f = 0 then Some [in0 p0 p1] else None) r"
proof (cases "c2 = Pad64")
  case False
  then have "b64_pton_loop n (c2 # c3 # cs @ [0]) 2 (Some t') i = Some (- 1, Some t')" for t' i
    using assms(3,6) stuck [of c2 2 "c3 # cs"] by auto
  then show ?thesis using two_digits [OF assms(1,2,4,5)] False by (simp add: b64_accepts_def)
next
  case True
  then have "b64_pton_loop n (c2 # c3 # cs @ [0]) 2 (Some t') i =
      (if c3 = Pad64 then tail_of n (Some t') i (cs = []) else Some (- 1, Some t'))" for t' i
    using b64_pad_solid [of "c3 # cs" n 2 "Some t'" i] decodable_solid [of "c3 # cs"] assms(6) by (simp add: loop_pad)
  then show ?thesis
    using two_digits [OF assms(1,2,4,5)] True assms(4,5)
    by (simp add: b64_accepts_def tail_of_Some next_zero take_upd)
qed

lemma three_then_pad:
  assumes "b64_pos c0 = Some p0" "b64_pos c1 = Some p1" "b64_pos c2 = Some p2" "b64_pos c3 = None" "ti < n" "n \<le> length t"
    "decodable (c3 # cs)"
  shows "\<exists>r. b64_pton_loop n (c0 # c1 # c2 # c3 # cs @ [0]) 0 (Some t) ti = Some r \<and> b64_accepts n t ti
     (if c3 = Pad64 \<and> cs = [] \<and> p2 AND 0x03 = 0 then Some [in0 p0 p1, in1 p1 p2] else None) r"
proof (cases "ti + 1 < n")
  case False
  then show ?thesis
    using two_digits [OF assms(1,2,5,6)] no_room [OF assms(3), of n "ti + 1"] by (auto simp: b64_accepts_def)
next
  case True
  define t1 where "t1 = t[ti := in0 p0 p1, ti + 1 := next1 p1]"
  have t1: "n \<le> length t1" "t1 ! (ti + 1) = next1 p1" using True assms(6) by (simp_all add: t1_def)
  have tail: "b64_pton_loop n (c3 # cs @ [0]) 3 (Some t') i =
      (if c3 = Pad64 then tail_of n (Some t') i (cs = []) else Some (- 1, Some t'))" for t' i
  proof (cases "c3 = Pad64")
    case True
    then show ?thesis
      using b64_pad_solid [of cs n 3 "Some t'" i] decodable_solid [of cs] assms(7) by (simp add: loop_pad)
  next
    case False
    then show ?thesis using stuck [of c3 3 cs] assms(4,7) by auto
  qed
  show ?thesis
    using two_digits [OF assms(1,2,5,6)] third_digit [OF assms(3) True t1] True assms(5,6)
    by (simp add: t1_def tail tail_of_Some b64_accepts_def next_zero take_upd)
qed

lemma four_digits:
  assumes "b64_pos c0 = Some p0" "b64_pos c1 = Some p1" "b64_pos c2 = Some p2" "b64_pos c3 = Some p3" "ti < n" "n \<le> length t"
  shows "ti + 2 < n \<Longrightarrow> b64_pton_loop n (c0 # c1 # c2 # c3 # cs) 0 (Some t) ti =
      b64_pton_loop n cs 0 (Some (t[ti := in0 p0 p1, ti + 1 := in1 p1 p2, ti + 2 := in2 p2 p3])) (ti + 3)"
    and "\<not> ti + 2 < n \<Longrightarrow> rejects t (b64_pton_loop n (c0 # c1 # c2 # c3 # cs) 0 (Some t) ti)"
proof -
  define t1 where "t1 = t[ti := in0 p0 p1, ti + 1 := next1 p1]"
  define t2 where "t2 = t1[ti + 1 := in1 p1 p2, ti + 2 := next2 p2]"
  have t1: "n \<le> length t1" "t1 ! (ti + 1) = next1 p1" if "ti + 1 < n"
    using that assms(6) by (simp_all add: t1_def)
  have t2: "n \<le> length t2" "t2 ! (ti + 2) = next2 p2" if "ti + 2 < n"
    using that assms(6) by (simp_all add: t1_def t2_def)
  show "b64_pton_loop n (c0 # c1 # c2 # c3 # cs) 0 (Some t) ti =
      b64_pton_loop n cs 0 (Some (t[ti := in0 p0 p1, ti + 1 := in1 p1 p2, ti + 2 := in2 p2 p3])) (ti + 3)" if "ti + 2 < n"
    using that two_digits [OF assms(1,2,5,6)] third_digit [OF assms(3) _ t1] fourth_digit [OF assms(4) that t2 [OF that]]
    by (simp add: t1_def t2_def eval_nat_numeral)
  show "rejects t (b64_pton_loop n (c0 # c1 # c2 # c3 # cs) 0 (Some t) ti)" if n: "\<not> ti + 2 < n"
  proof (cases "ti + 1 < n")
    case True
    then show ?thesis
      using n two_digits [OF assms(1,2,5,6)] third_digit [OF assms(3) True t1] no_room [OF assms(4), of n "ti + 2"]
      by (simp add: t1_def)
  next
    case False
    then show ?thesis
      using two_digits [OF assms(1,2,5,6)] no_room [OF assms(3), of n "ti + 1"] by simp
  qed
qed

lemma b64_pton_decode:
  "n \<le> length t \<Longrightarrow> ti \<le> n \<Longrightarrow> decodable cs \<Longrightarrow>
   \<exists>r. b64_pton_loop n (cs @ [0]) 0 (Some t) ti = Some r \<and> b64_accepts n t ti (b64_decode cs) r"
proof (induction cs arbitrary: t ti rule: b64_decode.induct)
  case 1
  then show ?case by (auto simp: loop_end b64_accepts_def)
next
  case (2 c0 c1 c2 c3 cs)
  consider (c0) "b64_pos c0 = None" | (full) p0 where "b64_pos c0 = Some p0" "n \<le> ti"
    | (c1) p0 where "b64_pos c0 = Some p0" "ti < n" "b64_pos c1 = None"
    | (c2) p0 p1 where "b64_pos c0 = Some p0" "b64_pos c1 = Some p1" "b64_pos c2 = None" "ti < n"
    | (c3) p0 p1 p2 where "b64_pos c0 = Some p0" "b64_pos c1 = Some p1" "b64_pos c2 = Some p2" "b64_pos c3 = None" "ti < n"
    | (all) p0 p1 p2 p3 where "b64_pos c0 = Some p0" "b64_pos c1 = Some p1" "b64_pos c2 = Some p2" "b64_pos c3 = Some p3" "ti < n"
    by (metis not_less option.exhaust)
  then show ?case
  proof cases
    case c0
    then show ?thesis
      using stuck [of c0 0 "c1 # c2 # c3 # cs" n t ti] "2.prems" by (auto simp: b64_accepts_def)
  next
    case full
    have "b64_decode (c0 # c1 # c2 # c3 # cs) = Some xs \<Longrightarrow> 0 < length xs" for xs
      using b64_encode_decode [of "c0 # c1 # c2 # c3 # cs" xs] by (cases xs) (simp_all del: b64_decode.simps)
    then have "b64_decode (c0 # c1 # c2 # c3 # cs) = Some xs \<Longrightarrow> \<not> ti + length xs \<le> n" for xs
      using full(2) by (metis add_le_same_cancel1 le_trans not_le)
    with no_room [OF full] show ?thesis
      by (auto simp: b64_accepts_def simp del: b64_decode.simps split: option.split)
  next
    case c1
    then show ?thesis
      using first_digit [OF c1(1) "2.prems"(1) c1(3), of "c2 # c3 # cs @ [0]" "c2 # c3 # cs" ti] "2.prems"(3)
      by (auto simp: b64_accepts_def)
  next
    case c2
    then show ?thesis using two_then_pad [OF c2 "2.prems"(1)] "2.prems"(3) by simp
  next
    case c3
    then show ?thesis using three_then_pad [OF c3 "2.prems"(1)] "2.prems"(3) by simp
  next
    case all
    show ?thesis
    proof (cases "ti + 2 < n")
      case True
      define t3 where "t3 = t[ti := in0 p0 p1, ti + 1 := in1 p1 p2, ti + 2 := in2 p2 p3]"
      have t3: "n \<le> length t3" "length t3 = length t" "take (ti + 3) t3 = take ti t @ [in0 p0 p1, in1 p1 p2, in2 p2 p3]"
        using True "2.prems"(1) by (simp_all add: t3_def numeral_3_eq_3 numeral_2_eq_2 take_upd)
      obtain r where r: "b64_pton_loop n (cs @ [0]) 0 (Some t3) (ti + 3) = Some r" "b64_accepts n t3 (ti + 3) (b64_decode cs) r"
        using "2.IH" [OF refl all(1-4) t3(1), of "ti + 3"] True "2.prems"(3) by auto
      have "b64_accepts n t ti (map_option ((@) [in0 p0 p1, in1 p1 p2, in2 p2 p3]) (b64_decode cs)) r"
      proof (rule accepts_shift)
        show "b64_accepts n t3 (ti + length [in0 p0 p1, in1 p1 p2, in2 p2 p3]) (b64_decode cs) r"
          using r(2) by (simp add: numeral_3_eq_3)
        show "drop i t3 = drop i t" if "ti + length [in0 p0 p1, in1 p1 p2, in2 p2 p3] \<le> i" for i
          using that by (simp add: t3_def)
      qed (use t3 in \<open>simp_all add: numeral_3_eq_3\<close>)
      moreover have "(@) [x, y, z] = (\<lambda>r. x # y # z # r)" for x y z :: byte by (simp add: fun_eq_iff)
      ultimately show ?thesis
        using four_digits(1) [OF all "2.prems"(1) True, of "cs @ [0]"] r(1) all
        by (simp add: t3_def)
    next
      case False
      then show ?thesis
        using four_digits(2) [OF all "2.prems"(1) False, of "cs @ [0]"] all
        by (auto simp: rejects_def b64_accepts_def split: option.split)
    qed
  qed
qed (rule short_accepts; simp)+

lemma b64_pton_accepts:
  assumes "\<forall>c \<in> set src. c \<noteq> 0 \<and> c < 128" "n \<le> length t"
  shows "\<exists>ret t'. b64_pton (src @ [0]) (Some t) n = Some (ret, Some t') \<and>
     b64_accepts n t 0 (b64_decode (solid src)) (ret, Some t')"
proof -
  have "0 \<notin> set src" using assms(1) by blast
  then have "b64_pton (src @ [0]) (Some t) n = b64_pton_loop n (solid src @ [0]) 0 (Some t) 0"
    using assms(1) b64_pton_solid [of src] by (simp add: b64_pton_def)
  then obtain r where "b64_pton (src @ [0]) (Some t) n = Some r" "b64_accepts n t 0 (b64_decode (solid src)) r"
    using b64_pton_decode [OF assms(2), of 0 "solid src"] assms(1) by auto
  moreover from this(2) obtain t' where "snd r = Some t'" by (auto simp: b64_accepts_def)
  ultimately show ?thesis by (metis prod.collapse)
qed

lemma b64_encode_plain: "c \<in> set (b64_encode src) \<Longrightarrow> c \<noteq> 0 \<and> c < 128 \<and> \<not> blank c"
proof -
  have "\<forall>c \<in> insert Pad64 (set Base64). c \<noteq> 0 \<and> c < 128 \<and> \<not> blank c"
    by (simp add: Base64_def Pad64_def blank_def upt_rec)
  moreover have "p < 64 \<Longrightarrow> b64_chr p \<in> set Base64" for p
    by (simp add: b64_chr_def Base64_facts(2) word_less_nat_alt)
  then have "set (b64_encode src) \<subseteq> insert Pad64 (set Base64)"
    by (induction src rule: b64_encode.induct) (auto simp: outs_small)
  ultimately show "c \<in> set (b64_encode src) \<Longrightarrow> c \<noteq> 0 \<and> c < 128 \<and> \<not> blank c" by blast
qed

section \<open>Properties\<close>

text \<open>
  C5. For an ASCII string (see \<open>b64_pton_signed_char\<close> for other bytes) and a target with room for \<open>targsize\<close> bytes, \<open>b64_pton\<close> never
  leaves its objects, and it accepts exactly the strings that, white space aside, are the encoding of at most \<open>targsize\<close> bytes:
  then it returns their number, converted to \<^verbatim>\<open>int\<close>, and stores them (zeroing at most one byte more), otherwise it returns
  \<open>-1\<close>.  In particular no two encodings differing in unused bits are accepted for the same bytes.
\<close>

theorem b64_pton_exact:
  assumes "\<forall>c \<in> set src. c \<noteq> 0 \<and> c < 128" "targsize \<le> length t"
  shows "\<exists>ret t'. b64_pton (src @ [0]) (Some t) targsize = Some (ret, Some t') \<and> length t' = length t \<and>
    (\<forall>xs. solid src = b64_encode xs \<and> length xs \<le> targsize \<longrightarrow>
       ret = c_int (length xs) \<and> take (length xs) t' = xs \<and> drop (length xs + 1) t' = drop (length xs + 1) t) \<and>
    ((\<nexists>xs. solid src = b64_encode xs \<and> length xs \<le> targsize) \<longrightarrow> ret = - 1)"
proof -
  obtain ret t' where r: "b64_pton (src @ [0]) (Some t) targsize = Some (ret, Some t')"
      "b64_accepts targsize t 0 (b64_decode (solid src)) (ret, Some t')"
    using b64_pton_accepts [OF assms] by blast
  show ?thesis
  proof (cases "b64_decode (solid src)")
    case None
    then have "\<nexists>xs. solid src = b64_encode xs" by (metis b64_decode_encode option.distinct(1))
    with None r show ?thesis by (auto simp: b64_accepts_def)
  next
    case (Some ys)
    have "solid src = b64_encode xs \<longleftrightarrow> xs = ys" for xs
      using Some b64_encode_decode b64_decode_encode by (metis option.inject)
    with Some r show ?thesis by (auto simp: b64_accepts_def split: if_splits)
  qed
qed

text \<open>Witness: \<open>QU I=\<close> decodes to \<open>AB\<close>.\<close>

theorem b64_pton_exact_witness:
  "\<exists>t'. b64_pton [0x51, 0x55, 0x20, 0x49, 0x3d, 0] (Some [9, 9, 9, 9]) 2 = Some (2, Some t') \<and> take 2 t' = [0x41, 0x42]"
proof -
  have asc: "\<forall>c \<in> set [0x51, 0x55, 0x20, 0x49, 0x3d :: byte]. c \<noteq> 0 \<and> c < 128" by simp
  have sz: "2 \<le> length [9, 9, 9, 9 :: byte]" by simp
  have "solid [0x51, 0x55, 0x20, 0x49, 0x3d] = b64_encode [0x41, 0x42]"
    by code_simp
  moreover have "length [0x41, 0x42 :: byte] \<le> 2" by simp
  moreover obtain ret t' where r: "b64_pton ([0x51, 0x55, 0x20, 0x49, 0x3d] @ [0]) (Some [9, 9, 9, 9]) 2 = Some (ret, Some t')"
      "\<forall>xs. solid [0x51, 0x55, 0x20, 0x49, 0x3d] = b64_encode xs \<and> length xs \<le> 2 \<longrightarrow> ret = c_int (length xs) \<and>
        take (length xs) t' = xs \<and> drop (length xs + 1) t' = drop (length xs + 1) [9, 9, 9, 9]"
    using b64_pton_exact [OF asc sz] by blast
  ultimately have "ret = c_int (length [0x41, 0x42 :: byte]) \<and> take (length [0x41, 0x42 :: byte]) t' = [0x41, 0x42]" by blast
  with r(1) show ?thesis by (simp add: c_int_def numeral_2_eq_2 [symmetric])
qed

text \<open>
  C24. Round trip: what \<open>b64_ntop\<close> writes is a NUL-terminated string that \<open>b64_pton\<close> turns back into the source
  bytes, and both return the length, converted to \<^verbatim>\<open>int\<close> (\<open>c_int_fits\<close>: the length itself below \<open>2 ^ 31\<close>); if the target is too small for the string and its
  NUL, \<open>b64_ntop\<close> returns \<open>-1\<close>.
\<close>

theorem b64_round_trip:
  assumes "n \<le> length t" "length src \<le> m" "m \<le> length u"
  shows "if length (b64_encode src) < n
    then \<exists>t' u'. b64_ntop src t n = Some (c_int (length (b64_encode src)), t') \<and>
      t' = b64_encode src @ [0] @ drop (length (b64_encode src) + 1) t \<and>
      b64_pton (take (length (b64_encode src) + 1) t') (Some u) m = Some (c_int (length src), Some u') \<and>
      take (length src) u' = src
    else \<exists>t'. b64_ntop src t n = Some (- 1, t')"
proof -
  have "solid (b64_encode src) = b64_encode src" using b64_encode_plain by (simp add: filter_id_conv)
  then obtain u' where "b64_pton (b64_encode src @ [0]) (Some u) m = Some (c_int (length src), Some u')" "take (length src) u' = src"
    using b64_pton_accepts [of "b64_encode src" m u] b64_encode_plain assms
    by (auto simp: b64_accepts_def b64_decode_encode)
  then show ?thesis
    using b64_ntop_loop_enc [of 0 n t src] assms(1) by (auto simp: b64_ntop_def)
qed

theorem b64_round_trip_witness:
  "\<exists>t' u'. b64_ntop [0x41] [9, 9, 9, 9, 9] 5 = Some (4, t') \<and>
     b64_pton (take 5 t') (Some [9, 9]) 2 = Some (1, Some u') \<and> take 1 u' = [0x41]"
  using b64_round_trip [of 5 "[9, 9, 9, 9, 9]" "[0x41]" 2 "[9, 9]"] by (simp add: c_int_fits)

text \<open>
  The character after a pad is read into an \<^verbatim>\<open>int\<close> without the cast to \<^verbatim>\<open>unsigned char\<close> that the other
  reads have: a byte above 127 there indexes the table of \<open>isspace\<close> with a negative number.
\<close>

lemma b64_pton_signed_char:
  assumes "128 \<le> c" "c \<noteq> 255" "0 < n" "n \<le> length t"
  shows "b64_pton (0x51 # 0x51 # Pad64 # c # src) (Some t) n = None"
proof -
  have p: "b64_pos 0x51 = Some 16" by (simp add: b64_pos_def Base64_def upt_rec)
  
  have u: "128 \<le> uint c" "uint c < 255"
    using assms(1,2) uint_lt2p [of c] by (simp_all add: word_le_def word_uint_eq_iff)
  then have "uint c div 128 = 1" by linarith
  then have "bit (uint c) 7" by (simp add: bit_iff_odd)
  then have "sint c = take_bit 8 (uint c) - 256"
    by (simp add: sint_uint signed_take_bit_eq_take_bit_minus)
  then have "sint c < - 1" using u by (simp add: take_bit_int_eq_self)
  then have "isspace (sint c) = None" "sint c \<noteq> 0" by (simp_all add: isspace_def)
  then have "b64_pad n 2 (Some t') i (c # src) = None" for t' i
    by (simp add: b64_pad_def b64_skip.simps [of "sint c"])
  then show ?thesis
    using two_digits [OF p p assms(3,4), of "Pad64 # c # src"] by (simp add: b64_pton_def loop_pad)
qed

end
