(* ===== verification/Quad.thy ===== *)
theory Quad
  imports Prelude
begin

text \<open>
  64-bit arithmetic on 32-bit machines, \<^verbatim>\<open>src/libc/common/lib/libc/quad\<close>.  A quad is a 64-bit word; the
  union \<^verbatim>\<open>union uu\<close> reads and writes its two 32-bit halves.  Negation of the least signed quad wraps, as the
  machine instruction does.
\<close>

definition ulH :: "u64 \<Rightarrow> u32" where "ulH q = ucast (drop_bit 32 q)"
definition ulL :: "u64 \<Rightarrow> u32" where "ulL q = ucast q"
definition uu :: "u32 \<Rightarrow> u32 \<Rightarrow> u64" where "uu h l = push_bit 32 (ucast h) OR ucast l"

definition cbool :: "bool \<Rightarrow> 'a::len word" where "cbool b = (if b then 1 else 0)"

section \<open>Addition, negation, logic, comparison\<close>

definition adddi3 :: "u64 \<Rightarrow> u64 \<Rightarrow> u64" where
  "adddi3 a b = (let l = ulL a + ulL b in uu (ulH a + ulH b + cbool (l < ulL b)) l)"

definition subdi3 :: "u64 \<Rightarrow> u64 \<Rightarrow> u64" where
  "subdi3 a b = (let l = ulL a - ulL b in uu (ulH a - ulH b - cbool (l > ulL a)) l)"

definition negdi2 :: "u64 \<Rightarrow> u64" where
  "negdi2 a = (let l = - ulL a in uu (- ulH a - cbool (l > 0)) l)"

definition anddi3 :: "u64 \<Rightarrow> u64 \<Rightarrow> u64" where
  "anddi3 a b = uu (ulH a AND ulH b) (ulL a AND ulL b)"

definition iordi3 :: "u64 \<Rightarrow> u64 \<Rightarrow> u64" where
  "iordi3 a b = uu (ulH a OR ulH b) (ulL a OR ulL b)"

definition xordi3 :: "u64 \<Rightarrow> u64 \<Rightarrow> u64" where
  "xordi3 a b = uu (ulH a XOR ulH b) (ulL a XOR ulL b)"

definition one_cmpldi2 :: "u64 \<Rightarrow> u64" where
  "one_cmpldi2 a = uu (NOT (ulH a)) (NOT (ulL a))"

definition ucmpdi2 :: "u64 \<Rightarrow> u64 \<Rightarrow> int" where
  "ucmpdi2 a b = (if ulH a < ulH b then 0 else if ulH a > ulH b then 2
     else if ulL a < ulL b then 0 else if ulL a > ulL b then 2 else 1)"

definition cmpdi2 :: "u64 \<Rightarrow> u64 \<Rightarrow> int" where
  "cmpdi2 a b = (if sint (ulH a) < sint (ulH b) then 0 else if sint (ulH a) > sint (ulH b) then 2
     else if ulL a < ulL b then 0 else if ulL a > ulL b then 2 else 1)"

section \<open>Shifts\<close>

text \<open>A shift of a 32-bit operand by 32 or more is undefined in C: \<open>None\<close>.\<close>

definition shl32 :: "u32 \<Rightarrow> nat \<Rightarrow> u32 option" where
  "shl32 x s = (if s < 32 then Some (push_bit s x) else None)"

definition shr32 :: "u32 \<Rightarrow> nat \<Rightarrow> u32 option" where
  "shr32 x s = (if s < 32 then Some (drop_bit s x) else None)"

definition sar32 :: "u32 \<Rightarrow> nat \<Rightarrow> u32 option" where
  "sar32 x s = (if s < 32 then Some (signed_drop_bit s x) else None)"

definition ashldi3 :: "u64 \<Rightarrow> nat \<Rightarrow> u64 option" where
  "ashldi3 a shift = (if shift = 0 then Some a
     else if shift \<ge> 32 then do { h \<leftarrow> shl32 (ulL a) (shift - 32); Some (uu h 0) }
     else do { h \<leftarrow> shl32 (ulH a) shift; c \<leftarrow> shr32 (ulL a) (32 - shift); l \<leftarrow> shl32 (ulL a) shift; Some (uu (h OR c) l) })"

definition lshldi3 :: "u64 \<Rightarrow> nat \<Rightarrow> u64 option" where
  "lshldi3 a shift = (if shift = 0 then Some a
     else if shift \<ge> 32 then do { h \<leftarrow> shl32 (ulL a) (shift - 32); Some (uu h 0) }
     else do { h \<leftarrow> shl32 (ulH a) shift; c \<leftarrow> shr32 (ulL a) (32 - shift); l \<leftarrow> shl32 (ulL a) shift; Some (uu (h OR c) l) })"

definition lshrdi3 :: "u64 \<Rightarrow> nat \<Rightarrow> u64 option" where
  "lshrdi3 a shift = (if shift = 0 then Some a
     else if shift \<ge> 32 then do { l \<leftarrow> shr32 (ulH a) (shift - 32); Some (uu 0 l) }
     else do { l \<leftarrow> shr32 (ulL a) shift; c \<leftarrow> shl32 (ulH a) (32 - shift); h \<leftarrow> shr32 (ulH a) shift; Some (uu h (l OR c)) })"

definition ashrdi3 :: "u64 \<Rightarrow> nat \<Rightarrow> u64 option" where
  "ashrdi3 a shift = (if shift = 0 then Some a
     else if shift \<ge> 32 then do {
       s \<leftarrow> sar32 (ulH a) 31; s \<leftarrow> sar32 s 1;
       l \<leftarrow> sar32 (ulH a) (shift - 32);
       Some (uu s l) }
     else do { l \<leftarrow> shr32 (ulL a) shift; c \<leftarrow> shl32 (ulH a) (32 - shift); h \<leftarrow> sar32 (ulH a) shift; Some (uu h (l OR c)) })"

section \<open>Multiplication\<close>

definition HHALF :: "u32 \<Rightarrow> u32" where "HHALF x = drop_bit 16 x"
definition LHALF :: "u32 \<Rightarrow> u32" where "LHALF x = x AND 0xFFFF"
definition LHUP :: "u32 \<Rightarrow> u32" where "LHUP x = push_bit 16 x"

definition lmulq :: "u32 \<Rightarrow> u32 \<Rightarrow> u64" where
  "lmulq u v = (let
     u1 = HHALF u; u0 = LHALF u; v1 = HHALF v; v0 = LHALF v;
     low = u0 * v0
   in if u1 = 0 \<and> v1 = 0 then ucast low
   else let
     (udiff, neg) = (if u1 \<ge> u0 then (u1 - u0, False) else (u0 - u1, True));
     (vdiff, neg) = (if v0 \<ge> v1 then (v0 - v1, neg) else (v1 - v0, \<not> neg));
     mid = udiff * vdiff;
     high = u1 * v1;
     prodh = high + HHALF high;
     prodl = LHUP high;
     (prodl, prodh) = (if neg then
         (prodl - LHUP mid, prodh - (HHALF mid + cbool (prodl - LHUP mid > prodl)))
       else
         (prodl + LHUP mid, prodh + (HHALF mid + cbool (prodl + LHUP mid < prodl))));
     was = prodl;
     prodl = prodl + LHUP low;
     prodh = prodh + (HHALF low + cbool (prodl < was));
     prodl = prodl + low;
     prodh = (if prodl < low then prodh + 1 else prodh)
   in uu prodh prodl)"

definition muldi3 :: "u64 \<Rightarrow> u64 \<Rightarrow> u64" where
  "muldi3 a b = (let
     (u, negall) = (if sint a \<ge> 0 then (a, False) else (- a, True));
     (v, negall) = (if sint b \<ge> 0 then (b, negall) else (- b, \<not> negall));
     u1 = ulH u; u0 = ulL u; v1 = ulH v; v0 = ulL v;
     prod = (if u1 = 0 \<and> v1 = 0 then lmulq u0 v0
       else let
         low = lmulq u0 v0;
         (udiff, negmid) = (if u1 \<ge> u0 then (u1 - u0, False) else (u0 - u1, True));
         (vdiff, negmid) = (if v0 \<ge> v1 then (v0 - v1, negmid) else (v1 - v0, \<not> negmid));
         mid = udiff * vdiff;
         high = u1 * v1
       in uu (high + (if negmid then - mid else mid) + ulL low + ulH low) (ulL low))
   in if negall then - prod else prod)"

section \<open>The halves of a quad in the ring of 64-bit words\<close>

abbreviation quad :: "u32 \<Rightarrow> u64" where "quad x \<equiv> ucast x"

definition W :: u64 where "W = 2 ^ 32"

lemma W_facts: "W * W = 0" "word_of_nat (2 ^ 32) = W"
  by (simp_all add: W_def)

lemma W_W [simp]: "W * (W * x) = 0"
  by (simp add: W_facts mult.assoc [symmetric])

lemma quad_of_nat: "quad x = word_of_nat (unat x)"
  by (simp add: unsigned_def)

lemma uu_ring: "uu h l = W * quad h + quad l"
proof -
  have "push_bit 32 (quad h) AND quad l = 0"
    by (rule bit_word_eqI) (auto simp: bit_simps dest: bit_imp_le_length)
  then show ?thesis by (simp add: uu_def disjunctive_add_eq_or push_bit_eq_mult mult.commute W_def)
qed

lemma uu_halves [simp]: "uu (ulH q) (ulL q) = q" "ulH (uu h l) = h" "ulL (uu h l) = l"
  unfolding uu_def ulH_def ulL_def by (rule bit_word_eqI, auto simp: bit_simps dest: bit_imp_le_length)+

lemma high_mod: "W * (word_of_nat (n mod 2 ^ 32) :: u64) = W * word_of_nat n"
proof -
  have "(word_of_nat n :: u64) = W * word_of_nat (n div 2 ^ 32) + word_of_nat (n mod 2 ^ 32)"
    unfolding W_facts(2) [symmetric] of_nat_mult [symmetric] of_nat_add [symmetric] mult_div_mod_eq ..
  then show ?thesis by (simp add: distrib_left)
qed

lemma unat_u32:
  fixes x y :: u32
  shows "unat (x + y) = (unat x + unat y) mod 2 ^ 32" "unat (x * y) = (unat x * unat y) mod 2 ^ 32"
  by (simp_all only: unat_word_ariths len_num0 len_num1 len_bit0 mult_1_right) simp_all

lemma high_add: "W * quad (x + y) = W * quad x + W * quad y"
  unfolding quad_of_nat unat_u32 high_mod of_nat_add distrib_left ..

lemma high_mult: "W * quad (x * y) = W * (quad x * quad y)"
  unfolding quad_of_nat unat_u32 high_mod of_nat_mult ..

lemma high_minus: "W * quad (x - y) = W * quad x - W * quad y" "W * quad (- y) = - (W * quad y)"
proof -
  show "W * quad (x - y) = W * quad x - W * quad y"
    using high_add [of "x - y" y] by (simp only: diff_add_cancel eq_diff_eq)
  have "W * quad (- y) + W * quad y = 0" using high_add [of "- y" y] by (simp only: add.left_inverse) simp
  then show "W * quad (- y) = - (W * quad y)" by (simp only: eq_neg_iff_add_eq_0)
qed

lemma quad_halves: "q = W * quad (ulH q) + quad (ulL q)"
  using uu_ring [of "ulH q" "ulL q"] by simp

lemma high_low: "W * quad (ulL q) = W * q"
  by (subst (2) quad_halves [of q]) (simp add: distrib_left)

lemma low_add: "quad (x + y) = quad x + quad y - W * cbool (x + y < y)"
proof (cases "unat x + unat y < 2 ^ 32")
  case True
  then have *: "unat (x + y) = unat x + unat y" by (simp only: unat_u32 mod_less)
  then have "\<not> x + y < y" by (simp add: word_less_nat_alt)
  then show ?thesis unfolding quad_of_nat * of_nat_add by (simp only: cbool_def if_False mult_zero_right diff_zero)
next
  case False
  then have *: "unat (x + y) + 2 ^ 32 = unat x + unat y"
    using unat_lt_len [of x] unat_lt_len [of y] by (simp only: unat_u32 len_num0 len_num1 len_bit0) (simp add: mod_if, linarith)
  then have "x + y < y" using unat_lt_len [of x] by (simp add: word_less_nat_alt)
  moreover have "quad (x + y) + W = quad x + quad y"
    unfolding quad_of_nat W_facts(2) [symmetric] of_nat_add [symmetric] * ..
  ultimately show ?thesis by (simp add: cbool_def eq_diff_eq)
qed

lemma low_minus: "quad (x - y) = quad x - quad y + W * cbool (x - y > x)"
  using low_add [of y "x - y"] by (simp add: eq_diff_eq) (simp add: algebra_simps)

lemma high_cbool: "W * quad (cbool b) = W * cbool b"
  by (simp add: cbool_def)

lemmas high_simps = high_add high_minus high_cbool high_mult

section \<open>Addition, subtraction, negation\<close>

text \<open>Adding and subtracting a pair of halves with the carry of the source.\<close>

lemma uu_add: "uu (h + (h' + cbool (l + l' < l))) (l + l') = uu h l + uu h' l'"
  using low_add [of l' l] by (simp add: uu_ring high_simps algebra_simps)

lemma uu_minus: "uu (h - (h' + cbool (l - l' > l))) (l - l') = uu h l - uu h' l'"
  by (simp add: uu_ring high_simps low_minus algebra_simps)

lemma adddi3_eq: "adddi3 a b = a + b"
  using uu_add [of "ulH b" "ulH a" "ulL b" "ulL a"] by (simp add: adddi3_def Let_def ac_simps)

lemma subdi3_eq: "subdi3 a b = a - b"
  using uu_minus [of "ulH a" "ulH b" "ulL a" "ulL b"] by (simp add: subdi3_def Let_def diff_diff_eq)

lemma negdi2_eq: "negdi2 a = - a"
proof -
  have "uu 0 0 = 0" by (simp add: uu_ring)
  then show ?thesis using uu_minus [of 0 "ulH a" 0 "ulL a"] by (simp add: negdi2_def Let_def)
qed

section \<open>Multiplication by halves\<close>

lemma mask_ffff: "0xFFFF = (mask 16 :: u32)"
  by (simp add: mask_eq_exp_minus_1)

definition S :: u64 where "S = 2 ^ 16"

lemma W_S: "W = S * S"
  by (simp add: W_def S_def)

lemma quad_half: "quad x = S * quad (HHALF x) + quad (LHALF x)"
proof -
  have "push_bit 16 (quad (HHALF x)) AND quad (LHALF x) = 0" "push_bit 16 (quad (HHALF x)) OR quad (LHALF x) = quad x"
    unfolding HHALF_def LHALF_def mask_ffff by (rule bit_word_eqI, auto simp: bit_simps)+
  then show ?thesis by (metis S_def disjunctive_add_eq_or mult.commute push_bit_eq_mult)
qed

lemma half_small: "unat (HHALF x) < 2 ^ 16" "unat (LHALF x) < 2 ^ 16"
  using unat_lt_len [of x]
  by (simp_all add: HHALF_def LHALF_def mask_ffff unat_drop_bit unat_and_mask less_mult_imp_div_less)

lemma quad_mult:
  assumes "unat x < 2 ^ 16" "unat y < 2 ^ 16"
  shows "quad (x * y) = quad x * quad y"
proof -
  have "unat x * unat y < 2 ^ 16 * 2 ^ 16" using assms by (intro mult_strict_mono) simp_all
  then have "unat (x * y) = unat x * unat y" unfolding unat_u32 by simp
  then show ?thesis unfolding quad_of_nat by (metis of_nat_mult)
qed

lemma quad_diff: "y \<le> x \<Longrightarrow> quad (x - y) = quad x - quad y" "y \<le> x \<Longrightarrow> unat x < n \<Longrightarrow> unat (x - y) < n"
proof -
  assume *: "y \<le> x"
  then have "unat (x - y) = unat x - unat y" by (simp add: unat_sub)
  moreover from this have "\<not> x - y > x" by (simp add: word_less_nat_alt)
  ultimately show "quad (x - y) = quad x - quad y" "unat x < n \<Longrightarrow> unat (x - y) < n"
    using low_minus [of x y] by (simp_all add: cbool_def)
qed

lemma uu_shift16: "uu (HHALF m) (LHUP m) = S * quad m"
proof -
  have "uu (HHALF m) (LHUP m) = push_bit 16 (quad m)"
    unfolding uu_def HHALF_def LHUP_def by (rule bit_word_eqI) (auto simp: bit_simps dest: bit_imp_le_length)
  then show ?thesis by (simp add: push_bit_eq_mult S_def)
qed

text \<open>The middle product: its absolute value and its sign.\<close>

lemma abs_diff:
  fixes x y :: u32
  assumes "(d, s) = (if x \<ge> y then (x - y, p) else (y - x, \<not> p))" "unat x < n" "unat y < n"
  shows "unat d < n \<and> quad d = (if s = p then quad x - quad y else quad y - quad x)"
  using assms quad_diff [of y x] quad_diff [of x y] by (auto split: if_splits)

lemma mid_product:
  fixes u1 u0 v1 v0 :: u32
  assumes "unat u1 < 2 ^ 16" "unat u0 < 2 ^ 16" "unat v1 < 2 ^ 16" "unat v0 < 2 ^ 16"
    and "(udiff, neg) = (if u1 \<ge> u0 then (u1 - u0, False) else (u0 - u1, True))"
    and "(vdiff, neg') = (if v0 \<ge> v1 then (v0 - v1, neg) else (v1 - v0, \<not> neg))"
  shows "(if neg' then - quad (udiff * vdiff) else quad (udiff * vdiff)) = (quad u1 - quad u0) * (quad v0 - quad v1)"
proof -
  have u: "unat udiff < 2 ^ 16" "quad udiff = (if neg then quad u0 - quad u1 else quad u1 - quad u0)"
    using abs_diff [of udiff neg u0 u1 False] assms by simp_all
  have v: "unat vdiff < 2 ^ 16" "quad vdiff = (if neg' = neg then quad v0 - quad v1 else quad v1 - quad v0)"
    using abs_diff [OF assms(6)] assms by simp_all
  show ?thesis unfolding quad_mult [OF u(1) v(1)] u(2) v(2) by (auto simp: algebra_simps)
qed

lemma uu_add_low: "uu (if l + x < x then h + 1 else h) (l + x) = uu h l + quad x"
  by (simp add: uu_ring low_add [of l x] high_simps cbool_def algebra_simps)
lemma lmulq_eq: "lmulq u v = quad u * quad v"
proof -
  define u1 u0 v1 v0 where "u1 = HHALF u" and "u0 = LHALF u" and "v1 = HHALF v" and "v0 = LHALF v"
  have small: "unat u1 < 2 ^ 16" "unat u0 < 2 ^ 16" "unat v1 < 2 ^ 16" "unat v0 < 2 ^ 16"
    by (simp_all only: u1_def u0_def v1_def v0_def half_small)
  have uv: "quad u = S * quad u1 + quad u0" "quad v = S * quad v1 + quad v0"
    using quad_half [of u] quad_half [of v] by (simp_all only: u1_def u0_def v1_def v0_def)
  define low where "low = u0 * v0"
  have low: "quad low = quad u0 * quad v0" unfolding low_def by (rule quad_mult [OF small(2,4)])
  show ?thesis
  proof (cases "u1 = 0 \<and> v1 = 0")
    case True
    then show ?thesis using uv low by (simp add: lmulq_def Let_def u1_def u0_def v1_def v0_def low_def)
  next
    case False
    obtain udiff neg where ud: "(udiff, neg) = (if u1 \<ge> u0 then (u1 - u0, False) else (u0 - u1, True))" by (metis surj_pair)
    obtain vdiff neg' where vd: "(vdiff, neg') = (if v0 \<ge> v1 then (v0 - v1, neg) else (v1 - v0, \<not> neg))" by (metis surj_pair)
    define mid where "mid = udiff * vdiff"
    have mid: "(if neg' then - quad mid else quad mid) = (quad u1 - quad u0) * (quad v0 - quad v1)"
      unfolding mid_def by (rule mid_product [OF small ud vd])
    define high where "high = u1 * v1"
    have high: "quad high = quad u1 * quad v1" unfolding high_def by (rule quad_mult [OF small(1,3)])
    define h0 l0 where "h0 = high + HHALF high" and "l0 = LHUP high"
    have P0: "uu h0 l0 = W * quad high + S * quad high"
      unfolding uu_shift16 [symmetric] h0_def l0_def by (simp add: uu_ring high_add)
    obtain l1 h1 where 1: "(l1, h1) = (if neg' then (l0 - LHUP mid, h0 - (HHALF mid + cbool (l0 - LHUP mid > l0)))
       else (l0 + LHUP mid, h0 + (HHALF mid + cbool (l0 + LHUP mid < l0))))" by (metis surj_pair)
    have P1: "uu h1 l1 = uu h0 l0 + S * (quad u1 - quad u0) * (quad v0 - quad v1)"
      using 1 mid uu_shift16 [of mid] uu_add [of h0 "HHALF mid" l0 "LHUP mid"] uu_minus [of h0 "HHALF mid" l0 "LHUP mid"]
      by (auto simp: mult.assoc split: if_splits) (metis add_uminus_conv_diff minus_mult_right)
    define l2 where "l2 = l1 + LHUP low"
    define h2 where "h2 = h1 + (HHALF low + cbool (l2 < l1))"
    have P2: "uu h2 l2 = uu h1 l1 + S * quad low"
      unfolding h2_def l2_def uu_add uu_shift16 ..
    have "lmulq u v = uu (if l2 + low < low then h2 + 1 else h2) (l2 + low)"
      unfolding lmulq_def Let_def u1_def [symmetric] u0_def [symmetric] v1_def [symmetric] v0_def [symmetric]
      unfolding low_def [symmetric] high_def [symmetric] if_not_P [OF False] ud [symmetric] prod.case vd [symmetric]
      unfolding mid_def [symmetric] h0_def [symmetric] l0_def [symmetric] 1 [symmetric] prod.case
      unfolding l2_def [symmetric] h2_def [symmetric] ..
    then show ?thesis
      unfolding uu_add_low P2 P1 P0 low high W_S uv by (simp add: algebra_simps)
  qed
qed

text \<open>The product of two quads from the products of their halves.\<close>

definition mul_halves :: "u64 \<Rightarrow> u64 \<Rightarrow> u64" where
  "mul_halves u v = (let u1 = ulH u; u0 = ulL u; v1 = ulH v; v0 = ulL v in
     if u1 = 0 \<and> v1 = 0 then lmulq u0 v0
     else let
         low = lmulq u0 v0;
         (udiff, negmid) = (if u1 \<ge> u0 then (u1 - u0, False) else (u0 - u1, True));
         (vdiff, negmid) = (if v0 \<ge> v1 then (v0 - v1, negmid) else (v1 - v0, \<not> negmid));
         mid = udiff * vdiff;
         high = u1 * v1
       in uu (high + (if negmid then - mid else mid) + ulL low + ulH low) (ulL low))"

lemma muldi3_halves:
  "muldi3 a b = (let (u, negall) = (if sint a \<ge> 0 then (a, False) else (- a, True));
     (v, negall) = (if sint b \<ge> 0 then (b, negall) else (- b, \<not> negall));
     prod = mul_halves u v in if negall then - prod else prod)"
  unfolding muldi3_def mul_halves_def Let_def ..

lemma mul_halves_eq: "mul_halves u v = u * v"
proof -
  define u1 u0 v1 v0 where "u1 = ulH u" and "u0 = ulL u" and "v1 = ulH v" and "v0 = ulL v"
  have uv: "u = W * quad u1 + quad u0" "v = W * quad v1 + quad v0"
    using quad_halves [of u] quad_halves [of v] by (simp_all only: u1_def u0_def v1_def v0_def)
  define low where "low = lmulq u0 v0"
  have low: "low = quad u0 * quad v0" by (simp add: low_def lmulq_eq)
  show ?thesis
  proof (cases "u1 = 0 \<and> v1 = 0")
    case True
    have "mul_halves u v = low"
      unfolding mul_halves_def Let_def u1_def [symmetric] u0_def [symmetric] v1_def [symmetric] v0_def [symmetric]
      unfolding if_P [OF True] low_def ..
    then show ?thesis unfolding low uv using True by simp
  next
    case False
    obtain udiff neg where ud: "(udiff, neg) = (if u1 \<ge> u0 then (u1 - u0, False) else (u0 - u1, True))" by (metis surj_pair)
    obtain vdiff neg' where vd: "(vdiff, neg') = (if v0 \<ge> v1 then (v0 - v1, neg) else (v1 - v0, \<not> neg))" by (metis surj_pair)
    have mid: "(if neg' then - (udiff * vdiff) else udiff * vdiff) = (u1 - u0) * (v0 - v1)"
      using ud vd by (auto simp: algebra_simps split: if_splits)
    have "mul_halves u v = uu (u1 * v1 + (u1 - u0) * (v0 - v1) + ulL low + ulH low) (ulL low)"
      unfolding mul_halves_def Let_def u1_def [symmetric] u0_def [symmetric] v1_def [symmetric] v0_def [symmetric]
      unfolding if_not_P [OF False] ud [symmetric] prod.case vd [symmetric] mid low_def [symmetric] ..
    also have "\<dots> = W * quad (u1 * v1 + (u1 - u0) * (v0 - v1)) + W * quad (ulL low) + uu (ulH low) (ulL low)"
      by (simp only: uu_ring high_add ac_simps)
    also have "\<dots> = W * quad (u1 * v1 + (u1 - u0) * (v0 - v1)) + W * low + low"
      by (simp only: uu_halves high_low)
    finally have 1: "mul_halves u v = W * quad (u1 * v1 + (u1 - u0) * (v0 - v1)) + W * low + low" .
    have 2: "W * quad (u1 * v1 + (u1 - u0) * (v0 - v1)) = W * (quad u1 * quad v1) + W * ((quad u1 - quad u0) * (quad v0 - quad v1))"
    proof -
      have "W * quad ((u1 - u0) * (v0 - v1)) = (W * quad (u1 - u0)) * quad (v0 - v1)"
        by (simp only: high_mult mult.assoc)
      also have "\<dots> = (W * (quad u1 - quad u0)) * quad (v0 - v1)"
        by (simp only: high_minus(1) right_diff_distrib)
      also have "\<dots> = (quad u1 - quad u0) * (W * quad (v0 - v1))"
        by (simp only: ac_simps)
      also have "\<dots> = (quad u1 - quad u0) * (W * (quad v0 - quad v1))"
        by (simp only: high_minus(1) right_diff_distrib)
      also have "\<dots> = W * ((quad u1 - quad u0) * (quad v0 - quad v1))"
        by (rule mult.left_commute)
      finally show ?thesis by (simp only: high_add high_mult)
    qed
    show ?thesis unfolding 1 2 unfolding low uv by (simp add: algebra_simps)
  qed
qed

lemma muldi3_eq: "muldi3 a b = a * b"
  by (simp add: muldi3_halves mul_halves_eq)

section \<open>Shifts and comparisons\<close>

lemma bit_halves [simp]:
  "bit (uu h l) n \<longleftrightarrow> (if n < 32 then bit l n else bit h (n - 32))"
  "bit (ulH q) n \<longleftrightarrow> n < 32 \<and> bit q (n + 32)"
  "bit (ulL q) n \<longleftrightarrow> n < 32 \<and> bit q n"
  unfolding uu_def ulH_def ulL_def by (auto simp: bit_simps add.commute dest: bit_imp_le_length)

lemma bit_quad_high [simp]: "64 \<le> n \<Longrightarrow> \<not> bit (q :: u64) n" "32 \<le> n \<Longrightarrow> \<not> bit (w :: u32) n"
  using bit_imp_le_length [of q n] bit_imp_le_length [of w n] by auto

lemma shift_large: "32 \<le> s \<Longrightarrow> s < 64 \<Longrightarrow> uu (push_bit (s - 32) (ulL a)) 0 = push_bit s a"
  "32 \<le> s \<Longrightarrow> s < 64 \<Longrightarrow> uu 0 (drop_bit (s - 32) (ulH a)) = drop_bit s a"
  by (rule bit_word_eqI, auto simp: bit_simps dest: bit_imp_le_length)+

lemma shift_small:
  assumes "0 < s" "s < 32"
  shows "uu (push_bit s (ulH a) OR drop_bit (32 - s) (ulL a)) (push_bit s (ulL a)) = push_bit s a"
    "uu (drop_bit s (ulH a)) (drop_bit s (ulL a) OR push_bit (32 - s) (ulH a)) = drop_bit s a"
proof -
  show "uu (push_bit s (ulH a) OR drop_bit (32 - s) (ulL a)) (push_bit s (ulL a)) = push_bit s a"
  proof (rule bit_word_eqI)
    fix n assume "n < LENGTH(64)"
    moreover have "32 \<le> n \<Longrightarrow> s + 32 \<le> n \<Longrightarrow> n - 32 - s + 32 = n - s" "32 \<le> n \<Longrightarrow> n < s + 32 \<Longrightarrow> 32 - s + (n - 32) = n - s"
      using assms by auto
    ultimately show "bit (uu (push_bit s (ulH a) OR drop_bit (32 - s) (ulL a)) (push_bit s (ulL a))) n = bit (push_bit s a) n"
      using assms by (auto simp: bit_simps add.commute dest: bit_imp_le_length)
  qed
  show "uu (drop_bit s (ulH a)) (drop_bit s (ulL a) OR push_bit (32 - s) (ulH a)) = drop_bit s a"
  proof (rule bit_word_eqI)
    fix n assume "n < LENGTH(64)"
    moreover have "32 \<le> n \<Longrightarrow> s + (n - 32) + 32 = s + n" "n < 32 \<Longrightarrow> 32 - s \<le> n \<Longrightarrow> n - (32 - s) + 32 = s + n"
      using assms by auto
    ultimately show "bit (uu (drop_bit s (ulH a)) (drop_bit s (ulL a) OR push_bit (32 - s) (ulH a))) n = bit (drop_bit s a) n"
      using assms by (auto simp: bit_simps add.commute dest: bit_imp_le_length)
  qed
qed

lemma shl_eq: "s < 64 \<Longrightarrow> ashldi3 a s = Some (push_bit s a)" "s < 64 \<Longrightarrow> lshldi3 a s = Some (push_bit s a)"
  using shift_large(1) [of s a] shift_small(1) [of s a]
  by (auto simp: ashldi3_def lshldi3_def shl32_def shr32_def)

lemma lshrdi3_eq: "s < 64 \<Longrightarrow> lshrdi3 a s = Some (drop_bit s a)"
  using shift_large(2) [of s a] shift_small(2) [of s a]
  by (auto simp: lshrdi3_def shl32_def shr32_def)

lemma bit_sar: "bit (signed_drop_bit s (w :: u32)) n \<longleftrightarrow> n < 32 \<and> bit w (if 32 \<le> n + s then 31 else n + s)"
proof -
  have *: "LENGTH(32) = (32 :: nat)" by simp
  show ?thesis unfolding bit_signed_drop_bit_iff * by (cases "n < 32") (simp_all add: le_diff_conv add.commute)
qed

lemma bit_sar64: "n < 64 \<Longrightarrow> bit (signed_drop_bit s (w :: u64)) n \<longleftrightarrow> bit w (if 64 \<le> n + s then 63 else n + s)"
proof -
  have *: "LENGTH(64) = (64 :: nat)" by simp
  show "n < 64 \<Longrightarrow> ?thesis" unfolding bit_signed_drop_bit_iff * by (simp add: le_diff_conv add.commute)
qed

lemma ashrdi3_eq: "s < 64 \<Longrightarrow> ashrdi3 a s = Some (signed_drop_bit s a)"
proof -
  assume s: "s < 64"
  have "uu (signed_drop_bit 1 (signed_drop_bit 31 (ulH a))) (signed_drop_bit (s - 32) (ulH a)) = signed_drop_bit s a" if "32 \<le> s"
  proof (rule bit_word_eqI)
    fix n assume "n < LENGTH(64)"
    with s that show "bit (uu (signed_drop_bit 1 (signed_drop_bit 31 (ulH a))) (signed_drop_bit (s - 32) (ulH a))) n = bit (signed_drop_bit s a) n"
      by (cases "n < 32") (auto simp: bit_sar bit_sar64)
  qed
  moreover have "uu (signed_drop_bit s (ulH a)) (drop_bit s (ulL a) OR push_bit (32 - s) (ulH a)) = signed_drop_bit s a" if "0 < s" "s < 32"
  proof (rule bit_word_eqI)
    fix n assume n: "n < LENGTH(64)"
    have "\<not> n + s < 32 \<Longrightarrow> n + s - 32 + 32 = n + s" "n - (32 - s) = n + s - 32" "32 \<le> n \<Longrightarrow> n - 32 + s + 32 = n + s"
      using that by auto
    with n that show "bit (uu (signed_drop_bit s (ulH a)) (drop_bit s (ulL a) OR push_bit (32 - s) (ulH a))) n = bit (signed_drop_bit s a) n"
      by (cases "n + s < 32") (auto simp: bit_sar bit_sar64 bit_or_iff bit_drop_bit_eq bit_push_bit_iff add.commute [of s])
  qed
  ultimately show ?thesis using s by (auto simp: ashrdi3_def shl32_def shr32_def sar32_def)
qed

lemma logic_eq: "anddi3 a b = a AND b" "iordi3 a b = a OR b" "xordi3 a b = a XOR b" "one_cmpldi2 a = NOT a"
  by (rule bit_word_eqI, auto simp: anddi3_def iordi3_def xordi3_def one_cmpldi2_def bit_simps)+

lemma unat_halves: "unat q = 2 ^ 32 * unat (ulH q) + unat (ulL q)"
proof -
  have "unat (ulH q) = unat q div 2 ^ 32"
    using unat_lt_len [of q] by (simp add: ulH_def unsigned_ucast_eq unat_drop_bit take_bit_nat_eq_self_iff less_mult_imp_div_less)
  moreover have "unat (ulL q) = unat q mod 2 ^ 32"
    by (simp add: ulL_def unsigned_ucast_eq take_bit_eq_mod)
  ultimately show ?thesis by simp
qed

lemma ucmpdi2_eq: "ucmpdi2 a b = (if a < b then 0 else if a = b then 1 else 2)"
proof -
  have "unat (ulL a) < 2 ^ 32" "unat (ulL b) < 2 ^ 32" using unat_lt_len [of "ulL a"] unat_lt_len [of "ulL b"] by simp_all
  then show ?thesis
    by (auto simp: ucmpdi2_def word_less_nat_alt word_unat_eq_iff unat_halves [of a] unat_halves [of b])
qed

lemma sint_halves: "sint q = 2 ^ 32 * sint (ulH q) + uint (ulL q)"
proof -
  have b: "bit (uint (ulH q)) 31 = bit (uint q) 63" by (simp add: bit_uint_iff)
  have u: "uint q < 2 ^ 64" "uint (ulH q) < 2 ^ 32" using uint_lt2p [of q] uint_lt2p [of "ulH q"] by simp_all
  have q: "sint q = uint q - 2 ^ 64 * of_bool (bit (uint q) 63)"
    using u by (simp add: sint_uint signed_take_bit_eq_take_bit_minus take_bit_int_eq_self)
  have h: "sint (ulH q) = uint (ulH q) - 2 ^ 32 * of_bool (bit (uint (ulH q)) 31)"
    using u by (simp add: sint_uint signed_take_bit_eq_take_bit_minus take_bit_int_eq_self)
  have "int (unat q) = 2 ^ 32 * int (unat (ulH q)) + int (unat (ulL q))"
    by (subst unat_halves) simp
  then have "uint q = 2 ^ 32 * uint (ulH q) + uint (ulL q)" by simp
  then show ?thesis unfolding q h b by (cases "bit (uint q) 63") simp_all
qed

lemma pair_less:
  fixes x y a b M :: int
  assumes "0 \<le> a" "a < M" "0 \<le> b" "b < M"
  shows "M * x + a < M * y + b \<longleftrightarrow> x < y \<or> x = y \<and> a < b"
proof (cases x y rule: linorder_cases)
  case less
  then have "M * (x + 1) \<le> M * y" using assms by (intro mult_left_mono) simp_all
  with less assms show ?thesis by (simp add: distrib_left)
next
  case greater
  then have "M * (y + 1) \<le> M * x" using assms by (intro mult_left_mono) simp_all
  with greater assms show ?thesis by (simp add: distrib_left)
qed simp

lemma cmpdi2_eq: "cmpdi2 a b = (if sint a < sint b then 0 else if a = b then 1 else 2)"
proof -
  have lt: "uint (ulL x) < 2 ^ 32" for x using uint_lt2p [of "ulL x"] by simp
  have "sint x < sint y \<longleftrightarrow> sint (ulH x) < sint (ulH y) \<or> sint (ulH x) = sint (ulH y) \<and> uint (ulL x) < uint (ulL y)" for x y
    unfolding sint_halves [of x] sint_halves [of y] by (rule pair_less [OF _ lt _ lt]) simp_all
  moreover have "a = b \<longleftrightarrow> \<not> sint a < sint b \<and> \<not> sint b < sint a" by (metis linorder_neq_iff signed_word_eqI)
  ultimately show ?thesis by (auto simp: cmpdi2_def word_less_def)
qed

section \<open>Properties\<close>

text \<open>
  C26. The routines on pairs of 32-bit halves compute the ring operations of 64-bit words: addition and
  subtraction with their one-bit carries, negation, the bitwise operations and the Karatsuba product with
  its two levels of halving; the comparisons decide the signed and the unsigned order.
\<close>

theorem quad_ops_correct:
  "adddi3 a b = a + b \<and> subdi3 a b = a - b \<and> negdi2 a = - a \<and> muldi3 a b = a * b \<and>
   anddi3 a b = a AND b \<and> iordi3 a b = a OR b \<and> xordi3 a b = a XOR b \<and> one_cmpldi2 a = NOT a \<and>
   ucmpdi2 a b = (if a < b then 0 else if a = b then 1 else 2) \<and>
   cmpdi2 a b = (if sint a < sint b then 0 else if a = b then 1 else 2)"
  by (simp add: adddi3_eq subdi3_eq negdi2_eq muldi3_eq logic_eq ucmpdi2_eq cmpdi2_eq)

text \<open>
  The shifts by 0 to 63 are the 64-bit shifts (left, logical right, arithmetic right), without ever
  shifting a half by 32 or more; a count of 64 or more is undefined.
\<close>

theorem quad_shifts_correct:
  "ashldi3 a s = (if s < 64 then Some (push_bit s a) else None) \<and>
   lshldi3 a s = (if s < 64 then Some (push_bit s a) else None) \<and>
   lshrdi3 a s = (if s < 64 then Some (drop_bit s a) else None) \<and>
   ashrdi3 a s = (if s < 64 then Some (signed_drop_bit s a) else None)"
proof (cases "s < 64")
  case True
  then show ?thesis by (simp add: shl_eq lshrdi3_eq ashrdi3_eq)
next
  case False
  then show ?thesis
    by (simp add: ashldi3_def lshldi3_def lshrdi3_def ashrdi3_def shl32_def shr32_def sar32_def)
qed

end
