(* ===== verification/Quad_Div.thy ===== *)
theory Quad_Div
  imports Quad "HOL-Library.Signed_Division"
begin

text \<open>
  64-bit division, \<^verbatim>\<open>src/libc/common/lib/libc/quad/qdivrem.c\<close>: Knuth's algorithm D in base \<open>2 ^ 16\<close>, and its
  clients \<^verbatim>\<open>udivdi3.c\<close>, \<^verbatim>\<open>umoddi3.c\<close>, \<^verbatim>\<open>divdi3.c\<close>, \<^verbatim>\<open>moddi3.c\<close>.  A variable of type
  \<^verbatim>\<open>u_int\<close> is an integer in \<open>[0, 2 ^ 32)\<close>, with the reductions modulo \<open>2 ^ 32\<close> written out; a \<open>digit\<close> is
  an integer in \<open>[0, 2 ^ 16)\<close>.  The pointers \<open>u\<close> and \<open>v\<close> that step over leading zeros are the
  suffixes of their arrays.
\<close>

section \<open>The program\<close>

abbreviation BB :: int where "BB \<equiv> 65536"

definition lhalf :: "int \<Rightarrow> int" where "lhalf x = x mod BB"
definition hhalf :: "int \<Rightarrow> int" where "hhalf x = x div BB"
definition uint32 :: "int \<Rightarrow> int" where "uint32 x = x mod 2 ^ 32"
definition COMBINE :: "int \<Rightarrow> int \<Rightarrow> int" where "COMBINE a b = uint32 (push_bit 16 a) OR b"

text \<open>\<^verbatim>\<open>shl\<close>: the first \<open>len + 1\<close> digits, left by \<open>sh\<close> bits.\<close>

fun shl :: "int list \<Rightarrow> nat \<Rightarrow> nat \<Rightarrow> int list" where
  "shl (p # q # ps) (Suc len) sh = (lhalf (uint32 (push_bit sh p)) OR drop_bit (16 - sh) q) # shl (q # ps) len sh"
| "shl (p # ps) 0 sh = lhalf (uint32 (push_bit sh p)) # ps"
| "shl ps len sh = ps"

text \<open>The loop over the leading zeros of \<open>v\<close>: \<open>Inl\<close> is the exit with a one-digit divisor.\<close>

fun lead_v :: "nat \<Rightarrow> int list \<Rightarrow> int list + (nat \<times> int list)" where
  "lead_v (Suc n) v = (if v ! 1 = 0 then (if n = 1 then Inl v else lead_v n (tl v)) else Inr (Suc n, v))"
| "lead_v 0 v = Inr (0, v)"

text \<open>The loop over the leading zeros of \<open>u\<close>, which counts \<open>m\<close> down.\<close>

fun lead_u :: "nat \<Rightarrow> int list \<Rightarrow> (nat \<times> int list) option" where
  "lead_u m u = (if u ! 1 = 0 then (case m of 0 \<Rightarrow> None | Suc m \<Rightarrow> lead_u m (tl u)) else Some (m, u))"

text \<open>Division by one digit.\<close>

definition short_div :: "int list \<Rightarrow> int \<Rightarrow> int list \<times> int" where
  "short_div u t = (let
     q1 = u ! 1 div t; rbj = COMBINE (u ! 1 mod t) (u ! 2);
     q2 = rbj div t; rbj = COMBINE (rbj mod t) (u ! 3);
     q3 = rbj div t; rbj = COMBINE (rbj mod t) (u ! 4);
     q4 = rbj div t
   in ([q1, q2, q3, q4], rbj mod t))"

text \<open>D1: the normalising shift.  The loop does not end for a zero digit, hence the option.\<close>

partial_function (option) norm :: "int \<Rightarrow> nat \<Rightarrow> nat option" where
  "norm t d = (if t < BB div 2 then norm (uint32 (push_bit 1 t)) (d + 1) else Some d)"

text \<open>D3: the loop that corrects the trial quotient.\<close>

partial_function (option) qhat_loop :: "int \<Rightarrow> int \<Rightarrow> int \<Rightarrow> int \<Rightarrow> int \<Rightarrow> int option" where
  "qhat_loop v1 v2 uj2 qhat rhat = (if uint32 (v2 * qhat) > COMBINE rhat uj2 then let
       qhat = uint32 (qhat - 1);
       rhat = uint32 (rhat + v1)
     in if rhat \<ge> BB then Some qhat else qhat_loop v1 v2 uj2 qhat rhat
   else Some qhat)"

declare norm.simps [code] qhat_loop.simps [code]

definition trial :: "int \<Rightarrow> int \<Rightarrow> int \<Rightarrow> int \<Rightarrow> int \<Rightarrow> int option" where
  "trial v1 v2 uj0 uj1 uj2 = (if uj0 = v1 then let
       qhat = uint32 (BB - 1);
       rhat = uint32 (uj1 + v1)
     in if rhat \<ge> BB then Some qhat else qhat_loop v1 v2 uj2 qhat rhat
   else let nn = COMBINE uj0 uj1 in qhat_loop v1 v2 uj2 (nn div v1) (nn mod v1))"

text \<open>D4: multiply and subtract, digits \<open>i\<close> down to 1; the result holds the borrow.\<close>

fun mulsub :: "int list \<Rightarrow> int \<Rightarrow> nat \<Rightarrow> nat \<Rightarrow> int \<Rightarrow> int list \<Rightarrow> int \<times> int list" where
  "mulsub v qhat j 0 t u = (t, u)"
| "mulsub v qhat j (Suc i) t u = (let
     x = uint32 (u ! (Suc i + j) - v ! Suc i * qhat - t)
   in mulsub v qhat j i ((BB - hhalf x) mod BB) (u[Suc i + j := lhalf x]))"

text \<open>D6: add back.\<close>

fun addback :: "int list \<Rightarrow> nat \<Rightarrow> nat \<Rightarrow> int \<Rightarrow> int list \<Rightarrow> int \<times> int list" where
  "addback v j 0 t u = (t, u)"
| "addback v j (Suc i) t u = (let
     x = uint32 (t + (u ! (Suc i + j) + v ! Suc i))
   in addback v j i (hhalf x) (u[Suc i + j := lhalf x]))"

text \<open>One turn of the main loop, D3 to D6.\<close>

definition div_step :: "int list \<Rightarrow> nat \<Rightarrow> nat \<Rightarrow> int list \<Rightarrow> (int \<times> int list) option" where
  "div_step v n j u = do {
     qhat \<leftarrow> trial (v ! 1) (v ! 2) (u ! j) (u ! (j + 1)) (u ! (j + 2));
     let (t, u) = mulsub v qhat j n 0 u;
     let x = uint32 (u ! j - t);
     let u = u[j := lhalf x];
     if hhalf x \<noteq> 0 then let
         qhat = uint32 (qhat - 1);
         (t, u) = addback v j n 0 u
       in Some (lhalf qhat, u[j := lhalf (uint32 (u ! j + t))])
     else Some (lhalf qhat, u) }"

fun div_loop :: "int list \<Rightarrow> nat \<Rightarrow> nat \<Rightarrow> nat \<Rightarrow> int list \<Rightarrow> (int list \<times> int list) option" where
  "div_loop v n j 0 u = Some ([], u)"
| "div_loop v n j (Suc k) u = do {
     (q, u) \<leftarrow> div_step v n j u;
     (qs, u) \<leftarrow> div_loop v n (j + 1) k u;
     Some (q # qs, u) }"

text \<open>The remainder is shifted back, digits \<open>m + n\<close> down to \<open>m + 1\<close>; then digit \<open>m\<close> is cleared.\<close>

fun unshift :: "nat \<Rightarrow> nat \<Rightarrow> nat \<Rightarrow> int list \<Rightarrow> int list" where
  "unshift d m 0 u = u[m := 0]"
| "unshift d m (Suc k) u = unshift d m k
     (u[m + Suc k := drop_bit d (u ! (m + Suc k)) OR lhalf (uint32 (push_bit (16 - d) (u ! (m + k))))])"

definition digits4 :: "u64 \<Rightarrow> int list" where
  "digits4 q = [uint (HHALF (ulH q)), uint (LHALF (ulH q)), uint (HHALF (ulL q)), uint (LHALF (ulL q))]"

definition undigits :: "int list \<Rightarrow> u64" where
  "undigits ds = uu (word_of_int (COMBINE (ds ! 0) (ds ! 1))) (word_of_int (COMBINE (ds ! 2) (ds ! 3)))"

text \<open>Quotient and remainder; \<open>None\<close> for the division by zero, which the source performs on purpose.\<close>

definition qdivrem :: "u64 \<Rightarrow> u64 \<Rightarrow> (u64 \<times> u64) option" where
  "qdivrem uq vq = (if vq = 0 then None
   else if uq < vq then Some (0, uq)
   else let u = 0 # digits4 uq; v = 0 # digits4 vq in
     (case lead_v 4 v of
        Inl v \<Rightarrow> let (q, r) = short_div u (v ! 2) in Some (undigits q, word_of_int r)
      | Inr (n, v) \<Rightarrow> do {
          (m, u) \<leftarrow> lead_u (4 - n) u;
          d \<leftarrow> norm (v ! 1) 0;
          let u = (if 0 < d then shl u (m + n) d else u);
          let v = (if 0 < d then hd v # shl (tl v) (n - 1) d else v);
          (q, u) \<leftarrow> div_loop v n 0 (m + 1) u;
          let u = (if 0 < d then unshift d m n u else u);
          Some (undigits (replicate (3 - m) 0 @ q), undigits (tl (replicate (5 - length u) 0 @ u))) }))"


text \<open>The clients.  \<^verbatim>\<open>neg\<close> counts the negative operands modulo two.\<close>

definition udivdi3 :: "u64 \<Rightarrow> u64 \<Rightarrow> u64 option" where
  "udivdi3 a b = map_option fst (qdivrem a b)"

definition umoddi3 :: "u64 \<Rightarrow> u64 \<Rightarrow> u64 option" where
  "umoddi3 a b = map_option snd (qdivrem a b)"

definition divdi3 :: "u64 \<Rightarrow> u64 \<Rightarrow> u64 option" where
  "divdi3 a b = (let
     (ua, neg) = (if sint a < 0 then (- a, True) else (a, False));
     (ub, neg) = (if sint b < 0 then (- b, \<not> neg) else (b, neg))
   in do { (uq, _) \<leftarrow> qdivrem ua ub; Some (if neg then - uq else uq) })"

definition moddi3 :: "u64 \<Rightarrow> u64 \<Rightarrow> u64 option" where
  "moddi3 a b = (let
     (ua, neg) = (if sint a < 0 then (- a, True) else (a, False));
     ub = (if sint b < 0 then - b else b)
   in do { (_, ur) \<leftarrow> qdivrem ua ub; Some (if neg then - ur else ur) })"

section \<open>Digits\<close>

abbreviation is_digit :: "int \<Rightarrow> bool" where "is_digit x \<equiv> 0 \<le> x \<and> x < BB"
definition digs :: "int list \<Rightarrow> bool" where "digs u \<longleftrightarrow> (\<forall>x \<in> set u. is_digit x)"

lemma uint32_id: "0 \<le> x \<Longrightarrow> x < 2 ^ 32 \<Longrightarrow> uint32 x = x"
  by (simp add: uint32_def)

lemma push_or: "0 \<le> b \<Longrightarrow> b < 2 ^ k \<Longrightarrow> push_bit k a OR b = a * 2 ^ k + (b :: int)"
proof -
  assume b: "0 \<le> b" "b < 2 ^ k"
  then have "take_bit k b = b" by (simp add: take_bit_int_eq_self)
  then have "bit b n \<Longrightarrow> n < k" for n by (metis bit_take_bit_iff)
  then have "push_bit k a AND b = 0" by (auto intro!: bit_eqI simp: bit_simps) (meson leD)
  then show ?thesis by (simp add: disjunctive_add_eq_or [symmetric] push_bit_eq_mult)
qed

lemma COMBINE_eq: "is_digit a \<Longrightarrow> is_digit b \<Longrightarrow> COMBINE a b = a * BB + b"
proof -
  assume *: "is_digit a" "is_digit b"
  then have "uint32 (push_bit 16 a) = push_bit 16 a" by (intro uint32_id) (simp_all add: push_bit_eq_mult)
  with * push_or [of b 16 a] show ?thesis by (simp add: COMBINE_def)
qed

section \<open>The trial quotient\<close>

lemma scaled_less:
  fixes a b R x y :: int
  assumes "a < b" "0 \<le> x" "x < R" "0 \<le> y"
  shows "a * R + x < b * R + y"
proof -
  have "(a + 1) * R \<le> b * R" using assms by (intro mult_right_mono) simp_all
  then show ?thesis using assms by (simp add: distrib_right)
qed

lemma quot_less: "0 < V \<Longrightarrow> U < q * V \<Longrightarrow> U div V < (q :: int)"
  by (smt (verit) mult_right_mono pos_mod_sign div_mult_mod_eq)

lemma quot_ge: "0 < V \<Longrightarrow> q * V \<le> U \<Longrightarrow> q \<le> U div (V :: int)"
  using zdiv_mono1 [of "q * V" U V] by simp

lemma top_quotient:
  fixes Q R V U vr ur :: int
  assumes "Q * D \<le> T" "V = D * R + vr" "U = T * R + ur" "0 \<le> ur" "vr < R" "0 \<le> vr" "BB * R \<le> V" "0 \<le> Q" "Q < BB"
  shows "Q \<le> U div V + 1"
proof -
  have R: "0 < R" using assms by simp
  have V: "0 < V" using assms(7) R by simp
  have "Q * V = (Q * D) * R + Q * vr" using assms(2) by (simp add: algebra_simps)
  also have "\<dots> \<le> T * R + Q * vr" using assms(1) R by simp
  also have "\<dots> \<le> U + BB * R" using assms by (intro add_mono mult_mono) simp_all
  finally have "Q * V \<le> U + V" using assms(7) by simp
  then have "(Q - 1) * V \<le> U" by (simp add: algebra_simps)
  then have "Q - 1 \<le> U div V" by (rule quot_ge [OF V])
  then show ?thesis by simp
qed

lemma qhat_loop_ok:
  fixes R V U vr ur :: int
  assumes d: "is_digit v1" "is_digit v2" "is_digit u2" "1 \<le> v1"
    and V: "V = (v1 * BB + v2) * R + vr" "0 \<le> vr" and U: "U = (N * BB + u2) * R + ur" "0 \<le> ur" "ur < R" and pos: "0 < V"
  shows "is_digit q \<Longrightarrow> is_digit r \<Longrightarrow> q * v1 + r = N \<Longrightarrow> U div V \<le> q \<Longrightarrow> 0 \<le> U div V \<Longrightarrow>
    \<exists>q'. qhat_loop v1 v2 u2 q r = Some q' \<and> U div V \<le> q' \<and> q' < BB \<and> q' * (v1 * BB + v2) \<le> N * BB + u2"
proof (induction "nat (BB - r)" arbitrary: q r rule: less_induct)
  case less
  have prod: "0 \<le> v2 * q" "v2 * q < BB * BB"
    using less.prems(1) d(2) by (simp, intro mult_strict_mono') simp_all
  have cond: "uint32 (v2 * q) > COMBINE r u2 \<longleftrightarrow> v2 * q > r * BB + u2"
    using prod d(3) less.prems(2) by (simp add: uint32_id COMBINE_eq)
  have expand: "q * (v1 * BB + v2) = (N - r) * BB + v2 * q"
    using less.prems(3) by (auto simp: algebra_simps)
  show ?case
  proof (cases "v2 * q > r * BB + u2")
    case False
    then have "q * (v1 * BB + v2) \<le> N * BB + u2" using expand by (simp add: algebra_simps)
    then show ?thesis using False cond less.prems by (subst qhat_loop.simps) simp
  next
    case True
    then have "N * BB + u2 < q * (v1 * BB + v2)" using expand by (simp add: algebra_simps)
    then have "U < (q * (v1 * BB + v2)) * R + 0" using U by (simp only:) (rule scaled_less; simp)
    also have "\<dots> \<le> q * V" using V less.prems(1) by (simp add: algebra_simps)
    finally have "U div V < q" using quot_less pos by blast
    then have q1: "U div V \<le> q - 1" "is_digit (q - 1)" "(q - 1) * v1 + (r + v1) = N"
      using less.prems by (auto simp: algebra_simps)
    have u: "uint32 (q - 1) = q - 1" "uint32 (r + v1) = r + v1"
      using q1 d(1) less.prems(2) by (simp_all add: uint32_id)
    show ?thesis
    proof (cases "r + v1 \<ge> BB")
      case True
      have "(q - 1) * (v1 * BB + v2) = (N - (r + v1)) * BB + v2 * (q - 1)"
        using q1(3) by (auto simp: algebra_simps)
      moreover have "v2 * (q - 1) \<le> BB * BB" using prod d(2) by (simp add: algebra_simps)
      moreover have "BB * BB \<le> (r + v1) * BB" using True by simp
      ultimately have "(q - 1) * (v1 * BB + v2) \<le> N * BB + u2" using d(3) by (simp add: algebra_simps)
      with True show ?thesis using \<open>v2 * q > r * BB + u2\<close> cond q1 u by (subst qhat_loop.simps) simp
    next
      case False
      then have "\<exists>q'. qhat_loop v1 v2 u2 (q - 1) (r + v1) = Some q' \<and> U div V \<le> q' \<and> q' < BB \<and> q' * (v1 * BB + v2) \<le> N * BB + u2"
        using d(1,4) less.prems(2,5) by (intro less.hyps q1) simp_all
      with False show ?thesis using \<open>v2 * q > r * BB + u2\<close> cond u by (subst qhat_loop.simps) simp
    qed
  qed
qed

lemma trial_ok:
  fixes R V U vr ur :: int
  assumes d: "is_digit v1" "is_digit v2" "is_digit u0" "is_digit u1" "is_digit u2" "1 \<le> v1"
    and V: "V = (v1 * BB + v2) * R + vr" "0 \<le> vr" "vr < R"
    and U: "U = ((u0 * BB + u1) * BB + u2) * R + ur" "0 \<le> ur" "ur < R" and lt: "U < V * BB"
  shows "\<exists>q. trial v1 v2 u0 u1 u2 = Some q \<and> U div V \<le> q \<and> q \<le> U div V + 1 \<and> is_digit q"
proof -
  have R: "0 < R" using U by simp
  have VR: "BB * R \<le> V"
  proof -
    have *: "BB * R \<le> (v1 * BB + v2) * R" using d R by (intro mult_right_mono) simp_all
    show ?thesis unfolding V(1) using add_mono [OF * V(2)] by simp
  qed
  then have pos: "0 < V" using R by simp
  have U0: "0 \<le> U" using U d R by simp
  have quot: "0 \<le> U div V" "U div V < BB" using U0 pos lt quot_less [of V U BB] by (simp_all add: pos_imp_zdiv_nonneg_iff mult.commute)
  define N where "N = u0 * BB + u1"
  note loop = qhat_loop_ok [OF d(1,2,5,6) V(1,2) U [folded N_def] pos]
  have finish: "\<exists>q. trial v1 v2 u0 u1 u2 = Some q \<and> U div V \<le> q \<and> q \<le> U div V + 1 \<and> is_digit q"
    if "trial v1 v2 u0 u1 u2 = Some q'" "U div V \<le> q'" "q' < BB" "q' * (v1 * BB + v2) \<le> N * BB + u2" for q'
    using that top_quotient [OF that(4) V(1) U(1) [folded N_def] U(2) V(3,2) VR] quot by simp
  have leN: "(U div V) * v1 \<le> N"
  proof (rule ccontr)
    assume "\<not> ?thesis"
    then have "N * BB + u2 < (U div V) * v1 * BB" using d(5) by simp
    then have "U < ((U div V) * v1 * BB) * R + 0" using U unfolding N_def [symmetric] by (simp only:) (rule scaled_less; simp)
    also have "\<dots> \<le> (U div V) * V" using V d(2) R quot(1) by (simp add: algebra_simps)
    also have "\<dots> \<le> U" using pos_mod_sign [OF pos, of U] div_mult_mod_eq [of U V] by linarith
    finally show False by simp
  qed
  show ?thesis
  proof (cases "u0 = v1")
    case True
    have u: "uint32 (BB - 1) = BB - 1" "uint32 (u1 + v1) = u1 + v1" using d by (simp_all add: uint32_id)
    have eq: "(BB - 1) * v1 + (u1 + v1) = N" using True by (simp add: N_def)
    show ?thesis
    proof (cases "u1 + v1 \<ge> BB")
      case True
      then show ?thesis
        using \<open>u0 = v1\<close> u quot eq d by (intro finish [of "BB - 1"]) (simp_all add: trial_def Let_def algebra_simps)
    next
      case False
      then obtain q' where "qhat_loop v1 v2 u2 (BB - 1) (u1 + v1) = Some q'" "U div V \<le> q'" "q' < BB" "q' * (v1 * BB + v2) \<le> N * BB + u2"
        using loop [of "BB - 1" "u1 + v1"] eq quot d by auto
      then show ?thesis using \<open>u0 = v1\<close> u False by (intro finish [of q']) (simp_all add: trial_def)
    qed
  next
    case False
    have "u0 < v1"
    proof (rule ccontr)
      assume "\<not> u0 < v1"
      then have "v1 * BB + v2 + 1 \<le> u0 * BB" using False d by simp
      then have "(v1 * BB + v2 + 1) * BB \<le> (u0 * BB + u1) * BB + u2" using d by simp
      then have "((v1 * BB + v2 + 1) * BB) * R \<le> U" using U R by (simp only: U(1)) (simp add: add_increasing2 mult_right_mono)
      moreover have "V * BB \<le> ((v1 * BB + v2 + 1) * BB) * R" unfolding V(1) using V(3) by (simp add: algebra_simps)
      ultimately show False using lt by simp
    qed
    then have N: "N < v1 * BB" "0 \<le> N" using d by (simp_all add: N_def)
    have "N mod v1 < v1" using d(6) by (intro pos_mod_bound) simp
    then have "is_digit (N mod v1)" using d(1,6) pos_mod_sign [of v1 N] by linarith
    moreover have "is_digit (N div v1)" "N div v1 * v1 + N mod v1 = N" "U div V \<le> N div v1"
      using N d quot_less [of v1 N BB] quot_ge [of v1 "U div V" N] leN
      by (auto simp: pos_imp_zdiv_nonneg_iff mult.commute)
    ultimately obtain q' where "qhat_loop v1 v2 u2 (N div v1) (N mod v1) = Some q'" "U div V \<le> q'" "q' < BB" "q' * (v1 * BB + v2) \<le> N * BB + u2"
      using loop [of "N div v1" "N mod v1"] quot by auto
    then show ?thesis using False d by (intro finish [of q']) (simp_all add: trial_def COMBINE_eq N_def)
  qed
qed

section \<open>Numbers in base \<open>2 ^ 16\<close>\<close>

text \<open>\<open>num u a i\<close>: the number whose digits are \<open>u[a], \<dots>, u[a + i - 1]\<close>, most significant first.\<close>

primrec num :: "int list \<Rightarrow> nat \<Rightarrow> nat \<Rightarrow> int" where
  "num u a 0 = 0"
| "num u a (Suc i) = num u a i * BB + u ! (a + i)"

lemma num_split: "num u a (i + k) = num u a i * BB ^ k + num u (a + i) k"
  by (induction k) (simp_all add: algebra_simps)

lemma num_first: "num u a (Suc i) = u ! a * BB ^ i + num u (Suc a) i"
  using num_split [of u a 1 i] by simp

lemma num_Cons: "num (x # u) (Suc a) i = num u a i"
  by (induction i) simp_all

lemma num_cong: "(\<And>k. a \<le> k \<Longrightarrow> k < a + i \<Longrightarrow> u ! k = w ! k) \<Longrightarrow> num u a i = num w a i"
  by (induction i) simp_all

lemma num_upd [simp]: "k < a \<or> a + i \<le> k \<Longrightarrow> num (u[k := x]) a i = num u a i"
  by (rule num_cong) (auto simp: nth_list_update)

lemma digs_nth: "digs u \<Longrightarrow> k < length u \<Longrightarrow> is_digit (u ! k)"
  unfolding digs_def by (meson nth_mem)

lemma num_bounds: "digs u \<Longrightarrow> a + i \<le> length u \<Longrightarrow> 0 \<le> num u a i \<and> num u a i < BB ^ i"
proof (induction i)
  case (Suc i)
  then have "is_digit (u ! (a + i))" by (intro digs_nth) simp_all
  moreover have "num u a i + 1 \<le> BB ^ i" "0 \<le> num u a i" using Suc by simp_all
  moreover from this(1) have "(num u a i + 1) * BB \<le> BB ^ i * BB" by (rule mult_right_mono) simp
  ultimately show ?case unfolding num.simps power_Suc2 by (simp add: distrib_right)
qed simp

lemma digs_upd [simp]: "digs u \<Longrightarrow> is_digit x \<Longrightarrow> digs (u[k := x])"
  unfolding digs_def all_set_conv_all_nth length_list_update by (metis nth_list_update nth_list_update_neq)

lemma half_digit: "is_digit (lhalf x)"
  by (simp add: lhalf_def)

text \<open>One digit of the subtraction: the stored digit and the borrow.\<close>

lemma split_mod: "uint32 y = BB * (y div BB mod BB) + y mod BB"
proof -
  have "uint32 y = y mod (BB * BB)" by (simp add: uint32_def)
  then show ?thesis by (simp only: zmod_zmult2_eq [of BB y BB])
qed

lemma divmod_digit: "0 \<le> r \<Longrightarrow> r < c \<Longrightarrow> (c * k + r) mod c = r \<and> (c * k + r) div c = (k :: int)"
  by (simp add: div_add1_eq)

lemma halves: "lhalf (uint32 y) = y mod BB" "hhalf (uint32 y) = y div BB mod BB"
proof -
  have "0 \<le> y mod BB" "y mod BB < BB" by simp_all
  from divmod_digit [OF this, of "y div BB mod BB"]
  show "lhalf (uint32 y) = y mod BB" "hhalf (uint32 y) = y div BB mod BB"
    unfolding lhalf_def hhalf_def split_mod by (rule conjunct1, rule conjunct2)
qed

lemma neg_mod: "(c - z mod c) mod c = (- z) mod (c :: int)"
  by (simp add: mod_diff_right_eq minus_mod_int_eq) (metis add.left_neutral diff_0 minus_mod_self1 mod_diff_right_eq mod_self)

lemma sub_digit:
  assumes "is_digit a" "is_digit b" "is_digit q" "is_digit t"
  defines "y \<equiv> a - b * q - t"
  defines "t' \<equiv> (BB - hhalf (uint32 y)) mod BB"
  shows "y = lhalf (uint32 y) - t' * BB" "is_digit t'"
proof -
  have "b * q \<le> (BB - 1) * (BB - 1)" using assms(2,3) by (intro mult_mono) simp_all
  then have "- ((BB - 1) * BB) \<le> y" using assms(1,4) by (simp add: y_def)
  then have z: "- (BB - 1) \<le> y div BB" using quot_ge [of BB "- (BB - 1)" y] by simp
  have "0 \<le> b * q" using assms(2,3) by simp
  then have "y < BB" using assms(1,4) by (simp add: y_def)
  then have z0: "y div BB \<le> 0" using quot_less [of BB y 1] by simp
  have "t' = (- (y div BB)) mod BB" unfolding t'_def halves neg_mod by (rule refl)
  also have "\<dots> = - (y div BB)" using z z0 by (intro mod_pos_pos_trivial) linarith+
  finally have t': "t' = - (y div BB)" .
  then show "y = lhalf (uint32 y) - t' * BB" "is_digit t'"
    using z z0 div_mult_mod_eq [of y BB] unfolding halves by linarith+
qed

lemma add_digit:
  assumes "is_digit a" "is_digit b" "t = 0 \<or> t = 1"
  defines "y \<equiv> t + (a + b)"
  shows "y = lhalf (uint32 y) + hhalf (uint32 y) * BB" "hhalf (uint32 y) = 0 \<or> hhalf (uint32 y) = 1"
proof -
  have y: "0 \<le> y" "y < 2 * BB" using assms by auto
  then have "uint32 y = y" by (intro uint32_id) simp_all
  then have *: "lhalf (uint32 y) = y mod BB" "hhalf (uint32 y) = y div BB" by (simp_all only: lhalf_def hhalf_def)
  have "y div BB < 2" "0 \<le> y div BB" using quot_less [of BB y 2] quot_ge [of BB 0 y] y by simp_all
  then show "y = lhalf (uint32 y) + hhalf (uint32 y) * BB" "hhalf (uint32 y) = 0 \<or> hhalf (uint32 y) = 1"
    unfolding * using div_mult_mod_eq [of y BB] by linarith+
qed

section \<open>Multiply and subtract, add back\<close>

text \<open>\<open>same_out a i u w\<close>: the digits outside \<open>a, \<dots>, a + i - 1\<close> are the same.\<close>

definition same_out :: "nat \<Rightarrow> nat \<Rightarrow> int list \<Rightarrow> int list \<Rightarrow> bool" where
  "same_out a i u w \<longleftrightarrow> length w = length u \<and> digs w \<and> (\<forall>k. k < a \<or> a + i \<le> k \<longrightarrow> w ! k = u ! k)"

lemma same_out_step:
  assumes "digs u" "is_digit x" "same_out a i (u[a + i := x]) w"
  shows "same_out a (Suc i) u w"
  using assms unfolding same_out_def by (auto simp: nth_list_update)

lemma same_out_top: "same_out a i (u[a + i := x]) w \<Longrightarrow> a + i < length u \<Longrightarrow> w ! (a + i) = x"
  by (simp add: same_out_def)

lemma mulsub_ok:
  assumes v: "digs v" "is_digit q"
  shows "digs u \<Longrightarrow> is_digit t \<Longrightarrow> j + i < length u \<Longrightarrow> i < length v \<Longrightarrow> mulsub v q j i t u = (t', u') \<Longrightarrow>
    same_out (Suc j) i u u' \<and> is_digit t' \<and>
    num u' (Suc j) i - t' * BB ^ i = num u (Suc j) i - q * num v 1 i - t"
proof (induction i arbitrary: t u)
  case 0
  then show ?case by (simp add: same_out_def)
next
  case (Suc i)
  define y where "y = u ! (Suc i + j) - v ! Suc i * q - t"
  define x where "x = uint32 y"
  define s where "s = (BB - hhalf x) mod BB"
  have a: "is_digit (u ! (Suc i + j))" "is_digit (v ! Suc i)"
    using Suc.prems v by (auto intro!: digs_nth)
  have y: "y = lhalf x - s * BB" "is_digit s"
    using sub_digit [OF a v(2) Suc.prems(2)] unfolding y_def x_def s_def by blast+
  have "mulsub v q j i s (u[Suc i + j := lhalf x]) = (t', u')"
    using Suc.prems(5) by (simp only: mulsub.simps Let_def y_def [symmetric] x_def [symmetric] s_def [symmetric])
  moreover have "digs (u[Suc i + j := lhalf x])" using Suc.prems(1) half_digit by (rule digs_upd)
  ultimately have IH: "same_out (Suc j) i (u[Suc i + j := lhalf x]) u'" "is_digit t'"
      "num u' (Suc j) i - t' * BB ^ i = num (u[Suc i + j := lhalf x]) (Suc j) i - q * num v 1 i - s"
    using Suc.IH [of "u[Suc i + j := lhalf x]" s] Suc.prems(3,4) y(2) by simp_all
  have same: "same_out (Suc j) (Suc i) u u'"
    using same_out_step [OF Suc.prems(1) half_digit, of "Suc j" i x u'] IH(1) by (simp add: add.commute)
  have e: "Suc i + j = Suc j + i" by simp
  have top: "u' ! (Suc j + i) = lhalf x"
    by (rule same_out_top [OF IH(1) [unfolded e]]) (use Suc.prems(3) in simp)
  have "num u' (Suc j) (Suc i) - t' * BB ^ Suc i = (num u' (Suc j) i - t' * BB ^ i) * BB + lhalf x"
    unfolding num.simps top power_Suc by (simp add: algebra_simps)
  also have "\<dots> = (num u (Suc j) i - q * num v 1 i - s) * BB + lhalf x"
    using IH(3) by simp
  also have "\<dots> = (num u (Suc j) i - q * num v 1 i) * BB + y"
    using y(1) by (simp add: algebra_simps)
  also have "\<dots> = num u (Suc j) (Suc i) - q * num v 1 (Suc i) - t"
    by (simp add: y_def algebra_simps)
  finally show ?case using same IH(2) by blast
qed

lemma addback_ok:
  assumes v: "digs v"
  shows "digs u \<Longrightarrow> t = 0 \<or> t = 1 \<Longrightarrow> j + i < length u \<Longrightarrow> i < length v \<Longrightarrow> addback v j i t u = (t', u') \<Longrightarrow>
    same_out (Suc j) i u u' \<and> (t' = 0 \<or> t' = 1) \<and>
    num u' (Suc j) i + t' * BB ^ i = num u (Suc j) i + num v 1 i + t"
proof (induction i arbitrary: t u)
  case 0
  then show ?case by (simp add: same_out_def)
next
  case (Suc i)
  define y where "y = t + (u ! (Suc i + j) + v ! Suc i)"
  define x where "x = uint32 y"
  define s where "s = hhalf x"
  have a: "is_digit (u ! (Suc i + j))" "is_digit (v ! Suc i)"
    using Suc.prems v by (auto intro!: digs_nth)
  have y: "y = lhalf x + s * BB" "s = 0 \<or> s = 1"
    using add_digit [OF a Suc.prems(2)] unfolding y_def x_def s_def by blast+
  have "addback v j i s (u[Suc i + j := lhalf x]) = (t', u')"
    using Suc.prems(5) by (simp only: addback.simps Let_def y_def [symmetric] x_def [symmetric] s_def [symmetric])
  moreover have "digs (u[Suc i + j := lhalf x])" using Suc.prems(1) half_digit by (rule digs_upd)
  ultimately have IH: "same_out (Suc j) i (u[Suc i + j := lhalf x]) u'" "t' = 0 \<or> t' = 1"
      "num u' (Suc j) i + t' * BB ^ i = num (u[Suc i + j := lhalf x]) (Suc j) i + num v 1 i + s"
    using Suc.IH [of "u[Suc i + j := lhalf x]" s] Suc.prems(3,4) y(2) by simp_all
  have same: "same_out (Suc j) (Suc i) u u'"
    using same_out_step [OF Suc.prems(1) half_digit, of "Suc j" i x u'] IH(1) by (simp add: add.commute)
  have e: "Suc i + j = Suc j + i" by simp
  have top: "u' ! (Suc j + i) = lhalf x"
    by (rule same_out_top [OF IH(1) [unfolded e]]) (use Suc.prems(3) in simp)
  have "num u' (Suc j) (Suc i) + t' * BB ^ Suc i = (num u' (Suc j) i + t' * BB ^ i) * BB + lhalf x"
    unfolding num.simps top power_Suc by (simp add: algebra_simps)
  also have "\<dots> = (num u (Suc j) i + num v 1 i + s) * BB + lhalf x"
    using IH(3) by simp
  also have "\<dots> = (num u (Suc j) i + num v 1 i) * BB + y"
    using y(1) by (simp add: algebra_simps)
  also have "\<dots> = num u (Suc j) (Suc i) + num v 1 (Suc i) + t"
    by (simp add: y_def algebra_simps)
  finally show ?case using same IH(2) by blast
qed

section \<open>One step of the division\<close>

lemma sign_of_top:
  fixes a N P :: int
  assumes "0 \<le> N" "N < P" "- P \<le> a * P + N" "a * P + N < P"
  shows "a = 0 \<or> a = - 1"
proof -
  have "a < 1"
  proof (rule ccontr)
    assume "\<not> a < 1"
    then have "1 * P \<le> a * P" using assms by (intro mult_right_mono) simp_all
    with assms show False by simp
  qed
  moreover have "- 2 < a"
  proof (rule ccontr)
    assume "\<not> - 2 < a"
    then have "a * P \<le> - 2 * P" using assms by (intro mult_right_mono) simp_all
    with assms show False by simp
  qed
  ultimately show ?thesis by auto
qed


lemma same_out_refl: "digs u \<Longrightarrow> same_out a i u u"
  by (simp add: same_out_def)

lemma same_out_trans: "same_out a i u w \<Longrightarrow> same_out a i w z \<Longrightarrow> same_out a i u z"
  by (simp add: same_out_def)

lemma same_out_head: "same_out (Suc j) i u w \<Longrightarrow> is_digit x \<Longrightarrow> same_out j (Suc i) u (w[j := x])"
  unfolding same_out_def by (auto simp: nth_list_update)

text \<open>D4 to D6, once the trial quotient is right or one too large: the digits \<open>u[j], \<dots>, u[j + n]\<close> become the remainder.\<close>

lemma div_digits:
  assumes digs: "digs u" "digs v" and len: "j + n < length u" "n < length v" and V: "0 < num v 1 n"
    and q: "num u j (Suc n) div num v 1 n \<le> q" "q \<le> num u j (Suc n) div num v 1 n + 1" "is_digit q"
    and m: "mulsub v q j n 0 u = (t, w)"
  defines "U \<equiv> num u j (Suc n)" and "V \<equiv> num v 1 n" and "x \<equiv> w ! j - t"
  shows "same_out (Suc j) n u w"
    and "(x = 0 \<and> q = U div V \<and> num w (Suc j) n = U mod V) \<or> (x = - 1 \<and> q = U div V + 1 \<and> num w (Suc j) n + V = U mod V + BB ^ n)"
proof -
  have w: "same_out (Suc j) n u w" "num w (Suc j) n - t * BB ^ n = num u (Suc j) n - q * V"
    using mulsub_ok [OF digs(2) q(3) digs(1) _ len m] by (simp_all add: V_def)
  then show "same_out (Suc j) n u w" by simp
  have wd: "digs w" "length w = length u" "w ! j = u ! j" using w(1) by (simp_all add: same_out_def)
  have W: "x * BB ^ n + num w (Suc j) n = U - q * V"
    using w(2) wd(3) num_first [of u j n] by (simp add: U_def x_def algebra_simps)
  have N: "0 \<le> num w (Suc j) n" "num w (Suc j) n < BB ^ n" "V < BB ^ n"
    using num_bounds [of w "Suc j" n] num_bounds [of v 1 n] wd digs len by (simp_all add: V_def)
  have dm: "0 \<le> U mod V" "U mod V < V" "U = U div V * V + U mod V"
    using V by (simp_all add: V_def)
  consider "q = U div V" "x * BB ^ n + num w (Suc j) n = U mod V"
    | "q = U div V + 1" "x * BB ^ n + num w (Suc j) n = U mod V - V"
  proof -
    have "q = U div V \<or> q = U div V + 1" using q(1,2) unfolding U_def V_def by linarith
    moreover have "U - U div V * V = U mod V" "U - (U div V + 1) * V = U mod V - V"
      unfolding distrib_right mult_1 using dm(3) by linarith+
    ultimately show thesis using that W by metis
  qed
  then show "(x = 0 \<and> q = U div V \<and> num w (Suc j) n = U mod V) \<or> (x = - 1 \<and> q = U div V + 1 \<and> num w (Suc j) n + V = U mod V + BB ^ n)"
  proof cases
    case 1
    then have "x = 0 \<or> x = - 1" using N dm by (intro sign_of_top [of "num w (Suc j) n" "BB ^ n"]) linarith+
    then show ?thesis using 1 N dm by auto
  next
    case 2
    then have "x = 0 \<or> x = - 1" using N dm by (intro sign_of_top [of "num w (Suc j) n" "BB ^ n"]) linarith+
    then show ?thesis using 2 N dm by auto
  qed
qed

lemma zero_halves: "hhalf (uint32 0) = 0" "lhalf (uint32 0) = 0"
  by (simp_all add: halves)

lemma minus_one_halves: "hhalf (uint32 (- 1)) = BB - 1" "lhalf (uint32 (- 1)) = BB - 1"
  by (simp_all add: halves)

lemma div_step_ok:
  assumes digs: "digs u" "digs v" and len: "j + n < length u" "n < length v" and n: "2 \<le> n" and v1: "1 \<le> v ! 1"
    and lt: "num u j (Suc n) < num v 1 n * BB"
  shows "\<exists>u'. div_step v n j u = Some (num u j (Suc n) div num v 1 n, u') \<and> same_out j (Suc n) u u' \<and>
    num u' j (Suc n) = num u j (Suc n) mod num v 1 n"
proof -
  define U V where "U = num u j (Suc n)" and "V = num v 1 n"
  obtain k where k: "n = 2 + k" using n le_Suc_ex by blast
  have V: "V = (v ! 1 * BB + v ! 2) * BB ^ k + num v 3 k" "0 \<le> num v 3 k" "num v 3 k < BB ^ k"
    using num_split [of v 1 2 k] num_bounds [of v 3 k] len digs by (simp_all add: V_def k numeral_2_eq_2 numeral_3_eq_3)
  have U: "U = ((u ! j * BB + u ! (j + 1)) * BB + u ! (j + 2)) * BB ^ k + num u (j + 3) k" "0 \<le> num u (j + 3) k" "num u (j + 3) k < BB ^ k"
    using num_split [of u j 3 k] num_bounds [of u "j + 3" k] len digs by (simp_all add: U_def k numeral_2_eq_2 numeral_3_eq_3)
  have dg: "is_digit (v ! 1)" "is_digit (v ! 2)" "is_digit (u ! j)" "is_digit (u ! (j + 1))" "is_digit (u ! (j + 2))"
    using digs_nth [OF digs(2), of 1] digs_nth [OF digs(2), of 2] digs_nth [OF digs(1), of j]
      digs_nth [OF digs(1), of "j + 1"] digs_nth [OF digs(1), of "j + 2"] len k by simp_all
  obtain q where q: "trial (v ! 1) (v ! 2) (u ! j) (u ! (j + 1)) (u ! (j + 2)) = Some q" "U div V \<le> q" "q \<le> U div V + 1" "is_digit q"
    using trial_ok [OF dg v1 V U] lt unfolding U_def V_def by blast
  have PV: "0 < V" using V v1 dg by (simp add: add_pos_nonneg)
  obtain t w where m: "mulsub v q j n 0 u = (t, w)" by (cases "mulsub v q j n 0 u")
  note d = div_digits [OF digs len PV [unfolded V_def] q(2-4) [unfolded U_def V_def] m, folded U_def V_def]
  have lq: "lhalf q = q" using q(4) by (simp add: lhalf_def)
  have out: "same_out j (Suc n) u (z[j := 0])" if "same_out (Suc j) n u z" for z
    using that by (rule same_out_head) simp
  have val: "num (z[j := 0]) j (Suc n) = num z (Suc j) n" if "same_out (Suc j) n u z" for z
    using that len by (simp add: num_first same_out_def del: num.simps)
  from d(2) show ?thesis
  proof
    assume x: "w ! j - t = 0 \<and> q = U div V \<and> num w (Suc j) n = U mod V"
    then have x0: "w ! j - t = 0" and xq: "U div V = q" by blast+
    have "div_step v n j u = Some (U div V, w[j := 0])"
      unfolding div_step_def q(1) xq by (simp add: m lq zero_halves x0 del: right_minus_eq num.simps)
    moreover have "num (w[j := 0]) j (Suc n) = U mod V" using val [OF d(1)] x by (simp only:)
    ultimately show ?thesis using out [OF d(1)] unfolding U_def V_def by blast
  next
    assume x: "w ! j - t = - 1 \<and> q = U div V + 1 \<and> num w (Suc j) n + V = U mod V + BB ^ n"
    define w' where "w' = w[j := 65535]"
    obtain s z where a: "addback v j n 0 w' = (s, z)" by (cases "addback v j n 0 w'")
    have w: "digs w'" "length w' = length u" using d(1) by (auto simp: same_out_def w'_def)
    have z: "same_out (Suc j) n w' z" "s = 0 \<or> s = 1" "num z (Suc j) n + s * BB ^ n = num w' (Suc j) n + V"
      using addback_ok [OF digs(2) w(1) _ _ len(2) a] len w(2) by (simp_all add: V_def)
    have zd: "digs z" "length z = length u" "z ! j = BB - 1" using z(1) w(2) len by (auto simp: same_out_def w'_def)
    have "num z (Suc j) n < BB ^ n" using num_bounds [of z "Suc j" n] zd len by simp
    moreover have nw: "num w' (Suc j) n = num w (Suc j) n" by (simp add: w'_def)
    moreover have "0 \<le> U mod V" using PV by simp
    ultimately have s: "s = 1" "num z (Suc j) n = U mod V" using z(2,3) x by auto
    have "0 \<le> U" unfolding U_def using num_bounds [OF digs(1), of j "Suc n"] len by simp
    then have "0 \<le> U div V" using PV by (simp add: pos_imp_zdiv_nonneg_iff)
    then have uq: "uint32 (q - 1) = U div V" "lhalf (U div V) = U div V"
      using x q(4) by (simp_all add: uint32_def lhalf_def)
    have dr: "lhalf (uint32 (z ! j + s)) = 0" unfolding zd(3) s(1) by (simp add: lhalf_def uint32_def)
    have x1: "w ! j - t = - 1" using x by simp
    have "div_step v n j u = Some (U div V, z[j := 0])"
      unfolding div_step_def q(1) by (simp add: m x1 a [unfolded w'_def] uq minus_one_halves dr)
    moreover have "same_out j (Suc n) u (z[j := 0])"
      using d(1) z(1) zd(1) unfolding same_out_def w'_def by (auto simp: nth_list_update)
    moreover have "num (z[j := 0]) j (Suc n) = U mod V"
      using zd len s(2) by (simp add: num_first del: num.simps)
    ultimately show ?thesis unfolding U_def V_def by blast
  qed
qed

lemma top_zero:
  fixes a N P M :: int
  assumes "a * P + N = M" "M < P" "0 \<le> N" "0 \<le> a \<and> a < b" "0 < P"
  shows "a = 0 \<and> N = M"
proof (cases "a = 0")
  case False
  then have "1 * P \<le> a * P" using assms by (intro mult_right_mono) simp_all
  then show ?thesis using assms by linarith
qed (use assms in simp)

text \<open>
  The main loop.  Digits \<open>j, \<dots>, j + k + n - 1\<close> hold what is left of the dividend, and the number on the
  first \<open>n\<close> of them is less than the divisor.
\<close>

lemma div_loop_ok:
  assumes v: "digs v" "n < length v" "2 \<le> n" "1 \<le> v ! 1"
  shows "digs u \<Longrightarrow> j + k + n \<le> length u \<Longrightarrow> num u j n < num v 1 n \<Longrightarrow>
    \<exists>q u'. div_loop v n j k u = Some (q, u') \<and> length q = k \<and> digs q \<and> same_out j (k + n) u u' \<and>
      num q 0 k = num u j (k + n) div num v 1 n \<and> num u' j k = 0 \<and>
      num u' (j + k) n = num u j (k + n) mod num v 1 n"
proof (induction k arbitrary: u j)
  case 0
  then have "0 \<le> num u j n" using num_bounds [of u j n] by simp
  with 0 show ?case by (simp add: same_out_refl digs_def)
next
  case (Suc k)
  define V where "V = num v 1 n"
  have d: "is_digit (u ! (j + n))" using Suc.prems by (intro digs_nth) simp_all
  have "num u j n + 1 \<le> V" using Suc.prems(3) unfolding V_def by simp
  then have "(num u j n + 1) * BB \<le> V * BB" by (rule mult_right_mono) simp
  then have lt: "num u j (Suc n) < V * BB" using d by (simp add: distrib_right)
  have len: "j + n < length u" using Suc.prems(2) by simp
  obtain w where w: "div_step v n j u = Some (num u j (Suc n) div V, w)" "same_out j (Suc n) u w" "num w j (Suc n) = num u j (Suc n) mod V"
    using div_step_ok [OF Suc.prems(1) v(1) len v(2-4)] lt unfolding V_def by blast
  have V: "0 < V" using num_bounds [of u j n] Suc.prems by (simp add: V_def)
  define Q where "Q = num u j (Suc n) div V"
  define T' where "T' = num w (Suc j) (k + n)"
  have wd: "digs w" "length w = length u" using w(2) by (simp_all add: same_out_def)
  have wj: "w ! j = 0 \<and> num w (Suc j) n = num u j (Suc n) mod V"
  proof -
    have "w ! j * BB ^ n + num w (Suc j) n = num u j (Suc n) mod V" using w(3) by (simp only: num_first)
    moreover have "num u j (Suc n) mod V < BB ^ n"
      using V num_bounds [of v 1 n] v(1,2) pos_mod_bound [OF V] unfolding V_def by (smt (verit) Suc_leI plus_1_eq_Suc)
    moreover have "0 \<le> num w (Suc j) n" "is_digit (w ! j)"
      using num_bounds [of w "Suc j" n] wd len by (auto intro!: digs_nth)
    ultimately show ?thesis using top_zero zero_less_power [of BB n] by (metis zero_less_numeral)
  qed
  obtain q u' where IH: "div_loop v n (Suc j) k w = Some (q, u')" "length q = k" "digs q" "same_out (Suc j) (k + n) w u'"
      "num q 0 k = T' div V" "num u' (Suc j) k = 0" "num u' (Suc j + k) n = T' mod V"
    using Suc.IH [of w "Suc j"] wd wj Suc.prems(2) V unfolding V_def T'_def by auto
  have "num w (Suc j + n) k = num u (j + Suc n) k"
    using w(2) by (simp, intro num_cong) (simp add: same_out_def)
  then have T': "T' = num u j (Suc n) mod V * BB ^ k + num u (j + Suc n) k"
    unfolding T'_def add.commute [of k n] num_split [of w "Suc j" n k] using wj by simp
  have N: "num u j (Suc k + n) = num u j (Suc n) * BB ^ k + num u (j + Suc n) k"
    using num_split [of u j "Suc n" k] by (simp only: add_Suc add_Suc_right add.commute)
  define r where "r = num u j (Suc n) mod V"
  have "num u j (Suc n) = Q * V + r" unfolding Q_def r_def by (rule div_mult_mod_eq [symmetric])
  then have T: "num u j (Suc k + n) = (Q * BB ^ k) * V + T'"
    unfolding N T' r_def [symmetric] by (simp only:) (simp add: algebra_simps)
  have Q: "is_digit Q"
    using quot_less [OF V, of _ BB] lt num_bounds [of u j "Suc n"] Suc.prems(1) len V unfolding Q_def
    by (simp add: pos_imp_zdiv_nonneg_iff del: num.simps)
  have out: "same_out j (Suc k + n) u u'"
    using w(2) IH(4) unfolding same_out_def by (auto simp: less_Suc_eq)
  have "num (Q # q) 0 (Suc k) = num u j (Suc k + n) div V"
    unfolding T num_first using IH(5) V by (simp add: num_Cons)
  moreover have "num u' (j + Suc k) n = num u j (Suc k + n) mod V"
    unfolding T using IH(7) by simp
  moreover have "num u' j (Suc k) = 0"
    using IH(4,6) wj by (simp only: num_first) (simp add: same_out_def)
  moreover have "div_loop v n j (Suc k) u = Some (Q # q, u')" using w(1) IH(1) by (simp add: Q_def del: num.simps)
  moreover have "digs (Q # q)" using Q IH(3) by (simp add: digs_def)
  ultimately show ?case using out IH(2) unfolding V_def by (metis length_Cons)
qed

section \<open>Shifts\<close>

text \<open>For a shift by \<open>d\<close>, \<open>S = 2 ^ d\<close> and \<open>S' = 2 ^ (16 - d)\<close>.\<close>

lemma shift_factors: "d \<le> 16 \<Longrightarrow> 2 ^ d * 2 ^ (16 - d) = BB"
  by (simp add: power_add [symmetric])

lemma low_part: "0 < d \<Longrightarrow> d < 16 \<Longrightarrow> lhalf (uint32 (push_bit d p)) = push_bit d (p mod 2 ^ (16 - d))"
proof -
  assume d: "0 < d" "d < 16"
  have "p * 2 ^ d mod (2 ^ (16 - d) * 2 ^ d) = p mod 2 ^ (16 - d) * 2 ^ d" by (rule mult_mod_left [symmetric])
  then show ?thesis using shift_factors [of d] d by (simp add: halves push_bit_eq_mult mult.commute)
qed

lemma shifted_digit:
  assumes "is_digit p" "is_digit q" "0 < d" "d < 16"
  shows "lhalf (uint32 (push_bit d p)) OR drop_bit (16 - d) q = p * 2 ^ d - p div 2 ^ (16 - d) * BB + q div 2 ^ (16 - d)"
    and "is_digit (lhalf (uint32 (push_bit d p)) OR drop_bit (16 - d) q)"
proof -
  define S S' :: int where "S = 2 ^ d" and "S' = 2 ^ (16 - d)"
  have SS: "S * S' = BB" "0 < S" "0 < S'" using shift_factors [of d] assms by (simp_all add: S_def S'_def)
  have q: "0 \<le> q div S'" "q div S' < S"
    using assms SS quot_less [of S' q S] by (simp_all add: pos_imp_zdiv_nonneg_iff)
  have "lhalf (uint32 (push_bit d p)) OR drop_bit (16 - d) q = p mod S' * S + q div S'"
    using q unfolding low_part [OF assms(3,4)] drop_bit_eq_div S_def S'_def by (rule push_or)
  moreover have "p mod S' * S = p * S - p div S' * BB"
    by (simp add: minus_div_mult_eq_mod [symmetric] SS(1) [symmetric] algebra_simps)
  moreover have "p mod S' * S + q div S' < BB" "0 \<le> p mod S' * S"
  proof -
    have "(p mod S' + 1) * S \<le> S' * S" using SS by (intro mult_right_mono) (simp_all add: add1_zle_eq)
    then show "p mod S' * S + q div S' < BB" using q SS(1) by (simp add: algebra_simps)
    show "0 \<le> p mod S' * S" using SS by simp
  qed
  ultimately show "lhalf (uint32 (push_bit d p)) OR drop_bit (16 - d) q = p * 2 ^ d - p div 2 ^ (16 - d) * BB + q div 2 ^ (16 - d)"
    and "is_digit (lhalf (uint32 (push_bit d p)) OR drop_bit (16 - d) q)"
    using q by (simp_all add: S_def S'_def)
qed

lemma shl_ok:
  assumes "0 < d" "d < 16"
  shows "digs p \<Longrightarrow> length p = Suc len \<Longrightarrow> digs (shl p len d) \<and> length (shl p len d) = Suc len \<and>
    num (shl p len d) 0 (Suc len) = num p 0 (Suc len) * 2 ^ d - p ! 0 div 2 ^ (16 - d) * BB ^ Suc len"
proof (induction len arbitrary: p)
  case 0
  then obtain x where "p = [x]" by (auto simp: length_Suc_conv)
  with 0 show ?case using shifted_digit [of x 0 d] assms half_digit by (simp add: digs_def)
next
  case (Suc len)
  then obtain x y ps where p: "p = x # y # ps" by (auto simp: length_Suc_conv)
  define r z where "r = shl (y # ps) len d" and "z = lhalf (uint32 (push_bit d x)) OR drop_bit (16 - d) y"
  have d: "is_digit x" "is_digit y" "digs (y # ps)" "length (y # ps) = Suc len"
    using Suc.prems p by (simp_all add: digs_def)
  have IH: "digs r" "length r = Suc len"
      "num r 0 (Suc len) = num (y # ps) 0 (Suc len) * 2 ^ d - y div 2 ^ (16 - d) * BB ^ Suc len"
    using Suc.IH [OF d(3,4)] by (simp_all add: r_def del: num.simps)
  have z: "z = x * 2 ^ d - x div 2 ^ (16 - d) * BB + y div 2 ^ (16 - d)" "is_digit z"
    unfolding z_def by (rule shifted_digit [OF d(1,2) assms])+
  have "shl p (Suc len) d = z # r" by (simp add: p r_def z_def)
  moreover have "num (z # r) 0 (Suc (Suc len)) = z * BB ^ Suc len + num r 0 (Suc len)"
    unfolding num_first [of _ _ "Suc len"] num_Cons by simp
  moreover have "\<dots> = (x * BB ^ Suc len + num (y # ps) 0 (Suc len)) * 2 ^ d - x div 2 ^ (16 - d) * BB ^ Suc (Suc len)"
    unfolding IH(3) z(1) power_Suc [of _ "Suc len"] by (simp only: algebra_simps)
  moreover have "num p 0 (Suc (Suc len)) = x * BB ^ Suc len + num (y # ps) 0 (Suc len)"
    unfolding p num_first [of _ _ "Suc len"] num_Cons by simp
  ultimately show ?case using IH z(2) by (simp add: p digs_def del: num.simps)
qed

text \<open>The normalising shift exists and brings the top bit of the first digit into place.\<close>

lemma norm_ok: "1 \<le> t \<Longrightarrow> t < BB \<Longrightarrow> \<exists>k. norm t d = Some (d + k) \<and> BB div 2 \<le> t * 2 ^ k \<and> t * 2 ^ k < BB"
proof (induction "nat (BB - t)" arbitrary: t d rule: less_induct)
  case less
  show ?case
  proof (cases "t < BB div 2")
    case True
    have u: "uint32 (push_bit 1 t) = 2 * t" using True less.prems by (simp add: uint32_def push_bit_eq_mult)
    have "nat (BB - 2 * t) < nat (BB - t)" "1 \<le> 2 * t" "2 * t < BB" using True less.prems by simp_all
    then obtain k where k: "norm (2 * t) (Suc d) = Some (Suc d + k)" "BB div 2 \<le> 2 * t * 2 ^ k" "2 * t * 2 ^ k < BB"
      using less.hyps [of "2 * t" "Suc d"] by blast
    have "norm t d = Some (d + Suc k)" using True k(1) unfolding u [symmetric] by (subst norm.simps) simp
    moreover have "BB div 2 \<le> t * 2 ^ Suc k" "t * 2 ^ Suc k < BB"
      using k(2,3) by (simp_all only: power_Suc ac_simps)
    ultimately show ?thesis by blast
  next
    case False
    then show ?thesis using less.prems by (intro exI [of _ 0]) (subst norm.simps, simp)
  qed
qed

lemma norm_less: "1 \<le> t \<Longrightarrow> t * 2 ^ k < BB \<Longrightarrow> k < 16"
proof (rule ccontr)
  assume *: "1 \<le> t" "t * 2 ^ k < BB" "\<not> k < 16"
  have "(2 :: int) ^ 16 \<le> 2 ^ k" using *(3) by (intro power_increasing) simp_all
  also have "\<dots> \<le> t * 2 ^ k" using *(1) by simp
  finally show False using *(2) by simp
qed

text \<open>The shift back divides; each digit takes the low bits of the one above it.\<close>

lemma unshifted_digit:
  assumes "is_digit p" "is_digit q" "0 < d" "d < 16"
  shows "drop_bit d q OR lhalf (uint32 (push_bit (16 - d) p)) = p mod 2 ^ d * 2 ^ (16 - d) + q div 2 ^ d"
    and "is_digit (drop_bit d q OR lhalf (uint32 (push_bit (16 - d) p)))"
proof -
  have "p * 2 ^ (16 - d) - p div 2 ^ d * BB = p mod 2 ^ d * 2 ^ (16 - d)"
    unfolding minus_div_mult_eq_mod [symmetric] shift_factors [OF less_imp_le [OF assms(4)], symmetric] by (simp add: algebra_simps)
  then show "drop_bit d q OR lhalf (uint32 (push_bit (16 - d) p)) = p mod 2 ^ d * 2 ^ (16 - d) + q div 2 ^ d"
    and "is_digit (drop_bit d q OR lhalf (uint32 (push_bit (16 - d) p)))"
    using shifted_digit [OF assms(1,2), of "16 - d"] assms(3,4) by (simp_all add: or.commute [of "drop_bit d q"])
qed

lemma scaled_div:
  fixes A b S S' R :: int
  assumes "0 < S" "S' * S = R"
  shows "A div S * R + (A mod S * S' + b div S) = (A * R + b) div S"
proof -
  have "A * R = (A div S * S + A mod S) * R" by simp
  also have "\<dots> = (A div S * R + A mod S * S') * S" unfolding assms(2) [symmetric] by (simp only: algebra_simps)
  finally have "A * R + b = (A div S * R + A mod S * S') * S + b" by simp
  then show ?thesis using assms(1) by (simp add: div_mult_self3)
qed

lemma unshift_ok:
  assumes d: "0 < d" "d < 16"
  shows "digs u \<Longrightarrow> m + k < length u \<Longrightarrow> u ! m = 0 \<Longrightarrow>
    digs (unshift d m k u) \<and> length (unshift d m k u) = length u \<and>
    (\<forall>i. i \<le> m \<or> m + k < i \<longrightarrow> unshift d m k u ! i = u ! i) \<and>
    num (unshift d m k u) (Suc m) k = num u (Suc m) k div 2 ^ d"
proof (induction k arbitrary: u)
  case 0
  then show ?case by (auto simp: nth_list_update)
next
  case (Suc k)
  define z where "z = drop_bit d (u ! (m + Suc k)) OR lhalf (uint32 (push_bit (16 - d) (u ! (m + k))))"
  define u' where "u' = u[m + Suc k := z]"
  define w where "w = unshift d m k u'"
  define A where "A = num u (Suc m) k"
  have dg: "is_digit (u ! (m + k))" "is_digit (u ! (m + Suc k))" using Suc.prems by (auto intro!: digs_nth)
  have z: "z = u ! (m + k) mod 2 ^ d * 2 ^ (16 - d) + u ! (m + Suc k) div 2 ^ d" "is_digit z"
    unfolding z_def by (rule unshifted_digit [OF dg d])+
  have "digs u'" "m + k < length u'" "u' ! m = 0" using Suc.prems z(2) by (simp_all add: u'_def)
  note step = Suc.IH [OF this, folded w_def]
  have A: "num u' (Suc m) k = A" "length u' = length u" by (simp_all add: A_def u'_def)
  have IH: "digs w" "length w = length u" "\<And>i. i \<le> m \<or> m + k < i \<Longrightarrow> w ! i = u' ! i" "num w (Suc m) k = A div 2 ^ d"
    using step unfolding A by blast+
  have wz: "w ! (Suc m + k) = z" using IH(3) [of "Suc m + k"] Suc.prems(2) by (simp add: u'_def)
  have low: "A mod 2 ^ d = u ! (m + k) mod 2 ^ d"
  proof (cases k)
    case (Suc i)
    have "A = num u (Suc m) i * 2 ^ (16 - d) * 2 ^ d + u ! (m + k)"
      using shift_factors [of d] d by (simp add: A_def Suc mult.assoc mult.commute [of "2 ^ d"])
    then show ?thesis by simp
  qed (use Suc.prems in \<open>simp add: A_def\<close>)
  have "num w (Suc m) (Suc k) = A div 2 ^ d * BB + (A mod 2 ^ d * 2 ^ (16 - d) + u ! (m + Suc k) div 2 ^ d)"
    unfolding num.simps IH(4) wz z(1) low ..
  also have "\<dots> = (A * BB + u ! (m + Suc k)) div 2 ^ d"
    by (rule scaled_div) (use shift_factors [of d] d in \<open>simp_all add: mult.commute\<close>)
  also have "A * BB + u ! (m + Suc k) = num u (Suc m) (Suc k)" by (simp add: A_def)
  finally have "num w (Suc m) (Suc k) = num u (Suc m) (Suc k) div 2 ^ d" .
  moreover have "unshift d m (Suc k) u = w" by (simp add: w_def u'_def z_def)
  moreover have "\<forall>i. i \<le> m \<or> m + Suc k < i \<longrightarrow> w ! i = u ! i" using IH(3) by (simp add: u'_def)
  ultimately show ?case using IH(1,2) by simp
qed

section \<open>Leading zeros\<close>

lemma num_tl: "u \<noteq> [] \<Longrightarrow> num (tl u) a i = num u (Suc a) i"
  by (cases u) (simp_all add: num_Cons)

lemma digs_tl: "digs u \<Longrightarrow> digs (tl u)"
  by (cases u) (simp_all add: digs_def)

lemma num_skip: "u ! a = 0 \<Longrightarrow> num u a (Suc i) = num u (Suc a) i"
  by (simp add: num_first del: num.simps)

lemma lead_v_ok:
  "2 \<le> n \<Longrightarrow> length v = Suc n \<Longrightarrow> digs v \<Longrightarrow>
   (case lead_v n v of
      Inl v' \<Rightarrow> num v 1 n = v' ! 2 \<and> is_digit (v' ! 2)
    | Inr (n', v') \<Rightarrow> 2 \<le> n' \<and> n' \<le> n \<and> length v' = Suc n' \<and> digs v' \<and> 1 \<le> v' ! 1 \<and> num v' 1 n' = num v 1 n)"
proof (induction n arbitrary: v)
  case (Suc n)
  have d: "is_digit (v ! 1)" "is_digit (v ! 2)" using Suc.prems by (auto intro!: digs_nth)
  consider "v ! 1 \<noteq> 0" | "v ! 1 = 0" "n = 1" | "v ! 1 = 0" "2 \<le> n" using Suc.prems(1) by linarith
  then show ?case
  proof cases
    case 3
    then have "num (tl v) 1 n = num v 1 (Suc n)" using Suc.prems by (subst num_tl) (auto simp: num_skip simp del: num.simps)
    then show ?thesis using 3 Suc.prems Suc.IH [of "tl v"]
      by (auto simp: digs_tl simp del: num.simps split: sum.splits)
  qed (use d Suc.prems in \<open>auto simp: numeral_2_eq_2\<close>)
qed simp

lemma lead_u_ok:
  "1 \<le> n \<Longrightarrow> length u = Suc (m + n) \<Longrightarrow> digs u \<Longrightarrow> u ! 0 = 0 \<Longrightarrow> BB ^ (n - 1) \<le> num u 1 (m + n) \<Longrightarrow>
   \<exists>m' u'. lead_u m u = Some (m', u') \<and> m' \<le> m \<and> length u' = Suc (m' + n) \<and> digs u' \<and> u' ! 0 = 0 \<and> num u' 1 (m' + n) = num u 1 (m + n)"
proof (induction m arbitrary: u)
  case 0
  have "u ! 1 \<noteq> 0"
  proof
    assume "u ! 1 = 0"
    then have "num u 1 (Suc (n - 1)) = num u 2 (n - 1)" by (subst num_skip) (simp_all add: numeral_2_eq_2)
    moreover have "num u 2 (n - 1) < BB ^ (n - 1)" using num_bounds [of u 2 "n - 1"] 0 by simp
    ultimately show False using 0 by simp
  qed
  with 0 show ?case by simp
next
  case (Suc m)
  show ?case
  proof (cases "u ! 1 = 0")
    case True
    have "num (tl u) 1 (m + n) = num u 1 (Suc m + n)"
      using Suc.prems True by (subst num_tl) (auto simp: num_skip simp del: num.simps)
    moreover have "tl u ! 0 = 0" using True Suc.prems by (simp add: nth_tl)
    ultimately obtain m' u' where "lead_u m (tl u) = Some (m', u')" "m' \<le> m" "length u' = Suc (m' + n)" "digs u'" "u' ! 0 = 0" "num u' 1 (m' + n) = num u 1 (Suc m + n)"
      using Suc.IH [of "tl u"] Suc.prems digs_tl [of u] by auto
    then show ?thesis using True by (auto simp del: num.simps)
  qed (use Suc.prems in simp)
qed

section \<open>Words and digits\<close>

lemma uint_quad: "uint q = uint (ulH q) * 2 ^ 32 + uint (ulL q)"
proof -
  have "uint q < 2 ^ 64" using uint_lt2p [of q] by simp
  then have "uint (ulH q) = uint q div 2 ^ 32"
    unfolding ulH_def unsigned_ucast_eq unsigned_drop_bit_eq using quot_less [of "2 ^ 32" "uint q" "2 ^ 32"]
    by (simp add: drop_bit_eq_div take_bit_eq_mod pos_imp_zdiv_nonneg_iff mod_pos_pos_trivial)
  moreover have "uint (ulL q) = uint q mod 2 ^ 32"
    by (simp add: ulL_def unsigned_ucast_eq take_bit_eq_mod)
  ultimately show ?thesis using div_mult_mod_eq [of "uint q" "2 ^ 32"] by (simp only:)
qed

lemma uint_half: "uint x = uint (HHALF x) * BB + uint (LHALF x)" "is_digit (uint (HHALF x))" "is_digit (uint (LHALF x))"
proof -
  have "uint x < 2 ^ 32" using uint_lt2p [of x] by simp
  moreover have h: "uint (HHALF x) = uint x div BB"
    unfolding HHALF_def unsigned_drop_bit_eq using \<open>uint x < 2 ^ 32\<close> by (simp add: drop_bit_eq_div take_bit_int_eq_self)
  moreover have l: "uint (LHALF x) = uint x mod BB"
    using take_bit_eq_mask [of 16 "uint x"] by (simp add: LHALF_def uint_and take_bit_eq_mod mask_eq_exp_minus_1)
  ultimately show "uint x = uint (HHALF x) * BB + uint (LHALF x)" "is_digit (uint (HHALF x))" "is_digit (uint (LHALF x))"
    using div_mult_mod_eq [of "uint x" BB] quot_less [of BB "uint x" BB] by (simp_all add: pos_imp_zdiv_nonneg_iff)
qed

lemma num_digits4: "num (digits4 q) 0 4 = uint q" "digs (digits4 q)" "length (digits4 q) = 4"
proof -
  show "num (digits4 q) 0 4 = uint q"
    using uint_quad [of q] uint_half(1) [of "ulH q"] uint_half(1) [of "ulL q"] by (simp add: digits4_def eval_nat_numeral)
  show "digs (digits4 q)" "length (digits4 q) = 4"
    using uint_half(2,3) by (simp_all add: digits4_def digs_def)
qed

lemma quad_word_of_int: "0 \<le> c \<Longrightarrow> c < 2 ^ 32 \<Longrightarrow> quad (word_of_int c) = word_of_int c"
  by (simp add: unsigned_of_int take_bit_int_eq_self)

lemma undigits_num:
  assumes "digs ds" "length ds = 4"
  shows "undigits ds = word_of_int (num ds 0 4)"
proof -
  have d: "is_digit (ds ! 0)" "is_digit (ds ! 1)" "is_digit (ds ! 2)" "is_digit (ds ! 3)"
    using assms by (auto intro!: digs_nth)
  have num: "num ds 0 4 = 2 ^ 32 * (ds ! 0 * BB + ds ! 1) + (ds ! 2 * BB + ds ! 3)"
    by (simp add: eval_nat_numeral)
  have "quad (word_of_int (ds ! 0 * BB + ds ! 1)) = word_of_int (ds ! 0 * BB + ds ! 1)"
    "quad (word_of_int (ds ! 2 * BB + ds ! 3)) = word_of_int (ds ! 2 * BB + ds ! 3)"
    using d by (intro quad_word_of_int; simp)+
  moreover have "W = word_of_int (2 ^ 32)" by (simp add: W_def)
  ultimately show ?thesis
    unfolding undigits_def COMBINE_eq [OF d(1,2)] COMBINE_eq [OF d(3,4)] uu_ring num of_int_add of_int_mult by simp
qed

text \<open>Division by one digit.\<close>

lemma short_step:
  assumes "is_digit t" "0 \<le> r" "r < t" "is_digit x"
  shows "COMBINE r x = r * BB + x \<and> is_digit ((r * BB + x) div t)"
proof -
  have "(r + 1) * BB \<le> t * BB" using assms by (intro mult_right_mono) simp_all
  then have "r * BB + x < BB * t" using assms by (simp add: algebra_simps)
  then show ?thesis using assms quot_less [of t "r * BB + x" BB] COMBINE_eq [of r x] by (simp add: pos_imp_zdiv_nonneg_iff)
qed

lemma short_value:
  fixes t N x :: int
  assumes "0 < t"
  shows "(N * BB + x) div t = N div t * BB + (N mod t * BB + x) div t" "(N * BB + x) mod t = (N mod t * BB + x) mod t"
proof -
  have "N * BB = (N div t * t + N mod t) * BB" by simp
  then have *: "N * BB + x = (N div t * BB) * t + (N mod t * BB + x)" by (simp only: algebra_simps)
  show "(N * BB + x) div t = N div t * BB + (N mod t * BB + x) div t" "(N * BB + x) mod t = (N mod t * BB + x) mod t"
    unfolding * using assms by (simp_all only: div_mult_self3 mod_mult_self3)
qed

lemma short_div_ok:
  assumes "digs u" "length u = 5" "is_digit t" "0 < t"
  shows "case short_div u t of (q, r) \<Rightarrow> digs q \<and> length q = 4 \<and> num q 0 4 = num u 1 4 div t \<and> r = num u 1 4 mod t"
proof -
  have d: "is_digit (u ! 1)" "is_digit (u ! 2)" "is_digit (u ! 3)" "is_digit (u ! 4)"
    using assms by (auto intro!: digs_nth)
  have m: "0 \<le> x mod t" "x mod t < t" for x using assms by simp_all
  note st = short_step [OF assms(3) m]
  have n: "num u 1 1 = u ! 1" "num u 1 2 = num u 1 1 * BB + u ! 2" "num u 1 3 = num u 1 2 * BB + u ! 3" "num u 1 4 = num u 1 3 * BB + u ! 4"
    by (simp_all add: eval_nat_numeral)
  define q1 q2 q3 q4 where "q1 = num u 1 1 div t" and "q2 = (num u 1 1 mod t * BB + u ! 2) div t"
    and "q3 = (num u 1 2 mod t * BB + u ! 3) div t" and "q4 = (num u 1 3 mod t * BB + u ! 4) div t"
  have "is_digit q1" using short_step [OF assms(3), of 0 "u ! 1"] assms(4) d(1) n(1) by (simp add: q1_def)
  then have q: "digs [q1, q2, q3, q4]"
    unfolding q2_def q3_def q4_def digs_def using st d by simp
  have "num u 1 4 div t = ((q1 * BB + q2) * BB + q3) * BB + q4"
    using short_value(1) [OF assms(4), of "num u 1 3" "u ! 4"] short_value(1) [OF assms(4), of "num u 1 2" "u ! 3"]
      short_value(1) [OF assms(4), of "num u 1 1" "u ! 2"]
    unfolding n(2-4) [symmetric] q1_def [symmetric] q2_def [symmetric] q3_def [symmetric] q4_def [symmetric] by (simp only:)
  then have v: "num [q1, q2, q3, q4] 0 4 = num u 1 4 div t" by (simp add: eval_nat_numeral)
  have "short_div u t = ([q1, q2, q3, q4], num u 1 4 mod t)"
    unfolding short_div_def Let_def q1_def q2_def q3_def q4_def n(4) n(3) n(2) n(1) 
    by (simp add: st d short_value(2) [OF assms(4), symmetric])
  with q v show ?thesis by simp
qed

section \<open>The whole division\<close>

lemma num_zero: "digs u \<Longrightarrow> a + i \<le> length u \<Longrightarrow> num u a i = 0 \<Longrightarrow> k < i \<Longrightarrow> u ! (a + k) = 0"
proof (induction i)
  case (Suc i)
  have "is_digit (u ! (a + i))" using Suc.prems by (intro digs_nth) simp_all
  moreover have "0 \<le> num u a i" using Suc.prems num_bounds [of u a i] by simp
  ultimately show ?case using Suc by (cases "k = i") simp_all
qed simp

lemma num_pad: "num (replicate k 0 @ u) 0 (k + i) = num u 0 i"
proof (induction k)
  case (Suc k)
  then show ?case using num_skip [of "0 # replicate k 0 @ u" 0 "k + i"] by (simp add: num_Cons del: num.simps)
qed simp

lemma digs_pad: "digs u \<Longrightarrow> digs (replicate k 0 @ u)"
  by (auto simp: digs_def)

text \<open>D1: dividend and divisor are multiplied by the same power of two.\<close>

lemma normalise_ok:
  assumes n: "2 \<le> n" and v: "length v = Suc n" "digs v" "1 \<le> v ! 1" and u: "length u = Suc (m + n)" "digs u" "u ! 0 = 0"
  obtains d u' v' where "norm (v ! 1) 0 = Some d" "u' = (if 0 < d then shl u (m + n) d else u)"
    "v' = (if 0 < d then hd v # shl (tl v) (n - 1) d else v)" "d < 16" "digs u'" "digs v'" "length u' = Suc (m + n)" "length v' = Suc n"
    "num u' 0 (Suc (m + n)) = num u 1 (m + n) * 2 ^ d" "num v' 1 n = num v 1 n * 2 ^ d"
proof -
  have "v ! 1 < BB" using digs_nth [OF v(2), of 1] v(1) n by simp
  then obtain d where d: "norm (v ! 1) 0 = Some d" "v ! 1 * 2 ^ d < BB" using norm_ok [OF v(3), of 0] by auto
  have d16: "d < 16" using norm_less [OF v(3) d(2)] .
  have U: "num u 0 (Suc (m + n)) = num u 1 (m + n)" using num_skip [of u 0, OF u(3)] by simp
  obtain h r where hr: "v = h # r" "digs r" "is_digit h" "length r = Suc (n - 1)" using v n by (cases v) (auto simp: digs_def)
  have V: "num v 1 n = num r 0 (Suc (n - 1))" using n hr(1) num_Cons [of h r 0 n] by (simp del: num.simps)
  show thesis
  proof (cases "d = 0")
    case True
    then show thesis using d(1) d16 u v U by (intro that [of 0 u v]) simp_all
  next
    case False
    define u' v' where "u' = shl u (m + n) d" and "v' = h # shl r (n - 1) d"
    have su: "digs u'" "length u' = Suc (m + n)" "num u' 0 (Suc (m + n)) = num u 1 (m + n) * 2 ^ d"
      using shl_ok [OF _ d16 u(2,1)] False U u(3) by (simp_all add: u'_def del: num.simps)
    have "v ! 1 * 2 ^ d < 2 ^ (16 - d) * 2 ^ d" using d(2) shift_factors [of d] d16 by (simp only: mult.commute less_imp_le)
    then have "v ! 1 < 2 ^ (16 - d)" by (rule mult_right_less_imp_less) simp
    then have "r ! 0 div 2 ^ (16 - d) = 0" using v(3) hr(1) by (simp add: div_pos_pos_trivial)
    then have sv: "digs v'" "length v' = Suc n" "num v' 1 n = num v 1 n * 2 ^ d"
      using shl_ok [OF _ d16 hr(2,4)] False V n hr(3) num_Cons [of h "shl r (n - 1) d" 0 n] by (simp_all add: v'_def digs_def del: num.simps)
    show thesis using d(1) d16 False su sv hr(1) by (intro that [of d u' v']) (simp_all add: u'_def v'_def)
  qed
qed


lemma num_lead:
  assumes "digs u" "a + Suc i \<le> length u"
  shows "1 \<le> u ! a \<longleftrightarrow> BB ^ i \<le> num u a (Suc i)"
proof
  have b: "0 \<le> num u (Suc a) i" "num u (Suc a) i < BB ^ i" using num_bounds [of u "Suc a" i] assms by simp_all
  { assume "1 \<le> u ! a"
    then have "1 * BB ^ i \<le> u ! a * BB ^ i" by (intro mult_right_mono) simp_all
    then show "BB ^ i \<le> num u a (Suc i)" using b unfolding num_first by linarith }
  { assume le: "BB ^ i \<le> num u a (Suc i)"
    have "u ! a \<noteq> 0" using le b unfolding num_first by auto
    then show "1 \<le> u ! a" using digs_nth [OF assms(1), of a] assms(2) by simp }
qed

lemma first_digits_less:
  assumes "digs u" "length u = Suc m + n" "1 \<le> n" "num u 0 (n + Suc m) = U * c" "U < BB ^ (m + n)" "BB ^ (n - 1) \<le> V" "0 < c"
  shows "num u 0 n < V * c"
proof -
  have "num u 0 n * BB ^ Suc m \<le> U * c"
    using num_split [of u 0 n "Suc m"] num_bounds [of u n "Suc m"] assms(1,2,4) by simp
  also have "\<dots> < BB ^ (m + n) * c" using assms(5,7) by simp
  also have "BB ^ (m + n) = BB ^ (n - 1) * BB ^ Suc m" unfolding power_add [symmetric] using assms(3) by simp
  also have "BB ^ (n - 1) * BB ^ Suc m * c \<le> V * BB ^ Suc m * c" using assms(6,7) by (intro mult_right_mono) simp_all
  finally have "num u 0 n * BB ^ Suc m < (V * c) * BB ^ Suc m" by (simp only: ac_simps)
  then show ?thesis by (rule mult_right_less_imp_less) simp
qed

text \<open>D2 to D8 on the normalised numbers.\<close>

lemma long_div_ok:
  assumes n: "2 \<le> n" and v: "length v = Suc n" "digs v" "1 \<le> v ! 1" and u: "length u = Suc (m + n)" "digs u" "u ! 0 = 0"
  shows "\<exists>d q w. norm (v ! 1) 0 = Some d \<and>
    div_loop (if 0 < d then hd v # shl (tl v) (n - 1) d else v) n 0 (m + 1) (if 0 < d then shl u (m + n) d else u) = Some (q, w) \<and>
    length q = Suc m \<and> digs q \<and> num q 0 (Suc m) = num u 1 (m + n) div num v 1 n \<and>
    (let w = (if 0 < d then unshift d m n w else w) in
       length w = Suc (m + n) \<and> digs w \<and> w ! 0 = 0 \<and> num w 0 (Suc (m + n)) = num u 1 (m + n) mod num v 1 n)"
proof -
  define U V where "U = num u 1 (m + n)" and "V = num v 1 n"
  obtain d u' v' where d: "norm (v ! 1) 0 = Some d" and ifs: "u' = (if 0 < d then shl u (m + n) d else u)"
    "v' = (if 0 < d then hd v # shl (tl v) (n - 1) d else v)" and *: "d < 16" "digs u'" "digs v'" "length u' = Suc (m + n)" "length v' = Suc n"
    "num u' 0 (Suc (m + n)) = U * 2 ^ d" "num v' 1 n = V * 2 ^ d"
    using normalise_ok [OF assms] unfolding U_def V_def by metis
  have n1: "Suc (n - 1) = n" using n by simp
  have V: "BB ^ (n - 1) \<le> V" using num_lead [of v 1 "n - 1"] v unfolding V_def n1 by simp
  also have "V \<le> V * 2 ^ d" using order.trans [OF _ V, of 0] mult_left_mono [of 1 "2 ^ d" V] by simp
  finally have v'1: "1 \<le> v' ! 1" using num_lead [of v' 1 "n - 1"] *(3,5,7) unfolding n1 by simp
  have "U < BB ^ (m + n)" using num_bounds [of u 1 "m + n"] u by (simp add: U_def)
  then have small: "num u' 0 n < num v' 1 n" unfolding *(7)
    using n V *(2,4,6) by (intro first_digits_less [of u' m n U]) (simp_all add: add.commute del: num.simps)
  obtain q w where q: "div_loop v' n 0 (m + 1) u' = Some (q, w)" "length q = m + 1" "digs q" "same_out 0 (m + 1 + n) u' w"
      "num q 0 (m + 1) = U * 2 ^ d div (V * 2 ^ d)" "num w 0 (m + 1) = 0" "num w (m + 1) n = U * 2 ^ d mod (V * 2 ^ d)"
    using div_loop_ok [OF *(3) _ n v'1 *(2) _ small, of "m + 1"] *(4-7) by (auto simp del: num.simps)
  have quot: "num q 0 (Suc m) = U div V" "num w (Suc m) n = U mod V * 2 ^ d"
    using q(5,7) by (simp_all add: mult_mod_left del: num.simps)
  have wd: "length w = Suc (m + n)" "digs w" using q(4) *(4) by (simp_all add: same_out_def)
  have zero: "w ! i = 0" if "i \<le> m" for i using num_zero [OF wd(2) _ q(6), of i] that wd(1) by simp
  define w' where "w' = (if 0 < d then unshift d m n w else w)"
  have w': "length w' = Suc (m + n)" "digs w'" "\<forall>i \<le> m. w' ! i = 0" "num w' (Suc m) n = U mod V"
    using unshift_ok [of d w m n] *(1) wd zero quot(2) by (auto simp: w'_def)
  have "num w' 0 (Suc m) = num (replicate (Suc m) 0) 0 (Suc m)" using w'(3) by (intro num_cong) (simp del: replicate_Suc)
  moreover have "\<dots> = 0" using num_pad [of "Suc m" "[]" 0] by simp
  ultimately have "num w' 0 (Suc (m + n)) = U mod V" using num_split [of w' 0 "Suc m" n] w'(4) by simp
  then show ?thesis using d q(1-3) quot(1) w' unfolding ifs U_def V_def w'_def Let_def
    by (intro exI [of _ d] exI [of _ q] exI [of _ w]) simp
qed


lemma word_quotient: "word_of_int (uint a div uint b) = a div b" "word_of_int (uint a mod uint b) = a mod b"
  for a b :: u64
  by (simp_all add: word_div_def word_mod_def)

lemma rem_digits:
  assumes "length w = Suc k" "k \<le> 4" "digs w" "w ! 0 = 0"
  shows "undigits (tl (replicate (5 - length w) 0 @ w)) = word_of_int (num w 0 (Suc k))"
proof -
  define x where "x = replicate (4 - k) 0 @ w"
  have x: "digs x" "length x = 5" using assms by (simp_all add: x_def digs_pad)
  have "x ! 0 = 0" using assms by (cases "4 - k") (simp_all add: x_def)
  then have "num (tl x) 0 4 = num x 0 (Suc 4)" using x num_skip [of x 0 4] num_tl [of x 0 4] by (cases x) simp_all
  also have "\<dots> = num w 0 (Suc k)" using num_pad [of "4 - k" w "Suc k"] assms(2) by (simp add: x_def del: num.simps)
  finally show ?thesis using undigits_num [OF digs_tl [OF x(1)]] x(2) assms(1) by (simp add: x_def del: num.simps)
qed

lemma qdivrem_eq:
  assumes "vq \<noteq> 0"
  shows "qdivrem uq vq = Some (uq div vq, uq mod vq)"
proof (cases "uq < vq")
  case True
  then show ?thesis using assms by (simp add: qdivrem_def div_word_less mod_word_less)
next
  case False
  define u v where "u = 0 # digits4 uq" and "v = 0 # digits4 vq"
  have u: "length u = 5" "digs u" "u ! 0 = 0" "num u 1 4 = uint uq"
    and v: "length v = 5" "digs v" "num v 1 4 = uint vq"
    using num_digits4 num_Cons [of 0 "digits4 uq" 0 4] num_Cons [of 0 "digits4 vq" 0 4] by (simp_all add: u_def v_def digs_def)
  have pos: "0 < uint vq" using assms uint_0_iff [of vq] uint_ge_0 [of vq] by linarith
  have le: "uint vq \<le> uint uq" using False by (simp add: word_less_def)
  show ?thesis
  proof (cases "lead_v 4 v")
    case (Inl v')
    then have t: "v' ! 2 = uint vq" "is_digit (v' ! 2)" using lead_v_ok [of 4 v] v by simp_all
    then have "case short_div u (uint vq) of (q, r) \<Rightarrow> digs q \<and> length q = 4 \<and> num q 0 4 = uint uq div uint vq \<and> r = uint uq mod uint vq"
      using short_div_ok [OF u(2,1), of "uint vq"] pos u(4) by simp
    then show ?thesis using assms False Inl t(1) undigits_num
      by (auto simp: qdivrem_def u_def [symmetric] v_def [symmetric] word_quotient split: prod.splits)
  next
    case (Inr nv)
    then obtain n v' where nv: "lead_v 4 v = Inr (n, v')" by (cases nv) simp
    then have n: "2 \<le> n" "n \<le> 4" and v': "length v' = Suc n" "digs v'" "1 \<le> v' ! 1" "num v' 1 n = uint vq"
      using lead_v_ok [of 4 v] v by simp_all
    have "BB ^ (n - 1) \<le> num v' 1 (Suc (n - 1))" using num_lead [of v' 1 "n - 1"] v' n by simp
    then have "BB ^ (n - 1) \<le> num u 1 (4 - n + n)" using le v'(4) u(4) n by simp
    then obtain m u' where m: "lead_u (4 - n) u = Some (m, u')" "m \<le> 4 - n"
        and u': "length u' = Suc (m + n)" "digs u'" "u' ! 0 = 0" "num u' 1 (m + n) = uint uq"
      using lead_u_ok [of n u "4 - n"] n u by auto
    from long_div_ok [OF n(1) v'(1-3) u'(1-3)] obtain d q w where d: "norm (v' ! 1) 0 = Some d"
      "div_loop (if 0 < d then hd v' # shl (tl v') (n - 1) d else v') n 0 (m + 1) (if 0 < d then shl u' (m + n) d else u') = Some (q, w)"
      and q: "length q = Suc m" "digs q" "num q 0 (Suc m) = uint uq div uint vq"
      and w: "let w = (if 0 < d then unshift d m n w else w) in
       length w = Suc (m + n) \<and> digs w \<and> w ! 0 = 0 \<and> num w 0 (Suc (m + n)) = uint uq mod uint vq"
      unfolding u'(4) v'(4) by blast
    define w' where "w' = (if 0 < d then unshift d m n w else w)"
    have "undigits (replicate (3 - m) 0 @ q) = uq div vq"
      using q m(2) n undigits_num [OF digs_pad [OF q(2)], of "3 - m"] num_pad [of "3 - m" q "Suc m"] by (simp add: word_quotient del: num.simps)
    moreover have "undigits (tl (replicate (5 - length w') 0 @ w')) = uq mod vq"
      using rem_digits [of w' "m + n"] w [folded w'_def, unfolded Let_def] m(2) n by (simp add: word_quotient del: num.simps)
    ultimately have out: "Some (undigits (replicate (3 - m) 0 @ q), undigits (tl (replicate (5 - length w') 0 @ w'))) = Some (uq div vq, uq mod vq)"
      by (simp only:)
    have "qdivrem uq vq = Some (undigits (replicate (3 - m) 0 @ q), undigits (tl (replicate (5 - length w') 0 @ w')))"
      unfolding qdivrem_def u_def [symmetric] v_def [symmetric] w'_def
      using assms False d by (simp only: Let_def nv m(1) if_False sum.case prod.case bind.bind_lunit)
    with out show ?thesis by (simp only:)
  qed
qed

section \<open>Signed division\<close>

lemma magnitude: "uint (if sint a < 0 then - a else a) = \<bar>sint a\<bar>" for a :: u64
proof -
  have "(if sint a < 0 then - a else a) = word_of_int \<bar>sint a\<bar>" by (simp add: abs_if)
  moreover have "\<bar>sint a\<bar> < 2 ^ 64" using sint_ge [of a] sint_lt [of a] by simp
  ultimately show ?thesis by (simp add: unsigned_of_int take_bit_int_eq_self)
qed

lemma magnitude_zero: "(if sint a < 0 then - a else a) = 0 \<longleftrightarrow> a = 0" for a :: u64
  by simp

lemma qdivrem_magnitudes:
  assumes "b \<noteq> 0"
  shows "qdivrem (if sint a < 0 then - a else a) (if sint b < 0 then - b else b) =
    Some (word_of_int (\<bar>sint a\<bar> div \<bar>sint b\<bar>), word_of_int (\<bar>sint a\<bar> mod \<bar>sint b\<bar>))"
  using assms by (subst qdivrem_eq) (simp_all only: magnitude_zero word_div_def word_mod_def magnitude simp_thms)

lemma qdivrem_zero: "qdivrem a 0 = None"
  by (simp add: qdivrem_def)

lemma divdi3_eq: "b \<noteq> 0 \<Longrightarrow> divdi3 a b = Some (word_of_int (sint a sdiv sint b))"
  using qdivrem_magnitudes [of b a]
  by (auto simp: divdi3_def signed_divide_int_def sgn_if split: if_splits)

lemma moddi3_eq: "b \<noteq> 0 \<Longrightarrow> moddi3 a b = Some (word_of_int (sint a smod sint b))"
  using qdivrem_magnitudes [of b a]
  by (auto simp: moddi3_def signed_modulo_int_def sgn_if split: if_splits)

section \<open>Properties\<close>

text \<open>
  C1. Knuth's algorithm D, with its normalising shift, its trial quotients corrected in a loop, its multiply
  and subtract with borrows and its add-back step, all in 16-bit digits and 32-bit intermediates, returns the
  quotient and the remainder of every pair of 64-bit numbers; its loops end, and the only input without a
  result is a zero divisor.
\<close>

theorem qdivrem_correct:
  "qdivrem uq vq = (if vq = 0 then None else Some (uq div vq, uq mod vq))"
  by (simp add: qdivrem_eq qdivrem_zero)

text \<open>
  C25. The division entry points: the unsigned ones return quotient and remainder, the signed ones the
  quotient truncated towards zero and the remainder with the sign of the dividend, reduced to 64 bits (the
  least number divided by minus one wraps to itself).
\<close>

theorem quad_division_correct:
  "udivdi3 a b = (if b = 0 then None else Some (a div b)) \<and>
   umoddi3 a b = (if b = 0 then None else Some (a mod b)) \<and>
   divdi3 a b = (if b = 0 then None else Some (word_of_int (sint a sdiv sint b))) \<and>
   moddi3 a b = (if b = 0 then None else Some (word_of_int (sint a smod sint b)))"
proof (cases "b = 0")
  case True
  then show ?thesis by (simp add: udivdi3_def umoddi3_def divdi3_def moddi3_def qdivrem_zero)
next
  case False
  then show ?thesis by (simp add: udivdi3_def umoddi3_def qdivrem_eq divdi3_eq moddi3_eq)
qed

end
